(* ===== verification/Prelude.thy ===== *)
theory Prelude
  imports Complex_Main "HOL-Library.Word"
begin

text \<open>
  Shared vocabulary of the development: bytes and C strings, the character
  classes of \<^verbatim>\<open><ctype.h>\<close>, C's \<^verbatim>\<open>memcmp\<close>, two's complement conversions
  between 64-bit integers written out on \<^typ>\<open>int\<close>, and the generic lemmas on
  lists that the component theories share.  Facts that unfold the small
  character predicates are collected in \<open>ctype_defs\<close>; the arithmetic of the
  64-bit conversions is collected in \<open>wrap_simps\<close>.
\<close>

unbundle bit_operations_syntax

named_theorems ctype_defs "definitions of the character classes"
named_theorems wrap_simps "identities of the 64-bit conversions"

type_synonym byte = "8 word"

section \<open>Characters and zero-terminated strings\<close>

text \<open>The numeric value of a byte of text, as C's \<^verbatim>\<open>unsigned char\<close> promoted to \<^verbatim>\<open>int\<close>.\<close>

definition ord_char :: "char \<Rightarrow> int" where
  "ord_char c = of_char c"

abbreviation NUL :: char where
  "NUL \<equiv> CHR 0x00"

text \<open>\<^verbatim>\<open>z[0]\<close> of a zero-terminated string: past the last byte stands the terminator.\<close>

fun cur :: "string \<Rightarrow> char" where
  "cur [] = NUL"
| "cur (c # cs) = c"

text \<open>The text a C function sees of a buffer: everything before the first NUL.\<close>

definition c_str :: "string \<Rightarrow> string" where
  "c_str z = takeWhile (\<lambda>c. c \<noteq> NUL) z"

definition isdigit :: "char \<Rightarrow> bool" where
  [ctype_defs]: "isdigit c \<longleftrightarrow> 48 \<le> ord_char c \<and> ord_char c \<le> 57"

definition isxdigit :: "char \<Rightarrow> bool" where
  [ctype_defs]: "isxdigit c \<longleftrightarrow>
     (48 \<le> ord_char c \<and> ord_char c \<le> 57) \<or>
     (97 \<le> ord_char c \<and> ord_char c \<le> 102) \<or>
     (65 \<le> ord_char c \<and> ord_char c \<le> 70)"

text \<open>\<^verbatim>\<open>isspace\<close> of the C locale: space, and the controls 9 to 13.\<close>

definition isspace :: "char \<Rightarrow> bool" where
  [ctype_defs]: "isspace c \<longleftrightarrow> ord_char c = 32 \<or> (9 \<le> ord_char c \<and> ord_char c \<le> 13)"

lemma ord_char_bounds [simp]: "0 \<le> ord_char c" "ord_char c < 256" "ord_char c \<le> 255"
proof -
  obtain n :: nat where n: "ord_char c = int n" "n < 256"
    using nat_of_char_less_256 [of c] by (metis ord_char_def of_nat_of_char)
  then show "0 \<le> ord_char c" "ord_char c < 256" "ord_char c \<le> 255"
    by simp_all
qed

lemma ord_char_inject [simp]: "ord_char c = ord_char d \<longleftrightarrow> c = d"
  by (simp add: ord_char_def)

lemma isdigit_isxdigit: "isdigit c \<Longrightarrow> isxdigit c"
  by (simp add: ctype_defs)

lemma not_isdigit_NUL [simp]: "\<not> isdigit NUL" "\<not> isxdigit NUL" "\<not> isspace NUL"
  by (simp_all add: ctype_defs ord_char_def)

lemma NUL_not_in_c_str [simp]: "NUL \<notin> set (c_str z)"
  by (auto simp: c_str_def dest: set_takeWhileD)

lemma c_str_id: "NUL \<notin> set z \<Longrightarrow> c_str z = z"
  by (auto simp: c_str_def intro: takeWhile_eq_all_conv [THEN iffD2])

section \<open>Comparing memory\<close>

text \<open>
  \<^verbatim>\<open>memcmp(x, y, n)\<close>: C specifies only the sign of the result, the order of the
  first unequal bytes.
\<close>

fun memcmp :: "int list \<Rightarrow> int list \<Rightarrow> nat \<Rightarrow> int" where
  "memcmp xs ys 0 = 0"
| "memcmp (x # xs) (y # ys) (Suc n) =
     (if x < y then - 1 else if y < x then 1 else memcmp xs ys n)"
| "memcmp _ _ (Suc n) = 0"

section \<open>Two's complement at 64 bits\<close>

definition to_u64 :: "int \<Rightarrow> int" where
  "to_u64 x = x mod 2 ^ 64"

definition to_s64 :: "int \<Rightarrow> int" where
  "to_s64 x = (x + 2 ^ 63) mod 2 ^ 64 - 2 ^ 63"

definition s64 :: "int \<Rightarrow> bool" where
  "s64 x \<longleftrightarrow> - (2 ^ 63) \<le> x \<and> x < 2 ^ 63"

lemma to_s64_id [wrap_simps]: "s64 x \<Longrightarrow> to_s64 x = x"
  by (simp add: to_s64_def s64_def)

lemma to_u64_id [wrap_simps]: "0 \<le> x \<Longrightarrow> x < 2 ^ 64 \<Longrightarrow> to_u64 x = x"
  by (simp add: to_u64_def)

lemma s64_to_s64 [simp]: "s64 (to_s64 x)"
proof -
  have "0 \<le> (x + 2 ^ 63) mod 2 ^ 64" "(x + 2 ^ 63) mod 2 ^ 64 < 2 ^ 64"
    by simp_all
  then show ?thesis by (simp add: s64_def to_s64_def)
qed

lemma to_u64_bounds [simp]: "0 \<le> to_u64 x" "to_u64 x < 2 ^ 64"
  by (simp_all add: to_u64_def)

lemma to_s64_to_u64 [wrap_simps]: "to_s64 (to_u64 x) = to_s64 x"
  by (simp add: to_s64_def to_u64_def mod_add_left_eq)

lemma to_s64_add_u64 [wrap_simps]:
  "to_s64 (to_u64 x + y) = to_s64 (x + y)" "to_s64 (to_u64 x - y) = to_s64 (x - y)"
proof -
  have "(x mod 2 ^ 64 + y + 2 ^ 63) mod 2 ^ 64 = (x + y + 2 ^ 63) mod 2 ^ 64"
    by (metis (no_types, opaque_lifting) add.assoc mod_add_left_eq)
  then show "to_s64 (to_u64 x + y) = to_s64 (x + y)"
    by (simp add: to_s64_def to_u64_def)
  have "(x mod 2 ^ 64 - y + 2 ^ 63) mod 2 ^ 64 = (x - y + 2 ^ 63) mod 2 ^ 64"
    by (metis (no_types, opaque_lifting) add_diff_eq diff_add_eq mod_add_left_eq)
  then show "to_s64 (to_u64 x - y) = to_s64 (x - y)"
    by (simp add: to_s64_def to_u64_def)
qed

text \<open>A property of a byte holds when it holds of all 256 of them.\<close>

lemma byte_cases:
  fixes x :: byte
  assumes "\<forall>n \<in> set [0..<256]. P (word_of_nat n)"
  shows "P x"
proof -
  have "unat x \<in> set [0..<256]" using unsigned_less [of x, where ?'a = nat] by simp
  from bspec [OF assms this] show ?thesis by simp
qed

section \<open>Codecs\<close>

text \<open>
  The contract shared by the conversions of the extensions between a value and
  its external form: decoding inverts encoding on valid values, and decoding
  yields valid values only.  \<open>canon\<close> rewrites an accepted external form into
  the one the encoder produces.
\<close>

locale codec =
  fixes enc :: "'a \<Rightarrow> 'b" and dec :: "'b \<Rightarrow> 'a option" and valid :: "'a \<Rightarrow> bool"
  assumes dec_enc: "valid x \<Longrightarrow> dec (enc x) = Some x"
    and dec_valid: "dec t = Some x \<Longrightarrow> valid x"
begin

lemma enc_inj: "valid x \<Longrightarrow> valid y \<Longrightarrow> enc x = enc y \<Longrightarrow> x = y"
  by (metis dec_enc option.inject)

lemma canon_idem:
  "map_option enc (dec t) = Some u \<Longrightarrow> map_option enc (dec u) = Some u"
  using dec_enc dec_valid by auto

lemma canon_eq_iff: "map_option enc (dec t) = map_option enc (dec u) \<longleftrightarrow> dec t = dec u"
  by (cases "dec t"; cases "dec u") (auto dest: dec_valid intro: enc_inj)

end

end
