(* ===== verification/Sqlite_Api.thy ===== *)
theory Sqlite_Api
  imports Prelude
begin

text \<open>
  The interface between the extensions and the SQLite core.  The extensions
  reach the core only through the table of function pointers
  \<^verbatim>\<open>sqlite3_api\<close> (\<^verbatim>\<open>SQLITE_EXTENSION_INIT1\<close> to \<^verbatim>\<open>INIT3\<close>); the core itself is not
  part of the repository, so the routines the extensions call are the fields
  of a record that every definition takes as an argument.  What SQLite
  documents of them is the predicate \<open>api_spec\<close>; \<open>ref_api\<close> is one table
  that satisfies it.
\<close>

section \<open>Result codes\<close>

abbreviation (input) SQLITE_OK :: int where "SQLITE_OK \<equiv> 0"
abbreviation (input) SQLITE_ERROR :: int where "SQLITE_ERROR \<equiv> 1"
abbreviation (input) SQLITE_BUSY :: int where "SQLITE_BUSY \<equiv> 5"
abbreviation (input) SQLITE_NOMEM :: int where "SQLITE_NOMEM \<equiv> 7"
abbreviation (input) SQLITE_CONSTRAINT :: int where "SQLITE_CONSTRAINT \<equiv> 19"

section \<open>Values, results\<close>

text \<open>
  A dynamically typed SQL value, one constructor per fundamental type code.
  A floating point value carries the bits of its IEEE 754 binary64 encoding.
\<close>

datatype sqlite3_value =
    SQLITE_INTEGER int
  | SQLITE_FLOAT "64 word"
  | SQLITE_TEXT string
  | SQLITE_BLOB "byte list"
  | SQLITE_NULL

text \<open>
  What a SQL function leaves in its \<^verbatim>\<open>sqlite3_context\<close>.  A function that sets
  no result leaves the initial NULL.
\<close>

datatype sql_result =
    ResNull
  | ResInt int
  | ResDouble "64 word"
  | ResText string
  | ResBlob "byte list"
  | ResNomem
  | ResError string

section \<open>The routines of the core\<close>

record sqlite3_api_routines =
  malloc64 :: "int \<Rightarrow> bool"
    \<comment> \<open>is a request for that many bytes granted (malloc64, realloc64)?\<close>
  value_text :: "sqlite3_value \<Rightarrow> string option"
    \<comment> \<open>None is the NULL pointer\<close>
  value_int64 :: "sqlite3_value \<Rightarrow> int"
  value_double :: "sqlite3_value \<Rightarrow> 64 word"
  value_numeric_is_float :: "sqlite3_value \<Rightarrow> bool"
    \<comment> \<open>sqlite3_value_numeric_type() is SQLITE_FLOAT\<close>
  snprintf_lld :: "int \<Rightarrow> string"
    \<comment> \<open>sqlite3_snprintf() of the conversion %lld\<close>
  snprintf_exp :: "int \<Rightarrow> string"
    \<comment> \<open>sqlite3_snprintf() of the format e%+03d\<close>

text \<open>\<^verbatim>\<open>sqlite3_value_int()\<close> is the lower 32 bits of the 64-bit value.\<close>

definition value_int :: "sqlite3_api_routines \<Rightarrow> sqlite3_value \<Rightarrow> int" where
  "value_int api v = (value_int64 api v + 2 ^ 31) mod 2 ^ 32 - 2 ^ 31"

text \<open>Decimal digits of a natural number, most significant first.\<close>

fun nat_digits :: "nat \<Rightarrow> nat list" where
  "nat_digits n = (if n < 10 then [n] else nat_digits (n div 10) @ [n mod 10])"

declare nat_digits.simps [simp del]

definition digit_char :: "nat \<Rightarrow> char" where
  "digit_char d = char_of (48 + d)"

text \<open>C's conversions \<^verbatim>\<open>%lld\<close> and \<^verbatim>\<open>e%+03d\<close>: sign, then at least two digits for the second.\<close>

definition fmt_int :: "int \<Rightarrow> string" where
  "fmt_int m = (if m < 0 then ''-'' else []) @ map digit_char (nat_digits (nat \<bar>m\<bar>))"

definition fmt_exp :: "int \<Rightarrow> string" where
  "fmt_exp e =
     ''e'' @ (if e < 0 then ''-'' else ''+'') @
     (if \<bar>e\<bar> < 10 then ''0'' else []) @ map digit_char (nat_digits (nat \<bar>e\<bar>))"

text \<open>
  The documented behaviour of the core that the properties rely on.  Nothing
  is assumed of memory requests: every property holds whichever are refused,
  or says so.
\<close>

definition api_spec :: "sqlite3_api_routines \<Rightarrow> bool" where
  "api_spec api \<longleftrightarrow>
     (\<forall>z. value_text api (SQLITE_TEXT z) = Some z) \<and>
     (\<forall>i. value_text api (SQLITE_INTEGER i) = Some (fmt_int i)) \<and>
     (\<forall>i. value_int64 api (SQLITE_INTEGER i) = i) \<and>
     (\<forall>i. \<not> value_numeric_is_float api (SQLITE_INTEGER i)) \<and>
     (\<forall>r. value_double api (SQLITE_FLOAT r) = r) \<and>
     (\<forall>r. value_numeric_is_float api (SQLITE_FLOAT r)) \<and>
     (\<forall>m. snprintf_lld api m = fmt_int m) \<and>
     (\<forall>e. snprintf_exp api e = fmt_exp e)"

definition ref_api :: sqlite3_api_routines where
  "ref_api =
     \<lparr> malloc64 = (\<lambda>n. n < 1000000000),
       value_text = (\<lambda>v. case v of SQLITE_TEXT z \<Rightarrow> Some z
                              | SQLITE_INTEGER i \<Rightarrow> Some (fmt_int i) | _ \<Rightarrow> None),
       value_int64 = (\<lambda>v. case v of SQLITE_INTEGER i \<Rightarrow> i | _ \<Rightarrow> 0),
       value_double = (\<lambda>v. case v of SQLITE_FLOAT r \<Rightarrow> r | _ \<Rightarrow> 0),
       value_numeric_is_float = (\<lambda>v. case v of SQLITE_FLOAT r \<Rightarrow> True | _ \<Rightarrow> False),
       snprintf_lld = fmt_int,
       snprintf_exp = fmt_exp \<rparr>"

lemma api_spec_ref_api: "api_spec ref_api"
  by (simp add: api_spec_def ref_api_def)

lemma api_spec_simps:
  assumes "api_spec api"
  shows "value_text api (SQLITE_TEXT z) = Some z"
    and "value_text api (SQLITE_INTEGER i) = Some (fmt_int i)"
    and "value_int64 api (SQLITE_INTEGER i) = i"
    and "\<not> value_numeric_is_float api (SQLITE_INTEGER i)"
    and "value_double api (SQLITE_FLOAT r) = r"
    and "value_numeric_is_float api (SQLITE_FLOAT r)"
    and "snprintf_lld api m = fmt_int m"
    and "snprintf_exp api e = fmt_exp e"
  using assms by (simp_all add: api_spec_def)

lemma value_int_small: "api_spec api \<Longrightarrow> - (2 ^ 31) \<le> i \<Longrightarrow> i < 2 ^ 31 \<Longrightarrow> value_int api (SQLITE_INTEGER i) = i"
  by (simp add: value_int_def api_spec_simps)

section \<open>Registration\<close>

text \<open>
  \<^verbatim>\<open>sqlite3_create_function\<close>, \<^verbatim>\<open>_window_function\<close>, \<^verbatim>\<open>_collation\<close> and \<^verbatim>\<open>_module\<close> add an
  entry to the connection, or fail with a result code and add nothing.  The
  code each registration returns is a parameter.
\<close>

datatype reg_kind = RegFunction | RegWindow | RegCollation | RegModule

record registration =
  rg_kind :: reg_kind
  rg_name :: string
  rg_nArg :: int
  rg_user :: bool
    \<comment> \<open>is the user data pointer set?\<close>
  rg_func :: string
    \<comment> \<open>the C function that is registered\<close>

type_synonym connection = "registration list"

definition create :: "(registration \<Rightarrow> int) \<Rightarrow> registration \<Rightarrow> connection \<Rightarrow> int \<times> connection" where
  "create rcs r db = (if rcs r = SQLITE_OK then (SQLITE_OK, db @ [r]) else (rcs r, db))"

text \<open>Register a table of entries while the result code is \<^verbatim>\<open>SQLITE_OK\<close>.\<close>

fun create_all :: "(registration \<Rightarrow> int) \<Rightarrow> registration list \<Rightarrow> connection \<Rightarrow> int \<times> connection" where
  "create_all rcs [] db = (SQLITE_OK, db)"
| "create_all rcs (r # rs) db =
     (let (rc, db') = create rcs r db in
      if rc = SQLITE_OK then create_all rcs rs db' else (rc, db'))"

lemma create_all_append:
  "create_all rcs (xs @ ys) db =
     (let (rc, db') = create_all rcs xs db in
      if rc = SQLITE_OK then create_all rcs ys db' else (rc, db'))"
  by (induction xs arbitrary: db) (auto simp: Let_def split: prod.splits)

lemma create_all_ok:
  "(\<forall>r \<in> set rs. rcs r = SQLITE_OK) \<Longrightarrow> create_all rcs rs db = (SQLITE_OK, db @ rs)"
  by (induction rs arbitrary: db) (auto simp: create_def)

lemma create_all_prefix:
  "\<exists>k \<le> length rs. snd (create_all rcs rs db) = db @ take k rs \<and>
     (\<forall>r \<in> set (take k rs). rcs r = SQLITE_OK) \<and>
     (if k < length rs then fst (create_all rcs rs db) = rcs (rs ! k) \<and> rcs (rs ! k) \<noteq> SQLITE_OK
      else fst (create_all rcs rs db) = SQLITE_OK)"
proof (induction rs arbitrary: db)
  case Nil
  then show ?case by simp
next
  case (Cons r rs)
  show ?case
  proof (cases "rcs r = SQLITE_OK")
    case False
    then show ?thesis by (intro exI [of _ 0]) (simp add: create_def)
  next
    case True
    obtain k where "k \<le> length rs"
      "snd (create_all rcs rs (db @ [r])) = (db @ [r]) @ take k rs"
      "\<forall>r \<in> set (take k rs). rcs r = SQLITE_OK"
      "if k < length rs then fst (create_all rcs rs (db @ [r])) = rcs (rs ! k) \<and> rcs (rs ! k) \<noteq> SQLITE_OK
       else fst (create_all rcs rs (db @ [r])) = SQLITE_OK"
      using Cons.IH by blast
    with True show ?thesis
      by (intro exI [of _ "Suc k"]) (auto simp: create_def split: if_splits)
  qed
qed

section \<open>Collations\<close>

text \<open>
  SQLite requires of a collating function that it is a weak order: \<open>den e a x\<close> says that
  in environment \<open>e\<close> the text \<open>a\<close> denotes the key \<open>x\<close>, and the function has to order the
  texts as their keys.  The rules of the documentation follow.
\<close>

locale collating_function =
  fixes den :: "'e \<Rightarrow> 'a \<Rightarrow> 'k::linorder \<Rightarrow> bool" and cmp :: "'e \<Rightarrow> 'a \<Rightarrow> 'a \<Rightarrow> int"
  assumes cmp_key: "den e a x \<Longrightarrow> den e b y \<Longrightarrow> (cmp e a b < 0 \<longleftrightarrow> x < y) \<and> (cmp e a b = 0 \<longleftrightarrow> x = y)"
begin

lemma cmp_antisym: "den e a x \<Longrightarrow> den e b y \<Longrightarrow> cmp e a b < 0 \<longleftrightarrow> 0 < cmp e b a"
  using cmp_key [of e a x b y] cmp_key [of e b y a x] by force

lemma cmp_sym: "den e a x \<Longrightarrow> den e b y \<Longrightarrow> cmp e a b = 0 \<longleftrightarrow> cmp e b a = 0"
  using cmp_key [of e a x b y] cmp_key [of e b y a x] by auto

lemma cmp_eq_trans:
  "den e a x \<Longrightarrow> den e b y \<Longrightarrow> den e c z \<Longrightarrow> cmp e a b = 0 \<Longrightarrow> cmp e b c = 0 \<Longrightarrow> cmp e a c = 0"
  using cmp_key [of e a x b y] cmp_key [of e b y c z] cmp_key [of e a x c z] by auto

lemma cmp_less_trans:
  "den e a x \<Longrightarrow> den e b y \<Longrightarrow> den e c z \<Longrightarrow> cmp e a b < 0 \<Longrightarrow> cmp e b c < 0 \<Longrightarrow> cmp e a c < 0"
  using cmp_key [of e a x b y] cmp_key [of e b y c z] cmp_key [of e a x c z] by auto

lemmas collation_laws = cmp_antisym cmp_sym cmp_eq_trans cmp_less_trans

end

section \<open>Virtual table cursors\<close>

text \<open>
  How the core reads a virtual table: test for the end, read the row, advance.  \<open>scan\<close> is the
  list of the first \<open>n\<close> rows it gets.  A provider promises an invariant and the rows that
  remain; the lemmas say that the core then reads exactly these and reaches the end.
\<close>

fun scan :: "('c \<Rightarrow> bool) \<Rightarrow> ('c \<Rightarrow> 'c) \<Rightarrow> ('c \<Rightarrow> 'v) \<Rightarrow> nat \<Rightarrow> 'c \<Rightarrow> 'v list" where
  "scan eof nxt row 0 c = []"
| "scan eof nxt row (Suc n) c = (if eof c then [] else row c # scan eof nxt row n (nxt c))"

locale vtab_cursor =
  fixes eof :: "'c \<Rightarrow> bool" and nxt :: "'c \<Rightarrow> 'c" and row :: "'c \<Rightarrow> 'v"
    and inv :: "'c \<Rightarrow> bool" and remaining :: "'c \<Rightarrow> 'v list"
  assumes eof_iff: "inv c \<Longrightarrow> eof c \<longleftrightarrow> remaining c = []"
    and next_row: "inv c \<Longrightarrow> \<not> eof c \<Longrightarrow> remaining c = row c # remaining (nxt c)"
    and next_inv: "inv c \<Longrightarrow> \<not> eof c \<Longrightarrow> inv (nxt c)"
begin

lemma scan_take: "inv c \<Longrightarrow> scan eof nxt row n c = take n (remaining c)"
proof (induction n arbitrary: c)
  case (Suc n)
  show ?case
  proof (cases "eof c")
    case True
    then show ?thesis using eof_iff [OF Suc.prems] by simp
  next
    case False
    then show ?thesis using Suc.IH [OF next_inv [OF Suc.prems False]] next_row [OF Suc.prems False] by simp
  qed
qed simp

lemma scan_all: "inv c \<Longrightarrow> length (remaining c) \<le> n \<Longrightarrow> scan eof nxt row n c = remaining c"
  by (simp add: scan_take)

lemma scan_ends: "inv c \<Longrightarrow> eof ((nxt ^^ length (remaining c)) c)"
proof (induction "length (remaining c)" arbitrary: c)
  case 0
  then show ?case using eof_iff by simp
next
  case (Suc n)
  then have ne: "\<not> eof c" using eof_iff [of c] by auto
  have "n = length (remaining (nxt c))" using Suc.hyps(2) next_row [OF Suc.prems ne] by simp
  from Suc.hyps(1) [OF this next_inv [OF Suc.prems ne]] this Suc.hyps(2) show ?case
    by (metis comp_apply funpow_Suc_right)
qed

end

section \<open>The planner's interface\<close>

text \<open>\<^verbatim>\<open>sqlite3_index_info\<close>, with which \<^verbatim>\<open>xBestIndex\<close> of a virtual table is called.\<close>

record index_constraint =
  iColumn :: int
  c_op :: int
  usable :: bool

record constraint_usage =
  argvIndex :: int
  omit :: bool

record index_orderby =
  ob_column :: int
  ob_desc :: bool

record index_info =
  aConstraint :: "index_constraint list"
  aOrderBy :: "index_orderby list"
  aConstraintUsage :: "constraint_usage list"
  plan_idxNum :: int
  orderByConsumed :: bool
  estimatedCost :: int
  estimatedRows :: int

abbreviation (input) CONSTRAINT_EQ :: int where "CONSTRAINT_EQ \<equiv> 2"
abbreviation (input) CONSTRAINT_GT :: int where "CONSTRAINT_GT \<equiv> 4"
abbreviation (input) CONSTRAINT_LE :: int where "CONSTRAINT_LE \<equiv> 8"
abbreviation (input) CONSTRAINT_LT :: int where "CONSTRAINT_LT \<equiv> 16"
abbreviation (input) CONSTRAINT_GE :: int where "CONSTRAINT_GE \<equiv> 32"
abbreviation (input) CONSTRAINT_IS :: int where "CONSTRAINT_IS \<equiv> 72"
abbreviation (input) CONSTRAINT_LIMIT :: int where "CONSTRAINT_LIMIT \<equiv> 73"
abbreviation (input) CONSTRAINT_OFFSET :: int where "CONSTRAINT_OFFSET \<equiv> 74"

section \<open>Decimal digits\<close>

lemma nat_digits_bounds: "\<forall>d \<in> set (nat_digits n). d < 10"
proof (induction n rule: nat_digits.induct)
  case (1 n)
  then show ?case by (subst nat_digits.simps) auto
qed

lemma nat_digits_ne [simp]: "nat_digits n \<noteq> []"
  by (subst nat_digits.simps) simp

lemma nat_digits_value: "foldl (\<lambda>v d. 10 * v + d) 0 (nat_digits n) = n"
proof (induction n rule: nat_digits.induct)
  case (1 n)
  then show ?case by (subst nat_digits.simps) auto
qed

lemma nat_digits_hd: "n \<noteq> 0 \<Longrightarrow> hd (nat_digits n) \<noteq> 0"
proof (induction n rule: nat_digits.induct)
  case (1 n)
  then show ?case by (subst nat_digits.simps) auto
qed

lemma nat_digits_length: "0 < k \<Longrightarrow> n < 10 ^ k \<Longrightarrow> length (nat_digits n) \<le> k"
proof (induction k arbitrary: n)
  case (Suc k)
  show ?case
  proof (cases "n < 10")
    case False
    then have "0 < k" using Suc.prems by (cases k) auto
    moreover have "n div 10 < 10 ^ k" using Suc.prems(2) by auto
    ultimately show ?thesis using Suc.IH [of "n div 10"] False by (subst nat_digits.simps) auto
  qed (simp add: nat_digits.simps)
qed simp

lemma ord_digit_char: "d < 10 \<Longrightarrow> ord_char (digit_char d) = 48 + int d"
proof -
  assume "d < 10"
  have "ord_char (digit_char d) = int (of_char (char_of (48 + d) :: char))"
    by (metis ord_char_def digit_char_def of_nat_of_char)
  also have "(of_char (char_of (48 + d) :: char) :: nat) = (48 + d) mod 256"
    by (rule of_char_of)
  finally show ?thesis using \<open>d < 10\<close> by simp
qed

lemma isdigit_digit_char: "d < 10 \<Longrightarrow> isdigit (digit_char d)"
  by (simp add: isdigit_def ord_digit_char)

end
