(* ===== verification/Uuid.thy ===== *)
theory Uuid
  imports Sqlite_Api
begin

text \<open>
  The UUID functions of \<^verbatim>\<open>mvsqlite-pgtypes-ext/uuid.c\<close>: the hexadecimal digit trick,
  the conversions between a 16-byte blob and the RFC-4122 text, and the SQL
  functions \<^verbatim>\<open>uuid()\<close>, \<^verbatim>\<open>uuid_str(X)\<close> and \<^verbatim>\<open>uuid_blob(X)\<close>.  \<open>uuid_text\<close> is the
  grammar of the accepted texts, independent of the parser.
\<close>

section \<open>The code\<close>

definition sqlite3UuidHexToInt :: "int \<Rightarrow> byte" where
  "sqlite3UuidHexToInt h =
     (let h = h + 9 * (1 AND drop_bit 6 h) in word_of_int (h AND 0xf))"

definition zDigits :: string where
  "zDigits = ''0123456789abcdef''"

text \<open>The loop of \<^verbatim>\<open>sqlite3UuidBlobToStr\<close>: \<open>k\<close> is shifted right as \<open>i\<close> goes up to 16.\<close>

function blob_to_str_loop :: "nat \<Rightarrow> nat \<Rightarrow> byte list \<Rightarrow> string" where
  "blob_to_str_loop i k aBlob =
     (if i < 16 then
        (if k AND 1 \<noteq> 0 then ''-'' else []) @
        [zDigits ! unat (drop_bit 4 (aBlob ! i)), zDigits ! unat (aBlob ! i AND 0xf)] @
        blob_to_str_loop (i + 1) (drop_bit 1 k) aBlob
      else [])"
  by pat_completeness auto
termination
  by (relation "measure (\<lambda>(i, k, b). 16 - i)") auto

declare blob_to_str_loop.simps [simp del]

definition sqlite3UuidBlobToStr :: "byte list \<Rightarrow> string" where
  "sqlite3UuidBlobToStr aBlob = blob_to_str_loop 0 0x550 aBlob"

text \<open>
  The loop of \<^verbatim>\<open>sqlite3UuidStrToBlob\<close>, with the number of rounds left.  The result is
  the rest of the text and the bytes written, \<open>None\<close> the error return.
\<close>

fun str_to_blob_loop :: "nat \<Rightarrow> string \<Rightarrow> (string \<times> byte list) option" where
  "str_to_blob_loop 0 zStr = Some (zStr, [])"
| "str_to_blob_loop (Suc n) zStr =
     (let zStr = (if cur zStr = CHR ''-'' then tl zStr else zStr) in
      if isxdigit (cur zStr) \<and> isxdigit (cur (tl zStr)) then
        let x = push_bit 4 (sqlite3UuidHexToInt (ord_char (cur zStr)))
                + sqlite3UuidHexToInt (ord_char (cur (tl zStr)))
        in map_option (\<lambda>(z, bs). (z, x # bs)) (str_to_blob_loop n (drop 2 zStr))
      else None)"

definition sqlite3UuidStrToBlob :: "string option \<Rightarrow> byte list option" where
  "sqlite3UuidStrToBlob z =
     (case z of None \<Rightarrow> None
      | Some zStr \<Rightarrow>
          let zStr = (if cur zStr = CHR ''{'' then tl zStr else zStr) in
          (case str_to_blob_loop 16 zStr of
             None \<Rightarrow> None
           | Some (zStr, aBlob) \<Rightarrow>
               let zStr = (if cur zStr = CHR ''}'' then tl zStr else zStr) in
               if cur zStr \<noteq> NUL then None else Some aBlob))"

fun sqlite3UuidInputToBlob :: "sqlite3_api_routines \<Rightarrow> sqlite3_value \<Rightarrow> byte list option" where
  "sqlite3UuidInputToBlob api (SQLITE_TEXT z) = sqlite3UuidStrToBlob (value_text api (SQLITE_TEXT z))"
| "sqlite3UuidInputToBlob api (SQLITE_BLOB b) = (if length b = 16 then Some b else None)"
| "sqlite3UuidInputToBlob api _ = None"

text \<open>\<^verbatim>\<open>uuid()\<close>: the argument stands for the 16 bytes \<^verbatim>\<open>sqlite3_randomness\<close> delivers.\<close>

definition sqlite3UuidFunc :: "byte list \<Rightarrow> sql_result" where
  "sqlite3UuidFunc aBlob =
     (let aBlob = aBlob[6 := (aBlob ! 6 AND 0x0f) + 0x40];
          aBlob = aBlob[8 := (aBlob ! 8 AND 0x3f) + 0x80]
      in ResText (sqlite3UuidBlobToStr aBlob))"

definition sqlite3UuidStrFunc :: "sqlite3_api_routines \<Rightarrow> sqlite3_value \<Rightarrow> sql_result" where
  "sqlite3UuidStrFunc api v =
     (case sqlite3UuidInputToBlob api v of
        None \<Rightarrow> ResNull
      | Some pBlob \<Rightarrow> ResText (sqlite3UuidBlobToStr pBlob))"

definition sqlite3UuidBlobFunc :: "sqlite3_api_routines \<Rightarrow> sqlite3_value \<Rightarrow> sql_result" where
  "sqlite3UuidBlobFunc api v =
     (case sqlite3UuidInputToBlob api v of None \<Rightarrow> ResNull | Some pBlob \<Rightarrow> ResBlob pBlob)"

definition uuid_registrations :: "registration list" where
  "uuid_registrations =
     [\<lparr>rg_kind = RegFunction, rg_name = ''uuid'', rg_nArg = 0, rg_user = False, rg_func = ''sqlite3UuidFunc''\<rparr>,
      \<lparr>rg_kind = RegFunction, rg_name = ''uuid_str'', rg_nArg = 1, rg_user = False, rg_func = ''sqlite3UuidStrFunc''\<rparr>,
      \<lparr>rg_kind = RegFunction, rg_name = ''uuid_blob'', rg_nArg = 1, rg_user = False, rg_func = ''sqlite3UuidBlobFunc''\<rparr>]"

definition sqlite3_uuid_init :: "(registration \<Rightarrow> int) \<Rightarrow> connection \<Rightarrow> int \<times> connection" where
  "sqlite3_uuid_init rcs db = create_all rcs uuid_registrations db"

section \<open>Specification\<close>

text \<open>The value of a hexadecimal digit, by the three ranges.\<close>

definition hex_value :: "char \<Rightarrow> nat" where
  "hex_value c = nat (if ord_char c \<le> 57 then ord_char c - 48
                      else if ord_char c \<le> 70 then ord_char c - 55 else ord_char c - 87)"

text \<open>A byte of the text: two hexadecimal digits, after a hyphen or not.\<close>

definition hex_group :: "string \<Rightarrow> byte \<Rightarrow> bool" where
  "hex_group g x \<longleftrightarrow>
     (\<exists>h l. isxdigit h \<and> isxdigit l \<and> (g = [h, l] \<or> g = [CHR ''-'', h, l]) \<and>
            unat x = 16 * hex_value h + hex_value l)"

text \<open>
  The accepted texts: sixteen groups, an opening brace before or not, a closing
  brace after or not.  The text ends at its first NUL.
\<close>

definition uuid_text :: "string \<Rightarrow> byte list \<Rightarrow> bool" where
  "uuid_text z b \<longleftrightarrow>
     (\<exists>pre gs post. c_str z = pre @ concat gs @ post \<and> (pre = [] \<or> pre = ''{'') \<and>
        (post = [] \<or> post = ''}'') \<and> length b = 16 \<and> list_all2 hex_group gs b)"

section \<open>Hexadecimal digits\<close>

lemma hex_value_table:
  "\<forall>h \<in> set ([48..57] @ [97..102] @ [65..70]).
     unat (sqlite3UuidHexToInt h) =
       nat (if h \<le> 57 then h - 48 else if h \<le> 70 then h - 55 else h - 87)"
  by code_simp

lemma HexToInt_value: "isxdigit c \<Longrightarrow> unat (sqlite3UuidHexToInt (ord_char c)) = hex_value c"
  unfolding hex_value_def
  by (rule hex_value_table [rule_format]) (auto simp: isxdigit_def simp del: upto_rec_numeral)

lemma hex_value_less: "isxdigit c \<Longrightarrow> hex_value c < 16"
  by (auto simp: hex_value_def isxdigit_def)

lemma zDigits_table:
  "\<forall>x < 16. isxdigit (zDigits ! x) \<and> hex_value (zDigits ! x) = x \<and>
     zDigits ! x \<notin> {CHR ''-'', CHR ''{'', CHR ''}'', NUL}"
  by code_simp

lemmas zDigits_facts = zDigits_table [rule_format]

lemma high_nibble: "unat (drop_bit 4 (x :: byte)) < 16"
proof -
  have "unat (drop_bit 4 x) = unat x div 16" by (simp add: drop_bit_eq_div unat_div)
  moreover have "unat x < 256" using unsigned_less [of x, where ?'a = nat] by simp
  ultimately show ?thesis by simp
qed

lemma low_nibble: "unat ((x :: byte) AND 0xf) < 16"
proof -
  have "unat (x AND 0xf) \<le> unat (0xf :: byte)"
    by (rule word_and_le1 [THEN word_le_nat_alt [THEN iffD1]])
  then show ?thesis by simp
qed

lemma nibbles: "16 * unat (drop_bit 4 (x :: byte)) + unat (x AND 0xf) = unat x"
proof -
  have "unat (drop_bit 4 x) = unat x div 16" by (simp add: drop_bit_eq_div unat_div)
  moreover have "x AND 0xf = x mod 16" using take_bit_eq_mask [of 4 x] by (simp add: take_bit_eq_mod mask_eq_exp_minus_1)
  then have "unat (x AND 0xf) = unat x mod 16" by (simp add: unat_mod)
  ultimately show ?thesis by simp
qed

lemma byte_of_digits:
  assumes "isxdigit h" "isxdigit l"
  shows "unat (push_bit 4 (sqlite3UuidHexToInt (ord_char h)) + sqlite3UuidHexToInt (ord_char l)) =
           16 * hex_value h + hex_value l"
proof -
  let ?H = "sqlite3UuidHexToInt (ord_char h)" and ?L = "sqlite3UuidHexToInt (ord_char l)"
  have "push_bit 4 ?H = ?H * 16" by (simp add: push_bit_eq_mult)
  then have "unat (push_bit 4 ?H + ?L) = (16 * hex_value h + hex_value l) mod 256"
    by (simp add: unat_word_ariths HexToInt_value assms mult.commute mod_simps)
  then show ?thesis using hex_value_less [OF assms(1)] hex_value_less [OF assms(2)] by simp
qed

section \<open>Parsing\<close>

lemma hex_group_cases:
  assumes "hex_group g x"
  obtains h l where "isxdigit h" "isxdigit l" "g = [h, l] \<or> g = [CHR ''-'', h, l]"
    "x = push_bit 4 (sqlite3UuidHexToInt (ord_char h)) + sqlite3UuidHexToInt (ord_char l)"
  using assms by (auto simp: hex_group_def byte_of_digits word_unat_eq_iff)

lemma not_xdigit_punct [simp]:
  "\<not> isxdigit (CHR ''-'')" "\<not> isxdigit (CHR ''{'')" "\<not> isxdigit (CHR ''}'')"
  by (simp_all add: isxdigit_def ord_char_def)

lemma isxdigit_neq:
  "isxdigit c \<Longrightarrow> c \<noteq> CHR ''-'' \<and> c \<noteq> CHR ''{'' \<and> c \<noteq> CHR ''}'' \<and> c \<noteq> NUL"
  using not_xdigit_punct not_isdigit_NUL by blast

lemma str_to_blob_loop_complete:
  "list_all2 hex_group gs b \<Longrightarrow> str_to_blob_loop (length b) (concat gs @ r) = Some (r, b)"
proof (induction rule: list_all2_induct)
  case Nil
  then show ?case by simp
next
  case (Cons g gs x b)
  from Cons(1) show ?case
    by (cases rule: hex_group_cases) (use Cons(3) in \<open>auto dest: isxdigit_neq\<close>)
qed

lemma cur_xdigit: "isxdigit (cur z) \<Longrightarrow> \<exists>c cs. z = c # cs \<and> isxdigit c"
  by (cases z) auto

lemma str_to_blob_loop_sound:
  "str_to_blob_loop n z = Some (r, b) \<Longrightarrow>
     \<exists>gs. z = concat gs @ r \<and> length b = n \<and> list_all2 hex_group gs b"
proof (induction n arbitrary: z b)
  case 0
  then show ?case by (intro exI [of _ "[]"]) auto
next
  case (Suc n)
  define y where "y = (if cur z = CHR ''-'' then tl z else z)"
  let ?x = "\<lambda>h l. push_bit 4 (sqlite3UuidHexToInt (ord_char h)) + sqlite3UuidHexToInt (ord_char l)"
  have ok: "isxdigit (cur y)" "isxdigit (cur (tl y))"
    using Suc.prems by (auto simp: y_def Let_def split: if_splits)
  then obtain h l w where y: "y = h # l # w" "isxdigit h" "isxdigit l"
    using cur_xdigit [of y] cur_xdigit [of "tl y"] by auto
  with Suc.prems obtain bs where w: "str_to_blob_loop n w = Some (r, bs)" "b = ?x h l # bs"
    by (auto simp: y_def [symmetric] Let_def)
  from Suc.IH [OF w(1)] obtain gs where gs: "w = concat gs @ r" "length bs = n" "list_all2 hex_group gs bs"
    by blast
  let ?g = "(if cur z = CHR ''-'' then ''-'' else []) @ [h, l]"
  have "z = ?g @ w" using y(1) by (cases z) (auto simp: y_def split: if_splits)
  moreover have "hex_group ?g (?x h l)"
    using y(2,3) byte_of_digits [OF y(2,3)] unfolding hex_group_def
    by (intro exI [of _ h] exI [of _ l]) auto
  ultimately show ?case using gs w(2) by (intro exI [of _ "?g # gs"]) auto
qed

lemma hex_group_chars: "hex_group g x \<Longrightarrow> NUL \<notin> set g"
  by (auto simp: hex_group_def)

lemma hex_groups_chars: "list_all2 hex_group gs b \<Longrightarrow> NUL \<notin> set (concat gs)"
  by (induction rule: list_all2_induct) (auto dest: hex_group_chars)

lemma c_str_append: "NUL \<notin> set xs \<Longrightarrow> c_str (xs @ ys) = xs @ c_str ys"
  by (auto simp: c_str_def takeWhile_append)

lemma c_str_split: "\<exists>r. z = c_str z @ r \<and> cur r = NUL"
proof (induction z)
  case Nil
  then show ?case by (simp add: c_str_def)
next
  case (Cons c z)
  then show ?case by (cases "c = NUL") (auto simp: c_str_def)
qed

lemma c_str_end: "cur r = NUL \<Longrightarrow> c_str r = []"
  by (cases r) (auto simp: c_str_def)

lemma concat_first: "list_all2 hex_group (g # gs) b \<Longrightarrow> cur (concat (g # gs) @ r) \<noteq> CHR ''{''"
  by (auto simp: list_all2_Cons1 hex_group_def dest: isxdigit_neq)

lemma StrToBlob_sound:
  assumes "sqlite3UuidStrToBlob (Some z) = Some b"
  shows "uuid_text z b"
proof -
  define y where "y = (if cur z = CHR ''{'' then tl z else z)"
  from assms obtain r where r: "str_to_blob_loop 16 y = Some (r, b)"
    and e: "cur (if cur r = CHR ''}'' then tl r else r) = NUL"
    by (auto simp: sqlite3UuidStrToBlob_def y_def Let_def split: option.splits if_splits)
  from str_to_blob_loop_sound [OF r] obtain gs
    where gs: "y = concat gs @ r" "length b = 16" "list_all2 hex_group gs b" by blast
  let ?pre = "if cur z = CHR ''{'' then ''{'' else []"
  let ?post = "if cur r = CHR ''}'' then ''}'' else []"
  have "z = ?pre @ y" by (cases z) (auto simp: y_def)
  moreover have "c_str r = ?post"
    using e by (cases r) (auto simp: c_str_def c_str_end [unfolded c_str_def] split: if_splits)
  ultimately have "c_str z = ?pre @ concat gs @ ?post"
    using c_str_append [of "?pre @ concat gs" r] hex_groups_chars [OF gs(3)] gs(1) by auto
  then show ?thesis using gs unfolding uuid_text_def
    by (intro exI [of _ ?pre] exI [of _ gs] exI [of _ ?post]) auto
qed

lemma StrToBlob_complete:
  assumes "uuid_text z b"
  shows "sqlite3UuidStrToBlob (Some z) = Some b"
proof -
  from assms obtain pre gs post where z: "c_str z = pre @ concat gs @ post"
    and pre: "pre = [] \<or> pre = ''{''" and post: "post = [] \<or> post = ''}''"
    and b: "length b = 16" and gs: "list_all2 hex_group gs b"
    by (auto simp: uuid_text_def)
  obtain r where r: "z = c_str z @ r" "cur r = NUL" using c_str_split by blast
  obtain g gs' where "gs = g # gs'" using b gs by (cases gs) auto
  then have "cur (concat gs @ x) \<noteq> CHR ''{''" for x using concat_first gs by blast
  then have "(if cur z = CHR ''{'' then tl z else z) = concat gs @ post @ r"
    using r(1) z pre by auto
  moreover have "str_to_blob_loop 16 (concat gs @ post @ r) = Some (post @ r, b)"
    using str_to_blob_loop_complete [OF gs] b by simp
  ultimately show ?thesis
    using post r(2) by (auto simp: sqlite3UuidStrToBlob_def Let_def)
qed

section \<open>Printing\<close>


lemma blob_to_str_loop_groups:
  "i \<le> 16 \<Longrightarrow> length b = 16 \<Longrightarrow>
     \<exists>gs. blob_to_str_loop i k b = concat gs \<and> list_all2 hex_group gs (drop i b)"
proof (induction i k b rule: blob_to_str_loop.induct)
  case (1 i k b)
  show ?case
  proof (cases "i < 16")
    case False
    with 1(2,3) show ?thesis
      by (intro exI [of _ "[]"]) (simp add: blob_to_str_loop.simps [of 16])
  next
    case True
    with 1 obtain gs where gs: "blob_to_str_loop (i + 1) (drop_bit 1 k) b = concat gs"
      "list_all2 hex_group gs (drop (i + 1) b)" by (metis Suc_eq_plus1 Suc_leI)
    let ?h = "zDigits ! unat (drop_bit 4 (b ! i))" and ?l = "zDigits ! unat (b ! i AND 0xf)"
    let ?g = "(if k AND 1 \<noteq> 0 then ''-'' else []) @ [?h, ?l]"
    have "hex_group ?g (b ! i)"
      unfolding hex_group_def
      by (rule exI [of _ ?h], rule exI [of _ ?l])
        (use zDigits_facts [OF high_nibble [of "b ! i"]] zDigits_facts [OF low_nibble [of "b ! i"]]
           nibbles [of "b ! i"] in auto)
    moreover have "drop i b = b ! i # drop (i + 1) b"
      using True 1(3) by (simp add: Cons_nth_drop_Suc)
    ultimately show ?thesis using True gs
      by (intro exI [of _ "?g # gs"]) (simp add: blob_to_str_loop.simps [of i])
  qed
qed

lemma BlobToStr_groups:
  "length b = 16 \<Longrightarrow> \<exists>gs. sqlite3UuidBlobToStr b = concat gs \<and> list_all2 hex_group gs b"
  using blob_to_str_loop_groups [of 0 b "0x550"] by (simp add: sqlite3UuidBlobToStr_def)

lemma BlobToStr_uuid_text: "length b = 16 \<Longrightarrow> uuid_text (sqlite3UuidBlobToStr b) b"
proof -
  assume b: "length b = 16"
  obtain gs where "sqlite3UuidBlobToStr b = concat gs" "list_all2 hex_group gs b"
    using BlobToStr_groups [OF b] by blast
  with hex_groups_chars [OF this(2)] b show ?thesis
    unfolding uuid_text_def
    by (intro exI [of _ "[]"] exI [of _ gs]) (auto intro: c_str_id)
qed

interpretation uuid: codec sqlite3UuidBlobToStr "\<lambda>z. sqlite3UuidStrToBlob (Some z)" "\<lambda>b. length b = 16"
proof
  show "sqlite3UuidStrToBlob (Some (sqlite3UuidBlobToStr b)) = Some b" if "length b = 16" for b
    using that by (intro StrToBlob_complete BlobToStr_uuid_text)
  show "length b = 16" if "sqlite3UuidStrToBlob (Some z) = Some b" for z b
    using StrToBlob_sound [OF that] by (auto simp: uuid_text_def)
qed

text \<open>The hexadecimal rendering of a run of bytes.\<close>

definition hex_bytes :: "byte list \<Rightarrow> string" where
  "hex_bytes bs = concat (map (\<lambda>x. [zDigits ! unat (drop_bit 4 x), zDigits ! unat (x AND 0xf)]) bs)"

lemma length_hex_bytes: "length (hex_bytes bs) = 2 * length bs"
  by (induction bs) (auto simp: hex_bytes_def)

lemma length16_ex:
  assumes "length b = 16"
  shows "\<exists>b0 b1 b2 b3 b4 b5 b6 b7 b8 b9 b10 b11 b12 b13 b14 b15.
     b = [b0, b1, b2, b3, b4, b5, b6, b7, b8, b9, b10, b11, b12, b13, b14, b15]"
proof -
  have "b = map ((!) b) [0..<16]" using map_nth [of b] assms by simp
  also have "[0..<16] = [0, 1, 2, 3, 4, 5, 6, 7, 8, 9, 10, 11, 12, 13, 14, 15::nat]"
    by (simp add: upt_rec)
  finally show ?thesis by (simp only: list.map) blast
qed

lemma BlobToStr_format:
  assumes "length b = 16"
  shows "sqlite3UuidBlobToStr b =
     hex_bytes (take 4 b) @ ''-'' @ hex_bytes (take 2 (drop 4 b)) @ ''-'' @
     hex_bytes (take 2 (drop 6 b)) @ ''-'' @ hex_bytes (take 2 (drop 8 b)) @ ''-'' @
     hex_bytes (drop 10 b)"
  using length16_ex [OF assms]
  by (elim exE) (simp add: sqlite3UuidBlobToStr_def hex_bytes_def blob_to_str_loop.simps)
lemma v4_bits:
  fixes x :: byte
  shows "drop_bit 4 ((x AND 0x0f) + 0x40) = 4 \<and> ((x AND 0x0f) + 0x40) AND 0x0f = x AND 0x0f \<and>
    drop_bit 6 ((x AND 0x3f) + 0x80) = 2 \<and> ((x AND 0x3f) + 0x80) AND 0x3f = x AND 0x3f"
  by (rule byte_cases [of _ x]) code_simp

section \<open>Properties\<close>

text \<open>
  C39: The parser accepts exactly the texts of the grammar, with the value the
  grammar gives: sixteen pairs of hexadecimal digits of either case, each after
  an optional hyphen, with an optional opening brace in front and an optional
  closing brace at the end; every other text is refused.  The comment of the source describes less: braces
  that match, and no hyphen before the first digit.
\<close>

theorem uuid_parse_iff: "sqlite3UuidStrToBlob (Some z) = Some b \<longleftrightarrow> uuid_text z b"
  using StrToBlob_sound StrToBlob_complete by blast

text \<open>
  C40: Whatever text or blob they are given, \<^verbatim>\<open>uuid_str\<close> and \<^verbatim>\<open>uuid_blob\<close> agree: both are
  NULL, or the blob has 16 bytes and the string is its canonical rendering, five
  groups of 8, 4, 4, 4 and 12 lower-case hexadecimal digits separated by hyphens.
  Applying either function to that string again gives the same string and blob.
\<close>

theorem uuid_functions_agree:
  assumes "api_spec api"
  shows "(sqlite3UuidStrFunc api v = ResNull \<and> sqlite3UuidBlobFunc api v = ResNull) \<or>
    (\<exists>b. length b = 16 \<and> sqlite3UuidBlobFunc api v = ResBlob b \<and>
       sqlite3UuidStrFunc api v = ResText (sqlite3UuidBlobToStr b) \<and>
       sqlite3UuidBlobToStr b =
         hex_bytes (take 4 b) @ ''-'' @ hex_bytes (take 2 (drop 4 b)) @ ''-'' @
         hex_bytes (take 2 (drop 6 b)) @ ''-'' @ hex_bytes (take 2 (drop 8 b)) @ ''-'' @
         hex_bytes (drop 10 b) \<and>
       sqlite3UuidBlobFunc api (SQLITE_TEXT (sqlite3UuidBlobToStr b)) = ResBlob b \<and>
       sqlite3UuidStrFunc api (SQLITE_TEXT (sqlite3UuidBlobToStr b)) = ResText (sqlite3UuidBlobToStr b))"
proof (cases "sqlite3UuidInputToBlob api v")
  case None
  then show ?thesis by (simp add: sqlite3UuidStrFunc_def sqlite3UuidBlobFunc_def)
next
  case (Some b)
  have b: "length b = 16"
    using Some by (cases v) (auto simp: api_spec_simps [OF assms] split: if_splits intro: uuid.dec_valid)
  then show ?thesis
    using Some uuid.dec_enc [OF b] BlobToStr_format [OF b]
    by (intro disjI2 exI [of _ b])
      (simp add: sqlite3UuidStrFunc_def sqlite3UuidBlobFunc_def api_spec_simps [OF assms])
qed

theorem uuid_functions_agree_witness:
  "api_spec ref_api \<and>
   sqlite3UuidStrFunc ref_api (SQLITE_TEXT ''{A0EEBC99-9C0B4EF8-BB6D6BB9-BD380A11}'') =
     ResText ''a0eebc99-9c0b-4ef8-bb6d-6bb9bd380a11'' \<and>
   sqlite3UuidBlobFunc ref_api (SQLITE_TEXT ''{A0EEBC99-9C0B4EF8-BB6D6BB9-BD380A11}'') \<noteq> ResNull"
proof -
  let ?v = "SQLITE_TEXT ''{A0EEBC99-9C0B4EF8-BB6D6BB9-BD380A11}''"
  have 1: "sqlite3UuidStrFunc ref_api ?v = ResText ''a0eebc99-9c0b-4ef8-bb6d-6bb9bd380a11''"
    by code_simp
  with uuid_functions_agree [OF api_spec_ref_api, of ?v]
  have "sqlite3UuidBlobFunc ref_api ?v \<noteq> ResNull" by auto
  with 1 api_spec_ref_api show ?thesis by blast
qed

text \<open>
  Whatever 16 random bytes it draws, \<^verbatim>\<open>uuid()\<close> returns a text that \<^verbatim>\<open>uuid_blob\<close>
  reads back as a version 4, variant 1 UUID: the high nibble of byte 6 is 4, the two
  high bits of byte 8 are binary 10, and all other bits are the random ones.
\<close>

theorem uuid_v4:
  assumes "length rnd = 16"
  shows "\<exists>b. sqlite3UuidFunc rnd = ResText (sqlite3UuidBlobToStr b) \<and>
    sqlite3UuidStrToBlob (Some (sqlite3UuidBlobToStr b)) = Some b \<and>
    drop_bit 4 (b ! 6) = 4 \<and> drop_bit 6 (b ! 8) = 2 \<and>
    b ! 6 AND 0x0f = rnd ! 6 AND 0x0f \<and> b ! 8 AND 0x3f = rnd ! 8 AND 0x3f \<and>
    (\<forall>i. i \<noteq> 6 \<and> i \<noteq> 8 \<longrightarrow> b ! i = rnd ! i)"
proof -
  define b where "b = rnd[6 := (rnd ! 6 AND 0x0f) + 0x40, 8 := (rnd ! 8 AND 0x3f) + 0x80]"
  have b68: "b ! 6 = (rnd ! 6 AND 0x0f) + 0x40" "b ! 8 = (rnd ! 8 AND 0x3f) + 0x80" "length b = 16"
    using assms by (simp_all add: b_def)
  from v4_bits [of "rnd ! 6"] v4_bits [of "rnd ! 8"] show ?thesis
    using b68 uuid.dec_enc [of b] assms
    by (intro exI [of _ b]) (auto simp: sqlite3UuidFunc_def Let_def b_def)
qed

theorem uuid_v4_witness:
  "length (replicate 16 0xff :: byte list) = 16 \<and>
   sqlite3UuidFunc (replicate 16 0xff) = ResText ''ffffffff-ffff-4fff-bfff-ffffffffffff'' \<and>
   (\<exists>b. sqlite3UuidFunc (replicate 16 0xff) = ResText (sqlite3UuidBlobToStr b) \<and> drop_bit 4 (b ! 6) = 4)"
proof -
  have l: "length (replicate 16 0xff :: byte list) = 16" by simp
  have "sqlite3UuidFunc (replicate 16 0xff) = ResText ''ffffffff-ffff-4fff-bfff-ffffffffffff''"
    by code_simp
  with l uuid_v4 [OF l] show ?thesis by blast
qed

text \<open>
  The header of \<^verbatim>\<open>uuid.c\<close> describes braces that surround the digits and hyphens in the
  middle of them; the parser also takes an opening brace that is never closed and
  a hyphen in front of the first digit.
\<close>

theorem uuid_unbalanced:
  "sqlite3UuidStrToBlob (Some ''{-a0eebc999c0b4ef8bb6d6bb9bd380a11'') =
   sqlite3UuidStrToBlob (Some ''a0eebc999c0b4ef8bb6d6bb9bd380a11'') \<and>
   sqlite3UuidStrToBlob (Some ''a0eebc999c0b4ef8bb6d6bb9bd380a11'') \<noteq> None"
  by code_simp

end
