(* ===== verification/Digits.thy ===== *)
theory Digits
  imports Prelude
begin

text \<open>
  Arithmetic on arrays of decimal digits, most significant digit first: the inner
  loops of \<^verbatim>\<open>mvsqlite-pgtypes-ext/decimal.c\<close> and what they compute.  \<open>dval\<close> is the
  number an array denotes; \<open>digs_ok\<close> says that every cell holds a digit.  Each loop
  counts its index down, as in the source, and updates the array in place.
\<close>

definition dval :: "int list \<Rightarrow> int" where
  "dval ds = foldl (\<lambda>v d. 10 * v + d) 0 ds"

definition digs_ok :: "int list \<Rightarrow> bool" where
  "digs_ok ds \<longleftrightarrow> (\<forall>d \<in> set ds. 0 \<le> d \<and> d \<le> 9)"

section \<open>The loops\<close>

text \<open>Addition with carry (\<^verbatim>\<open>decimal_add\<close>, equal signs); the result includes the last carry.\<close>

fun add_loop :: "nat \<Rightarrow> int list \<Rightarrow> int list \<Rightarrow> int \<Rightarrow> int list \<times> int" where
  "add_loop 0 A B carry = (A, carry)"
| "add_loop (Suc i) A B carry =
     (let x = A ! i + B ! i + carry in
      if x \<ge> 10 then add_loop i (A[i := x - 10]) B 1
      else add_loop i (A[i := x]) B 0)"

text \<open>
  Subtraction with borrow (\<^verbatim>\<open>decimal_add\<close>, different signs).  The result is always
  written to \<open>A\<close>; \<open>swap\<close> says that \<open>A\<close> is the subtrahend, that is, \<^verbatim>\<open>aA\<close> points to the
  array of \<open>B\<close> and \<^verbatim>\<open>aB\<close> to that of \<open>A\<close>.
\<close>

fun sub_loop :: "bool \<Rightarrow> nat \<Rightarrow> int list \<Rightarrow> int list \<Rightarrow> int \<Rightarrow> int list \<times> int" where
  "sub_loop swap 0 A B borrow = (A, borrow)"
| "sub_loop swap (Suc i) A B borrow =
     (let x = (if swap then B ! i - A ! i else A ! i - B ! i) - borrow in
      if x < 0 then sub_loop swap i (A[i := x + 10]) B 1
      else sub_loop swap i (A[i := x]) B 0)"

text \<open>One row of the schoolbook multiplication (\<^verbatim>\<open>decimalMul\<close>, the loop over \<open>j\<close>).\<close>

fun mul_row :: "nat \<Rightarrow> nat \<Rightarrow> int \<Rightarrow> int list \<Rightarrow> int list \<Rightarrow> int \<Rightarrow> int list \<times> int" where
  "mul_row i 0 f B acc carry = (acc, carry)"
| "mul_row i (Suc j) f B acc carry =
     (let k = i + j + 3; x = acc ! k + f * B ! j + carry in
      mul_row i j f B (acc[k := x mod 10]) (x div 10))"

text \<open>The loop over \<open>i\<close>: a row, then the carry into the two cells before it.\<close>

fun mul_rows :: "nat \<Rightarrow> nat \<Rightarrow> int list \<Rightarrow> int list \<Rightarrow> int list \<Rightarrow> int list" where
  "mul_rows 0 nB A B acc = acc"
| "mul_rows (Suc i) nB A B acc =
     (let (acc, carry) = mul_row i nB (A ! i) B acc 0; k = i + 2;
          x = acc ! k + carry;
          acc = acc[k := x mod 10];
          acc = acc[k - 1 := acc ! (k - 1) + x div 10]
      in mul_rows i nB A B acc)"

text \<open>Propagating an increment to the left (\<^verbatim>\<open>decimal_round\<close>).\<close>

fun carry_loop :: "nat \<Rightarrow> int list \<Rightarrow> int list" where
  "carry_loop 0 a = a"
| "carry_loop (Suc i) a =
     (if a ! Suc i > 9 then carry_loop i (a[Suc i := 0, i := a ! i + 1]) else a)"

section \<open>The value of an array\<close>

lemma dval_Nil [simp]: "dval [] = 0"
  by (simp add: dval_def)

lemma dval_snoc [simp]: "dval (ds @ [d]) = 10 * dval ds + d"
  by (simp add: dval_def)

lemma dval_append: "dval (xs @ ys) = dval xs * 10 ^ length ys + dval ys"
  by (induction ys rule: rev_induct) (simp_all add: append_assoc [symmetric] algebra_simps del: append_assoc)

lemma dval_Cons: "dval (d # ds) = d * 10 ^ length ds + dval ds"
  using dval_append [of "[d]" ds] dval_snoc [of "[]" d] by simp

lemma dval_replicate_0 [simp]: "dval (replicate n 0) = 0"
  by (induction n) (auto simp: dval_Cons)

lemma digs_ok_simps [simp]:
  "digs_ok []" "digs_ok (xs @ ys) \<longleftrightarrow> digs_ok xs \<and> digs_ok ys"
  "digs_ok (d # xs) \<longleftrightarrow> 0 \<le> d \<and> d \<le> 9 \<and> digs_ok xs"
  "digs_ok (replicate n 0)"
  by (auto simp: digs_ok_def)

lemma digs_ok_take: "digs_ok xs \<Longrightarrow> digs_ok (take n xs)"
  by (auto simp: digs_ok_def dest: in_set_takeD)

lemma digs_ok_drop: "digs_ok xs \<Longrightarrow> digs_ok (drop n xs)"
  by (auto simp: digs_ok_def dest: in_set_dropD)

lemma digs_ok_nth: "digs_ok xs \<Longrightarrow> i < length xs \<Longrightarrow> 0 \<le> xs ! i \<and> xs ! i \<le> 9"
  by (simp add: digs_ok_def)

lemma digs_ok_update: "digs_ok xs \<Longrightarrow> 0 \<le> d \<Longrightarrow> d \<le> 9 \<Longrightarrow> digs_ok (xs[i := d])"
  using set_update_subset_insert [of xs i d] by (auto simp: digs_ok_def)

lemma dval_nonneg: "digs_ok xs \<Longrightarrow> 0 \<le> dval xs"
  by (induction xs rule: rev_induct) auto

lemma dval_less: "digs_ok xs \<Longrightarrow> dval xs < 10 ^ length xs"
  by (induction xs rule: rev_induct) auto

lemma dval_take_Suc: "i < length xs \<Longrightarrow> dval (take (Suc i) xs) = 10 * dval (take i xs) + xs ! i"
  by (simp add: take_Suc_conv_app_nth)

lemma dval_update:
  assumes "k < length xs"
  shows "dval (xs[k := d]) = dval xs + (d - xs ! k) * 10 ^ (length xs - Suc k)"
proof -
  have xs: "xs = take k xs @ xs ! k # drop (Suc k) xs"
    using assms by (simp add: id_take_nth_drop)
  have "dval xs = dval (take k xs) * 10 ^ (length xs - k) +
      xs ! k * 10 ^ (length xs - Suc k) + dval (drop (Suc k) xs)"
    by (subst xs) (use assms in \<open>simp add: dval_append dval_Cons Suc_diff_Suc\<close>)
  moreover have "dval (xs[k := d]) = dval (take k xs) * 10 ^ (length xs - k) +
      d * 10 ^ (length xs - Suc k) + dval (drop (Suc k) xs)"
    using assms by (simp add: upd_conv_take_nth_drop dval_append dval_Cons Suc_diff_Suc)
  ultimately show ?thesis by (simp add: algebra_simps)
qed

lemma dval_eq_0_iff: "digs_ok xs \<Longrightarrow> dval xs = 0 \<longleftrightarrow> (\<forall>d \<in> set xs. d = 0)"
proof (induction xs rule: rev_induct)
  case Nil
  then show ?case by simp
next
  case (snoc d xs)
  then have "0 \<le> dval xs" by (simp add: dval_nonneg)
  with snoc show ?case by auto
qed

lemma dval_lower: "digs_ok xs \<Longrightarrow> xs \<noteq> [] \<Longrightarrow> hd xs \<noteq> 0 \<Longrightarrow> 10 ^ (length xs - 1) \<le> dval xs"
proof (cases xs)
  case (Cons d ds)
  assume h: "digs_ok xs" "hd xs \<noteq> 0"
  then have "1 \<le> d" "0 \<le> dval ds" using Cons by (auto intro: dval_nonneg)
  then have "1 * 10 ^ length ds \<le> d * 10 ^ length ds" by (intro mult_right_mono) auto
  with \<open>0 \<le> dval ds\<close> have "10 ^ length ds \<le> d * 10 ^ length ds + dval ds" by linarith
  then show ?thesis by (simp only: Cons dval_Cons length_Cons diff_Suc_1)
qed simp

text \<open>Comparing arrays of equal length is comparing their values.\<close>

lemma memcmp_dval:
  "digs_ok xs \<Longrightarrow> digs_ok ys \<Longrightarrow> length xs = n \<Longrightarrow> length ys = n \<Longrightarrow>
     memcmp xs ys n = sgn (dval xs - dval ys)"
proof (induction xs ys n rule: memcmp.induct)
  case (2 x xs y ys n)
  have b: "0 \<le> dval xs" "dval xs < 10 ^ n" "0 \<le> dval ys" "dval ys < 10 ^ n"
    using 2(2-5) dval_nonneg [of xs] dval_nonneg [of ys] dval_less [of xs] dval_less [of ys] by auto
  have lt: "d * 10 ^ n + u < e * 10 ^ n + v" if "d < e" "0 \<le> v" "u < 10 ^ n" for d e u v :: int
  proof -
    have "(d + 1) * 10 ^ n \<le> e * 10 ^ n" using that by (intro mult_right_mono) auto
    then show ?thesis using that by (simp add: algebra_simps)
  qed
  show ?case
    using 2 b lt [of x y "dval ys" "dval xs"] lt [of y x "dval xs" "dval ys"]
    by (auto simp: dval_Cons)
qed auto

section \<open>What the loops compute\<close>

lemma add_loop_correct:
  "i \<le> length A \<Longrightarrow> i \<le> length B \<Longrightarrow> digs_ok A \<Longrightarrow> digs_ok B \<Longrightarrow> c = 0 \<or> c = 1 \<Longrightarrow>
   add_loop i A B c = (R, c') \<Longrightarrow>
     length R = length A \<and> digs_ok R \<and> (c' = 0 \<or> c' = 1) \<and> drop i R = drop i A \<and>
     c' * 10 ^ i + dval (take i R) = dval (take i A) + dval (take i B) + c"
proof (induction i arbitrary: A c)
  case 0
  then show ?case by auto
next
  case (Suc i)
  define x where "x = A ! i + B ! i + c"
  define d where "d = (if x \<ge> 10 then x - 10 else x)"
  define e where "e = (if x \<ge> 10 then 1 else 0 :: int)"
  have x: "0 \<le> d" "d \<le> 9" "x = 10 * e + d" "e = 0 \<or> e = 1"
    using Suc.prems digs_ok_nth [of A i] digs_ok_nth [of B i]
    by (auto simp: x_def d_def e_def)
  have r: "add_loop i (A[i := d]) B e = (R, c')"
    using Suc.prems(6) by (auto simp: Let_def x_def [symmetric] d_def e_def split: if_splits)
  have IH: "length R = length A" "digs_ok R" "c' = 0 \<or> c' = 1" "drop i R = drop i (A[i := d])"
    "c' * 10 ^ i + dval (take i R) = dval (take i A) + dval (take i B) + e"
    using Suc.IH [OF _ _ _ _ x(4) r] Suc.prems x by (auto simp: digs_ok_update)
  have iA: "i < length A" "i < length B" "i < length R" using Suc.prems IH(1) by auto
  have "R ! i = d" "drop (Suc i) R = drop (Suc i) A"
    using IH(4) iA by (auto simp: Cons_nth_drop_Suc [symmetric])
  then show ?case
    using IH x(3) iA by (auto simp: dval_take_Suc x_def algebra_simps)
qed

lemma sub_loop_correct:
  "i \<le> length A \<Longrightarrow> i \<le> length B \<Longrightarrow> digs_ok A \<Longrightarrow> digs_ok B \<Longrightarrow> c = 0 \<or> c = 1 \<Longrightarrow>
   sub_loop swap i A B c = (R, c') \<Longrightarrow>
     length R = length A \<and> digs_ok R \<and> (c' = 0 \<or> c' = 1) \<and> drop i R = drop i A \<and>
     dval (take i R) - c' * 10 ^ i =
       (if swap then dval (take i B) - dval (take i A) else dval (take i A) - dval (take i B)) - c"
proof (induction i arbitrary: A c)
  case 0
  then show ?case by auto
next
  case (Suc i)
  define x where "x = (if swap then B ! i - A ! i else A ! i - B ! i) - c"
  define d where "d = (if x < 0 then x + 10 else x)"
  define e where "e = (if x < 0 then 1 else 0 :: int)"
  have x: "0 \<le> d" "d \<le> 9" "x = d - 10 * e" "e = 0 \<or> e = 1"
    using Suc.prems digs_ok_nth [of A i] digs_ok_nth [of B i]
    by (auto simp: x_def d_def e_def)
  have r: "sub_loop swap i (A[i := d]) B e = (R, c')"
    using Suc.prems(6) by (auto simp: Let_def x_def [symmetric] d_def e_def split: if_splits)
  have IH: "length R = length A" "digs_ok R" "c' = 0 \<or> c' = 1" "drop i R = drop i (A[i := d])"
    "dval (take i R) - c' * 10 ^ i =
       (if swap then dval (take i B) - dval (take i A) else dval (take i A) - dval (take i B)) - e"
    using Suc.IH [OF _ _ _ _ x(4) r] Suc.prems x by (auto simp: digs_ok_update)
  have iA: "i < length A" "i < length B" "i < length R" using Suc.prems IH(1) by auto
  have "R ! i = d" "drop (Suc i) R = drop (Suc i) A"
    using IH(4) iA by (auto simp: Cons_nth_drop_Suc [symmetric])
  then show ?case
    using IH x(3) iA by (auto simp: dval_take_Suc x_def algebra_simps split: if_splits)
qed

lemma mul_row_correct:
  "j \<le> length B \<Longrightarrow> i + j + 3 \<le> length acc \<Longrightarrow> digs_ok acc \<Longrightarrow> digs_ok B \<Longrightarrow>
   0 \<le> f \<Longrightarrow> f \<le> 9 \<Longrightarrow> 0 \<le> c \<Longrightarrow> c \<le> 9 \<Longrightarrow> mul_row i j f B acc c = (R, c') \<Longrightarrow>
     length R = length acc \<and> digs_ok R \<and> 0 \<le> c' \<and> c' \<le> 9 \<and> take (i + 3) R = take (i + 3) acc \<and>
     dval R + c' * 10 ^ (length acc - (i + 3)) =
       dval acc + (f * dval (take j B) + c) * 10 ^ (length acc - (i + j + 3))"
proof (induction j arbitrary: acc c)
  case 0
  then show ?case by auto
next
  case (Suc j)
  define k where "k = i + j + 3"
  define x where "x = acc ! k + f * B ! j + c"
  have k: "k < length acc" "j < length B" using Suc.prems(1,2) by (simp_all add: k_def)
  have bj: "0 \<le> B ! j" "B ! j \<le> 9" "0 \<le> acc ! k" "acc ! k \<le> 9"
    using digs_ok_nth Suc.prems(3,4) k by auto
  have "0 \<le> f * B ! j" "f * B ! j \<le> 9 * 9"
    using Suc.prems(5,6) bj mult_mono [of f 9 "B ! j" 9] by auto
  then have x: "0 \<le> x" "x \<le> 99" using bj Suc.prems(7,8) by (auto simp: x_def)
  have r: "mul_row i j f B (acc[k := x mod 10]) (x div 10) = (R, c')"
    using Suc.prems(9) by (simp add: Let_def k_def x_def)
  have IH: "length R = length acc" "digs_ok R" "0 \<le> c'" "c' \<le> 9"
    "take (i + 3) R = take (i + 3) (acc[k := x mod 10])"
    "dval R + c' * 10 ^ (length acc - (i + 3)) =
       dval (acc[k := x mod 10]) + (f * dval (take j B) + x div 10) * 10 ^ (length acc - (i + j + 3))"
    using Suc.IH [OF _ _ _ Suc.prems(4-6) _ _ r] Suc.prems(1-3) x by (auto simp: digs_ok_update)
  have w: "(10 :: int) ^ (length acc - (i + j + 3)) = 10 * 10 ^ (length acc - (i + Suc j + 3))"
    using Suc.prems(2) by (simp add: Suc_diff_Suc [symmetric])
  have "dval (acc[k := x mod 10]) =
      dval acc + (x mod 10 - acc ! k) * 10 ^ (length acc - (i + Suc j + 3))"
    using dval_update [OF k(1)] by (simp add: k_def)
  moreover have "(x mod 10 - acc ! k) + 10 * (x div 10) = f * B ! j + c"
    by (simp add: x_def [symmetric] algebra_simps) (simp add: x_def)
  moreover have "v = d + (r - a) * W \<Longrightarrow>
      v + (f * T + q) * (10 * W) = d + (10 * f * T + ((r - a) + 10 * q)) * W" for v d r a q T W :: int
    by (simp add: algebra_simps)
  ultimately have "dval R + c' * 10 ^ (length acc - (i + 3)) =
      dval acc + (10 * f * dval (take j B) + (f * B ! j + c)) * 10 ^ (length acc - (i + Suc j + 3))"
    using IH(6) unfolding w by metis
  also have "10 * f * dval (take j B) + (f * B ! j + c) = f * dval (take (Suc j) B) + c"
    using k(2) by (simp add: dval_take_Suc algebra_simps)
  finally show ?case using IH k_def by auto
qed

lemma mul_rows_correct:
  "i \<le> length A \<Longrightarrow> nB = length B \<Longrightarrow> length acc = length A + nB + 2 \<Longrightarrow>
   digs_ok acc \<Longrightarrow> digs_ok A \<Longrightarrow> digs_ok B \<Longrightarrow> take (i + 2) acc = replicate (i + 2) 0 \<Longrightarrow>
   dval acc = dval (drop i A) * dval B \<Longrightarrow>
     length (mul_rows i nB A B acc) = length acc \<and> digs_ok (mul_rows i nB A B acc) \<and>
     dval (mul_rows i nB A B acc) = dval A * dval B"
proof (induction i arbitrary: acc)
  case 0
  then show ?case by simp
next
  case (Suc i)
  obtain R c where R: "mul_row i nB (A ! i) B acc 0 = (R, c)" by (metis surj_pair)
  have i: "i < length A" "0 \<le> A ! i" "A ! i \<le> 9"
    using Suc.prems(1,5) digs_ok_nth [of A i] by auto
  have row: "length R = length acc" "digs_ok R" "0 \<le> c" "c \<le> 9" "take (i + 3) R = take (i + 3) acc"
    "dval R + c * 10 ^ (length acc - (i + 3)) =
       dval acc + (A ! i * dval B) * 10 ^ (length acc - (i + nB + 3))"
    using mul_row_correct [OF _ _ Suc.prems(4,6) i(2,3) _ _ R] Suc.prems(2,3) i(1) by auto
  have z: "take (i + 3) R = replicate (i + 3) 0"
    using row(5) Suc.prems(7) by (simp add: add.commute numeral_3_eq_3)
  have z2: "R ! m = 0" if "m < i + 3" for m
    using arg_cong [OF z, of "\<lambda>l. l ! m"] that by simp
  have step: "mul_rows (Suc i) nB A B acc = mul_rows i nB A B (R[i + 2 := c])"
    using R row(3,4) z2 [of "i + 2"] z2 [of "i + 1"]
    by (simp add: Let_def list_update_id [of R "Suc i", simplified] list_update_swap)
      (metis list_update_id z2 [of "i + 1", simplified])
  have l: "i + 2 < length R" using row(1) Suc.prems(3) i(1) by simp
  have "dval (R[i + 2 := c]) = dval R + c * 10 ^ (length acc - (i + 3))"
    using dval_update [OF l, of c] z2 [of "i + 2"] row(1) by (simp add: eval_nat_numeral)
  also have "\<dots> = dval (drop i A) * dval B"
    using row(6) Suc.prems(2,3,8) i(1)
    by (simp add: Cons_nth_drop_Suc [symmetric] dval_Cons algebra_simps)
  finally have "dval (R[i + 2 := c]) = dval (drop i A) * dval B" .
  moreover have "take (i + 2) (R[i + 2 := c]) = replicate (i + 2) 0"
  proof (rule nth_equalityI)
    show "length (take (i + 2) (R[i + 2 := c])) = length (replicate (i + 2) (0 :: int))" using l by simp
    show "take (i + 2) (R[i + 2 := c]) ! m = replicate (i + 2) 0 ! m"
      if "m < length (take (i + 2) (R[i + 2 := c]))" for m
    proof -
      have "m < i + 2" using that by simp
      then show ?thesis using z2 [of m] by (simp only: nth_replicate nth_take) simp
    qed
  qed
  ultimately show ?case
    using Suc.IH [OF _ Suc.prems(2) _ _ Suc.prems(5,6), of "R[i + 2 := c]"] Suc.prems(1,3) row(1-4) step
    by (simp add: digs_ok_update)
qed

lemma mul_rows_product:
  assumes "digs_ok A" "digs_ok B"
  shows "let P = mul_rows (length A) (length B) A B (replicate (length A + length B + 2) 0) in
    length P = length A + length B + 2 \<and> digs_ok P \<and> dval P = dval A * dval B"
  using mul_rows_correct [of "length A" A "length B" B "replicate (length A + length B + 2) 0"] assms
  by (simp add: Let_def del: replicate_Suc)

lemma carry_loop_correct:
  "i < length a \<Longrightarrow> \<forall>m < length a. 0 \<le> a ! m \<and> (m \<noteq> i \<longrightarrow> a ! m \<le> 9) \<Longrightarrow> a ! i \<le> 10 \<Longrightarrow>
   dval (take (Suc i) a) < 10 ^ Suc i \<Longrightarrow>
     length (carry_loop i a) = length a \<and> digs_ok (carry_loop i a) \<and>
     dval (carry_loop i a) = dval a \<and> drop (Suc i) (carry_loop i a) = drop (Suc i) a"
proof (induction i arbitrary: a)
  case 0
  then have "\<forall>m < length a. 0 \<le> a ! m \<and> a ! m \<le> 9"
    by (auto simp: dval_take_Suc)
  then show ?case by (auto simp: digs_ok_def in_set_conv_nth)
next
  case (Suc i)
  show ?case
  proof (cases "a ! Suc i > 9")
    case False
    with Suc.prems(2) have "\<forall>m < length a. 0 \<le> a ! m \<and> a ! m \<le> 9"
      by (metis linorder_not_le)
    with False show ?thesis by (auto simp: digs_ok_def in_set_conv_nth)
  next
    case True
    with Suc.prems(3) have ten: "a ! Suc i = 10" by simp
    define b where "b = a[Suc i := 0, i := a ! i + 1]"
    have i: "i < length a" using Suc.prems(1) by simp
    have "dval (take (Suc i) b) = dval (take (Suc i) a) + 1"
      using Suc.prems(1) by (simp add: b_def dval_take_Suc)
    moreover have "10 * dval (take (Suc i) a) + 10 < 10 * 10 ^ Suc i"
      using Suc.prems(1,4) ten dval_take_Suc [of "Suc i" a] by simp
    ultimately have lt: "dval (take (Suc i) b) < 10 ^ Suc i" by simp
    have "dval b = dval a - 10 * 10 ^ (length a - Suc (Suc i)) + 10 ^ (length a - Suc i)"
      using dval_update [OF Suc.prems(1), of 0] dval_update [of i "a[Suc i := 0]" "a ! i + 1"] i ten
      by (simp add: b_def)
    also have "(10 :: int) ^ (length a - Suc i) = 10 * 10 ^ (length a - Suc (Suc i))"
      using Suc.prems(1) by (simp add: Suc_diff_Suc [symmetric])
    finally have v: "dval b = dval a" by simp
    have "carry_loop (Suc i) a = carry_loop i b" using True by (simp add: b_def)
    moreover have "length (carry_loop i b) = length b \<and> digs_ok (carry_loop i b) \<and>
        dval (carry_loop i b) = dval b \<and> drop (Suc i) (carry_loop i b) = drop (Suc i) b"
    proof (rule Suc.IH [OF _ _ _ lt])
      show "i < length b" using i by (simp add: b_def)
      show "\<forall>m < length b. 0 \<le> b ! m \<and> (m \<noteq> i \<longrightarrow> b ! m \<le> 9)"
        using Suc.prems(1,2) i by (auto simp: b_def nth_list_update)
      show "b ! i \<le> 10" using Suc.prems(2) i by (auto simp: b_def)
    qed
    moreover have "drop (Suc (Suc i)) (carry_loop i b) = drop (Suc (Suc i)) b"
      if "drop (Suc i) (carry_loop i b) = drop (Suc i) b"
      using arg_cong [OF that, of tl] by (simp add: drop_Suc [symmetric] tl_drop)
    moreover have "drop (Suc (Suc i)) b = drop (Suc (Suc i)) a" by (simp add: b_def)
    ultimately show ?thesis using v by (simp add: b_def)
  qed
qed

end
