(* ===== verification/Decimal.thy ===== *)
theory Decimal
  imports Sqlite_Api Digits
begin

text \<open>
  The arbitrary-precision decimals of \<^verbatim>\<open>mvsqlite-pgtypes-ext/decimal.c\<close>: the
  structure \<^verbatim>\<open>Decimal\<close>, its constructor from text, printing, rounding, comparison,
  addition and multiplication.  A pointer to a \<^verbatim>\<open>Decimal\<close> is an option (\<open>None\<close> is
  NULL); a routine that changes the object it is given returns the new one.
  \<open>dec_val\<close> is the rational number a decimal denotes and \<open>dec_wf\<close> the invariant
  of the objects that hold a number.
\<close>

section \<open>The structure\<close>

text \<open>
  \<open>digits\<close> is the array \<^verbatim>\<open>a\<close>: the cells that have been written.  Only the first \<open>nDigit\<close> of
  them count.  The C fields are of type \<^verbatim>\<open>char\<close> (used as booleans) and \<^verbatim>\<open>int\<close>; a SQLite text
  has at most \<open>2 ^ 30\<close> bytes and \<open>iExp\<close> stays below \<open>10 ^ 7\<close>, so no \<^verbatim>\<open>int\<close> overflows.
\<close>

record Decimal =
  sign :: bool
  oom :: bool
  isNull :: bool
  isInit :: bool
  nDigit :: int
  nFrac :: int
  digits :: "int list"

abbreviation SQLITE_DECIMAL_MAX_DIGIT :: int where
  "SQLITE_DECIMAL_MAX_DIGIT \<equiv> 10000000"

abbreviation sizeof_Decimal :: int where
  "sizeof_Decimal \<equiv> 24"

definition digs :: "Decimal \<Rightarrow> int list" where
  "digs p = take (nat (nDigit p)) (digits p)"

definition digit_of :: "char \<Rightarrow> int" where
  "digit_of c = ord_char c - 48"

section \<open>The constructor\<close>

text \<open>The digits of the exponent: other characters are skipped, and the loop stops at a million.\<close>

fun exp_loop :: "string \<Rightarrow> int \<Rightarrow> int" where
  "exp_loop [] iExp = iExp"
| "exp_loop (c # zIn) iExp =
     (if iExp < 1000000 then
        exp_loop zIn (if isdigit c then iExp * 10 + digit_of c else iExp)
      else iExp)"

text \<open>
  The main loop.  The result is the decimal with its digits, \<open>nFrac\<close> still counting
  from the front, and the exponent.
\<close>

fun text_loop :: "string \<Rightarrow> Decimal \<Rightarrow> Decimal \<times> int" where
  "text_loop [] p = (p, 0)"
| "text_loop (c # zIn) p =
     (if isdigit c then
        text_loop zIn (p\<lparr>digits := digits p @ [digit_of c], nDigit := nDigit p + 1\<rparr>)
      else if c = CHR ''.'' then text_loop zIn (p\<lparr>nFrac := nDigit p + 1\<rparr>)
      else if c = CHR ''e'' \<or> c = CHR ''E'' then
        (if zIn = [] then (p, 0)
         else
           let (neg, zIn) = (if hd zIn = CHR ''-'' then (True, tl zIn)
                             else if hd zIn = CHR ''+'' then (False, tl zIn)
                             else (False, zIn));
               iExp = exp_loop zIn 0
           in (p, if neg then - iExp else iExp))
      else text_loop zIn p)"

text \<open>Applying the exponent; \<open>None\<close> when memory runs out.\<close>

definition apply_exp :: "sqlite3_api_routines \<Rightarrow> Decimal \<Rightarrow> int \<Rightarrow> Decimal option" where
  "apply_exp api p iExp =
     (if iExp > 0 then
        let (p, iExp) =
              (if nFrac p > 0 then
                 if iExp \<le> nFrac p then (p\<lparr>nFrac := nFrac p - iExp\<rparr>, 0)
                 else (p\<lparr>nFrac := 0\<rparr>, iExp - nFrac p)
               else (p, iExp))
        in if iExp > 0 then
             if malloc64 api (nDigit p + iExp + 1) then
               Some (p\<lparr>digits := digs p @ replicate (nat iExp) 0, nDigit := nDigit p + iExp\<rparr>)
             else None
           else Some p
      else if iExp < 0 then
        let iExp = - iExp;
            nExtra = nDigit p - nFrac p - 1;
            (p, iExp) =
              (if nExtra \<noteq> 0 then
                 if nExtra \<ge> iExp then (p\<lparr>nFrac := nFrac p + iExp\<rparr>, 0)
                 else (p\<lparr>nFrac := nDigit p - 1\<rparr>, iExp - nExtra)
               else (p, iExp))
        in if iExp > 0 then
             if malloc64 api (nDigit p + iExp + 1) then
               Some (p\<lparr>digits := replicate (nat iExp) 0 @ digs p,
                       nDigit := nDigit p + iExp, nFrac := nFrac p + iExp\<rparr>)
             else None
           else Some p
      else Some p)"

definition decimalNewFromText :: "sqlite3_api_routines \<Rightarrow> string option \<Rightarrow> Decimal option" where
  "decimalNewFromText api z =
     (case z of None \<Rightarrow> None
      | Some zIn \<Rightarrow>
        if \<not> malloc64 api sizeof_Decimal then None
        else if \<not> malloc64 api (int (length zIn) + 1) then None
        else
          let p = \<lparr>sign = False, oom = False, isNull = False, isInit = True,
                   nDigit = 0, nFrac = 0, digits = []\<rparr>;
              zIn = dropWhile isspace zIn;
              (p, zIn) = (if zIn \<noteq> [] \<and> hd zIn = CHR ''-'' then (p\<lparr>sign := True\<rparr>, tl zIn)
                          else if zIn \<noteq> [] \<and> hd zIn = CHR ''+'' then (p, tl zIn)
                          else (p, zIn));
              zIn = dropWhile (\<lambda>c. c = CHR ''0'') zIn;
              (p, iExp) = text_loop zIn p;
              p = (if nFrac p \<noteq> 0 then p\<lparr>nFrac := nDigit p - (nFrac p - 1)\<rparr> else p)
          in (case apply_exp api p iExp of
                None \<Rightarrow> None
              | Some p \<Rightarrow>
                  let p = (if sign p \<and> (\<forall>d \<in> set (digs p). d = 0) then p\<lparr>sign := False\<rparr> else p)
                  in if nDigit p > SQLITE_DECIMAL_MAX_DIGIT then None else Some p))"

section \<open>Printing\<close>

text \<open>The cells \<open>j, j + 1, \<dots>\<close> of the integer part: leading zeros are skipped while more than one digit is left.\<close>

function skip_zeros :: "int list \<Rightarrow> nat \<Rightarrow> int \<Rightarrow> nat \<times> int" where
  "skip_zeros a j n = (if n > 1 \<and> a ! j = 0 then skip_zeros a (j + 1) (n - 1) else (j, n))"
  by pat_completeness auto
termination
  by (relation "measure (\<lambda>(a, j, n). nat n)") auto

function emit_int :: "int list \<Rightarrow> nat \<Rightarrow> int \<Rightarrow> string \<times> nat" where
  "emit_int a j n =
     (if n > 0 then
        let (z, j') = emit_int a (j + 1) (n - 1) in (digit_char (nat (a ! j)) # z, j')
      else ([], j))"
  by pat_completeness auto
termination
  by (relation "measure (\<lambda>(a, j, n). nat n)") auto

function emit_frac :: "int list \<Rightarrow> nat \<Rightarrow> int \<Rightarrow> string" where
  "emit_frac a j n =
     digit_char (nat (a ! j)) # (if int (j + 1) < n then emit_frac a (j + 1) n else [])"
  by pat_completeness auto
termination
  by (relation "measure (\<lambda>(a, j, n). nat n - j)") auto

declare skip_zeros.simps [simp del] emit_int.simps [simp del] emit_frac.simps [simp del]

definition decimal_text :: "Decimal \<Rightarrow> string" where
  "decimal_text p =
     (let n = nDigit p - nFrac p;
          (j, n) = skip_zeros (digits p) 0 n;
          (z, j) = emit_int (digits p) j n
      in (if sign p then ''-'' else []) @ (if nDigit p - nFrac p \<le> 0 then ''0'' else []) @ z @
         (if nFrac p \<noteq> 0 then ''.'' @ emit_frac (digits p) j (nDigit p) else []))"

text \<open>\<^verbatim>\<open>decimal_result\<close> may clear the sign of the object, which the caller keeps.\<close>

definition decimal_result :: "sqlite3_api_routines \<Rightarrow> Decimal option \<Rightarrow> sql_result \<times> Decimal option" where
  "decimal_result api q =
     (case q of None \<Rightarrow> (ResNomem, None)
      | Some p \<Rightarrow>
          if oom p then (ResNomem, Some p)
          else if isNull p then (ResNull, Some p)
          else if \<not> malloc64 api (nDigit p + 8) then (ResNomem, Some p)
          else
            let p = (if nDigit p = 0 \<or> (nDigit p = 1 \<and> digits p ! 0 = 0) then p\<lparr>sign := False\<rparr> else p)
            in (ResText (decimal_text p), Some p))"

section \<open>Resizing and rounding\<close>

definition decimal_expand :: "sqlite3_api_routines \<Rightarrow> Decimal \<Rightarrow> int \<Rightarrow> int \<Rightarrow> Decimal" where
  "decimal_expand api p nd nf =
     (let nAddFrac = nf - nFrac p;
          nAddSig = (nd - nDigit p) - nAddFrac
      in if nAddFrac = 0 \<and> nAddSig = 0 then p
         else if nd + 1 > SQLITE_DECIMAL_MAX_DIGIT then p\<lparr>oom := True\<rparr>
         else if \<not> malloc64 api (nd + 1) then p\<lparr>oom := True\<rparr>
         else
           let p = (if nAddSig \<noteq> 0 then
                      p\<lparr>digits := replicate (nat nAddSig) 0 @ digs p, nDigit := nDigit p + nAddSig\<rparr>
                    else p)
           in if nAddFrac \<noteq> 0 then
                p\<lparr>digits := digs p @ replicate (nat nAddFrac) 0,
                  nDigit := nDigit p + nAddFrac, nFrac := nFrac p + nAddFrac\<rparr>
              else p)"

text \<open>Rounding writes zeros from the cell \<open>N\<close> on, after it has incremented the cell before.\<close>

definition round_finish :: "Decimal \<Rightarrow> int \<Rightarrow> Decimal" where
  "round_finish p N =
     p\<lparr>digits := take (nat N) (digits p) @ replicate (nat (nDigit p - N)) 0 @
                 drop (nat (nDigit p)) (digits p)\<rparr>"

definition decimal_round :: "sqlite3_api_routines \<Rightarrow> Decimal option \<Rightarrow> int \<Rightarrow> Decimal option" where
  "decimal_round api q n0 =
     (if n0 < 1 then q
      else case q of None \<Rightarrow> None
      | Some p \<Rightarrow>
        if nDigit p \<le> n0 then Some p
        else
          let nZero = int (length (takeWhile (\<lambda>d. d = 0) (digs p)));
              N = n0 + nZero
          in if nDigit p \<le> N then Some p
             else if digits p ! nat N \<ge> 5 then
               let nines = (\<forall>d \<in> set (take (nat N) (digits p)). d = 9);
                   p = (if nines then decimal_expand api p (nDigit p + 1) (nFrac p) else p)
               in if nines \<and> oom p then Some p
                  else
                    let a = (digits p)[nat N - 1 := digits p ! (nat N - 1) + 1]
                    in Some (round_finish (p\<lparr>digits := carry_loop (nat N - 1) a\<rparr>) N)
             else Some (round_finish p N))"

section \<open>Scientific notation\<close>

text \<open>
  The significant digits of a decimal: the number of leading zeros, of digits
  without the trailing zeros past the first \<open>N\<close>, and of those right of the point.
\<close>

definition sci_trim :: "Decimal \<Rightarrow> int \<Rightarrow> int \<times> int \<times> int" where
  "sci_trim p N =
     (let nd = nDigit p - int (length (takeWhile (\<lambda>d. d = 0) (rev (drop (nat N) (digs p)))));
          nZero = int (length (takeWhile (\<lambda>d. d = 0) (take (nat nd) (digits p))));
          nf = nFrac p + (nd - nDigit p)
      in (nZero, nd - nZero, nf))"

definition decimal_result_sci :: "sqlite3_api_routines \<Rightarrow> Decimal option \<Rightarrow> int \<Rightarrow> sql_result" where
  "decimal_result_sci api q n0 =
     (case q of None \<Rightarrow> ResNomem
      | Some p \<Rightarrow>
          if oom p then ResNomem
          else if isNull p then ResNull
          else
            let N = (if n0 < 1 then 0 else n0);
                (nZero, nd, nf) = sci_trim p N
            in if \<not> malloc64 api (nd + 20) then ResNomem
               else
                 let (a, nd, nf) = (if nd = 0 then ([0], 1, 0)
                                    else (drop (nat nZero) (digits p), nd, nf));
                     z = (if sign p \<and> nd > 0 then ''-'' else ''+'') @
                         [digit_char (nat (a ! 0))] @ ''.'' @
                         (if nd = 1 then ''0''
                          else map (\<lambda>d. digit_char (nat d)) (drop 1 (take (nat nd) a)))
                 in ResText (z @ snprintf_exp api (nd - nf - 1)))"

section \<open>Comparison\<close>

text \<open>Dropping trailing zeros while more than \<open>m\<close> fractional digits are left.\<close>

function strip_zeros :: "int \<Rightarrow> Decimal \<Rightarrow> Decimal" where
  "strip_zeros m p =
     (if nFrac p > m \<and> digits p ! nat (nDigit p - 1) = 0
      then strip_zeros m (p\<lparr>nDigit := nDigit p - 1, nFrac := nFrac p - 1\<rparr>) else p)"
  by pat_completeness auto
termination
  by (relation "measure (\<lambda>(m, p). nat (nFrac p - m))") auto

declare strip_zeros.simps [simp del]

definition decimal_cmp :: "Decimal \<Rightarrow> Decimal \<Rightarrow> int" where
  "decimal_cmp pA pB =
     (let pA = strip_zeros 0 pA; pB = strip_zeros 0 pB in
      if sign pA \<noteq> sign pB then (if sign pA then - 1 else 1)
      else
        let (pA, pB) = (if sign pA then (pB, pA) else (pA, pB));
            nASig = nDigit pA - nFrac pA;
            nBSig = nDigit pB - nFrac pB
        in if nASig \<noteq> nBSig then nASig - nBSig
           else
             let n = (if nDigit pA > nDigit pB then nDigit pB else nDigit pA);
                 rc = memcmp (digits pA) (digits pB) (nat n)
             in if rc = 0 then nDigit pA - nDigit pB else rc)"

section \<open>Addition\<close>

text \<open>The sum once both operands have been brought to \<open>nd\<close> digits.\<close>

definition add_digits :: "Decimal \<Rightarrow> Decimal \<Rightarrow> int \<Rightarrow> Decimal" where
  "add_digits pA pB nd =
     (if sign pA = sign pB then
        pA\<lparr>digits := fst (add_loop (nat nd) (digits pA) (digits pB) 0)\<rparr>
      else
        let rc = memcmp (digits pA) (digits pB) (nat nd) in
        if rc < 0 then
          pA\<lparr>sign := \<not> sign pA, digits := fst (sub_loop True (nat nd) (digits pA) (digits pB) 0)\<rparr>
        else pA\<lparr>digits := fst (sub_loop False (nat nd) (digits pA) (digits pB) 0)\<rparr>)"

definition decimal_add :: "sqlite3_api_routines \<Rightarrow> Decimal option \<Rightarrow> Decimal option \<Rightarrow>
    Decimal option \<times> Decimal option" where
  "decimal_add api qA qB =
     (case qA of None \<Rightarrow> (None, qB)
      | Some pA \<Rightarrow>
        (case qB of None \<Rightarrow> (Some (pA\<lparr>oom := True\<rparr>), None)
         | Some pB \<Rightarrow>
             if oom pA \<or> oom pB then (Some (pA\<lparr>oom := True\<rparr>), Some pB)
             else if isNull pA \<or> isNull pB then (Some (pA\<lparr>isNull := True\<rparr>), Some pB)
             else
               let nSig = nDigit pA - nFrac pA;
                   nSig = (if nSig \<noteq> 0 \<and> digits pA ! 0 = 0 then nSig - 1 else nSig);
                   nSig = (if nSig < nDigit pB - nFrac pB then nDigit pB - nFrac pB else nSig);
                   nf = nFrac pA;
                   nf = (if nf < nFrac pB then nFrac pB else nf);
                   nd = nSig + nf + 1;
                   pA = decimal_expand api pA nd nf;
                   pB = decimal_expand api pB nd nf
               in if oom pA \<or> oom pB then (Some (pA\<lparr>oom := True\<rparr>), Some pB)
                  else (Some (add_digits pA pB nd), Some pB)))"

section \<open>Multiplication\<close>

text \<open>
  The product; \<^verbatim>\<open>decimalPow2\<close> also calls it with both pointers equal, which reads the
  same fields because \<^verbatim>\<open>pA\<close> is changed only after the last use of \<^verbatim>\<open>pB\<close>'s digits.
\<close>

definition decimalMul :: "sqlite3_api_routines \<Rightarrow> Decimal option \<Rightarrow> Decimal option \<Rightarrow> Decimal option" where
  "decimalMul api qA qB =
     (case qA of None \<Rightarrow> None
      | Some pA \<Rightarrow>
        (case qB of None \<Rightarrow> Some pA
         | Some pB \<Rightarrow>
             if oom pA \<or> isNull pA \<or> oom pB \<or> isNull pB then Some pA
             else
               let sumDigit = nDigit pA + nDigit pB + 2 in
               if sumDigit > SQLITE_DECIMAL_MAX_DIGIT then Some (pA\<lparr>oom := True\<rparr>)
               else if \<not> malloc64 api sumDigit then Some (pA\<lparr>oom := True\<rparr>)
               else
                 let acc = replicate (nat sumDigit) 0;
                     minFrac = nFrac pA;
                     minFrac = (if nFrac pB < minFrac then nFrac pB else minFrac);
                     acc = mul_rows (nat (nDigit pA)) (nat (nDigit pB)) (digits pA) (digits pB) acc;
                     pA = pA\<lparr>digits := acc, nDigit := nDigit pA + (nDigit pB + 2),
                             nFrac := nFrac pA + nFrac pB, sign := (sign pA \<noteq> sign pB)\<rparr>
                 in Some (strip_zeros minFrac pA)))"

section \<open>Invariant and value\<close>

definition dec_wf :: "Decimal \<Rightarrow> bool" where
  "dec_wf p \<longleftrightarrow> \<not> oom p \<and> \<not> isNull p \<and> 0 \<le> nFrac p \<and> nFrac p \<le> nDigit p \<and>
     nDigit p \<le> int (length (digits p)) \<and> digs_ok (digits p)"

text \<open>The numerator of a decimal over \<open>10 ^ nFrac\<close>, and the number it denotes.\<close>

definition dec_mant :: "Decimal \<Rightarrow> int" where
  "dec_mant p = (if sign p then - dval (digs p) else dval (digs p))"

definition dec_val :: "Decimal \<Rightarrow> rat" where
  "dec_val p = of_int (dec_mant p) / 10 ^ nat (nFrac p)"

lemma dec_wfD:
  assumes "dec_wf p"
  shows "\<not> oom p" "\<not> isNull p" "0 \<le> nFrac p" "nFrac p \<le> nDigit p" "0 \<le> nDigit p"
    "nat (nDigit p) \<le> length (digits p)" "digs_ok (digits p)" "digs_ok (digs p)"
    "length (digs p) = nat (nDigit p)"
  using assms by (auto simp: dec_wf_def digs_def digs_ok_take)

lemma digs_update [simp]:
  "digs (p\<lparr>sign := s\<rparr>) = digs p" "digs (p\<lparr>nFrac := f\<rparr>) = digs p" "digs (p\<lparr>oom := b\<rparr>) = digs p"
  by (simp_all add: digs_def)

lemma digs_full: "nat (nDigit p) = length (digits p) \<Longrightarrow> digs p = digits p"
  by (simp add: digs_def)

lemma dec_val_scale:
  assumes "dec_mant q = dec_mant p * 10 ^ k" "nat (nFrac q) = nat (nFrac p) + k"
  shows "dec_val q = dec_val p"
  using assms by (simp add: dec_val_def power_add)

subsection \<open>Dropping zeros\<close>

lemma strip_zeros_correct:
  "0 \<le> m \<Longrightarrow> dec_wf p \<Longrightarrow> let q = strip_zeros m p in
     dec_wf q \<and> dec_val q = dec_val p \<and> sign q = sign p \<and> digits q = digits p \<and> isInit q = isInit p \<and>
     nDigit q - nFrac q = nDigit p - nFrac p \<and> nDigit q \<le> nDigit p \<and>
     (m \<le> nFrac p \<longrightarrow> m \<le> nFrac q) \<and>
     (nFrac q > m \<longrightarrow> digits q ! nat (nDigit q - 1) \<noteq> 0)"
proof (induction m p rule: strip_zeros.induct)
  case (1 m p)
  show ?case
  proof (cases "nFrac p > m \<and> digits p ! nat (nDigit p - 1) = 0")
    case False
    with 1(3) show ?thesis by (auto simp: strip_zeros.simps [of m p] Let_def)
  next
    case True
    let ?q = "p\<lparr>nDigit := nDigit p - 1, nFrac := nFrac p - 1\<rparr>"
    note wf = dec_wfD [OF 1(3)]
    define k where "k = nat (nDigit p - 1)"
    have n: "nat (nDigit p) = Suc k" "k < length (digits p)" "digits p ! k = 0"
      using True 1(2) wf by (auto simp: k_def)
    have q: "dec_wf ?q" using 1(2,3) True by (auto simp: dec_wf_def)
    have "dval (digs p) = 10 * dval (digs ?q)"
      using n by (simp add: digs_def k_def [symmetric] dval_take_Suc)
    then have "dec_val p = dec_val ?q"
      using True 1(2) by (intro dec_val_scale [of _ _ 1]) (auto simp: dec_mant_def nat_diff_distrib)
    with 1(1) [OF True 1(2) q] True show ?thesis
      by (auto simp: strip_zeros.simps [of m p] Let_def)
  qed
qed

lemmas strip_zeros_facts = strip_zeros_correct [unfolded Let_def]

subsection \<open>Expansion\<close>

lemma decimal_expand_correct:
  fixes api :: sqlite3_api_routines
  assumes wf: "dec_wf p" and nf: "nFrac p \<le> nf" and nd: "nf - nFrac p \<le> nd - nDigit p"
  defines "q \<equiv> decimal_expand api p nd nf"
  assumes "\<not> oom q"
  shows "dec_wf q" "dec_val q = dec_val p" "nDigit q = nd" "nFrac q = nf" "sign q = sign p"
    "isInit q = isInit p" "digs q = replicate (nat (nd - nDigit p - (nf - nFrac p))) 0 @ digs p @ replicate (nat (nf - nFrac p)) 0"
proof -
  note w = dec_wfD [OF wf]
  define s where "s = nd - nDigit p - (nf - nFrac p)"
  define f where "f = nf - nFrac p"
  have sf: "0 \<le> s" "0 \<le> f" "nd = s + nDigit p + f" "nf = nFrac p + f" using nf nd by (auto simp: s_def f_def)
  have len: "length (digs p) = nat (nDigit p)" by (rule w(9))
  have q: "nDigit q = nd \<and> nFrac q = nf \<and> sign q = sign p \<and> isInit q = isInit p \<and> isNull q = isNull p \<and>
      digs q = replicate (nat s) 0 @ digs p @ replicate (nat f) 0 \<and>
      digs_ok (digits q) \<and> nat nd \<le> length (digits q)"
  proof (cases "f = 0 \<and> s = 0")
    case True
    then have "q = p" by (simp add: q_def decimal_expand_def s_def f_def Let_def)
    with True w sf show ?thesis by simp
  next
    case False
    define p1 where "p1 = (if s \<noteq> 0 then p\<lparr>digits := replicate (nat s) 0 @ digs p, nDigit := nDigit p + s\<rparr> else p)"
    define E where "E = (if f \<noteq> 0 then p1\<lparr>digits := digs p1 @ replicate (nat f) 0,
        nDigit := nDigit p1 + f, nFrac := nFrac p1 + f\<rparr> else p1)"
    have "q = (if f = 0 \<and> s = 0 then p else if nd + 1 > SQLITE_DECIMAL_MAX_DIGIT then p\<lparr>oom := True\<rparr>
        else if \<not> malloc64 api (nd + 1) then p\<lparr>oom := True\<rparr> else E)"
      by (simp only: q_def decimal_expand_def Let_def s_def f_def E_def p1_def)
    with False assms(5) have qE: "q = E" by (auto split: if_splits)
    have dp1: "digs p1 = replicate (nat s) 0 @ digs p" "nDigit p1 = nDigit p + s" "nFrac p1 = nFrac p"
      using w(5) sf len by (auto simp: p1_def digs_def nat_add_distrib)
    have "q = (if f \<noteq> 0 then
        p\<lparr>digits := (replicate (nat s) 0 @ digs p) @ replicate (nat f) 0, nDigit := nDigit p + s + f, nFrac := nFrac p + f\<rparr>
        else p1)"
      unfolding qE E_def dp1 by (simp add: p1_def)
    moreover have "nat (nDigit p + s) = nat s + length (digs p)"
      "nat (nDigit p + s + f) = nat s + length (digs p) + nat f"
      using w(5) sf len by (simp_all add: nat_add_distrib)
    ultimately show ?thesis
      using w(6,7,8) sf len digs_full [of q] dp1 by (cases "f = 0") (auto simp: add.commute p1_def)
  qed
  then show "nDigit q = nd" "nFrac q = nf" "sign q = sign p" "isInit q = isInit p"
    "digs q = replicate (nat (nd - nDigit p - (nf - nFrac p))) 0 @ digs p @ replicate (nat (nf - nFrac p)) 0"
    by (auto simp: s_def f_def)
  show "dec_wf q" using q assms(5) w sf by (auto simp: dec_wf_def)
  have "dval (digs q) = dval (digs p) * 10 ^ nat f"
    using q by (simp add: dval_append)
  then show "dec_val q = dec_val p"
    using q sf w(3) by (intro dec_val_scale [of _ _ "nat f"]) (auto simp: dec_mant_def nat_add_distrib)
qed

subsection \<open>Addition\<close>

lemma dval_head_0: "digs_ok xs \<Longrightarrow> xs \<noteq> [] \<Longrightarrow> xs ! 0 = 0 \<Longrightarrow> dval xs < 10 ^ (length xs - 1)"
  using dval_less [of "tl xs"] by (cases xs) (auto simp: dval_Cons)

lemma memcmp_take: "n \<le> length xs \<Longrightarrow> n \<le> length ys \<Longrightarrow> memcmp xs ys n = memcmp (take n xs) (take n ys) n"
  by (induction xs ys n rule: memcmp.induct) auto

lemma memcmp_digits:
  assumes "digs_ok A" "digs_ok B" "n \<le> length A" "n \<le> length B"
  shows "memcmp A B n = sgn (dval (take n A) - dval (take n B))"
  using assms by (subst memcmp_take) (auto intro!: memcmp_dval digs_ok_take)

lemma add_digits_correct:
  assumes A: "dec_wf A" and B: "dec_wf B" and n: "nDigit A = nDigit B" "nFrac A = nFrac B" "0 < nDigit A"
    and z: "digits A ! 0 = 0" "digits B ! 0 = 0"
  defines "R \<equiv> add_digits A B (nDigit A)"
  shows "dec_wf R" "dec_val R = dec_val A + dec_val B" "isInit R = isInit A" "nDigit R = nDigit A" "nFrac R = nFrac A"
proof -
  define k where "k = nat (nDigit A)"
  note a = dec_wfD [OF A] and b = dec_wfD [OF B]
  have k: "k \<le> length (digits A)" "k \<le> length (digits B)" "0 < k" "digs A = take k (digits A)" "digs B = take k (digits B)"
    using a b n by (auto simp: k_def digs_def)
  have ne: "digits A \<noteq> []" "digits B \<noteq> []" using k by auto
  have lA: "0 \<le> dval (digs A)" "dval (digs A) < 10 ^ (k - 1)" "0 \<le> dval (digs B)" "dval (digs B) < 10 ^ (k - 1)"
    using dval_head_0 [of "take k (digits A)"] dval_head_0 [of "take k (digits B)"]
      dval_nonneg [OF a(8)] dval_nonneg [OF b(8)] a(7) b(7) z k ne
    by (auto simp: digs_ok_take)
  have ten: "(10 :: int) ^ k = 10 * 10 ^ (k - 1)" using k(3) by (cases k) auto
  obtain P c where P: "add_loop k (digits A) (digits B) 0 = (P, c)" by (metis surj_pair)
  have Pc: "length P = length (digits A)" "digs_ok P" "c = 0 \<or> c = 1"
    "c * 10 ^ k + dval (take k P) = dval (digs A) + dval (digs B)"
    using add_loop_correct [OF k(1,2) a(7) b(7) _ P] k(4,5) by auto
  obtain S e where S: "sub_loop False k (digits A) (digits B) 0 = (S, e)" by (metis surj_pair)
  have Se: "length S = length (digits A)" "digs_ok S" "e = 0 \<or> e = 1"
    "dval (take k S) - e * 10 ^ k = dval (digs A) - dval (digs B)"
    using sub_loop_correct [OF k(1,2) a(7) b(7) _ S] k(4,5) by auto
  obtain T f where T: "sub_loop True k (digits A) (digits B) 0 = (T, f)" by (metis surj_pair)
  have Tf: "length T = length (digits A)" "digs_ok T" "f = 0 \<or> f = 1"
    "dval (take k T) - f * 10 ^ k = dval (digs B) - dval (digs A)"
    using sub_loop_correct [OF k(1,2) a(7) b(7) _ T] k(4,5) by auto
  have bounds: "dval (take k X) < 10 ^ k" "0 \<le> dval (take k X)" if "length X = length (digits A)" "digs_ok X" for X
    using dval_less [of "take k X"] dval_nonneg [of "take k X"] that k by (auto simp: digs_ok_take)
  have rc: "memcmp (digits A) (digits B) k = sgn (dval (digs A) - dval (digs B))"
    using memcmp_digits [OF a(7) b(7) k(1,2)] k(4,5) by simp
  have c0: "c = 0" using Pc lA ten bounds [OF Pc(1,2)] by auto
  have e0: "e = 0" if "dval (digs B) \<le> dval (digs A)"
    using that Se bounds [OF Se(1,2)] by auto
  have f0: "f = 0" if "dval (digs A) < dval (digs B)"
    using that Tf bounds [OF Tf(1,2)] by auto
  have R: "R = (if sign A = sign B then A\<lparr>digits := P\<rparr>
      else if dval (digs A) < dval (digs B) then A\<lparr>sign := \<not> sign A, digits := T\<rparr> else A\<lparr>digits := S\<rparr>)"
    using P S T rc by (auto simp: R_def add_digits_def k_def Let_def sgn_if)
  show "isInit R = isInit A" "nDigit R = nDigit A" "nFrac R = nFrac A" by (auto simp: R)
  show "dec_wf R" using A Pc(1,2) Se(1,2) Tf(1,2) by (auto simp: R dec_wf_def)
  have "dec_mant R = dec_mant A + dec_mant B"
    using Pc(4) Se(4) Tf(4) c0 e0 f0 by (auto simp: R dec_mant_def digs_def k_def)
  then show "dec_val R = dec_val A + dec_val B"
    using n by (auto simp: dec_val_def R add_divide_distrib)
qed

text \<open>The space in front: both operands begin with a zero once they are expanded.\<close>

lemma expand_head_0:
  assumes "dec_wf p" "\<not> oom (decimal_expand api p nd nf)" "nFrac p \<le> nf"
    and "nDigit p - nFrac p < nd - nf \<or> (nDigit p - nFrac p = nd - nf \<and> 0 < nDigit p \<and> digits p ! 0 = 0)"
  shows "digits (decimal_expand api p nd nf) ! 0 = 0"
proof -
  let ?q = "decimal_expand api p nd nf"
  have e: "dec_wf ?q" "digs ?q = replicate (nat (nd - nDigit p - (nf - nFrac p))) 0 @ digs p @ replicate (nat (nf - nFrac p)) 0"
    using decimal_expand_correct [OF assms(1,3) _ assms(2)] assms(4) by auto
  note w = dec_wfD [OF assms(1)]
  have "digs ?q ! 0 = 0 \<and> digs ?q \<noteq> []"
  proof (cases "nDigit p - nFrac p < nd - nf")
    case True
    then show ?thesis unfolding e(2) by (auto simp: nth_append)
  next
    case False
    with assms(4) have h: "0 < nDigit p" "digits p ! 0 = 0" "nd - nDigit p - (nf - nFrac p) = 0" by auto
    then have "digs p \<noteq> []" "digs p ! 0 = 0" using w(6,9) by (auto simp: digs_def)
    then show ?thesis unfolding e(2) h(3) by (auto simp: nth_append)
  qed
  then show ?thesis by (auto simp: digs_def)
qed

lemma decimal_expand_flags [simp]:
  "isNull (decimal_expand api p nd nf) = isNull p" "isInit (decimal_expand api p nd nf) = isInit p"
  by (auto simp: decimal_expand_def Let_def)

lemma decimal_add_correct:
  assumes A: "dec_wf A" and B: "dec_wf B"
    and add: "decimal_add api (Some A) (Some B) = (Some R, S)"
  shows "isInit R = isInit A \<and> (oom R \<or> dec_wf R \<and> dec_val R = dec_val A + dec_val B)"
proof -
  note a = dec_wfD [OF A] and b = dec_wfD [OF B]
  define nS where "nS = (if nDigit A - nFrac A \<noteq> 0 \<and> digits A ! 0 = 0 then nDigit A - nFrac A - 1 else nDigit A - nFrac A)"
  define s where "s = (if nS < nDigit B - nFrac B then nDigit B - nFrac B else nS)"
  define nf where "nf = (if nFrac A < nFrac B then nFrac B else nFrac A)"
  define nd where "nd = s + nf + 1"
  define A' where "A' = decimal_expand api A nd nf"
  define B' where "B' = decimal_expand api B nd nf"
  have R: "R = (if oom A' \<or> oom B' then A'\<lparr>oom := True\<rparr> else add_digits A' B' nd)"
    using add a(1,2) b(1,2)
    unfolding decimal_add_def option.case Let_def nS_def [symmetric] s_def [symmetric] nf_def [symmetric]
      nd_def [symmetric] A'_def [symmetric] B'_def [symmetric]
    by (auto split: if_splits)
  show ?thesis
  proof (cases "oom A' \<or> oom B'")
    case True
    then show ?thesis by (auto simp: R A'_def)
  next
    case False
    have nf: "nFrac A \<le> nf" "nFrac B \<le> nf" by (auto simp: nf_def)
    have s: "nDigit B - nFrac B < nd - nf"
      "nDigit A - nFrac A < nd - nf \<or> (nDigit A - nFrac A = nd - nf \<and> 0 < nDigit A \<and> digits A ! 0 = 0)"
      using a(3,4) by (auto simp: s_def nS_def nd_def)
    have nd: "nf - nFrac A \<le> nd - nDigit A" "nf - nFrac B \<le> nd - nDigit B" using s by auto
    have eA: "dec_wf A'" "dec_val A' = dec_val A" "nDigit A' = nd" "nFrac A' = nf" "digits A' ! 0 = 0"
      using decimal_expand_correct [OF A nf(1) nd(1), of api] expand_head_0 [OF A _ nf(1) s(2), of api] False
      by (auto simp: A'_def)
    have eB: "dec_wf B'" "dec_val B' = dec_val B" "nDigit B' = nd" "nFrac B' = nf" "digits B' ! 0 = 0"
      using decimal_expand_correct [OF B nf(2) nd(2), of api] expand_head_0 [OF B _ nf(2), of api nd] s(1) False
      by (auto simp: B'_def)
    have "0 < nd" using s(1) b(3,4) nf a(3) by linarith
    then have "dec_wf R \<and> dec_val R = dec_val A + dec_val B \<and> isInit R = isInit A'"
      using add_digits_correct [OF eA(1) eB(1)] eA eB False by (auto simp: R)
    then show ?thesis by (auto simp: A'_def)
  qed
qed

subsection \<open>Multiplication\<close>

lemma mul_row_take: "j \<le> n \<Longrightarrow> mul_row i j f B acc c = mul_row i j f (take n B) acc c"
  by (induction j arbitrary: acc c) (auto simp: Let_def)

lemma mul_rows_take: "i \<le> m \<Longrightarrow> mul_rows i n A B acc = mul_rows i n (take m A) (take n B) acc"
proof (induction i arbitrary: acc)
  case (Suc i)
  then have "take m A ! i = A ! i" by simp
  with Suc show ?case
    by (simp add: Let_def mul_row_take [of n n _ _ B] split: prod.splits)
qed simp

lemma decimalMul_correct:
  assumes A: "dec_wf A" and B: "dec_wf B" and mul: "decimalMul api (Some A) (Some B) = Some R"
  shows "oom R \<or> (dec_wf R \<and> dec_val R = dec_val A * dec_val B \<and> isInit R = isInit A \<and>
    nDigit R \<le> nDigit A + nDigit B + 2)"
proof (cases "oom R")
  case False
  note a = dec_wfD [OF A] and b = dec_wfD [OF B]
  define P where "P = mul_rows (nat (nDigit A)) (nat (nDigit B)) (digits A) (digits B)
      (replicate (nat (nDigit A + nDigit B + 2)) 0)"
  define Q where "Q = A\<lparr>digits := P, nDigit := nDigit A + (nDigit B + 2),
      nFrac := nFrac A + nFrac B, sign := (sign A \<noteq> sign B)\<rparr>"
  define m where "m = (if nFrac B < nFrac A then nFrac B else nFrac A)"
  have R: "R = strip_zeros m Q"
    using mul False a(1,2) b(1,2)
    unfolding decimalMul_def option.case Let_def P_def [symmetric] m_def [symmetric] Q_def [symmetric]
    by (auto split: if_splits)
  have "P = mul_rows (length (digs A)) (length (digs B)) (digs A) (digs B)
      (replicate (length (digs A) + length (digs B) + 2) 0)"
    using a(5,9) b(5,9) mul_rows_take [of "nat (nDigit A)" "nat (nDigit A)"]
    by (simp add: P_def digs_def nat_add_distrib min_absorb2 del: replicate_Suc)
  then have P: "length P = nat (nDigit A) + nat (nDigit B) + 2" "digs_ok P" "dval P = dval (digs A) * dval (digs B)"
    using mul_rows_product [OF a(8) b(8)] a(9) b(9) by (auto simp: Let_def)
  have dQ: "digs Q = P" using P(1) a(5) b(5) by (simp add: digs_def Q_def nat_add_distrib)
  have wf: "dec_wf Q" using P(1,2) a b by (auto simp: dec_wf_def Q_def)
  have "dec_mant Q = dec_mant A * dec_mant B" using dQ P(3) by (auto simp: dec_mant_def Q_def)
  then have "dec_val Q = dec_val A * dec_val B"
    using a(3) b(3) by (simp add: dec_val_def Q_def nat_add_distrib power_add)
  moreover have "0 \<le> m" using a(3) b(3) by (simp add: m_def)
  ultimately show ?thesis
    using strip_zeros_facts [OF _ wf, of m] by (auto simp: R Q_def)
qed simp

lemma decimalMul_total: "\<exists>R. decimalMul api (Some A) (Some B) = Some R"
  by (simp add: decimalMul_def Let_def)

end
