(* ===== verification/Decimal_Cmp.thy ===== *)
theory Decimal_Cmp
  imports Decimal
begin

text \<open>
  Correctness of the comparison and of the rounding of decimals.
\<close>

section \<open>Comparison\<close>

text \<open>
  What \<^verbatim>\<open>decimal_cmp\<close> relies on: no leading zero in the integer part, and zero is
  not negative.
\<close>

definition cmp_normal :: "Decimal \<Rightarrow> bool" where
  "cmp_normal p \<longleftrightarrow> (nFrac p < nDigit p \<longrightarrow> digits p ! 0 \<noteq> 0) \<and> (sign p \<longrightarrow> dval (digs p) \<noteq> 0)"

text \<open>The magnitude of a decimal, and of the last digit of its fraction.\<close>

definition dec_mag :: "Decimal \<Rightarrow> rat" where
  "dec_mag p = of_int (dval (digs p)) / 10 ^ nat (nFrac p)"

lemma dec_val_mag: "dec_val p = (if sign p then - dec_mag p else dec_mag p)"
  by (simp add: dec_val_def dec_mant_def dec_mag_def)

lemma dec_mag_nonneg: "dec_wf p \<Longrightarrow> 0 \<le> dec_mag p"
  using dval_nonneg [of "digs p"] by (auto simp: dec_mag_def dec_wfD)

lemma sgn_rat_of_int: "sgn (of_int i :: rat) = of_int (sgn i)"
  by (simp add: sgn_if)

lemma dec_mag_bounds:
  assumes "dec_wf p"
  shows "dec_mag p < 10 ^ nat (nDigit p - nFrac p)"
    and "nFrac p < nDigit p \<Longrightarrow> digits p ! 0 \<noteq> 0 \<Longrightarrow> 10 ^ (nat (nDigit p - nFrac p) - 1) \<le> dec_mag p"
proof -
  note w = dec_wfD [OF assms]
  define f s where "f = nat (nFrac p)" and "s = nat (nDigit p - nFrac p)"
  have n: "nat (nDigit p) = s + f" using w by (simp add: f_def s_def)
  have "dval (digs p) < 10 ^ (s + f)" using dval_less [OF w(8)] w(9) n by simp
  then have "(of_int (dval (digs p)) :: rat) < of_int (10 ^ (s + f))" by (rule of_int_less_iff [THEN iffD2])
  then show "dec_mag p < 10 ^ nat (nDigit p - nFrac p)"
    by (simp add: dec_mag_def f_def [symmetric] s_def [symmetric] power_add divide_less_eq)
  assume "nFrac p < nDigit p" "digits p ! 0 \<noteq> 0"
  then have s: "0 < s" and h: "digs p ! 0 \<noteq> 0" "digs p \<noteq> []" using w n by (auto simp: s_def digs_def)
  then obtain d ds where d: "digs p = d # ds" by (cases "digs p") auto
  then have "1 \<le> d" "length ds = s + f - 1" "0 \<le> dval ds"
    using w(8,9) h n dval_nonneg [of ds] by auto
  then have "1 * 10 ^ (s + f - 1) \<le> d * 10 ^ (s + f - 1)" by (intro mult_right_mono) auto
  with \<open>length ds = s + f - 1\<close> \<open>0 \<le> dval ds\<close> have "10 ^ (s + f - 1) \<le> dval (digs p)"
    unfolding d dval_Cons \<open>length ds = s + f - 1\<close> by linarith
  also have "s + f - 1 = (s - 1) + f" using s by simp
  finally have "of_int (10 ^ (s - 1 + f)) \<le> (of_int (dval (digs p)) :: rat)" by (rule of_int_le_iff [THEN iffD2])
  then show "10 ^ (nat (nDigit p - nFrac p) - 1) \<le> dec_mag p"
    by (simp add: dec_mag_def f_def [symmetric] s_def [symmetric] power_add le_divide_eq)
qed

lemma mag_cmp_same:
  assumes A: "dec_wf A" and B: "dec_wf B" and s: "nDigit A - nFrac A = nDigit B - nFrac B"
    and n: "nDigit B \<le> nDigit A" and l: "nFrac A > 0 \<longrightarrow> digits A ! nat (nDigit A - 1) \<noteq> 0"
  defines "rc \<equiv> memcmp (digits A) (digits B) (nat (nDigit B))"
  shows "of_int (sgn (if rc = 0 then nDigit A - nDigit B else rc)) = sgn (dec_mag A - dec_mag B)"
proof -
  note a = dec_wfD [OF A] and b = dec_wfD [OF B]
  define k m where "k = nat (nDigit A - nDigit B)" and "m = nat (nDigit B)"
  have km: "nat (nDigit A) = m + k" "nat (nFrac A) = nat (nFrac B) + k"
    using n b(3,5) s by (auto simp: k_def m_def)
  define p r where "p = dval (take m (digits A))" and "r = dval (drop m (digs A))"
  have split: "digs A = take m (digits A) @ drop m (digs A)"
    using a(9) km by (simp add: digs_def take_add drop_take)
  have av: "dval (digs A) = p * 10 ^ k + r"
    using dval_append [of "take m (digits A)" "drop m (digs A)"] split a(9) km by (simp add: p_def r_def)
  have r: "0 \<le> r" "r < 10 ^ k"
    using dval_nonneg [of "drop m (digs A)"] dval_less [of "drop m (digs A)"] a(8,9) km
    by (auto simp: r_def digs_ok_drop)
  have r0: "r \<noteq> 0" if "0 < k"
  proof
    assume "r = 0"
    then have "\<forall>d \<in> set (drop m (digs A)). d = 0"
      using dval_eq_0_iff [of "drop m (digs A)"] a(8) by (simp add: r_def digs_ok_drop)
    moreover have "digs A ! (m + k - 1) \<in> set (drop m (digs A))"
      using that a(9) km nth_mem [of "k - 1" "drop m (digs A)"] by simp
    ultimately have "digits A ! nat (nDigit A - 1) = 0"
      using that km by (simp add: digs_def nat_diff_distrib)
    with l that km b(3) show False by auto
  qed
  define c where "c = dval (digs B)"
  have rc: "rc = sgn (p - c)"
    using memcmp_digits [OF a(7) b(7), of m] a(6) b(6) km by (simp add: rc_def p_def c_def digs_def m_def)
  have "sgn (if rc = 0 then nDigit A - nDigit B else rc) = sgn (dval (digs A) - c * 10 ^ k)"
  proof (cases p c rule: linorder_cases)
    case less
    then have "(p + 1) * 10 ^ k \<le> c * 10 ^ k" by (intro mult_right_mono) auto
    then have "dval (digs A) < c * 10 ^ k" using av r(2) by (simp add: algebra_simps)
    then show ?thesis using less by (simp add: rc)
  next
    case greater
    then have "(c + 1) * 10 ^ k \<le> p * 10 ^ k" by (intro mult_right_mono) auto
    moreover have "(0 :: int) < 10 ^ k" by simp
    ultimately have "c * 10 ^ k < dval (digs A)" unfolding av distrib_right using r(1) by linarith
    then show ?thesis using greater by (simp add: rc)
  next
    case equal
    have "k = 0 \<Longrightarrow> r = 0" "0 < k \<Longrightarrow> 0 < r" "0 < k \<longleftrightarrow> nDigit B < nDigit A"
      using r r0 n by (auto simp: k_def)
    with equal show ?thesis using av n by (cases "k = 0") (auto simp: rc)
  qed
  moreover have "dec_mag A - dec_mag B = of_int (dval (digs A) - c * 10 ^ k) / 10 ^ nat (nFrac A)"
    using km(2) by (simp add: dec_mag_def c_def power_add field_simps)
  ultimately show ?thesis by (simp add: sgn_divide sgn_rat_of_int [symmetric])
qed


definition mag_cmp :: "Decimal \<Rightarrow> Decimal \<Rightarrow> int" where
  "mag_cmp pA pB =
     (let nASig = nDigit pA - nFrac pA; nBSig = nDigit pB - nFrac pB
      in if nASig \<noteq> nBSig then nASig - nBSig
         else
           let n = (if nDigit pA > nDigit pB then nDigit pB else nDigit pA);
               rc = memcmp (digits pA) (digits pB) (nat n)
           in if rc = 0 then nDigit pA - nDigit pB else rc)"

lemma memcmp_antisym:
  assumes "digs_ok A" "digs_ok B" "n \<le> length A" "n \<le> length B"
  shows "memcmp A B n = - memcmp B A n"
  using memcmp_digits [OF assms] memcmp_digits [OF assms(2,1,4,3)] by (simp add: sgn_if)

lemma mag_cmp_antisym:
  assumes "dec_wf A" "dec_wf B"
  shows "mag_cmp A B = - mag_cmp B A"
proof -
  note a = dec_wfD [OF assms(1)] and b = dec_wfD [OF assms(2)]
  let ?n = "nat (if nDigit A > nDigit B then nDigit B else nDigit A)"
  have "memcmp (digits A) (digits B) ?n = - memcmp (digits B) (digits A) ?n"
    using a(6,7) b(6,7) by (intro memcmp_antisym) auto
  moreover have "?n = nat (if nDigit B > nDigit A then nDigit A else nDigit B)" by auto
  ultimately show ?thesis by (auto simp: mag_cmp_def Let_def)
qed

lemma mag_cmp_sig:
  assumes A: "dec_wf A" and B: "dec_wf B" and "nFrac A < nDigit A \<longrightarrow> digits A ! 0 \<noteq> 0"
    and s: "nDigit B - nFrac B < nDigit A - nFrac A"
  shows "dec_mag B < dec_mag A"
proof -
  note a = dec_wfD [OF A] and b = dec_wfD [OF B]
  have "dec_mag B < 10 ^ nat (nDigit B - nFrac B)" by (rule dec_mag_bounds [OF B])
  also have "(10 :: rat) ^ nat (nDigit B - nFrac B) \<le> 10 ^ (nat (nDigit A - nFrac A) - 1)"
    using s b(4) by (intro power_increasing) auto
  also have "\<dots> \<le> dec_mag A" using dec_mag_bounds(2) [OF A] assms(3) s b(4) by auto
  finally show ?thesis .
qed

lemma mag_cmp_sgn:
  assumes A: "dec_wf A" "nFrac A < nDigit A \<longrightarrow> digits A ! 0 \<noteq> 0" "nFrac A > 0 \<longrightarrow> digits A ! nat (nDigit A - 1) \<noteq> 0"
    and B: "dec_wf B" "nFrac B < nDigit B \<longrightarrow> digits B ! 0 \<noteq> 0" "nFrac B > 0 \<longrightarrow> digits B ! nat (nDigit B - 1) \<noteq> 0"
  shows "of_int (sgn (mag_cmp A B)) = sgn (dec_mag A - dec_mag B)"
proof (cases "nDigit A - nFrac A" "nDigit B - nFrac B" rule: linorder_cases)
  case less
  then show ?thesis using mag_cmp_sig [OF B(1) A(1) B(2) less] by (auto simp: mag_cmp_def Let_def)
next
  case greater
  then show ?thesis using mag_cmp_sig [OF A(1) B(1) A(2) greater] by (auto simp: mag_cmp_def Let_def)
next
  case equal
  show ?thesis
  proof (cases "nDigit B \<le> nDigit A")
    case True
    then have "(if nDigit A > nDigit B then nDigit B else nDigit A) = nDigit B" by auto
    with equal mag_cmp_same [OF A(1) B(1) equal True A(3)] show ?thesis
      by (simp add: mag_cmp_def Let_def)
  next
    case False
    then have "(if nDigit B > nDigit A then nDigit A else nDigit B) = nDigit A" "nDigit A \<le> nDigit B" by auto
    with equal mag_cmp_same [OF B(1) A(1) equal [symmetric] _ B(3)]
    have "of_int (sgn (mag_cmp B A)) = sgn (dec_mag B - dec_mag A)"
      by (simp add: mag_cmp_def Let_def)
    moreover have "sgn (mag_cmp A B) = - sgn (mag_cmp B A)"
      using mag_cmp_antisym [OF A(1) B(1)] by (simp add: sgn_minus)
    moreover have "sgn (dec_mag A - dec_mag B) = - sgn (dec_mag B - dec_mag A)"
      by (simp add: sgn_if)
    ultimately show ?thesis by simp
  qed
qed

text \<open>The comparison reduces to magnitudes once trailing zeros are gone.\<close>

lemma decimal_cmp_mag:
  "decimal_cmp A B =
     (let A' = strip_zeros 0 A; B' = strip_zeros 0 B in
      if sign A' \<noteq> sign B' then (if sign A' then - 1 else 1)
      else if sign A' then mag_cmp B' A' else mag_cmp A' B')"
  by (simp add: decimal_cmp_def mag_cmp_def Let_def)

lemma strip_zeros_normal:
  assumes "dec_wf A" "cmp_normal A"
  defines "A' \<equiv> strip_zeros 0 A"
  shows "dec_wf A'" "dec_val A' = dec_val A" "sign A' = sign A"
    "nFrac A' < nDigit A' \<longrightarrow> digits A' ! 0 \<noteq> 0" "nFrac A' > 0 \<longrightarrow> digits A' ! nat (nDigit A' - 1) \<noteq> 0"
  using strip_zeros_facts [OF _ assms(1), of 0] assms(2) by (auto simp: A'_def cmp_normal_def)

lemma decimal_cmp_correct:
  assumes A: "dec_wf A" "cmp_normal A" and B: "dec_wf B" "cmp_normal B"
  shows "of_int (sgn (decimal_cmp A B)) = sgn (dec_val A - dec_val B)"
proof -
  define A' B' where "A' = strip_zeros 0 A" and "B' = strip_zeros 0 B"
  note a = strip_zeros_normal [OF A, folded A'_def] and b = strip_zeros_normal [OF B, folded B'_def]
  have cmp: "decimal_cmp A B = (if sign A' \<noteq> sign B' then (if sign A' then - 1 else 1)
      else if sign A' then mag_cmp B' A' else mag_cmp A' B')"
    by (simp add: decimal_cmp_mag Let_def A'_def B'_def)
  have neg: "sign p \<Longrightarrow> dec_wf p \<Longrightarrow> cmp_normal p \<Longrightarrow> dec_val p < 0" for p
    using dval_nonneg [of "digs p"] by (auto simp: dec_val_def dec_mant_def cmp_normal_def dec_wfD)
  have pos: "\<not> sign p \<Longrightarrow> dec_wf p \<Longrightarrow> 0 \<le> dec_val p" for p
    using dec_mag_nonneg by (simp add: dec_val_mag)
  show ?thesis
  proof (cases "sign A = sign B")
    case False
    then show ?thesis using cmp a(3) b(3) neg [OF _ A] neg [OF _ B] pos [OF _ A(1)] pos [OF _ B(1)]
      by (cases "sign A") (auto simp: sgn_if)
  next
    case True
    then show ?thesis
      using cmp a(1-3) b(1-3) mag_cmp_sgn [OF a(1,4,5) b(1,4,5)] mag_cmp_sgn [OF b(1,4,5) a(1,4,5)]
      by (simp add: dec_val_mag split: if_splits)
  qed
qed

section \<open>Rounding\<close>

lemma dval_nines: "digs_ok xs \<Longrightarrow> dval xs = 10 ^ length xs - 1 \<longleftrightarrow> (\<forall>d \<in> set xs. d = 9)"
proof (induction xs rule: rev_induct)
  case (snoc d xs)
  then have "dval xs < 10 ^ length xs" by (simp add: dval_less)
  with snoc show ?case by auto
qed simp

lemma round_finish_val:
  assumes "dec_wf q" "0 \<le> N" "N \<le> nDigit q"
  shows "dec_wf (round_finish q N)"
    "dval (digs (round_finish q N)) = dval (take (nat N) (digits q)) * 10 ^ nat (nDigit q - N)"
proof -
  note w = dec_wfD [OF assms(1)]
  have n: "nat (nDigit q) = nat N + nat (nDigit q - N)" using assms by simp
  have "digs (round_finish q N) = take (nat N) (digits q) @ replicate (nat (nDigit q - N)) 0"
    using n w(6) by (simp add: digs_def round_finish_def)
  then show "dval (digs (round_finish q N)) = dval (take (nat N) (digits q)) * 10 ^ nat (nDigit q - N)"
    by (simp add: dval_append)
  show "dec_wf (round_finish q N)"
    using assms w by (auto simp: dec_wf_def round_finish_def digs_ok_take digs_ok_drop)
qed

lemma round_up_val:
  assumes q: "dec_wf q" and N: "1 \<le> N" "N \<le> nDigit q" and v: "dval (take (nat N) (digits q)) + 1 < 10 ^ nat N"
  defines "r \<equiv> round_finish (q\<lparr>digits := carry_loop (nat N - 1)
      ((digits q)[nat N - 1 := digits q ! (nat N - 1) + 1])\<rparr>) N"
  shows "dec_wf r" "dval (digs r) = (dval (take (nat N) (digits q)) + 1) * 10 ^ nat (nDigit q - N)"
proof -
  note w = dec_wfD [OF q]
  define i where "i = nat N - 1"
  define a where "a = (digits q)[i := digits q ! i + 1]"
  define c where "c = carry_loop i a"
  have i: "nat N = Suc i" "i < length (digits q)" "i < length a" using N w(6) by (auto simp: i_def a_def)
  have inc: "dval (take (Suc i) a) = dval (take (Suc i) (digits q)) + 1"
    using i by (simp add: a_def dval_take_Suc)
  with v i have "dval (take (Suc i) a) < 10 ^ Suc i" by simp
  moreover have "\<forall>m < length a. 0 \<le> a ! m \<and> (m \<noteq> i \<longrightarrow> a ! m \<le> 9)" "a ! i \<le> 10"
    using digs_ok_nth [OF w(7)] i by (auto simp: a_def nth_list_update add_increasing2)
  ultimately have c: "length c = length a" "digs_ok c" "dval c = dval a" "drop (Suc i) c = drop (Suc i) a"
    using carry_loop_correct [OF i(3)] by (auto simp: c_def)
  have split: "dval xs = dval (take (Suc i) xs) * 10 ^ (length xs - Suc i) + dval (drop (Suc i) xs)" for xs
    using dval_append [of "take (Suc i) xs" "drop (Suc i) xs"] by simp
  have "dval (take (Suc i) c) = dval (take (Suc i) a)"
    using split [of c] split [of a] c by simp
  moreover have "dec_wf (q\<lparr>digits := c\<rparr>)" using q c w(6) by (auto simp: dec_wf_def a_def)
  ultimately show "dec_wf r" "dval (digs r) = (dval (take (nat N) (digits q)) + 1) * 10 ^ nat (nDigit q - N)"
    using round_finish_val [of "q\<lparr>digits := c\<rparr>" N] N inc
    by (simp_all add: r_def i_def [symmetric] a_def [symmetric] c_def [symmetric] i(1))
qed

text \<open>Half up at the cell \<open>N\<close> of an array of \<open>n\<close> digits, on numbers.\<close>

lemma half_up_split:
  fixes hi d lo :: int
  assumes "0 \<le> d" "d \<le> 9" "0 \<le> lo" "lo < 10 ^ k"
  shows "(hi * 10 ^ Suc k + d * 10 ^ k + lo + 5 * 10 ^ k) div 10 ^ Suc k = (if 5 \<le> d then hi + 1 else hi)"
proof -
  define T where "T = (10 :: int) ^ k"
  define e where "e = (if 5 \<le> d then d - 5 else d + 5)"
  have "0 \<le> e" "e \<le> 9" using assms(1,2) by (auto simp: e_def)
  moreover have "0 < T" by (simp add: T_def)
  ultimately have "0 * T \<le> e * T" "e * T \<le> 9 * T" by (intro mult_right_mono; simp)+
  then have "0 \<le> e * T + lo" "e * T + lo < 10 * T" using assms(3,4) unfolding T_def [symmetric] by linarith+
  moreover have "hi * (10 * T) + d * T + lo + 5 * T = (10 * T) * (if 5 \<le> d then hi + 1 else hi) + (e * T + lo)"
    by (auto simp: e_def algebra_simps)
  ultimately have "(hi * (10 * T) + d * T + lo + 5 * T) div (10 * T) = (if 5 \<le> d then hi + 1 else hi)"
    by (intro int_div_pos_eq) auto
  then show ?thesis by (simp add: T_def)
qed

lemma decimal_round_correct:
  assumes p: "dec_wf p" and n0: "1 \<le> n0" and r: "decimal_round api (Some p) n0 = Some r" "\<not> oom r"
  defines "N \<equiv> n0 + int (length (takeWhile (\<lambda>d. d = 0) (digs p)))"
  defines "m \<equiv> nat (nDigit p - N)"
  shows "dec_wf r" "sign r = sign p" "nFrac r = nFrac p"
    "dval (digs r) = (if m = 0 then dval (digs p)
       else ((dval (digs p) + 5 * 10 ^ (m - 1)) div 10 ^ m) * 10 ^ m)"
proof -
  note w = dec_wfD [OF p]
  have N: "1 \<le> N" "n0 \<le> N" using n0 by (auto simp: N_def)
  have "dec_wf r \<and> sign r = sign p \<and> nFrac r = nFrac p \<and>
    dval (digs r) = (if m = 0 then dval (digs p)
       else ((dval (digs p) + 5 * 10 ^ (m - 1)) div 10 ^ m) * 10 ^ m)"
  proof (cases "nDigit p \<le> N")
    case True
    then have "r = p" using r(1) n0
      by (auto simp: decimal_round_def N_def [symmetric] Let_def split: if_splits)
    with True p show ?thesis by (simp add: m_def)
  next
    case False
    define k where "k = m - 1"
    have k: "m = Suc k" "nat (nDigit p) = nat N + Suc k" "nat (nDigit p - N) = Suc k"
      using False N by (auto simp: k_def m_def)
    define hi d lo where "hi = dval (take (nat N) (digits p))" and "d = digits p ! nat N"
      and "lo = dval (drop (Suc (nat N)) (digs p))"
    have lt: "nat N < length (digits p)" using k w(6) by simp
    have "digs p = take (nat N) (digits p) @ d # drop (Suc (nat N)) (digs p)"
      using id_take_nth_drop [of "nat N" "digs p"] k w(6,9) by (simp add: digs_def d_def)
    from arg_cong [OF this, of dval] have D: "dval (digs p) = hi * 10 ^ Suc k + d * 10 ^ k + lo"
      using w(9) k by (simp add: dval_append dval_Cons hi_def lo_def)
    have d: "0 \<le> d" "d \<le> 9" "0 \<le> lo" "lo < 10 ^ k" "digs_ok (take (nat N) (digits p))"
      using digs_ok_nth [OF w(7) lt] dval_nonneg [of "drop (Suc (nat N)) (digs p)"]
        dval_less [of "drop (Suc (nat N)) (digs p)"] w(7,8,9) k
      by (auto simp: d_def lo_def digs_ok_drop digs_ok_take)
    have goal: "((dval (digs p) + 5 * 10 ^ (m - 1)) div 10 ^ m) * 10 ^ m = (if 5 \<le> d then hi + 1 else hi) * 10 ^ m"
      using half_up_split [OF d(1-4), of hi] by (simp add: D k(1))
    define nines where "nines \<longleftrightarrow> (\<forall>d \<in> set (take (nat N) (digits p)). d = 9)"
    define q where "q = (if nines then decimal_expand api p (nDigit p + 1) (nFrac p) else p)"
    have rq: "r = (if 5 \<le> d then if nines \<and> oom q then q
         else round_finish (q\<lparr>digits := carry_loop (nat N - 1) ((digits q)[nat N - 1 := digits q ! (nat N - 1) + 1])\<rparr>) N
       else round_finish p N)"
      using r(1) n0 False N(2)
      unfolding decimal_round_def option.case N_def [symmetric] d_def [symmetric] nines_def [symmetric] Let_def
        q_def [symmetric]
      by (auto split: if_splits)
    have hi9: "nines \<longleftrightarrow> hi = 10 ^ nat N - 1" "hi < 10 ^ nat N"
      using dval_nines [OF d(5)] dval_less [OF d(5)] lt by (auto simp: nines_def hi_def)
    consider (down) "\<not> 5 \<le> d" | (up) "5 \<le> d" "\<not> nines" | (grow) "5 \<le> d" "nines" by blast
    then show ?thesis
    proof cases
      case down
      then show ?thesis using round_finish_val [OF p, of N] N False goal rq k
        by (simp add: hi_def round_finish_def)
    next
      case up
      then have "dec_wf r \<and> dval (digs r) = (hi + 1) * 10 ^ m"
        using round_up_val [OF p N(1)] False hi9 rq k by (simp add: q_def hi_def)
      then show ?thesis using goal up rq k(1) by (simp add: round_finish_def q_def)
    next
      case grow
      then have q: "\<not> oom q" "q = decimal_expand api p (nDigit p + 1) (nFrac p)" using r(2) rq by (auto simp: q_def)
      note e = decimal_expand_correct [OF p, of "nFrac p" "nDigit p + 1" api, folded q(2), OF _ _ q(1)]
      have dq: "digs q = 0 # digs p" using e(7) by simp
      obtain j where j: "nat N = Suc j" using N by (cases "nat N") auto
      have "take (nat N) (digits q) = take (nat N) (digs q)"
        using e(3) k w(5) by (simp add: digs_def)
      then have "take (nat N) (digits q) = 0 # take j (digs p)" by (simp add: dq j)
      moreover have "hi = 10 * dval (take j (digs p)) + 9"
        using grow lt j w(6) k by (auto simp: hi_def dval_take_Suc digs_def nines_def take_Suc_conv_app_nth)
      ultimately have v: "dval (take (nat N) (digits q)) = 10 ^ j - 1"
        using hi9 grow j by (simp add: dval_Cons)
      moreover have "(10 :: int) ^ j < 10 ^ nat N" using j by simp
      ultimately have "dec_wf r \<and> dval (digs r) = 10 ^ j * 10 ^ nat (nDigit p + 1 - N)"
        using round_up_val [of q N] e N(1) False grow q rq by simp
      moreover have "nat (nDigit p + 1 - N) = Suc m" using k False N by simp
      ultimately have "dec_wf r \<and> dval (digs r) = (hi + 1) * 10 ^ m" using hi9 grow j by simp
      then show ?thesis using goal grow rq k(1) q(1) e(4,5) by (simp add: round_finish_def)
    qed
  qed
  then show "dec_wf r" "sign r = sign p" "nFrac r = nFrac p"
    "dval (digs r) = (if m = 0 then dval (digs p)
       else ((dval (digs p) + 5 * 10 ^ (m - 1)) div 10 ^ m) * 10 ^ m)" by auto
qed

end
