(* ===== verification/Decimal_Text.thy ===== *)
theory Decimal_Text
  imports Decimal_Cmp
begin

text \<open>
  Text and decimals: what \<^verbatim>\<open>decimalNewFromText\<close> makes of a text, and what
  \<^verbatim>\<open>decimal_result\<close> and \<^verbatim>\<open>decimal_result_sci\<close> print.  \<open>dec_numeral z v\<close> is the grammar
  of decimal numerals with the number each denotes, stated independently of the
  code; the constructor maps a numeral to a decimal of that value, and the printers
  print a numeral of the value of the decimal.
\<close>

section \<open>Numerals\<close>

text \<open>The exponent part \<open>ex\<close> of a numeral, and its value.\<close>

definition exp_part :: "string \<Rightarrow> int \<Rightarrow> bool" where
  "exp_part ex e \<longleftrightarrow>
     (ex = [] \<and> e = 0) \<or>
     (\<exists>c s ds. ex = c # s @ ds \<and> (c = CHR ''e'' \<or> c = CHR ''E'') \<and>
        (s = [] \<or> s = ''+'' \<or> s = ''-'') \<and> (\<forall>d \<in> set ds. isdigit d) \<and>
        e = (if s = ''-'' then - dval (map digit_of ds) else dval (map digit_of ds)))"

text \<open>
  White space, a sign, digits, a point with digits, an exponent: every part may be
  missing.  The exponent has at most six digits, which covers every value the code
  can hold (it keeps at most ten million digits).
\<close>

definition dec_numeral :: "string \<Rightarrow> rat \<Rightarrow> bool" where
  "dec_numeral z v \<longleftrightarrow>
     (\<exists>ws sg ip fp ex e. z = ws @ sg @ ip @ fp @ ex \<and> (\<forall>c \<in> set ws. isspace c) \<and>
        (sg = [] \<or> sg = ''+'' \<or> sg = ''-'') \<and> (\<forall>c \<in> set ip. isdigit c) \<and>
        (fp = [] \<or> hd fp = CHR ''.'') \<and> (\<forall>c \<in> set (tl fp). isdigit c) \<and>
        exp_part ex e \<and> \<bar>e\<bar> < 1000000 \<and>
        v = (if sg = ''-'' then - 1 else 1) * of_int (dval (map digit_of (ip @ tl fp))) *
            10 powi (e - int (length (tl fp))))"

text \<open>A plain numeral has no exponent.\<close>

definition plain_numeral :: "string \<Rightarrow> rat \<Rightarrow> bool" where
  "plain_numeral z v \<longleftrightarrow> dec_numeral z v \<and> CHR ''e'' \<notin> set z \<and> CHR ''E'' \<notin> set z"

section \<open>The loops of the constructor\<close>

lemma digit_of_bounds: "isdigit c \<Longrightarrow> 0 \<le> digit_of c \<and> digit_of c \<le> 9"
  by (auto simp: isdigit_def digit_of_def)

lemma digs_ok_digit_of: "(\<forall>c \<in> set ds. isdigit c) \<Longrightarrow> digs_ok (map digit_of ds)"
  by (auto simp: digs_ok_def digit_of_bounds)

lemma exp_loop_value:
  "(\<forall>c \<in> set ds. isdigit c) \<Longrightarrow> 0 \<le> v \<Longrightarrow> v * 10 ^ length ds + dval (map digit_of ds) < 1000000 \<Longrightarrow>
     exp_loop ds v = v * 10 ^ length ds + dval (map digit_of ds)"
proof (induction ds arbitrary: v)
  case (Cons c ds)
  have "0 \<le> dval (map digit_of (c # ds))"
    using Cons.prems(1) by (intro dval_nonneg digs_ok_digit_of)
  moreover have "v * 1 \<le> v * 10 ^ length (c # ds)" 
    using Cons.prems(2) one_le_power [of "10 :: int" "length (c # ds)"] by (intro mult_left_mono) auto
  ultimately have "v < 1000000" using Cons.prems(3) by linarith
  moreover have "exp_loop ds (v * 10 + digit_of c) =
      (v * 10 + digit_of c) * 10 ^ length ds + dval (map digit_of ds)"
    using Cons.prems digit_of_bounds [of c] by (intro Cons.IH) (auto simp: dval_Cons algebra_simps)
  ultimately show ?case using Cons.prems(1) by (simp add: dval_Cons algebra_simps)
qed simp

lemma text_loop_digits:
  "(\<forall>c \<in> set ds. isdigit c) \<Longrightarrow>
     text_loop (ds @ z) p = text_loop z (p\<lparr>digits := digits p @ map digit_of ds, nDigit := nDigit p + int (length ds)\<rparr>)"
  by (induction ds arbitrary: p) (auto simp: algebra_simps)

lemma not_isdigit_punct [simp]:
  "\<not> isdigit (CHR ''.'')" "\<not> isdigit (CHR ''e'')" "\<not> isdigit (CHR ''E'')"
  "\<not> isdigit (CHR ''-'')" "\<not> isdigit (CHR ''+'')"
  by (simp_all add: isdigit_def ord_char_def)

lemma text_loop_exp:
  assumes "exp_part ex e" "\<bar>e\<bar> < 1000000"
  shows "text_loop ex p = (p, e)"
proof (cases "ex = []")
  case True
  then show ?thesis using assms by (auto simp: exp_part_def)
next
  case False
  then obtain c s ds where x: "ex = c # s @ ds" "c = CHR ''e'' \<or> c = CHR ''E''"
    "s = [] \<or> s = ''+'' \<or> s = ''-''" "\<forall>d \<in> set ds. isdigit d"
    "e = (if s = ''-'' then - dval (map digit_of ds) else dval (map digit_of ds))"
    using assms(1) by (auto simp: exp_part_def)
  have "0 \<le> dval (map digit_of ds)" using x(4) by (intro dval_nonneg digs_ok_digit_of)
  then have "exp_loop ds 0 = dval (map digit_of ds)"
    using exp_loop_value [OF x(4), of 0] assms(2) x(5) by (auto split: if_splits)
  moreover have "ds = [] \<or> (hd ds \<noteq> CHR ''-'' \<and> hd ds \<noteq> CHR ''+'')"
    using x(4) by (cases ds) auto
  ultimately show ?thesis using x(2,3,5) unfolding x(1)
    by (cases "s = []") (auto split: if_splits)
qed

text \<open>The whole loop on the part of a numeral after its sign and leading zeros.\<close>

lemma text_loop_numeral:
  assumes "\<forall>c \<in> set ip. isdigit c" "fp = [] \<or> hd fp = CHR ''.''" "\<forall>c \<in> set (tl fp). isdigit c"
    "exp_part ex e" "\<bar>e\<bar> < 1000000" "digits p = []" "nDigit p = 0" "nFrac p = 0"
  shows "text_loop (ip @ fp @ ex) p =
    (p\<lparr>digits := map digit_of (ip @ tl fp), nDigit := int (length (ip @ tl fp)),
       nFrac := (if fp = [] then 0 else int (length ip) + 1)\<rparr>, e)"
proof (cases "fp = []")
  case True
  then show ?thesis using assms by (simp add: text_loop_digits text_loop_exp)
next
  case False
  with assms(2) have "fp = CHR ''.'' # tl fp" by (cases fp) auto
  then have "text_loop (ip @ fp @ ex) p = text_loop (CHR ''.'' # tl fp @ ex)
      (p\<lparr>digits := map digit_of ip, nDigit := int (length ip)\<rparr>)"
    using assms(1,6,7) by (metis append_Cons append_self_conv2 text_loop_digits add_0)
  also have "\<dots> = text_loop ex (p\<lparr>digits := map digit_of (ip @ tl fp), nDigit := int (length (ip @ tl fp)),
       nFrac := int (length ip) + 1\<rparr>)"
    using assms(3) by (cases p) (simp add: text_loop_digits)
  finally show ?thesis using False assms(4,5) by (simp add: text_loop_exp)
qed

section \<open>Applying the exponent\<close>

lemma powi_10_nat: "0 \<le> k \<Longrightarrow> (10 :: rat) powi k = 10 ^ nat k"
  unfolding power_int_def by (rule if_P)

lemma powi_10_add: "(10 :: rat) powi (a + b) = 10 powi a * 10 powi b"
  by (rule power_int_add) simp

lemma dec_val_powi: "0 \<le> nFrac p \<Longrightarrow> dec_val p = of_int (dec_mant p) * 10 powi (- nFrac p)"
  unfolding power_int_minus dec_val_def divide_inverse by (simp only: powi_10_nat)

lemma apply_exp_pos:
  assumes "nDigit p = int (length (digits p))" "0 \<le> nFrac p" "0 < e" "apply_exp api p e = Some q"
  defines "k \<equiv> max 0 (e - nFrac p)"
  shows "q = p\<lparr>nFrac := max 0 (nFrac p - e), digits := digits p @ replicate (nat k) 0, nDigit := nDigit p + k\<rparr>"
  using assms(1-4) by (cases p) (auto simp: apply_exp_def digs_def k_def split: if_splits)

lemma apply_exp_neg:
  assumes "nDigit p = int (length (digits p))" "0 \<le> nFrac p" "e < 0" "apply_exp api p e = Some q"
  defines "k \<equiv> max 0 (- e - (nDigit p - nFrac p - 1))"
  shows "q = p\<lparr>nFrac := nFrac p - e, digits := replicate (nat k) 0 @ digits p, nDigit := nDigit p + k\<rparr>"
  using assms(1-4) by (cases p) (auto simp: apply_exp_def digs_def k_def Let_def max_def split: if_splits)

lemma apply_exp_correct:
  assumes p: "dec_wf p" "nDigit p = int (length (digits p))" and q: "apply_exp api p e = Some q"
  shows "dec_wf q \<and> dec_val q = dec_val p * 10 powi e \<and> sign q = sign p \<and> isInit q = isInit p"
proof -
  note w = dec_wfD [OF p(1)]
  have pv: "dec_val p = of_int (dec_mant p) * 10 powi (- nFrac p)" by (rule dec_val_powi [OF w(3)])
  have d: "digs p = digits p" using p(2) by (simp add: digs_full)
  consider "e = 0" | "0 < e" | "e < 0" by linarith
  then show ?thesis
  proof cases
    case 1
    then have "q = p" using q by (simp add: apply_exp_def)
    with 1 p(1) show ?thesis by simp
  next
    case 2
    define k where "k = max 0 (e - nFrac p)"
    have Q: "q = p\<lparr>nFrac := max 0 (nFrac p - e), digits := digits p @ replicate (nat k) 0, nDigit := nDigit p + k\<rparr>"
      using apply_exp_pos [OF p(2) w(3) 2 q] by (simp add: k_def)
    have k: "0 \<le> k" "- max 0 (nFrac p - e) + k = - nFrac p + e" by (auto simp: k_def)
    have dq: "digs q = digits p @ replicate (nat k) 0" using p(2) k by (simp add: digs_def Q nat_add_distrib)
    have wf: "dec_wf q" using p w k 2 by (auto simp: dec_wf_def Q)
    have "sign q = sign p" by (simp add: Q)
    then have "dec_mant q = dec_mant p * 10 ^ nat k" unfolding dec_mant_def dq d by (simp add: dval_append)
    then have "dec_val q = of_int (dec_mant p) * (10 powi k * 10 powi (- max 0 (nFrac p - e)))"
      using dec_val_powi [of q] k(1) by (simp add: Q powi_10_nat)
    also have "\<dots> = of_int (dec_mant p) * (10 powi (- nFrac p) * 10 powi e)"
      using k(2) by (simp only: powi_10_add [symmetric] add.commute [of k])
    finally show ?thesis using wf by (simp add: pv Q)
  next
    case 3
    define k where "k = max 0 (- e - (nDigit p - nFrac p - 1))"
    have Q: "q = p\<lparr>nFrac := nFrac p - e, digits := replicate (nat k) 0 @ digits p, nDigit := nDigit p + k\<rparr>"
      using apply_exp_neg [OF p(2) w(3) 3 q] by (simp add: k_def)
    have dq: "digs q = replicate (nat k) 0 @ digits p" using p(2) by (simp add: digs_def Q nat_add_distrib k_def)
    have wf: "dec_wf q" using p w 3 by (auto simp: dec_wf_def Q k_def)
    have "sign q = sign p" by (simp add: Q)
    then have "dec_mant q = dec_mant p" unfolding dec_mant_def dq d by (simp add: dval_append)
    then have "dec_val q = of_int (dec_mant p) * 10 powi (- nFrac p + e)"
      using dec_val_powi [of q] w(3) 3 by (simp add: Q algebra_simps)
    also have "10 powi (- nFrac p + e) = (10 powi (- nFrac p) * 10 powi e :: rat)" by (rule powi_10_add)
    finally show ?thesis using wf by (simp add: pv Q)
  qed
qed

section \<open>The constructor\<close>

lemma dropWhile_prefix:
  "(\<forall>c \<in> set xs. P c) \<Longrightarrow> ys = [] \<or> \<not> P (hd ys) \<Longrightarrow> dropWhile P (xs @ ys) = ys"
  by (induction xs) (auto simp: dropWhile_eq_self_iff)

lemma dropWhile_split:
  "ys = [] \<or> \<not> P (hd ys) \<Longrightarrow> dropWhile P (xs @ ys) = dropWhile P xs @ ys"
  by (induction xs) (auto simp: dropWhile_eq_self_iff)

lemma dval_drop_zeros: "dval (map digit_of (dropWhile (\<lambda>c. c = CHR ''0'') ip @ zs)) = dval (map digit_of (ip @ zs))"
  by (induction ip) (auto simp: dval_Cons digit_of_def ord_char_def)

text \<open>The decimal before its exponent is applied.\<close>

definition numeral_dec :: "string \<Rightarrow> string \<Rightarrow> string \<Rightarrow> Decimal" where
  "numeral_dec sg ip fp =
     (let ds = map digit_of (dropWhile (\<lambda>c. c = CHR ''0'') ip @ tl fp) in
      \<lparr>sign = (sg = ''-''), oom = False, isNull = False, isInit = True,
       nDigit = int (length ds), nFrac = int (length (tl fp)), digits = ds\<rparr>)"

lemma head_facts:
  assumes "\<forall>c \<in> set ip. isdigit c" "fp = [] \<or> hd fp = CHR ''.''" "exp_part ex e"
  shows "ip @ fp @ ex = [] \<or> isdigit (hd (ip @ fp @ ex)) \<or>
    hd (ip @ fp @ ex) \<in> {CHR ''.'', CHR ''e'', CHR ''E''}"
  using assms by (cases ip; cases fp) (auto simp: exp_part_def)

lemma isdigit_not: "isdigit c \<Longrightarrow> \<not> isspace c \<and> c \<noteq> CHR ''-'' \<and> c \<noteq> CHR ''+''"
  using not_isdigit_punct by (auto simp: ctype_defs)

lemma punct_not_space [simp]:
  "\<not> isspace (CHR ''.'')" "\<not> isspace (CHR ''e'')" "\<not> isspace (CHR ''E'')"
  "\<not> isspace (CHR ''-'')" "\<not> isspace (CHR ''+'')"
  by (simp_all add: isspace_def ord_char_def)

lemma newFromText_numeral:
  assumes ws: "\<forall>c \<in> set ws. isspace c" and sg: "sg = [] \<or> sg = ''+'' \<or> sg = ''-''"
    and ip: "\<forall>c \<in> set ip. isdigit c" and fp: "fp = [] \<or> hd fp = CHR ''.''" "\<forall>c \<in> set (tl fp). isdigit c"
    and ex: "exp_part ex e" "\<bar>e\<bar> < 1000000"
    and m: "malloc64 api sizeof_Decimal" "malloc64 api (int (length (ws @ sg @ ip @ fp @ ex)) + 1)"
  shows "decimalNewFromText api (Some (ws @ sg @ ip @ fp @ ex)) =
    (case apply_exp api (numeral_dec sg ip fp) e of None \<Rightarrow> None
     | Some p \<Rightarrow> let p = (if sign p \<and> (\<forall>d \<in> set (digs p). d = 0) then p\<lparr>sign := False\<rparr> else p)
         in if nDigit p > SQLITE_DECIMAL_MAX_DIGIT then None else Some p)"
proof -
  let ?z = "ws @ sg @ ip @ fp @ ex"
  let ?p0 = "\<lparr>sign = False, oom = False, isNull = False, isInit = True, nDigit = 0, nFrac = 0, digits = []\<rparr>"
  let ?p1 = "?p0\<lparr>sign := (sg = ''-'')\<rparr>"
  note h = head_facts [OF ip fp(1) ex(1)]
  have 1: "dropWhile isspace ?z = sg @ ip @ fp @ ex"
    using ws sg h by (intro dropWhile_prefix) (auto dest: isdigit_not)
  have 2: "(if sg @ ip @ fp @ ex \<noteq> [] \<and> hd (sg @ ip @ fp @ ex) = CHR ''-'' then (?p0\<lparr>sign := True\<rparr>, tl (sg @ ip @ fp @ ex))
      else if sg @ ip @ fp @ ex \<noteq> [] \<and> hd (sg @ ip @ fp @ ex) = CHR ''+'' then (?p0, tl (sg @ ip @ fp @ ex))
      else (?p0, sg @ ip @ fp @ ex)) = (?p1, ip @ fp @ ex)"
    using sg h by (auto dest: isdigit_not)
  have 3: "dropWhile (\<lambda>c. c = CHR ''0'') (ip @ fp @ ex) = dropWhile (\<lambda>c. c = CHR ''0'') ip @ fp @ ex"
    using fp(1) ex(1) by (intro dropWhile_split) (cases fp; auto simp: exp_part_def)
  have 4: "text_loop (dropWhile (\<lambda>c. c = CHR ''0'') ip @ fp @ ex) ?p1 =
    (?p1\<lparr>digits := map digit_of (dropWhile (\<lambda>c. c = CHR ''0'') ip @ tl fp),
         nDigit := int (length (dropWhile (\<lambda>c. c = CHR ''0'') ip @ tl fp)),
         nFrac := (if fp = [] then 0 else int (length (dropWhile (\<lambda>c. c = CHR ''0'') ip)) + 1)\<rparr>, e)"
    using ip by (intro text_loop_numeral [OF _ fp ex]) (auto dest: set_dropWhileD)
  show ?thesis
    unfolding decimalNewFromText_def option.case Let_def 1 2 3 4 prod.case
    using m fp(1) by (cases "fp = []") (simp_all add: numeral_dec_def Let_def)
qed

lemma numeral_dec_facts:
  assumes "\<forall>c \<in> set ip. isdigit c" "\<forall>c \<in> set (tl fp). isdigit c"
  shows "dec_wf (numeral_dec sg ip fp)" "nDigit (numeral_dec sg ip fp) = int (length (digits (numeral_dec sg ip fp)))"
    "dec_val (numeral_dec sg ip fp) = (if sg = ''-'' then - 1 else 1) *
       of_int (dval (map digit_of (ip @ tl fp))) * 10 powi (- int (length (tl fp)))"
    "isInit (numeral_dec sg ip fp)"
proof -
  let ?p = "numeral_dec sg ip fp"
  have ok: "digs_ok (map digit_of (dropWhile (\<lambda>c. c = CHR ''0'') ip @ tl fp))"
    using assms by (intro digs_ok_digit_of) (auto dest: set_dropWhileD)
  show wf: "dec_wf ?p" using ok by (auto simp: dec_wf_def numeral_dec_def Let_def)
  show n: "nDigit ?p = int (length (digits ?p))" by (simp add: numeral_dec_def Let_def)
  have sf: "sign ?p = (sg = ''-'')" "nFrac ?p = int (length (tl fp))" by (simp_all add: numeral_dec_def Let_def)
  have "dval (digs ?p) = dval (map digit_of (ip @ tl fp))"
    using dval_drop_zeros [of ip "tl fp"] digs_full [of ?p] n by (simp add: numeral_dec_def Let_def)
  then show "dec_val ?p = (if sg = ''-'' then - 1 else 1) *
       of_int (dval (map digit_of (ip @ tl fp))) * 10 powi (- int (length (tl fp)))"
    using dec_val_powi [of ?p] sf by (cases "sg = ''-''") (simp_all add: dec_mant_def)
  show "isInit ?p" by (simp add: numeral_dec_def Let_def)
qed

text \<open>A granted request for every number of bytes up to the limit: memory does not run out.\<close>

definition mem_ok :: "sqlite3_api_routines \<Rightarrow> bool" where
  "mem_ok api \<longleftrightarrow> (\<forall>n. 0 < n \<and> n \<le> SQLITE_DECIMAL_MAX_DIGIT + 20 \<longrightarrow> malloc64 api n)"

lemma mem_ok_ref_api: "mem_ok ref_api"
  by (simp add: mem_ok_def ref_api_def)

lemma clear_sign_facts:
  assumes "dec_wf q"
  defines "p \<equiv> if sign q \<and> (\<forall>d \<in> set (digs q). d = 0) then q\<lparr>sign := False\<rparr> else q"
  shows "dec_wf p" "dec_val p = dec_val q" "isInit p = isInit q" "nDigit p = nDigit q" "sign p \<longrightarrow> dval (digs p) \<noteq> 0"
    "digits p = digits q" "nFrac p = nFrac q"
proof -
  have z: "dval (digs q) = 0 \<longleftrightarrow> (\<forall>d \<in> set (digs q). d = 0)"
    by (rule dval_eq_0_iff [OF dec_wfD(8) [OF assms(1)]])
  show "dec_wf p" "isInit p = isInit q" "nDigit p = nDigit q" "digits p = digits q" "nFrac p = nFrac q"
    using assms(1) by (simp_all add: p_def dec_wf_def)
  show "dec_val p = dec_val q" "sign p \<longrightarrow> dval (digs p) \<noteq> 0"
    by (simp_all add: p_def dec_val_def dec_mant_def z [symmetric])
qed

lemma dec_numeral_cases:
  assumes "dec_numeral z v"
  obtains ws sg ip fp ex e where "z = ws @ sg @ ip @ fp @ ex" "\<forall>c \<in> set ws. isspace c"
    "sg = [] \<or> sg = ''+'' \<or> sg = ''-''" "\<forall>c \<in> set ip. isdigit c"
    "fp = [] \<or> hd fp = CHR ''.''" "\<forall>c \<in> set (tl fp). isdigit c" "exp_part ex e" "\<bar>e\<bar> < 1000000"
    "v = (if sg = ''-'' then - 1 else 1) * of_int (dval (map digit_of (ip @ tl fp))) * 10 powi (e - int (length (tl fp)))"
  using assms unfolding dec_numeral_def by (elim exE conjE) (rule that)

text \<open>What the constructor returns on a numeral.\<close>

lemma newFromText_cases:
  assumes "dec_numeral z v" "decimalNewFromText api (Some z) = Some p"
  obtains sg ip fp ex e q where "\<forall>c \<in> set ip. isdigit c" "\<forall>c \<in> set (tl fp). isdigit c"
    "exp_part ex e" "set ex \<subseteq> set z" "length ip + length fp \<le> length z" "apply_exp api (numeral_dec sg ip fp) e = Some q"
    "p = (if sign q \<and> (\<forall>d \<in> set (digs q). d = 0) then q\<lparr>sign := False\<rparr> else q)"
    "nDigit p \<le> SQLITE_DECIMAL_MAX_DIGIT" "dec_wf q" "dec_val q = v" "isInit q"
proof -
  obtain ws sg ip fp ex e where z: "z = ws @ sg @ ip @ fp @ ex" and ws: "\<forall>c \<in> set ws. isspace c"
    and sg: "sg = [] \<or> sg = ''+'' \<or> sg = ''-''" and ip: "\<forall>c \<in> set ip. isdigit c"
    and fp: "fp = [] \<or> hd fp = CHR ''.''" "\<forall>c \<in> set (tl fp). isdigit c"
    and ex: "exp_part ex e" "\<bar>e\<bar> < 1000000"
    and v: "v = (if sg = ''-'' then - 1 else 1) * of_int (dval (map digit_of (ip @ tl fp))) * 10 powi (e - int (length (tl fp)))"
    by (rule dec_numeral_cases [OF assms(1)])
  have m: "malloc64 api sizeof_Decimal" "malloc64 api (int (length z) + 1)"
    using assms(2) unfolding decimalNewFromText_def option.case by (meson option.distinct(1))+
  note n = numeral_dec_facts [OF ip fp(2), of sg]
  obtain q where q: "apply_exp api (numeral_dec sg ip fp) e = Some q"
    "p = (if sign q \<and> (\<forall>d \<in> set (digs q). d = 0) then q\<lparr>sign := False\<rparr> else q)"
    "nDigit p \<le> SQLITE_DECIMAL_MAX_DIGIT"
    using assms(2) unfolding z newFromText_numeral [OF ws sg ip fp ex m(1) m(2) [unfolded z]] Let_def
    by (cases "apply_exp api (numeral_dec sg ip fp) e") (simp_all split: if_splits)
  have a: "dec_wf q" "dec_val q = dec_val (numeral_dec sg ip fp) * 10 powi e" "isInit q"
    using apply_exp_correct [OF n(1,2) q(1)] n(4) by auto
  have "dec_val q = v"
    unfolding a(2) n(3) v by (simp add: powi_10_add [symmetric] mult.assoc add.commute)
  moreover have "set ex \<subseteq> set z" "length ip + length fp \<le> length z" by (auto simp: z)
  ultimately show thesis using that ip fp(2) ex(1) q a by blast
qed

lemma newFromText_value:
  assumes "dec_numeral z v" "decimalNewFromText api (Some z) = Some p"
  shows "dec_wf p \<and> dec_val p = v \<and> isInit p \<and> nDigit p \<le> SQLITE_DECIMAL_MAX_DIGIT"
proof -
  from assms obtain q where q: "p = (if sign q \<and> (\<forall>d \<in> set (digs q). d = 0) then q\<lparr>sign := False\<rparr> else q)"
    "nDigit p \<le> SQLITE_DECIMAL_MAX_DIGIT" "dec_wf q" "dec_val q = v" "isInit q"
    by (rule newFromText_cases)
  show ?thesis using clear_sign_facts [OF q(3), folded q(1)] q by auto
qed

lemma newFromText_plain:
  assumes "plain_numeral z v" "decimalNewFromText api (Some z) = Some p"
  obtains sg ip fp where "\<forall>c \<in> set ip. isdigit c" "\<forall>c \<in> set (tl fp). isdigit c" "length ip + length fp \<le> length z"
    "p = (if sign (numeral_dec sg ip fp) \<and> (\<forall>d \<in> set (digs (numeral_dec sg ip fp)). d = 0)
          then (numeral_dec sg ip fp)\<lparr>sign := False\<rparr> else numeral_dec sg ip fp)" "dec_wf (numeral_dec sg ip fp)"
proof -
  from assms(1) have z: "dec_numeral z v" "CHR ''e'' \<notin> set z" "CHR ''E'' \<notin> set z"
    by (auto simp: plain_numeral_def)
  from z(1) assms(2) obtain sg ip fp ex e q where ip: "\<forall>c \<in> set ip. isdigit c" "\<forall>c \<in> set (tl fp). isdigit c"
    and len: "length ip + length fp \<le> length z"
    and ex: "exp_part ex e" "set ex \<subseteq> set z" and q: "apply_exp api (numeral_dec sg ip fp) e = Some q"
    "p = (if sign q \<and> (\<forall>d \<in> set (digs q). d = 0) then q\<lparr>sign := False\<rparr> else q)" "dec_wf q"
    by (rule newFromText_cases)
  have "e = 0" using ex z(2,3) by (auto simp: exp_part_def)
  then have "q = numeral_dec sg ip fp" using q(1) by (simp add: apply_exp_def)
  then show thesis using that ip len q by blast
qed

lemma newFromText_nDigit:
  assumes "plain_numeral z v" "decimalNewFromText api (Some z) = Some p"
  shows "nDigit p \<le> int (length z)"
proof -
  from assms obtain sg ip fp where l: "length ip + length fp \<le> length z" and
    p: "p = (if sign (numeral_dec sg ip fp) \<and> (\<forall>d \<in> set (digs (numeral_dec sg ip fp)). d = 0)
          then (numeral_dec sg ip fp)\<lparr>sign := False\<rparr> else numeral_dec sg ip fp)" "dec_wf (numeral_dec sg ip fp)"
    by (rule newFromText_plain)
  have "nDigit p = nDigit (numeral_dec sg ip fp)" using clear_sign_facts(4) [OF p(2)] p(1) by simp
  then show ?thesis
    using l length_dropWhile_le [of "\<lambda>c. c = CHR ''0''" ip] by (simp add: numeral_dec_def Let_def)
qed

lemma newFromText_normal:
  assumes "plain_numeral z v" "decimalNewFromText api (Some z) = Some p"
  shows "cmp_normal p"
proof -
  from assms obtain sg ip fp where
    p: "p = (if sign (numeral_dec sg ip fp) \<and> (\<forall>d \<in> set (digs (numeral_dec sg ip fp)). d = 0)
          then (numeral_dec sg ip fp)\<lparr>sign := False\<rparr> else numeral_dec sg ip fp)" "dec_wf (numeral_dec sg ip fp)"
    by (rule newFromText_plain)
  define q where "q = numeral_dec sg ip fp"
  have "digits q ! 0 \<noteq> 0" if "nFrac q < nDigit q"
  proof -
    let ?i = "dropWhile (\<lambda>c. c = CHR ''0'') ip"
    have ne: "?i \<noteq> []" using that by (auto simp: q_def numeral_dec_def Let_def)
    then have "hd ?i \<noteq> CHR ''0''" by (rule hd_dropWhile)
    moreover have "digits q ! 0 = digit_of (hd ?i)"
      using ne by (simp add: q_def numeral_dec_def Let_def nth_append hd_conv_nth)
    moreover have "digit_of c = 0 \<longleftrightarrow> c = CHR ''0''" for c
      using ord_char_inject [of c "CHR ''0''"] by (auto simp: digit_of_def ord_char_def)
    ultimately show ?thesis by simp
  qed
  then show ?thesis using clear_sign_facts [OF p(2), folded p(1)] by (simp add: cmp_normal_def q_def)
qed

lemma apply_exp_progress:
  assumes "mem_ok api" "nFrac p \<le> nDigit p" "0 \<le> nFrac p" "nDigit p \<le> 8000000" "\<bar>e\<bar> < 1000000"
  shows "\<exists>q. apply_exp api p e = Some q \<and> nDigit q \<le> nDigit p + \<bar>e\<bar> + 1"
proof -
  have m: "malloc64 api (nDigit p + k + 1)" if "0 \<le> k" "k \<le> \<bar>e\<bar> + 1" for k
    using assms that by (simp add: mem_ok_def)
  consider "e = 0" | "0 < e" | "e < 0" by linarith
  then show ?thesis
  proof cases
    case 1
    then show ?thesis by (simp add: apply_exp_def)
  next
    case 2
    then show ?thesis using m [of e] m [of "e - nFrac p"] assms(3)
      by (cases "nFrac p > 0"; cases "e \<le> nFrac p") (simp_all add: apply_exp_def)
  next
    case 3
    let ?x = "nDigit p - nFrac p - 1"
    show ?thesis using 3 m [of "- e"] m [of "- e - ?x"] assms(2,3)
      by (cases "?x \<noteq> 0"; cases "?x \<ge> - e") (simp_all add: apply_exp_def Let_def)
  qed
qed

lemma newFromText_progress:
  assumes "dec_numeral z v" "mem_ok api" "length z \<le> 8000000"
  shows "\<exists>p. decimalNewFromText api (Some z) = Some p"
proof -
  obtain ws sg ip fp ex e where z: "z = ws @ sg @ ip @ fp @ ex" and ws: "\<forall>c \<in> set ws. isspace c"
    and sg: "sg = [] \<or> sg = ''+'' \<or> sg = ''-''" and ip: "\<forall>c \<in> set ip. isdigit c"
    and fp: "fp = [] \<or> hd fp = CHR ''.''" "\<forall>c \<in> set (tl fp). isdigit c"
    and ex: "exp_part ex e" "\<bar>e\<bar> < 1000000"
    by (rule dec_numeral_cases [OF assms(1)])
  have m: "malloc64 api sizeof_Decimal" "malloc64 api (int (length z) + 1)"
    using assms(2,3) by (auto simp: mem_ok_def)
  let ?n = "numeral_dec sg ip fp"
  have "nDigit ?n \<le> int (length z)"
    using length_dropWhile_le [of "\<lambda>c. c = CHR ''0''" ip] by (simp add: numeral_dec_def Let_def z)
  moreover note n = dec_wfD [OF numeral_dec_facts(1) [OF ip fp(2), of sg]]
  ultimately obtain q where q: "apply_exp api ?n e = Some q" "nDigit q \<le> nDigit ?n + \<bar>e\<bar> + 1"
    using apply_exp_progress [OF assms(2) n(4,3) _ ex(2)] assms(3) by auto
  have "nDigit q \<le> 9000001" using q(2) \<open>nDigit ?n \<le> int (length z)\<close> assms(3) ex(2) by linarith
  then show ?thesis
    unfolding z newFromText_numeral [OF ws sg ip fp ex m(1) m(2) [unfolded z]] q(1) option.case Let_def
    by simp
qed

section \<open>Arbitrary text\<close>

definition loop_inv :: "Decimal \<Rightarrow> bool" where
  "loop_inv p \<longleftrightarrow> digs_ok (digits p) \<and> nDigit p = int (length (digits p)) \<and> 0 \<le> nFrac p \<and>
     nFrac p \<le> nDigit p + 1 \<and> \<not> oom p \<and> \<not> isNull p \<and> isInit p"

lemma text_loop_inv: "loop_inv p \<Longrightarrow> loop_inv (fst (text_loop z p))"
proof (induction z arbitrary: p)
  case (Cons c z)
  consider (digit) "isdigit c" | (point) "c = CHR ''.''" | (exp) "c = CHR ''e'' \<or> c = CHR ''E''"
    | (other) "\<not> isdigit c" "c \<noteq> CHR ''.''" "c \<noteq> CHR ''e''" "c \<noteq> CHR ''E''" by blast
  then show ?case
  proof cases
    case digit
    have "loop_inv (p\<lparr>digits := digits p @ [digit_of c], nDigit := nDigit p + 1\<rparr>)"
      using Cons.prems digit_of_bounds [OF digit] by (simp add: loop_inv_def)
    with digit show ?thesis using Cons.IH by simp
  next
    case point
    have "loop_inv (p\<lparr>nFrac := nDigit p + 1\<rparr>)" using Cons.prems by (simp add: loop_inv_def)
    with point show ?thesis using Cons.IH by simp
  next
    case exp
    then have "fst (text_loop (c # z) p) = p" by (elim disjE) (simp_all add: split_beta Let_def)
    with Cons.prems show ?thesis by simp
  next
    case other
    with Cons show ?thesis by simp
  qed
qed simp

lemma if_None_SomeD: "(if b then None else x) = Some y \<Longrightarrow> x = Some y"
  by (simp split: if_splits)

lemma newFromText_wf:
  assumes "decimalNewFromText api (Some z) = Some p"
  shows "dec_wf p \<and> isInit p \<and> nDigit p \<le> SQLITE_DECIMAL_MAX_DIGIT"
proof -
  let ?p0 = "\<lambda>s. \<lparr>sign = s, oom = False, isNull = False, isInit = True, nDigit = 0, nFrac = 0, digits = []\<rparr>"
  define z1 where "z1 = dropWhile isspace z"
  define sy where "sy = (if z1 \<noteq> [] \<and> hd z1 = CHR ''-'' then ((?p0 False)\<lparr>sign := True\<rparr>, tl z1)
      else if z1 \<noteq> [] \<and> hd z1 = CHR ''+'' then (?p0 False, tl z1) else (?p0 False, z1))"
  obtain s y where sy: "sy = (?p0 s, y)"
  proof (cases "z1 \<noteq> [] \<and> hd z1 = CHR ''-''")
    case True
    then show thesis using that [of True "tl z1"] by (simp only: sy_def if_True simp_thms) simp
  next
    case False
    then show thesis using that [of False "if z1 \<noteq> [] \<and> hd z1 = CHR ''+'' then tl z1 else z1"]
      by (simp only: sy_def if_False) simp
  qed
  obtain p1 e where l: "text_loop (dropWhile (\<lambda>c. c = CHR ''0'') y) (?p0 s) = (p1, e)" by (metis surj_pair)
  have eq: "(case apply_exp api (if nFrac p1 \<noteq> 0 then p1\<lparr>nFrac := nDigit p1 - (nFrac p1 - 1)\<rparr> else p1) e of
      None \<Rightarrow> None | Some q \<Rightarrow> let q = (if sign q \<and> (\<forall>d \<in> set (digs q). d = 0) then q\<lparr>sign := False\<rparr> else q)
        in if nDigit q > SQLITE_DECIMAL_MAX_DIGIT then None else Some q) = Some p"
    using assms
    unfolding decimalNewFromText_def option.case Let_def z1_def [symmetric] sy_def [symmetric] sy prod.case l
    by (rule if_None_SomeD [OF if_None_SomeD])
  then obtain q where q: "apply_exp api (if nFrac p1 \<noteq> 0 then p1\<lparr>nFrac := nDigit p1 - (nFrac p1 - 1)\<rparr> else p1) e = Some q"
    and p: "p = (if sign q \<and> (\<forall>d \<in> set (digs q). d = 0) then q\<lparr>sign := False\<rparr> else q)"
    "nDigit p \<le> SQLITE_DECIMAL_MAX_DIGIT"
    by (cases "apply_exp api (if nFrac p1 \<noteq> 0 then p1\<lparr>nFrac := nDigit p1 - (nFrac p1 - 1)\<rparr> else p1) e")
      (simp_all add: Let_def split: if_splits)
  define p2 where "p2 = (if nFrac p1 \<noteq> 0 then p1\<lparr>nFrac := nDigit p1 - (nFrac p1 - 1)\<rparr> else p1)"
  have "loop_inv (?p0 s)" by (simp add: loop_inv_def)
  then have "loop_inv p1" using text_loop_inv [of "?p0 s"] l by (metis fst_conv)
  then have "dec_wf p2 \<and> nDigit p2 = int (length (digits p2)) \<and> isInit p2"
    by (auto simp: p2_def dec_wf_def loop_inv_def)
  then have "dec_wf q" "isInit q" using apply_exp_correct [of p2 api e q] q by (auto simp: p2_def)
  then show ?thesis using clear_sign_facts [of q, folded p(1)] p(2) by auto
qed

end
