(* ===== verification/Decimal_Print.thy ===== *)
theory Decimal_Print
  imports Decimal_Text
begin

text \<open>
  The printers \<^verbatim>\<open>decimal_result\<close> and \<^verbatim>\<open>decimal_result_sci\<close> of \<^verbatim>\<open>decimal.c\<close>: each prints a
  numeral that denotes the value of the decimal, inside the buffer it allocates,
  and reading the text back gives a decimal of the same value.
\<close>

section \<open>Closed forms of the printing loops\<close>

abbreviation dchr :: "int \<Rightarrow> char" where
  "dchr d \<equiv> digit_char (nat d)"

lemma digit_char_0 [simp]: "digit_char 0 = CHR ''0''"
  by code_simp

lemma digit_of_dchr: "0 \<le> d \<Longrightarrow> d \<le> 9 \<Longrightarrow> digit_of (dchr d) = d \<and> isdigit (dchr d)"
  using ord_digit_char [of "nat d"] isdigit_digit_char [of "nat d"] by (simp add: digit_of_def)

lemma map_dchr:
  assumes "digs_ok xs"
  shows "map digit_of (map dchr xs) = xs" "\<forall>c \<in> set (map dchr xs). isdigit c"
  using assms digit_of_dchr by (auto simp: digs_ok_def intro!: map_idI)

lemma skip_zeros_spec:
  "skip_zeros a j n = (j', n') \<Longrightarrow> 0 \<le> n \<Longrightarrow>
     j \<le> j' \<and> int j' + n' = int j + n \<and> 0 \<le> n' \<and> (0 < n \<longrightarrow> 0 < n') \<and> (\<forall>i. j \<le> i \<and> i < j' \<longrightarrow> a ! i = 0)"
proof (induction a j n rule: skip_zeros.induct)
  case (1 a j n)
  show ?case
  proof (cases "n > 1 \<and> a ! j = 0")
    case True
    with 1(2) have "skip_zeros a (j + 1) (n - 1) = (j', n')" by (simp add: skip_zeros.simps [of a j n])
    with 1(1) [OF True this] True have "j + 1 \<le> j'" "int j' + n' = int j + n" "0 < n'"
      "\<forall>i. j + 1 \<le> i \<and> i < j' \<longrightarrow> a ! i = 0" by auto
    moreover from this(4) True have "a ! i = 0" if "j \<le> i" "i < j'" for i
      using that by (cases "i = j") auto
    ultimately show ?thesis by auto
  next
    case False
    with 1(2,3) show ?thesis by (simp add: skip_zeros.simps [of a j n])
  qed
qed

lemma emit_int_spec: "emit_int a j n = (map (\<lambda>i. dchr (a ! i)) [j..<j + nat n], j + nat n)"
proof (induction a j n rule: emit_int.induct)
  case (1 a j n)
  show ?case
  proof (cases "n > 0")
    case True
    then have n: "j + nat n = j + 1 + nat (n - 1)" by simp
    have "emit_int a j n = (dchr (a ! j) # map (\<lambda>i. dchr (a ! i)) [j + 1..<j + nat n], j + nat n)"
      using True 1 [OF True] unfolding n by (simp add: emit_int.simps [of a j n])
    then show ?thesis using True by (simp add: upt_conv_Cons)
  qed (simp add: emit_int.simps [of a j n])
qed

lemma emit_frac_spec:
  "int j < n \<Longrightarrow> emit_frac a j n = map (\<lambda>i. dchr (a ! i)) [j..<nat n]"
proof (induction a j n rule: emit_frac.induct)
  case (1 a j n)
  have u: "[j..<nat n] = j # [j + 1..<nat n]" using 1(2) by (simp add: upt_conv_Cons)
  show ?case using 1 unfolding u by (subst emit_frac.simps) auto
qed

lemma map_nth_digs:
  assumes "j \<le> k" "k \<le> length a"
  shows "map (\<lambda>i. dchr (a ! i)) [j..<k] = map dchr (drop j (take k a))"
  using assms by (intro nth_equalityI) auto

text \<open>The text of a decimal, split into sign, integer digits and fraction.\<close>

lemma decimal_text_split:
  assumes "dec_wf p"
  obtains ip fp where "decimal_text p = (if sign p then ''-'' else []) @ map dchr ip @ fp"
    "digs_ok ip" "ip \<noteq> []" "fp = (if nFrac p = 0 then [] else ''.'' @ map dchr (drop (nat (nDigit p - nFrac p)) (digs p)))"
    "dval ip = dval (take (nat (nDigit p - nFrac p)) (digs p))"
    "length ip \<le> max 1 (nat (nDigit p - nFrac p))"
proof -
  note w = dec_wfD [OF assms]
  define k where "k = nat (nDigit p - nFrac p)"
  obtain j n where s: "skip_zeros (digits p) 0 (nDigit p - nFrac p) = (j, n)" by (metis surj_pair)
  have S: "int j + n = int k" "0 \<le> n" "0 < k \<longrightarrow> 0 < n" "\<forall>i < j. digits p ! i = 0"
    using skip_zeros_spec [OF s] w(4) by (auto simp: k_def)
  have kl: "k \<le> nat (nDigit p)" "nat (nDigit p) \<le> length (digits p)" "j \<le> k" "j + nat n = k"
    using w S by (auto simp: k_def)
  define ip where "ip = (if k = 0 then [0] else drop j (take k (digits p)))"
  define fp where "fp = (if nFrac p = 0 then [] else ''.'' @ map dchr (drop k (digs p)))"
  have fr: "emit_frac (digits p) k (nDigit p) = map dchr (drop k (digs p))" if "nFrac p \<noteq> 0"
    using that w(3,4) kl map_nth_digs [of k "nat (nDigit p)" "digits p"] emit_frac_spec [of k "nDigit p" "digits p"]
    by (auto simp: digs_def k_def)
  have tx: "decimal_text p = (if sign p then ''-'' else []) @ map dchr ip @ fp"
  proof -
    have "nDigit p - nFrac p \<le> 0 \<longleftrightarrow> k = 0" by (simp add: k_def)
    then show ?thesis
      unfolding decimal_text_def Let_def s prod.case emit_int_spec kl(4) ip_def fp_def
      using map_nth_digs [of j k "digits p"] kl fr by auto
  qed
  have z: "take j (digits p) = replicate j 0"
    using S(4) kl by (intro nth_equalityI) auto
  have "take k (digits p) = take j (digits p) @ drop j (take k (digits p))"
    using kl append_take_drop_id [of j "take k (digits p)"] by (simp add: min_absorb1)
  then have "dval (take k (digits p)) = dval (drop j (take k (digits p)))"
    unfolding z by (metis dval_append dval_replicate_0 mult_zero_left add_0)
  moreover have "take k (digs p) = take k (digits p)" using kl by (simp add: digs_def min_absorb1)
  ultimately have v: "dval ip = dval (take k (digs p))" by (simp add: ip_def dval_Cons)
  have "digs_ok ip" "ip \<noteq> []" "length ip \<le> max 1 k"
    using w(7) kl S by (auto simp: ip_def digs_ok_take digs_ok_drop)
  then show thesis using that tx v by (simp add: fp_def k_def)
qed

lemma decimal_text_numeral:
  assumes "dec_wf p"
  shows "plain_numeral (decimal_text p) (dec_val p)"
proof -
  note w = dec_wfD [OF assms]
  define k where "k = nat (nDigit p - nFrac p)"
  obtain ip fp where s: "decimal_text p = (if sign p then ''-'' else []) @ map dchr ip @ fp"
    "digs_ok ip" "fp = (if nFrac p = 0 then [] else ''.'' @ map dchr (drop k (digs p)))"
    "dval ip = dval (take k (digs p))"
    unfolding k_def by (rule decimal_text_split [OF assms])
  have tl: "tl fp = map dchr (drop k (digs p))"
    using s(3) w by (auto simp: k_def)
  have ok: "digs_ok (drop k (digs p))" using w(8) by (rule digs_ok_drop)
  have len: "length (tl fp) = nat (nFrac p)" using w by (auto simp: tl k_def)
  have "dval (map digit_of (map dchr ip @ tl fp)) = dval (take k (digs p) @ drop k (digs p))"
    using map_dchr(1) [OF s(2)] map_dchr(1) [OF ok] s(4) unfolding tl map_append dval_append by simp
  then have dv: "dval (map digit_of (map dchr ip @ tl fp)) = dval (digs p)" by simp
  have sg: "(if sign p then ''-'' else []) = ''-'' \<longleftrightarrow> sign p" by simp
  have val: "dec_val p = (if sign p then - 1 else 1) * of_int (dval (digs p)) * 10 powi (0 - int (nat (nFrac p)))"
    using dec_val_powi [OF w(3)] w(3) by (simp add: dec_mant_def)
  have dig: "\<forall>c \<in> set (map dchr ip). isdigit c" "\<forall>c \<in> set (tl fp). isdigit c"
    using map_dchr(2) [OF s(2)] map_dchr(2) [OF ok] by (simp_all add: tl)
  have "dec_numeral (decimal_text p) (dec_val p)"
    unfolding dec_numeral_def
  proof (intro exI conjI)
    show "decimal_text p = [] @ (if sign p then ''-'' else []) @ map dchr ip @ fp @ []" using s(1) by simp
    show "exp_part [] 0" by (simp add: exp_part_def)
    show "dec_val p = (if (if sign p then ''-'' else []) = ''-'' then - 1 else 1) *
        of_int (dval (map digit_of (map dchr ip @ tl fp))) * 10 powi (0 - int (length (tl fp)))"
      unfolding dv len sg by (rule val)
  qed (use s(3) dig in auto)
  moreover have "c \<notin> set (decimal_text p)" if "\<not> isdigit c" "c \<noteq> CHR ''-''" "c \<noteq> CHR ''.''" for c
  proof -
    have "set fp \<subseteq> insert (CHR ''.'') (set (tl fp))" using s(3) by auto
    then show ?thesis using dig that unfolding s(1) by auto
  qed
  ultimately show ?thesis by (simp add: plain_numeral_def)
qed

text \<open>The buffer of \<open>nDigit + 8\<close> bytes holds the text and its terminator.\<close>

lemma decimal_text_length:
  assumes "dec_wf p"
  shows "int (length (decimal_text p)) + 1 \<le> nDigit p + 4"
proof -
  note w = dec_wfD [OF assms]
  show ?thesis
    by (rule decimal_text_split [OF assms]) (use w in \<open>auto simp: max_def split: if_splits\<close>)
qed

lemma decimal_text_ne: "dec_wf p \<Longrightarrow> decimal_text p \<noteq> []"
  by (rule decimal_text_split) auto

section \<open>The printers\<close>

lemma decimal_result_correct:
  assumes "dec_wf p"
  shows "\<exists>q. snd (decimal_result api (Some p)) = Some q \<and> dec_wf q \<and> dec_val q = dec_val p \<and>
    isInit q = isInit p \<and> nDigit q = nDigit p \<and>
    fst (decimal_result api (Some p)) =
      (if malloc64 api (nDigit p + 8) then ResText (decimal_text q) else ResNomem)"
proof -
  note w = dec_wfD [OF assms]
  have z: "dval (digs p) = 0" if "nDigit p = 0 \<or> (nDigit p = 1 \<and> digits p ! 0 = 0)"
    using that w(6) dval_take_Suc [of 0 "digits p"] by (cases "digits p") (auto simp: digs_def)
  let ?q = "if nDigit p = 0 \<or> (nDigit p = 1 \<and> digits p ! 0 = 0) then p\<lparr>sign := False\<rparr> else p"
  have q: "dec_wf ?q" "dec_val ?q = dec_val p" "isInit ?q = isInit p" "nDigit ?q = nDigit p"
    using assms z by (auto simp: dec_wf_def dec_val_def dec_mant_def digs_def)
  show ?thesis
  proof (cases "malloc64 api (nDigit p + 8)")
    case True
    then have "decimal_result api (Some p) = (ResText (decimal_text ?q), Some ?q)"
      using w(1,2) unfolding decimal_result_def option.case Let_def by simp
    with q True show ?thesis by auto
  next
    case False
    then have "decimal_result api (Some p) = (ResNomem, Some p)"
      using w(1,2) unfolding decimal_result_def option.case by simp
    with assms False show ?thesis by auto
  qed
qed

lemma nat_digits_text:
  "dval (map digit_of (map digit_char (nat_digits n))) = int n"
  "\<forall>c \<in> set (map digit_char (nat_digits n)). isdigit c"
proof -
  have "digit_of (digit_char d) = int d" if "d \<in> set (nat_digits n)" for d
    using that nat_digits_bounds ord_digit_char by (auto simp: digit_of_def)
  then have "map digit_of (map digit_char (nat_digits n)) = map int (nat_digits n)" by auto
  moreover have "dval (map int ds) = int (foldl (\<lambda>a d. 10 * a + d) 0 ds)" for ds
    by (induction ds rule: rev_induct) auto
  ultimately show "dval (map digit_of (map digit_char (nat_digits n))) = int n"
    by (simp only: nat_digits_value)
  show "\<forall>c \<in> set (map digit_char (nat_digits n)). isdigit c"
    using nat_digits_bounds isdigit_digit_char by auto
qed

lemma fmt_exp_part: "exp_part (fmt_exp e) e"
proof -
  let ?n = "map digit_char (nat_digits (nat \<bar>e\<bar>))"
  let ?ds = "(if \<bar>e\<bar> < 10 then ''0'' else []) @ ?n"
  have "dval (map digit_of ?ds) = dval (map digit_of ?n)"
    by (simp add: dval_append dval_Cons digit_of_def ord_char_def)
  then have "dval (map digit_of ?ds) = \<bar>e\<bar>" by (simp only: nat_digits_text)
  moreover have "\<forall>d \<in> set ?ds. isdigit d" using nat_digits_text(2) [of "nat \<bar>e\<bar>"]
    by (auto simp: isdigit_def ord_char_def)
  moreover have "fmt_exp e = CHR ''e'' # (if e < 0 then ''-'' else ''+'') @ ?ds"
    by (simp add: fmt_exp_def)
  ultimately show ?thesis unfolding exp_part_def
    by (intro disjI2 exI [of _ "CHR ''e''"] exI [of _ "if e < 0 then ''-'' else ''+''"] exI [of _ ?ds]) auto
qed

text \<open>Trimming the zeros of both ends.\<close>

lemma takeWhile_zeros: "takeWhile (\<lambda>d. d = 0) xs = replicate (length (takeWhile (\<lambda>d. d = 0) xs)) (0 :: int)"
  by (induction xs) auto

lemma sci_trim_correct:
  assumes "dec_wf p" "sci_trim p N = (nZero, nd, nf)"
  defines "a \<equiv> take (nat nd) (drop (nat nZero) (digits p))"
  shows "digs_ok a" "length a = nat nd" "0 \<le> nd" "0 \<le> nZero" "nd \<le> nDigit p"
    "nd - nf = nDigit p - nFrac p - nZero" "nZero + nd \<le> nDigit p"
    "dval (digs p) = dval a * 10 ^ nat (nFrac p - nf)" "nf \<le> nFrac p"
proof -
  note w = dec_wfD [OF assms(1)]
  define t where "t = length (takeWhile (\<lambda>d. d = 0) (rev (drop (nat N) (digs p))))"
  define m where "m = nat (nDigit p) - t"
  have tl: "t \<le> length (drop (nat N) (digs p))" 
    using length_takeWhile_le [of "\<lambda>d. d = 0" "rev (drop (nat N) (digs p))"] by (simp add: t_def)
  then have tle: "t \<le> nat (nDigit p)" using w(9) by simp
  have nd0: "nDigit p - int t = int m" using tle w(5) by (simp add: m_def)
  define zs where "zs = takeWhile (\<lambda>d. d = 0) (take m (digits p))"
  have "sci_trim p N = (int (length zs), int m - int (length zs), nFrac p + (int m - nDigit p))"
    unfolding sci_trim_def Let_def t_def [symmetric] nd0 nat_int zs_def ..
  then have e: "nZero = int (length zs)" "nd = int m - int (length zs)" "nf = nFrac p + (int m - nDigit p)"
    using assms(2) by auto
  have ml: "m \<le> length (digits p)" "m \<le> nat (nDigit p)" using w(6) by (auto simp: m_def)
  have zl: "length zs \<le> m" using length_takeWhile_le [of "\<lambda>d. d = 0" "take m (digits p)"] ml by (simp add: zs_def)
  have split: "take m (digits p) = zs @ a"
  proof -
    have "zs = take (length zs) (take m (digits p))" unfolding zs_def by (rule takeWhile_eq_take)
    moreover have "a = drop (length zs) (take m (digits p))"
      using zl by (simp add: a_def e drop_take nat_diff_distrib)
    ultimately show ?thesis by (metis append_take_drop_id)
  qed
  have "rev (drop (nat N) (digs p)) = replicate t 0 @ drop t (rev (drop (nat N) (digs p)))"
    unfolding t_def using takeWhile_zeros [of "rev (drop (nat N) (digs p))"]
    by (metis dropWhile_eq_drop takeWhile_dropWhile_id)
  then have "drop (nat N) (digs p) = rev (drop t (rev (drop (nat N) (digs p)))) @ replicate t 0"
    by (metis rev_append rev_replicate rev_rev_ident)
  then have "digs p = (take (nat N) (digs p) @ rev (drop t (rev (drop (nat N) (digs p))))) @ replicate t 0"
    by (metis append.assoc append_take_drop_id)
  then obtain ys where ys: "digs p = ys @ replicate t 0" by blast
  then have "length ys = m" using w(9) tle arg_cong [OF ys, of length] by (simp add: m_def)
  then have "ys = take m (digits p)" using ys ml by (metis append_eq_conv_conj digs_def min.absorb1 take_take)
  then have "digs p = (zs @ a) @ replicate t 0" using ys split by simp
  then have "dval (digs p) = dval (zs @ a) * 10 ^ t" using dval_append [of "zs @ a" "replicate t 0"] by simp
  moreover have "dval (zs @ a) = dval a"
    unfolding dval_append zs_def by (subst takeWhile_zeros) simp
  moreover have "nat (nFrac p - nf) = t" using nd0 by (simp add: e)
  ultimately show "dval (digs p) = dval a * 10 ^ nat (nFrac p - nf)" by simp
  show "digs_ok a" using w(7) by (auto simp: a_def intro: digs_ok_take digs_ok_drop)
  show "length a = nat nd" using zl ml by (simp add: a_def e)
  show "0 \<le> nd" "0 \<le> nZero" "nd \<le> nDigit p" "nd - nf = nDigit p - nFrac p - nZero" "nZero + nd \<le> nDigit p" "nf \<le> nFrac p"
    using zl ml w(5) nd0 by (auto simp: e)
qed

lemma dec_numeralI:
  assumes "sg = [] \<or> sg = ''+'' \<or> sg = ''-''" "digs_ok ip" "digs_ok fp" "exp_part ex e" "\<bar>e\<bar> < 1000000"
    "v = (if sg = ''-'' then - 1 else 1) * of_int (dval (ip @ fp)) * 10 powi (e - int (length fp))"
  shows "dec_numeral (sg @ map dchr ip @ ''.'' @ map dchr fp @ ex) v"
  unfolding dec_numeral_def
proof (intro exI conjI)
  show "sg @ map dchr ip @ ''.'' @ map dchr fp @ ex = [] @ sg @ map dchr ip @ (''.'' @ map dchr fp) @ ex" by simp
  show "v = (if sg = ''-'' then - 1 else 1) * of_int (dval (map digit_of (map dchr ip @ tl (''.'' @ map dchr fp)))) *
      10 powi (e - int (length (tl (''.'' @ map dchr fp))))"
    using assms(6) map_dchr(1) [OF assms(2)] map_dchr(1) [OF assms(3)] by simp
qed (use assms map_dchr(2) in auto)

lemma powi_scale: "(10 :: rat) powi (x - 1) * 10 = 10 powi x"
  using powi_10_add [of "x - 1" 1] by simp

lemma decimal_result_sci_correct:
  assumes wf: "dec_wf p" and api: "api_spec api" and n: "nDigit p < 1000000"
    and res: "decimal_result_sci api (Some p) N = ResText z"
  shows "dec_numeral z (dec_val p)"
proof -
  note w = dec_wfD [OF wf]
  obtain nZero nd nf where t: "sci_trim p (if N < 1 then 0 else N) = (nZero, nd, nf)" by (metis surj_pair)
  define a where "a = take (nat nd) (drop (nat nZero) (digits p))"
  have T: "digs_ok a" "length a = nat nd" "0 \<le> nd" "0 \<le> nZero" "nd \<le> nDigit p"
    "nd - nf = nDigit p - nFrac p - nZero" "nZero + nd \<le> nDigit p"
    "dval (digs p) = dval a * 10 ^ nat (nFrac p - nf)" "nf \<le> nFrac p"
    unfolding a_def by (rule sci_trim_correct [OF wf t])+
  define sg where "sg = (if sign p then ''-'' else ''+'')"
  have sg: "sg = [] \<or> sg = ''+'' \<or> sg = ''-''" "sg = ''-'' \<longleftrightarrow> sign p" by (simp_all add: sg_def)
  note E = fmt_exp_part
  show ?thesis
  proof (cases "nd = 0")
    case True
    then have "z = sg @ map dchr [0] @ ''.'' @ map dchr [0] @ fmt_exp 0"
      using res w(1,2) api
      by (auto simp: decimal_result_sci_def t Let_def api_spec_simps sg_def split: if_splits)
    moreover have "dec_val p = 0" using T(2,8) True by (simp add: dec_val_def dec_mant_def)
    ultimately show ?thesis
      using dec_numeralI [OF sg(1) _ _ E [of 0], of "[0]" "[0]" 0] by (simp add: dval_Cons)
  next
    case False
    define fp where "fp = (if nd = 1 then [0] else tl a)"
    define e where "e = nd - nf - 1"
    have ne: "a \<noteq> []" using False T(2,3) by auto
    then have ne': "a = hd a # tl a" by simp
    have hd: "drop (nat nZero) (digits p) ! 0 = hd a" "drop (Suc 0) a = tl a"
      using ne by (simp_all add: a_def hd_conv_nth drop_Suc)
    have z: "z = sg @ map dchr [hd a] @ ''.'' @ map dchr fp @ fmt_exp e"
      using res w(1,2) api False T(3)
      by (auto simp: decimal_result_sci_def t Let_def api_spec_simps sg_def e_def hd fp_def a_def [symmetric]
          split: if_splits)
    have ok: "digs_ok [hd a]" "digs_ok fp" using T(1) ne' by (auto simp: fp_def dest: arg_cong [of _ _ digs_ok])
    have "of_int (dval ([hd a] @ fp)) * 10 powi (e - int (length fp)) = (of_int (dval a) * 10 powi (- nf) :: rat)"
    proof (cases "nd = 1")
      case True
      then have "a = [hd a]" using T(2) ne by (cases a) auto
      then have "dval a = hd a" using dval_Cons [of "hd a" "[]"] by simp
      then show ?thesis using True powi_scale [of "- nf"] by (simp add: fp_def e_def dval_Cons algebra_simps)
    next
      case False
      have "int (length (tl a)) = nd - 1" using T(2) \<open>nd \<noteq> 0\<close> T(3) by simp
      then show ?thesis using False ne' by (simp add: fp_def e_def)
    qed
    moreover have "dec_val p = (if sg = ''-'' then - 1 else 1) * (of_int (dval a) * 10 powi (- nf))"
    proof -
      have "(10 :: rat) ^ nat (nFrac p - nf) * 10 powi (- nFrac p) = 10 powi (- nf)"
        using powi_10_add [of "nFrac p - nf" "- nFrac p"] T(9) by (simp add: powi_10_nat)
      then show ?thesis unfolding dec_val_powi [OF w(3)] dec_mant_def T(8) sg(2) by (simp add: mult.assoc)
    qed
    moreover have "\<bar>e\<bar> < 1000000" using T(3-7) False n w(3-5) by (simp add: e_def)
    ultimately show ?thesis unfolding z by (intro dec_numeralI [OF sg(1) ok E]) (simp_all add: mult.assoc)
  qed
qed

text \<open>
  C24: Whatever bytes it is given, \<^verbatim>\<open>decimalNewFromText\<close> returns NULL or a well-formed decimal of at
  most ten million digits, and the text \<^verbatim>\<open>decimal_result\<close> writes for it fits, with its
  terminator, into the \<open>nDigit + 8\<close> bytes it allocates.
\<close>

theorem decimal_text_safe:
  assumes "decimalNewFromText api (Some z) = Some p"
  shows "dec_wf p \<and> nDigit p \<le> SQLITE_DECIMAL_MAX_DIGIT \<and>
    (\<forall>t. fst (decimal_result api (Some p)) = ResText t \<longrightarrow> int (length t) + 1 \<le> nDigit p + 8)"
proof -
  have p: "dec_wf p" "nDigit p \<le> SQLITE_DECIMAL_MAX_DIGIT" using newFromText_wf [OF assms] by auto
  obtain q where q: "dec_wf q" "nDigit q = nDigit p"
    "fst (decimal_result api (Some p)) = (if malloc64 api (nDigit p + 8) then ResText (decimal_text q) else ResNomem)"
    using decimal_result_correct [OF p(1), of api] by metis
  have "int (length t) + 1 \<le> nDigit p + 8" if "fst (decimal_result api (Some p)) = ResText t" for t
    using that q(3) decimal_text_length [OF q(1)] q(2) by (simp split: if_splits)
  with p show ?thesis by blast
qed

theorem decimal_text_safe_witness:
  "\<exists>p. decimalNewFromText ref_api (Some ''x-1.2.3ez'') = Some p \<and> dec_wf p \<and>
    nDigit p \<le> SQLITE_DECIMAL_MAX_DIGIT \<and>
    (\<forall>t. fst (decimal_result ref_api (Some p)) = ResText t \<longrightarrow> int (length t) + 1 \<le> nDigit p + 8)"
proof -
  have "decimalNewFromText ref_api (Some ''x-1.2.3ez'') \<noteq> None" by code_simp
  then obtain p where "decimalNewFromText ref_api (Some ''x-1.2.3ez'') = Some p" by blast
  with decimal_text_safe [OF this] show ?thesis by blast
qed

end
