(* ===== verification/Ieee.thy ===== *)
theory Ieee
  imports Prelude
begin

text \<open>
  IEEE 754 binary64 numbers as the 64-bit words that encode them, which is how the
  C code takes them apart after a \<^verbatim>\<open>memcpy\<close>.  \<open>double_val\<close> is the rational number a
  finite one denotes.
\<close>

type_synonym double = "64 word"

definition dbl_neg :: "double \<Rightarrow> bool" where
  "dbl_neg r \<longleftrightarrow> bit r 63"

definition dbl_exp :: "double \<Rightarrow> int" where
  "dbl_exp r = uint r div 2 ^ 52 mod 2 ^ 11"

definition dbl_frac :: "double \<Rightarrow> int" where
  "dbl_frac r = uint r mod 2 ^ 52"

definition dbl_finite :: "double \<Rightarrow> bool" where
  "dbl_finite r \<longleftrightarrow> dbl_exp r \<noteq> 2047"

definition dbl_nan :: "double \<Rightarrow> bool" where
  "dbl_nan r \<longleftrightarrow> dbl_exp r = 2047 \<and> dbl_frac r \<noteq> 0"

definition double_val :: "double \<Rightarrow> rat" where
  "double_val r =
     (if dbl_neg r then - 1 else 1) *
     (if dbl_exp r = 0 then of_int (dbl_frac r) * 2 powi (- 1074)
      else of_int (2 ^ 52 + dbl_frac r) * 2 powi (dbl_exp r - 1075))"

text \<open>C's comparison \<^verbatim>\<open>r < 0.0\<close> and negation \<^verbatim>\<open>-r\<close> of doubles.\<close>

definition dbl_lt_0 :: "double \<Rightarrow> bool" where
  "dbl_lt_0 r \<longleftrightarrow> dbl_neg r \<and> \<not> dbl_nan r \<and> (dbl_exp r \<noteq> 0 \<or> dbl_frac r \<noteq> 0)"

definition dbl_uminus :: "double \<Rightarrow> double" where
  "dbl_uminus r = flip_bit 63 r"

lemma dbl_bounds: "0 \<le> dbl_exp r" "dbl_exp r < 2048" "0 \<le> dbl_frac r" "dbl_frac r < 2 ^ 52"
  by (simp_all add: dbl_exp_def dbl_frac_def)

lemma uint_split: "uint r = (if dbl_neg r then 2 ^ 63 else 0) + dbl_exp r * 2 ^ 52 + dbl_frac r"
proof -
  have u: "0 \<le> uint r" "uint r < 2 ^ 64" using unsigned_less [of r, where ?'a = int] by simp_all
  have b: "bit r 63 \<longleftrightarrow> odd (uint r div 2 ^ 63)" using bit_uint_iff [of r 63] by (simp add: bit_iff_odd [of "uint r"])
  have "uint r div 2 ^ 63 = 0 \<or> uint r div 2 ^ 63 = 1" using u by auto
  then have s: "uint r div 2 ^ 63 = (if dbl_neg r then 1 else 0)" using b by (auto simp: dbl_neg_def)
  have "uint r div 2 ^ 52 = uint r div 2 ^ 52 div 2 ^ 11 * 2 ^ 11 + dbl_exp r" by (simp add: dbl_exp_def)
  moreover have "uint r div 2 ^ 52 div 2 ^ 11 = uint r div 2 ^ 63" by (simp add: zdiv_zmult2_eq [symmetric])
  ultimately have "uint r div 2 ^ 52 = (if dbl_neg r then 2 ^ 11 else 0) + dbl_exp r" using s by simp
  moreover have "uint r = uint r div 2 ^ 52 * 2 ^ 52 + dbl_frac r" by (simp add: dbl_frac_def)
  ultimately show ?thesis by (simp add: algebra_simps split: if_splits)
qed

lemma sint_to_s64: "sint r = to_s64 (uint r)" for r :: double
  by (simp add: sint_uint signed_take_bit_eq_take_bit_shift take_bit_eq_mod to_s64_def)

lemma sint_split: "sint r = (if dbl_neg r then - (2 ^ 63) else 0) + dbl_exp r * 2 ^ 52 + dbl_frac r"
proof -
  have "dbl_exp r * 2 ^ 52 \<le> 2047 * 2 ^ 52" using dbl_bounds(2) [of r] by (intro mult_right_mono) auto
  moreover have "0 \<le> dbl_exp r * 2 ^ 52" using dbl_bounds(1) [of r] by simp
  ultimately show ?thesis
    using dbl_bounds(3,4) [of r] uint_split [of r] by (simp add: sint_to_s64 to_s64_def split: if_splits)
qed

lemma dbl_uminus_parts:
  "dbl_neg (dbl_uminus r) = (\<not> dbl_neg r)" "dbl_exp (dbl_uminus r) = dbl_exp r" "dbl_frac (dbl_uminus r) = dbl_frac r"
proof -
  have e: "dbl_exp x = take_bit 11 (drop_bit 52 (uint x))" "dbl_frac x = take_bit 52 (uint x)" for x
    by (simp_all add: dbl_exp_def dbl_frac_def take_bit_eq_mod drop_bit_eq_div)
  show "dbl_neg (dbl_uminus r) = (\<not> dbl_neg r)"
    by (simp add: dbl_neg_def dbl_uminus_def bit_flip_bit_iff)
  show "dbl_exp (dbl_uminus r) = dbl_exp r"
    unfolding e by (rule bit_eqI) (auto simp: bit_simps dbl_uminus_def)
  show "dbl_frac (dbl_uminus r) = dbl_frac r"
    unfolding e by (rule bit_eqI) (auto simp: bit_simps dbl_uminus_def)
qed

end
