(* ===== verification/Decimal_Double.thy ===== *)
theory Decimal_Double
  imports Decimal_Print Ieee
begin

text \<open>
  Powers of two and binary floating point numbers as decimals: \<^verbatim>\<open>decimalPow2\<close> and
  \<^verbatim>\<open>decimalFromDouble\<close> of \<^verbatim>\<open>decimal.c\<close>.  Both are exact when memory does not run out.
\<close>

section \<open>Powers of two\<close>

text \<open>The loop of \<^verbatim>\<open>decimalPow2\<close>: square and multiply.  \<open>None\<close> is the jump to \<^verbatim>\<open>pow2_fault\<close>.\<close>

fun pow2_loop :: "sqlite3_api_routines \<Rightarrow> Decimal option \<Rightarrow> Decimal option \<Rightarrow> nat \<Rightarrow> Decimal option" where
  "pow2_loop api pA pX N =
     (let pA = (if odd N then decimalMul api pA pX else pA) in
      if odd N \<and> (case pA of None \<Rightarrow> False | Some A \<Rightarrow> oom A) then None
      else
        let N = N div 2 in
        if N = 0 then pA else pow2_loop api pA (decimalMul api pX pX) N)"

declare pow2_loop.simps [simp del]

definition dec_fault :: "Decimal option \<Rightarrow> bool" where
  "dec_fault p \<longleftrightarrow> (case p of None \<Rightarrow> True | Some d \<Rightarrow> oom d)"

definition decimalPow2 :: "sqlite3_api_routines \<Rightarrow> int \<Rightarrow> Decimal option" where
  "decimalPow2 api N =
     (if N < - 20000 \<or> N > 20000 then None
      else
        let pA = decimalNewFromText api (Some ''1.0'') in
        if dec_fault pA then None
        else if N = 0 then pA
        else
          let (N, pX) = (if N > 0 then (N, decimalNewFromText api (Some ''2.0''))
                         else (- N, decimalNewFromText api (Some ''0.5'')))
          in if dec_fault pX then None else pow2_loop api pA pX (nat N))"

section \<open>Doubles\<close>

text \<open>Shifting the trailing zeros out of the significand.\<close>

function double_norm :: "int \<Rightarrow> int \<Rightarrow> int \<times> int" where
  "double_norm e m =
     (if e < 1075 \<and> m > 0 \<and> even m then double_norm (e + 1) (m div 2) else (e, m))"
  by pat_completeness auto
termination
  by (relation "measure (\<lambda>(e, m). nat (1075 - e))") auto

declare double_norm.simps [simp del]

text \<open>
  Significand and exponent; \<open>None\<close> for an infinity or a NaN.  The shift of the signed
  integer \<open>a\<close> is arithmetic.
\<close>

definition double_parts :: "double \<Rightarrow> (int \<times> int) option" where
  "double_parts r =
     (let isNeg = dbl_lt_0 r;
          r = (if isNeg then dbl_uminus r else r);
          a = sint r
      in if a = 0 \<or> a = - (2 ^ 63) then Some (0, 0)
         else
           let e = a div 2 ^ 52;
               m = a mod 2 ^ 52;
               m = (if e = 0 then m * 2 else m + 2 ^ 52);
               (e, m) = double_norm e m;
               m = (if isNeg then - m else m);
               e = e - 1075
           in if e > 971 then None else Some (m, e))"

definition decimalFromDouble :: "sqlite3_api_routines \<Rightarrow> double \<Rightarrow> Decimal option" where
  "decimalFromDouble api r =
     (case double_parts r of
        None \<Rightarrow> None
      | Some (m, e) \<Rightarrow>
          let pA = decimalNewFromText api (Some (snprintf_lld api m));
              pX = decimalPow2 api e
          in decimalMul api pA pX)"

section \<open>Powers of two are exact\<close>

lemma decimalMul_progress:
  assumes A: "dec_wf A" and B: "dec_wf B" and n: "nDigit A + nDigit B + 2 \<le> SQLITE_DECIMAL_MAX_DIGIT" and mem: "mem_ok api"
  obtains R where "decimalMul api (Some A) (Some B) = Some R" "dec_wf R" "dec_val R = dec_val A * dec_val B"
    "isInit R = isInit A" "nDigit R \<le> nDigit A + nDigit B + 2"
proof -
  obtain R where R: "decimalMul api (Some A) (Some B) = Some R" using decimalMul_total by blast
  have sz: "oom (strip_zeros m q) = oom q" for m q
    by (induction m q rule: strip_zeros.induct) (subst strip_zeros.simps, simp)
  have "malloc64 api (nDigit A + nDigit B + 2)" using mem n dec_wfD(5) [OF A] dec_wfD(5) [OF B] by (simp add: mem_ok_def)
  then have "\<not> oom R"
    using R n dec_wfD(1,2) [OF A] dec_wfD(1,2) [OF B]
    by (auto simp: decimalMul_def Let_def sz split: if_splits)
  then show thesis using that [OF R] decimalMul_correct [OF A B R] by auto
qed

lemma pow2_loop_correct:
  assumes "mem_ok api" "dec_wf A" "dec_wf X" "0 < N"
    and "(nDigit A + 2) + (nDigit X + 2) * int N \<le> 200000"
  shows "\<exists>R. pow2_loop api (Some A) (Some X) N = Some R \<and> dec_wf R \<and> dec_val R = dec_val A * dec_val X ^ N \<and>
    isInit R = isInit A \<and> nDigit R \<le> 200000"
  using assms(2-)
proof (induction N arbitrary: A X rule: less_induct)
  case (less N)
  note a = dec_wfD [OF less.prems(1)] and x = dec_wfD [OF less.prems(2)]
  let ?x = "nDigit X + 2"
  have N: "int N = 2 * int (N div 2) + (if odd N then 1 else 0)" by presburger
  define h where "h = ?x * int (N div 2)"
  have half: "0 \<le> h" using x(5) by (simp add: h_def)
  have "?x * int N = 2 * h + (if odd N then ?x else 0)"
    unfolding h_def by (subst N) (simp add: algebra_simps)
  then have sum: "nDigit A + 2 + (2 * h + (if odd N then ?x else 0)) \<le> 200000" using less.prems(4) by simp
  obtain A' where A': "(if odd N then decimalMul api (Some A) (Some X) else Some A) = Some A'" "dec_wf A'"
    "dec_val A' = dec_val A * (if odd N then dec_val X else 1)" "isInit A' = isInit A"
    "nDigit A' + 2 \<le> nDigit A + 2 + (if odd N then ?x else 0)"
  proof (cases "odd N")
    case True
    have "nDigit A + nDigit X + 2 \<le> SQLITE_DECIMAL_MAX_DIGIT" using sum half True by simp
    then obtain R where "decimalMul api (Some A) (Some X) = Some R" "dec_wf R" "dec_val R = dec_val A * dec_val X"
      "isInit R = isInit A" "nDigit R \<le> nDigit A + nDigit X + 2"
      by (rule decimalMul_progress [OF less.prems(1,2) _ assms(1)])
    with True that show thesis by auto
  qed (use that less.prems in auto)
  have pw: "dec_val X ^ N = (if odd N then dec_val X else 1) * (dec_val X * dec_val X) ^ (N div 2)"
  proof -
    have "N = (if odd N then 1 else 0) + 2 * (N div 2)" by presburger
    then have "dec_val X ^ N = dec_val X ^ (if odd N then 1 else 0) * (dec_val X ^ 2) ^ (N div 2)"
      by (metis power_add power_mult)
    then show ?thesis by (simp add: power2_eq_square)
  qed
  have loop: "pow2_loop api (Some A) (Some X) N =
      (if N div 2 = 0 then Some A' else pow2_loop api (Some A') (decimalMul api (Some X) (Some X)) (N div 2))"
    using A'(1) dec_wfD(1) [OF A'(2)] by (subst pow2_loop.simps) (auto simp: Let_def)
  show ?case
  proof (cases "N div 2 = 0")
    case True
    then show ?thesis using A' sum half x(5) unfolding loop pw by (auto simp: mult.assoc)
  next
    case False
    then have "1 \<le> int (N div 2)" by linarith
    then have "?x * 1 \<le> h" unfolding h_def using x(5) by (intro mult_left_mono) auto
    then have "nDigit X + nDigit X + 2 \<le> SQLITE_DECIMAL_MAX_DIGIT" using sum a(5) x(5) by (auto split: if_splits)
    then obtain X' where X': "decimalMul api (Some X) (Some X) = Some X'" "dec_wf X'" "dec_val X' = dec_val X * dec_val X"
      "nDigit X' \<le> nDigit X + nDigit X + 2"
      by (rule decimalMul_progress [OF less.prems(2,2) _ assms(1)])
    have "(nDigit X' + 2) * int (N div 2) \<le> (2 * ?x) * int (N div 2)" using X'(4) by (intro mult_right_mono) auto
    also have "\<dots> = 2 * h" by (simp add: h_def)
    finally have "(nDigit A' + 2) + (nDigit X' + 2) * int (N div 2) \<le> 200000" using sum A'(5) by (auto split: if_splits)
    moreover have "N div 2 < N" "0 < N div 2" using less.prems(3) False by auto
    ultimately show ?thesis
      using less.IH [OF _ A'(2) X'(2)] A' X' False unfolding loop pw by (auto simp: mult.assoc)
  qed
qed

lemma plain_numeralI:
  assumes "\<forall>c \<in> set ip. isdigit c" "\<forall>c \<in> set fp. isdigit c"
    "v = of_int (dval (map digit_of (ip @ fp))) * 10 powi (- int (length fp))"
  shows "plain_numeral (ip @ ''.'' @ fp) v"
proof -
  have "dec_numeral (ip @ ''.'' @ fp) v"
    unfolding dec_numeral_def
  proof (intro exI conjI)
    show "ip @ ''.'' @ fp = [] @ [] @ ip @ (''.'' @ fp) @ []" by simp
    show "exp_part [] 0" by (simp add: exp_part_def)
  qed (use assms in auto)
  then show ?thesis using assms(1,2) by (auto simp: plain_numeral_def)
qed

lemma small_numerals:
  "plain_numeral ''1.0'' 1" "plain_numeral ''2.0'' 2" "plain_numeral ''0.5'' (1 / 2)"
  using plain_numeralI [of "''1''" "''0''" 1] plain_numeralI [of "''2''" "''0''" 2] plain_numeralI [of "''0''" "''5''" "1 / 2"]
  by (simp_all add: isdigit_def ord_char_def digit_of_def dval_Cons power_int_minus)

lemma newFromText_plain_progress:
  assumes "plain_numeral z v" "mem_ok api" "length z \<le> 8000000"
  obtains p where "decimalNewFromText api (Some z) = Some p" "dec_wf p" "dec_val p = v" "isInit p" "nDigit p \<le> int (length z)"
    "cmp_normal p"
proof -
  have d: "dec_numeral z v" using assms(1) by (simp add: plain_numeral_def)
  obtain p where p: "decimalNewFromText api (Some z) = Some p"
    using newFromText_progress [OF d assms(2,3)] by blast
  show thesis using that [OF p] newFromText_value [OF d p] newFromText_nDigit [OF assms(1) p] newFromText_normal [OF assms(1) p] by blast
qed

lemma decimalPow2_correct:
  assumes "mem_ok api" "- 20000 \<le> N" "N \<le> 20000"
  obtains R where "decimalPow2 api N = Some R" "dec_wf R" "dec_val R = 2 powi N" "isInit R" "nDigit R \<le> 200000"
proof -
  obtain A where A: "decimalNewFromText api (Some ''1.0'') = Some A" "dec_wf A" "dec_val A = 1" "isInit A" "nDigit A \<le> int (length ''1.0'')"
    by (rule newFromText_plain_progress [OF small_numerals(1) assms(1)]) auto
  obtain X where X: "decimalNewFromText api (Some (if N > 0 then ''2.0'' else ''0.5'')) = Some X" "dec_wf X"
    "dec_val X = (if N > 0 then 2 else 1 / 2)" "nDigit X \<le> 3"
  proof (cases "N > 0")
    case True
    show thesis by (rule newFromText_plain_progress [OF small_numerals(2) assms(1)]) (use that True in auto)
  next
    case False
    show thesis by (rule newFromText_plain_progress [OF small_numerals(3) assms(1)]) (use that False in auto)
  qed
  have A3: "nDigit A \<le> 3" using A(5) by simp
  note wa = dec_wfD(1) [OF A(2)] and wx = dec_wfD(1) [OF X(2)]
  have eq: "decimalPow2 api N = (if N = 0 then Some A else pow2_loop api (Some A) (Some X) (nat \<bar>N\<bar>))"
    using assms(2,3) A(1) X(1) wa wx by (cases "N > 0") (simp_all add: decimalPow2_def Let_def dec_fault_def)
  show thesis
  proof (cases "N = 0")
    case True
    then show thesis using that [of A] A A3 eq by simp
  next
    case False
    have "(nDigit X + 2) * int (nat \<bar>N\<bar>) \<le> 5 * 20000" using X(4) assms by (intro mult_mono) auto
    then obtain R where R: "pow2_loop api (Some A) (Some X) (nat \<bar>N\<bar>) = Some R" "dec_wf R"
      "dec_val R = dec_val A * dec_val X ^ nat \<bar>N\<bar>" "isInit R = isInit A" "nDigit R \<le> 200000"
      using pow2_loop_correct [OF assms(1) A(2) X(2), of "nat \<bar>N\<bar>"] A3 False by auto
    have "dec_val R = 2 powi N"
      using R(3) A(3) X(3) False by (auto simp: power_int_def power_one_over inverse_eq_divide)
    then show thesis using that [of R] R A(4) eq False by simp
  qed
qed

section \<open>Doubles are exact\<close>

lemma double_norm_correct:
  "double_norm e m = (e', m') \<Longrightarrow> 0 \<le> m \<Longrightarrow>
     e \<le> e' \<and> e' \<le> max e 1075 \<and> 0 \<le> m' \<and> m' \<le> m \<and> of_int m' * (2 :: rat) powi e' = of_int m * 2 powi e"
proof (induction e m rule: double_norm.induct)
  case (1 e m)
  show ?case
  proof (cases "e < 1075 \<and> m > 0 \<and> even m")
    case True
    then have "double_norm (e + 1) (m div 2) = (e', m')" using 1(2) by (simp add: double_norm.simps [of e m])
    with 1(1) [OF True this] True have r: "e + 1 \<le> e'" "e' \<le> max (e + 1) 1075" "0 \<le> m'" "m' \<le> m div 2"
      "of_int m' * (2 :: rat) powi e' = of_int (m div 2) * 2 powi (e + 1)" by auto
    have "(of_int (m div 2) :: rat) * 2 = of_int m" using True by (metis dvd_div_mult_self of_int_mult of_int_numeral)
    moreover have "(2 :: rat) powi (e + 1) = 2 powi e * 2" by (simp add: power_int_add)
    ultimately show ?thesis using r True by (auto simp: algebra_simps)
  next
    case False
    then show ?thesis using 1(2,3) by (auto simp: double_norm.simps [of e m])
  qed
qed

lemma sint_magnitude:
  assumes "dbl_lt_0 r \<or> \<not> dbl_neg r"
  shows "sint (if dbl_lt_0 r then dbl_uminus r else r) = dbl_exp r * 2 ^ 52 + dbl_frac r"
  using assms by (auto simp: sint_split dbl_uminus_parts dbl_lt_0_def)

lemma parts_div_mod:
  "(dbl_exp r * 2 ^ 52 + dbl_frac r) div 2 ^ 52 = dbl_exp r" "(dbl_exp r * 2 ^ 52 + dbl_frac r) mod 2 ^ 52 = dbl_frac r"
proof -
  have "dbl_frac r div 2 ^ 52 = 0" "dbl_frac r mod 2 ^ 52 = dbl_frac r"
    using dbl_bounds(3,4) [of r] by simp_all
  then show "(dbl_exp r * 2 ^ 52 + dbl_frac r) div 2 ^ 52 = dbl_exp r" "(dbl_exp r * 2 ^ 52 + dbl_frac r) mod 2 ^ 52 = dbl_frac r"
    by simp_all
qed

text \<open>The parts of a number that is not a negative NaN or a zero, written on its fields.\<close>

lemma double_parts_fields:
  assumes "dbl_lt_0 r \<or> \<not> dbl_neg r" "dbl_exp r \<noteq> 0 \<or> dbl_frac r \<noteq> 0"
  shows "double_parts r =
    (let (e, m) = double_norm (dbl_exp r) (if dbl_exp r = 0 then dbl_frac r * 2 else dbl_frac r + 2 ^ 52)
     in if e - 1075 > 971 then None else Some (if dbl_lt_0 r then - m else m, e - 1075))"
proof -
  have a: "dbl_exp r * 2 ^ 52 + dbl_frac r \<noteq> 0" "dbl_exp r * 2 ^ 52 + dbl_frac r \<noteq> - (2 ^ 63)"
    using parts_div_mod [of r] dbl_bounds(1,3) [of r] assms(2) by force+
  show ?thesis
    unfolding double_parts_def Let_def sint_magnitude [OF assms(1)] parts_div_mod using a by simp
qed

lemma double_parts_zero:
  assumes "dbl_exp r = 0" "dbl_frac r = 0"
  shows "double_parts r = Some (0, 0)"
  using assms by (auto simp: double_parts_def Let_def sint_split dbl_lt_0_def)

lemma double_parts_finite:
  assumes "dbl_finite r"
  obtains m e where "double_parts r = Some (m, e)" "of_int m * 2 powi e = double_val r"
    "\<bar>m\<bar> < 2 ^ 53" "- 1075 \<le> e" "e \<le> 971"
proof (cases "dbl_exp r = 0 \<and> dbl_frac r = 0")
  case True
  then show thesis using that [of 0 0] double_parts_zero [of r] by (simp add: double_val_def)
next
  case False
  note b = dbl_bounds [of r]
  have lt: "dbl_lt_0 r \<longleftrightarrow> dbl_neg r" using assms False by (auto simp: dbl_lt_0_def dbl_nan_def dbl_finite_def)
  define M where "M = (if dbl_exp r = 0 then dbl_frac r * 2 else dbl_frac r + 2 ^ 52)"
  obtain e m where n: "double_norm (dbl_exp r) M = (e, m)" by (metis surj_pair)
  have M: "0 \<le> M" "M < 2 ^ 53" using b by (auto simp: M_def)
  have N: "dbl_exp r \<le> e" "e \<le> max (dbl_exp r) 1075" "0 \<le> m" "m \<le> M"
    "of_int m * (2 :: rat) powi e = of_int M * 2 powi dbl_exp r"
    using double_norm_correct [OF n M(1)] by auto
  have e: "0 \<le> e" "e \<le> 2046" using N(1,2) b assms by (auto simp: dbl_finite_def)
  have P: "double_parts r = Some (if dbl_neg r then - m else m, e - 1075)"
    using double_parts_fields [of r] False lt n e(2) by (auto simp: M_def)
  have sh: "(2 :: rat) powi (x - 1075) = 2 powi x * 2 powi (- 1075)" for x
    using power_int_add [of "2 :: rat" x "- 1075"] by simp
  have "of_int m * (2 :: rat) powi (e - 1075) = of_int M * 2 powi (dbl_exp r - 1075)"
    unfolding sh using N(5) by (simp add: mult.assoc [symmetric])
  also have "\<dots> = (if dbl_exp r = 0 then of_int (dbl_frac r) * 2 powi (- 1074)
      else of_int (2 ^ 52 + dbl_frac r) * 2 powi (dbl_exp r - 1075))"
  proof (cases "dbl_exp r = 0")
    case True
    have "(2 :: rat) * 2 powi (- 1075) = 2 powi (- 1074)" using power_int_add [of "2 :: rat" 1 "- 1075"] by simp
    then show ?thesis using True by (simp add: M_def mult.assoc)
  qed (simp add: M_def add.commute)
  finally have "of_int (if dbl_neg r then - m else m) * 2 powi (e - 1075) = double_val r"
    by (simp add: double_val_def)
  then show thesis using that [OF P] M N(3,4) e by auto
qed

lemma double_parts_infinite:
  assumes "\<not> dbl_finite r" "\<not> (dbl_nan r \<and> dbl_neg r)"
  shows "double_parts r = None"
proof -
  have x: "dbl_exp r = 2047" "dbl_lt_0 r \<or> \<not> dbl_neg r" using assms by (auto simp: dbl_finite_def dbl_lt_0_def)
  have "double_norm 2047 m = (2047, m)" for m by (simp add: double_norm.simps)
  with double_parts_fields [OF x(2)] x(1) show ?thesis by simp
qed

lemma fmt_int_length: "length (fmt_int m) \<le> 1 + length (nat_digits (nat \<bar>m\<bar>))"
  unfolding fmt_int_def length_append length_map by (rule add_mono) auto

lemma fmt_int_numeral: "plain_numeral (fmt_int m) (of_int m)"
proof -
  let ?d = "map digit_char (nat_digits (nat \<bar>m\<bar>))"
  note t = nat_digits_text [of "nat \<bar>m\<bar>"]
  have "dec_numeral (fmt_int m) (of_int m)"
    unfolding dec_numeral_def
  proof (intro exI conjI)
    show "fmt_int m = [] @ (if m < 0 then ''-'' else []) @ ?d @ [] @ []" by (simp add: fmt_int_def)
    show "exp_part [] 0" by (simp add: exp_part_def)
    show "of_int m = (if (if m < 0 then ''-'' else []) = ''-'' then - 1 else 1) *
        rat_of_int (dval (map digit_of (?d @ tl []))) * 10 powi (0 - int (length (tl [])))"
      using t(1) by (simp del: map_map)
  qed (use t(2) in auto)
  then show ?thesis using t(2) not_isdigit_punct(2,3) by (auto simp: plain_numeral_def fmt_int_def simp del: not_isdigit_punct)
qed

lemma decimalFromDouble_correct:
  assumes "api_spec api" "mem_ok api" "dbl_finite r"
  obtains p where "decimalFromDouble api r = Some p" "dec_wf p" "dec_val p = double_val r" "isInit p" "nDigit p \<le> 300000"
proof -
  obtain m e where P: "double_parts r = Some (m, e)" "of_int m * 2 powi e = double_val r"
    "\<bar>m\<bar> < 2 ^ 53" "- 1075 \<le> e" "e \<le> 971"
    by (rule double_parts_finite [OF assms(3)])
  have "nat \<bar>m\<bar> < 10 ^ 20" using P(3) by simp
  from nat_digits_length [OF _ this] have "length (nat_digits (nat \<bar>m\<bar>)) \<le> 20" by simp
  with fmt_int_length [of m] have l: "length (fmt_int m) \<le> 21" by linarith
  obtain A where A: "decimalNewFromText api (Some (fmt_int m)) = Some A" "dec_wf A" "dec_val A = of_int m" "isInit A"
    "nDigit A \<le> int (length (fmt_int m))"
    by (rule newFromText_plain_progress [OF fmt_int_numeral [of m] assms(2)]) (use l in simp)
  obtain X where X: "decimalPow2 api e = Some X" "dec_wf X" "dec_val X = 2 powi e" "nDigit X \<le> 200000"
    by (rule decimalPow2_correct [OF assms(2), of e]) (use P(4,5) in simp_all)
  have n: "nDigit A + nDigit X + 2 \<le> 300000" using A(5) X(4) l by linarith
  then have "nDigit A + nDigit X + 2 \<le> SQLITE_DECIMAL_MAX_DIGIT" by linarith
  then obtain R where R: "decimalMul api (Some A) (Some X) = Some R" "dec_wf R" "dec_val R = dec_val A * dec_val X"
    "isInit R = isInit A" "nDigit R \<le> nDigit A + nDigit X + 2"
    by (rule decimalMul_progress [OF A(2) X(2) _ assms(2)])
  show thesis
  proof (rule that [of R])
    show "decimalFromDouble api r = Some R"
      using P(1) A(1) X(1) R(1) assms(1) by (simp add: decimalFromDouble_def api_spec_simps Let_def)
    show "dec_val R = double_val r" unfolding R(3) A(3) X(3) by (rule P(2))
  qed (use R A(4) n in auto)
qed

end
