(* ===== verification/Decimal_Functions.thy ===== *)
theory Decimal_Functions
  imports Decimal_Double
begin

text \<open>
  The SQL functions of \<^verbatim>\<open>mvsqlite-pgtypes-ext/decimal.c\<close>: construction of a decimal from a
  SQL value, the scalar functions, the window aggregate \<^verbatim>\<open>decimal_sum\<close>, the collation
  and the registration.  The \<^verbatim>\<open>sqlite3_context\<close> is threaded as the result it holds.
\<close>

section \<open>From SQL values\<close>

text \<open>The 8 bytes of a blob, most significant first, as a word.\<close>

definition blob_double :: "byte list \<Rightarrow> double" where
  "blob_double x = foldl (\<lambda>v b. push_bit 8 v OR ucast b) 0 x"

definition decimal_new :: "sqlite3_api_routines \<Rightarrow> sql_result \<Rightarrow> sqlite3_value \<Rightarrow> bool \<Rightarrow>
    sql_result \<times> Decimal option" where
  "decimal_new api pCtx pIn bTextOnly =
     (let from_text =
            (case decimalNewFromText api (value_text api pIn) of
               None \<Rightarrow> (ResNomem, None)
             | Some p \<Rightarrow> (pCtx, Some p))
      in case pIn of
           SQLITE_TEXT z \<Rightarrow> from_text
         | SQLITE_INTEGER i \<Rightarrow> from_text
         | SQLITE_FLOAT r \<Rightarrow>
             if bTextOnly then from_text
             else (pCtx, decimalFromDouble api (value_double api pIn))
         | SQLITE_BLOB x \<Rightarrow>
             if bTextOnly then from_text
             else if length x \<noteq> 8 then (pCtx, None)
             else (pCtx, decimalFromDouble api (blob_double x))
         | SQLITE_NULL \<Rightarrow> (pCtx, None))"

section \<open>Scalar functions\<close>

definition decimalFunc :: "sqlite3_api_routines \<Rightarrow> bool \<Rightarrow> sqlite3_value list \<Rightarrow> sql_result" where
  "decimalFunc api user_data argv =
     (let (ctx, p) = decimal_new api ResNull (argv ! 0) False;
          N = (if length argv = 2 then value_int api (argv ! 1) else 0);
          p = (if length argv = 2 \<and> N > 0 then decimal_round api p N else p)
      in case p of
           None \<Rightarrow> ctx
         | Some _ \<Rightarrow>
             if user_data then decimal_result_sci api p N
             else fst (decimal_result api p))"

definition decimalCmpFunc :: "sqlite3_api_routines \<Rightarrow> sqlite3_value list \<Rightarrow> sql_result" where
  "decimalCmpFunc api argv =
     (let (ctx, pA) = decimal_new api ResNull (argv ! 0) True in
      case pA of
        None \<Rightarrow> ctx
      | Some A \<Rightarrow>
          if isNull A then ctx
          else
            let (ctx, pB) = decimal_new api ctx (argv ! 1) True in
            (case pB of
               None \<Rightarrow> ctx
             | Some B \<Rightarrow>
                 if isNull B then ctx
                 else
                   let rc = decimal_cmp A B in
                   ResInt (if rc < 0 then - 1 else if rc > 0 then 1 else rc)))"

definition decimalAddFunc :: "sqlite3_api_routines \<Rightarrow> sqlite3_value list \<Rightarrow> sql_result" where
  "decimalAddFunc api argv =
     (let (ctx, pA) = decimal_new api ResNull (argv ! 0) True;
          (ctx, pB) = decimal_new api ctx (argv ! 1) True;
          (pA, pB) = decimal_add api pA pB
      in fst (decimal_result api pA))"

definition decimalSubFunc :: "sqlite3_api_routines \<Rightarrow> sqlite3_value list \<Rightarrow> sql_result" where
  "decimalSubFunc api argv =
     (let (ctx, pA) = decimal_new api ResNull (argv ! 0) True;
          (ctx, pB) = decimal_new api ctx (argv ! 1) True
      in case pB of
           None \<Rightarrow> ctx
         | Some B \<Rightarrow>
             let (pA, pB) = decimal_add api pA (Some (B\<lparr>sign := \<not> sign B\<rparr>))
             in fst (decimal_result api pA))"

definition decimalMulFunc :: "sqlite3_api_routines \<Rightarrow> sqlite3_value list \<Rightarrow> sql_result" where
  "decimalMulFunc api argv =
     (let (ctx, pA) = decimal_new api ResNull (argv ! 0) True;
          (ctx, pB) = decimal_new api ctx (argv ! 1) True
      in case (pA, pB) of
           (Some A, Some B) \<Rightarrow>
             if oom A \<or> isNull A \<or> oom B \<or> isNull B then ctx
             else
               let pA = decimalMul api pA pB in
               if (case pA of None \<Rightarrow> False | Some A \<Rightarrow> oom A) then ctx
               else fst (decimal_result api pA)
         | _ \<Rightarrow> ctx)"

definition decimalPow2Func :: "sqlite3_api_routines \<Rightarrow> sqlite3_value list \<Rightarrow> sql_result" where
  "decimalPow2Func api argv =
     (case argv ! 0 of
        SQLITE_INTEGER i \<Rightarrow> decimal_result_sci api (decimalPow2 api (value_int api (argv ! 0))) 0
      | _ \<Rightarrow> ResNull)"

section \<open>The aggregate\<close>

text \<open>
  \<^verbatim>\<open>sqlite3_aggregate_context\<close>: the object of the aggregate, allocated and zeroed by the
  first call that asks for a positive size.
\<close>

definition zeroed :: Decimal where
  "zeroed = \<lparr>sign = False, oom = False, isNull = False, isInit = False, nDigit = 0, nFrac = 0, digits = []\<rparr>"

definition aggregate_context :: "sqlite3_api_routines \<Rightarrow> Decimal option \<Rightarrow> int \<Rightarrow> Decimal option" where
  "aggregate_context api agg n =
     (case agg of Some p \<Rightarrow> Some p
      | None \<Rightarrow> if n > 0 \<and> malloc64 api n then Some zeroed else None)"

definition decimalSumStep :: "sqlite3_api_routines \<Rightarrow> sqlite3_value \<Rightarrow> sql_result \<times> Decimal option \<Rightarrow>
    sql_result \<times> Decimal option" where
  "decimalSumStep api v s =
     (let (ctx, agg) = s in
      case aggregate_context api agg sizeof_Decimal of
        None \<Rightarrow> (ctx, None)
      | Some p \<Rightarrow>
          let p = (if \<not> isInit p then
                     (if \<not> malloc64 api 2
                      then p\<lparr>isInit := True, oom := True, nDigit := 1, nFrac := 0\<rparr>
                      else p\<lparr>isInit := True, digits := [0], nDigit := 1, nFrac := 0\<rparr>)
                   else p)
          in if v = SQLITE_NULL then (ctx, Some p)
             else
               let (ctx, pArg) = decimal_new api ctx v True
               in (ctx, fst (decimal_add api (Some p) pArg)))"

definition decimalSumInverse :: "sqlite3_api_routines \<Rightarrow> sqlite3_value \<Rightarrow> sql_result \<times> Decimal option \<Rightarrow>
    sql_result \<times> Decimal option" where
  "decimalSumInverse api v s =
     (let (ctx, agg) = s in
      case aggregate_context api agg sizeof_Decimal of
        None \<Rightarrow> (ctx, None)
      | Some p \<Rightarrow>
          if v = SQLITE_NULL then (ctx, Some p)
          else
            let (ctx, pArg) = decimal_new api ctx v True;
                pArg = map_option (\<lambda>a. a\<lparr>sign := \<not> sign a\<rparr>) pArg
            in (ctx, fst (decimal_add api (Some p) pArg)))"

definition decimalSumValue :: "sqlite3_api_routines \<Rightarrow> sql_result \<times> Decimal option \<Rightarrow> sql_result \<times> Decimal option" where
  "decimalSumValue api s =
     (let (ctx, agg) = s in
      case aggregate_context api agg 0 of
        None \<Rightarrow> (ctx, None)
      | Some p \<Rightarrow> decimal_result api (Some p))"

definition decimalSumFinalize :: "sqlite3_api_routines \<Rightarrow> sql_result \<times> Decimal option \<Rightarrow> sql_result" where
  "decimalSumFinalize api s =
     (let (ctx, agg) = s in
      case aggregate_context api agg 0 of
        None \<Rightarrow> ctx
      | Some p \<Rightarrow> fst (decimal_result api (Some p)))"

section \<open>Collation\<close>

definition decimalCollFunc :: "sqlite3_api_routines \<Rightarrow> string \<Rightarrow> string \<Rightarrow> int" where
  "decimalCollFunc api zA zB =
     (case (decimalNewFromText api (Some zA), decimalNewFromText api (Some zB)) of
        (Some pA, Some pB) \<Rightarrow> decimal_cmp pA pB
      | _ \<Rightarrow> 0)"

section \<open>Registration\<close>

abbreviation dec_reg :: "string \<Rightarrow> int \<Rightarrow> bool \<Rightarrow> string \<Rightarrow> registration" where
  "dec_reg nm n u f \<equiv> \<lparr>rg_kind = RegFunction, rg_name = nm, rg_nArg = n, rg_user = u, rg_func = f\<rparr>"

definition decimal_aFunc :: "registration list" where
  "decimal_aFunc =
     [dec_reg ''decimal'' 1 False ''decimalFunc'',
      dec_reg ''decimal'' 2 False ''decimalFunc'',
      dec_reg ''decimal_exp'' 1 True ''decimalFunc'',
      dec_reg ''decimal_exp'' 2 True ''decimalFunc'',
      dec_reg ''decimal_cmp'' 2 False ''decimalCmpFunc'',
      dec_reg ''decimal_add'' 2 False ''decimalAddFunc'',
      dec_reg ''decimal_sub'' 2 False ''decimalSubFunc'',
      dec_reg ''decimal_mul'' 2 False ''decimalMulFunc'',
      dec_reg ''decimal_pow2'' 1 False ''decimalPow2Func'']"

definition sqlite3_decimal_init :: "(registration \<Rightarrow> int) \<Rightarrow> connection \<Rightarrow> int \<times> connection" where
  "sqlite3_decimal_init rcs db =
     (let (rc, db) = create_all rcs decimal_aFunc db;
          (rc, db) = (if rc = SQLITE_OK
                      then create rcs \<lparr>rg_kind = RegWindow, rg_name = ''decimal_sum'', rg_nArg = 1, rg_user = False,
                                       rg_func = ''decimalSumStep''\<rparr> db
                      else (rc, db))
      in if rc = SQLITE_OK
         then create rcs \<lparr>rg_kind = RegCollation, rg_name = ''decimal'', rg_nArg = 0, rg_user = False,
                          rg_func = ''decimalCollFunc''\<rparr> db
         else (rc, db))"

section \<open>Arithmetic within bounds\<close>

text \<open>
  The contract between the arithmetic and its callers: a partial operation on
  representations, exact as long as the representations stay below a limit.  The
  environment (here the allocator) has to grant the requests the operation makes.
\<close>

locale bounded_op =
  fixes granted :: "'e \<Rightarrow> bool" and wf :: "'a \<Rightarrow> bool" and val :: "'a \<Rightarrow> rat" and size :: "'a \<Rightarrow> int"
    and opn :: "'e \<Rightarrow> 'a \<Rightarrow> 'a \<Rightarrow> 'a" and comb :: "rat \<Rightarrow> rat \<Rightarrow> rat" and limit :: int
  assumes opn_ok: "granted e \<Longrightarrow> wf a \<Longrightarrow> wf b \<Longrightarrow> size a + size b + 2 \<le> limit \<Longrightarrow>
      wf (opn e a b) \<and> val (opn e a b) = comb (val a) (val b) \<and> size (opn e a b) \<le> size a + size b + 2"
    and size_nonneg: "wf a \<Longrightarrow> 0 \<le> size a"
begin

lemma fold_opn:
  assumes "granted e" "wf a" "\<forall>b \<in> set bs. wf b" "size a + (\<Sum>b \<leftarrow> bs. size b + 2) \<le> limit"
  shows "wf (foldl (opn e) a bs) \<and> val (foldl (opn e) a bs) = foldl comb (val a) (map val bs) \<and>
    size (foldl (opn e) a bs) \<le> size a + (\<Sum>b \<leftarrow> bs. size b + 2)"
  using assms(2-)
proof (induction bs arbitrary: a)
  case (Cons b bs)
  have tail: "0 \<le> (\<Sum>b \<leftarrow> bs. size b + 2)"
    using Cons.prems(2) by (intro sum_list_nonneg) (fastforce dest: size_nonneg)
  then have ab: "wf (opn e a b)" "val (opn e a b) = comb (val a) (val b)" "size (opn e a b) \<le> size a + size b + 2"
    using opn_ok [OF assms(1) Cons.prems(1), of b] Cons.prems(2,3) by auto
  then show ?case using Cons.IH [OF ab(1)] Cons.prems(2,3) by auto
qed simp

end

definition dec_plus :: "sqlite3_api_routines \<Rightarrow> Decimal \<Rightarrow> Decimal \<Rightarrow> Decimal" where
  "dec_plus api A B = the (fst (decimal_add api (Some A) (Some B)))"

definition dec_times :: "sqlite3_api_routines \<Rightarrow> Decimal \<Rightarrow> Decimal \<Rightarrow> Decimal" where
  "dec_times api A B = the (decimalMul api (Some A) (Some B))"

lemma decimal_expand_oom:
  "mem_ok api \<Longrightarrow> 0 \<le> nd \<Longrightarrow> nd + 1 \<le> SQLITE_DECIMAL_MAX_DIGIT \<Longrightarrow> oom (decimal_expand api p nd nf) = oom p"
  by (auto simp: decimal_expand_def Let_def mem_ok_def)

lemma add_digits_oom [simp]: "oom (add_digits A B n) = oom A" "nDigit (add_digits A B n) = nDigit A"
  by (auto simp: add_digits_def Let_def)

lemma decimal_expand_nDigit:
  "nDigit (decimal_expand api p nd nf) = nd \<or> oom (decimal_expand api p nd nf)"
  by (auto simp: decimal_expand_def Let_def)

lemma decimal_add_progress:
  assumes "mem_ok api" "dec_wf A" "dec_wf B" "nDigit A + nDigit B + 2 \<le> SQLITE_DECIMAL_MAX_DIGIT"
  shows "\<exists>R S. decimal_add api (Some A) (Some B) = (Some R, S) \<and> \<not> oom R \<and> nDigit R \<le> nDigit A + nDigit B + 2"
proof -
  note a = dec_wfD [OF assms(2)] and b = dec_wfD [OF assms(3)]
  define nS where "nS = (if nDigit A - nFrac A \<noteq> 0 \<and> digits A ! 0 = 0 then nDigit A - nFrac A - 1 else nDigit A - nFrac A)"
  define s where "s = (if nS < nDigit B - nFrac B then nDigit B - nFrac B else nS)"
  define nf where "nf = (if nFrac A < nFrac B then nFrac B else nFrac A)"
  define nd where "nd = s + nf + 1"
  have nd: "0 \<le> nd" "nd \<le> nDigit A + nDigit B + 1" using a(3-5) b(3-5) by (auto simp: nd_def s_def nS_def nf_def)
  then have o: "\<not> oom (decimal_expand api A nd nf)" "\<not> oom (decimal_expand api B nd nf)"
    using decimal_expand_oom [OF assms(1)] assms(4) a(1) b(1) by auto
  then have "decimal_add api (Some A) (Some B) =
      (Some (add_digits (decimal_expand api A nd nf) (decimal_expand api B nd nf) nd), Some (decimal_expand api B nd nf))"
    using a(1,2) b(1,2)
    unfolding decimal_add_def option.case Let_def nS_def [symmetric] s_def [symmetric] nf_def [symmetric] nd_def [symmetric]
    by simp
  then show ?thesis using o(1) nd decimal_expand_nDigit [of api A nd nf] by auto
qed

interpretation dadd: bounded_op mem_ok dec_wf dec_val nDigit dec_plus "(+)" SQLITE_DECIMAL_MAX_DIGIT
proof
  fix e A B
  assume h: "mem_ok e" "dec_wf A" "dec_wf B" "nDigit A + nDigit B + 2 \<le> SQLITE_DECIMAL_MAX_DIGIT"
  then obtain R S where R: "decimal_add e (Some A) (Some B) = (Some R, S)" "\<not> oom R" "nDigit R \<le> nDigit A + nDigit B + 2"
    using decimal_add_progress by blast
  then show "dec_wf (dec_plus e A B) \<and> dec_val (dec_plus e A B) = dec_val A + dec_val B \<and>
      nDigit (dec_plus e A B) \<le> nDigit A + nDigit B + 2"
    using decimal_add_correct [OF h(2,3) R(1)] by (auto simp: dec_plus_def)
qed (rule dec_wfD(5))

interpretation dmul: bounded_op mem_ok dec_wf dec_val nDigit dec_times "(*)" SQLITE_DECIMAL_MAX_DIGIT
proof
  fix e A B
  assume h: "mem_ok e" "dec_wf A" "dec_wf B" "nDigit A + nDigit B + 2 \<le> SQLITE_DECIMAL_MAX_DIGIT"
  show "dec_wf (dec_times e A B) \<and> dec_val (dec_times e A B) = dec_val A * dec_val B \<and>
      nDigit (dec_times e A B) \<le> nDigit A + nDigit B + 2"
    by (rule decimalMul_progress [OF h(2,3,4,1)]) (simp add: dec_times_def)
qed (rule dec_wfD(5))

section \<open>Numbers as SQL values\<close>

text \<open>A text or an integer that denotes a number, with the length of its text.\<close>

definition sql_num :: "sqlite3_value \<Rightarrow> rat \<Rightarrow> bool" where
  "sql_num v x \<longleftrightarrow>
     (case v of SQLITE_TEXT z \<Rightarrow> plain_numeral z x
      | SQLITE_INTEGER i \<Rightarrow> x = of_int i
      | _ \<Rightarrow> False)"

definition sql_len :: "sqlite3_value \<Rightarrow> nat" where
  "sql_len v =
     (case v of SQLITE_TEXT z \<Rightarrow> length z
      | SQLITE_INTEGER i \<Rightarrow> length (fmt_int i)
      | _ \<Rightarrow> 0)"

lemma decimal_new_num:
  assumes "api_spec api" "mem_ok api" "sql_num v x" "sql_len v \<le> 8000000"
  obtains p where "\<And>ctx b. decimal_new api ctx v b = (ctx, Some p)" "dec_wf p" "dec_val p = x" "isInit p"
    "nDigit p \<le> int (sql_len v)" "cmp_normal p"
proof -
  obtain z where z: "value_text api v = Some z" "plain_numeral z x" "sql_len v = length z"
    "\<And>ctx b. decimal_new api ctx v b =
       (case decimalNewFromText api (Some z) of None \<Rightarrow> (ResNomem, None) | Some p \<Rightarrow> (ctx, Some p))"
  proof (cases v)
    case (SQLITE_TEXT y)
    then show thesis using that [of y] assms by (simp add: sql_num_def sql_len_def decimal_new_def api_spec_simps)
  next
    case (SQLITE_INTEGER i)
    then show thesis using that [of "fmt_int i"] assms fmt_int_numeral [of i]
      by (simp add: sql_num_def sql_len_def decimal_new_def api_spec_simps)
  qed (use assms(3) in \<open>simp_all add: sql_num_def\<close>)
  have "length z \<le> 8000000" using assms(4) z(3) by simp
  with z(2) assms(2) obtain p where p: "decimalNewFromText api (Some z) = Some p" "dec_wf p" "dec_val p = x" "isInit p"
    "nDigit p \<le> int (length z)" "cmp_normal p"
    by (rule newFromText_plain_progress)
  show thesis by (rule that [of p]) (use p z(3,4) in simp_all)
qed

lemma decimal_result_ok:
  assumes "dec_wf p" "mem_ok api" "nDigit p \<le> SQLITE_DECIMAL_MAX_DIGIT"
  shows "\<exists>t. fst (decimal_result api (Some p)) = ResText t \<and> plain_numeral t (dec_val p)"
proof -
  have "malloc64 api (nDigit p + 8)" using assms(2,3) dec_wfD(5) [OF assms(1)] by (simp add: mem_ok_def)
  then show ?thesis
    using decimal_result_correct [OF assms(1), of api] decimal_text_numeral by metis
qed

lemma flip_sign: "dec_wf p \<Longrightarrow> dec_wf (p\<lparr>sign := \<not> sign p\<rparr>) \<and> dec_val (p\<lparr>sign := \<not> sign p\<rparr>) = - dec_val p"
  by (auto simp: dec_wf_def dec_val_def dec_mant_def)

lemma decimal_plus_result:
  assumes "mem_ok api" "dec_wf A" "dec_wf B" "nDigit A + nDigit B + 2 \<le> SQLITE_DECIMAL_MAX_DIGIT"
  shows "\<exists>t. fst (decimal_result api (fst (decimal_add api (Some A) (Some B)))) = ResText t \<and>
    plain_numeral t (dec_val A + dec_val B)"
proof -
  obtain R S where R: "decimal_add api (Some A) (Some B) = (Some R, S)" "\<not> oom R" "nDigit R \<le> nDigit A + nDigit B + 2"
    using decimal_add_progress [OF assms] by blast
  then have "dec_wf R" "dec_val R = dec_val A + dec_val B"
    using decimal_add_correct [OF assms(2,3) R(1)] by auto
  with decimal_result_ok [of R api] R assms(1,4) show ?thesis by auto
qed

section \<open>Properties of the scalar functions\<close>

text \<open>
  C1: \<^verbatim>\<open>decimal_add(X,Y)\<close> and \<^verbatim>\<open>decimal_sub(X,Y)\<close> on texts or integers that denote the numbers
  \<open>x\<close> and \<open>y\<close> return a text that denotes exactly \<open>x + y\<close> and \<open>x - y\<close>, whatever the numbers of
  digits before and after the point, as long as the texts stay below half of the limit of ten
  million digits and memory is available.
\<close>

theorem decimal_add_sub_exact:
  assumes "api_spec api" "mem_ok api" "sql_num a x" "sql_num b y" "sql_len a \<le> 4000000" "sql_len b \<le> 4000000"
  shows "\<exists>s d. decimalAddFunc api [a, b] = ResText s \<and> plain_numeral s (x + y) \<and>
    decimalSubFunc api [a, b] = ResText d \<and> plain_numeral d (x - y)"
proof -
  obtain A where A: "\<And>ctx b. decimal_new api ctx a b = (ctx, Some A)" "dec_wf A" "dec_val A = x" "nDigit A \<le> int (sql_len a)"
    using decimal_new_num [OF assms(1,2,3)] assms(5) by auto
  obtain B where B: "\<And>ctx c. decimal_new api ctx b c = (ctx, Some B)" "dec_wf B" "dec_val B = y" "nDigit B \<le> int (sql_len b)"
    using decimal_new_num [OF assms(1,2,4)] assms(6) by auto
  let ?B = "B\<lparr>sign := \<not> sign B\<rparr>"
  have n: "nDigit A + nDigit B + 2 \<le> SQLITE_DECIMAL_MAX_DIGIT" using A(4) B(4) assms(5,6) by linarith
  have F: "decimalAddFunc api [a, b] = fst (decimal_result api (fst (decimal_add api (Some A) (Some B))))"
    "decimalSubFunc api [a, b] = fst (decimal_result api (fst (decimal_add api (Some A) (Some ?B))))"
    by (simp_all add: decimalAddFunc_def decimalSubFunc_def A(1) B(1) split_beta)
  show ?thesis
    unfolding F using decimal_plus_result [OF assms(2) A(2) B(2) n] decimal_plus_result [OF assms(2) A(2), of ?B] flip_sign [OF B(2)] n A(3) B(3)
    by auto
qed

theorem decimal_add_sub_exact_witness:
  "\<exists>s d. decimalAddFunc ref_api [SQLITE_TEXT ''2.0'', SQLITE_INTEGER 1] = ResText s \<and> plain_numeral s (2 + 1) \<and>
    decimalSubFunc ref_api [SQLITE_TEXT ''2.0'', SQLITE_INTEGER 1] = ResText d \<and> plain_numeral d (2 - 1)"
  by (rule decimal_add_sub_exact [OF api_spec_ref_api mem_ok_ref_api])
    (simp_all add: sql_num_def sql_len_def small_numerals fmt_int_def nat_digits.simps)

text \<open>
  C2: \<^verbatim>\<open>decimal_mul(X,Y)\<close> on texts or integers that denote \<open>x\<close> and \<open>y\<close> returns a text that
  denotes exactly \<open>x * y\<close>: no digit of the product is lost.
\<close>

theorem decimal_mul_exact:
  assumes "api_spec api" "mem_ok api" "sql_num a x" "sql_num b y" "sql_len a \<le> 4000000" "sql_len b \<le> 4000000"
  shows "\<exists>t. decimalMulFunc api [a, b] = ResText t \<and> plain_numeral t (x * y)"
proof -
  obtain A where A: "\<And>ctx b. decimal_new api ctx a b = (ctx, Some A)" "dec_wf A" "dec_val A = x" "nDigit A \<le> int (sql_len a)"
    using decimal_new_num [OF assms(1,2,3)] assms(5) by auto
  obtain B where B: "\<And>ctx c. decimal_new api ctx b c = (ctx, Some B)" "dec_wf B" "dec_val B = y" "nDigit B \<le> int (sql_len b)"
    using decimal_new_num [OF assms(1,2,4)] assms(6) by auto
  have n: "nDigit A + nDigit B + 2 \<le> SQLITE_DECIMAL_MAX_DIGIT" using A(4) B(4) assms(5,6) by linarith
  obtain R where R: "decimalMul api (Some A) (Some B) = Some R" "dec_wf R" "dec_val R = dec_val A * dec_val B"
    "nDigit R \<le> nDigit A + nDigit B + 2"
    by (rule decimalMul_progress [OF A(2) B(2) n assms(2)])
  have "decimalMulFunc api [a, b] = fst (decimal_result api (Some R))"
    using dec_wfD(1,2) [OF A(2)] dec_wfD(1,2) [OF B(2)] dec_wfD(1) [OF R(2)]
    by (simp add: decimalMulFunc_def A(1) B(1) R(1))
  moreover have "nDigit R \<le> SQLITE_DECIMAL_MAX_DIGIT" using R(4) n by linarith
  ultimately show ?thesis
    using decimal_result_ok [OF R(2) assms(2)] R(3) A(3) B(3) by auto
qed

theorem decimal_mul_exact_witness:
  "\<exists>t. decimalMulFunc ref_api [SQLITE_TEXT ''0.5'', SQLITE_INTEGER (- 7)] = ResText t \<and>
     plain_numeral t (1 / 2 * - 7)"
  by (rule decimal_mul_exact [OF api_spec_ref_api mem_ok_ref_api])
    (simp_all add: sql_num_def sql_len_def small_numerals fmt_int_def nat_digits.simps)

text \<open>
  \<^verbatim>\<open>decimal_cmp(X,Y)\<close> on two numerals without an exponent is \<open>- 1\<close>, \<open>0\<close> or \<open>1\<close> as the number of
  \<open>X\<close> is less than, equal to or greater than that of \<open>Y\<close>.
\<close>

theorem decimal_cmp_plain:
  assumes "api_spec api" "mem_ok api" "sql_num a x" "sql_num b y" "sql_len a \<le> 8000000" "sql_len b \<le> 8000000"
  shows "decimalCmpFunc api [a, b] = ResInt (if x < y then - 1 else if x = y then 0 else 1)"
proof -
  obtain A where A: "\<And>ctx b. decimal_new api ctx a b = (ctx, Some A)" "dec_wf A" "dec_val A = x" "cmp_normal A"
    using decimal_new_num [OF assms(1,2,3,5)] by metis
  obtain B where B: "\<And>ctx c. decimal_new api ctx b c = (ctx, Some B)" "dec_wf B" "dec_val B = y" "cmp_normal B"
    using decimal_new_num [OF assms(1,2,4,6)] by metis
  have "of_int (sgn (decimal_cmp A B)) = sgn (x - y)"
    using decimal_cmp_correct [OF A(2,4) B(2,4)] A(3) B(3) by simp
  then show ?thesis
    using dec_wfD(2) [OF A(2)] dec_wfD(2) [OF B(2)]
    by (auto simp: decimalCmpFunc_def A(1) B(1) Let_def sgn_if split: if_splits)
qed

theorem decimal_cmp_plain_witness:
  "decimalCmpFunc ref_api [SQLITE_TEXT ''0.5'', SQLITE_TEXT ''2.0''] = ResInt (if 1 / 2 < (2 :: rat) then - 1 else if 1 / 2 = (2 :: rat) then 0 else 1)"
  by (rule decimal_cmp_plain [OF api_spec_ref_api mem_ok_ref_api])
    (simp_all add: sql_num_def sql_len_def small_numerals)

lemma decimal_result_sci_ok:
  assumes "dec_wf p" "mem_ok api" "nDigit p \<le> SQLITE_DECIMAL_MAX_DIGIT"
  shows "\<exists>t. decimal_result_sci api (Some p) N = ResText t"
proof -
  note w = dec_wfD [OF assms(1)]
  obtain nZero nd nf where t: "sci_trim p (if N < 1 then 0 else N) = (nZero, nd, nf)" by (metis surj_pair)
  have "0 \<le> nd" "nd \<le> nDigit p" by (rule sci_trim_correct(3,5) [OF assms(1) t])+
  then have "malloc64 api (nd + 20)" using assms(2,3) by (simp add: mem_ok_def)
  then show ?thesis using w(1,2) by (auto simp: decimal_result_sci_def t Let_def)
qed

text \<open>
  C22: \<^verbatim>\<open>decimal(X)\<close> of a numeral, with or without an exponent, returns a numeral without an
  exponent that denotes the same number, and \<^verbatim>\<open>decimal\<close> of that text is accepted and denotes it
  again.
\<close>

theorem decimal_round_trip:
  assumes "api_spec api" "mem_ok api" "dec_numeral z v" "length z \<le> 8000000"
  shows "\<exists>t. decimalFunc api False [SQLITE_TEXT z] = ResText t \<and> plain_numeral t v \<and>
    (length t \<le> 8000000 \<longrightarrow> (\<exists>u. decimalFunc api False [SQLITE_TEXT t] = ResText u \<and> plain_numeral u v))"
proof -
  have step: "\<exists>t. decimalFunc api False [SQLITE_TEXT y] = ResText t \<and> plain_numeral t v"
    if y: "dec_numeral y v" "length y \<le> 8000000" for y
  proof -
    obtain p where p: "decimalNewFromText api (Some y) = Some p" using newFromText_progress [OF y(1) assms(2) y(2)] by blast
    note w = newFromText_value [OF y(1) p]
    then obtain t where "fst (decimal_result api (Some p)) = ResText t" "plain_numeral t v"
      using decimal_result_ok [of p api] assms(2) by auto
    moreover have "decimalFunc api False [SQLITE_TEXT y] = fst (decimal_result api (Some p))"
      using p assms(1) by (simp add: decimalFunc_def decimal_new_def api_spec_simps)
    ultimately show ?thesis by auto
  qed
  then obtain t where t: "decimalFunc api False [SQLITE_TEXT z] = ResText t" "plain_numeral t v"
    using assms(3,4) by blast
  then have "dec_numeral t v" by (simp add: plain_numeral_def)
  with t step show ?thesis by blast
qed

theorem decimal_round_trip_witness:
  "\<exists>t. decimalFunc ref_api False [SQLITE_TEXT ''0.5''] = ResText t \<and> plain_numeral t (1 / 2) \<and>
    (length t \<le> 8000000 \<longrightarrow> (\<exists>u. decimalFunc ref_api False [SQLITE_TEXT t] = ResText u \<and> plain_numeral u (1 / 2)))"
  by (rule decimal_round_trip [OF api_spec_ref_api mem_ok_ref_api])
    (use small_numerals(3) in \<open>simp_all add: plain_numeral_def\<close>)

text \<open>
  C4: \<^verbatim>\<open>decimal(X)\<close> of a finite floating point number prints the exact value of that number,
  without rounding; an 8-byte blob is read as the bits of the number.  Infinities and positive
  NaNs give NULL.
\<close>

theorem decimal_of_double_exact:
  assumes "api_spec api" "mem_ok api"
  shows "(dbl_finite r \<longrightarrow> (\<exists>t. decimalFunc api False [SQLITE_FLOAT r] = ResText t \<and> plain_numeral t (double_val r))) \<and>
    (dbl_finite (blob_double x) \<and> length x = 8 \<longrightarrow>
      (\<exists>t. decimalFunc api False [SQLITE_BLOB x] = ResText t \<and> plain_numeral t (double_val (blob_double x)))) \<and>
    (\<not> dbl_finite r \<and> \<not> (dbl_nan r \<and> dbl_neg r) \<longrightarrow> decimalFunc api False [SQLITE_FLOAT r] = ResNull)"
proof (intro conjI impI)
  have ok: "\<exists>p t. decimalFromDouble api r = Some p \<and> fst (decimal_result api (Some p)) = ResText t \<and>
      plain_numeral t (double_val r)" if fin: "dbl_finite r" for r
  proof -
    obtain p where p: "decimalFromDouble api r = Some p" "dec_wf p" "dec_val p = double_val r" "nDigit p \<le> 300000"
      by (rule decimalFromDouble_correct [OF assms fin])
    with decimal_result_ok [OF p(2) assms(2)] show ?thesis by auto
  qed
  show "\<exists>t. decimalFunc api False [SQLITE_FLOAT r] = ResText t \<and> plain_numeral t (double_val r)" if "dbl_finite r"
    using ok [OF that] assms(1) by (fastforce simp: decimalFunc_def decimal_new_def api_spec_simps)
  show "\<exists>t. decimalFunc api False [SQLITE_BLOB x] = ResText t \<and> plain_numeral t (double_val (blob_double x))"
    if "dbl_finite (blob_double x) \<and> length x = 8"
    using ok [of "blob_double x"] that by (fastforce simp: decimalFunc_def decimal_new_def)
  show "decimalFunc api False [SQLITE_FLOAT r] = ResNull" if "\<not> dbl_finite r \<and> \<not> (dbl_nan r \<and> dbl_neg r)"
    using that assms(1) double_parts_infinite [of r]
    by (simp add: decimalFunc_def decimal_new_def decimalFromDouble_def api_spec_simps)
qed

theorem decimal_of_double_exact_witness:
  "\<exists>t. decimalFunc ref_api False [SQLITE_FLOAT 0x3fb999999999999a] = ResText t \<and>
     plain_numeral t (double_val 0x3fb999999999999a)"
proof -
  have u: "uint (0x3fb999999999999a :: double) = 0x3fb999999999999a" by (simp add: take_bit_eq_mod)
  have "dbl_finite 0x3fb999999999999a" unfolding dbl_finite_def dbl_exp_def u by simp
  with decimal_of_double_exact [OF api_spec_ref_api mem_ok_ref_api, of "0x3fb999999999999a"] show ?thesis by blast
qed

text \<open>
  \<^verbatim>\<open>decimal_pow2(N)\<close> for \<open>\<bar>N\<bar> \<le> 20000\<close> prints, in scientific notation, exactly the \<open>N\<close>-th power
  of two, and reports an error for every other 32-bit \<open>N\<close>.
\<close>

theorem decimal_pow2_exact:
  assumes "api_spec api" "mem_ok api" "- (2 ^ 31) \<le> N" "N < 2 ^ 31"
  shows "if \<bar>N\<bar> \<le> 20000
    then \<exists>t. decimalPow2Func api [SQLITE_INTEGER N] = ResText t \<and> dec_numeral t (2 powi N)
    else decimalPow2Func api [SQLITE_INTEGER N] = ResNomem"
proof -
  have F: "decimalPow2Func api [SQLITE_INTEGER N] = decimal_result_sci api (decimalPow2 api N) 0"
    using value_int_small [OF assms(1,3,4)] by (simp add: decimalPow2Func_def)
  show ?thesis
  proof (cases "\<bar>N\<bar> \<le> 20000")
    case True
    then have N: "- 20000 \<le> N" "N \<le> 20000" by auto
    obtain R where R: "decimalPow2 api N = Some R" "dec_wf R" "dec_val R = 2 powi N" "nDigit R \<le> 200000"
      by (rule decimalPow2_correct [OF assms(2) N])
    obtain t where t: "decimal_result_sci api (Some R) 0 = ResText t"
      using decimal_result_sci_ok [OF R(2) assms(2)] R(4) by auto
    have "dec_numeral t (2 powi N)"
      using decimal_result_sci_correct [OF R(2) assms(1) _ t] R(3,4) by simp
    then show ?thesis unfolding if_P [OF True] F R(1) using t by blast
  next
    case False
    then have "decimalPow2 api N = None" by (auto simp: decimalPow2_def)
    then show ?thesis unfolding if_not_P [OF False] F by (simp add: decimal_result_sci_def)
  qed
qed

theorem decimal_pow2_exact_witness:
  "if \<bar>- 3 :: int\<bar> \<le> 20000
    then \<exists>t. decimalPow2Func ref_api [SQLITE_INTEGER (- 3)] = ResText t \<and> dec_numeral t (2 powi (- 3))
    else decimalPow2Func ref_api [SQLITE_INTEGER (- 3)] = ResNomem"
  by (rule decimal_pow2_exact [OF api_spec_ref_api mem_ok_ref_api]) simp_all

end
