(* ===== verification/Generate_Series.thy ===== *)
theory Generate_Series
  imports Sqlite_Api Ieee
begin

text \<open>
  The virtual table \<^verbatim>\<open>generate_series\<close> of \<^verbatim>\<open>mvsqlite-pgtypes-ext/series.c\<close>: the cursor, its
  methods, and the filter that turns the constraints of a query into the arithmetic
  progression the cursor walks.  64-bit integers are \<^typ>\<open>int\<close> with the wrap-around of
  \<^const>\<open>to_s64\<close> and \<^const>\<open>to_u64\<close> written where the code has it.
\<close>

section \<open>The cursor\<close>

record series_cursor =
  iOBase :: int
  iOTerm :: int
  iOStep :: int
  iBase :: int
  iTerm :: int
  iStep :: int
    \<comment> \<open>unsigned\<close>
  iValue :: int
  bDesc :: bool
  bDone :: bool

abbreviation LARGEST_INT64 :: int where "LARGEST_INT64 \<equiv> 2 ^ 63 - 1"
abbreviation SMALLEST_INT64 :: int where "SMALLEST_INT64 \<equiv> - (2 ^ 63)"

definition span64 :: "int \<Rightarrow> int \<Rightarrow> int" where
  "span64 a b = to_u64 (to_u64 a - to_u64 b)"

definition add64 :: "int \<Rightarrow> int \<Rightarrow> int" where
  "add64 a b = to_s64 (to_u64 (to_u64 a + b))"

definition sub64 :: "int \<Rightarrow> int \<Rightarrow> int" where
  "sub64 a b = to_s64 (to_u64 (to_u64 a - b))"

text \<open>The constructors: the code returned and the object, zeroed.\<close>

definition seriesConnect :: "sqlite3_api_routines \<Rightarrow> int \<Rightarrow> int \<times> bool" where
  "seriesConnect api declare_rc =
     (if declare_rc = SQLITE_OK
      then if \<not> malloc64 api 24 then (SQLITE_NOMEM, False) else (SQLITE_OK, True)
      else (declare_rc, False))"

definition zeroed_cursor :: series_cursor where
  "zeroed_cursor = \<lparr>iOBase = 0, iOTerm = 0, iOStep = 0, iBase = 0, iTerm = 0, iStep = 0, iValue = 0,
     bDesc = False, bDone = False\<rparr>"

definition seriesOpen :: "sqlite3_api_routines \<Rightarrow> int \<times> series_cursor option" where
  "seriesOpen api =
     (if \<not> malloc64 api 72 then (SQLITE_NOMEM, None) else (SQLITE_OK, Some zeroed_cursor))"

definition seriesNext :: "series_cursor \<Rightarrow> series_cursor" where
  "seriesNext pCur =
     (if iValue pCur = iTerm pCur then pCur\<lparr>bDone := True\<rparr>
      else if bDesc pCur then pCur\<lparr>iValue := sub64 (iValue pCur) (iStep pCur)\<rparr>
      else pCur\<lparr>iValue := add64 (iValue pCur) (iStep pCur)\<rparr>)"

text \<open>Columns: 1, 2 and 3 are the hidden parameters, every other one is the value.\<close>

definition seriesColumn :: "series_cursor \<Rightarrow> int \<Rightarrow> sql_result" where
  "seriesColumn pCur i =
     ResInt (if i = 1 then iOBase pCur else if i = 2 then iOTerm pCur
             else if i = 3 then iOStep pCur else iValue pCur)"

definition seriesRowid :: "series_cursor \<Rightarrow> int" where
  "seriesRowid pCur = iValue pCur"

definition seriesEof :: "series_cursor \<Rightarrow> bool" where
  "seriesEof pCur = bDone pCur"

definition seriesSteps :: "series_cursor \<Rightarrow> int" where
  "seriesSteps pCur =
     (if bDesc pCur then span64 (iBase pCur) (iTerm pCur) div iStep pCur
      else span64 (iTerm pCur) (iBase pCur) div iStep pCur)"

section \<open>Floating point bounds\<close>

text \<open>The number a double denotes, with the infinities; a NaN compares with nothing.\<close>

datatype dnum = NInf | Fin rat | PInf | NaN

definition dbl_num :: "double \<Rightarrow> dnum" where
  "dbl_num r =
     (if dbl_finite r then Fin (double_val r) else if dbl_nan r then NaN
      else if dbl_neg r then NInf else PInf)"

fun dnum_le :: "dnum \<Rightarrow> dnum \<Rightarrow> bool" where
  "dnum_le NaN _ = False"
| "dnum_le _ NaN = False"
| "dnum_le NInf _ = True"
| "dnum_le _ PInf = True"
| "dnum_le (Fin x) (Fin y) = (x \<le> y)"
| "dnum_le _ _ = False"

definition dnum_less :: "dnum \<Rightarrow> dnum \<Rightarrow> bool" where
  "dnum_less x y \<longleftrightarrow> dnum_le x y \<and> \<not> dnum_le y x"

definition dnum_eq :: "dnum \<Rightarrow> dnum \<Rightarrow> bool" where
  "dnum_eq x y \<longleftrightarrow> dnum_le x y \<and> dnum_le y x"

fun seriesCeil :: "dnum \<Rightarrow> dnum" where
  "seriesCeil (Fin x) = Fin (of_int \<lceil>x\<rceil>)"
| "seriesCeil r = r"

fun seriesFloor :: "dnum \<Rightarrow> dnum" where
  "seriesFloor (Fin x) = Fin (of_int \<lfloor>x\<rfloor>)"
| "seriesFloor r = r"

text \<open>The cast to an integer truncates; it is not reached by an infinity, nor by a NaN in the code below.\<close>

definition seriesRealToI64 :: "dnum \<Rightarrow> int" where
  "seriesRealToI64 r =
     (if dnum_less r (Fin (- 9223372036854774784)) then SMALLEST_INT64
      else if dnum_less (Fin 9223372036854774784) r then LARGEST_INT64
      else case r of Fin x \<Rightarrow> if 0 \<le> x then \<lfloor>x\<rfloor> else \<lceil>x\<rceil> | _ \<Rightarrow> SMALLEST_INT64)"

abbreviation d_SMALLEST :: dnum where "d_SMALLEST \<equiv> Fin (- (2 ^ 63))"
abbreviation d_LARGEST :: dnum where "d_LARGEST \<equiv> Fin (2 ^ 63)"

section \<open>The filter\<close>

text \<open>
  \<open>Inl\<close> is the jump to \<^verbatim>\<open>series_no_rows\<close>, with the cursor as it is then; \<open>Inr\<close> continues.
  The arguments not yet read are a list.
\<close>

type_synonym 'a flow = "series_cursor + 'a"

fun andthen :: "'a flow \<Rightarrow> ('a \<Rightarrow> 'b flow) \<Rightarrow> 'b flow" where
  "andthen (Inl c) k = Inl c"
| "andthen (Inr x) k = k x"

definition has :: "int \<Rightarrow> int \<Rightarrow> bool" where
  "has idxNum m \<longleftrightarrow> idxNum AND m \<noteq> 0"

text \<open>The three hidden parameters, with the defaults for those that are not given.\<close>

definition filter_read :: "sqlite3_api_routines \<Rightarrow> int \<Rightarrow> sqlite3_value list \<Rightarrow> int \<times> int \<times> int \<times> sqlite3_value list" where
  "filter_read api idxNum argv =
     (let (base, argv) = (if has idxNum 0x01 then (value_int64 api (hd argv), tl argv) else (0, argv));
          (term, argv) = (if has idxNum 0x02 then (value_int64 api (hd argv), tl argv) else (0xffffffff, argv));
          (step, argv) = (if has idxNum 0x04 then
                            let s = value_int64 api (hd argv) in (if s = 0 then 1 else s, tl argv)
                          else (1, argv));
          base = (if \<not> has idxNum 0x05 \<and> has idxNum 0x0380 then SMALLEST_INT64 else base);
          term = (if \<not> has idxNum 0x06 \<and> has idxNum 0x3080 then LARGEST_INT64 else term)
      in (base, term, step, argv))"

definition filter_params :: "sqlite3_api_routines \<Rightarrow> int \<Rightarrow> sqlite3_value list \<Rightarrow> series_cursor \<Rightarrow>
    (series_cursor \<times> sqlite3_value list) flow" where
  "filter_params api idxNum argv pCur =
     (let (base, term, step, argv) = filter_read api idxNum argv;
          pCur = pCur\<lparr>iOBase := base, iOTerm := term, iOStep := step\<rparr>;
          pCur = pCur\<lparr>iBase := iOBase pCur, iTerm := iOTerm pCur,
                      iStep := (if iOStep pCur > 0 then iOStep pCur
                                else if iOStep pCur > SMALLEST_INT64 then - iOStep pCur
                                else LARGEST_INT64 + 1),
                      bDesc := (iOStep pCur < 0)\<rparr>
      in if \<not> bDesc pCur \<and> iBase pCur > iTerm pCur then Inl pCur
         else if bDesc pCur \<and> iBase pCur < iTerm pCur then Inl pCur
         else Inr (pCur, argv))"

definition filter_limits :: "sqlite3_api_routines \<Rightarrow> int \<Rightarrow> sqlite3_value list \<Rightarrow> int \<times> int \<times> sqlite3_value list" where
  "filter_limits api idxNum argv =
     (if has idxNum 0x20 then
        let iLimit = value_int64 api (hd argv); argv = tl argv
        in if has idxNum 0x40 then (iLimit, value_int64 api (hd argv), tl argv)
           else (iLimit, 0, argv)
      else (0, 0, argv))"

text \<open>The lower and the upper bound a constraint on the value sets; \<open>None\<close> is \<^verbatim>\<open>series_no_rows\<close>.\<close>

definition bound_eq :: "sqlite3_api_routines \<Rightarrow> sqlite3_value \<Rightarrow> int option" where
  "bound_eq api v =
     (if value_numeric_is_float api v then
        let r = dbl_num (value_double api v) in
        if dnum_eq r (seriesCeil r) \<and> dnum_le d_SMALLEST r \<and> dnum_le r d_LARGEST
        then Some (seriesRealToI64 r) else None
      else Some (value_int64 api v))"

definition bound_min :: "sqlite3_api_routines \<Rightarrow> bool \<Rightarrow> sqlite3_value \<Rightarrow> int option" where
  "bound_min api strict v =
     (if value_numeric_is_float api v then
        let r = dbl_num (value_double api v) in
        if dnum_le r d_SMALLEST then Some SMALLEST_INT64
        else if dnum_less d_LARGEST r then None
        else
          let iMin = seriesRealToI64 (seriesCeil r) in
          if strict \<and> dnum_eq r (seriesCeil r)
          then if iMin = LARGEST_INT64 then None else Some (iMin + 1)
          else Some iMin
      else
        let iMin = value_int64 api v in
        if strict then if iMin = LARGEST_INT64 then None else Some (iMin + 1)
        else Some iMin)"

definition bound_max :: "sqlite3_api_routines \<Rightarrow> bool \<Rightarrow> sqlite3_value \<Rightarrow> int option" where
  "bound_max api strict v =
     (if value_numeric_is_float api v then
        let r = dbl_num (value_double api v) in
        if dnum_le d_LARGEST r then Some LARGEST_INT64
        else if dnum_le r d_SMALLEST then None
        else
          let iMax = seriesRealToI64 (seriesFloor r) in
          if strict \<and> dnum_eq r (seriesFloor r)
          then if iMax = SMALLEST_INT64 then None else Some (iMax - 1)
          else Some iMax
      else
        let iMax = value_int64 api v in
        if strict then if iMax = SMALLEST_INT64 then None else Some (iMax - 1)
        else Some iMax)"

definition filter_bounds :: "sqlite3_api_routines \<Rightarrow> int \<Rightarrow> sqlite3_value list \<Rightarrow> (int \<times> int) option" where
  "filter_bounds api idxNum argv =
     (if has idxNum 0x0080 then
        (case bound_eq api (hd argv) of None \<Rightarrow> None | Some x \<Rightarrow> Some (x, x))
      else
        case (if has idxNum 0x0300 then bound_min api (has idxNum 0x0200) (hd argv) else Some SMALLEST_INT64) of
          None \<Rightarrow> None
        | Some iMin \<Rightarrow>
            (case (if has idxNum 0x3000
                   then bound_max api (has idxNum 0x2000) (if has idxNum 0x0300 then hd (tl argv) else hd argv)
                   else Some LARGEST_INT64) of
               None \<Rightarrow> None
             | Some iMax \<Rightarrow> if iMin > iMax then None else Some (iMin, iMax)))"

text \<open>Reducing the range to the bounds.\<close>

definition filter_narrow :: "int \<Rightarrow> int \<Rightarrow> series_cursor \<Rightarrow> series_cursor flow" where
  "filter_narrow iMin iMax pCur =
     (if \<not> bDesc pCur then
        andthen
          (if iBase pCur < iMin then
             let span = span64 iMin (iBase pCur);
                 pCur = pCur\<lparr>iBase := add64 (iBase pCur) (to_u64 (span div iStep pCur * iStep pCur))\<rparr>
             in if iBase pCur < iMin then
                  if iBase pCur > sub64 LARGEST_INT64 (iStep pCur) then Inl pCur
                  else Inr (pCur\<lparr>iBase := add64 (iBase pCur) (iStep pCur)\<rparr>)
                else Inr pCur
           else Inr pCur)
          (\<lambda>pCur. Inr (if iTerm pCur > iMax then pCur\<lparr>iTerm := iMax\<rparr> else pCur))
      else
        andthen
          (if iBase pCur > iMax then
             let span = span64 (iBase pCur) iMax;
                 pCur = pCur\<lparr>iBase := sub64 (iBase pCur) (to_u64 (span div iStep pCur * iStep pCur))\<rparr>
             in if iBase pCur > iMax then
                  if iBase pCur < add64 SMALLEST_INT64 (iStep pCur) then Inl pCur
                  else Inr (pCur\<lparr>iBase := sub64 (iBase pCur) (iStep pCur)\<rparr>)
                else Inr pCur
           else Inr pCur)
          (\<lambda>pCur. Inr (if iTerm pCur < iMin then pCur\<lparr>iTerm := iMin\<rparr> else pCur)))"

text \<open>The last value of the series exactly.\<close>

definition filter_last :: "series_cursor \<Rightarrow> series_cursor flow" where
  "filter_last pCur =
     (if \<not> bDesc pCur then
        if iBase pCur > iTerm pCur then Inl pCur
        else Inr (pCur\<lparr>iTerm := sub64 (iTerm pCur) (span64 (iTerm pCur) (iBase pCur) mod iStep pCur)\<rparr>)
      else
        if iBase pCur < iTerm pCur then Inl pCur
        else Inr (pCur\<lparr>iTerm := add64 (iTerm pCur) (span64 (iBase pCur) (iTerm pCur) mod iStep pCur)\<rparr>))"

text \<open>The requested order.\<close>

definition filter_order :: "int \<Rightarrow> series_cursor \<Rightarrow> series_cursor" where
  "filter_order idxNum pCur =
     (if (has idxNum 0x0008 \<and> \<not> bDesc pCur) \<or> (has idxNum 0x0010 \<and> bDesc pCur)
      then pCur\<lparr>iBase := iTerm pCur, iTerm := iBase pCur, bDesc := \<not> bDesc pCur\<rparr>
      else pCur)"

definition filter_window :: "int \<Rightarrow> int \<Rightarrow> int \<Rightarrow> series_cursor \<Rightarrow> series_cursor flow" where
  "filter_window idxNum iLimit iOffset pCur =
     (if has idxNum 0x20 then
        andthen
          (if iOffset > 0 then
             if seriesSteps pCur < to_u64 iOffset then Inl pCur
             else if bDesc pCur
             then Inr (pCur\<lparr>iBase := sub64 (iBase pCur) (to_u64 (iStep pCur * iOffset))\<rparr>)
             else Inr (pCur\<lparr>iBase := add64 (iBase pCur) (to_u64 (iStep pCur * iOffset))\<rparr>)
           else Inr pCur)
          (\<lambda>pCur. Inr (if iLimit \<ge> 0 \<and> seriesSteps pCur > to_u64 iLimit
                       then pCur\<lparr>iTerm := add64 (iBase pCur) (to_u64 ((iLimit - 1) * iStep pCur))\<rparr>
                       else pCur))
      else Inr pCur)"

definition series_no_rows :: "series_cursor \<Rightarrow> series_cursor" where
  "series_no_rows pCur = pCur\<lparr>iBase := 0, iTerm := 0, iStep := 1, bDesc := False, bDone := True\<rparr>"

definition seriesFilter :: "sqlite3_api_routines \<Rightarrow> int \<Rightarrow> sqlite3_value list \<Rightarrow> series_cursor \<Rightarrow> series_cursor" where
  "seriesFilter api idxNum argv pCur =
     (case
        andthen (if SQLITE_NULL \<in> set argv then Inl pCur else Inr ()) (\<lambda>_.
        andthen (filter_params api idxNum argv pCur) (\<lambda>(pCur, argv).
          let (iLimit, iOffset, argv) = filter_limits api idxNum argv in
          andthen
            (if has idxNum 0x3380 then
               (case filter_bounds api idxNum argv of
                  None \<Rightarrow> Inl pCur
                | Some (iMin, iMax) \<Rightarrow> filter_narrow iMin iMax pCur)
             else Inr pCur) (\<lambda>pCur.
          andthen (filter_last pCur) (\<lambda>pCur.
          andthen (filter_window idxNum iLimit iOffset (filter_order idxNum pCur)) (\<lambda>pCur.
            Inr (pCur\<lparr>iValue := iBase pCur, bDone := False\<rparr>))))))
      of Inl pCur \<Rightarrow> series_no_rows pCur | Inr pCur \<Rightarrow> pCur)"

end
