(* ===== verification/Series_Scan.thy ===== *)
theory Series_Scan
  imports Generate_Series
begin

text \<open>
  What a scan of \<^verbatim>\<open>generate_series\<close> returns: the values of the arithmetic progression that
  the constraints admit, in the requested order, and the end after the last of them.
\<close>

section \<open>Arithmetic at 64 bits\<close>

lemma add64_eq: "add64 a b = to_s64 (a + b)"
  by (simp add: add64_def wrap_simps)

lemma sub64_eq: "sub64 a b = to_s64 (a - b)"
  by (simp add: sub64_def wrap_simps)

lemma add64_id: "s64 (a + b) \<Longrightarrow> add64 a b = a + b"
  by (simp add: add64_eq to_s64_id)

lemma sub64_id: "s64 (a - b) \<Longrightarrow> sub64 a b = a - b"
  by (simp add: sub64_eq to_s64_id)

lemma span64_id: "s64 a \<Longrightarrow> s64 b \<Longrightarrow> b \<le> a \<Longrightarrow> span64 a b = a - b"
  by (simp add: span64_def to_u64_def mod_diff_eq s64_def)

section \<open>Progressions\<close>

definition ap :: "int \<Rightarrow> int \<Rightarrow> nat \<Rightarrow> int list" where
  "ap b s n = map (\<lambda>k. b + s * int k) [0..<n]"

text \<open>The progression from \<open>b\<close> in steps of \<open>s\<close> as long as \<open>t\<close> is not passed.\<close>

definition series_list :: "int \<Rightarrow> int \<Rightarrow> int \<Rightarrow> int list" where
  "series_list b t s =
     (if s > 0 then (if b \<le> t then ap b s (Suc (nat ((t - b) div s))) else [])
      else (if t \<le> b then ap b s (Suc (nat ((b - t) div (- s)))) else []))"

lemma ap_Suc: "ap b s (Suc n) = b # ap (b + s) s n"
proof (rule nth_equalityI)
  fix i assume "i < length (ap b s (Suc n))"
  then show "ap b s (Suc n) ! i = (b # ap (b + s) s n) ! i"
    by (cases i) (auto simp: ap_def algebra_simps simp del: upt_Suc)
qed (simp add: ap_def)

lemma ap_uminus: "ap b (- s) n = map uminus (ap (- b) s n)"
  by (simp add: ap_def)

lemma series_list_uminus: "0 < s \<Longrightarrow> series_list b t (- s) = map uminus (series_list (- b) (- t) s)"
  by (simp add: series_list_def ap_uminus [of b s])

lemma set_series_list:
  assumes "0 < s"
  shows "v \<in> set (series_list b t s) \<longleftrightarrow> b \<le> v \<and> v \<le> t \<and> s dvd v - b"
proof (cases "b \<le> t")
  case True
  have "(\<exists>k < Suc (nat ((t - b) div s)). v = b + s * int k) \<longleftrightarrow> b \<le> v \<and> v \<le> t \<and> s dvd v - b"
  proof
    assume "\<exists>k < Suc (nat ((t - b) div s)). v = b + s * int k"
    then obtain k where k: "k < Suc (nat ((t - b) div s))" "v = b + s * int k" by blast
    then have "int k \<le> (t - b) div s" using True assms pos_imp_zdiv_nonneg_iff [of s "t - b"] by linarith
    then have "s * int k \<le> s * ((t - b) div s)" using assms by (intro mult_left_mono) auto
    also have "\<dots> \<le> t - b" using assms by (metis mult.commute mult_div_mod_eq pos_mod_sign le_add_same_cancel1 add.commute)
    finally show "b \<le> v \<and> v \<le> t \<and> s dvd v - b" using k assms by simp
  next
    assume h: "b \<le> v \<and> v \<le> t \<and> s dvd v - b"
    then obtain j where j: "v - b = s * j" by (elim conjE dvdE)
    have "0 \<le> j" using j h assms by (metis diff_ge_0_iff_ge zero_le_mult_iff not_less)
    moreover have "j \<le> (t - b) div s" using j h assms by (metis diff_right_mono nonzero_mult_div_cancel_left less_numeral_extra(3) zdiv_mono1)
    ultimately show "\<exists>k < Suc (nat ((t - b) div s)). v = b + s * int k"
      using j by (intro exI [of _ "nat j"]) auto
  qed
  then show ?thesis using True assms by (auto simp: series_list_def ap_def)
qed (use assms in \<open>auto simp: series_list_def\<close>)

lemma sorted_series_list:
  assumes "0 < s"
  shows "sorted (series_list b t s)" "distinct (series_list b t s)"
proof -
  have "sorted (ap b s n) \<and> distinct (ap b s n)" for n
    using assms by (auto simp: ap_def sorted_iff_nth_mono distinct_conv_nth mult_left_mono)
  then show "sorted (series_list b t s)" "distinct (series_list b t s)"
    by (auto simp: series_list_def)
qed

lemma series_list_eqI:
  assumes "0 < s" "sorted xs" "distinct xs" "\<And>v. v \<in> set xs \<longleftrightarrow> b \<le> v \<and> v \<le> t \<and> s dvd v - b"
  shows "series_list b t s = xs"
  using assms sorted_series_list [OF assms(1), of b t] set_series_list [OF assms(1), of _ b t]
  by (intro sorted_distinct_set_unique) auto

section \<open>The cursor walks a progression\<close>

text \<open>The signed step, and the rows a cursor has yet to return.\<close>

definition dir :: "series_cursor \<Rightarrow> int" where
  "dir c = (if bDesc c then - iStep c else iStep c)"

definition remaining :: "series_cursor \<Rightarrow> int list" where
  "remaining c = (if bDone c then [] else series_list (iValue c) (iTerm c) (dir c))"

text \<open>
  The invariant of a cursor that is positioned: its values fit in 64 bits, and the terminal
  value is one of the series, at or ahead of the current one.
\<close>

definition cursor_ok :: "series_cursor \<Rightarrow> bool" where
  "cursor_ok c \<longleftrightarrow> bDone c \<or>
     (s64 (iValue c) \<and> s64 (iTerm c) \<and> 0 < iStep c \<and> iStep c dvd iTerm c - iValue c \<and>
      (if bDesc c then iTerm c \<le> iValue c else iValue c \<le> iTerm c))"

lemma series_list_step:
  assumes "0 < s" "b < t" "s dvd t - b"
  shows "b + s \<le> t" "s dvd t - (b + s)" "series_list b t s = b # series_list (b + s) t s"
proof -
  obtain k where k: "t - b = s * k" using assms(3) by blast
  then have "0 < k" using assms(1,2) by (metis diff_gt_0_iff_gt zero_less_mult_pos)
  then have "s * 1 \<le> s * k" using assms(1) by (intro mult_left_mono) auto
  then show le: "b + s \<le> t" using k by simp
  have "s * (k - 1) = s * k - s" by (simp add: right_diff_distrib)
  with k have e: "t - (b + s) = s * (k - 1)" by linarith
  then show "s dvd t - (b + s)" by (metis dvd_triv_left)
  have "(t - (b + s)) div s = k - 1" "(t - b) div s = k" using assms(1) unfolding e k by simp_all
  moreover have "nat k = Suc (nat (k - 1))" using \<open>0 < k\<close> by simp
  ultimately show "series_list b t s = b # series_list (b + s) t s"
    using assms(1,2) le by (simp add: series_list_def ap_Suc [of b])
qed

lemma series_list_single: "s \<noteq> 0 \<Longrightarrow> series_list b b s = [b]"
  by (simp add: series_list_def ap_def)

lemma series_list_ne: "0 < s \<Longrightarrow> b \<le> t \<Longrightarrow> series_list b t s \<noteq> []"
  by (simp add: series_list_def ap_def)

interpretation gs: vtab_cursor seriesEof seriesNext "\<lambda>c. seriesColumn c 0" cursor_ok "\<lambda>c. map ResInt (remaining c)"
proof
  fix c assume ok: "cursor_ok c"
  show "seriesEof c \<longleftrightarrow> map ResInt (remaining c) = []"
  proof (cases "bDone c")
    case False
    with ok have "remaining c \<noteq> []"
      using series_list_ne [of "iStep c" "iValue c" "iTerm c"] series_list_ne [of "iStep c" "- iValue c" "- iTerm c"]
      by (auto simp: cursor_ok_def remaining_def dir_def series_list_uminus)
    with False show ?thesis by (simp add: seriesEof_def)
  qed (simp add: seriesEof_def remaining_def)
next
  fix c assume ok: "cursor_ok c" and ne: "\<not> seriesEof c"
  then have nd: "\<not> bDone c" and f: "s64 (iValue c)" "s64 (iTerm c)" "0 < iStep c" "iStep c dvd iTerm c - iValue c"
    "if bDesc c then iTerm c \<le> iValue c else iValue c \<le> iTerm c"
    by (auto simp: cursor_ok_def seriesEof_def)
  show "map ResInt (remaining c) = seriesColumn c 0 # map ResInt (remaining (seriesNext c))"
    and "cursor_ok (seriesNext c)"
  proof -
    consider (last) "iValue c = iTerm c" | (up) "iValue c \<noteq> iTerm c" "\<not> bDesc c" | (down) "iValue c \<noteq> iTerm c" "bDesc c" by blast
    then have "remaining c = iValue c # remaining (seriesNext c) \<and> cursor_ok (seriesNext c)"
    proof cases
      case last
      then show ?thesis using nd f(3)
        by (auto simp: seriesNext_def remaining_def cursor_ok_def dir_def series_list_single)
    next
      case up
      then have lt: "iValue c < iTerm c" using f(5) by auto
      note st = series_list_step [OF f(3) lt f(4)]
      have s: "s64 (iValue c + iStep c)" using f(1,2,3) st(1) by (auto simp: s64_def)
      show ?thesis using up nd f(2,3) st s
        by (simp add: seriesNext_def remaining_def cursor_ok_def dir_def add64_id)
    next
      case down
      then have lt: "- iValue c < - iTerm c" using f(5) by auto
      have dv: "iStep c dvd - iTerm c - - iValue c" using f(4) by (metis dvd_minus_iff minus_diff_minus)
      note st = series_list_step [OF f(3) lt dv]
      have s: "s64 (iValue c - iStep c)" using f(1,2,3) st(1) by (auto simp: s64_def)
      have d: "iStep c dvd iTerm c - (iValue c - iStep c)" using st(2) by (metis dvd_minus_iff minus_diff_eq minus_diff_minus minus_add_distrib add_uminus_conv_diff diff_minus_eq_add)
      show ?thesis using down nd f(2,3) st(1,3) s d
        by (simp add: seriesNext_def remaining_def cursor_ok_def dir_def sub64_id series_list_uminus)
    qed
    then show "map ResInt (remaining c) = seriesColumn c 0 # map ResInt (remaining (seriesNext c))"
      and "cursor_ok (seriesNext c)" by (auto simp: seriesColumn_def)
  qed
qed

section \<open>The stages of the filter\<close>

text \<open>The list a cursor stands for between the stages, before it is positioned.\<close>

definition cur_list :: "series_cursor \<Rightarrow> int list" where
  "cur_list c = series_list (iBase c) (iTerm c) (dir c)"

definition base_ok :: "series_cursor \<Rightarrow> bool" where
  "base_ok c \<longleftrightarrow> s64 (iBase c) \<and> s64 (iTerm c) \<and> 0 < iStep c \<and> iStep c \<le> 2 ^ 63"

definition between :: "int \<Rightarrow> int \<Rightarrow> int list \<Rightarrow> int list" where
  "between lo hi xs = filter (\<lambda>v. lo \<le> v \<and> v \<le> hi) xs"

lemma dvd_shift: "s dvd b2 - b \<Longrightarrow> s dvd v - b \<longleftrightarrow> s dvd v - b2" for s :: int
  by (metis diff_add_cancel diff_diff_eq2 dvd_add_right_iff add_diff_eq)

lemma between_up:
  assumes "0 < s" "b \<le> b2" "s dvd b2 - b" "lo \<le> b2" "b2 - s < lo \<or> b2 = b"
  shows "between lo hi (series_list b t s) = series_list b2 (min t hi) s"
proof (rule series_list_eqI [symmetric, OF assms(1)])
  show "sorted (between lo hi (series_list b t s))" "distinct (between lo hi (series_list b t s))"
    using sorted_series_list [OF assms(1), of b t] by (simp_all add: between_def sorted_wrt_filter)
  fix v
  have "b2 \<le> v" if "b \<le> v" "lo \<le> v" "s dvd v - b"
  proof (rule ccontr)
    assume n: "\<not> b2 \<le> v"
    have "s dvd b2 - v" using that(3) assms(3) dvd_shift [of s b2 b v] by (metis dvd_minus_iff minus_diff_eq)
    then have "s \<le> b2 - v" using n by (intro zdvd_imp_le) auto
    then show False using assms(5) n that by auto
  qed
  then show "v \<in> set (between lo hi (series_list b t s)) \<longleftrightarrow> b2 \<le> v \<and> v \<le> min t hi \<and> s dvd v - b2"
    using assms(2,4) dvd_shift [OF assms(3), of v] by (auto simp: between_def set_series_list [OF assms(1)])
qed

lemma between_uminus: "between lo hi (map uminus xs) = map uminus (between (- hi) (- lo) xs)"
  by (auto simp: between_def filter_map o_def intro!: arg_cong [where f = "map uminus"] filter_cong)

lemma between_down:
  assumes "0 < s" "b2 \<le> b" "s dvd b - b2" "b2 \<le> hi" "hi < b2 + s \<or> b2 = b"
  shows "between lo hi (series_list b t (- s)) = series_list b2 (max t lo) (- s)"
proof -
  have "between (- hi) (- lo) (series_list (- b) (- t) s) = series_list (- b2) (min (- t) (- lo)) s"
    using assms by (intro between_up) auto
  moreover have "min (- t) (- lo) = - max t lo" by auto
  ultimately show ?thesis using assms(1) by (simp add: series_list_uminus between_uminus)
qed

text \<open>Advancing the base to the first value that is not below the bound.\<close>

lemma advance:
  fixes b lo s :: int
  assumes "0 < s" "b < lo"
  defines "b1 \<equiv> b + (lo - b) div s * s"
  shows "b \<le> b1" "b1 \<le> lo" "lo < b1 + s" "s dvd b1 - b" "0 \<le> (lo - b) div s * s" "(lo - b) div s * s \<le> lo - b"
proof -
  have q: "0 \<le> (lo - b) div s" using assms(1,2) by (simp add: pos_imp_zdiv_nonneg_iff)
  have e: "(lo - b) div s * s + (lo - b) mod s = lo - b" by simp
  have m: "0 \<le> (lo - b) mod s" "(lo - b) mod s < s" using assms(1) by auto
  show p: "0 \<le> (lo - b) div s * s" using q assms(1) by simp
  then show "b \<le> b1" by (simp add: b1_def)
  show "b1 \<le> lo" "lo < b1 + s" "(lo - b) div s * s \<le> lo - b" using e m unfolding b1_def by linarith+
  show "s dvd b1 - b" by (simp add: b1_def)
qed

lemma narrow_up:
  assumes ok: "base_ok c" "\<not> bDesc c" and lo: "s64 lo" "s64 hi"
  shows "case filter_narrow lo hi c of Inl _ \<Rightarrow> between lo hi (cur_list c) = []
    | Inr d \<Rightarrow> base_ok d \<and> cur_list d = between lo hi (cur_list c) \<and> bDesc d = bDesc c"
proof -
  let ?b = "iBase c" and ?s = "iStep c" and ?t = "iTerm c"
  have s: "0 < ?s" "?s \<le> 2 ^ 63" "s64 ?b" "s64 ?t" using ok by (auto simp: base_ok_def)
  have L: "cur_list c = series_list ?b ?t ?s" using ok(2) by (simp add: cur_list_def dir_def)
  have goal: ?thesis if "filter_narrow lo hi c = Inr (if ?t > hi then c\<lparr>iBase := b2, iTerm := hi\<rparr> else c\<lparr>iBase := b2\<rparr>)"
    "s64 b2" "between lo hi (series_list ?b ?t ?s) = series_list b2 (min ?t hi) ?s" for b2
    unfolding that(1) using that(2,3) s lo ok(2) L
    by (auto simp: base_ok_def cur_list_def dir_def min_def)
  show ?thesis
  proof (cases "?b < lo")
    case False
    then have "between lo hi (series_list ?b ?t ?s) = series_list ?b (min ?t hi) ?s"
      using s(1) by (intro between_up) auto
    then show ?thesis using False ok(2) s(3) by (intro goal [of ?b]) (auto simp: filter_narrow_def)
  next
    case True
    define q where "q = (lo - ?b) div ?s * ?s"
    define b1 where "b1 = ?b + q"
    have A: "?b \<le> b1" "b1 \<le> lo" "lo < b1 + ?s" "?s dvd b1 - ?b" "0 \<le> q" "q \<le> lo - ?b"
      using advance [OF s(1) True] by (auto simp: b1_def q_def)
    have s1: "s64 b1" using A s(3) lo(1) by (auto simp: s64_def)
    have sp: "span64 lo ?b = lo - ?b" using True lo(1) s(3) by (simp add: span64_id)
    have u: "to_u64 q = q" using A(5,6) lo(1) s(3) by (intro to_u64_id) (auto simp: s64_def)
    have step1: "add64 ?b (to_u64 (span64 lo ?b div ?s * ?s)) = b1"
      using s1 unfolding sp q_def [symmetric] u by (simp add: add64_id b1_def)
    have mx: "sub64 LARGEST_INT64 ?s = LARGEST_INT64 - ?s" using s(1,2) by (intro sub64_id) (auto simp: s64_def)
    have N: "filter_narrow lo hi c =
      (if b1 < lo \<and> b1 > LARGEST_INT64 - ?s then Inl (c\<lparr>iBase := b1\<rparr>)
       else let b2 = (if b1 < lo then add64 b1 ?s else b1)
            in Inr (if ?t > hi then c\<lparr>iBase := b2, iTerm := hi\<rparr> else c\<lparr>iBase := b2\<rparr>))"
      using ok(2) True step1 mx by (simp add: filter_narrow_def Let_def)
    show ?thesis
    proof (cases "b1 < lo")
      case False
      then have "between lo hi (series_list ?b ?t ?s) = series_list b1 (min ?t hi) ?s"
        using A s(1) by (intro between_up) auto
      then show ?thesis using False N s1 by (intro goal [of b1]) auto
    next
      case lt: True
      have dv: "?s dvd b1 + ?s - ?b" using A(4) by (metis add_diff_eq add.commute dvd_add_triv_left_iff diff_add_eq)
      have B: "between lo hi (series_list ?b ?t ?s) = series_list (b1 + ?s) (min ?t hi) ?s"
        using A(1-3) dv s(1) lt by (intro between_up) auto
      show ?thesis
      proof (cases "b1 > LARGEST_INT64 - ?s")
        case True
        then have "min ?t hi < b1 + ?s" using s(4) by (auto simp: s64_def)
        then have "series_list (b1 + ?s) (min ?t hi) ?s = []" using s(1) by (auto simp: series_list_def)
        then show ?thesis using True lt N L B by simp
      next
        case False
        then have s2: "s64 (b1 + ?s)" using s1 s(1) by (auto simp: s64_def)
        then show ?thesis using False N lt B by (intro goal [of "b1 + ?s"]) (auto simp: add64_id)
      qed
    qed
  qed
qed

lemma narrow_down:
  assumes ok: "base_ok c" "bDesc c" and lo: "s64 lo" "s64 hi"
  shows "case filter_narrow lo hi c of Inl _ \<Rightarrow> between lo hi (cur_list c) = []
    | Inr d \<Rightarrow> base_ok d \<and> cur_list d = between lo hi (cur_list c) \<and> bDesc d = bDesc c"
proof -
  let ?b = "iBase c" and ?s = "iStep c" and ?t = "iTerm c"
  have s: "0 < ?s" "?s \<le> 2 ^ 63" "s64 ?b" "s64 ?t" using ok by (auto simp: base_ok_def)
  have L: "cur_list c = series_list ?b ?t (- ?s)" using ok(2) by (simp add: cur_list_def dir_def)
  have goal: ?thesis if "filter_narrow lo hi c = Inr (if ?t < lo then c\<lparr>iBase := b2, iTerm := lo\<rparr> else c\<lparr>iBase := b2\<rparr>)"
    "s64 b2" "between lo hi (series_list ?b ?t (- ?s)) = series_list b2 (max ?t lo) (- ?s)" for b2
    unfolding that(1) using that(2,3) s lo ok(2) L
    by (auto simp: base_ok_def cur_list_def dir_def max_def)
  show ?thesis
  proof (cases "?b > hi")
    case False
    then have "between lo hi (series_list ?b ?t (- ?s)) = series_list ?b (max ?t lo) (- ?s)"
      using s(1) by (intro between_down) auto
    then show ?thesis using False ok(2) s(3) by (intro goal [of ?b]) (auto simp: filter_narrow_def)
  next
    case True
    define q where "q = (?b - hi) div ?s * ?s"
    define b1 where "b1 = ?b - q"
    have A: "b1 \<le> ?b" "hi \<le> b1" "b1 - ?s < hi" "?s dvd ?b - b1" "0 \<le> q" "q \<le> ?b - hi"
      using advance [OF s(1), of "- ?b" "- hi"] True by (auto simp: b1_def q_def)
    have s1: "s64 b1" using A s(3) lo(2) by (auto simp: s64_def)
    have sp: "span64 ?b hi = ?b - hi" using True lo(2) s(3) by (simp add: span64_id)
    have u: "to_u64 q = q" using A(5,6) lo(2) s(3) by (intro to_u64_id) (auto simp: s64_def)
    have step1: "sub64 ?b (to_u64 (span64 ?b hi div ?s * ?s)) = b1"
      using s1 unfolding sp q_def [symmetric] u by (simp add: sub64_id b1_def)
    have mx: "add64 SMALLEST_INT64 ?s = SMALLEST_INT64 + ?s" using s(1,2) by (intro add64_id) (auto simp: s64_def)
    have N: "filter_narrow lo hi c =
      (if b1 > hi \<and> b1 < SMALLEST_INT64 + ?s then Inl (c\<lparr>iBase := b1\<rparr>)
       else let b2 = (if b1 > hi then sub64 b1 ?s else b1)
            in Inr (if ?t < lo then c\<lparr>iBase := b2, iTerm := lo\<rparr> else c\<lparr>iBase := b2\<rparr>))"
      using ok(2) True step1 mx by (simp add: filter_narrow_def Let_def)
    show ?thesis
    proof (cases "b1 > hi")
      case False
      then have "between lo hi (series_list ?b ?t (- ?s)) = series_list b1 (max ?t lo) (- ?s)"
        using A s(1) by (intro between_down) auto
      then show ?thesis using False N s1 by (intro goal [of b1]) auto
    next
      case gt: True
      have dv: "?s dvd ?b - (b1 - ?s)" using A(4) by (metis add.commute diff_diff_eq2 add_diff_eq dvd_add_triv_left_iff)
      have B: "between lo hi (series_list ?b ?t (- ?s)) = series_list (b1 - ?s) (max ?t lo) (- ?s)"
        using A(1-3) dv s(1) gt by (intro between_down) auto
      show ?thesis
      proof (cases "b1 < SMALLEST_INT64 + ?s")
        case True
        then have "b1 - ?s < max ?t lo" using s(4) by (auto simp: s64_def)
        then have "series_list (b1 - ?s) (max ?t lo) (- ?s) = []" using s(1) by (auto simp: series_list_def)
        then show ?thesis using True gt N L B by simp
      next
        case False
        then have s2: "s64 (b1 - ?s)" using s1 s(1) by (auto simp: s64_def)
        then show ?thesis using False N gt B by (intro goal [of "b1 - ?s"]) (auto simp: sub64_id)
      qed
    qed
  qed
qed

lemma filter_narrow_correct:
  assumes "base_ok c" "s64 lo" "s64 hi"
  shows "case filter_narrow lo hi c of Inl _ \<Rightarrow> between lo hi (cur_list c) = []
    | Inr d \<Rightarrow> base_ok d \<and> cur_list d = between lo hi (cur_list c) \<and> bDesc d = bDesc c"
  using narrow_up [OF assms(1) _ assms(2,3)] narrow_down [OF assms(1) _ assms(2,3)] by blast

text \<open>After the next stage the terminal value belongs to the series.\<close>

definition last_ok :: "series_cursor \<Rightarrow> bool" where
  "last_ok c \<longleftrightarrow> base_ok c \<and> iStep c dvd iTerm c - iBase c \<and>
     (if bDesc c then iTerm c \<le> iBase c else iBase c \<le> iTerm c)"

lemma exact_last:
  assumes "0 < s" "b \<le> t"
  defines "t' \<equiv> t - (t - b) mod s"
  shows "b \<le> t'" "t' \<le> t" "s dvd t' - b" "series_list b t' s = series_list b t s"
proof -
  have e: "t' - b = (t - b) div s * s" by (simp add: t'_def minus_mod_eq_div_mult [symmetric])
  have "0 \<le> (t - b) div s" using assms by (simp add: pos_imp_zdiv_nonneg_iff)
  then have "0 \<le> (t - b) div s * s" using assms(1) by simp
  then show le: "b \<le> t'" using e by simp
  show "t' \<le> t" using assms(1) by (simp add: t'_def)
  show "s dvd t' - b" by (simp add: e)
  have "(t' - b) div s = (t - b) div s" unfolding e using assms(1) by simp
  then show "series_list b t' s = series_list b t s" using assms(1,2) le by (simp add: series_list_def)
qed

lemma filter_last_correct:
  assumes ok: "base_ok c"
  shows "case filter_last c of Inl _ \<Rightarrow> cur_list c = []
    | Inr d \<Rightarrow> last_ok d \<and> cur_list d = cur_list c \<and> bDesc d = bDesc c"
proof (cases "bDesc c")
  case False
  let ?b = "iBase c" and ?s = "iStep c" and ?t = "iTerm c"
  have s: "0 < ?s" "s64 ?b" "s64 ?t" "?s \<le> 2 ^ 63" using ok by (auto simp: base_ok_def)
  show ?thesis
  proof (cases "?b > ?t")
    case True
    then show ?thesis using False s(1) by (simp add: filter_last_def cur_list_def dir_def series_list_def)
  next
    case False': False
    then have le: "?b \<le> ?t" by simp
    then have E: "?b \<le> ?t - (?t - ?b) mod ?s" "?t - (?t - ?b) mod ?s \<le> ?t" "?s dvd ?t - (?t - ?b) mod ?s - ?b"
      "series_list ?b (?t - (?t - ?b) mod ?s) ?s = series_list ?b ?t ?s"
      using exact_last [OF s(1), of ?b ?t] by auto
    have t: "s64 (?t - (?t - ?b) mod ?s)" using E(1,2) s(2,3) unfolding s64_def by linarith
    have "filter_last c = Inr (c\<lparr>iTerm := ?t - (?t - ?b) mod ?s\<rparr>)"
      using False le s(2,3) t by (simp add: filter_last_def span64_id sub64_id)
    then show ?thesis using False s E t by (simp add: last_ok_def base_ok_def cur_list_def dir_def)
  qed
next
  case True
  let ?b = "iBase c" and ?s = "iStep c" and ?t = "iTerm c"
  have s: "0 < ?s" "s64 ?b" "s64 ?t" "?s \<le> 2 ^ 63" using ok by (auto simp: base_ok_def)
  show ?thesis
  proof (cases "?b < ?t")
    case lt: True
    then show ?thesis using True s(1) by (simp add: filter_last_def cur_list_def dir_def series_list_def)
  next
    case False
    define m where "m = (?b - ?t) mod ?s"
    have E: "- ?b \<le> - ?t - m" "- ?t - m \<le> - ?t" "?s dvd - ?t - m - - ?b"
      "series_list (- ?b) (- ?t - m) ?s = series_list (- ?b) (- ?t) ?s"
      using exact_last [OF s(1), of "- ?b" "- ?t"] False by (auto simp: m_def)
    have t: "s64 (?t + m)" using E(1,2) s(2,3) unfolding s64_def by linarith
    have dv: "?s dvd ?t + m - ?b" using E(3) dvd_minus_iff [of ?s "?t + m - ?b"] by (simp add: algebra_simps)
    show ?thesis using True False s E(1,4) t dv
      by (simp add: filter_last_def span64_id m_def [symmetric] add64_id last_ok_def base_ok_def cur_list_def dir_def
          series_list_uminus)
  qed
qed

lemma series_list_rev:
  assumes "0 < s" "b \<le> t" "s dvd t - b"
  shows "series_list t b (- s) = rev (series_list b t s)"
proof -
  have "series_list b t s = rev (series_list t b (- s))"
  proof (rule series_list_eqI [OF assms(1)])
    have "rev (series_list t b (- s)) = map uminus (rev (series_list (- t) (- b) s))"
      by (simp add: series_list_uminus [OF assms(1)] rev_map)
    moreover have "sorted (map uminus (rev xs))" if "sorted xs" for xs :: "int list"
      using that by (simp add: sorted_map sorted_wrt_rev)
    ultimately show "sorted (rev (series_list t b (- s)))"
      using sorted_series_list(1) [OF assms(1)] by simp
    show "distinct (rev (series_list t b (- s)))"
      using sorted_series_list(2) [OF assms(1), of "- t" "- b"]
      by (simp add: series_list_uminus [OF assms(1)] distinct_map)
    fix v
    have "v \<in> set (rev (series_list t b (- s))) \<longleftrightarrow> - v \<in> set (series_list (- t) (- b) s)"
      by (auto simp: series_list_uminus [OF assms(1)] image_iff) (metis minus_minus)
    also have "\<dots> \<longleftrightarrow> b \<le> v \<and> v \<le> t \<and> s dvd t - v" by (auto simp: set_series_list [OF assms(1)])
    also have "s dvd t - v \<longleftrightarrow> s dvd v - b"
      using assms(3) dvd_shift [of s t b v] dvd_minus_iff [of s "v - t"] by simp
    finally show "v \<in> set (rev (series_list t b (- s))) \<longleftrightarrow> b \<le> v \<and> v \<le> t \<and> s dvd v - b" .
  qed
  then show ?thesis by simp
qed

text \<open>Does the plan ask for the other order than the natural one?\<close>

definition reversed :: "int \<Rightarrow> bool \<Rightarrow> bool" where
  "reversed idxNum desc \<longleftrightarrow> (has idxNum 0x0008 \<and> \<not> desc) \<or> (has idxNum 0x0010 \<and> desc)"

lemma filter_order_correct:
  assumes "last_ok c"
  shows "last_ok (filter_order idxNum c)" "bDesc (filter_order idxNum c) = (bDesc c \<noteq> reversed idxNum (bDesc c))"
    "cur_list (filter_order idxNum c) = (if reversed idxNum (bDesc c) then rev (cur_list c) else cur_list c)"
proof -
  have dv: "iStep c dvd iBase c - iTerm c" using assms dvd_minus_iff [of "iStep c" "iTerm c - iBase c"] by (simp add: last_ok_def)
  show "last_ok (filter_order idxNum c)" "bDesc (filter_order idxNum c) = (bDesc c \<noteq> reversed idxNum (bDesc c))"
    using assms dv by (auto simp: filter_order_def reversed_def last_ok_def base_ok_def)
  have "series_list (iTerm c) (iBase c) (- iStep c) = rev (series_list (iBase c) (iTerm c) (iStep c))" if "\<not> bDesc c"
    using assms that by (intro series_list_rev) (auto simp: last_ok_def base_ok_def)
  moreover have "series_list (iBase c) (iTerm c) (- iStep c) = rev (series_list (iTerm c) (iBase c) (iStep c))" if "bDesc c"
    using assms that dv by (intro series_list_rev) (auto simp: last_ok_def base_ok_def)
  ultimately show "cur_list (filter_order idxNum c) = (if reversed idxNum (bDesc c) then rev (cur_list c) else cur_list c)"
    by (auto simp: filter_order_def reversed_def cur_list_def dir_def)
qed

lemma positioned:
  assumes "last_ok c"
  shows "cursor_ok (c\<lparr>iValue := iBase c, bDone := False\<rparr>)"
    "remaining (c\<lparr>iValue := iBase c, bDone := False\<rparr>) = cur_list c"
  using assms by (auto simp: last_ok_def base_ok_def cursor_ok_def remaining_def cur_list_def dir_def)

end
