(* ===== verification/Series_Rows.thy ===== *)
theory Series_Rows
  imports Series_Scan
begin

text \<open>
  The rows of a query on \<^verbatim>\<open>generate_series\<close>: the hidden parameters with their defaults,
  the constraints on the value, LIMIT and OFFSET, put together into what a scan after
  \<^verbatim>\<open>seriesFilter\<close> returns.
\<close>

section \<open>The hidden parameters\<close>

text \<open>The start, stop and step a plan gives, by the documented defaults.\<close>

definition start_of :: "sqlite3_api_routines \<Rightarrow> int \<Rightarrow> sqlite3_value list \<Rightarrow> int" where
  "start_of api idxNum argv =
     (if has idxNum 0x01 then value_int64 api (argv ! 0)
      else if \<not> has idxNum 0x04 \<and> has idxNum 0x0380 then SMALLEST_INT64 else 0)"

definition stop_of :: "sqlite3_api_routines \<Rightarrow> int \<Rightarrow> sqlite3_value list \<Rightarrow> int" where
  "stop_of api idxNum argv =
     (if has idxNum 0x02 then value_int64 api (argv ! (if has idxNum 0x01 then 1 else 0))
      else if \<not> has idxNum 0x04 \<and> has idxNum 0x3080 then LARGEST_INT64 else 0xffffffff)"

definition step_of :: "sqlite3_api_routines \<Rightarrow> int \<Rightarrow> sqlite3_value list \<Rightarrow> int" where
  "step_of api idxNum argv =
     (if has idxNum 0x04 then
        let s = value_int64 api (argv ! ((if has idxNum 0x01 then 1 else 0) + (if has idxNum 0x02 then 1 else 0)))
        in if s = 0 then 1 else s
      else 1)"

definition nparams :: "int \<Rightarrow> nat" where
  "nparams idxNum = (if has idxNum 0x01 then 1 else 0) + (if has idxNum 0x02 then 1 else 0) +
     (if has idxNum 0x04 then 1 else 0)"

lemma has_subset: "m AND m' = m \<Longrightarrow> has idxNum m \<Longrightarrow> has idxNum m'"
  unfolding has_def by (metis and.assoc and.commute and_zero_eq)

lemma has_or: "has idxNum (m OR m') \<longleftrightarrow> has idxNum m \<or> has idxNum m'"
  by (simp add: has_def bit.conj_disj_distrib or_eq_0_iff)

lemma has_split:
  "has idxNum 0x05 \<longleftrightarrow> has idxNum 0x01 \<or> has idxNum 0x04"
  "has idxNum 0x06 \<longleftrightarrow> has idxNum 0x02 \<or> has idxNum 0x04"
  using has_or [of idxNum 1 4] has_or [of idxNum 2 4] by simp_all

lemma step_of_nonzero: "step_of api idxNum argv \<noteq> 0"
  by (simp add: step_of_def Let_def)

lemma s64_consts: "s64 0" "s64 1" "s64 SMALLEST_INT64" "s64 LARGEST_INT64" "s64 0xffffffff"
  by (simp_all add: s64_def)

lemma filter_read_eq:
  assumes "nparams idxNum \<le> length argv"
  shows "filter_read api idxNum argv =
    (start_of api idxNum argv, stop_of api idxNum argv, step_of api idxNum argv, drop (nparams idxNum) argv)"
  using assms
  by (cases "has idxNum 0x01"; cases "has idxNum 0x02"; cases "has idxNum 0x04")
    (auto simp: filter_read_def start_of_def stop_of_def step_of_def nparams_def has_split Let_def
      numeral_eq_Suc Suc_le_length_iff)

lemma filter_params_correct:
  assumes len: "nparams idxNum \<le> length argv" and v: "\<forall>v \<in> set argv. s64 (value_int64 api v)"
  shows "case filter_params api idxNum argv c of
      Inl _ \<Rightarrow> series_list (start_of api idxNum argv) (stop_of api idxNum argv) (step_of api idxNum argv) = []
    | Inr (d, rest) \<Rightarrow> base_ok d \<and> rest = drop (nparams idxNum) argv \<and> bDesc d = (step_of api idxNum argv < 0) \<and>
        cur_list d = series_list (start_of api idxNum argv) (stop_of api idxNum argv) (step_of api idxNum argv)"
proof -
  let ?b = "start_of api idxNum argv" and ?t = "stop_of api idxNum argv" and ?s = "step_of api idxNum argv"
  define d where "d = c\<lparr>iOBase := ?b, iOTerm := ?t, iOStep := ?s, iBase := ?b, iTerm := ?t,
      iStep := (if ?s > 0 then ?s else if ?s > SMALLEST_INT64 then - ?s else LARGEST_INT64 + 1), bDesc := (?s < 0)\<rparr>"
  have F: "filter_params api idxNum argv c =
      (if (\<not> ?s < 0 \<and> ?b > ?t) \<or> (?s < 0 \<and> ?b < ?t) then Inl d else Inr (d, drop (nparams idxNum) argv))"
    unfolding filter_params_def filter_read_eq [OF len] by (simp add: d_def Let_def)
  have nth: "s64 (value_int64 api (argv ! k))" if "k < nparams idxNum" for k using v that len by simp
  have "s64 ?b" using nth [of 0] s64_consts unfolding start_of_def nparams_def by (cases "has idxNum 0x01") simp_all
  moreover have "s64 ?t" using nth [of 0] nth [of 1] s64_consts unfolding stop_of_def nparams_def
    by (cases "has idxNum 0x01"; cases "has idxNum 0x02") simp_all
  moreover have "s64 ?s" using nth [of 0] nth [of 1] nth [of 2] s64_consts unfolding step_of_def nparams_def Let_def
    by (cases "has idxNum 0x01"; cases "has idxNum 0x02"; cases "has idxNum 0x04") (simp_all add: numeral_2_eq_2)
  ultimately have s: "s64 ?b" "s64 ?t" "s64 ?s" by simp_all
  have st: "0 < iStep d" "iStep d \<le> 2 ^ 63" "dir d = ?s"
    using s(3) step_of_nonzero [of api idxNum argv] by (auto simp: d_def dir_def s64_def)
  show ?thesis
    using s st step_of_nonzero [of api idxNum argv]
    by (auto simp: F base_ok_def cur_list_def series_list_def) (auto simp: d_def)
qed
section \<open>Bounds on the value\<close>

datatype value_op = OpEq | OpGe | OpGt | OpLe | OpLt

definition num_of :: "sqlite3_api_routines \<Rightarrow> sqlite3_value \<Rightarrow> dnum" where
  "num_of api v = (if value_numeric_is_float api v then dbl_num (value_double api v)
     else Fin (of_int (value_int64 api v)))"

text \<open>Does the integer \<open>x\<close> satisfy a comparison with the argument?\<close>

fun sat :: "value_op \<Rightarrow> dnum \<Rightarrow> int \<Rightarrow> bool" where
  "sat OpEq a x = dnum_eq (Fin (of_int x)) a"
| "sat OpGe a x = dnum_le a (Fin (of_int x))"
| "sat OpGt a x = dnum_less a (Fin (of_int x))"
| "sat OpLe a x = dnum_le (Fin (of_int x)) a"
| "sat OpLt a x = dnum_less (Fin (of_int x)) a"

text \<open>
  The arguments the bounds are exact for: integers of 64 bits, and floating point numbers
  other than a NaN and the two boundary values \<open>2 ^ 63\<close> and \<open>- (2 ^ 63)\<close>.
\<close>

definition good_arg :: "sqlite3_api_routines \<Rightarrow> sqlite3_value \<Rightarrow> bool" where
  "good_arg api v \<longleftrightarrow> s64 (value_int64 api v) \<and>
     (value_numeric_is_float api v \<longrightarrow>
        dbl_num (value_double api v) \<notin> {NaN, Fin (2 ^ 63), Fin (- (2 ^ 63))})"

lemma powi_2_nat: "0 \<le> k \<Longrightarrow> (2 :: rat) powi k = 2 ^ nat k"
  unfolding power_int_def by (rule if_P)

text \<open>Below \<open>2 ^ 63\<close> the largest double is \<open>2 ^ 63 - 1024\<close>.\<close>

lemma significand_gap:
  fixes M k :: int
  assumes "0 \<le> M" "M < 2 ^ 53" "0 < k \<Longrightarrow> 2 ^ 52 \<le> M" "of_int M * (2 :: rat) powi k < 2 ^ 63"
  shows "of_int M * (2 :: rat) powi k \<le> 9223372036854774784"
proof -
  have M: "(of_int M :: rat) \<le> 2 ^ 53 - 1" "(0 :: rat) \<le> of_int M"
    using assms(1,2) of_int_le_iff [of M "2 ^ 53 - 1", where ?'a = rat] by simp_all
  have k10: "k \<le> 10"
  proof (rule ccontr)
    assume "\<not> k \<le> 10"
    then have "(2 :: rat) powi 11 \<le> 2 powi k" by (intro power_int_increasing) auto
    moreover have "(2 ^ 52 :: rat) \<le> of_int M" using assms(3) \<open>\<not> k \<le> 10\<close> of_int_le_iff [of "2 ^ 52" M, where ?'a = rat] by simp
    ultimately have "(2 ^ 52 :: rat) * 2 powi 11 \<le> of_int M * 2 powi k" by (intro mult_mono) auto
    with assms(4) show False by simp
  qed
  then have "(2 :: rat) powi k \<le> 2 powi 10" by (intro power_int_increasing) auto
  with M have "of_int M * (2 :: rat) powi k \<le> (2 ^ 53 - 1) * 2 powi 10" by (intro mult_mono) auto
  then show ?thesis by simp
qed

lemma double_gap:
  assumes "\<bar>double_val r\<bar> < 2 ^ 63"
  shows "\<bar>double_val r\<bar> \<le> 9223372036854774784"
proof -
  note b = dbl_bounds [of r]
  have a: "\<bar>double_val r\<bar> = (if dbl_exp r = 0 then of_int (dbl_frac r) * 2 powi (- 1074)
      else of_int (2 ^ 52 + dbl_frac r) * 2 powi (dbl_exp r - 1075))"
    using b by (simp add: double_val_def abs_mult)
  show ?thesis
  proof (cases "dbl_exp r = 0")
    case True
    then show ?thesis using a assms b significand_gap [of "dbl_frac r" "- 1074"] by simp
  next
    case False
    then show ?thesis using a assms b significand_gap [of "2 ^ 52 + dbl_frac r" "dbl_exp r - 1075"] by simp
  qed
qed

lemma realToI64_small:
  assumes "\<bar>x\<bar> \<le> 9223372036854774784"
  shows "seriesRealToI64 (Fin (of_int \<lceil>x\<rceil>)) = \<lceil>x\<rceil>" "seriesRealToI64 (Fin (of_int \<lfloor>x\<rfloor>)) = \<lfloor>x\<rfloor>"
    "s64 \<lceil>x\<rceil>" "s64 \<lfloor>x\<rfloor>" "\<lceil>x\<rceil> < LARGEST_INT64" "SMALLEST_INT64 < \<lfloor>x\<rfloor>"
proof -
  have "of_int (- 9223372036854774784) \<le> x" "x \<le> of_int 9223372036854774784" using assms by auto
  then have b: "- 9223372036854774784 \<le> \<lfloor>x\<rfloor>" "\<lceil>x\<rceil> \<le> 9223372036854774784"
    by (simp_all only: le_floor_iff ceiling_le_iff)
  then have c: "- 9223372036854774784 \<le> \<lceil>x\<rceil>" "\<lfloor>x\<rfloor> \<le> 9223372036854774784"
    using floor_le_ceiling [of x] by linarith+
  have r: "seriesRealToI64 (Fin (of_int i)) = i" if "- 9223372036854774784 \<le> i" "i \<le> 9223372036854774784" for i
  proof -
    have "(- 9223372036854774784 :: rat) \<le> of_int i" "(of_int i :: rat) \<le> 9223372036854774784"
      using that of_int_le_iff [of "- 9223372036854774784" i, where ?'a = rat]
        of_int_le_iff [of i 9223372036854774784, where ?'a = rat] by simp_all
    then show ?thesis by (simp add: seriesRealToI64_def dnum_less_def)
  qed
  show "seriesRealToI64 (Fin (of_int \<lceil>x\<rceil>)) = \<lceil>x\<rceil>" "seriesRealToI64 (Fin (of_int \<lfloor>x\<rfloor>)) = \<lfloor>x\<rfloor>" using r b c by auto
  show "s64 \<lceil>x\<rceil>" "s64 \<lfloor>x\<rfloor>" "\<lceil>x\<rceil> < LARGEST_INT64" "SMALLEST_INT64 < \<lfloor>x\<rfloor>" using b c by (auto simp: s64_def)
qed

text \<open>The number of a good floating point argument: an infinity, or a rational off the boundary.\<close>

lemma good_float_cases:
  assumes "good_arg api v" "value_numeric_is_float api v"
  obtains (NInf) "num_of api v = NInf" | (PInf) "num_of api v = PInf"
    | (low) y where "num_of api v = Fin y" "y < - (2 ^ 63)" | (high) y where "num_of api v = Fin y" "2 ^ 63 < y"
    | (mid) y where "num_of api v = Fin y" "\<bar>y\<bar> < 2 ^ 63" "\<bar>y\<bar> \<le> 9223372036854774784"
proof (cases "num_of api v")
  case (Fin y)
  have f: "dbl_num (value_double api v) = Fin y" using Fin assms(2) by (simp add: num_of_def)
  then have y: "y = double_val (value_double api v)" "y \<noteq> 2 ^ 63" "y \<noteq> - (2 ^ 63)"
    using assms by (auto simp: dbl_num_def good_arg_def split: if_splits)
  then consider "y < - (2 ^ 63)" | "2 ^ 63 < y" | "\<bar>y\<bar> < 2 ^ 63" by linarith
  then show thesis
  proof cases
    case 3
    then show thesis using Fin y(1) double_gap mid by blast
  qed (use Fin low high in auto)
qed (use assms in \<open>auto simp: num_of_def good_arg_def intro: NInf PInf\<close>)

lemma s64_rat: "s64 x \<Longrightarrow> - (2 ^ 63) \<le> (of_int x :: rat) \<and> (of_int x :: rat) < 2 ^ 63"
proof -
  assume "s64 x"
  then have "(of_int (- (2 ^ 63)) :: rat) \<le> of_int x" "(of_int x :: rat) < of_int (2 ^ 63)"
    unfolding of_int_le_iff of_int_less_iff s64_def by auto
  then show ?thesis by simp
qed

lemma bound_int:
  assumes "good_arg api v" "\<not> value_numeric_is_float api v"
  shows "num_of api v = Fin (of_int (value_int64 api v))" "s64 (value_int64 api v)"
  using assms by (simp_all add: num_of_def good_arg_def)

lemma bound_min_correct:
  fixes strict :: bool
  assumes g: "good_arg api v"
  defines "P \<equiv> sat (if strict then OpGt else OpGe) (num_of api v)"
  shows "case bound_min api strict v of None \<Rightarrow> \<forall>x. s64 x \<longrightarrow> \<not> P x
    | Some lo \<Rightarrow> s64 lo \<and> (\<forall>x. s64 x \<longrightarrow> (P x \<longleftrightarrow> lo \<le> x))"
proof (cases "value_numeric_is_float api v")
  case False
  note b = bound_int [OF g False]
  show ?thesis using False b(2) unfolding P_def b(1) bound_min_def
    by (auto simp: dnum_less_def Let_def s64_def)
next
  case True
  then have n: "dbl_num (value_double api v) = num_of api v" by (simp add: num_of_def)
  from g True show ?thesis
  proof (cases rule: good_float_cases)
    case NInf
    then show ?thesis using True by (simp add: bound_min_def n Let_def P_def dnum_less_def s64_def)
  next
    case PInf
    then show ?thesis using True by (simp add: bound_min_def n Let_def P_def dnum_less_def)
  next
    case (low y)
    then show ?thesis using True s64_rat by (fastforce simp: bound_min_def n Let_def P_def dnum_less_def s64_def)
  next
    case (high y)
    then show ?thesis using True s64_rat by (fastforce simp: bound_min_def n Let_def P_def dnum_less_def s64_def)
  next
    case (mid y)
    note R = realToI64_small [OF mid(3)]
    have m: "\<not> y \<le> - (2 ^ 63)" "y \<le> 2 ^ 63" "\<not> 2 ^ 63 < y" using mid(2) by auto
    have ce: "of_int \<lceil>y\<rceil> \<le> y \<longleftrightarrow> y = of_int \<lceil>y\<rceil>" using le_of_int_ceiling [of y] by (metis order_antisym order_refl)
    have B: "bound_min api strict v = Some (if strict \<and> y = of_int \<lceil>y\<rceil> then \<lceil>y\<rceil> + 1 else \<lceil>y\<rceil>)"
      using True mid(1) m R(1,5) by (auto simp: bound_min_def n Let_def dnum_less_def dnum_eq_def ce)
    have lt: "y < of_int x \<longleftrightarrow> (if y = of_int \<lceil>y\<rceil> then \<lceil>y\<rceil> + 1 \<le> x else \<lceil>y\<rceil> \<le> x)" for x
      using ceiling_le_iff [of y x] le_of_int_ceiling [of y] by (auto simp: less_le)
    show ?thesis unfolding B P_def mid(1) using R(3,5) lt
      by (auto simp: dnum_less_def ceiling_le_iff s64_def not_le)
  qed
qed

lemma bound_max_correct:
  fixes strict :: bool
  assumes g: "good_arg api v"
  defines "P \<equiv> sat (if strict then OpLt else OpLe) (num_of api v)"
  shows "case bound_max api strict v of None \<Rightarrow> \<forall>x. s64 x \<longrightarrow> \<not> P x
    | Some hi \<Rightarrow> s64 hi \<and> (\<forall>x. s64 x \<longrightarrow> (P x \<longleftrightarrow> x \<le> hi))"
proof (cases "value_numeric_is_float api v")
  case False
  note b = bound_int [OF g False]
  show ?thesis using False b(2) unfolding P_def b(1) bound_max_def
    by (auto simp: dnum_less_def Let_def s64_def)
next
  case True
  then have n: "dbl_num (value_double api v) = num_of api v" by (simp add: num_of_def)
  from g True show ?thesis
  proof (cases rule: good_float_cases)
    case NInf
    then show ?thesis using True by (simp add: bound_max_def n Let_def P_def dnum_less_def s64_def)
  next
    case PInf
    then show ?thesis using True by (simp add: bound_max_def n Let_def P_def dnum_less_def s64_def)
  next
    case (low y)
    then show ?thesis using True s64_rat by (fastforce simp: bound_max_def n Let_def P_def dnum_less_def s64_def)
  next
    case (high y)
    then show ?thesis using True s64_rat by (fastforce simp: bound_max_def n Let_def P_def dnum_less_def s64_def)
  next
    case (mid y)
    note R = realToI64_small [OF mid(3)]
    have m: "\<not> y \<le> - (2 ^ 63)" "\<not> 2 ^ 63 \<le> y" using mid(2) by auto
    have fe: "y \<le> of_int \<lfloor>y\<rfloor> \<longleftrightarrow> y = of_int \<lfloor>y\<rfloor>" using of_int_floor_le [of y] by (metis order_antisym order_refl)
    have B: "bound_max api strict v = Some (if strict \<and> y = of_int \<lfloor>y\<rfloor> then \<lfloor>y\<rfloor> - 1 else \<lfloor>y\<rfloor>)"
      using True mid(1) m R(2,6) by (auto simp: bound_max_def n Let_def dnum_less_def dnum_eq_def fe)
    have lt: "of_int x < y \<longleftrightarrow> (if y = of_int \<lfloor>y\<rfloor> then x \<le> \<lfloor>y\<rfloor> - 1 else x \<le> \<lfloor>y\<rfloor>)" for x
      using le_floor_iff [of x y] of_int_floor_le [of y] by (auto simp: less_le)
    show ?thesis unfolding B P_def mid(1) using R(4,6) lt
      by (auto simp: dnum_less_def le_floor_iff s64_def not_le)
  qed
qed

lemma bound_eq_correct:
  assumes g: "good_arg api v"
  shows "case bound_eq api v of None \<Rightarrow> \<forall>x. s64 x \<longrightarrow> \<not> sat OpEq (num_of api v) x
    | Some y \<Rightarrow> s64 y \<and> (\<forall>x. s64 x \<longrightarrow> (sat OpEq (num_of api v) x \<longleftrightarrow> x = y))"
proof (cases "value_numeric_is_float api v")
  case False
  note b = bound_int [OF g False]
  show ?thesis using False b(2) unfolding b(1) bound_eq_def by (auto simp: dnum_eq_def)
next
  case True
  then have n: "dbl_num (value_double api v) = num_of api v" by (simp add: num_of_def)
  from g True show ?thesis
  proof (cases rule: good_float_cases)
    case (low y)
    then show ?thesis using True s64_rat by (fastforce simp: bound_eq_def n Let_def dnum_eq_def)
  next
    case (high y)
    then show ?thesis using True s64_rat by (fastforce simp: bound_eq_def n Let_def dnum_eq_def)
  next
    case (mid y)
    note R = realToI64_small [OF mid(3)]
    have ce: "of_int \<lceil>y\<rceil> \<le> y \<longleftrightarrow> y = of_int \<lceil>y\<rceil>" using le_of_int_ceiling [of y] by (metis order_antisym order_refl)
    have m: "- (2 ^ 63) \<le> y" "y \<le> 2 ^ 63" using mid(2) by auto
    have B: "bound_eq api v = (if y = of_int \<lceil>y\<rceil> then Some \<lceil>y\<rceil> else None)"
      using True mid(1) m R(1) by (auto simp: bound_eq_def n Let_def dnum_eq_def ce)
    show ?thesis unfolding B mid(1) using R(3) by (auto simp: dnum_eq_def)
  qed (use True in \<open>simp_all add: bound_eq_def n Let_def dnum_eq_def\<close>)
qed

text \<open>The constraints of a plan on the value, on the arguments that follow the parameters.\<close>

definition admits :: "sqlite3_api_routines \<Rightarrow> int \<Rightarrow> sqlite3_value list \<Rightarrow> int \<Rightarrow> bool" where
  "admits api idxNum args x \<longleftrightarrow>
     (if has idxNum 0x0080 then sat OpEq (num_of api (args ! 0)) x
      else (has idxNum 0x0300 \<longrightarrow> sat (if has idxNum 0x0200 then OpGt else OpGe) (num_of api (args ! 0)) x) \<and>
        (has idxNum 0x3000 \<longrightarrow> sat (if has idxNum 0x2000 then OpLt else OpLe)
           (num_of api (args ! (if has idxNum 0x0300 then 1 else 0))) x))"

definition nvalues :: "int \<Rightarrow> nat" where
  "nvalues idxNum = (if has idxNum 0x0080 then 1
     else (if has idxNum 0x0300 then 1 else 0) + (if has idxNum 0x3000 then 1 else 0))"

lemma filter_bounds_correct:
  assumes g: "\<forall>v \<in> set args. good_arg api v" and len: "nvalues idxNum \<le> length args"
  shows "case filter_bounds api idxNum args of None \<Rightarrow> \<forall>x. s64 x \<longrightarrow> \<not> admits api idxNum args x
    | Some (lo, hi) \<Rightarrow> s64 lo \<and> s64 hi \<and> (\<forall>x. s64 x \<longrightarrow> (admits api idxNum args x \<longleftrightarrow> lo \<le> x \<and> x \<le> hi))"
proof (cases "has idxNum 0x0080")
  case True
  then have "args \<noteq> []" using len by (auto simp: nvalues_def)
  then have h: "hd args = args ! 0" "good_arg api (args ! 0)" using g by (auto simp: hd_conv_nth)
  show ?thesis using bound_eq_correct [OF h(2)] True
    by (auto simp: filter_bounds_def admits_def h(1) split: option.splits)
next
  case False
  define k :: nat where "k = (if has idxNum 0x0300 then 1 else 0)"
  have h0: "hd args = args ! 0" "good_arg api (args ! 0)" if "has idxNum 0x0300 \<or> has idxNum 0x3000"
  proof -
    have "args \<noteq> []" using that len False by (auto simp: nvalues_def)
    then show "hd args = args ! 0" "good_arg api (args ! 0)" using g by (auto simp: hd_conv_nth)
  qed
  have hk: "(if has idxNum 0x0300 then hd (tl args) else hd args) = args ! k" "good_arg api (args ! k)" if "has idxNum 0x3000"
  proof -
    have "k < length args" using that len False by (auto simp: nvalues_def k_def)
    then show "good_arg api (args ! k)" using g by simp
    show "(if has idxNum 0x0300 then hd (tl args) else hd args) = args ! k"
      using \<open>k < length args\<close> h0(1) that by (cases args) (auto simp: k_def hd_conv_nth)
  qed
  let ?mn = "if has idxNum 0x0300 then bound_min api (has idxNum 0x0200) (hd args) else Some SMALLEST_INT64"
  let ?mx = "if has idxNum 0x3000 then bound_max api (has idxNum 0x2000) (if has idxNum 0x0300 then hd (tl args) else hd args)
    else Some LARGEST_INT64"
  let ?P = "\<lambda>x. has idxNum 0x0300 \<longrightarrow> sat (if has idxNum 0x0200 then OpGt else OpGe) (num_of api (args ! 0)) x"
  let ?Q = "\<lambda>x. has idxNum 0x3000 \<longrightarrow> sat (if has idxNum 0x2000 then OpLt else OpLe) (num_of api (args ! k)) x"
  have A: "admits api idxNum args x \<longleftrightarrow> ?P x \<and> ?Q x" for x using False by (simp add: admits_def k_def)
  have mn: "case ?mn of None \<Rightarrow> \<forall>x. s64 x \<longrightarrow> \<not> ?P x | Some lo \<Rightarrow> s64 lo \<and> (\<forall>x. s64 x \<longrightarrow> (?P x \<longleftrightarrow> lo \<le> x))"
  proof (cases "has idxNum 0x0300")
    case True
    note h = h0 [OF disjI1 [OF True]]
    show ?thesis using bound_min_correct [OF h(2), of "has idxNum 0x0200"] unfolding h(1) by (simp only: True simp_thms if_True)
  qed (simp add: s64_def)
  have mx: "case ?mx of None \<Rightarrow> \<forall>x. s64 x \<longrightarrow> \<not> ?Q x | Some hi \<Rightarrow> s64 hi \<and> (\<forall>x. s64 x \<longrightarrow> (?Q x \<longleftrightarrow> x \<le> hi))"
  proof (cases "has idxNum 0x3000")
    case True
    note h = hk [OF True]
    show ?thesis using bound_max_correct [OF h(2), of "has idxNum 0x2000"] unfolding h(1) by (simp only: True simp_thms if_True)
  qed (simp add: s64_def)
  have F: "filter_bounds api idxNum args = (case ?mn of None \<Rightarrow> None | Some lo \<Rightarrow>
      (case ?mx of None \<Rightarrow> None | Some hi \<Rightarrow> if lo > hi then None else Some (lo, hi)))"
    using False by (simp add: filter_bounds_def)
  show ?thesis
    unfolding F A using mn mx by (cases ?mn; cases ?mx) (auto simp del: sat.simps)
qed

end
