(* ===== verification/Series_Query.thy ===== *)
theory Series_Query
  imports Series_Rows
begin

text \<open>
  Complete queries on \<^verbatim>\<open>generate_series\<close>: the filter, the scan that follows, LIMIT and OFFSET.
\<close>

section \<open>The rows of a plan\<close>

definition nlimits :: "int \<Rightarrow> nat" where
  "nlimits idxNum = (if has idxNum 0x20 then if has idxNum 0x40 then 2 else 1 else 0)"

text \<open>
  What a query should see, before LIMIT and OFFSET: the series, restricted to the values the
  constraints admit, in the requested order.
\<close>

definition plan_rows :: "sqlite3_api_routines \<Rightarrow> int \<Rightarrow> sqlite3_value list \<Rightarrow> int list" where
  "plan_rows api idxNum argv =
     (let step = step_of api idxNum argv;
          rows = filter (admits api idxNum (drop (nparams idxNum + nlimits idxNum) argv))
                   (series_list (start_of api idxNum argv) (stop_of api idxNum argv) step)
      in if reversed idxNum (step < 0) then rev rows else rows)"

definition plan_limit :: "sqlite3_api_routines \<Rightarrow> int \<Rightarrow> sqlite3_value list \<Rightarrow> int" where
  "plan_limit api idxNum argv = (if has idxNum 0x20 then value_int64 api (argv ! nparams idxNum) else - 1)"

definition plan_offset :: "sqlite3_api_routines \<Rightarrow> int \<Rightarrow> sqlite3_value list \<Rightarrow> int" where
  "plan_offset api idxNum argv =
     (if has idxNum 0x20 \<and> has idxNum 0x40 then value_int64 api (argv ! (nparams idxNum + 1)) else 0)"

text \<open>The arguments of a plan: as many as its bits announce, none of them NULL, all of them good.\<close>

definition plan_args :: "sqlite3_api_routines \<Rightarrow> int \<Rightarrow> sqlite3_value list \<Rightarrow> bool" where
  "plan_args api idxNum argv \<longleftrightarrow>
     length argv = nparams idxNum + nlimits idxNum + nvalues idxNum \<and>
     SQLITE_NULL \<notin> set argv \<and> (\<forall>v \<in> set argv. good_arg api v)"

lemma cur_list_s64:
  assumes "base_ok c" "x \<in> set (cur_list c)"
  shows "s64 x"
proof -
  have b: "s64 (iBase c)" "s64 (iTerm c)" "0 < iStep c" using assms(1) by (auto simp: base_ok_def)
  show ?thesis
  proof (cases "bDesc c")
    case True
    then have "x \<in> uminus ` set (series_list (- iBase c) (- iTerm c) (iStep c))"
      using assms(2) b(3) by (simp add: cur_list_def dir_def series_list_uminus)
    then show ?thesis using b by (auto simp: set_series_list s64_def)
  next
    case False
    then show ?thesis using assms(2) b by (auto simp: cur_list_def dir_def set_series_list s64_def)
  qed
qed

lemma filter_limits_eq:
  assumes "nlimits idxNum \<le> length rest"
  shows "filter_limits api idxNum rest =
    (if has idxNum 0x20 then value_int64 api (rest ! 0) else 0,
     if has idxNum 0x20 \<and> has idxNum 0x40 then value_int64 api (rest ! 1) else 0,
     drop (nlimits idxNum) rest)"
  using assms by (auto simp: filter_limits_def nlimits_def Let_def numeral_eq_Suc Suc_le_length_iff)

lemma constrain_correct:
  assumes ok: "base_ok d" and g: "\<forall>v \<in> set args. good_arg api v" and len: "nvalues idxNum \<le> length args"
  shows "case (if has idxNum 0x3380 then
      (case filter_bounds api idxNum args of None \<Rightarrow> Inl d | Some (lo, hi) \<Rightarrow> filter_narrow lo hi d) else Inr d) of
      Inl _ \<Rightarrow> filter (admits api idxNum args) (cur_list d) = []
    | Inr e \<Rightarrow> base_ok e \<and> cur_list e = filter (admits api idxNum args) (cur_list d) \<and> bDesc e = bDesc d"
proof (cases "has idxNum 0x3380")
  case False
  then have "\<not> has idxNum 0x80" "\<not> has idxNum 0x300" "\<not> has idxNum 0x3000"
    using has_subset [of "0x80" "0x3380"] has_subset [of "0x300" "0x3380"] has_subset [of "0x3000" "0x3380"] by auto
  then have "admits api idxNum args x" for x by (simp add: admits_def)
  then show ?thesis using False ok by simp
next
  case True
  note B = filter_bounds_correct [OF g len]
  show ?thesis
  proof (cases "filter_bounds api idxNum args")
    case None
    then have "\<not> admits api idxNum args x" if "x \<in> set (cur_list d)" for x
      using B cur_list_s64 [OF ok that] by simp
    then show ?thesis using True None by (simp add: filter_empty_conv)
  next
    case (Some p)
    obtain lo hi where p: "p = (lo, hi)" by force
    have lh: "s64 lo" "s64 hi" "\<And>x. s64 x \<Longrightarrow> admits api idxNum args x \<longleftrightarrow> lo \<le> x \<and> x \<le> hi"
      using B Some p by auto
    have "filter (admits api idxNum args) (cur_list d) = between lo hi (cur_list d)"
      unfolding between_def using lh(3) cur_list_s64 [OF ok] by (intro filter_cong) auto
    then show ?thesis using filter_narrow_correct [OF ok lh(1,2)] True Some p
      by (cases "filter_narrow lo hi d") simp_all
  qed
qed

lemma seriesFilter_stages:
  assumes "plan_args api idxNum argv"
  shows "(\<exists>d. seriesFilter api idxNum argv c = series_no_rows d \<and> plan_rows api idxNum argv = []) \<or>
    (\<exists>g. last_ok g \<and> cur_list g = plan_rows api idxNum argv \<and>
       bDesc g = ((step_of api idxNum argv < 0) \<noteq> reversed idxNum (step_of api idxNum argv < 0)) \<and>
       seriesFilter api idxNum argv c =
         (case filter_window idxNum (plan_limit api idxNum argv) (plan_offset api idxNum argv) g of
            Inl d \<Rightarrow> series_no_rows d | Inr h \<Rightarrow> h\<lparr>iValue := iBase h, bDone := False\<rparr>))"
proof -
  let ?b = "start_of api idxNum argv" and ?t = "stop_of api idxNum argv" and ?s = "step_of api idxNum argv"
  let ?rest = "drop (nparams idxNum) argv" and ?args = "drop (nparams idxNum + nlimits idxNum) argv"
  have a: "length argv = nparams idxNum + nlimits idxNum + nvalues idxNum" "SQLITE_NULL \<notin> set argv"
    "\<forall>v \<in> set argv. good_arg api v" "\<forall>v \<in> set argv. s64 (value_int64 api v)"
    using assms by (auto simp: plan_args_def good_arg_def)
  have P: "case filter_params api idxNum argv c of Inl _ \<Rightarrow> series_list ?b ?t ?s = []
    | Inr (d, rest) \<Rightarrow> base_ok d \<and> rest = ?rest \<and> bDesc d = (?s < 0) \<and> cur_list d = series_list ?b ?t ?s"
    using a by (intro filter_params_correct) auto
  have L: "filter_limits api idxNum ?rest = (if has idxNum 0x20 then plan_limit api idxNum argv else 0, plan_offset api idxNum argv, ?args)"
    using filter_limits_eq [of idxNum ?rest api] a(1)
    by (auto simp: plan_limit_def plan_offset_def add.commute nlimits_def)
  have W: "filter_window idxNum (if has idxNum 0x20 then l else 0) off g = filter_window idxNum l off g" for l off g
    by (simp add: filter_window_def)
  show ?thesis
  proof (cases "filter_params api idxNum argv c")
    case (Inl d)
    then have "plan_rows api idxNum argv = []" using P by (simp add: plan_rows_def Let_def)
    then show ?thesis using Inl a(2) by (intro disjI1 exI [of _ d]) (simp add: seriesFilter_def)
  next
    case (Inr dr)
    then obtain d where d: "filter_params api idxNum argv c = Inr (d, ?rest)" "base_ok d" "bDesc d = (?s < 0)"
      "cur_list d = series_list ?b ?t ?s" using P by auto
    define st where "st = (if has idxNum 0x3380 then
      (case filter_bounds api idxNum ?args of None \<Rightarrow> Inl d | Some (lo, hi) \<Rightarrow> filter_narrow lo hi d) else Inr d)"
    have C: "case st of Inl _ \<Rightarrow> filter (admits api idxNum ?args) (cur_list d) = []
      | Inr e \<Rightarrow> base_ok e \<and> cur_list e = filter (admits api idxNum ?args) (cur_list d) \<and> bDesc e = bDesc d"
      unfolding st_def using d(2) a by (intro constrain_correct) (auto dest: in_set_dropD)
    have F: "seriesFilter api idxNum argv c =
      (case andthen st (\<lambda>e. andthen (filter_last e) (\<lambda>f.
         andthen (filter_window idxNum (plan_limit api idxNum argv) (plan_offset api idxNum argv) (filter_order idxNum f))
           (\<lambda>h. Inr (h\<lparr>iValue := iBase h, bDone := False\<rparr>)))) of Inl d \<Rightarrow> series_no_rows d | Inr h \<Rightarrow> h)"
      using a(2) by (simp add: seriesFilter_def d(1) L W st_def)
    let ?rows = "filter (admits api idxNum ?args) (series_list ?b ?t ?s)"
    have R: "plan_rows api idxNum argv = (if reversed idxNum (?s < 0) then rev ?rows else ?rows)"
      by (simp add: plan_rows_def Let_def)
    show ?thesis
    proof (cases st)
      case (Inl e)
      then have "plan_rows api idxNum argv = []" using C d(4) R by simp
      then show ?thesis using F Inl by (intro disjI1 exI [of _ e]) simp
    next
      case st: (Inr e)
      then have e: "base_ok e" "cur_list e = ?rows" "bDesc e = (?s < 0)" using C d by auto
      show ?thesis
      proof (cases "filter_last e")
        case (Inl f)
        then have "plan_rows api idxNum argv = []" using filter_last_correct [OF e(1)] e(2) R by simp
        then show ?thesis using F st Inl by (intro disjI1 exI [of _ f]) simp
      next
        case (Inr f)
        then have f: "last_ok f" "cur_list f = ?rows" "bDesc f = (?s < 0)" using filter_last_correct [OF e(1)] e by auto
        note O = filter_order_correct [OF f(1), of idxNum]
        have "seriesFilter api idxNum argv c =
         (case filter_window idxNum (plan_limit api idxNum argv) (plan_offset api idxNum argv) (filter_order idxNum f) of
            Inl d \<Rightarrow> series_no_rows d | Inr h \<Rightarrow> h\<lparr>iValue := iBase h, bDone := False\<rparr>)"
          unfolding F st andthen.simps Inr
          by (cases "filter_window idxNum (plan_limit api idxNum argv) (plan_offset api idxNum argv) (filter_order idxNum f)") simp_all
        then show ?thesis using O f R by (intro disjI2 exI [of _ "filter_order idxNum f"]) auto
      qed
    qed
  qed
qed

section \<open>LIMIT and OFFSET\<close>

lemma length_ap [simp]: "length (ap b s n) = n"
  by (simp add: ap_def)

lemma drop_ap: "drop k (ap b s n) = ap (b + s * int k) s (n - k)"
  by (rule nth_equalityI) (auto simp: ap_def algebra_simps)

lemma take_ap: "take k (ap b s n) = ap b s (min k n)"
  by (rule nth_equalityI) (auto simp: ap_def)

text \<open>A cursor whose terminal value is exact, as a progression of \<open>steps + 1\<close> values.\<close>

lemma last_ok_steps:
  assumes "last_ok c"
  obtains k :: nat where "seriesSteps c = int k" "iTerm c = iBase c + dir c * int k" "cur_list c = ap (iBase c) (dir c) (Suc k)"
    "iStep c * int k < 2 ^ 64"
proof -
  have s: "0 < iStep c" "s64 (iBase c)" "s64 (iTerm c)" using assms by (auto simp: last_ok_def base_ok_def)
  define a where "a = (if bDesc c then iBase c - iTerm c else iTerm c - iBase c)"
  have a: "0 \<le> a" "iStep c dvd a" "a < 2 ^ 64"
    using assms s dvd_minus_iff [of "iStep c" "iBase c - iTerm c"] by (auto simp: last_ok_def a_def s64_def)
  define k where "k = nat (a div iStep c)"
  have k: "int k = a div iStep c" using a(1) s(1) by (simp add: k_def pos_imp_zdiv_nonneg_iff)
  then have ak: "a = iStep c * int k" using a(2) by simp
  have "seriesSteps c = int k" using k s assms by (auto simp: seriesSteps_def a_def span64_id last_ok_def)
  moreover have "iTerm c = iBase c + dir c * int k" using ak by (auto simp: a_def dir_def split: if_splits)
  moreover have "cur_list c = ap (iBase c) (dir c) (Suc k)"
    using a(1) s(1) by (auto simp: cur_list_def dir_def series_list_def k_def a_def)
  ultimately show thesis using that ak a(3) by metis
qed

lemma last_okI:
  assumes "last_ok c" "s64 b" "s64 (b + dir c * int k)"
  shows "last_ok (c\<lparr>iBase := b, iTerm := b + dir c * int k\<rparr>)"
    "cur_list (c\<lparr>iBase := b, iTerm := b + dir c * int k\<rparr>) = ap b (dir c) (Suc k)"
proof -
  have s: "0 < iStep c" using assms by (auto simp: last_ok_def base_ok_def)
  then have "0 \<le> iStep c * int k" by simp
  then show "last_ok (c\<lparr>iBase := b, iTerm := b + dir c * int k\<rparr>)"
    using assms by (auto simp: last_ok_def base_ok_def dir_def)
  show "cur_list (c\<lparr>iBase := b, iTerm := b + dir c * int k\<rparr>) = ap b (dir c) (Suc k)"
    using s by (auto simp: cur_list_def dir_def series_list_def mult_le_0_iff)
qed

lemma between_s64: "s64 a \<Longrightarrow> s64 b \<Longrightarrow> min a b \<le> x \<Longrightarrow> x \<le> max a b \<Longrightarrow> s64 x"
  by (auto simp: s64_def min_def max_def split: if_splits)

lemma ap_mem_s64:
  assumes "last_ok c" "iTerm c = iBase c + dir c * int k" "j \<le> k"
  shows "s64 (iBase c + dir c * int j)"
proof -
  have s: "0 < iStep c" "s64 (iBase c)" "s64 (iTerm c)" using assms by (auto simp: last_ok_def base_ok_def)
  have "iStep c * int j \<le> iStep c * int k" "0 \<le> iStep c * int j" using s(1) assms(3) by (auto intro: mult_left_mono)
  then show ?thesis using s(2,3) unfolding assms(2) by (intro between_s64 [OF s(2,3)]) (auto simp: assms(2) dir_def min_def max_def)
qed

text \<open>
  The window on an exact cursor.  The terminal value of a limited scan is computed upwards, so the
  statement is for ascending cursors when there is a limit.
\<close>

lemma filter_window_correct:
  assumes c: "last_ok c" and off: "s64 off" and lim: "s64 l" "l < 0 \<or> (1 \<le> l \<and> \<not> bDesc c)" and h: "has idxNum 0x20"
  shows "case filter_window idxNum l off c of Inl _ \<Rightarrow> drop (nat off) (cur_list c) = []
    | Inr d \<Rightarrow> last_ok d \<and> (cur_list d = drop (nat off) (cur_list c) \<or>
        (1 \<le> l \<and> cur_list d = take (nat l) (drop (nat off) (cur_list c))))"
proof -
  obtain k where k: "seriesSteps c = int k" "iTerm c = iBase c + dir c * int k" "cur_list c = ap (iBase c) (dir c) (Suc k)"
    "iStep c * int k < 2 ^ 64" by (rule last_ok_steps [OF c])
  have s: "0 < iStep c" "s64 (iTerm c)" using c by (auto simp: last_ok_def base_ok_def)
  define ofs where "ofs = nat off"
  define f where "f = (if off > 0 then
             if seriesSteps c < to_u64 off then Inl c
             else if bDesc c
             then Inr (c\<lparr>iBase := sub64 (iBase c) (to_u64 (iStep c * off))\<rparr>)
             else Inr (c\<lparr>iBase := add64 (iBase c) (to_u64 (iStep c * off))\<rparr>)
           else Inr c)"
  have small: "iStep c * int j < 2 ^ 64" "0 \<le> iStep c * int j" if "j \<le> k" for j
    using order.strict_trans1 [OF mult_left_mono [of "int j" "int k" "iStep c"] k(4)] that s(1) by simp_all
  have F: "f = (if k < ofs then Inl c else Inr (c\<lparr>iBase := iBase c + dir c * int ofs\<rparr>))"
  proof (cases "off > 0")
    case True
    then have oo: "off = int ofs" "to_u64 off = int ofs" using off by (auto simp: ofs_def s64_def to_u64_def)
    show ?thesis
    proof (cases "k < ofs")
      case False
      then have "to_u64 (iStep c * off) = iStep c * int ofs" unfolding oo(1) using small [of ofs] by (intro to_u64_id) auto
      moreover have "s64 (iBase c + dir c * int ofs)" using ap_mem_s64 [OF c k(2)] False by simp
      moreover have "s64 (iBase c)" using c by (simp add: last_ok_def base_ok_def)
      ultimately show ?thesis using False True k(1) oo(2) small [of ofs]
        by (cases "bDesc c") (simp_all add: f_def dir_def add64_id sub64_id)
    qed (use True k(1) oo(2) in \<open>simp add: f_def\<close>)
  qed (simp add: f_def ofs_def)
  have W: "filter_window idxNum l off c = andthen f (\<lambda>p. Inr (if l \<ge> 0 \<and> seriesSteps p > to_u64 l
      then p\<lparr>iTerm := add64 (iBase p) (to_u64 ((l - 1) * iStep p))\<rparr> else p))"
    using h by (simp add: filter_window_def f_def)
  show ?thesis
  proof (cases "k < ofs")
    case True
    then show ?thesis unfolding W F using k(3) by (simp add: ofs_def [symmetric])
  next
    case False
    let ?b = "iBase c + dir c * int ofs"
    define p where "p = c\<lparr>iBase := ?b\<rparr>"
    have t: "iTerm c = ?b + dir c * int (k - ofs)" using k(2) False by (simp add: algebra_simps)
    have b: "s64 ?b" using ap_mem_s64 [OF c k(2)] False by simp
    have "c\<lparr>iBase := ?b, iTerm := ?b + dir c * int (k - ofs)\<rparr> = p" by (simp add: p_def t [symmetric])
    then have p: "last_ok p" "cur_list p = ap ?b (dir c) (Suc (k - ofs))"
      using last_okI [OF c b, of "k - ofs"] s(2) t by auto
    have L: "cur_list p = drop ofs (cur_list c)" using p(2) k(3) False by (simp add: drop_ap Suc_diff_le)
    have st: "seriesSteps p = int (k - ofs)"
      by (rule last_ok_steps [OF p(1)]) (use p(2) in \<open>metis length_ap nat.inject\<close>)
    have W': "filter_window idxNum l off c = Inr (if l \<ge> 0 \<and> int (k - ofs) > to_u64 l
      then p\<lparr>iTerm := add64 ?b (to_u64 ((l - 1) * iStep c))\<rparr> else p)"
      unfolding W F using False by (simp add: st [unfolded p_def] p_def)
    show ?thesis
    proof (cases "l \<ge> 0 \<and> int (k - ofs) > to_u64 l")
      case False
      then have "filter_window idxNum l off c = Inr p" unfolding W' by (simp only: if_False)
      then show ?thesis using p(1) L by (simp add: ofs_def)
    next
      case True
      then have l: "1 \<le> l" "\<not> bDesc c" "to_u64 l = l" using lim by (auto simp: to_u64_def s64_def)
      define j where "j = nat (l - 1)"
      have j: "int j = l - 1" "j \<le> k - ofs" "nat l = Suc j" using l True by (auto simp: j_def)
      have u: "to_u64 ((l - 1) * iStep c) = iStep c * int j"
        using small [of j] j by (subst mult.commute, subst j(1) [symmetric]) (intro to_u64_id, auto)
      have bj: "s64 (?b + dir c * int j)"
        using ap_mem_s64 [OF c k(2), of "ofs + j"] j(2) \<open>\<not> k < ofs\<close> by (simp add: algebra_simps)
      have "p\<lparr>iTerm := add64 ?b (to_u64 ((l - 1) * iStep c))\<rparr> = c\<lparr>iBase := ?b, iTerm := ?b + dir c * int j\<rparr>"
        using bj l(2) unfolding u by (simp add: p_def dir_def add64_id)
      moreover have "take (nat l) (cur_list p) = ap ?b (dir c) (Suc j)"
        using j by (simp add: p(2) take_ap min_def)
      moreover have "filter_window idxNum l off c = Inr (p\<lparr>iTerm := add64 ?b (to_u64 ((l - 1) * iStep c))\<rparr>)"
        unfolding W' using True by (simp only: simp_thms if_True)
      ultimately show ?thesis using last_okI [OF c b bj] l(1) L by (simp add: ofs_def)
    qed
  qed
qed

section \<open>Properties\<close>

lemma no_rows_cursor: "cursor_ok (series_no_rows d)" "remaining (series_no_rows d) = []"
  by (simp_all add: series_no_rows_def cursor_ok_def remaining_def)

lemma seriesFilter_rows:
  assumes "plan_args api idxNum argv" "\<not> has idxNum 0x20"
  shows "cursor_ok (seriesFilter api idxNum argv c)"
    "remaining (seriesFilter api idxNum argv c) = plan_rows api idxNum argv"
proof -
  have "filter_window idxNum l off g = Inr g" for l off g using assms(2) by (simp add: filter_window_def)
  then have "cursor_ok (seriesFilter api idxNum argv c) \<and>
      remaining (seriesFilter api idxNum argv c) = plan_rows api idxNum argv"
    using seriesFilter_stages [OF assms(1), of c] no_rows_cursor positioned by fastforce
  then show "cursor_ok (seriesFilter api idxNum argv c)"
    "remaining (seriesFilter api idxNum argv c) = plan_rows api idxNum argv" by auto
qed

lemma seriesFilter_window:
  fixes c :: series_cursor
  assumes a: "plan_args api idxNum argv" and h: "has idxNum 0x20"
    and l: "plan_limit api idxNum argv < 0 \<or>
      (1 \<le> plan_limit api idxNum argv \<and> (step_of api idxNum argv < 0) = reversed idxNum (step_of api idxNum argv < 0))"
  defines "rows \<equiv> drop (nat (plan_offset api idxNum argv)) (plan_rows api idxNum argv)"
    and "c' \<equiv> seriesFilter api idxNum argv c"
  shows "cursor_ok c'" "remaining c' = rows \<or>
    (1 \<le> plan_limit api idxNum argv \<and> remaining c' = take (nat (plan_limit api idxNum argv)) rows)"
proof -
  let ?l = "plan_limit api idxNum argv" and ?o = "plan_offset api idxNum argv"
  have len: "length argv = nparams idxNum + nlimits idxNum + nvalues idxNum"
    and g: "\<And>i. i < length argv \<Longrightarrow> s64 (value_int64 api (argv ! i))"
    using a by (auto simp: plan_args_def good_arg_def)
  have s: "s64 ?l" "s64 ?o"
    using h g [of "nparams idxNum"] g [of "nparams idxNum + 1"] len
    by (auto simp: plan_limit_def plan_offset_def nlimits_def s64_def)
  have "cursor_ok c' \<and> (remaining c' = rows \<or> (1 \<le> ?l \<and> remaining c' = take (nat ?l) rows))"
  proof (rule disjE [OF seriesFilter_stages [OF a, of c]])
    assume "\<exists>d. seriesFilter api idxNum argv c = series_no_rows d \<and> plan_rows api idxNum argv = []"
    then show ?thesis using no_rows_cursor by (auto simp: c'_def rows_def)
  next
    assume "\<exists>g. last_ok g \<and> cur_list g = plan_rows api idxNum argv \<and>
       bDesc g = ((step_of api idxNum argv < 0) \<noteq> reversed idxNum (step_of api idxNum argv < 0)) \<and>
       seriesFilter api idxNum argv c =
         (case filter_window idxNum ?l ?o g of
            Inl d \<Rightarrow> series_no_rows d | Inr h \<Rightarrow> h\<lparr>iValue := iBase h, bDone := False\<rparr>)"
    then obtain g where g: "last_ok g" "cur_list g = plan_rows api idxNum argv"
       "bDesc g = ((step_of api idxNum argv < 0) \<noteq> reversed idxNum (step_of api idxNum argv < 0))"
       "c' = (case filter_window idxNum ?l ?o g of
            Inl d \<Rightarrow> series_no_rows d | Inr h \<Rightarrow> h\<lparr>iValue := iBase h, bDone := False\<rparr>)" unfolding c'_def by blast
    have "?l < 0 \<or> (1 \<le> ?l \<and> \<not> bDesc g)" using l g(3) by auto
    then have W: "case filter_window idxNum ?l ?o g of Inl _ \<Rightarrow> rows = []
      | Inr d \<Rightarrow> last_ok d \<and> (cur_list d = rows \<or> (1 \<le> ?l \<and> cur_list d = take (nat ?l) rows))"
      unfolding rows_def g(2) [symmetric] by (rule filter_window_correct [OF g(1) s(2,1) _ h])
    show ?thesis
    proof (cases "filter_window idxNum ?l ?o g")
      case (Inl d)
      then show ?thesis using W g(4) by (simp add: no_rows_cursor)
    next
      case (Inr d)
      then show ?thesis using W g(4) positioned [of d] by simp
    qed
  qed
  then show "cursor_ok c'" "remaining c' = rows \<or> (1 \<le> ?l \<and> remaining c' = take (nat ?l) rows)" by auto
qed

lemma ap_code: "ap b s n = map (\<lambda>i. b + s * int i) [0..<n]"
  by (simp add: ap_def)

text \<open>
  C25: Reading a series through the virtual table interface returns exactly the values
  start, start + step, ... up to stop that satisfy every constraint of the plan, in the requested order, whatever the
  64-bit parameters are, and the scan ends: after as many rows as there are values the cursor is
  at its end.  This is for plans without LIMIT; the arguments are not NULL, and floating point
  constraints are not exactly at an end of the 64-bit range.
\<close>

theorem series_rows:
  assumes "plan_args api idxNum argv" "\<not> has idxNum 0x20"
  shows "scan seriesEof seriesNext (\<lambda>c. seriesColumn c 0) n (seriesFilter api idxNum argv c) =
      take n (map ResInt (plan_rows api idxNum argv))
    \<and> seriesEof ((seriesNext ^^ length (plan_rows api idxNum argv)) (seriesFilter api idxNum argv c))"
  using gs.scan_take [OF seriesFilter_rows(1) [OF assms]] gs.scan_ends [OF seriesFilter_rows(1) [OF assms]]
  by (simp add: seriesFilter_rows [OF assms])


text \<open>
  A LIMIT on a descending scan sets a terminal value above the base, which can wrap around to a
  value of the series: of the 16 values of generate_series(-2^63, 2^63 - 1, 2^60) in descending order, LIMIT 13
  reads the first 5 and then finds the end.
\<close>

theorem series_descending_limit:
  assumes "api_spec api"
  defines "argv \<equiv> [SQLITE_INTEGER (- (2 ^ 63)), SQLITE_INTEGER (2 ^ 63 - 1), SQLITE_INTEGER (2 ^ 60), SQLITE_INTEGER 13]"
  shows "length (plan_rows api 0x2f argv) = 16
    \<and> scan seriesEof seriesNext (\<lambda>c. seriesColumn c 0) 13 (seriesFilter api 0x2f argv c)
        = take 5 (map ResInt (plan_rows api 0x2f argv))"
proof -
  have h: "has 47 1" "has 47 2" "has 47 4" "has 47 5" "has 47 6" "\<not> has 47 64" "\<not> has 47 0x3380" "has 47 32" "has 47 8"
    "\<not> has 47 0x380" "\<not> has 47 0x3080" "\<not> has 47 0x300" "\<not> has 47 0x3000" "\<not> has 47 0x80" "\<not> has 47 16"
    by (simp_all add: has_def)
  have P: "plan_rows api 47 argv = rev (ap (- (2 ^ 63)) (2 ^ 60) 16)"
    by (simp add: plan_rows_def Let_def start_of_def stop_of_def step_of_def argv_def h api_spec_simps [OF assms(1)]
        admits_def reversed_def series_list_def)
  have "seriesFilter api 47 argv c = c\<lparr>iOBase := - (2 ^ 63), iOTerm := 2 ^ 63 - 1, iOStep := 2 ^ 60,
      iBase := 2 ^ 63 - 2 ^ 60, iTerm := 11 * 2 ^ 60 - 2 ^ 63, iStep := 2 ^ 60, iValue := 2 ^ 63 - 2 ^ 60, bDesc := True, bDone := False\<rparr>"
    by (simp add: seriesFilter_def filter_params_def filter_read_def filter_limits_def filter_last_def filter_order_def
        filter_window_def seriesSteps_def span64_def add64_def sub64_def to_u64_def to_s64_def argv_def h
        api_spec_simps [OF assms(1)])
  then have "scan seriesEof seriesNext (\<lambda>c. seriesColumn c 0) 13 (seriesFilter api 47 argv c) =
    map ResInt (take 5 (rev (ap (- (2 ^ 63)) (2 ^ 60) 16)))"
    by (simp add: numeral_eq_Suc seriesEof_def seriesNext_def seriesColumn_def ap_def sub64_def to_u64_def to_s64_def)
  then show ?thesis by (simp add: P take_map)
qed

text \<open>Evaluating plans on the reference table.\<close>

lemmas plan_evals = plan_args_def plan_rows_def plan_limit_def plan_offset_def nparams_def nlimits_def nvalues_def
  start_of_def stop_of_def step_of_def admits_def reversed_def series_list_def ap_def good_arg_def has_def Let_def
  ref_api_def s64_def num_of_def dnum_less_def

lemma dbl_num_2_5: "dbl_num 0x4004000000000000 = Fin (5 / 2)"
  by code_simp

theorem series_rows_witness:
  "scan seriesEof seriesNext (\<lambda>c. seriesColumn c 0) 9
     (seriesFilter ref_api 0x20f [SQLITE_INTEGER 1, SQLITE_INTEGER 11, SQLITE_INTEGER 3, SQLITE_FLOAT 0x4004000000000000] zeroed_cursor)
   = [ResInt 10, ResInt 7, ResInt 4]"
proof -
  let ?argv = "[SQLITE_INTEGER 1, SQLITE_INTEGER 11, SQLITE_INTEGER 3, SQLITE_FLOAT 0x4004000000000000]"
  have "plan_rows ref_api 0x20f ?argv = [10, 7, 4]"
    by (simp add: plan_evals dbl_num_2_5 numeral_eq_Suc)
  moreover have "plan_args ref_api 0x20f ?argv" by (simp add: plan_evals dbl_num_2_5)
  ultimately show ?thesis using series_rows [of ref_api "0x20f" ?argv 9 zeroed_cursor] by (simp add: has_def)
qed


theorem series_descending_limit_witness:
  "scan seriesEof seriesNext (\<lambda>c. seriesColumn c 0) 13
     (seriesFilter ref_api 0x2f [SQLITE_INTEGER (- (2 ^ 63)), SQLITE_INTEGER (2 ^ 63 - 1), SQLITE_INTEGER (2 ^ 60), SQLITE_INTEGER 13]
        zeroed_cursor)
   \<noteq> take 13 (map ResInt (plan_rows ref_api 0x2f
       [SQLITE_INTEGER (- (2 ^ 63)), SQLITE_INTEGER (2 ^ 63 - 1), SQLITE_INTEGER (2 ^ 60), SQLITE_INTEGER 13]))"
  (is "?l \<noteq> ?r")
proof -
  have "length ?l = 5 \<and> length ?r = 13"
    using series_descending_limit [OF api_spec_ref_api, of zeroed_cursor] by simp
  moreover have "length ?l = length ?r" if "?l = ?r" using that by (rule arg_cong)
  ultimately show ?thesis by (intro notI) linarith
qed

lemma dbl_num_edges: "dbl_num 0xC3E0000000000000 = Fin (- (2 ^ 63))" "dbl_num 0x43E0000000000000 = Fin (2 ^ 63)"
  by code_simp+

text \<open>
  Floating point constraints exactly at an end of the 64-bit range are read wrongly.  With the value
  \<open>-2^63\<close>, \<^verbatim>\<open>value >\<close> admits the least integer and \<^verbatim>\<open>value <=\<close> admits nothing, although the
  least integer satisfies it; with \<open>2^63\<close>, \<^verbatim>\<open>value >=\<close> and \<^verbatim>\<open>value =\<close> admit the greatest integer,
  which satisfies neither.
\<close>

theorem series_float_edges:
  assumes "api_spec api"
  shows "filter_bounds api 0x200 [SQLITE_FLOAT 0xC3E0000000000000] = Some (SMALLEST_INT64, LARGEST_INT64)
      \<and> \<not> admits api 0x200 [SQLITE_FLOAT 0xC3E0000000000000] SMALLEST_INT64
    \<and> filter_bounds api 0x1000 [SQLITE_FLOAT 0xC3E0000000000000] = None
      \<and> admits api 0x1000 [SQLITE_FLOAT 0xC3E0000000000000] SMALLEST_INT64
    \<and> filter_bounds api 0x100 [SQLITE_FLOAT 0x43E0000000000000] = Some (LARGEST_INT64, LARGEST_INT64)
      \<and> \<not> admits api 0x100 [SQLITE_FLOAT 0x43E0000000000000] LARGEST_INT64
    \<and> filter_bounds api 0x80 [SQLITE_FLOAT 0x43E0000000000000] = Some (LARGEST_INT64, LARGEST_INT64)
      \<and> \<not> admits api 0x80 [SQLITE_FLOAT 0x43E0000000000000] LARGEST_INT64"
  by (simp add: filter_bounds_def bound_eq_def bound_min_def bound_max_def admits_def has_def Let_def num_of_def
      api_spec_simps [OF assms] dbl_num_edges dnum_less_def dnum_eq_def seriesRealToI64_def)

theorem series_float_edges_witness:
  "filter_bounds ref_api 0x1000 [SQLITE_FLOAT 0xC3E0000000000000] = None"
  using series_float_edges [OF api_spec_ref_api] by simp

end
