(* ===== verification/Series_Plan.thy ===== *)
theory Series_Plan
  imports Series_Query
begin

text \<open>
  Planning a query on \<^verbatim>\<open>generate_series\<close>: a model of \<^verbatim>\<open>seriesBestIndex\<close> and of the module's
  registration in \<^verbatim>\<open>series.c\<close>, and the agreement between the plan and what \<^verbatim>\<open>seriesFilter\<close> reads.
  The core's part, evaluating the right-hand sides and passing those with an argument number, is
  \<open>argv_of\<close>.
\<close>

section \<open>The planner\<close>

text \<open>The local variables of the loop over the constraints.\<close>

record best_state =
  idx :: int
  bStartSeen :: bool
  unusableMask :: int
  aIdx :: "int list"

text \<open>A usable constraint on the value or the rowid.\<close>

definition best_value :: "int \<Rightarrow> int \<Rightarrow> best_state \<Rightarrow> best_state" where
  "best_value i oper s =
     (if oper = CONSTRAINT_EQ \<or> oper = CONSTRAINT_IS then
        s\<lparr>idx := (idx s OR 0x0080) AND NOT 0x3300, aIdx := (aIdx s)[5 := i, 6 := - 1], bStartSeen := True\<rparr>
      else if oper = CONSTRAINT_GE then
        if has (idx s) 0x0080 then s
        else s\<lparr>idx := (idx s OR 0x0100) AND NOT 0x0200, aIdx := (aIdx s)[5 := i], bStartSeen := True\<rparr>
      else if oper = CONSTRAINT_GT then
        if has (idx s) 0x0080 then s
        else s\<lparr>idx := (idx s OR 0x0200) AND NOT 0x0100, aIdx := (aIdx s)[5 := i], bStartSeen := True\<rparr>
      else if oper = CONSTRAINT_LE then
        if has (idx s) 0x0080 then s
        else s\<lparr>idx := (idx s OR 0x1000) AND NOT 0x2000, aIdx := (aIdx s)[6 := i]\<rparr>
      else if oper = CONSTRAINT_LT then
        if has (idx s) 0x0080 then s
        else s\<lparr>idx := (idx s OR 0x2000) AND NOT 0x1000, aIdx := (aIdx s)[6 := i]\<rparr>
      else s)"

definition best_constraint :: "int \<Rightarrow> index_constraint \<Rightarrow> best_state \<Rightarrow> best_state" where
  "best_constraint i c s =
     (if c_op c \<ge> CONSTRAINT_LIMIT \<and> c_op c \<le> CONSTRAINT_OFFSET then
        if \<not> usable c then s
        else if c_op c = CONSTRAINT_LIMIT then s\<lparr>aIdx := (aIdx s)[3 := i], idx := idx s OR 0x20\<rparr>
        else s\<lparr>aIdx := (aIdx s)[4 := i], idx := idx s OR 0x40\<rparr>
      else if iColumn c < 1 then
        if (iColumn c = 0 \<or> iColumn c = - 1) \<and> usable c then best_value i (c_op c) s else s
      else
        let iCol = nat (iColumn c - 1);
            iMask = push_bit iCol 1;
            s = (if iCol = 0 \<and> c_op c = CONSTRAINT_EQ then s\<lparr>bStartSeen := True\<rparr> else s)
        in if \<not> usable c then s\<lparr>unusableMask := unusableMask s OR iMask\<rparr>
           else if c_op c = CONSTRAINT_EQ then s\<lparr>idx := idx s OR iMask, aIdx := (aIdx s)[iCol := i]\<rparr>
           else s)"

fun best_loop :: "int \<Rightarrow> index_constraint list \<Rightarrow> best_state \<Rightarrow> best_state" where
  "best_loop i [] s = s"
| "best_loop i (c # cs) s = best_loop (i + 1) cs (best_constraint i c s)"

text \<open>Numbering the arguments; \<^verbatim>\<open>SQLITE_SERIES_CONSTRAINT_VERIFY\<close> is 0, so every one is omitted from the core's test.\<close>

fun best_number :: "int list \<Rightarrow> int \<Rightarrow> constraint_usage list \<Rightarrow> constraint_usage list" where
  "best_number [] nArg us = us"
| "best_number (j # js) nArg us =
     (if j \<ge> 0 then best_number js (nArg + 1) (us[nat j := \<lparr>argvIndex = nArg + 1, omit = True\<rparr>])
      else best_number js nArg us)"

definition best_missing :: string where
  "best_missing = ''first argument to \"generate_series()\" missing or unusable''"

text \<open>The code, the error message, the updated information.\<close>

definition seriesBestIndex :: "index_info \<Rightarrow> int \<times> string option \<times> index_info" where
  "seriesBestIndex info =
     (let s = best_loop 0 (aConstraint info)
                \<lparr>idx = 0, bStartSeen = False, unusableMask = 0, aIdx = replicate 7 (- 1)\<rparr>;
          s = (if aIdx s ! 3 = 0 then s\<lparr>idx := idx s AND NOT 0x60, aIdx := (aIdx s)[4 := 0]\<rparr> else s);
          info = info\<lparr>aConstraintUsage := best_number (aIdx s) 0 (aConstraintUsage info)\<rparr>
      in if \<not> bStartSeen s then (SQLITE_ERROR, Some best_missing, info)
         else if unusableMask s AND NOT (idx s) \<noteq> 0 then (SQLITE_CONSTRAINT, None, info)
         else
           let (n, info) =
             (if idx s AND 0x03 = 0x03 then
                let info = info\<lparr>estimatedCost := 2 - (if has (idx s) 4 then 1 else 0), estimatedRows := 1000\<rparr>
                in case aOrderBy info of
                     [] \<Rightarrow> (idx s, info)
                   | b # _ \<Rightarrow>
                       if ob_column b = 0
                       then (idx s OR (if ob_desc b then 0x08 else 0x10), info\<lparr>orderByConsumed := True\<rparr>)
                       else (idx s, info)
              else if idx s AND 0x21 = 0x21 then (idx s, info\<lparr>estimatedRows := 2500\<rparr>)
              else (idx s, info\<lparr>estimatedRows := 2147483647\<rparr>))
           in (SQLITE_OK, None, info\<lparr>plan_idxNum := n\<rparr>))"

text \<open>Registration of the module.\<close>

definition series_module :: registration where
  "series_module = \<lparr>rg_kind = RegModule, rg_name = ''generate_series'', rg_nArg = 0, rg_user = False, rg_func = ''seriesModule''\<rparr>"

definition sqlite3_series_init :: "int \<Rightarrow> bool \<Rightarrow> (registration \<Rightarrow> int) \<Rightarrow> connection \<Rightarrow> int \<times> string option \<times> connection" where
  "sqlite3_series_init libversion pzErrMsg rcs db =
     (if libversion < 3008012 \<and> pzErrMsg then
        (SQLITE_ERROR, Some ''generate_series() requires SQLite 3.8.12 or later'', db)
      else let (rc, db) = create rcs series_module db in (rc, None, db))"

section \<open>The plan's invariant\<close>

lemma has_OR: "has (n OR m) m' \<longleftrightarrow> has n m' \<or> m AND m' \<noteq> 0"
  by (simp add: has_def bit.conj_disj_distrib2 or_eq_0_iff)

lemma has_0 [simp]: "\<not> has n 0"
  by (simp add: has_def)

lemma has_AND: "has (n AND k) m \<longleftrightarrow> has n (k AND m)"
  by (simp add: has_def and.assoc)

text \<open>The slot of \<^verbatim>\<open>aIdx\<close> a constraint can take.\<close>

definition slot_of :: "index_constraint \<Rightarrow> nat option" where
  "slot_of c =
     (if \<not> usable c then None
      else if c_op c = CONSTRAINT_LIMIT then Some 3
      else if c_op c = CONSTRAINT_OFFSET then Some 4
      else if iColumn c = 0 \<or> iColumn c = - 1 then
        if c_op c \<in> {CONSTRAINT_EQ, CONSTRAINT_IS, CONSTRAINT_GE, CONSTRAINT_GT} then Some 5
        else if c_op c \<in> {CONSTRAINT_LE, CONSTRAINT_LT} then Some 6 else None
      else if c_op c = CONSTRAINT_EQ \<and> 1 \<le> iColumn c then Some (nat (iColumn c - 1)) else None)"

text \<open>The bit a constraint on the value sets.\<close>

definition value_bit :: "int \<Rightarrow> int" where
  "value_bit oper = (if oper = CONSTRAINT_GE then 0x100 else if oper = CONSTRAINT_GT then 0x200
     else if oper = CONSTRAINT_LE then 0x1000 else if oper = CONSTRAINT_LT then 0x2000 else 0x80)"

definition slot_mask :: "nat \<Rightarrow> int" where
  "slot_mask k = [1, 2, 4, 0x20, 0x40, 0x380, 0x3000] ! k"

definition slot_inv :: "index_constraint list \<Rightarrow> int \<Rightarrow> int \<Rightarrow> nat \<Rightarrow> int \<Rightarrow> bool" where
  "slot_inv cs n i k j \<longleftrightarrow> j < i \<and> (has n (slot_mask k) \<longleftrightarrow> 0 \<le> j) \<and>
     (0 \<le> j \<longrightarrow> slot_of (cs ! nat j) = Some k \<and> (5 \<le> k \<longrightarrow> has n (value_bit (c_op (cs ! nat j)))))"

text \<open>At most one bit for the lower and one for the upper constraint, none of these with the equality, no order.\<close>

definition exclusive :: "int \<Rightarrow> bool" where
  "exclusive n \<longleftrightarrow> (has n 0x80 \<longrightarrow> \<not> has n 0x3300) \<and> \<not> (has n 0x100 \<and> has n 0x200) \<and>
     \<not> (has n 0x1000 \<and> has n 0x2000) \<and> \<not> has n 0x18"

definition best_inv :: "index_constraint list \<Rightarrow> int \<Rightarrow> best_state \<Rightarrow> bool" where
  "best_inv cs i s \<longleftrightarrow> length (aIdx s) = 7 \<and> (\<forall>k < 7. slot_inv cs (idx s) i k (aIdx s ! k)) \<and> exclusive (idx s)"

definition keeps :: "int \<Rightarrow> int \<Rightarrow> int \<Rightarrow> bool" where
  "keeps n n' K \<longleftrightarrow> (\<forall>m. m AND K = m \<longrightarrow> has n' m = has n m)"

lemma keeps_bits:
  assumes "a AND K = 0" "b AND K = 0"
  shows "keeps n ((n OR a) AND NOT b) K"
proof -
  have "NOT b AND m = m \<and> a AND m = 0" if "m AND K = m" for m
    using assms that by (auto simp: bit_eq_iff bit_simps)
  then show ?thesis by (simp add: keeps_def has_AND has_OR)
qed

lemma value_bit_mask: "slot_of c = Some k \<Longrightarrow> 5 \<le> k \<Longrightarrow> iColumn c \<le> 3 \<Longrightarrow> value_bit (c_op c) AND slot_mask k = value_bit (c_op c)"
  by (auto simp: slot_of_def value_bit_def slot_mask_def split: if_splits)

lemma best_update:
  assumes inv: "best_inv cs i s" and len: "length (aIdx s') = 7" and ex: "exclusive (idx s')" and i: "0 \<le> i"
    and col: "\<forall>c \<in> set cs. iColumn c \<le> 3" and le: "nat i \<le> length cs"
    and upd: "\<And>k. k < 7 \<Longrightarrow>
      (aIdx s' ! k = i \<and> slot_of (cs ! nat i) = Some k \<and> has (idx s') (slot_mask k) \<and>
         (5 \<le> k \<longrightarrow> has (idx s') (value_bit (c_op (cs ! nat i))))) \<or>
      (aIdx s' ! k = - 1 \<and> \<not> has (idx s') (slot_mask k)) \<or>
      (aIdx s' ! k = aIdx s ! k \<and> keeps (idx s) (idx s') (slot_mask k))"
  shows "best_inv cs (i + 1) s'"
proof -
  have "slot_inv cs (idx s') (i + 1) k (aIdx s' ! k)" if k: "k < 7" for k
  proof -
    have s: "slot_inv cs (idx s) i k (aIdx s ! k)" using inv k by (simp add: best_inv_def)
    consider (new) "aIdx s' ! k = i \<and> slot_of (cs ! nat i) = Some k \<and> has (idx s') (slot_mask k) \<and>
         (5 \<le> k \<longrightarrow> has (idx s') (value_bit (c_op (cs ! nat i))))"
      | (none) "aIdx s' ! k = - 1 \<and> \<not> has (idx s') (slot_mask k)"
      | (old) "aIdx s' ! k = aIdx s ! k" "keeps (idx s) (idx s') (slot_mask k)" using upd [OF k] by blast
    then show ?thesis
    proof cases
      case old
      let ?j = "aIdx s ! k"
      have "has (idx s') (slot_mask k) = has (idx s) (slot_mask k)" using old(2) by (simp add: keeps_def)
      moreover have "has (idx s') (value_bit (c_op (cs ! nat ?j)))" if "0 \<le> ?j" "5 \<le> k"
      proof -
        have "nat ?j < length cs" using s that(1) le by (auto simp: slot_inv_def)
        then have "iColumn (cs ! nat ?j) \<le> 3" using col by simp
        then show ?thesis using value_bit_mask [of "cs ! nat ?j" k] s that old(2) by (auto simp: slot_inv_def keeps_def)
      qed
      ultimately show ?thesis using s old(1) by (auto simp: slot_inv_def)
    qed (use i in \<open>auto simp: slot_inv_def\<close>)
  qed
  then show ?thesis using len ex by (simp add: best_inv_def)
qed

lemma all_less_7: "(\<forall>k < 7. P k) \<longleftrightarrow> P 0 \<and> P 1 \<and> P 2 \<and> P 3 \<and> P 4 \<and> P 5 \<and> P (6 :: nat)"
  by (simp add: numeral_eq_Suc All_less_Suc conj_comms)

lemma has_value_masks:
  "has n 0x300 \<longleftrightarrow> has n 0x100 \<or> has n 0x200"
  "has n 0x3000 \<longleftrightarrow> has n 0x1000 \<or> has n 0x2000"
  using has_or [of n "0x100" "0x200"] has_or [of n "0x1000" "0x2000"] by simp_all

lemma has_value_masks2:
  "has n 0x380 \<longleftrightarrow> has n 0x80 \<or> has n 0x100 \<or> has n 0x200"
  "has n 0x3300 \<longleftrightarrow> has n 0x100 \<or> has n 0x200 \<or> has n 0x1000 \<or> has n 0x2000"
  using has_or [of n "0x80" "0x300"] has_or [of n "0x300" "0x3000"] by (simp_all add: has_value_masks)

lemma best_set:
  assumes inv: "best_inv cs i s" and i: "0 \<le> i" "nat i < length cs" and col: "\<forall>c \<in> set cs. iColumn c \<le> 3"
    and k0: "slot_of (cs ! nat i) = Some k0" "k0 < 7"
    and s': "idx s' = (idx s OR a) AND NOT b" "aIdx s' = (aIdx s)[k0 := i]"
    and ab: "\<forall>k < 7. k \<noteq> k0 \<longrightarrow> a AND slot_mask k = 0 \<and> b AND slot_mask k = 0"
    and h: "has (idx s') (slot_mask k0)" "5 \<le> k0 \<longrightarrow> has (idx s') (value_bit (c_op (cs ! nat i)))" "exclusive (idx s')"
  shows "best_inv cs (i + 1) s'"
proof (rule best_update [OF inv _ h(3) i(1) col])
  have len: "length (aIdx s) = 7" using inv by (simp add: best_inv_def)
  then show "length (aIdx s') = 7" by (simp add: s')
  fix k :: nat assume k: "k < 7"
  show "(aIdx s' ! k = i \<and> slot_of (cs ! nat i) = Some k \<and> has (idx s') (slot_mask k) \<and>
         (5 \<le> k \<longrightarrow> has (idx s') (value_bit (c_op (cs ! nat i))))) \<or>
      (aIdx s' ! k = - 1 \<and> \<not> has (idx s') (slot_mask k)) \<or>
      (aIdx s' ! k = aIdx s ! k \<and> keeps (idx s) (idx s') (slot_mask k))"
  proof (cases "k = k0")
    case True
    then show ?thesis using k0 h len by (simp add: s'(2))
  next
    case False
    then have "keeps (idx s) (idx s') (slot_mask k)" using ab k unfolding s'(1) by (intro keeps_bits) auto
    then show ?thesis using False by (simp add: s'(2))
  qed
qed (use i in simp)

lemma best_same:
  assumes "best_inv cs i s" "idx s' = idx s" "aIdx s' = aIdx s"
  shows "best_inv cs (i + 1) s'"
  using assms by (force simp: best_inv_def slot_inv_def)

lemmas best_evals = all_less_7 slot_mask_def has_OR has_AND value_bit_def exclusive_def

lemma best_value_inv:
  assumes inv: "best_inv cs i s" and i: "0 \<le> i" "nat i < length cs" and col: "\<forall>c \<in> set cs. iColumn c \<le> 3"
    and v: "iColumn (cs ! nat i) \<in> {0, - 1}" "usable (cs ! nat i)" "c_op (cs ! nat i) \<notin> {73, 74}"
  shows "best_inv cs (i + 1) (best_value i (c_op (cs ! nat i)) s)"
proof -
  let ?op = "c_op (cs ! nat i)"
  have ex: "exclusive (idx s)" "length (aIdx s) = 7" using inv by (simp_all add: best_inv_def)
  have S: "best_value i ?op s = s" if "?op \<notin> {2, 72}" "has (idx s) 0x80 \<or> ?op \<notin> {32, 4, 8, 16}"
    using that by (auto simp: best_value_def)
  consider (same) "best_value i ?op s = s" | (eq) "?op \<in> {2, 72}"
    | (ge) "?op = 32" "\<not> has (idx s) 0x80" | (gt) "?op = 4" "\<not> has (idx s) 0x80"
    | (le) "?op = 8" "\<not> has (idx s) 0x80" | (lt) "?op = 16" "\<not> has (idx s) 0x80"
    using S by blast
  then show ?thesis
  proof cases
    case same
    then show ?thesis using best_same [OF inv] by simp
  next
    case eq
    have b: "idx (best_value i ?op s) = (idx s OR 0x80) AND NOT 0x3300" "aIdx (best_value i ?op s) = (aIdx s)[5 := i, 6 := - 1]"
      using eq by (auto simp: best_value_def)
    have sl: "slot_of (cs ! nat i) = Some 5" "value_bit ?op = 0x80" using eq v by (auto simp: slot_of_def value_bit_def)
    have m: "\<forall>k < 5. 0x80 AND slot_mask k = 0 \<and> 0x3300 AND slot_mask k = 0"
      by (simp add: slot_mask_def numeral_eq_Suc All_less_Suc)
    have h: "has (idx (best_value i ?op s)) 0x80" "has (idx (best_value i ?op s)) 0x380" "\<not> has (idx (best_value i ?op s)) 0x3000"
      "exclusive (idx (best_value i ?op s))"
      unfolding b(1) using ex(1) by (simp_all add: has_OR has_AND exclusive_def)
    show ?thesis
    proof (rule best_update [OF inv _ h(4) i(1) col])
      fix k :: nat assume "k < 7"
      then consider "k < 5" | "k = 5" | "k = 6" by linarith
      then show "(aIdx (best_value i ?op s) ! k = i \<and> slot_of (cs ! nat i) = Some k \<and> has (idx (best_value i ?op s)) (slot_mask k) \<and>
         (5 \<le> k \<longrightarrow> has (idx (best_value i ?op s)) (value_bit ?op))) \<or>
      (aIdx (best_value i ?op s) ! k = - 1 \<and> \<not> has (idx (best_value i ?op s)) (slot_mask k)) \<or>
      (aIdx (best_value i ?op s) ! k = aIdx s ! k \<and> keeps (idx s) (idx (best_value i ?op s)) (slot_mask k))"
      proof cases
        case 1
        then have "keeps (idx s) (idx (best_value i ?op s)) (slot_mask k)" unfolding b(1) using m by (intro keeps_bits) auto
        then show ?thesis using 1 by (simp add: b(2))
      next
        case 2
        then show ?thesis using sl h ex(2) by (simp add: b(2) slot_mask_def)
      next
        case 3
        then show ?thesis using h(3) ex(2) by (simp add: b(2) slot_mask_def)
      qed
    qed (use i ex(2) in \<open>simp_all add: b(2)\<close>)
  next
    case ge
    have b: "idx (best_value i ?op s) = (idx s OR 0x100) AND NOT 0x200" "aIdx (best_value i ?op s) = (aIdx s)[5 := i]"
      using ge by (simp_all add: best_value_def)
    have sl: "slot_of (cs ! nat i) = Some 5" using ge v by (auto simp: slot_of_def)
    show ?thesis
      by (rule best_set [OF inv i col sl _ b])
        (use ge ex in \<open>simp_all add: best_evals b(1) [unfolded ge(1)] has_value_masks2 has_value_masks\<close>)
  next
    case gt
    have b: "idx (best_value i ?op s) = (idx s OR 0x200) AND NOT 0x100" "aIdx (best_value i ?op s) = (aIdx s)[5 := i]"
      using gt by (simp_all add: best_value_def)
    have sl: "slot_of (cs ! nat i) = Some 5" using gt v by (auto simp: slot_of_def)
    show ?thesis
      by (rule best_set [OF inv i col sl _ b])
        (use gt ex in \<open>simp_all add: best_evals b(1) [unfolded gt(1)] has_value_masks2 has_value_masks\<close>)
  next
    case le
    have b: "idx (best_value i ?op s) = (idx s OR 0x1000) AND NOT 0x2000" "aIdx (best_value i ?op s) = (aIdx s)[6 := i]"
      using le by (simp_all add: best_value_def)
    have sl: "slot_of (cs ! nat i) = Some 6" using le v by (auto simp: slot_of_def)
    show ?thesis
      by (rule best_set [OF inv i col sl _ b])
        (use le ex in \<open>simp_all add: best_evals b(1) [unfolded le(1)] has_value_masks2 has_value_masks\<close>)
  next
    case lt
    have b: "idx (best_value i ?op s) = (idx s OR 0x2000) AND NOT 0x1000" "aIdx (best_value i ?op s) = (aIdx s)[6 := i]"
      using lt by (simp_all add: best_value_def)
    have sl: "slot_of (cs ! nat i) = Some 6" using lt v by (auto simp: slot_of_def)
    show ?thesis
      by (rule best_set [OF inv i col sl _ b])
        (use lt ex in \<open>simp_all add: best_evals b(1) [unfolded lt(1)] has_value_masks2 has_value_masks\<close>)
  qed
qed

lemma slot_of_None:
  assumes "slot_of c = None" "usable c"
  shows "c_op c \<noteq> 73" "c_op c \<noteq> 74" "iColumn c = 0 \<or> iColumn c = - 1 \<Longrightarrow> c_op c \<notin> {2, 72, 32, 4} \<union> {8, 16}"
    "1 \<le> iColumn c \<Longrightarrow> c_op c \<noteq> 2"
  using assms by (simp_all only: slot_of_def not_True_eq_False if_False split: if_splits) auto

lemma best_value_none: "oper \<notin> {2, 72, 32, 4} \<union> {8, 16} \<Longrightarrow> best_value i oper s = s"
  by (simp only: best_value_def Un_iff insert_iff empty_iff simp_thms de_Morgan_disj if_False)

lemma not_window: "oper \<noteq> 73 \<Longrightarrow> oper \<noteq> 74 \<Longrightarrow> \<not> (73 \<le> oper \<and> oper \<le> (74 :: int))"
  by auto

lemma best_constraint_none:
  assumes "slot_of c = None" "- 1 \<le> iColumn c" "iColumn c \<le> 3"
  shows "idx (best_constraint i c s) = idx s \<and> aIdx (best_constraint i c s) = aIdx s"
proof (cases "usable c")
  case False
  then show ?thesis by (simp add: best_constraint_def Let_def)
next
  case True
  note N = slot_of_None [OF assms(1) True]
  have w: "(73 \<le> c_op c \<and> c_op c \<le> 74) = False" using not_window [OF N(1,2)] by (simp only: simp_thms)
  show ?thesis
  proof (cases "iColumn c < 1")
    case True
    then have "iColumn c = 0 \<or> iColumn c = - 1" using assms(2) by linarith
    then have "best_value i (c_op c) s = s" by (rule best_value_none [OF N(3)])
    then show ?thesis unfolding best_constraint_def w using True by simp
  next
    case False
    then have "(c_op c = 2) = False" using N(4) by simp
    then show ?thesis unfolding best_constraint_def w using False \<open>usable c\<close> by (simp add: Let_def)
  qed
qed

lemma best_constraint_some:
  assumes "slot_of c = Some k" "- 1 \<le> iColumn c" "iColumn c \<le> 3"
  shows "(iColumn c \<in> {0, - 1} \<and> c_op c \<notin> {73, 74} \<and> best_constraint i c s = best_value i (c_op c) s) \<or>
    (k < 5 \<and> idx (best_constraint i c s) = (idx s OR slot_mask k) AND NOT 0 \<and> aIdx (best_constraint i c s) = (aIdx s)[k := i])"
proof -
  have c5: "iColumn c \<in> {- 1, 0, 1, 2, 3}" using assms by auto
  have u: "usable c" using assms(1) by (simp add: slot_of_def split: if_splits)
  consider (val) "iColumn c \<in> {0, - 1}" "c_op c \<notin> {73, 74}" | (lim) "c_op c = 73" "k = 3" | (off) "c_op c = 74" "k = 4"
    | (par) "iColumn c \<in> {1, 2, 3}" "c_op c = 2" "k = nat (iColumn c - 1)"
    using assms(1) c5 by (auto simp: slot_of_def split: if_splits)
  then show ?thesis
  proof cases
    case val
    then have "\<not> (73 \<le> c_op c \<and> c_op c \<le> 74)" by (intro not_window) auto
    then show ?thesis using val u by (auto simp: best_constraint_def)
  qed (use u in \<open>auto simp: best_constraint_def slot_mask_def Let_def\<close>)
qed

lemma best_constraint_inv:
  assumes inv: "best_inv cs i s" and i: "0 \<le> i" "nat i < length cs" and col: "\<forall>c \<in> set cs. - 1 \<le> iColumn c \<and> iColumn c \<le> 3"
  shows "best_inv cs (i + 1) (best_constraint i (cs ! nat i) s)"
proof -
  let ?c = "cs ! nat i" and ?s = "best_constraint i (cs ! nat i) s"
  have c: "- 1 \<le> iColumn ?c" "iColumn ?c \<le> 3" and col': "\<forall>c \<in> set cs. iColumn c \<le> 3" using col i by auto
  have ex: "exclusive (idx s)" using inv by (simp add: best_inv_def)
  show ?thesis
  proof (cases "slot_of ?c")
    case None
    then show ?thesis using best_same [OF inv] best_constraint_none [OF None c] by blast
  next
    case (Some k)
    then have u: "usable ?c" by (simp add: slot_of_def split: if_splits)
    from best_constraint_some [OF Some c, of i s] show ?thesis
    proof (elim disjE conjE)
      assume "iColumn ?c \<in> {0, - 1}" "c_op ?c \<notin> {73, 74}" "?s = best_value i (c_op ?c) s"
      then show ?thesis using best_value_inv [OF inv i col' _ u] by simp
    next
      assume k: "k < 5" and b: "idx ?s = (idx s OR slot_mask k) AND NOT 0" "aIdx ?s = (aIdx s)[k := i]"
      have "k = 0 \<or> k = 1 \<or> k = 2 \<or> k = 3 \<or> k = 4" using k by linarith
      then have "\<forall>j < 7. j \<noteq> k \<longrightarrow> slot_mask k AND slot_mask j = 0 \<and> 0 AND slot_mask j = 0"
        "has (idx ?s) (slot_mask k)" "exclusive (idx ?s)"
        unfolding b(1) using ex by (elim disjE; simp add: best_evals)+
      then show ?thesis using k by (intro best_set [OF inv i col' Some _ b]) auto
    qed
  qed
qed

lemma best_loop_inv:
  assumes "\<forall>c \<in> set cs. - 1 \<le> iColumn c \<and> iColumn c \<le> 3" "cs = pre @ cs'" "best_inv cs (int (length pre)) s"
  shows "best_inv cs (int (length cs)) (best_loop (int (length pre)) cs' s)"
  using assms(2,3)
proof (induction cs' arbitrary: pre s)
  case (Cons c cs')
  have "best_inv cs (int (length pre) + 1) (best_constraint (int (length pre)) (cs ! nat (int (length pre))) s)"
    using Cons.prems assms(1) by (intro best_constraint_inv) auto
  moreover have "cs ! length pre = c" using Cons.prems(1) by simp
  ultimately show ?case using Cons.IH [of "pre @ [c]"] Cons.prems(1) by (simp add: add.commute)
qed simp

section \<open>The arguments of the filter\<close>

text \<open>What the core passes to \<^verbatim>\<open>xFilter\<close>: the right-hand sides in the order of their argument numbers.\<close>

definition argv_of :: "constraint_usage list \<Rightarrow> sqlite3_value list \<Rightarrow> sqlite3_value list" where
  "argv_of us vals =
     map (\<lambda>m. snd (hd (filter (\<lambda>(u, v). argvIndex u = int m + 1) (zip us vals))))
       [0..<length (filter (\<lambda>u. 0 < argvIndex u) us)]"

lemma filter_single: "i < length xs \<Longrightarrow> (\<And>j. j < length xs \<Longrightarrow> P (xs ! j) \<longleftrightarrow> j = i) \<Longrightarrow> filter P xs = [xs ! i]"
proof (induction xs arbitrary: i)
  case (Cons x xs)
  show ?case
  proof (cases i)
    case 0
    have "\<not> P (xs ! j)" if "j < length xs" for j using Cons.prems(2) [of "Suc j"] that 0 by simp
    then have "filter P xs = []" by (auto simp: filter_empty_conv in_set_conv_nth)
    then show ?thesis using 0 Cons.prems(2) [of 0] by simp
  next
    case (Suc i')
    have "P (xs ! j) \<longleftrightarrow> j = i'" if "j < length xs" for j using Cons.prems(2) [of "Suc j"] that Suc by simp
    then have "filter P xs = [xs ! i']" using Cons.prems(1) Suc by (intro Cons.IH) auto
    then show ?thesis using Suc Cons.prems(2) [of 0] by simp
  qed
qed simp

abbreviation used :: "int list \<Rightarrow> nat list" where
  "used js \<equiv> map nat (filter (\<lambda>j. 0 \<le> j) js)"

lemma best_number_length [simp]: "length (best_number js n us) = length us"
  by (induction js arbitrary: n us) auto

lemma best_number_other: "i \<notin> set (used js) \<Longrightarrow> best_number js n us ! i = us ! i"
  by (induction js arbitrary: n us) (auto simp: nth_list_update)

lemma best_number_used:
  "distinct (used js) \<Longrightarrow> \<forall>i \<in> set (used js). i < length us \<Longrightarrow> r < length (used js) \<Longrightarrow>
   best_number js n us ! (used js ! r) = \<lparr>argvIndex = n + int r + 1, omit = True\<rparr>"
proof (induction js arbitrary: n us r)
  case (Cons j js)
  show ?case
  proof (cases "0 \<le> j")
    case True
    note u = True
    show ?thesis
    proof (cases r)
      case 0
      have "nat j \<notin> set (used js)" "nat j < length us" using Cons.prems u by auto
      then show ?thesis using 0 u by (simp only: best_number.simps if_True) (simp add: best_number_other del: set_map set_filter)
    next
      case (Suc r')
      then show ?thesis using Cons.IH [of "us[nat j := \<lparr>argvIndex = n + 1, omit = True\<rparr>]" r' "n + 1"] Cons.prems u by simp
    qed
  qed (use Cons in simp)
qed simp

lemma argv_of_number:
  assumes d: "distinct (used js)" and b: "\<forall>i \<in> set (used js). i < length us" and z: "\<forall>u \<in> set us. argvIndex u = 0"
    and l: "length vals = length us"
  shows "argv_of (best_number js 0 us) vals = map ((!) vals) (used js)"
    and "i < length us \<Longrightarrow> 0 < argvIndex (best_number js 0 us ! i) \<longleftrightarrow> i \<in> set (used js)"
    and "i < length us \<Longrightarrow> i \<in> set (used js) \<Longrightarrow> omit (best_number js 0 us ! i)"
proof -
  let ?us = "best_number js 0 us" and ?U = "used js"
  have n: "argvIndex (?us ! (?U ! r)) = int r + 1" "omit (?us ! (?U ! r))" if "r < length ?U" for r
    using best_number_used [OF d b that, of 0] by simp_all
  have o0: "argvIndex (?us ! i) = 0" if "i \<notin> set ?U" "i < length us" for i
    using best_number_other [OF that(1)] z that(2) by simp
  have mem: "0 < argvIndex (?us ! i) \<longleftrightarrow> i \<in> set ?U" if "i < length us" for i
  proof (cases "i \<in> set ?U")
    case True
    then obtain r where "r < length ?U" "i = ?U ! r" by (metis in_set_conv_nth)
    then show ?thesis using n(1) [of r] True by simp
  qed (use o0 that in simp)
  show "i < length us \<Longrightarrow> 0 < argvIndex (?us ! i) \<longleftrightarrow> i \<in> set ?U" by (rule mem)
  show "i < length us \<Longrightarrow> i \<in> set ?U \<Longrightarrow> omit (?us ! i)" using n(2) by (metis in_set_conv_nth)
  have "{i. i < length ?us \<and> 0 < argvIndex (?us ! i)} = set ?U" using mem b by auto
  then have len: "length (filter (\<lambda>u. 0 < argvIndex u) ?us) = length ?U"
    using distinct_card [OF d] by (simp only: length_filter_conv_card)
  show "argv_of ?us vals = map ((!) vals) ?U"
  proof (rule nth_equalityI)
    show "length (argv_of ?us vals) = length (map ((!) vals) ?U)" by (simp add: argv_of_def len)
    fix r assume "r < length (argv_of ?us vals)"
    then have r: "r < length ?U" by (simp add: argv_of_def len)
    then have u: "?U ! r < length us" using b nth_mem by blast
    have "filter (\<lambda>(u, v). argvIndex u = int r + 1) (zip ?us vals) = [zip ?us vals ! (?U ! r)]"
    proof (rule filter_single)
      fix j assume j: "j < length (zip ?us vals)"
      show "(case zip ?us vals ! j of (u, v) \<Rightarrow> argvIndex u = int r + 1) \<longleftrightarrow> j = ?U ! r"
      proof (cases "j \<in> set ?U")
        case True
        then obtain r' where r': "r' < length ?U" "j = ?U ! r'" by (metis in_set_conv_nth)
        have "(case zip ?us vals ! j of (u, v) \<Rightarrow> argvIndex u = int r + 1) \<longleftrightarrow> r' = r"
          using n(1) [OF r'(1)] j l by (simp add: r'(2) [symmetric] del: nth_map length_map)
        then show ?thesis using nth_eq_iff_index_eq [OF d r'(1) r] r'(2) by simp
      next
        case False
        then show ?thesis using o0 j l r nth_mem [OF r] by auto
      qed
    qed (use u l in simp)
    then show "argv_of ?us vals ! r = map ((!) vals) ?U ! r" using r u l by (simp add: argv_of_def len)
  qed
qed

lemma seriesBestIndex_ok:
  assumes ok: "seriesBestIndex info = (SQLITE_OK, err, info')"
    and col: "\<forall>c \<in> set (aConstraint info). - 1 \<le> iColumn c \<and> iColumn c \<le> 3"
    and lim: "aConstraint info = [] \<or> c_op (hd (aConstraint info)) \<noteq> CONSTRAINT_LIMIT"
  obtains s where "best_inv (aConstraint info) (int (length (aConstraint info))) s"
    "aConstraintUsage info' = best_number (aIdx s) 0 (aConstraintUsage info)"
    "\<And>m. 0x18 AND m = 0 \<Longrightarrow> has (plan_idxNum info') m \<longleftrightarrow> has (idx s) m"
proof -
  let ?cs = "aConstraint info"
  define s where "s = best_loop 0 ?cs \<lparr>idx = 0, bStartSeen = False, unusableMask = 0, aIdx = replicate 7 (- 1)\<rparr>"
  have inv: "best_inv ?cs (int (length ?cs)) s" unfolding s_def
    using best_loop_inv [OF col, of "[]" ?cs] by (simp add: best_inv_def slot_inv_def exclusive_def has_def)
  have "slot_inv ?cs (idx s) (int (length ?cs)) 3 (aIdx s ! 3)" using inv by (simp add: best_inv_def)
  then have "aIdx s ! 3 \<noteq> 0" using lim col
    by (cases ?cs) (auto simp: slot_inv_def slot_of_def split: if_splits)
  then have r: "(aIdx s ! 3 = 0) = False" by simp
  define info1 where "info1 = info\<lparr>aConstraintUsage := best_number (aIdx s) 0 (aConstraintUsage info)\<rparr>"
  have u: "aConstraintUsage info' = best_number (aIdx s) 0 (aConstraintUsage info) \<and>
    (\<exists>ob \<in> {0, 8, 16}. plan_idxNum info' = idx s OR ob)"
    using ok unfolding seriesBestIndex_def s_def [symmetric] Let_def r if_False info1_def [symmetric]
    by (auto split: if_splits list.splits) (auto simp: info1_def)
  have "has (plan_idxNum info') m \<longleftrightarrow> has (idx s) m" if "0x18 AND m = 0" for m
  proof -
    have "8 AND (0x18 AND m) = 8 AND m" "16 AND (0x18 AND m) = 16 AND m" by (simp_all flip: and.assoc)
    then have "8 AND m = 0" "16 AND m = 0" using that by simp_all
    then show ?thesis using u by (auto simp: has_OR)
  qed
  then show thesis using that inv u by blast
qed

text \<open>An optional element of the argument list.\<close>

abbreviation opt :: "bool \<Rightarrow> 'a \<Rightarrow> 'a list" where
  "opt b x \<equiv> (if b then [x] else [])"

lemma used_distinct:
  assumes "best_inv cs i s"
  shows "distinct (used (aIdx s))" "\<forall>j \<in> set (used (aIdx s)). int j < i"
    "j \<in> set (used (aIdx s)) \<Longrightarrow> \<exists>k < 7. aIdx s ! k = int j \<and> slot_of (cs ! j) = Some k"
proof -
  let ?js = "aIdx s"
  have len: "length ?js = 7" and si: "\<And>k. k < 7 \<Longrightarrow> slot_inv cs (idx s) i k (?js ! k)"
    using assms by (auto simp: best_inv_def)
  have "?js = map ((!) ?js) [0..<7]" using map_nth [of ?js] len by simp
  then have eq: "used ?js = map (\<lambda>k. nat (?js ! k)) (filter (\<lambda>k. 0 \<le> ?js ! k) [0..<7])"
    by (metis (no_types, lifting) comp_def filter_cong filter_map map_map map_cong)
  have "inj_on (\<lambda>k. nat (?js ! k)) (set (filter (\<lambda>k. 0 \<le> ?js ! k) [0..<7]))"
  proof (rule inj_onI)
    fix k k' assume "k \<in> set (filter (\<lambda>k. 0 \<le> ?js ! k) [0..<7])" "k' \<in> set (filter (\<lambda>k. 0 \<le> ?js ! k) [0..<7])"
      "nat (?js ! k) = nat (?js ! k')"
    then show "k = k'" using si [of k] si [of k'] by (auto simp: slot_inv_def)
  qed
  then show "distinct (used ?js)" unfolding eq by (simp add: distinct_map)
  show "\<forall>j \<in> set (used ?js). int j < i" unfolding eq using si by (auto simp: slot_inv_def)
  show "j \<in> set (used ?js) \<Longrightarrow> \<exists>k < 7. ?js ! k = int j \<and> slot_of (cs ! j) = Some k"
    unfolding eq using si by (auto simp: slot_inv_def)
qed

fun value_op_of :: "int \<Rightarrow> value_op" where
  "value_op_of oper = (if oper = CONSTRAINT_GE then OpGe else if oper = CONSTRAINT_GT then OpGt
     else if oper = CONSTRAINT_LE then OpLe else if oper = CONSTRAINT_LT then OpLt else OpEq)"

text \<open>What the filter makes of the argument for one constraint.\<close>

definition reads :: "sqlite3_api_routines \<Rightarrow> int \<Rightarrow> sqlite3_value list \<Rightarrow> index_constraint \<Rightarrow> sqlite3_value \<Rightarrow> bool" where
  "reads api n argv c v \<longleftrightarrow>
     (if c_op c = CONSTRAINT_LIMIT then plan_limit api n argv = value_int64 api v
      else if c_op c = CONSTRAINT_OFFSET then plan_offset api n argv = value_int64 api v
      else if iColumn c = 1 then start_of api n argv = value_int64 api v
      else if iColumn c = 2 then stop_of api n argv = value_int64 api v
      else iColumn c = 3 \<longrightarrow> step_of api n argv = (if value_int64 api v = 0 then 1 else value_int64 api v))"

definition on_value :: "index_constraint \<Rightarrow> bool" where
  "on_value c \<longleftrightarrow> iColumn c < 1 \<and> c_op c \<noteq> CONSTRAINT_LIMIT \<and> c_op c \<noteq> CONSTRAINT_OFFSET"

lemma slot_of_Some:
  assumes "slot_of c = Some k" "iColumn c \<le> 3"
  shows "(k = 3 \<longleftrightarrow> c_op c = 73)" "(k = 4 \<longleftrightarrow> c_op c = 74)" "5 \<le> k \<longleftrightarrow> on_value c"
    "k < 3 \<Longrightarrow> iColumn c = int k + 1" "k = 5 \<Longrightarrow> c_op c \<in> {2, 72, 32, 4}" "k = 6 \<Longrightarrow> c_op c \<in> {8, 16}"
  using assms by (auto simp: slot_of_def on_value_def split: if_splits)

text \<open>The plan's bits and the slots agree.\<close>

lemma slots_agree:
  assumes inv: "best_inv cs (int (length cs)) s" and nn: "\<forall>m. 0x18 AND m = 0 \<longrightarrow> has n m = has (idx s) m"
    and js: "aIdx s = [a0, a1, a2, a3, a4, a5, a6]"
  shows "has n 1 \<longleftrightarrow> 0 \<le> a0" "has n 2 \<longleftrightarrow> 0 \<le> a1" "has n 4 \<longleftrightarrow> 0 \<le> a2" "has n 0x20 \<longleftrightarrow> 0 \<le> a3" "has n 0x40 \<longleftrightarrow> 0 \<le> a4"
    "has n 0x380 \<longleftrightarrow> 0 \<le> a5" "has n 0x3000 \<longleftrightarrow> 0 \<le> a6"
    "has n 0x80 \<longrightarrow> \<not> has n 0x3300" "\<not> (has n 0x100 \<and> has n 0x200)" "\<not> (has n 0x1000 \<and> has n 0x2000)"
    "0 \<le> a5 \<longrightarrow> has n (value_bit (c_op (cs ! nat a5)))" "0 \<le> a6 \<longrightarrow> has n (value_bit (c_op (cs ! nat a6)))"
proof -
  note n = nn [rule_format]
  have sl: "slot_inv cs (idx s) (int (length cs)) k (aIdx s ! k)" if "k < 7" for k using inv that by (simp add: best_inv_def)
  have ex: "exclusive (idx s)" using inv by (simp add: best_inv_def)
  show "has n 1 \<longleftrightarrow> 0 \<le> a0" using sl [of 0] n [of 1] by (simp add: slot_inv_def js slot_mask_def)
  show "has n 2 \<longleftrightarrow> 0 \<le> a1" using sl [of 1] n [of 2] by (simp add: slot_inv_def js slot_mask_def)
  show "has n 4 \<longleftrightarrow> 0 \<le> a2" using sl [of 2] n [of 4] by (simp add: slot_inv_def js slot_mask_def)
  show "has n 0x20 \<longleftrightarrow> 0 \<le> a3" using sl [of 3] n [of "0x20"] by (simp add: slot_inv_def js slot_mask_def)
  show "has n 0x40 \<longleftrightarrow> 0 \<le> a4" using sl [of 4] n [of "0x40"] by (simp add: slot_inv_def js slot_mask_def)
  show "has n 0x380 \<longleftrightarrow> 0 \<le> a5" using sl [of 5] n [of "0x380"] by (simp add: slot_inv_def js slot_mask_def)
  show "has n 0x3000 \<longleftrightarrow> 0 \<le> a6" using sl [of 6] n [of "0x3000"] by (simp add: slot_inv_def js slot_mask_def)
  show "has n 0x80 \<longrightarrow> \<not> has n 0x3300" using ex n [of "0x80"] n [of "0x3300"] by (simp add: exclusive_def)
  show "\<not> (has n 0x100 \<and> has n 0x200)" using ex n [of "0x100"] n [of "0x200"] by (simp add: exclusive_def)
  show "\<not> (has n 0x1000 \<and> has n 0x2000)" using ex n [of "0x1000"] n [of "0x2000"] by (simp add: exclusive_def)
  have vb: "0x18 AND value_bit oper = 0" for oper by (simp add: value_bit_def)
  show "0 \<le> a5 \<longrightarrow> has n (value_bit (c_op (cs ! nat a5)))" using sl [of 5] n [OF vb] by (simp add: slot_inv_def js)
  show "0 \<le> a6 \<longrightarrow> has n (value_bit (c_op (cs ! nat a6)))" using sl [of 6] n [OF vb] by (simp add: slot_inv_def js)
qed

lemma argv_reads:
  assumes A: "has n 1 \<longleftrightarrow> 0 \<le> a0" "has n 2 \<longleftrightarrow> 0 \<le> a1" "has n 4 \<longleftrightarrow> 0 \<le> a2" "has n 0x20 \<longleftrightarrow> 0 \<le> a3" "has n 0x40 \<longleftrightarrow> 0 \<le> a4"
    and w: "has n 0x40 \<longrightarrow> has n 0x20"
    and argv: "argv = opt (0 \<le> a0) v0 @ opt (0 \<le> a1) v1 @ opt (0 \<le> a2) v2 @ opt (0 \<le> a3) v3 @ opt (0 \<le> a4) v4 @ rest"
  shows "0 \<le> a0 \<Longrightarrow> start_of api n argv = value_int64 api v0"
    "0 \<le> a1 \<Longrightarrow> stop_of api n argv = value_int64 api v1"
    "0 \<le> a2 \<Longrightarrow> step_of api n argv = (if value_int64 api v2 = 0 then 1 else value_int64 api v2)"
    "0 \<le> a3 \<Longrightarrow> plan_limit api n argv = value_int64 api v3"
    "0 \<le> a4 \<Longrightarrow> plan_offset api n argv = value_int64 api v4"
    "drop (nparams n + nlimits n) argv = rest" "length argv = nparams n + nlimits n + length rest"
proof -
  let ?p = "opt (0 \<le> a0) v0 @ opt (0 \<le> a1) v1 @ opt (0 \<le> a2) v2" and ?l = "opt (0 \<le> a3) v3 @ opt (0 \<le> a4) v4"
  have p: "length ?p = nparams n" by (simp add: nparams_def A)
  have l: "length ?l = nlimits n" using w by (simp add: nlimits_def A)
  have argv': "argv = ?p @ ?l @ rest" by (simp add: argv)
  show "drop (nparams n + nlimits n) argv = rest" "length argv = nparams n + nlimits n + length rest"
    unfolding argv' p [symmetric] l [symmetric] by simp_all
  show "0 \<le> a0 \<Longrightarrow> start_of api n argv = value_int64 api v0" by (simp add: start_of_def A argv)
  show "0 \<le> a1 \<Longrightarrow> stop_of api n argv = value_int64 api v1" by (simp add: stop_of_def A argv)
  show "0 \<le> a2 \<Longrightarrow> step_of api n argv = (if value_int64 api v2 = 0 then 1 else value_int64 api v2)"
    by (simp add: step_of_def A argv)
  have nl: "argv ! (nparams n + k) = (?l @ rest) ! k" for k unfolding argv' p [symmetric] by (rule nth_append_length_plus)
  show "0 \<le> a3 \<Longrightarrow> plan_limit api n argv = value_int64 api v3" using nl [of 0] by (simp add: plan_limit_def A)
  show "0 \<le> a4 \<Longrightarrow> plan_offset api n argv = value_int64 api v4" using nl [of 1] w by (simp add: plan_offset_def A)
qed

lemma argv_admits:
  fixes v5 v6 :: sqlite3_value
  assumes A: "has n 0x380 \<longleftrightarrow> 0 \<le> a5" "has n 0x3000 \<longleftrightarrow> 0 \<le> a6"
    "has n 0x80 \<longrightarrow> \<not> has n 0x3300" "\<not> (has n 0x100 \<and> has n 0x200)" "\<not> (has n 0x1000 \<and> has n 0x2000)"
    "0 \<le> a5 \<longrightarrow> has n (value_bit op5) \<and> op5 \<in> {2, 72, 32, 4}" "0 \<le> a6 \<longrightarrow> has n (value_bit op6) \<and> op6 \<in> {8, 16}"
  defines "rest \<equiv> opt (0 \<le> a5) v5 @ opt (0 \<le> a6) v6"
  shows "length rest = nvalues n"
    "admits api n rest x \<longleftrightarrow> (0 \<le> a5 \<longrightarrow> sat (value_op_of op5) (num_of api v5) x) \<and> (0 \<le> a6 \<longrightarrow> sat (value_op_of op6) (num_of api v6) x)"
proof -
  note H = has_value_masks has_value_masks2
  have B: "0 \<le> a5 \<longleftrightarrow> has n 0x80 \<or> has n 0x100 \<or> has n 0x200" "0 \<le> a6 \<longleftrightarrow> has n 0x1000 \<or> has n 0x2000"
    using A(1,2) by (simp_all add: H)
  show "length rest = nvalues n"
    using A(3) unfolding rest_def nvalues_def B H by auto
  have L: "has n 0x80 \<or> has n 0x300 \<Longrightarrow> 0 \<le> a5 \<and> value_op_of op5 = (if has n 0x80 then OpEq else if has n 0x200 then OpGt else OpGe)"
    using A(3,4,6) B unfolding H by (auto simp: value_bit_def)
  have U: "has n 0x3000 \<Longrightarrow> 0 \<le> a6 \<and> value_op_of op6 = (if has n 0x2000 then OpLt else OpLe)"
    using A(5,7) B unfolding H by (auto simp: value_bit_def)
  show "admits api n rest x \<longleftrightarrow> (0 \<le> a5 \<longrightarrow> sat (value_op_of op5) (num_of api v5) x) \<and> (0 \<le> a6 \<longrightarrow> sat (value_op_of op6) (num_of api v6) x)"
  proof (cases "has n 0x80")
    case True
    then have "0 \<le> a5" "\<not> 0 \<le> a6" using A(3) B by (auto simp: H)
    then show ?thesis using L True by (simp add: admits_def rest_def del: value_op_of.simps)
  next
    case False
    then have "0 \<le> a5 \<longleftrightarrow> has n 0x300" "0 \<le> a6 \<longleftrightarrow> has n 0x3000" using B by (auto simp: H)
    then show ?thesis using L U False
      by (cases "has n 0x300"; cases "has n 0x3000") (simp_all add: admits_def rest_def del: value_op_of.simps)
  qed
qed

lemma length_7: "length xs = 7 \<Longrightarrow> \<exists>a b c d e f g. xs = [a, b, c, d, e, f, g]"
  by (auto simp: numeral_eq_Suc length_Suc_conv)

section \<open>Properties\<close>

text \<open>
  C26: The plan \<^verbatim>\<open>seriesBestIndex\<close> makes and what \<^verbatim>\<open>seriesFilter\<close> reads agree: the core passes exactly as
  many arguments as the plan's bits announce; every constraint that got an argument number is
  omitted from the core's own test, and its value is the one the filter uses for it as start, stop, step,
  LIMIT or OFFSET; and the values the filter admits are those that satisfy all the constraints on the
  value that were taken over.  This is for plans in which LIMIT is not the first constraint and OFFSET
  comes with LIMIT.
\<close>

theorem series_plan_arguments:
  fixes info info' :: index_info and vals :: "sqlite3_value list"
  defines "cs \<equiv> aConstraint info" and "us \<equiv> aConstraintUsage info'" and "n \<equiv> plan_idxNum info'"
    and "argv \<equiv> argv_of (aConstraintUsage info') vals"
  assumes "seriesBestIndex info = (SQLITE_OK, err, info')" and "\<forall>c \<in> set cs. - 1 \<le> iColumn c \<and> iColumn c \<le> 3"
    and "length (aConstraintUsage info) = length cs" "length vals = length cs"
    and "\<forall>u \<in> set (aConstraintUsage info). argvIndex u = 0"
    and "cs = [] \<or> c_op (hd cs) \<noteq> CONSTRAINT_LIMIT" "has n 0x40 \<longrightarrow> has n 0x20"
  shows "length argv = nparams n + nlimits n + nvalues n
    \<and> (\<forall>i < length cs. 0 < argvIndex (us ! i) \<longrightarrow> omit (us ! i) \<and> reads api n argv (cs ! i) (vals ! i))
    \<and> (\<forall>x. admits api n (drop (nparams n + nlimits n) argv) x \<longleftrightarrow>
         (\<forall>i < length cs. 0 < argvIndex (us ! i) \<and> on_value (cs ! i) \<longrightarrow>
            sat (value_op_of (c_op (cs ! i))) (num_of api (vals ! i)) x))"
proof -
  obtain s where inv: "best_inv cs (int (length cs)) s" and us: "us = best_number (aIdx s) 0 (aConstraintUsage info)"
    and n: "\<forall>m. 0x18 AND m = 0 \<longrightarrow> has n m = has (idx s) m"
    using seriesBestIndex_ok [OF assms(5)] assms(6,10) unfolding cs_def us_def n_def by metis
  obtain a0 a1 a2 a3 a4 a5 a6 where js: "aIdx s = [a0, a1, a2, a3, a4, a5, a6]"
    using inv length_7 unfolding best_inv_def by metis
  note D = used_distinct [OF inv] and S = slots_agree [OF inv n js]
  have "\<forall>i \<in> set (used (aIdx s)). i < length (aConstraintUsage info)" using D(2) assms(7) by auto
  note N = argv_of_number [OF D(1) this assms(9), of vals]
  let ?v = "\<lambda>a. vals ! nat a"
  let ?rest = "opt (0 \<le> a5) (?v a5) @ opt (0 \<le> a6) (?v a6)"
  have argv: "argv = opt (0 \<le> a0) (?v a0) @ opt (0 \<le> a1) (?v a1) @ opt (0 \<le> a2) (?v a2) @ opt (0 \<le> a3) (?v a3) @
      opt (0 \<le> a4) (?v a4) @ ?rest"
    using N(1) assms(7,8) unfolding argv_def us_def [symmetric] us js by simp
  have pos: "0 < argvIndex (us ! i) \<longleftrightarrow> i \<in> set (used (aIdx s))" if "i < length cs" for i
    using N(2) [of i] assms(7,8) that us by simp
  have sl: "slot_of (cs ! nat (aIdx s ! k)) = Some k" "iColumn (cs ! nat (aIdx s ! k)) \<le> 3" "nat (aIdx s ! k) < length cs"
    if "k < 7" "0 \<le> aIdx s ! k" for k
    using inv that assms(6) nth_mem [of "nat (aIdx s ! k)" cs] by (auto simp: best_inv_def slot_inv_def)
  note R = argv_reads [OF S(1-5) _ argv] and V = argv_admits [OF S(6-10), where ?op5.0 = "c_op (cs ! nat a5)" and ?op6.0 = "c_op (cs ! nat a6)"
    and ?v5.0 = "?v a5" and ?v6.0 = "?v a6"]
  have w: "has n 0x40 \<longrightarrow> has n 0x20" using assms(11) by simp
  have A5: "0 \<le> a5 \<longrightarrow> has n (value_bit (c_op (cs ! nat a5))) \<and> c_op (cs ! nat a5) \<in> {2, 72, 32, 4}"
    using S(11) slot_of_Some(5) [OF sl(1,2) [of 5]] by (simp add: js)
  have A6: "0 \<le> a6 \<longrightarrow> has n (value_bit (c_op (cs ! nat a6))) \<and> c_op (cs ! nat a6) \<in> {8, 16}"
    using S(12) slot_of_Some(6) [OF sl(1,2) [of 6]] by (simp add: js)
  have rd: "omit (us ! i) \<and> reads api n argv (cs ! i) (vals ! i)" if i: "i < length cs" and p: "0 < argvIndex (us ! i)" for i
  proof
    have u: "i \<in> set (used (aIdx s))" using pos i p by simp
    show "omit (us ! i)" using N(3) [of i] u i assms(7,8) us by simp
    obtain k where k: "k < 7" "aIdx s ! k = int i" "slot_of (cs ! i) = Some k" using D(3) [OF u] by blast
    have c: "iColumn (cs ! i) \<le> 3" using sl(2) [of k] k by simp
    note T = slot_of_Some [OF k(3) c]
    have "k = 0 \<or> k = 1 \<or> k = 2 \<or> k = 3 \<or> k = 4 \<or> 5 \<le> k" by linarith
    then show "reads api n argv (cs ! i) (vals ! i)"
      using T(1-4) k(2) R(1-5) [OF w] unfolding reads_def js on_value_def by (elim disjE) auto
  qed
  have adm: "((0 \<le> a5 \<longrightarrow> P (nat a5)) \<and> (0 \<le> a6 \<longrightarrow> P (nat a6))) \<longleftrightarrow>
    (\<forall>i < length cs. 0 < argvIndex (us ! i) \<and> on_value (cs ! i) \<longrightarrow> P i)" for P
  proof (intro iffI allI impI)
    fix i assume P: "(0 \<le> a5 \<longrightarrow> P (nat a5)) \<and> (0 \<le> a6 \<longrightarrow> P (nat a6))" and i: "i < length cs"
      and p: "0 < argvIndex (us ! i) \<and> on_value (cs ! i)"
    then obtain k where k: "k < 7" "aIdx s ! k = int i" "slot_of (cs ! i) = Some k" using D(3) [of i] pos [OF i] by blast
    then have "5 \<le> k" using slot_of_Some(3) [OF k(3)] sl(2) [of k] p by simp
    then have "k = 5 \<or> k = 6" using k(1) by linarith
    then show "P i" using P k(2) js by auto
  next
    assume "\<forall>i < length cs. 0 < argvIndex (us ! i) \<and> on_value (cs ! i) \<longrightarrow> P i"
    then show "(0 \<le> a5 \<longrightarrow> P (nat a5)) \<and> (0 \<le> a6 \<longrightarrow> P (nat a6))"
      using sl [of 5] sl [of 6] pos slot_of_Some(3) [of "cs ! nat a5" 5] slot_of_Some(3) [of "cs ! nat a6" 6] by (auto simp: js)
  qed
  show ?thesis
    using R(6,7) [OF w] V [OF A5 A6] rd adm [of "\<lambda>i. sat (value_op_of (c_op (cs ! i))) (num_of api (vals ! i)) x" for x]
    by simp
qed

text \<open>
  A query with both limits of the series, a bound on the value and LIMIT, in descending order.
\<close>

definition plan_example :: index_info where
  "plan_example =
     \<lparr>aConstraint = [\<lparr>iColumn = 1, c_op = 2, usable = True\<rparr>, \<lparr>iColumn = 2, c_op = 2, usable = True\<rparr>,
        \<lparr>iColumn = 0, c_op = 4, usable = True\<rparr>, \<lparr>iColumn = 0, c_op = 73, usable = True\<rparr>],
      aOrderBy = [\<lparr>ob_column = 0, ob_desc = True\<rparr>],
      aConstraintUsage = replicate 4 \<lparr>argvIndex = 0, omit = False\<rparr>,
      plan_idxNum = 0, orderByConsumed = False, estimatedCost = 0, estimatedRows = 0\<rparr>"

lemma plan_example_eval:
  "seriesBestIndex plan_example = (SQLITE_OK, None,
     plan_example\<lparr>aConstraintUsage := [\<lparr>argvIndex = 1, omit = True\<rparr>, \<lparr>argvIndex = 2, omit = True\<rparr>,
         \<lparr>argvIndex = 4, omit = True\<rparr>, \<lparr>argvIndex = 3, omit = True\<rparr>],
       plan_idxNum := 0x22b, orderByConsumed := True, estimatedCost := 2, estimatedRows := 1000\<rparr>)"
  by (simp add: seriesBestIndex_def plan_example_def best_constraint_def best_value_def has_def Let_def numeral_eq_Suc
      del: One_nat_def)

theorem series_plan_arguments_witness:
  "plan_limit ref_api (plan_idxNum (snd (snd (seriesBestIndex plan_example))))
     (argv_of (aConstraintUsage (snd (snd (seriesBestIndex plan_example))))
        [SQLITE_INTEGER 1, SQLITE_INTEGER 10, SQLITE_INTEGER 5, SQLITE_INTEGER 3]) = 3"
proof -
  let ?r = "snd (snd (seriesBestIndex plan_example))"
  have r: "seriesBestIndex plan_example = (SQLITE_OK, None, ?r)" "plan_idxNum ?r = 0x22b" "0 < argvIndex (aConstraintUsage ?r ! 3)"
    by (simp_all add: plan_example_eval)
  let ?vals = "[SQLITE_INTEGER 1, SQLITE_INTEGER 10, SQLITE_INTEGER 5, SQLITE_INTEGER 3]"
  have e: "length (aConstraint plan_example) = 4" "length (aConstraintUsage plan_example) = 4"
    "\<forall>c \<in> set (aConstraint plan_example). - 1 \<le> iColumn c \<and> iColumn c \<le> 3"
    "\<forall>u \<in> set (aConstraintUsage plan_example). argvIndex u = 0" "c_op (hd (aConstraint plan_example)) \<noteq> 73"
    "has (plan_idxNum ?r) 0x40 \<longrightarrow> has (plan_idxNum ?r) 0x20"
    by (simp_all add: r(2) has_def) (simp_all add: plan_example_def)
  have T: "\<forall>i < length (aConstraint plan_example). 0 < argvIndex (aConstraintUsage ?r ! i) \<longrightarrow> omit (aConstraintUsage ?r ! i) \<and>
      reads ref_api (plan_idxNum ?r) (argv_of (aConstraintUsage ?r) ?vals) (aConstraint plan_example ! i) (?vals ! i)"
    using series_plan_arguments [OF r(1) e(3) _ _ e(4) disjI2 [OF e(5)] e(6), of ?vals ref_api] e(1,2) by simp
  have "3 < length (aConstraint plan_example)" using e(1) by simp
  from T [rule_format, OF this r(3)]
  have "reads ref_api (plan_idxNum ?r) (argv_of (aConstraintUsage ?r) ?vals) (aConstraint plan_example ! 3) (SQLITE_INTEGER 3)" by simp
  then show ?thesis by (simp add: reads_def plan_example_def ref_api_def)
qed

text \<open>
  A plan whose first constraint is LIMIT numbers that constraint's argument twice, which leaves a gap:
  the test for an absent LIMIT compares the index with 0 where the absent index is -1.  So the
  arguments are numbered 1 and 3, although the plan announces one.
\<close>

lemma series_plan_limit_first:
  "case seriesBestIndex \<lparr>aConstraint = [\<lparr>iColumn = 0, c_op = CONSTRAINT_LIMIT, usable = True\<rparr>, \<lparr>iColumn = 1, c_op = CONSTRAINT_EQ, usable = True\<rparr>],
      aOrderBy = [], aConstraintUsage = replicate 2 \<lparr>argvIndex = 0, omit = False\<rparr>,
      plan_idxNum = 0, orderByConsumed = False, estimatedCost = 0, estimatedRows = 0\<rparr> of
    (rc, _, info) \<Rightarrow> rc = SQLITE_OK \<and> map argvIndex (aConstraintUsage info) = [3, 1] \<and>
      nparams (plan_idxNum info) + nlimits (plan_idxNum info) + nvalues (plan_idxNum info) = 1"
  by (simp add: seriesBestIndex_def best_constraint_def best_value_def has_def Let_def nparams_def nlimits_def nvalues_def
      numeral_eq_Suc del: One_nat_def)

end
