(* ===== verification/Ipaddr.thy ===== *)
theory Ipaddr
  imports Decimal_Print
begin

text \<open>
  The functions on IP addresses of \<^verbatim>\<open>mvsqlite-pgtypes-ext/ipaddr/extension.c\<close>.  The
  conversions \<^verbatim>\<open>inet_pton\<close> and \<^verbatim>\<open>inet_ntop\<close> of the system library are parameters;
  \<open>inet_spec\<close> is what POSIX documents of them and \<open>ref_inet\<close> an instance.  No function
  checks its allocations: \<open>None\<close> is the crash that writing through a NULL pointer is.
\<close>

section \<open>The system library\<close>

record inet_routines =
  pton4 :: "string \<Rightarrow> byte list option"
  pton6 :: "string \<Rightarrow> byte list option"
  ntop4 :: "byte list \<Rightarrow> string"
  ntop6 :: "byte list \<Rightarrow> string"

text \<open>
  \<^verbatim>\<open>strtoul(z, &end, 10)\<close> on 64 bits: white space, a sign, digits.  The result is the value,
  whether \<^verbatim>\<open>errno\<close> is set, and the text at \<^verbatim>\<open>end\<close> (all of \<open>z\<close> when there is no digit).
\<close>

definition strtoul :: "string \<Rightarrow> int \<times> bool \<times> string" where
  "strtoul z =
     (let y = dropWhile isspace z;
          neg = (cur y = CHR ''-'');
          y = (if cur y = CHR ''-'' \<or> cur y = CHR ''+'' then tl y else y);
          ds = takeWhile isdigit y;
          v = dval (map digit_of ds)
      in if ds = [] then (0, False, z)
         else if v \<ge> 2 ^ 64 then (2 ^ 64 - 1, True, dropWhile isdigit y)
         else (if neg then to_u64 (- v) else v, False, dropWhile isdigit y))"

section \<open>Parsing\<close>

datatype address_family = AF_INET | AF_INET6

record ipaddress =
  af :: address_family
  addr :: "byte list"
  masklen :: nat

abbreviation sizeof_ipaddress :: int where
  "sizeof_ipaddress \<equiv> 24"

text \<open>The text before the first slash, and the text after it when there is one.\<close>

definition split_slash :: "string \<Rightarrow> string \<times> string option" where
  "split_slash z =
     (let host = takeWhile (\<lambda>c. c \<noteq> CHR ''/'') z in
      (host, if length host < length z then Some (drop (Suc (length host)) z) else None))"

text \<open>The outer option is the crash, the inner one the NULL that is returned for a bad address.\<close>

definition parse_ipaddress :: "sqlite3_api_routines \<Rightarrow> inet_routines \<Rightarrow> string \<Rightarrow> ipaddress option option" where
  "parse_ipaddress api inet address =
     (let (host, sep) = split_slash address;
          (bad, mlen) =
            (case sep of None \<Rightarrow> (False, 0)
             | Some m \<Rightarrow>
                 let (v, erange, rest) = strtoul m
                 in (erange \<or> rest = m \<or> rest \<noteq> [], v))
      in if bad then Some None
         else case pton4 inet host of
                Some buf \<Rightarrow>
                  if sep \<noteq> None \<and> mlen > 32 then Some None
                  else if \<not> malloc64 api sizeof_ipaddress then None
                  else Some (Some \<lparr>af = AF_INET, addr = buf,
                                   masklen = (if sep \<noteq> None then nat mlen else 32)\<rparr>)
              | None \<Rightarrow>
                  (case pton6 inet host of
                     Some buf \<Rightarrow>
                       if sep \<noteq> None \<and> mlen > 128 then Some None
                       else if \<not> malloc64 api sizeof_ipaddress then None
                       else Some (Some \<lparr>af = AF_INET6, addr = buf,
                                        masklen = (if sep \<noteq> None then nat mlen else 128)\<rparr>)
                   | None \<Rightarrow> Some None))"

text \<open>
  The common beginning of the functions: NULL for a NULL argument, the parsed address
  otherwise.  The text of a value ends at its first NUL.
\<close>

definition with_address :: "sqlite3_api_routines \<Rightarrow> inet_routines \<Rightarrow> sqlite3_value \<Rightarrow>
    (ipaddress \<Rightarrow> sql_result option) \<Rightarrow> sql_result option" where
  "with_address api inet v k =
     (if v = SQLITE_NULL then Some ResNull
      else case value_text api v of
             None \<Rightarrow> None
           | Some address \<Rightarrow>
               (case parse_ipaddress api inet (c_str address) of
                  None \<Rightarrow> None
                | Some None \<Rightarrow> Some ResNull
                | Some (Some ip) \<Rightarrow> k ip))"

section \<open>The functions\<close>

definition ipaddr_ipfamily :: "sqlite3_api_routines \<Rightarrow> inet_routines \<Rightarrow> sqlite3_value \<Rightarrow> sql_result option" where
  "ipaddr_ipfamily api inet v =
     with_address api inet v (\<lambda>ip. Some (ResInt (if af ip = AF_INET then 4 else 6)))"

definition ipaddr_iphost :: "sqlite3_api_routines \<Rightarrow> inet_routines \<Rightarrow> sqlite3_value \<Rightarrow> sql_result option" where
  "ipaddr_iphost api inet v =
     with_address api inet v
       (\<lambda>ip. case af ip of
          AF_INET \<Rightarrow> if malloc64 api 16 then Some (ResText (ntop4 inet (addr ip))) else None
        | AF_INET6 \<Rightarrow> if malloc64 api 46 then Some (ResText (ntop6 inet (addr ip))) else None)"

definition ipaddr_ipmasklen :: "sqlite3_api_routines \<Rightarrow> inet_routines \<Rightarrow> sqlite3_value \<Rightarrow> sql_result option" where
  "ipaddr_ipmasklen api inet v =
     with_address api inet v (\<lambda>ip. Some (ResInt (int (masklen ip))))"

text \<open>\<^verbatim>\<open>ntohl(s_addr)\<close> of the four bytes of an address, and back.\<close>

definition ntohl_bytes :: "byte list \<Rightarrow> 32 word" where
  "ntohl_bytes b = foldl (\<lambda>v x. push_bit 8 v OR ucast x) 0 b"

definition htonl_bytes :: "32 word \<Rightarrow> byte list" where
  "htonl_bytes w = [ucast (drop_bit 24 w), ucast (drop_bit 16 w), ucast (drop_bit 8 w), ucast w]"

definition mask4 :: "nat \<Rightarrow> 32 word" where
  "mask4 m = NOT (ucast ((push_bit (32 - m) 1 :: 64 word) - 1))"

definition net4 :: "nat \<Rightarrow> byte list \<Rightarrow> byte list" where
  "net4 m b = htonl_bytes (ntohl_bytes b AND mask4 m)"

text \<open>The byte \<open>i\<close> of an IPv6 address under a mask of \<open>m\<close> bits, and the whole address.\<close>

definition mask6_byte :: "nat \<Rightarrow> nat \<Rightarrow> byte \<Rightarrow> byte" where
  "mask6_byte m i x =
     (if m div 8 < i then 0
      else if m div 8 = i then x AND NOT (word_of_nat (m mod 8))
      else x)"

definition net6 :: "nat \<Rightarrow> byte list \<Rightarrow> byte list" where
  "net6 m b = map (\<lambda>i. mask6_byte m i (b ! i)) [0..<16]"

text \<open>\<^verbatim>\<open>sprintf(result, "%s/%u", buf, masklen)\<close>.\<close>

definition with_mask :: "string \<Rightarrow> nat \<Rightarrow> string" where
  "with_mask buf m = buf @ ''/'' @ map digit_char (nat_digits m)"

definition ipaddr_ipnetwork :: "sqlite3_api_routines \<Rightarrow> inet_routines \<Rightarrow> sqlite3_value \<Rightarrow> sql_result option" where
  "ipaddr_ipnetwork api inet v =
     with_address api inet v
       (\<lambda>ip. case af ip of
          AF_INET \<Rightarrow>
            let buf = ntop4 inet (net4 (masklen ip) (addr ip))
            in if malloc64 api 19 then Some (ResText (with_mask buf (masklen ip))) else None
        | AF_INET6 \<Rightarrow>
            let buf = ntop6 inet (net6 (masklen ip) (addr ip))
            in if malloc64 api 50 then Some (ResText (with_mask buf (masklen ip))) else None)"

text \<open>The loop that compares two IPv6 addresses byte by byte from \<open>i\<close> on.\<close>

function cmp6 :: "nat \<Rightarrow> byte list \<Rightarrow> byte list \<Rightarrow> nat \<Rightarrow> bool" where
  "cmp6 m b1 b2 i =
     (if i < 16 then
        if mask6_byte m i (b1 ! i) \<noteq> mask6_byte m i (b2 ! i) then False
        else cmp6 m b1 b2 (i + 1)
      else True)"
  by pat_completeness auto
termination
  by (relation "measure (\<lambda>(m, b1, b2, i). 16 - i)") auto

declare cmp6.simps [simp del]

definition ipaddr_ipcontains :: "sqlite3_api_routines \<Rightarrow> inet_routines \<Rightarrow> sqlite3_value \<Rightarrow> sqlite3_value \<Rightarrow>
    sql_result option" where
  "ipaddr_ipcontains api inet v1 v2 =
     (if v1 = SQLITE_NULL \<or> v2 = SQLITE_NULL then Some ResNull
      else case (value_text api v1, value_text api v2) of
             (Some address1, Some address2) \<Rightarrow>
               (case (parse_ipaddress api inet (c_str address1), parse_ipaddress api inet (c_str address2)) of
                  (Some (Some ip1), Some (Some ip2)) \<Rightarrow>
                    if af ip1 \<noteq> af ip2 \<or> masklen ip1 > masklen ip2 then Some (ResInt 0)
                    else
                      (case af ip1 of
                         AF_INET \<Rightarrow>
                           Some (ResInt (if net4 (masklen ip1) (addr ip1) = net4 (masklen ip1) (addr ip2) then 1 else 0))
                       | AF_INET6 \<Rightarrow>
                           Some (ResInt (if cmp6 (masklen ip1) (addr ip1) (addr ip2) 0 then 1 else 0)))
                | (Some _, Some _) \<Rightarrow> Some ResNull
                | _ \<Rightarrow> None)
           | _ \<Rightarrow> None)"

section \<open>Registration\<close>

abbreviation ip_reg :: "string \<Rightarrow> int \<Rightarrow> string \<Rightarrow> registration" where
  "ip_reg nm n f \<equiv> \<lparr>rg_kind = RegFunction, rg_name = nm, rg_nArg = n, rg_user = False, rg_func = f\<rparr>"

text \<open>The result of every registration is ignored.\<close>

definition ipaddr_init :: "(registration \<Rightarrow> int) \<Rightarrow> connection \<Rightarrow> int \<times> connection" where
  "ipaddr_init rcs db =
     (let db = snd (create rcs (ip_reg ''ipfamily'' 1 ''ipaddr_ipfamily'') db);
          db = snd (create rcs (ip_reg ''iphost'' 1 ''ipaddr_iphost'') db);
          db = snd (create rcs (ip_reg ''ipmasklen'' 1 ''ipaddr_ipmasklen'') db);
          db = snd (create rcs (ip_reg ''ipnetwork'' 1 ''ipaddr_ipnetwork'') db);
          db = snd (create rcs (ip_reg ''ipcontains'' 2 ''ipaddr_ipcontains'') db)
      in (SQLITE_OK, db))"

section \<open>What the system library promises\<close>

definition inet_spec :: "inet_routines \<Rightarrow> bool" where
  "inet_spec inet \<longleftrightarrow>
     (\<forall>z b. pton4 inet z = Some b \<longrightarrow> length b = 4) \<and>
     (\<forall>z b. pton6 inet z = Some b \<longrightarrow> length b = 16) \<and>
     (\<forall>b. length b = 4 \<longrightarrow> pton4 inet (ntop4 inet b) = Some b \<and> CHR ''/'' \<notin> set (ntop4 inet b) \<and> NUL \<notin> set (ntop4 inet b)) \<and>
     (\<forall>b. length b = 16 \<longrightarrow> pton6 inet (ntop6 inet b) = Some b \<and> pton4 inet (ntop6 inet b) = None \<and>
        CHR ''/'' \<notin> set (ntop6 inet b) \<and> NUL \<notin> set (ntop6 inet b))"

section \<open>Parsing is well formed\<close>

definition ip_wf :: "ipaddress \<Rightarrow> bool" where
  "ip_wf ip \<longleftrightarrow>
     (case af ip of AF_INET \<Rightarrow> length (addr ip) = 4 \<and> masklen ip \<le> 32
      | AF_INET6 \<Rightarrow> length (addr ip) = 16 \<and> masklen ip \<le> 128)"

lemma parse_wf:
  assumes "inet_spec inet" "parse_ipaddress api inet z = Some (Some ip)"
  shows "ip_wf ip"
  using assms
  by (auto simp: parse_ipaddress_def inet_spec_def ip_wf_def Let_def split: prod.splits option.splits if_splits)

lemma strtoul_digits:
  "strtoul (map digit_char (nat_digits n)) = (if int n < 2 ^ 64 then (int n, False, []) else (2 ^ 64 - 1, True, []))"
proof -
  let ?d = "map digit_char (nat_digits n)"
  have d: "\<forall>c \<in> set ?d. isdigit c" by (rule nat_digits_text(2))
  then have "isdigit (cur ?d)" by (cases "nat_digits n") auto
  then have c: "\<not> isspace (cur ?d)" "cur ?d \<noteq> CHR ''-''" "cur ?d \<noteq> CHR ''+''" using isdigit_not by auto
  have s: "dropWhile isspace ?d = ?d" using c(1) by (cases "nat_digits n") auto
  have t: "takeWhile isdigit ?d = ?d" "dropWhile isdigit ?d = []" using d by auto
  show ?thesis unfolding strtoul_def Let_def s using c(2,3) nat_digits_text(1) [of n] by (simp add: t del: map_map)
qed

lemma split_slash_append: "CHR ''/'' \<notin> set h \<Longrightarrow> split_slash (h @ ''/'' @ m) = (h, Some m)"
proof -
  assume "CHR ''/'' \<notin> set h"
  then have "takeWhile (\<lambda>c. c \<noteq> CHR ''/'') (h @ ''/'' @ m) = h" by (subst takeWhile_append2) auto
  then show ?thesis unfolding split_slash_def Let_def by (simp only:) simp
qed

lemma with_mask_NUL: "NUL \<notin> set h \<Longrightarrow> NUL \<notin> set (with_mask h m)"
  using nat_digits_text(2) [of m] not_isdigit_NUL(1) unfolding with_mask_def by (auto simp del: set_map)

text \<open>An address and its mask length, printed by the code, are read back.\<close>

lemma parse_with_mask:
  assumes "inet_spec inet" "ip_wf ip" "malloc64 api sizeof_ipaddress"
  shows "parse_ipaddress api inet (with_mask ((case af ip of AF_INET \<Rightarrow> ntop4 inet | AF_INET6 \<Rightarrow> ntop6 inet) (addr ip)) (masklen ip)) =
    Some (Some ip)"
proof -
  let ?h = "(case af ip of AF_INET \<Rightarrow> ntop4 inet | AF_INET6 \<Rightarrow> ntop6 inet) (addr ip)"
  have h: "CHR ''/'' \<notin> set ?h" using assms(1,2) by (auto simp: inet_spec_def ip_wf_def split: address_family.splits)
  have s: "split_slash (with_mask ?h (masklen ip)) = (?h, Some (map digit_char (nat_digits (masklen ip))))"
    unfolding with_mask_def by (rule split_slash_append [OF h])
  have m: "strtoul (map digit_char (nat_digits (masklen ip))) = (int (masklen ip), False, [])"
    using assms(2) by (auto simp: strtoul_digits ip_wf_def split: address_family.splits)
  have ne: "map digit_char (nat_digits (masklen ip)) \<noteq> []" by simp
  show ?thesis
    unfolding parse_ipaddress_def s Let_def prod.case option.case m
    using assms ne by (cases "af ip") (auto simp: inet_spec_def ip_wf_def)
qed

section \<open>Addresses as bits\<close>

text \<open>The bits of an address, most significant first: what a prefix length counts.\<close>

definition addr_bits :: "byte list \<Rightarrow> bool list" where
  "addr_bits b = concat (map (\<lambda>x. map (\<lambda>i. bit x (7 - i)) [0..<8]) b)"

lemma length_addr_bits [simp]: "length (addr_bits b) = 8 * length b"
  by (induction b) (auto simp: addr_bits_def)

lemma addr_bits_nth: "k < 8 * length b \<Longrightarrow> addr_bits b ! k = bit (b ! (k div 8)) (7 - k mod 8)"
proof (induction b arbitrary: k)
  case (Cons x b)
  have c: "addr_bits (x # b) = map (\<lambda>i. bit x (7 - i)) [0..<8] @ addr_bits b" by (simp add: addr_bits_def)
  show ?case
  proof (cases "k < 8")
    case True
    then have "addr_bits (x # b) ! k = bit x (7 - k)" unfolding c by (subst nth_append) simp
    with True show ?thesis by simp
  next
    case False
    then have "addr_bits (x # b) ! k = addr_bits b ! (k - 8)" unfolding c by (subst nth_append) simp
    moreover have "k div 8 = Suc ((k - 8) div 8)" "k mod 8 = (k - 8) mod 8" using False by (auto simp: le_div_geq le_mod_geq)
    ultimately show ?thesis using Cons.IH [of "k - 8"] Cons.prems False by simp
  qed
qed simp

lemma addr_bits_byte: "i < length b \<Longrightarrow> j < 8 \<Longrightarrow> addr_bits b ! (8 * i + j) = bit (b ! i) (7 - j)"
  using addr_bits_nth [of "8 * i + j" b] by simp

lemma list_4: "length b = 4 \<Longrightarrow> \<exists>b0 b1 b2 b3. b = [b0, b1, b2, b3]"
  by (auto simp: numeral_eq_Suc length_Suc_conv)

lemma bit_byte_high: "8 \<le> n \<Longrightarrow> \<not> bit (x :: byte) n"
  by (auto dest: bit_imp_le_length)

lemma htonl_ntohl: "length b = 4 \<Longrightarrow> htonl_bytes (ntohl_bytes b) = b"
  by (drule list_4) (auto simp: htonl_bytes_def ntohl_bytes_def bit_simps bit_byte_high intro!: bit_eqI)

lemma addr_bits_htonl: "k < 32 \<Longrightarrow> addr_bits (htonl_bytes w) ! k = bit w (31 - k)"
proof -
  assume k: "k < 32"
  have l: "length (htonl_bytes w) = 4" by (simp add: htonl_bytes_def)
  have d: "k div 8 = 0 \<or> k div 8 = 1 \<or> k div 8 = 2 \<or> k div 8 = 3" using k by auto
  have "htonl_bytes w ! (k div 8) = ucast (drop_bit (24 - 8 * (k div 8)) w)"
    using d by (elim disjE) (simp_all add: htonl_bytes_def)
  moreover have "24 - 8 * (k div 8) + (7 - k mod 8) = 31 - k"
  proof -
    define q r where "q = k div 8" and "r = k mod 8"
    have "k = 8 * q + r" "r < 8" "q \<le> 3" using k by (auto simp: q_def r_def)
    then show ?thesis unfolding q_def [symmetric] r_def [symmetric] by simp
  qed
  moreover have "7 - k mod 8 < 8" by linarith
  ultimately show ?thesis using k l by (simp add: addr_bits_nth bit_simps)
qed

lemma bit_mask4: "m \<le> 32 \<Longrightarrow> n < 32 \<Longrightarrow> bit (mask4 m) n \<longleftrightarrow> 32 - m \<le> n"
proof -
  assume "m \<le> 32" "n < 32"
  have "(push_bit (32 - m) 1 :: 64 word) - 1 = mask (32 - m)" by (simp add: mask_eq_exp_minus_1)
  then show ?thesis using \<open>n < 32\<close> by (auto simp: mask4_def bit_simps)
qed

section \<open>IPv4 networks\<close>

lemma net4_bits:
  assumes "length b = 4" "m \<le> 32"
  shows "length (net4 m b) = 4" "addr_bits (net4 m b) = take m (addr_bits b) @ replicate (32 - m) False"
proof -
  show l: "length (net4 m b) = 4" by (simp add: net4_def htonl_bytes_def)
  show "addr_bits (net4 m b) = take m (addr_bits b) @ replicate (32 - m) False"
  proof (rule nth_equalityI)
    show "length (addr_bits (net4 m b)) = length (take m (addr_bits b) @ replicate (32 - m) False)"
      using l assms by simp
  next
    fix k assume "k < length (addr_bits (net4 m b))"
    then have k: "k < 32" using l by simp
    have "addr_bits b ! k = bit (ntohl_bytes b) (31 - k)"
      using addr_bits_htonl [OF k, of "ntohl_bytes b"] htonl_ntohl [OF assms(1)] by simp
    moreover have "bit (mask4 m) (31 - k) \<longleftrightarrow> k < m"
      using bit_mask4 [OF assms(2), of "31 - k"] k by auto
    ultimately show "addr_bits (net4 m b) ! k = (take m (addr_bits b) @ replicate (32 - m) False) ! k"
      using k assms by (auto simp: net4_def addr_bits_htonl bit_and_iff nth_append)
  qed
qed

lemma addr_bits_inj:
  assumes "length b = length c" "addr_bits b = addr_bits c"
  shows "b = c"
proof (rule nth_equalityI [OF assms(1)])
  fix i assume i: "i < length b"
  show "b ! i = c ! i"
  proof (rule bit_eqI)
    fix n assume "possible_bit TYPE(8 word) n"
    then have n: "n < 8" by simp
    have "addr_bits x ! (8 * i + (7 - n)) = bit (x ! i) n" if "i < length x" for x
      using addr_bits_byte [OF that, of "7 - n"] n by simp
    then show "bit (b ! i) n = bit (c ! i) n" using assms i by metis
  qed
qed

lemma net4_eq_iff:
  assumes "length b = 4" "length c = 4" "m \<le> 32"
  shows "net4 m b = net4 m c \<longleftrightarrow> take m (addr_bits b) = take m (addr_bits c)"
  using net4_bits [OF assms(1,3)] net4_bits [OF assms(2,3)] addr_bits_inj [of "net4 m b" "net4 m c"] by auto

lemma net4_idem: "length b = 4 \<Longrightarrow> m \<le> 32 \<Longrightarrow> net4 m (net4 m b) = net4 m b"
  using net4_eq_iff [of "net4 m b" b m] net4_bits [of b m] by simp

text \<open>Every request of at most 64 bytes is granted.\<close>

definition ip_mem_ok :: "sqlite3_api_routines \<Rightarrow> bool" where
  "ip_mem_ok api \<longleftrightarrow> (\<forall>n. 0 < n \<and> n \<le> 64 \<longrightarrow> malloc64 api n)"

lemma ip_mem_okD: "ip_mem_ok api \<Longrightarrow> 0 < n \<Longrightarrow> n \<le> 64 \<Longrightarrow> malloc64 api n"
  by (simp add: ip_mem_ok_def)

lemma parse_text4:
  assumes "api_spec api" "ip_mem_ok api" "inet_spec inet" "length b = 4" "m \<le> 32"
  shows "with_address api inet (SQLITE_TEXT (with_mask (ntop4 inet b) m)) k = k \<lparr>af = AF_INET, addr = b, masklen = m\<rparr>"
proof -
  let ?ip = "\<lparr>af = AF_INET, addr = b, masklen = m\<rparr>"
  have "parse_ipaddress api inet (with_mask (ntop4 inet b) m) = Some (Some ?ip)"
    using parse_with_mask [OF assms(3), of ?ip api] ip_mem_okD [OF assms(2)] assms(4,5) by (simp add: ip_wf_def)
  moreover have "NUL \<notin> set (ntop4 inet b)" using assms(3,4) by (simp add: inet_spec_def)
  ultimately show ?thesis
    using assms(1) by (simp add: with_address_def api_spec_simps c_str_id with_mask_NUL)
qed

text \<open>
  C31: \<^verbatim>\<open>ipnetwork\<close> of an IPv4 address with a prefix length \<open>m\<close> prints the address that keeps the
  first \<open>m\<close> bits and has zeros in the others, followed by the same prefix length; the result
  is its own network.
\<close>

theorem ipnetwork4_correct:
  assumes "api_spec api" "ip_mem_ok api" "inet_spec inet"
    and "parse_ipaddress api inet (c_str z) = Some (Some ip)" "af ip = AF_INET"
  shows "\<exists>b. length b = 4 \<and> addr_bits b = take (masklen ip) (addr_bits (addr ip)) @ replicate (32 - masklen ip) False \<and>
    ipaddr_ipnetwork api inet (SQLITE_TEXT z) = Some (ResText (with_mask (ntop4 inet b) (masklen ip))) \<and>
    ipaddr_ipnetwork api inet (SQLITE_TEXT (with_mask (ntop4 inet b) (masklen ip))) =
      Some (ResText (with_mask (ntop4 inet b) (masklen ip)))"
proof -
  let ?m = "masklen ip"
  have w: "length (addr ip) = 4" "?m \<le> 32" using parse_wf [OF assms(3,4)] assms(5) by (auto simp: ip_wf_def)
  note n = net4_bits [OF w] and mem = ip_mem_okD [OF assms(2)]
  have "ipaddr_ipnetwork api inet (SQLITE_TEXT z) = Some (ResText (with_mask (ntop4 inet (net4 ?m (addr ip))) ?m))"
    using assms(1,4,5) mem by (simp add: ipaddr_ipnetwork_def with_address_def api_spec_simps)
  moreover have "ipaddr_ipnetwork api inet (SQLITE_TEXT (with_mask (ntop4 inet (net4 ?m (addr ip))) ?m)) =
      Some (ResText (with_mask (ntop4 inet (net4 ?m (addr ip))) ?m))"
    unfolding ipaddr_ipnetwork_def parse_text4 [OF assms(1-3) n(1) w(2)] using mem net4_idem [OF w] by simp
  ultimately show ?thesis using n by blast
qed

text \<open>
  C32: \<^verbatim>\<open>ipcontains\<close> of two IPv4 addresses with prefix lengths \<open>m\<close> and \<open>n\<close> is 1 exactly when
  \<open>m \<le> n\<close> and the addresses agree in their first \<open>m\<close> bits, and 0 otherwise.
\<close>

theorem ipcontains4_correct:
  assumes "api_spec api" "inet_spec inet"
    and "parse_ipaddress api inet (c_str y) = Some (Some ip1)" "af ip1 = AF_INET"
    and "parse_ipaddress api inet (c_str z) = Some (Some ip2)" "af ip2 = AF_INET"
  shows "ipaddr_ipcontains api inet (SQLITE_TEXT y) (SQLITE_TEXT z) =
    Some (ResInt (if masklen ip1 \<le> masklen ip2 \<and>
                     take (masklen ip1) (addr_bits (addr ip1)) = take (masklen ip1) (addr_bits (addr ip2)) then 1 else 0))"
proof -
  have w: "length (addr ip1) = 4" "masklen ip1 \<le> 32" "length (addr ip2) = 4"
    using parse_wf [OF assms(2,3)] parse_wf [OF assms(2,5)] assms(4,6) by (auto simp: ip_wf_def)
  show ?thesis using assms net4_eq_iff [OF w(1,3,2)]
    by (simp add: ipaddr_ipcontains_def api_spec_simps)
qed

end
