(* ===== verification/Pgtypes.thy ===== *)
theory Pgtypes
  imports Uuid Decimal_Functions Series_Plan Ipaddr
begin

text \<open>
  The entry point of the extension, \<^verbatim>\<open>pgtypes_ext.c\<close>: the four components register themselves in turn.
\<close>

definition sqlite3_mvsqlitepgtypes_init ::
    "int \<Rightarrow> bool \<Rightarrow> (registration \<Rightarrow> int) \<Rightarrow> connection \<Rightarrow> int \<times> string option \<times> connection" where
  "sqlite3_mvsqlitepgtypes_init libversion pzErrMsg rcs db =
     (let (rc, db) = sqlite3_uuid_init rcs db in
      if rc \<noteq> SQLITE_OK then (rc, None, db)
      else
        let (rc, db) = sqlite3_decimal_init rcs db in
        if rc \<noteq> SQLITE_OK then (rc, None, db)
        else
          let (rc, err, db) = sqlite3_series_init libversion pzErrMsg rcs db in
          if rc \<noteq> SQLITE_OK then (rc, err, db)
          else let (rc, db) = ipaddr_init rcs db in (rc, err, db))"

section \<open>The registrations\<close>

definition decimal_registrations :: "registration list" where
  "decimal_registrations = decimal_aFunc @
     [\<lparr>rg_kind = RegWindow, rg_name = ''decimal_sum'', rg_nArg = 1, rg_user = False, rg_func = ''decimalSumStep''\<rparr>,
      \<lparr>rg_kind = RegCollation, rg_name = ''decimal'', rg_nArg = 0, rg_user = False, rg_func = ''decimalCollFunc''\<rparr>]"

definition ipaddr_registrations :: "registration list" where
  "ipaddr_registrations =
     [ip_reg ''ipfamily'' 1 ''ipaddr_ipfamily'', ip_reg ''iphost'' 1 ''ipaddr_iphost'',
      ip_reg ''ipmasklen'' 1 ''ipaddr_ipmasklen'', ip_reg ''ipnetwork'' 1 ''ipaddr_ipnetwork'',
      ip_reg ''ipcontains'' 2 ''ipaddr_ipcontains'']"

definition checked_registrations :: "registration list" where
  "checked_registrations = uuid_registrations @ decimal_registrations @ [series_module]"

lemma decimal_init_all: "sqlite3_decimal_init rcs db = create_all rcs decimal_registrations db"
  by (auto simp: sqlite3_decimal_init_def decimal_registrations_def create_all_append Let_def create_def split: prod.splits)

lemma ipaddr_init_filter:
  "ipaddr_init rcs db = (SQLITE_OK, db @ filter (\<lambda>r. rcs r = SQLITE_OK) ipaddr_registrations)"
  by (simp add: ipaddr_init_def ipaddr_registrations_def create_def Let_def)

lemma init_composed:
  assumes "3008012 \<le> libversion \<or> \<not> pzErrMsg"
  shows "sqlite3_mvsqlitepgtypes_init libversion pzErrMsg rcs db =
    (case create_all rcs checked_registrations db of
       (rc, db') \<Rightarrow> if rc \<noteq> SQLITE_OK then (rc, None, db') else (SQLITE_OK, None, snd (ipaddr_init rcs db')))"
  using assms
  by (auto simp: sqlite3_mvsqlitepgtypes_init_def sqlite3_uuid_init_def decimal_init_all sqlite3_series_init_def
      checked_registrations_def create_all_append create_def ipaddr_init_filter Let_def split: prod.splits if_splits)

section \<open>Properties\<close>

text \<open>
  C30: Loading the extension registers the functions of the four components in order.  The first
  registration of the UUID, decimal and series components that fails ends it: its code is returned, and
  exactly the registrations before it have been made.  Otherwise it succeeds, with all of these and
  those of the five address functions the core accepted: a failure of one of the five is not reported.
\<close>

theorem pgtypes_init_registers:
  assumes "3008012 \<le> libversion \<or> \<not> pzErrMsg"
  shows "\<exists>k \<le> length checked_registrations.
    (\<forall>r \<in> set (take k checked_registrations). rcs r = SQLITE_OK) \<and>
    sqlite3_mvsqlitepgtypes_init libversion pzErrMsg rcs db =
      (if k < length checked_registrations
       then (rcs (checked_registrations ! k), None, db @ take k checked_registrations)
       else (SQLITE_OK, None, db @ checked_registrations @ filter (\<lambda>r. rcs r = SQLITE_OK) ipaddr_registrations)) \<and>
    (k < length checked_registrations \<longrightarrow> rcs (checked_registrations ! k) \<noteq> SQLITE_OK)"
proof -
  obtain k where k: "k \<le> length checked_registrations"
    "snd (create_all rcs checked_registrations db) = db @ take k checked_registrations"
    "\<forall>r \<in> set (take k checked_registrations). rcs r = SQLITE_OK"
    "if k < length checked_registrations
     then fst (create_all rcs checked_registrations db) = rcs (checked_registrations ! k) \<and> rcs (checked_registrations ! k) \<noteq> SQLITE_OK
     else fst (create_all rcs checked_registrations db) = SQLITE_OK"
    using create_all_prefix [of checked_registrations rcs db] by blast
  then show ?thesis unfolding init_composed [OF assms]
    by (intro exI [of _ k]) (auto simp: ipaddr_init_filter split: prod.splits if_splits)
qed

theorem pgtypes_init_registers_witness:
  "sqlite3_mvsqlitepgtypes_init 3039003 True (\<lambda>r. if rg_name r = ''iphost'' then SQLITE_NOMEM else SQLITE_OK) [] =
     (SQLITE_OK, None, checked_registrations @ filter (\<lambda>r. rg_name r \<noteq> ''iphost'') ipaddr_registrations)"
proof -
  let ?rcs = "\<lambda>r. if rg_name r = ''iphost'' then SQLITE_NOMEM else SQLITE_OK :: int"
  have "\<forall>r \<in> set checked_registrations. ?rcs r = SQLITE_OK"
    by (simp add: checked_registrations_def uuid_registrations_def decimal_registrations_def decimal_aFunc_def series_module_def)
  then have "?rcs (checked_registrations ! k) = SQLITE_OK" if "k < length checked_registrations" for k using that nth_mem by blast
  moreover have "(?rcs r = SQLITE_OK) = (rg_name r \<noteq> ''iphost'')" for r by simp
  ultimately show ?thesis using pgtypes_init_registers [of 3039003 True ?rcs "[]"] by (auto split: if_splits)
qed

end
