(* ===== verification/Decimal_Sum.thy ===== *)
theory Decimal_Sum
  imports Decimal_Functions
begin

text \<open>
  The aggregate \<^verbatim>\<open>decimal_sum\<close> over a window, the collation \<^verbatim>\<open>decimal\<close>, rounding, the
  registration of \<^verbatim>\<open>decimal.c\<close>, and the inputs on which its functions do not do what
  their comments say.
\<close>

section \<open>Sums over a window\<close>

text \<open>
  The core drives the aggregate by a sequence of calls: a row enters the window, a row
  leaves it, the current value is asked for.
\<close>

datatype sum_op = OpStep sqlite3_value | OpInverse sqlite3_value | OpValue

fun sum_exec :: "sqlite3_api_routines \<Rightarrow> sql_result \<times> Decimal option \<Rightarrow> sum_op \<Rightarrow> sql_result \<times> Decimal option" where
  "sum_exec api s (OpStep v) = decimalSumStep api v s"
| "sum_exec api s (OpInverse v) = decimalSumInverse api v s"
| "sum_exec api s OpValue = (fst s, snd (decimalSumValue api s))"

definition sum_run :: "sqlite3_api_routines \<Rightarrow> sum_op list \<Rightarrow> sql_result \<times> Decimal option" where
  "sum_run api ops = foldl (sum_exec api) (ResNull, None) ops"

text \<open>What a call adds to the sum, and an upper bound on the digits it adds.\<close>

fun op_delta :: "(sqlite3_value \<Rightarrow> rat) \<Rightarrow> sum_op \<Rightarrow> rat" where
  "op_delta num (OpStep v) = (if v = SQLITE_NULL then 0 else num v)"
| "op_delta num (OpInverse v) = (if v = SQLITE_NULL then 0 else - num v)"
| "op_delta num OpValue = 0"

fun op_size :: "sum_op \<Rightarrow> nat" where
  "op_size (OpStep v) = sql_len v + 2"
| "op_size (OpInverse v) = sql_len v + 2"
| "op_size OpValue = 0"

fun op_ok :: "(sqlite3_value \<Rightarrow> rat) \<Rightarrow> sum_op \<Rightarrow> bool" where
  "op_ok num (OpStep v) \<longleftrightarrow> v = SQLITE_NULL \<or> sql_num v (num v)"
| "op_ok num (OpInverse v) \<longleftrightarrow> v = SQLITE_NULL \<or> sql_num v (num v)"
| "op_ok num OpValue \<longleftrightarrow> True"

definition sum_inv :: "rat \<Rightarrow> nat \<Rightarrow> sql_result \<times> Decimal option \<Rightarrow> bool" where
  "sum_inv x n s \<longleftrightarrow> (\<exists>p. s = (ResNull, Some p) \<and> dec_wf p \<and> isInit p \<and> dec_val p = x \<and> nDigit p \<le> int n)"

lemma decimal_add_dec_plus: "fst (decimal_add api (Some A) (Some B)) = Some (dec_plus api A B)"
  by (simp add: dec_plus_def decimal_add_def Let_def)

lemma isInit_dec_plus [simp]: "isInit (dec_plus api A B) = isInit A"
proof -
  have "isInit (add_digits A B n) = isInit A" for A B n by (simp add: add_digits_def Let_def)
  then show ?thesis by (simp add: dec_plus_def decimal_add_def Let_def)
qed

lemma sum_add:
  assumes "mem_ok api" "dec_wf p" "isInit p" "dec_val p = x" "nDigit p \<le> int n" "dec_wf B" "nDigit B \<le> int k"
    "n + k + 2 \<le> 9000000"
  shows "sum_inv (x + dec_val B) (n + (k + 2)) (ResNull, fst (decimal_add api (Some p) (Some B)))"
proof -
  have "nDigit p + nDigit B + 2 \<le> SQLITE_DECIMAL_MAX_DIGIT" using assms(5,7,8) by linarith
  from dadd.opn_ok [OF assms(1,2,6) this] show ?thesis
    using assms(3-5,7) by (simp add: sum_inv_def decimal_add_dec_plus)
qed

lemma sum_step_keeps:
  assumes "api_spec api" "mem_ok api" "sum_inv x n s" "op_ok num a" "n + op_size a \<le> 8000000"
  shows "sum_inv (x + op_delta num a) (n + op_size a) (sum_exec api s a)"
proof -
  obtain p where s: "s = (ResNull, Some p)" and p: "dec_wf p" "isInit p" "dec_val p = x" "nDigit p \<le> int n"
    using assms(3) by (auto simp: sum_inv_def)
  have new: "\<exists>B. (\<forall>ctx b. decimal_new api ctx v b = (ctx, Some B)) \<and> dec_wf B \<and> dec_val B = num v \<and> nDigit B \<le> int (sql_len v)"
    if "sql_num v (num v)" "sql_len v \<le> 8000000" for v
    using decimal_new_num [OF assms(1,2) that] by metis
  have null: "sum_inv x (n + op_size a) s" using p s by (auto simp: sum_inv_def)
  show ?thesis
  proof (cases a)
    case (OpStep v)
    show ?thesis
    proof (cases "v = SQLITE_NULL")
      case True
      then have "sum_exec api s a = s" using OpStep s p(2) by (simp add: decimalSumStep_def aggregate_context_def)
      with null True OpStep show ?thesis by simp
    next
      case False
      obtain B where B: "\<And>ctx b. decimal_new api ctx v b = (ctx, Some B)" "dec_wf B" "dec_val B = num v" "nDigit B \<le> int (sql_len v)"
        using new [of v] assms(4,5) OpStep False by auto
      have "sum_exec api s a = (ResNull, fst (decimal_add api (Some p) (Some B)))"
        using OpStep False s p(2) by (simp add: decimalSumStep_def aggregate_context_def B(1))
      moreover have "n + sql_len v + 2 \<le> 9000000" using assms(5) OpStep by simp
      ultimately show ?thesis
        using sum_add [OF assms(2) p B(2,4)] B(3) OpStep False by simp
    qed
  next
    case (OpInverse v)
    show ?thesis
    proof (cases "v = SQLITE_NULL")
      case True
      then have "sum_exec api s a = s" using OpInverse s by (simp add: decimalSumInverse_def aggregate_context_def)
      with null True OpInverse show ?thesis by simp
    next
      case False
      obtain B where B: "\<And>ctx b. decimal_new api ctx v b = (ctx, Some B)" "dec_wf B" "dec_val B = num v" "nDigit B \<le> int (sql_len v)"
        using new [of v] assms(4,5) OpInverse False by auto
      let ?B = "B\<lparr>sign := \<not> sign B\<rparr>"
      have "sum_exec api s a = (ResNull, fst (decimal_add api (Some p) (Some ?B)))"
        using OpInverse False s by (simp add: decimalSumInverse_def aggregate_context_def B(1))
      moreover have "n + sql_len v + 2 \<le> 9000000" using assms(5) OpInverse by simp
      ultimately show ?thesis
        using sum_add [OF assms(2) p, of ?B "sql_len v"] flip_sign [OF B(2)] B(3,4) OpInverse False by simp
    qed
  next
    case OpValue
    obtain q where "snd (decimal_result api (Some p)) = Some q" "dec_wf q" "dec_val q = dec_val p"
      "isInit q = isInit p" "nDigit q = nDigit p"
      using decimal_result_correct [OF p(1), of api] by metis
    then show ?thesis using OpValue s p by (simp add: decimalSumValue_def aggregate_context_def sum_inv_def)
  qed
qed

lemma sum_run_inv:
  assumes "api_spec api" "mem_ok api"
  shows "sum_inv x n s \<Longrightarrow> \<forall>a \<in> set ops. op_ok num a \<Longrightarrow> n + (\<Sum>a \<leftarrow> ops. op_size a) \<le> 8000000 \<Longrightarrow>
    sum_inv (x + (\<Sum>a \<leftarrow> ops. op_delta num a)) (n + (\<Sum>a \<leftarrow> ops. op_size a)) (foldl (sum_exec api) s ops)"
proof (induction ops arbitrary: x n s)
  case (Cons a ops)
  have "sum_inv (x + op_delta num a) (n + op_size a) (sum_exec api s a)"
    by (rule sum_step_keeps [OF assms Cons.prems(1)]) (use Cons.prems in auto)
  from Cons.IH [OF this] Cons.prems(2,3) show ?case by (simp add: add.assoc)
qed simp

text \<open>The first row initialises the sum to zero.\<close>

lemma sum_first:
  assumes "mem_ok api"
  shows "sum_exec api (ResNull, None) (OpStep v) =
    sum_exec api (ResNull, Some (zeroed\<lparr>isInit := True, digits := [0], nDigit := 1\<rparr>)) (OpStep v)"
  using assms by (simp add: decimalSumStep_def aggregate_context_def zeroed_def mem_ok_def Let_def)

text \<open>
  C3: After any sequence of rows entering and leaving the window, starting with a row that
  enters, with NULLs ignored and the current value read at any point, \<^verbatim>\<open>decimal_sum\<close> returns a text
  that denotes exactly the sum of the rows that entered less those that left; \<^verbatim>\<open>xValue\<close> and
  \<^verbatim>\<open>xFinal\<close> return the same text.
\<close>

theorem decimal_sum_exact:
  assumes "api_spec api" "mem_ok api" "\<forall>a \<in> set (OpStep v # ops). op_ok num a"
    and "(\<Sum>a \<leftarrow> OpStep v # ops. op_size a) < 8000000"
  shows "\<exists>t. decimalSumFinalize api (sum_run api (OpStep v # ops)) = ResText t \<and>
    fst (decimalSumValue api (sum_run api (OpStep v # ops))) = ResText t \<and>
    plain_numeral t (\<Sum>a \<leftarrow> OpStep v # ops. op_delta num a)"
proof -
  let ?z = "zeroed\<lparr>isInit := True, digits := [0], nDigit := 1\<rparr>"
  let ?x = "\<Sum>a \<leftarrow> OpStep v # ops. op_delta num a"
  have "sum_inv 0 1 (ResNull, Some ?z)"
    by (simp add: sum_inv_def zeroed_def dec_wf_def dec_val_def dec_mant_def digs_def dval_Cons)
  moreover have "sum_run api (OpStep v # ops) = foldl (sum_exec api) (ResNull, Some ?z) (OpStep v # ops)"
    using sum_first [OF assms(2), of v] by (simp add: sum_run_def)
  ultimately have "sum_inv ?x (1 + (\<Sum>a \<leftarrow> OpStep v # ops. op_size a)) (sum_run api (OpStep v # ops))"
    using sum_run_inv [OF assms(1,2), of 0 1 "(ResNull, Some ?z)" "OpStep v # ops" num] assms(3,4) by (simp del: sum_list.Cons list.map)
  then obtain p where p: "sum_run api (OpStep v # ops) = (ResNull, Some p)" "dec_wf p" "dec_val p = ?x" "nDigit p \<le> 8000000"
    using assms(4) unfolding sum_inv_def by (elim exE conjE) (rule that, auto)
  with decimal_result_ok [OF p(2) assms(2)] show ?thesis
    by (simp add: decimalSumFinalize_def decimalSumValue_def aggregate_context_def del: sum_list.Cons list.map)
qed

definition ex_num :: "sqlite3_value \<Rightarrow> rat" where
  "ex_num v = (case v of SQLITE_INTEGER i \<Rightarrow> of_int i | SQLITE_TEXT z \<Rightarrow> 1 / 2 | _ \<Rightarrow> 0)"

theorem decimal_sum_exact_witness:
  "\<exists>t. decimalSumFinalize ref_api (sum_run ref_api [OpStep (SQLITE_TEXT ''0.5''), OpStep SQLITE_NULL, OpInverse (SQLITE_INTEGER 3)]) = ResText t \<and>
    fst (decimalSumValue ref_api (sum_run ref_api [OpStep (SQLITE_TEXT ''0.5''), OpStep SQLITE_NULL, OpInverse (SQLITE_INTEGER 3)])) = ResText t \<and>
    plain_numeral t (\<Sum>a \<leftarrow> [OpStep (SQLITE_TEXT ''0.5''), OpStep SQLITE_NULL, OpInverse (SQLITE_INTEGER 3)]. op_delta ex_num a)"
  by (rule decimal_sum_exact [OF api_spec_ref_api mem_ok_ref_api])
    (simp_all add: ex_num_def sql_num_def sql_len_def small_numerals fmt_int_def nat_digits.simps)

section \<open>Rounding\<close>

text \<open>
  \<open>w\<close> is \<open>v\<close> rounded to \<open>n\<close> significant digits, halves away from zero: with \<open>10 ^ k\<close> the weight of
  the first digit of \<open>v\<close>, the unit is \<open>10 ^ (k + 1 - n)\<close>.
\<close>

definition rounds_to :: "int \<Rightarrow> rat \<Rightarrow> rat \<Rightarrow> bool" where
  "rounds_to n v w \<longleftrightarrow>
     (v = 0 \<longrightarrow> w = 0) \<and>
     (\<forall>k. 10 powi k \<le> \<bar>v\<bar> \<and> \<bar>v\<bar> < 10 powi (k + 1) \<longrightarrow>
        w = sgn v * of_int \<lfloor>\<bar>v\<bar> / 10 powi (k + 1 - n) + 1 / 2\<rfloor> * 10 powi (k + 1 - n))"

lemma significant_digits:
  assumes "dec_wf p" "dval (digs p) \<noteq> 0"
  defines "s \<equiv> nDigit p - int (length (takeWhile (\<lambda>d. d = 0) (digs p)))"
  shows "1 \<le> s" "10 ^ nat (s - 1) \<le> dval (digs p)" "dval (digs p) < 10 ^ nat s"
proof -
  note w = dec_wfD [OF assms(1)]
  let ?t = "takeWhile (\<lambda>d. d = 0) (digs p)" and ?r = "dropWhile (\<lambda>d. d = 0) (digs p)"
  have split: "digs p = replicate (length ?t) 0 @ ?r" by (metis takeWhile_dropWhile_id takeWhile_zeros)
  then have v: "dval (digs p) = dval ?r" by (metis dval_append dval_replicate_0 mult_zero_left add_0)
  then have ne: "?r \<noteq> []" using assms(2) by (metis dval_Nil)
  have "length ?t + length ?r = nat (nDigit p)" using w(9) by (metis length_append takeWhile_dropWhile_id)
  then have l: "int (length ?r) = s" using w(5) by (simp add: s_def)
  have ok: "digs_ok ?r" using w(8) by (auto simp: digs_ok_def dest: set_dropWhileD)
  have "hd ?r \<noteq> 0" using ne hd_dropWhile by blast
  with dval_lower [OF ok ne] dval_less [OF ok] ne l show "1 \<le> s" "10 ^ nat (s - 1) \<le> dval (digs p)" "dval (digs p) < 10 ^ nat s"
    unfolding v by (auto simp: l [symmetric] nat_diff_distrib Suc_le_eq)
qed

lemma powi_less_cancel: "(10 :: rat) powi a < 10 powi b \<Longrightarrow> a < b"
  using power_int_increasing [of b a "10 :: rat"] by linarith

lemma powi_unique:
  assumes "10 powi j \<le> v" "v < 10 powi (j + 1)" "10 powi k \<le> v" "v < (10 :: rat) powi (k + 1)"
  shows "j = k"
proof -
  have "(10 :: rat) powi j < 10 powi (k + 1)" "(10 :: rat) powi k < 10 powi (j + 1)" using assms by auto
  then show ?thesis by (auto dest!: powi_less_cancel)
qed

lemma floor_half_up:
  assumes "0 < m"
  shows "\<lfloor>of_int D / (10 :: rat) ^ m + 1 / 2\<rfloor> = (D + 5 * 10 ^ (m - 1)) div 10 ^ m"
proof -
  have t: "(10 :: rat) ^ m = 10 * 10 ^ (m - 1)" using assms by (cases m) auto
  have "of_int D / (10 :: rat) ^ m + 1 / 2 = of_int (D + 5 * 10 ^ (m - 1)) / of_int (10 ^ m)"
    unfolding of_int_power of_int_add of_int_mult of_int_numeral t by (simp add: add_divide_distrib)
  then show ?thesis by (simp only: floor_divide_of_int_eq)
qed

lemma rounds_toI:
  assumes "v \<noteq> 0" "10 powi k \<le> \<bar>v\<bar>" "\<bar>v\<bar> < 10 powi (k + 1)"
    "w = sgn v * of_int \<lfloor>\<bar>v\<bar> / 10 powi (k + 1 - n) + 1 / 2\<rfloor> * 10 powi (k + 1 - n)"
  shows "rounds_to n v w"
  unfolding rounds_to_def
proof (intro conjI allI impI)
  fix j assume "10 powi j \<le> \<bar>v\<bar> \<and> \<bar>v\<bar> < 10 powi (j + 1)"
  then have "j = k" using powi_unique assms(2,3) by blast
  then show "w = sgn v * of_int \<lfloor>\<bar>v\<bar> / 10 powi (j + 1 - n) + 1 / 2\<rfloor> * 10 powi (j + 1 - n)" using assms(4) by simp
qed (use assms(1) in simp)

lemma decimal_round_value:
  assumes p: "dec_wf p" and n: "1 \<le> n" and r: "decimal_round api (Some p) n = Some r" "\<not> oom r"
  shows "rounds_to n (dec_val p) (dec_val r)"
proof (cases "dval (digs p) = 0")
  case True
  have "(5 * 10 ^ (m - 1)) div 10 ^ m = (0 :: int)" if "m \<noteq> 0" for m :: nat
    using that by (cases m) auto
  then have "dval (digs r) = 0"
    using decimal_round_correct(4) [OF p n r] unfolding True by (simp split: if_splits)
  then show ?thesis using True by (simp add: rounds_to_def dec_val_def dec_mant_def)
next
  case False
  note w = dec_wfD [OF p]
  define D where "D = dval (digs p)"
  define s where "s = nDigit p - int (length (takeWhile (\<lambda>d. d = 0) (digs p)))"
  have D: "1 \<le> s" "10 ^ nat (s - 1) \<le> D" "D < 10 ^ nat s"
    using significant_digits [OF p False] by (auto simp: D_def s_def)
  have D0: "0 < D" using D(2) zero_less_power [of "10 :: int" "nat (s - 1)"] by linarith
  let ?f = "10 powi (- nFrac p) :: rat"
  have f: "0 < ?f" by simp
  define m where "m = nat (s - n)"
  have R: "sign r = sign p" "nFrac r = nFrac p" "dval (digs r) = (if m = 0 then D else ((D + 5 * 10 ^ (m - 1)) div 10 ^ m) * 10 ^ m)"
    using decimal_round_correct [OF p n r] by (auto simp: m_def s_def D_def algebra_simps)
  have v: "\<bar>dec_val p\<bar> = of_int D * ?f" "sgn (dec_val p) = (if sign p then - 1 else 1)" "dec_val p \<noteq> 0"
    using D0 f unfolding dec_val_powi [OF w(3)] by (auto simp: dec_mant_def D_def abs_mult sgn_mult)
  have "(of_int (10 ^ nat (s - 1)) :: rat) \<le> of_int D" "(of_int D :: rat) < of_int (10 ^ nat s)"
    using D(2,3) by (simp_all only: of_int_le_iff of_int_less_iff)
  then have b: "10 powi (s - 1) \<le> (of_int D :: rat)" "(of_int D :: rat) < 10 powi s"
    using D(1) by (simp_all add: powi_10_nat)
  show ?thesis
  proof (rule rounds_toI [of _ "s - 1 - nFrac p"])
    show "10 powi (s - 1 - nFrac p) \<le> \<bar>dec_val p\<bar>" "\<bar>dec_val p\<bar> < 10 powi (s - 1 - nFrac p + 1)"
      using mult_right_mono [OF b(1), of ?f] mult_strict_right_mono [OF b(2) f] v(1)
      by (simp_all add: powi_10_add [symmetric])
    have u: "10 powi (s - 1 - nFrac p + 1 - n) = (10 powi (s - n) * ?f :: rat)"
      by (simp add: powi_10_add [symmetric] algebra_simps)
    have q: "\<bar>dec_val p\<bar> / 10 powi (s - 1 - nFrac p + 1 - n) = of_int D / 10 powi (s - n)"
      unfolding u v(1) by simp
    have fl: "of_int \<lfloor>of_int D / 10 powi (s - n) + 1 / 2 :: rat\<rfloor> * 10 powi (s - n) = (of_int (dval (digs r)) :: rat)"
    proof (cases "m = 0")
      case True
      then have k: "0 \<le> n - s" by (simp add: m_def)
      have "(10 :: rat) powi (s - n) = inverse (10 powi (n - s))" by (metis minus_diff_eq power_int_minus)
      then have "of_int D / (10 :: rat) powi (s - n) = of_int (D * 10 ^ nat (n - s))"
        using k by (simp add: powi_10_nat divide_inverse)
      moreover have "\<lfloor>of_int i + 1 / 2 :: rat\<rfloor> = i" for i by linarith
      ultimately have "of_int \<lfloor>of_int D / 10 powi (s - n) + 1 / 2 :: rat\<rfloor> * 10 powi (s - n) =
          of_int D / (10 :: rat) powi (s - n) * 10 powi (s - n)" by simp
      then show ?thesis using R(3) True by simp
    next
      case False
      then have "(10 :: rat) powi (s - n) = 10 ^ m" unfolding m_def by (intro powi_10_nat) simp
      then show ?thesis using R(3) False floor_half_up [of m D] by simp
    qed
    show "dec_val r = sgn (dec_val p) * of_int \<lfloor>\<bar>dec_val p\<bar> / 10 powi (s - 1 - nFrac p + 1 - n) + 1 / 2\<rfloor> *
        10 powi (s - 1 - nFrac p + 1 - n)"
    proof -
      have "dec_val r = (if sign p then - 1 else 1) * (of_int (dval (digs r)) * ?f)"
        using R(1,2) w(3) by (simp add: dec_val_powi dec_mant_def)
      then show ?thesis unfolding q unfolding v(2) u fl [symmetric] by (simp only: mult.assoc)
    qed
  qed (rule v(3))
qed

lemma decimal_round_progress:
  assumes "dec_wf p" "mem_ok api" "nDigit p < SQLITE_DECIMAL_MAX_DIGIT - 1"
  obtains r where "decimal_round api (Some p) n = Some r" "\<not> oom r" "nDigit r \<le> nDigit p + 1"
proof -
  have o: "\<not> oom (decimal_expand api p (nDigit p + 1) (nFrac p))"
    using decimal_expand_oom [OF assms(2), of "nDigit p + 1" p "nFrac p"] assms(3) dec_wfD(1,5) [OF assms(1)] by simp
  then have x: "nDigit (decimal_expand api p (nDigit p + 1) (nFrac p)) = nDigit p + 1"
    using decimal_expand_nDigit by blast
  have "\<exists>r. decimal_round api (Some p) n = Some r \<and> \<not> oom r \<and> nDigit r \<le> nDigit p + 1"
    using o x dec_wfD(1) [OF assms(1)] by (simp add: decimal_round_def Let_def round_finish_def)
  then show thesis using that by blast
qed

text \<open>
  C5: \<^verbatim>\<open>decimal(X,N)\<close> for a positive \<open>N\<close> returns a text that denotes \<open>X\<close> rounded to \<open>N\<close> significant
  digits, halves rounded away from zero.
\<close>

theorem decimal_rounds:
  assumes "api_spec api" "mem_ok api" "sql_num a x" "sql_len a \<le> 8000000" "1 \<le> n" "n < 2 ^ 31"
  shows "\<exists>t w. decimalFunc api False [a, SQLITE_INTEGER n] = ResText t \<and> plain_numeral t w \<and> rounds_to n x w"
proof -
  obtain A where A: "\<And>ctx b. decimal_new api ctx a b = (ctx, Some A)" "dec_wf A" "dec_val A = x" "nDigit A \<le> int (sql_len a)"
    using decimal_new_num [OF assms(1-4)] by metis
  have "nDigit A < SQLITE_DECIMAL_MAX_DIGIT - 1" using A(4) assms(4) by linarith
  then obtain r where r: "decimal_round api (Some A) n = Some r" "\<not> oom r" "nDigit r \<le> nDigit A + 1"
    by (rule decimal_round_progress [OF A(2) assms(2)])
  note wf = decimal_round_correct(1) [OF A(2) assms(5) r(1,2)]
  have "value_int api (SQLITE_INTEGER n) = n" using value_int_small [OF assms(1)] assms(5,6) by simp
  then have "decimalFunc api False [a, SQLITE_INTEGER n] = fst (decimal_result api (Some r))"
    using assms(5) by (simp add: decimalFunc_def A(1) r(1))
  moreover have "nDigit r \<le> SQLITE_DECIMAL_MAX_DIGIT" using r(3) A(4) assms(4) by linarith
  ultimately show ?thesis
    using decimal_result_ok [OF wf assms(2)] decimal_round_value [OF A(2) assms(5) r(1,2)] A(3) by auto
qed

theorem decimal_rounds_witness:
  "\<exists>t w. decimalFunc ref_api False [SQLITE_INTEGER (- 19995), SQLITE_INTEGER 4] = ResText t \<and> plain_numeral t w \<and>
     rounds_to 4 (of_int (- 19995)) w"
  by (rule decimal_rounds [OF api_spec_ref_api mem_ok_ref_api])
    (simp_all add: sql_num_def sql_len_def fmt_int_def nat_digits.simps)

section \<open>The collation\<close>

definition coll_den :: "sqlite3_api_routines \<Rightarrow> string \<Rightarrow> rat \<Rightarrow> bool" where
  "coll_den api z x \<longleftrightarrow> mem_ok api \<and> length z \<le> 8000000 \<and> plain_numeral z x"

interpretation dcoll: collating_function coll_den decimalCollFunc
proof
  fix api a b and x y :: rat
  assume h: "coll_den api a x" "coll_den api b y"
  then obtain A where A: "decimalNewFromText api (Some a) = Some A" "dec_wf A" "dec_val A = x" "cmp_normal A"
    using newFromText_plain_progress unfolding coll_den_def by metis
  from h obtain B where B: "decimalNewFromText api (Some b) = Some B" "dec_wf B" "dec_val B = y" "cmp_normal B"
    using newFromText_plain_progress unfolding coll_den_def by metis
  have "of_int (sgn (decimal_cmp A B)) = sgn (x - y)"
    using decimal_cmp_correct [OF A(2,4) B(2,4)] A(3) B(3) by simp
  then show "(decimalCollFunc api a b < 0 \<longleftrightarrow> x < y) \<and> (decimalCollFunc api a b = 0 \<longleftrightarrow> x = y)"
    by (auto simp: decimalCollFunc_def A(1) B(1) sgn_if split: if_splits)
qed

text \<open>
  C23: The collation \<^verbatim>\<open>decimal\<close> orders plain numerals as the numbers they denote, so it satisfies
  the rules SQLite sets for collating functions: antisymmetry, and transitivity of equality
  and of the order.
\<close>

theorem decimal_collation_order:
  assumes "coll_den api a x" "coll_den api b y" "coll_den api c z"
  shows "(decimalCollFunc api a b < 0 \<longleftrightarrow> x < y) \<and> (decimalCollFunc api a b = 0 \<longleftrightarrow> x = y) \<and>
    (decimalCollFunc api a b < 0 \<longleftrightarrow> 0 < decimalCollFunc api b a) \<and>
    (decimalCollFunc api a b = 0 \<and> decimalCollFunc api b c = 0 \<longrightarrow> decimalCollFunc api a c = 0) \<and>
    (decimalCollFunc api a b < 0 \<and> decimalCollFunc api b c < 0 \<longrightarrow> decimalCollFunc api a c < 0)"
  using dcoll.cmp_key [OF assms(1,2)] dcoll.cmp_antisym [OF assms(1,2)] dcoll.cmp_eq_trans [OF assms]
    dcoll.cmp_less_trans [OF assms] by blast

theorem decimal_collation_order_witness:
  "decimalCollFunc ref_api ''0.5'' ''1.0'' < 0 \<and> decimalCollFunc ref_api ''1.0'' ''2.0'' < 0 \<and>
   decimalCollFunc ref_api ''0.5'' ''2.0'' < 0"
proof -
  have "coll_den ref_api ''0.5'' (1 / 2)" "coll_den ref_api ''1.0'' 1" "coll_den ref_api ''2.0'' 2"
    using mem_ok_ref_api small_numerals by (simp_all add: coll_den_def)
  from decimal_collation_order [OF this] decimal_collation_order [OF this(2,3,3)] show ?thesis by auto
qed

section \<open>Registration\<close>

lemma sqlite3_decimal_init_ok:
  assumes "\<forall>r. rcs r = SQLITE_OK"
  shows "fst (sqlite3_decimal_init rcs db) = SQLITE_OK \<and>
    map rg_name (snd (sqlite3_decimal_init rcs db)) = map rg_name db @
      [''decimal'', ''decimal'', ''decimal_exp'', ''decimal_exp'', ''decimal_cmp'', ''decimal_add'', ''decimal_sub'',
       ''decimal_mul'', ''decimal_pow2'', ''decimal_sum'', ''decimal'']"
  using assms by (simp add: sqlite3_decimal_init_def create_all_ok create_def decimal_aFunc_def)

section \<open>Where the functions depart from their comments\<close>

text \<open>
  The comparison looks only at the number of digits before the point once trailing zeros are
  gone, so a numeral written with an exponent, or with a zero before the point that came from
  an exponent, is misplaced: \<^verbatim>\<open>decimal_cmp('5e-2', '0.05')\<close> is \<open>1\<close> although both denote \<open>1 / 20\<close>,
  and \<^verbatim>\<open>decimal_cmp('0.05e1', '0.6')\<close> is \<open>1\<close> although the first is smaller.
\<close>

theorem decimal_cmp_exponent:
  "decimalCmpFunc ref_api [SQLITE_TEXT ''5e-2'', SQLITE_TEXT ''0.05''] = ResInt 1 \<and>
   dec_numeral ''5e-2'' (1 / 20) \<and> dec_numeral ''0.05'' (1 / 20) \<and>
   decimalCmpFunc ref_api [SQLITE_TEXT ''0.05e1'', SQLITE_TEXT ''0.6''] = ResInt 1"
proof -
  have "decimalCmpFunc ref_api [SQLITE_TEXT ''5e-2'', SQLITE_TEXT ''0.05''] = ResInt 1"
    "decimalCmpFunc ref_api [SQLITE_TEXT ''0.05e1'', SQLITE_TEXT ''0.6''] = ResInt 1" by code_simp+
  moreover have "plain_numeral ''0.05'' (1 / 20)"
    using plain_numeralI [of "''0''" "''05''" "1 / 20"]
    by (simp add: isdigit_def ord_char_def digit_of_def dval_Cons power_int_minus)
  moreover have "dec_numeral ''5e-2'' (1 / 20)"
    unfolding dec_numeral_def
  proof (intro exI conjI)
    show "''5e-2'' = [] @ [] @ ''5'' @ [] @ ''e-2''" by simp
    show "exp_part ''e-2'' (- 2)"
      unfolding exp_part_def
      by (intro disjI2 exI [of _ "CHR ''e''"] exI [of _ "''-''"] exI [of _ "''2''"])
        (simp add: isdigit_def ord_char_def digit_of_def dval_Cons)
  qed (simp_all add: isdigit_def ord_char_def digit_of_def dval_Cons power_int_minus)
  ultimately show ?thesis by (simp add: plain_numeral_def)
qed

text \<open>
  Results that are not a canonical number, or not an error, although the comments promise it:
  \<^verbatim>\<open>decimal_add('-1','1')\<close> prints a negative zero; \<^verbatim>\<open>decimal_add(NULL, X)\<close> reports that memory
  is exhausted where \<^verbatim>\<open>decimal_sub(X, NULL)\<close> is NULL; \<^verbatim>\<open>decimal_mul\<close> whose product does not fit
  in memory is NULL instead of an error.
\<close>

theorem decimal_edge_results:
  "decimalAddFunc ref_api [SQLITE_TEXT ''-1'', SQLITE_TEXT ''1''] = ResText ''-0'' \<and>
   (\<forall>api v. decimalAddFunc api [SQLITE_NULL, v] = ResNomem) \<and>
   decimalSubFunc ref_api [SQLITE_TEXT ''1'', SQLITE_NULL] = ResNull \<and>
   decimalMulFunc (ref_api\<lparr>malloc64 := (\<lambda>n. n = 24 \<or> n < 5)\<rparr>) [SQLITE_TEXT ''123'', SQLITE_TEXT ''456''] = ResNull"
proof (intro conjI allI)
  show "decimalAddFunc ref_api [SQLITE_TEXT ''-1'', SQLITE_TEXT ''1''] = ResText ''-0''" by code_simp
  show "decimalAddFunc api [SQLITE_NULL, v] = ResNomem" for api v
    by (simp add: decimalAddFunc_def decimal_new_def decimal_add_def decimal_result_def split_beta)
  show "decimalSubFunc ref_api [SQLITE_TEXT ''1'', SQLITE_NULL] = ResNull" by code_simp
  show "decimalMulFunc (ref_api\<lparr>malloc64 := (\<lambda>n. n = 24 \<or> n < 5)\<rparr>) [SQLITE_TEXT ''123'', SQLITE_TEXT ''456''] = ResNull"
    by code_simp
qed

text \<open>
  \<^verbatim>\<open>decimalPow2\<close> does not check the squaring of its multiplier: when that one allocation
  fails, the remaining multiplications are skipped and a wrong power is returned as if it were
  right.  Here the request for 6 bytes fails and \<^verbatim>\<open>decimal_pow2(2)\<close> returns 1.
\<close>

lemma decimal_pow2_lost_oom:
  "decimalPow2Func (ref_api\<lparr>malloc64 := (\<lambda>n. n \<noteq> 6)\<rparr>) [SQLITE_INTEGER 2] = ResText ''+1.0e+00''"
  by code_simp

text \<open>
  A NaN whose sign bit is set is not recognised: \<^verbatim>\<open>decimal\<close> of the blob \<^verbatim>\<open>x'fff8000000000000'\<close> is
  a number, the significand \<open>3\<close> times a power of two, instead of NULL.
\<close>

lemma decimal_negative_nan:
  "dbl_nan 0xfff8000000000000 \<and> double_parts 0xfff8000000000000 = Some (3, - 1025)"
  by code_simp

end
