(* ===== verification/Inet_Ref.thy ===== *)
theory Inet_Ref
  imports Ipaddr
begin

text \<open>
  One instance of the system library that satisfies \<open>inet_spec\<close>: dotted decimal for IPv4
  and eight groups of four hexadecimal digits for IPv6.  With it the properties of the
  IP functions are evaluated on concrete addresses.
\<close>

fun split_on :: "char \<Rightarrow> string \<Rightarrow> string list" where
  "split_on c [] = [[]]"
| "split_on c (x # xs) = (if x = c then [] # split_on c xs
     else case split_on c xs of [] \<Rightarrow> [[x]] | p # ps \<Rightarrow> (x # p) # ps)"

fun join_with :: "char \<Rightarrow> string list \<Rightarrow> string" where
  "join_with c [] = []"
| "join_with c [p] = p"
| "join_with c (p # q # ps) = p @ c # join_with c (q # ps)"

definition octet :: "string \<Rightarrow> byte option" where
  "octet p = (if p \<noteq> [] \<and> length p \<le> 3 \<and> (\<forall>c \<in> set p. isdigit c) \<and> dval (map digit_of p) \<le> 255
     then Some (word_of_int (dval (map digit_of p))) else None)"

definition ref_pton4 :: "string \<Rightarrow> byte list option" where
  "ref_pton4 z = (let os = map octet (split_on (CHR ''.'') z) in
     if length os = 4 \<and> None \<notin> set os then Some (map the os) else None)"

definition ref_ntop4 :: "byte list \<Rightarrow> string" where
  "ref_ntop4 b = join_with (CHR ''.'') (map (\<lambda>x. map digit_char (nat_digits (unat x))) b)"

definition hexd :: "nat \<Rightarrow> char" where
  "hexd n = ''0123456789abcdef'' ! n"

definition hexv :: "char \<Rightarrow> nat" where
  "hexv c = nat (if ord_char c \<le> 57 then ord_char c - 48
     else if ord_char c \<le> 70 then ord_char c - 55 else ord_char c - 87)"

definition hex2 :: "byte \<Rightarrow> string" where
  "hex2 x = [hexd (unat x div 16), hexd (unat x mod 16)]"

definition unhex :: "string \<Rightarrow> byte list" where
  "unhex p = [word_of_nat (16 * hexv (p ! 0) + hexv (p ! 1)), word_of_nat (16 * hexv (p ! 2) + hexv (p ! 3))]"

definition ref_pton6 :: "string \<Rightarrow> byte list option" where
  "ref_pton6 z = (let gs = split_on (CHR '':'') z in
     if length gs = 8 \<and> (\<forall>g \<in> set gs. length g = 4 \<and> (\<forall>c \<in> set g. isxdigit c))
     then Some (concat (map unhex gs)) else None)"

definition ref_ntop6 :: "byte list \<Rightarrow> string" where
  "ref_ntop6 b = join_with (CHR '':'') (map (\<lambda>i. hex2 (b ! (2 * i)) @ hex2 (b ! (2 * i + 1))) [0..<8])"

definition ref_inet :: inet_routines where
  "ref_inet = \<lparr>pton4 = ref_pton4, pton6 = ref_pton6, ntop4 = ref_ntop4, ntop6 = ref_ntop6\<rparr>"

lemma split_on_none: "c \<notin> set p \<Longrightarrow> split_on c p = [p]"
  by (induction p) auto

lemma split_on_append: "c \<notin> set p \<Longrightarrow> split_on c (p @ c # z) = p # split_on c z"
  by (induction p) auto

lemma split_join: "ps \<noteq> [] \<Longrightarrow> \<forall>p \<in> set ps. c \<notin> set p \<Longrightarrow> split_on c (join_with c ps) = ps"
  by (induction c ps rule: join_with.induct) (auto simp: split_on_none split_on_append)

lemma set_join: "set (join_with c ps) \<subseteq> insert c (\<Union>(set ` set ps))"
  by (induction c ps rule: join_with.induct) auto

lemma octet_round_trip: "octet (map digit_char (nat_digits (unat x))) = Some x"
proof -
  have u: "unat x < 256" "uint x \<le> 255"
    using unsigned_less [of x, where ?'a = nat] unsigned_less [of x, where ?'a = int] by simp_all
  then have "length (nat_digits (unat x)) \<le> 3" by (intro nat_digits_length) auto
  then show ?thesis
    using nat_digits_text [of "unat x"] u by (simp add: octet_def del: map_map)
qed

lemma hexv_hexd:
  assumes "n < 16"
  shows "hexv (hexd n) = n" "isxdigit (hexd n)"
proof -
  have "\<forall>n \<in> set [0..<16]. hexv (hexd n) = n \<and> isxdigit (hexd n)" by code_simp
  with assms show "hexv (hexd n) = n" "isxdigit (hexd n)" by auto
qed

lemma hex2_round_trip:
  "unhex (hex2 x @ hex2 y) = [x, y]" "\<forall>c \<in> set (hex2 x). isxdigit c" "length (hex2 x) = 2"
proof -
  have u: "unat z div 16 < 16" for z :: byte using unsigned_less [of z, where ?'a = nat] by auto
  have "word_of_nat (16 * hexv (hex2 z ! 0) + hexv (hex2 z ! 1)) = z" for z
    using u [of z] by (simp add: hex2_def hexv_hexd)
  then show "unhex (hex2 x @ hex2 y) = [x, y]" by (simp add: unhex_def hex2_def)
  show "\<forall>c \<in> set (hex2 x). isxdigit c" using u [of x] by (simp add: hex2_def hexv_hexd)
qed (simp add: hex2_def)

lemma not_isxdigit_punct: "\<not> isxdigit (CHR '':'')" "\<not> isxdigit (CHR ''.'')" "\<not> isxdigit (CHR ''/'')"
  by (simp_all add: isxdigit_def ord_char_def)

lemma list_16: "length b = 16 \<Longrightarrow> concat (map (\<lambda>i. [b ! (2 * i), b ! (2 * i + 1)]) [0..<8]) = b"
  by (auto simp: numeral_eq_Suc length_Suc_conv upt_rec)

lemma ref_round_trip4:
  assumes "length b = 4"
  shows "ref_pton4 (ref_ntop4 b) = Some b" "CHR ''/'' \<notin> set (ref_ntop4 b)" "NUL \<notin> set (ref_ntop4 b)"
proof -
  let ?ps = "map (\<lambda>x. map digit_char (nat_digits (unat x))) b"
  have d: "isdigit c" if "p \<in> set ?ps" "c \<in> set p" for p c using that nat_digits_text(2) by auto
  then have "split_on (CHR ''.'') (ref_ntop4 b) = ?ps"
    unfolding ref_ntop4_def
  proof (intro split_join ballI notI)
    fix p assume "p \<in> set ?ps" "CHR ''.'' \<in> set p"
    from d [OF this] show False by simp
  qed (use assms in auto)
  then show "ref_pton4 (ref_ntop4 b) = Some b"
    using assms by (simp add: ref_pton4_def Let_def octet_round_trip o_def)
  have "c = CHR ''.'' \<or> isdigit c" if "c \<in> set (ref_ntop4 b)" for c
    using that set_join [of "CHR ''.''" ?ps] d unfolding ref_ntop4_def by blast
  moreover have "\<not> isdigit (CHR ''/'')" by (simp add: isdigit_def ord_char_def)
  ultimately show "CHR ''/'' \<notin> set (ref_ntop4 b)" "NUL \<notin> set (ref_ntop4 b)"
    using not_isdigit_NUL(1) by fastforce+
qed

lemma ref_round_trip6:
  assumes "length b = 16"
  shows "ref_pton6 (ref_ntop6 b) = Some b" "ref_pton4 (ref_ntop6 b) = None"
    "CHR ''/'' \<notin> set (ref_ntop6 b)" "NUL \<notin> set (ref_ntop6 b)"
proof -
  let ?g = "\<lambda>i. hex2 (b ! (2 * i)) @ hex2 (b ! (2 * i + 1))"
  let ?ps = "map ?g [0..<8]"
  have d: "isxdigit c" if "p \<in> set ?ps" "c \<in> set p" for p c using that hex2_round_trip(2) by auto
  have s: "split_on (CHR '':'') (ref_ntop6 b) = ?ps"
    unfolding ref_ntop6_def
  proof (intro split_join ballI notI)
    fix p assume "p \<in> set ?ps" "CHR '':'' \<in> set p"
    from d [OF this] show False using not_isxdigit_punct by simp
  qed simp
  have "map unhex ?ps = map (\<lambda>i. [b ! (2 * i), b ! (2 * i + 1)]) [0..<8]"
    by (simp add: hex2_round_trip(1) del: upt_rec_numeral)
  then have "concat (map unhex ?ps) = b" using list_16 [OF assms] by (simp only:)
  moreover have "\<forall>g \<in> set ?ps. length g = 4 \<and> (\<forall>c \<in> set g. isxdigit c)" using d hex2_round_trip(3) by (auto simp del: upt_rec_numeral)
  ultimately show "ref_pton6 (ref_ntop6 b) = Some b" unfolding ref_pton6_def s Let_def by simp
  have all: "c = CHR '':'' \<or> isxdigit c" if "c \<in> set (ref_ntop6 b)" for c
    using that set_join [of "CHR '':''" ?ps] d unfolding ref_ntop6_def by blast
  then show "CHR ''/'' \<notin> set (ref_ntop6 b)" "NUL \<notin> set (ref_ntop6 b)"
    using not_isxdigit_punct(3) not_isdigit_NUL(2) by fastforce+
  have "CHR ''.'' \<notin> set (ref_ntop6 b)" using all not_isxdigit_punct by auto
  then show "ref_pton4 (ref_ntop6 b) = None" by (simp add: ref_pton4_def split_on_none)
qed

lemma inet_spec_ref_inet: "inet_spec ref_inet"
proof -
  have "length b = 4" if "ref_pton4 z = Some b" for z b
    using that by (auto simp: ref_pton4_def Let_def split: if_splits)
  moreover have "length b = 16" if "ref_pton6 z = Some b" for z b
  proof -
    have "length (concat (map unhex gs)) = 2 * length gs" for gs by (induction gs) (auto simp: unhex_def)
    then show ?thesis using that by (auto simp: ref_pton6_def Let_def split: if_splits)
  qed
  ultimately show ?thesis
    using ref_round_trip4 ref_round_trip6 by (simp add: inet_spec_def ref_inet_def)
qed

lemma ip_mem_ok_ref_api: "ip_mem_ok ref_api"
  by (simp add: ip_mem_ok_def ref_api_def)

section \<open>IPv6 networks\<close>

lemma cmp6_iff: "cmp6 m b c i \<longleftrightarrow> (\<forall>k. i \<le> k \<and> k < 16 \<longrightarrow> mask6_byte m k (b ! k) = mask6_byte m k (c ! k))"
proof (induction m b c i rule: cmp6.induct)
  case (1 m b c i)
  show ?case
  proof (cases "i < 16 \<and> mask6_byte m i (b ! i) = mask6_byte m i (c ! i)")
    case True
    then have "cmp6 m b c i \<longleftrightarrow> cmp6 m b c (i + 1)" by (simp add: cmp6.simps [of m b c i])
    also have "\<dots> \<longleftrightarrow> (\<forall>k. i + 1 \<le> k \<and> k < 16 \<longrightarrow> mask6_byte m k (b ! k) = mask6_byte m k (c ! k))"
      using 1 True by auto
    also have "\<dots> \<longleftrightarrow> (\<forall>k. i \<le> k \<and> k < 16 \<longrightarrow> mask6_byte m k (b ! k) = mask6_byte m k (c ! k))"
      using True by (metis Suc_eq_plus1 Suc_leD Suc_leI le_neq_implies_less)
    finally show ?thesis .
  next
    case False
    then show ?thesis by (subst cmp6.simps) auto
  qed
qed

lemma mask6_high_bits:
  assumes "m mod 8 \<le> 5" "j < m mod 8" "x AND NOT (word_of_nat (m mod 8)) = y AND NOT (word_of_nat (m mod 8) :: byte)"
  shows "bit x (7 - j) = bit y (7 - j)"
proof -
  have "\<forall>r \<in> set [0..<6]. \<forall>n \<in> set [3..<8]. \<not> bit (word_of_nat r :: byte) n" by code_simp
  moreover have "m mod 8 \<in> set [0..<6]" "7 - j \<in> set [3..<8]" using assms(1,2) by auto
  ultimately have "\<not> bit (word_of_nat (m mod 8) :: byte) (7 - j)" by blast
  moreover have "bit (x AND NOT (word_of_nat (m mod 8))) (7 - j) = bit (y AND NOT (word_of_nat (m mod 8) :: byte)) (7 - j)"
    using assms(3) by simp
  moreover have "7 - j < 8" by linarith
  ultimately show ?thesis by (simp add: bit_and_iff bit_not_iff)
qed

lemma cmp6_prefix:
  assumes "length b = 16" "length c = 16" "m \<le> 128" "m mod 8 \<le> 5" "cmp6 m b c 0"
  shows "take m (addr_bits b) = take m (addr_bits c)"
proof (rule nth_equalityI)
  show "length (take m (addr_bits b)) = length (take m (addr_bits c))" using assms by simp
next
  fix k assume "k < length (take m (addr_bits b))"
  then have k: "k < m" "k < 128" using assms by auto
  let ?i = "k div 8" and ?j = "k mod 8"
  have i: "?i < 16" using k(2) by auto
  have eq: "mask6_byte m ?i (b ! ?i) = mask6_byte m ?i (c ! ?i)" using assms(5) i by (simp add: cmp6_iff)
  have "?i < m div 8 \<or> ?i = m div 8 \<and> ?j < m mod 8" using k(1) by (metis div_le_mono div_mod_decomp le_neq_implies_less less_or_eq_imp_le nat_add_left_cancel_less)
  then have "bit (b ! ?i) (7 - ?j) = bit (c ! ?i) (7 - ?j)"
  proof
    assume "?i < m div 8"
    with eq show ?thesis by (simp add: mask6_byte_def)
  next
    assume h: "?i = m div 8 \<and> ?j < m mod 8"
    then have "(b ! ?i) AND NOT (word_of_nat (m mod 8)) = (c ! ?i) AND NOT (word_of_nat (m mod 8))"
      using eq by (simp add: mask6_byte_def)
    with h assms(4) show ?thesis by (intro mask6_high_bits) auto
  qed
  then show "take m (addr_bits b) ! k = take m (addr_bits c) ! k"
    using k assms(1,2) by (simp add: addr_bits_nth)
qed

section \<open>Properties\<close>

text \<open>
  For IPv6 and a prefix length whose remainder modulo 8 is at most 5, \<^verbatim>\<open>ipcontains\<close> never
  claims too much: when it answers 1 the prefix of the first address is the shorter one and
  the addresses agree in all of its bits.
\<close>

theorem ipcontains6_sound:
  assumes "api_spec api" "inet_spec inet"
    and "parse_ipaddress api inet (c_str y) = Some (Some ip1)" "af ip1 = AF_INET6"
    and "parse_ipaddress api inet (c_str z) = Some (Some ip2)"
    and "masklen ip1 mod 8 \<le> 5"
    and "ipaddr_ipcontains api inet (SQLITE_TEXT y) (SQLITE_TEXT z) = Some (ResInt 1)"
  shows "af ip2 = AF_INET6 \<and> masklen ip1 \<le> masklen ip2 \<and>
    take (masklen ip1) (addr_bits (addr ip1)) = take (masklen ip1) (addr_bits (addr ip2))"
proof -
  have r: "af ip2 = AF_INET6" "masklen ip1 \<le> masklen ip2" "cmp6 (masklen ip1) (addr ip1) (addr ip2) 0"
    using assms(1,3,4,5,7) by (auto simp: ipaddr_ipcontains_def api_spec_simps split: if_splits)
  moreover have "length (addr ip1) = 16" "masklen ip1 \<le> 128" "length (addr ip2) = 16"
    using parse_wf [OF assms(2,3)] parse_wf [OF assms(2,5)] assms(4) r(1) by (auto simp: ip_wf_def)
  ultimately show ?thesis using cmp6_prefix assms(6) by blast
qed

theorem ipcontains6_sound_witness:
  "\<exists>ip1 ip2. parse_ipaddress ref_api ref_inet ''2001:0db8:0000:0000:0000:0000:0000:0000/32'' = Some (Some ip1) \<and>
     parse_ipaddress ref_api ref_inet ''2001:0db8:0000:0000:0000:0000:0000:0001'' = Some (Some ip2) \<and>
     af ip2 = AF_INET6 \<and> masklen ip1 \<le> masklen ip2 \<and>
     take (masklen ip1) (addr_bits (addr ip1)) = take (masklen ip1) (addr_bits (addr ip2))"
proof -
  let ?y = "''2001:0db8:0000:0000:0000:0000:0000:0000/32''" and ?z = "''2001:0db8:0000:0000:0000:0000:0000:0001''"
  have c: "c_str ?y = ?y" "c_str ?z = ?z" by code_simp+
  have "case parse_ipaddress ref_api ref_inet ?y of Some (Some ip) \<Rightarrow> af ip = AF_INET6 \<and> masklen ip mod 8 \<le> 5 | _ \<Rightarrow> False"
    by code_simp
  then obtain ip1 where 1: "parse_ipaddress ref_api ref_inet (c_str ?y) = Some (Some ip1)" "af ip1 = AF_INET6" "masklen ip1 mod 8 \<le> 5"
    unfolding c by (auto split: option.splits)
  have "case parse_ipaddress ref_api ref_inet ?z of Some (Some ip) \<Rightarrow> True | _ \<Rightarrow> False" by code_simp
  then obtain ip2 where 2: "parse_ipaddress ref_api ref_inet (c_str ?z) = Some (Some ip2)"
    unfolding c by (auto split: option.splits)
  have 3: "ipaddr_ipcontains ref_api ref_inet (SQLITE_TEXT ?y) (SQLITE_TEXT ?z) = Some (ResInt 1)" by code_simp
  from ipcontains6_sound [OF api_spec_ref_api inet_spec_ref_inet 1(1,2) 2 1(3) 3] 1(1) 2 show ?thesis
    unfolding c by blast
qed

text \<open>The network of an IPv6 address: the bits of the prefix, and then zeros.\<close>

definition std6 :: "nat \<Rightarrow> byte list \<Rightarrow> byte list" where
  "std6 m b = map (\<lambda>i. if i < m div 8 then b ! i else if i = m div 8 then b ! i AND NOT (mask (8 - m mod 8)) else 0) [0..<16]"

lemma prefix_cases: "k < m \<longleftrightarrow> k div 8 < m div 8 \<or> k div 8 = m div 8 \<and> k mod 8 < m mod 8" for k m :: nat
proof
  assume "k < m"
  then have "k div 8 \<le> m div 8" by (simp add: div_le_mono)
  moreover have "k mod 8 < m mod 8" if "k div 8 = m div 8"
    using that \<open>k < m\<close> div_mult_mod_eq [of k 8] div_mult_mod_eq [of m 8] by linarith
  ultimately show "k div 8 < m div 8 \<or> k div 8 = m div 8 \<and> k mod 8 < m mod 8" by linarith
next
  assume h: "k div 8 < m div 8 \<or> k div 8 = m div 8 \<and> k mod 8 < m mod 8"
  show "k < m"
  proof (rule ccontr)
    assume "\<not> k < m"
    then have "m div 8 \<le> k div 8" by (simp add: div_le_mono)
    then show False using h \<open>\<not> k < m\<close> div_mult_mod_eq [of k 8] div_mult_mod_eq [of m 8] by linarith
  qed
qed

lemma std6_bits:
  assumes "length b = 16" "m \<le> 128"
  shows "addr_bits (std6 m b) = take m (addr_bits b) @ replicate (128 - m) False"
proof (rule nth_equalityI)
  have l: "length (std6 m b) = 16" by (simp add: std6_def)
  show "length (addr_bits (std6 m b)) = length (take m (addr_bits b) @ replicate (128 - m) False)" using l assms by simp
  fix k assume "k < length (addr_bits (std6 m b))"
  then have k: "k < 128" using l by simp
  then have "k div 8 < 16" by auto
  then have "addr_bits (std6 m b) ! k \<longleftrightarrow> k < m \<and> bit (b ! (k div 8)) (7 - k mod 8)"
    using k l prefix_cases [of k m] by (auto simp: addr_bits_nth std6_def bit_and_iff bit_not_iff bit_mask_iff)
  then show "addr_bits (std6 m b) ! k = (take m (addr_bits b) @ replicate (128 - m) False) ! k"
    using k assms by (auto simp: nth_append addr_bits_nth)
qed

lemma net6_std6:
  assumes "m \<le> 128"
  shows "net6 m b = std6 m b \<longleftrightarrow> m = 128 \<or> b ! (m div 8) AND NOT (word_of_nat (m mod 8)) = b ! (m div 8) AND NOT (mask (8 - m mod 8))"
proof -
  have m: "m = 128 \<or> m div 8 < 16" using assms by auto
  have "net6 m b = std6 m b \<longleftrightarrow> (\<forall>i < 16. net6 m b ! i = std6 m b ! i)" by (simp add: list_eq_iff_nth_eq net6_def std6_def)
  also have "\<dots> \<longleftrightarrow> (m div 8 < 16 \<longrightarrow> net6 m b ! (m div 8) = std6 m b ! (m div 8))"
    by (auto simp: net6_def std6_def mask6_byte_def)
  finally show ?thesis using m by (auto simp: net6_def std6_def mask6_byte_def)
qed

text \<open>
  C34: What \<^verbatim>\<open>ipnetwork\<close> makes of an IPv6 address with a prefix of \<open>m\<close> bits: the bytes before the boundary are kept, the bytes after it are zero, and the byte at the boundary is
  masked with the complement of the number \<open>m mod 8\<close>, where the bits after the prefix should be cleared.  The result is the network, \<open>m\<close> bits of
  the address and then zeros, exactly when the two masks happen to agree on that byte; for a prefix of whole bytes, exactly when the byte after it is zero already.
\<close>

theorem ipnetwork6_exact:
  assumes "api_spec api" "ip_mem_ok api" "inet_spec inet"
    and "parse_ipaddress api inet (c_str z) = Some (Some ip)" "af ip = AF_INET6"
    and "m = masklen ip" "x = addr ip ! (m div 8)"
  shows "\<exists>b. length b = 16 \<and> ipaddr_ipnetwork api inet (SQLITE_TEXT z) = Some (ResText (with_mask (ntop6 inet b) m)) \<and>
    (\<forall>i < 16. i < m div 8 \<longrightarrow> b ! i = addr ip ! i) \<and> (\<forall>i < 16. m div 8 < i \<longrightarrow> b ! i = 0) \<and>
    (addr_bits b = take m (addr_bits (addr ip)) @ replicate (128 - m) False \<longleftrightarrow>
       m = 128 \<or> x AND NOT (word_of_nat (m mod 8)) = x AND NOT (mask (8 - m mod 8))) \<and>
    (m < 128 \<and> m mod 8 = 0 \<longrightarrow> (addr_bits b = take m (addr_bits (addr ip)) @ replicate (128 - m) False \<longleftrightarrow> x = 0))"
proof -
  have w: "length (addr ip) = 16" "m \<le> 128" using parse_wf [OF assms(3,4)] assms(5,6) by (auto simp: ip_wf_def)
  let ?b = "net6 m (addr ip)"
  have l: "length ?b = 16" "length (std6 m (addr ip)) = 16" by (simp_all add: net6_def std6_def)
  have r: "ipaddr_ipnetwork api inet (SQLITE_TEXT z) = Some (ResText (with_mask (ntop6 inet ?b) m))"
    using assms(1,4,5,6) ip_mem_okD [OF assms(2)] by (simp add: ipaddr_ipnetwork_def with_address_def api_spec_simps)
  have e: "addr_bits ?b = take m (addr_bits (addr ip)) @ replicate (128 - m) False \<longleftrightarrow>
      m = 128 \<or> x AND NOT (word_of_nat (m mod 8)) = x AND NOT (mask (8 - m mod 8))"
    using net6_std6 [OF w(2), of "addr ip"] addr_bits_inj [of ?b "std6 m (addr ip)"] l
    unfolding std6_bits [OF w, symmetric] assms(7) by auto
  have "x AND NOT (mask 8) = 0" by (intro bit_eqI) (simp add: bit_and_iff bit_not_iff bit_mask_iff)
  then have z: "x AND NOT (word_of_nat (m mod 8)) = x AND NOT (mask (8 - m mod 8)) \<longleftrightarrow> x = 0" if "m mod 8 = 0" using that by simp
  show ?thesis
  proof (intro exI [of _ ?b] conjI)
    show "m < 128 \<and> m mod 8 = 0 \<longrightarrow> (addr_bits ?b = take m (addr_bits (addr ip)) @ replicate (128 - m) False \<longleftrightarrow> x = 0)"
      unfolding e using z by auto
  qed (use l r e in \<open>simp_all add: net6_def mask6_byte_def\<close>)
qed

theorem ipnetwork6_exact_witness:
  "\<exists>b. ipaddr_ipnetwork ref_api ref_inet (SQLITE_TEXT ''2001:0db8:8000:0000:0000:0000:0000:0001/32'') = Some (ResText (with_mask (ntop6 ref_inet b) 32)) \<and>
     addr_bits b \<noteq> take 32 (addr_bits [0x20, 1, 0x0d, 0xb8, 0x80, 0, 0, 0, 0, 0, 0, 0, 0, 0, 0, 1]) @ replicate 96 False"
proof -
  let ?z = "''2001:0db8:8000:0000:0000:0000:0000:0001/32''"
  have "parse_ipaddress ref_api ref_inet (c_str ?z) =
      Some (Some \<lparr>af = AF_INET6, addr = [0x20, 1, 0x0d, 0xb8, 0x80, 0, 0, 0, 0, 0, 0, 0, 0, 0, 0, 1], masklen = 32\<rparr>)" by code_simp
  from ipnetwork6_exact [OF api_spec_ref_api ip_mem_ok_ref_api inet_spec_ref_inet this _ refl refl] show ?thesis by auto
qed

text \<open>
  Two examples: \<^verbatim>\<open>2001:db8::/32\<close> is said not to contain \<^verbatim>\<open>2001:db8:8000::1\<close>, and with a
  prefix of 6 bits the answer is 1 for addresses that differ within the prefix.
\<close>

lemma ip6_mask_wrong:
  "ipaddr_ipcontains ref_api ref_inet
     (SQLITE_TEXT ''2001:0db8:0000:0000:0000:0000:0000:0000/32'')
     (SQLITE_TEXT ''2001:0db8:8000:0000:0000:0000:0000:0001'') = Some (ResInt 0) \<and>
   ipaddr_ipcontains ref_api ref_inet
     (SQLITE_TEXT ''2000:0000:0000:0000:0000:0000:0000:0000/6'')
     (SQLITE_TEXT ''2400:0000:0000:0000:0000:0000:0000:0000/6'') = Some (ResInt 1)"
  by (intro conjI) code_simp+

theorem ipnetwork4_correct_witness:
  "\<exists>b. length b = 4 \<and> addr_bits b = take 8 (addr_bits [10, 1, 2, 3]) @ replicate (32 - 8) False \<and>
    ipaddr_ipnetwork ref_api ref_inet (SQLITE_TEXT ''10.1.2.3/8'') = Some (ResText (with_mask (ntop4 ref_inet b) 8)) \<and>
    ipaddr_ipnetwork ref_api ref_inet (SQLITE_TEXT (with_mask (ntop4 ref_inet b) 8)) =
      Some (ResText (with_mask (ntop4 ref_inet b) 8))"
proof -
  have "parse_ipaddress ref_api ref_inet (c_str ''10.1.2.3/8'') =
      Some (Some \<lparr>af = AF_INET, addr = [10, 1, 2, 3], masklen = 8\<rparr>)" by code_simp
  from ipnetwork4_correct [OF api_spec_ref_api ip_mem_ok_ref_api inet_spec_ref_inet this] show ?thesis by simp
qed

theorem ipcontains4_correct_witness:
  "ipaddr_ipcontains ref_api ref_inet (SQLITE_TEXT ''10.0.0.0/8'') (SQLITE_TEXT ''10.1.2.3'') =
    Some (ResInt (if 8 \<le> (32 :: nat) \<and> take 8 (addr_bits [10, 0, 0, 0]) = take 8 (addr_bits [10, 1, 2, 3]) then 1 else 0))"
proof -
  have 1: "parse_ipaddress ref_api ref_inet (c_str ''10.0.0.0/8'') =
      Some (Some \<lparr>af = AF_INET, addr = [10, 0, 0, 0], masklen = 8\<rparr>)" by code_simp
  have 2: "parse_ipaddress ref_api ref_inet (c_str ''10.1.2.3'') =
      Some (Some \<lparr>af = AF_INET, addr = [10, 1, 2, 3], masklen = 32\<rparr>)" by code_simp
  show ?thesis using ipcontains4_correct [OF api_spec_ref_api inet_spec_ref_inet 1 _ 2] by simp
qed

text \<open>
  C38: A text is accepted only with a prefix length in range: a parsed address is well formed, so
  the shift by \<open>32 - masklen\<close> and the index \<open>masklen / 8\<close> are in range; and the functions crash
  on no text when the allocator grants their requests.
\<close>

theorem ip_parse_safe:
  assumes "api_spec api" "ip_mem_ok api" "inet_spec inet"
  shows "(\<forall>ip. parse_ipaddress api inet y = Some (Some ip) \<longrightarrow> ip_wf ip) \<and>
    ipaddr_ipfamily api inet (SQLITE_TEXT y) \<noteq> None \<and> ipaddr_iphost api inet (SQLITE_TEXT y) \<noteq> None \<and>
    ipaddr_ipmasklen api inet (SQLITE_TEXT y) \<noteq> None \<and> ipaddr_ipnetwork api inet (SQLITE_TEXT y) \<noteq> None \<and>
    ipaddr_ipcontains api inet (SQLITE_TEXT y) (SQLITE_TEXT z) \<noteq> None"
proof -
  note mem = ip_mem_okD [OF assms(2)]
  have p: "parse_ipaddress api inet t \<noteq> None" for t
    using mem by (auto simp: parse_ipaddress_def Let_def split: prod.splits option.splits)
  have "with_address api inet (SQLITE_TEXT y) k \<noteq> None" if "\<And>ip. k ip \<noteq> None" for k
    using p [of "c_str y"] that assms(1) by (auto simp: with_address_def api_spec_simps split: option.splits)
  moreover have "ipaddr_ipcontains api inet (SQLITE_TEXT y) (SQLITE_TEXT z) \<noteq> None"
    using p [of "c_str y"] p [of "c_str z"] assms(1)
    by (auto simp: ipaddr_ipcontains_def api_spec_simps split: option.splits address_family.splits)
  ultimately show ?thesis
    using parse_wf [OF assms(3)] mem
    by (auto simp: ipaddr_ipfamily_def ipaddr_iphost_def ipaddr_ipmasklen_def ipaddr_ipnetwork_def Let_def
        split: address_family.splits)
qed

theorem ip_parse_safe_witness:
  "ipaddr_ipnetwork ref_api ref_inet (SQLITE_TEXT ''1.2.3.4/33'') \<noteq> None"
  using ip_parse_safe [OF api_spec_ref_api ip_mem_ok_ref_api inet_spec_ref_inet, of "''1.2.3.4/33''"] by blast

end
