(* ===== verification/Shim.thy ===== *)
theory Shim
  imports Sqlite_Api
begin

text \<open>
  The shims that put mvSQLite under an unmodified SQLite: \<^verbatim>\<open>mvsqlite-preload/shim.c\<close> with
  \<^verbatim>\<open>preload.c\<close>, which overrides \<^verbatim>\<open>sqlite3_open_v2\<close>, \<^verbatim>\<open>sqlite3_open\<close> and \<^verbatim>\<open>sqlite3_step\<close> of a
  program by symbol interposition, and \<^verbatim>\<open>mvsqlite-sqlite3/shim.c\<close>, which is linked into a patched
  SQLite.  The real functions, the dynamic linker and the Rust entry points are the fields of a
  record.  A call that does not return is \<open>None\<close>.
\<close>

section \<open>The process\<close>

text \<open>The static variables of the shim; \<open>world\<close> is everything else.\<close>

record 'w process =
  mvsqlite_enabled :: bool
  vfs_init :: bool
    \<comment> \<open>has pthread_once() run?\<close>
  open_resolved :: bool
    \<comment> \<open>is real_sqlite3_open_v2 not NULL?\<close>
  step_resolved :: bool
  in_sqlite3_step :: bool
    \<comment> \<open>thread-local\<close>
  world :: 'w

record 'w outside =
  dlsym_open_v2 :: bool
    \<comment> \<open>does dlsym(RTLD_NEXT, ...) find the symbol?\<close>
  dlsym_step :: bool
  init_mvsqlite :: "'w \<Rightarrow> 'w"
  init_mvsqlite_connection :: "nat \<Rightarrow> 'w \<Rightarrow> 'w"
  mvsqlite_autocommit_backoff :: "nat \<Rightarrow> 'w \<Rightarrow> 'w"
  real_sqlite3_open_v2 :: "string \<Rightarrow> int \<Rightarrow> string option \<Rightarrow> 'w \<Rightarrow> int \<times> nat \<times> 'w"
    \<comment> \<open>the code, the connection\<close>
  real_sqlite3_step :: "nat \<Rightarrow> 'w process \<Rightarrow> int \<times> 'w process"
    \<comment> \<open>the real function can call back into the shim\<close>
  db_handle :: "nat \<Rightarrow> nat"
  get_autocommit :: "nat \<Rightarrow> 'w \<Rightarrow> bool"

text \<open>A call returns, ends the process with a message, or jumps through a null pointer.\<close>

datatype 'a outcome = Returns 'a | Exits int string | Crashes

fun and_then :: "'a outcome \<Rightarrow> ('a \<Rightarrow> 'b outcome) \<Rightarrow> 'b outcome" where
  "and_then (Returns x) k = k x"
| "and_then (Exits c z) k = Exits c z"
| "and_then Crashes k = Crashes"

section \<open>The preloaded shim\<close>

definition mvsqlite_global_init :: "'w process \<Rightarrow> 'w process" where
  "mvsqlite_global_init p = p\<lparr>mvsqlite_enabled := True\<rparr>"

definition preload_init :: "'w process \<Rightarrow> 'w process" where
  "preload_init p = mvsqlite_global_init p"

definition bootstrap :: "'w outside \<Rightarrow> 'w process \<Rightarrow> 'w process outcome" where
  "bootstrap env p =
     (let p = p\<lparr>open_resolved := dlsym_open_v2 env\<rparr> in
      if \<not> open_resolved p then Exits 1 (''Failed to find real sqlite3_open_v2'' @ [CHR 0x0A])
      else
        let p = p\<lparr>step_resolved := dlsym_step env\<rparr> in
        if \<not> step_resolved p then Exits 1 (''Failed to find real sqlite3_step'' @ [CHR 0x0A])
        else Returns (if mvsqlite_enabled p then p\<lparr>world := init_mvsqlite env (world p)\<rparr> else p))"

definition pthread_once :: "('w process \<Rightarrow> 'w process outcome) \<Rightarrow> 'w process \<Rightarrow> 'w process outcome" where
  "pthread_once routine p =
     (if vfs_init p then Returns p
      else and_then (routine p) (\<lambda>p. Returns (p\<lparr>vfs_init := True\<rparr>)))"

definition sqlite3_open_v2 :: "'w outside \<Rightarrow> string \<Rightarrow> int \<Rightarrow> string option \<Rightarrow> 'w process \<Rightarrow> (int \<times> nat \<times> 'w process) outcome" where
  "sqlite3_open_v2 env filename flags zVfs p =
     and_then (pthread_once (bootstrap env) p) (\<lambda>p.
       if \<not> open_resolved p then Crashes
       else
         let (ret, db, w) = real_sqlite3_open_v2 env filename flags zVfs (world p);
             p = p\<lparr>world := w\<rparr>;
             p = (if ret = SQLITE_OK \<and> mvsqlite_enabled p
                  then p\<lparr>world := init_mvsqlite_connection env db (world p)\<rparr> else p)
         in Returns (ret, db, p))"

definition sqlite3_open :: "'w outside \<Rightarrow> string \<Rightarrow> 'w process \<Rightarrow> (int \<times> nat \<times> 'w process) outcome" where
  "sqlite3_open env filename p = sqlite3_open_v2 env filename (0x00000002 OR 0x00000004) None p"

text \<open>The retry loop.\<close>

partial_function (option) step_loop :: "'w outside \<Rightarrow> nat \<Rightarrow> nat \<Rightarrow> 'w process \<Rightarrow> (int \<times> 'w process) option" where
  "step_loop env pStmt db p =
     (let autocommit = get_autocommit env db (world p);
          (ret, p) = real_sqlite3_step env pStmt p
      in if ret = SQLITE_BUSY \<and> mvsqlite_enabled p \<and> autocommit
         then step_loop env pStmt db (p\<lparr>world := mvsqlite_autocommit_backoff env db (world p)\<rparr>)
         else Some (ret, p\<lparr>in_sqlite3_step := False\<rparr>))"

definition sqlite3_step :: "'w outside \<Rightarrow> nat \<Rightarrow> 'w process \<Rightarrow> (int \<times> 'w process) outcome option" where
  "sqlite3_step env pStmt p =
     (if in_sqlite3_step p then
        if \<not> step_resolved p then Some Crashes else Some (Returns (real_sqlite3_step env pStmt p))
      else
        let p = p\<lparr>in_sqlite3_step := True\<rparr>; db = db_handle env pStmt
        in if \<not> step_resolved p then Some Crashes
           else map_option Returns (step_loop env pStmt db p))"

section \<open>The linked shim\<close>

text \<open>The real functions are linked in; every open initialises mvSQLite first.\<close>

definition linked_bootstrap :: "'w outside \<Rightarrow> 'w process \<Rightarrow> 'w process" where
  "linked_bootstrap env p = p\<lparr>world := init_mvsqlite env (world p)\<rparr>"

definition linked_open_v2 :: "'w outside \<Rightarrow> string \<Rightarrow> int \<Rightarrow> string option \<Rightarrow> 'w process \<Rightarrow> int \<times> nat \<times> 'w process" where
  "linked_open_v2 env filename flags zVfs p =
     (let p = linked_bootstrap env p;
          (ret, db, w) = real_sqlite3_open_v2 env filename flags zVfs (world p);
          p = p\<lparr>world := w\<rparr>;
          p = (if ret = SQLITE_OK \<and> mvsqlite_enabled p
               then p\<lparr>world := init_mvsqlite_connection env db (world p)\<rparr> else p)
      in (ret, db, p))"

definition linked_open :: "'w outside \<Rightarrow> string \<Rightarrow> 'w process \<Rightarrow> int \<times> nat \<times> 'w process" where
  "linked_open env filename p = linked_open_v2 env filename (0x00000002 OR 0x00000004) None p"

partial_function (option) linked_loop :: "'w outside \<Rightarrow> nat \<Rightarrow> nat \<Rightarrow> 'w process \<Rightarrow> (int \<times> 'w process) option" where
  "linked_loop env pStmt db p =
     (let autocommit = get_autocommit env db (world p);
          (ret, p) = real_sqlite3_step env pStmt p
      in if ret = SQLITE_BUSY \<and> mvsqlite_enabled p \<and> autocommit
         then linked_loop env pStmt db (p\<lparr>world := mvsqlite_autocommit_backoff env db (world p)\<rparr>)
         else Some (ret, p\<lparr>in_sqlite3_step := False\<rparr>))"

definition linked_step :: "'w outside \<Rightarrow> nat \<Rightarrow> 'w process \<Rightarrow> (int \<times> 'w process) option" where
  "linked_step env pStmt p =
     (if in_sqlite3_step p then Some (real_sqlite3_step env pStmt p)
      else linked_loop env pStmt (db_handle env pStmt) (p\<lparr>in_sqlite3_step := True\<rparr>))"

section \<open>Retry loops\<close>

text \<open>
  The contract of a loop that tries again while its condition holds: unfolding, and that a
  result comes only from a try at which the condition failed.
\<close>

locale retry_loop =
  fixes loop :: "'s \<Rightarrow> 'r option" and again :: "'s \<Rightarrow> bool" and nxt :: "'s \<Rightarrow> 's" and result :: "'s \<Rightarrow> 'r"
  assumes unfold: "loop s = (if again s then loop (nxt s) else Some (result s))"
    and halts: "loop s = Some r \<Longrightarrow> \<exists>k. \<not> again ((nxt ^^ k) s)"
begin

lemma loop_after: "(\<And>i. i < k \<Longrightarrow> again ((nxt ^^ i) s)) \<Longrightarrow> \<not> again ((nxt ^^ k) s) \<Longrightarrow> loop s = Some (result ((nxt ^^ k) s))"
proof (induction k arbitrary: s)
  case 0
  then show ?case by (simp add: unfold [of s])
next
  case (Suc k)
  have "again s" using Suc.prems(1) [of 0] by simp
  moreover have "loop (nxt s) = Some (result ((nxt ^^ k) (nxt s)))"
  proof (rule Suc.IH)
    show "again ((nxt ^^ i) (nxt s))" if "i < k" for i
      using Suc.prems(1) [of "Suc i"] that by (simp add: funpow_Suc_right del: funpow.simps)
    show "\<not> again ((nxt ^^ k) (nxt s))" using Suc.prems(2) by (simp add: funpow_Suc_right del: funpow.simps)
  qed
  ultimately show ?case by (simp add: unfold [of s] funpow_Suc_right del: funpow.simps)
qed

lemma loop_eq:
  "loop s = (if \<exists>k. \<not> again ((nxt ^^ k) s) then Some (result ((nxt ^^ (LEAST k. \<not> again ((nxt ^^ k) s))) s)) else None)"
proof (cases "\<exists>k. \<not> again ((nxt ^^ k) s)")
  case True
  let ?k = "LEAST k. \<not> again ((nxt ^^ k) s)"
  have "\<not> again ((nxt ^^ ?k) s)" using True by (rule LeastI_ex)
  moreover have "again ((nxt ^^ i) s)" if "i < ?k" for i using not_less_Least [OF that] by simp
  ultimately show ?thesis using True by (simp add: loop_after [of ?k])
next
  case False
  then show ?thesis using halts [of s] by (cases "loop s") auto
qed

end

text \<open>One try of the real function, and the state from which the next one starts.\<close>

definition busy :: "'w outside \<Rightarrow> nat \<Rightarrow> nat \<Rightarrow> 'w process \<Rightarrow> bool" where
  "busy env pStmt db p \<longleftrightarrow> fst (real_sqlite3_step env pStmt p) = SQLITE_BUSY \<and>
     mvsqlite_enabled (snd (real_sqlite3_step env pStmt p)) \<and> get_autocommit env db (world p)"

definition backed_off :: "'w outside \<Rightarrow> nat \<Rightarrow> nat \<Rightarrow> 'w process \<Rightarrow> 'w process" where
  "backed_off env pStmt db p =
     (let q = snd (real_sqlite3_step env pStmt p) in q\<lparr>world := mvsqlite_autocommit_backoff env db (world q)\<rparr>)"

definition finished :: "'w outside \<Rightarrow> nat \<Rightarrow> 'w process \<Rightarrow> int \<times> 'w process" where
  "finished env pStmt p =
     (fst (real_sqlite3_step env pStmt p), (snd (real_sqlite3_step env pStmt p))\<lparr>in_sqlite3_step := False\<rparr>)"

lemma funpow_again: "\<not> P ((f ^^ k) (f s)) \<Longrightarrow> \<exists>k. \<not> P ((f ^^ k) s)"
  by (rule exI [of _ "Suc k"]) (simp add: funpow_Suc_right del: funpow.simps)

interpretation preloaded: retry_loop "step_loop env pStmt db" "busy env pStmt db" "backed_off env pStmt db" "finished env pStmt"
  for env :: "'w outside" and pStmt db
proof
  show "step_loop env pStmt db p = (if busy env pStmt db p then step_loop env pStmt db (backed_off env pStmt db p) else Some (finished env pStmt p))" for p
    by (subst step_loop.simps) (simp add: busy_def backed_off_def finished_def Let_def split: prod.split)
  have "\<exists>k. \<not> busy env' st d ((backed_off env' st d ^^ k) p)" if "step_loop env' st d p = Some r" for env' :: "'w outside" and st d p r
  proof (rule step_loop.raw_induct [OF _ that])
    fix loop :: "'w outside \<Rightarrow> nat \<Rightarrow> nat \<Rightarrow> 'w process \<Rightarrow> (int \<times> 'w process) option" and e st d p r
    assume IH: "\<And>e st d p r. loop e st d p = Some r \<Longrightarrow> \<exists>k. \<not> busy e st d ((backed_off e st d ^^ k) p)"
      and eq: "(let autocommit = get_autocommit e d (world p); (ret, p) = real_sqlite3_step e st p
      in if ret = SQLITE_BUSY \<and> mvsqlite_enabled p \<and> autocommit
         then loop e st d (p\<lparr>world := mvsqlite_autocommit_backoff e d (world p)\<rparr>)
         else Some (ret, p\<lparr>in_sqlite3_step := False\<rparr>)) = Some r"
    show "\<exists>k. \<not> busy e st d ((backed_off e st d ^^ k) p)"
    proof (cases "busy e st d p")
      case True
      then have "loop e st d (backed_off e st d p) = Some r" using eq
        by (simp add: busy_def backed_off_def Let_def split: prod.splits)
      then show ?thesis using IH funpow_again [of "busy e st d"] by blast
    qed (rule exI [of _ 0], simp)
  qed
  then show "\<exists>k. \<not> busy env pStmt db ((backed_off env pStmt db ^^ k) p)" if "step_loop env pStmt db p = Some r" for p r using that .
qed

interpretation linked: retry_loop "linked_loop env pStmt db" "busy env pStmt db" "backed_off env pStmt db" "finished env pStmt"
  for env :: "'w outside" and pStmt db
proof
  show "linked_loop env pStmt db p = (if busy env pStmt db p then linked_loop env pStmt db (backed_off env pStmt db p) else Some (finished env pStmt p))" for p
    by (subst linked_loop.simps) (simp add: busy_def backed_off_def finished_def Let_def split: prod.split)
  have "\<exists>k. \<not> busy env' st d ((backed_off env' st d ^^ k) p)" if "linked_loop env' st d p = Some r" for env' :: "'w outside" and st d p r
  proof (rule linked_loop.raw_induct [OF _ that])
    fix loop :: "'w outside \<Rightarrow> nat \<Rightarrow> nat \<Rightarrow> 'w process \<Rightarrow> (int \<times> 'w process) option" and e st d p r
    assume IH: "\<And>e st d p r. loop e st d p = Some r \<Longrightarrow> \<exists>k. \<not> busy e st d ((backed_off e st d ^^ k) p)"
      and eq: "(let autocommit = get_autocommit e d (world p); (ret, p) = real_sqlite3_step e st p
      in if ret = SQLITE_BUSY \<and> mvsqlite_enabled p \<and> autocommit
         then loop e st d (p\<lparr>world := mvsqlite_autocommit_backoff e d (world p)\<rparr>)
         else Some (ret, p\<lparr>in_sqlite3_step := False\<rparr>)) = Some r"
    show "\<exists>k. \<not> busy e st d ((backed_off e st d ^^ k) p)"
    proof (cases "busy e st d p")
      case True
      then have "loop e st d (backed_off e st d p) = Some r" using eq
        by (simp add: busy_def backed_off_def Let_def split: prod.splits)
      then show ?thesis using IH funpow_again [of "busy e st d"] by blast
    qed (rule exI [of _ 0], simp)
  qed
  then show "\<exists>k. \<not> busy env pStmt db ((backed_off env pStmt db ^^ k) p)" if "linked_loop env pStmt db p = Some r" for p r using that .
qed

section \<open>Reachable states\<close>

text \<open>
  Of the real function: it changes neither of the two flags of the shim, which it
  cannot name; calls back into \<^verbatim>\<open>sqlite3_step\<close> pass straight through.
\<close>

definition keeps_shim :: "'w outside \<Rightarrow> bool" where
  "keeps_shim env \<longleftrightarrow> (\<forall>pStmt p. let q = snd (real_sqlite3_step env pStmt p) in
     mvsqlite_enabled q = mvsqlite_enabled p \<and> in_sqlite3_step q = in_sqlite3_step p)"

text \<open>The core opens no connection through the shim while it steps.\<close>

definition keeps_links :: "'w outside \<Rightarrow> bool" where
  "keeps_links env \<longleftrightarrow> (\<forall>pStmt p. let q = snd (real_sqlite3_step env pStmt p) in
     vfs_init q = vfs_init p \<and> open_resolved q = open_resolved p \<and> step_resolved q = step_resolved p)"

inductive shim_run :: "'w outside \<Rightarrow> 'w process \<Rightarrow> bool" for env where
  start: "shim_run env \<lparr>mvsqlite_enabled = False, vfs_init = False, open_resolved = False, step_resolved = False,
            in_sqlite3_step = False, world = w\<rparr>"
| enable: "shim_run env p \<Longrightarrow> shim_run env (mvsqlite_global_init p)"
| opens: "shim_run env p \<Longrightarrow> sqlite3_open_v2 env filename flags zVfs p = Returns (rc, db, q) \<Longrightarrow> shim_run env q"
| steps: "shim_run env p \<Longrightarrow> sqlite3_step env pStmt p = Some (Returns (rc, q)) \<Longrightarrow> shim_run env q"

definition shim_inv :: "'w process \<Rightarrow> bool" where
  "shim_inv p \<longleftrightarrow> open_resolved p = vfs_init p \<and> step_resolved p = vfs_init p \<and> \<not> in_sqlite3_step p"

lemma backed_off_keeps:
  assumes "keeps_links env"
  shows "open_resolved ((backed_off env pStmt db ^^ k) p) = open_resolved p \<and> step_resolved ((backed_off env pStmt db ^^ k) p) = step_resolved p \<and>
    vfs_init ((backed_off env pStmt db ^^ k) p) = vfs_init p"
  using assms by (induction k) (auto simp: backed_off_def keeps_links_def Let_def)

lemma sqlite3_open_v2_inv:
  assumes "shim_inv p" "sqlite3_open_v2 env filename flags zVfs p = Returns (rc, db, q)"
  shows "shim_inv q \<and> vfs_init q"
  using assms
  by (auto simp: sqlite3_open_v2_def pthread_once_def bootstrap_def shim_inv_def Let_def split: if_splits prod.splits)

lemma sqlite3_step_inv:
  assumes k: "keeps_links env" and i: "shim_inv p" and s: "sqlite3_step env pStmt p = Some (Returns (rc, q))"
  shows "shim_inv q"
proof -
  let ?p = "p\<lparr>in_sqlite3_step := True\<rparr>" and ?db = "db_handle env pStmt"
  have "step_loop env pStmt ?db ?p = Some (rc, q)" using s i by (auto simp: sqlite3_step_def shim_inv_def Let_def split: if_splits)
  then obtain n where "(rc, q) = finished env pStmt ((backed_off env pStmt ?db ^^ n) ?p)"
    unfolding preloaded.loop_eq by (metis option.distinct(1) option.inject)
  then have "q = (snd (real_sqlite3_step env pStmt ((backed_off env pStmt ?db ^^ n) ?p)))\<lparr>in_sqlite3_step := False\<rparr>"
    by (simp add: finished_def)
  then show ?thesis using k i backed_off_keeps [OF k, of n pStmt ?db ?p] by (auto simp: shim_inv_def keeps_links_def Let_def)
qed

lemma shim_run_inv: "shim_run env p \<Longrightarrow> keeps_links env \<Longrightarrow> shim_inv p"
proof (induction rule: shim_run.induct)
  case (start w)
  then show ?case by (simp add: shim_inv_def)
next
  case (enable p)
  then show ?case by (simp add: shim_inv_def mvsqlite_global_init_def)
next
  case (opens p filename flags zVfs rc db q)
  then show ?case using sqlite3_open_v2_inv by blast
next
  case (steps p pStmt rc q)
  then show ?case using sqlite3_step_inv by blast
qed

section \<open>Properties\<close>

text \<open>
  C28: \<^verbatim>\<open>sqlite3_step\<close> of the preloaded shim tries the real function again, after a back-off, as long as it answers BUSY
  outside a transaction with mvSQLite enabled, and returns the first other answer: if one comes, however many tries it takes, the call
  returns it and leaves the re-entrancy flag clear; if none ever comes, the call does not return.
\<close>

theorem shim_step_retries:
  fixes env :: "'w outside" and pStmt :: nat and p :: "'w process"
  assumes "step_resolved p" "\<not> in_sqlite3_step p"
  defines "q \<equiv> \<lambda>k. (backed_off env pStmt (db_handle env pStmt) ^^ k) (p\<lparr>in_sqlite3_step := True\<rparr>)"
  defines "B \<equiv> \<lambda>k. busy env pStmt (db_handle env pStmt) (q k)"
  shows "sqlite3_step env pStmt p =
    (if \<exists>k. \<not> B k
     then Some (Returns (fst (real_sqlite3_step env pStmt (q (LEAST k. \<not> B k))),
                (snd (real_sqlite3_step env pStmt (q (LEAST k. \<not> B k))))\<lparr>in_sqlite3_step := False\<rparr>))
     else None)"
  unfolding B_def q_def using assms(1,2) by (auto simp: sqlite3_step_def Let_def preloaded.loop_eq finished_def)

text \<open>
  C29: Where mvSQLite is not enabled, inside a transaction, and in a nested call, the shim is transparent: exactly one call
  of the real function, whose answer is returned, BUSY included, and the re-entrancy flag as before.
\<close>

theorem shim_step_transparent:
  assumes "keeps_shim env" "step_resolved p"
    and "in_sqlite3_step p \<or> \<not> mvsqlite_enabled p \<or> \<not> get_autocommit env (db_handle env pStmt) (world p)"
  shows "sqlite3_step env pStmt p =
    (case real_sqlite3_step env pStmt (p\<lparr>in_sqlite3_step := True\<rparr>) of
       (rc, q) \<Rightarrow> Some (Returns (rc, q\<lparr>in_sqlite3_step := in_sqlite3_step p\<rparr>)))"
proof (cases "in_sqlite3_step p")
  case True
  have p: "q\<lparr>in_sqlite3_step := True\<rparr> = q" if "in_sqlite3_step q" for q :: "'a process" using that by simp
  have "in_sqlite3_step (snd (real_sqlite3_step env pStmt p))" using assms(1) True by (simp add: keeps_shim_def Let_def)
  then show ?thesis using True assms(2) unfolding sqlite3_step_def p [OF True]
    by (cases "real_sqlite3_step env pStmt p") (simp add: p)
next
  case False
  let ?p = "p\<lparr>in_sqlite3_step := True\<rparr>"
  have "mvsqlite_enabled (snd (real_sqlite3_step env pStmt ?p)) = mvsqlite_enabled p"
    using assms(1) by (simp add: keeps_shim_def Let_def)
  then have "\<not> busy env pStmt (db_handle env pStmt) ?p" using assms(3) False by (auto simp: busy_def)
  then show ?thesis using False assms(2)
    by (simp add: sqlite3_step_def Let_def preloaded.unfold [of _ _ _ ?p] finished_def split: prod.split)
qed

text \<open>
  The two shims step alike: once the real functions are resolved, the preloaded \<^verbatim>\<open>sqlite3_step\<close> is the linked one.
\<close>

theorem shim_step_equivalent:
  assumes "step_resolved p"
  shows "sqlite3_step env pStmt p = map_option Returns (linked_step env pStmt p)"
  using assms by (simp add: sqlite3_step_def linked_step_def Let_def preloaded.loop_eq linked.loop_eq)

text \<open>
  In every state a process reaches by enabling mvSQLite, opening connections and stepping statements,
  the preloaded shim never calls \<^verbatim>\<open>sqlite3_open_v2\<close> through a null pointer, and calls \<^verbatim>\<open>sqlite3_step\<close> through one exactly
  when no connection has been opened through the shim: a step before that, on a statement of a
  connection the shim did not open, crashes.
\<close>

theorem shim_null_calls:
  assumes "shim_run env p" "keeps_links env"
  shows "sqlite3_open_v2 env filename flags zVfs p \<noteq> Crashes
    \<and> (sqlite3_step env pStmt p = Some Crashes \<longleftrightarrow> \<not> vfs_init p)
    \<and> (sqlite3_open_v2 env filename flags zVfs p = Returns (rc, db, q) \<longrightarrow> vfs_init q \<and> sqlite3_step env pStmt q \<noteq> Some Crashes)"
proof -
  have i: "shim_inv p" using assms by (rule shim_run_inv)
  have C: "sqlite3_step env pStmt q = Some Crashes \<longleftrightarrow> \<not> vfs_init q" if "shim_inv q" for q
    using that by (auto simp: sqlite3_step_def shim_inv_def Let_def)
  have "sqlite3_open_v2 env filename flags zVfs p \<noteq> Crashes" using i
    by (auto simp: sqlite3_open_v2_def pthread_once_def bootstrap_def shim_inv_def Let_def split: prod.split)
  then show ?thesis using C i sqlite3_open_v2_inv [OF i] by blast
qed

text \<open>
  Concrete surroundings: the database is locked for the number of tries that is the world.
\<close>

definition contended :: "nat outside" where
  "contended =
     \<lparr>dlsym_open_v2 = True, dlsym_step = True, init_mvsqlite = (\<lambda>w. w), init_mvsqlite_connection = (\<lambda>db w. w),
      mvsqlite_autocommit_backoff = (\<lambda>db w. w), real_sqlite3_open_v2 = (\<lambda>f fl v w. (0, 1, w)),
      real_sqlite3_step = (\<lambda>st p. if world p = 0 then (101, p) else (SQLITE_BUSY, p\<lparr>world := world p - 1\<rparr>)),
      db_handle = (\<lambda>st. 1), get_autocommit = (\<lambda>db w. True)\<rparr>"

definition waiting :: "nat \<Rightarrow> nat process" where
  "waiting n = \<lparr>mvsqlite_enabled = True, vfs_init = True, open_resolved = True, step_resolved = True, in_sqlite3_step = False, world = n\<rparr>"

lemma keeps_shim_contended: "keeps_shim contended" "keeps_links contended"
  by (simp_all add: keeps_shim_def keeps_links_def contended_def)

lemma contended_tries:
  "(backed_off contended st db ^^ k) ((waiting n)\<lparr>in_sqlite3_step := True\<rparr>) = (waiting (n - k))\<lparr>in_sqlite3_step := True\<rparr>"
  by (induction k) (auto simp: backed_off_def contended_def waiting_def Let_def)

theorem shim_step_retries_witness:
  "sqlite3_step contended 7 (waiting 3) = Some (Returns (101, waiting 0))"
proof -
  have b: "busy contended 7 1 ((waiting m)\<lparr>in_sqlite3_step := True\<rparr>) \<longleftrightarrow> m \<noteq> 0" for m
    by (simp add: busy_def contended_def waiting_def)
  have d: "db_handle contended 7 = 1" by (simp add: contended_def)
  have "(LEAST k. 3 - k = (0 :: nat)) = 3" by (rule Least_equality) auto
  then show ?thesis
    using shim_step_retries [of "waiting 3" contended 7, unfolded d contended_tries b]
    by (auto simp: waiting_def contended_def intro: exI [of _ 3])
qed

theorem shim_step_transparent_witness:
  "sqlite3_step contended 7 ((waiting 3)\<lparr>mvsqlite_enabled := False\<rparr>) = Some (Returns (SQLITE_BUSY, (waiting 2)\<lparr>mvsqlite_enabled := False\<rparr>))"
  using shim_step_transparent [OF keeps_shim_contended(1), of "(waiting 3)\<lparr>mvsqlite_enabled := False\<rparr>" 7]
  by (simp add: waiting_def contended_def)

theorem shim_step_equivalent_witness:
  "sqlite3_step contended 7 ((waiting 0)\<lparr>in_sqlite3_step := True\<rparr>) = Some (Returns (101, (waiting 0)\<lparr>in_sqlite3_step := True\<rparr>))"
  using shim_step_equivalent [of "(waiting 0)\<lparr>in_sqlite3_step := True\<rparr>" contended 7]
  by (simp add: linked_step_def waiting_def contended_def)

theorem shim_null_calls_witness:
  "sqlite3_step contended 7 \<lparr>mvsqlite_enabled = False, vfs_init = False, open_resolved = False, step_resolved = False,
            in_sqlite3_step = False, world = 0\<rparr> = Some Crashes"
  using shim_null_calls [OF shim_run.start keeps_shim_contended(2)] by simp

end
