(* ===== verification/Uint_Collation.thy ===== *)
theory Uint_Collation
  imports Digits Sqlite_Api "HOL-Library.Product_Lexorder" "HOL-Library.List_Lexorder"
begin

text \<open>
  The UINT collating sequence (\<^verbatim>\<open>ext/misc/uint.c\<close> within \<^verbatim>\<open>mvsqlite-sqlite3/shell.c\<close>): text in byte order,
  except that embedded strings of digits compare as numbers.  The indices \<open>i\<close> and \<open>j\<close> of the source are
  the positions of the remaining texts, which the model passes on.
\<close>

section \<open>The code\<close>

text \<open>The number of positions at which both texts have a digit.\<close>

fun common_digits :: "string \<Rightarrow> string \<Rightarrow> nat" where
  "common_digits (x # xs) (y # ys) = (if isdigit x \<and> isdigit y then Suc (common_digits xs ys) else 0)"
| "common_digits _ _ = 0"

definition skip_0 :: "string \<Rightarrow> string" where
  "skip_0 z = dropWhile (\<lambda>c. c = CHR ''0'') z"

definition digit_at :: "string \<Rightarrow> nat \<Rightarrow> bool" where
  "digit_at z k \<longleftrightarrow> k < length z \<and> isdigit (z ! k)"

function uint_loop :: "string \<Rightarrow> string \<Rightarrow> int" where
  "uint_loop zA zB =
     (if zA \<noteq> [] \<and> zB \<noteq> [] then
        let x = ord_char (hd zA) - ord_char (hd zB) in
        if isdigit (hd zA) then
          if \<not> isdigit (hd zB) then x
          else
            let a = skip_0 zA; b = skip_0 zB; k = common_digits a b in
            if digit_at a k then 1
            else if digit_at b k then - 1
            else
              let x = memcmp (map ord_char a) (map ord_char b) k in
              if x \<noteq> 0 then x else uint_loop (drop k a) (drop k b)
        else if x \<noteq> 0 then x
        else uint_loop (tl zA) (tl zB)
      else int (length zA) - int (length zB))"
  by auto

lemma skip_0_length: "length (skip_0 z) \<le> length z"
  by (simp add: skip_0_def length_dropWhile_le)

lemma skip_0_cases: "z \<noteq> [] \<Longrightarrow> hd z = CHR ''0'' \<and> length (skip_0 z) < length z \<or> hd z \<noteq> CHR ''0'' \<and> skip_0 z = z"
  by (cases z) (auto simp: skip_0_def less_Suc_eq_le length_dropWhile_le)

lemma common_digits_0: "common_digits a b = 0 \<Longrightarrow> \<not> digit_at a 0 \<or> \<not> digit_at b 0"
  by (cases a; cases b) (auto simp: digit_at_def split: if_splits)

termination uint_loop
proof (relation "measure (\<lambda>(a, b). length a + length b)")
  fix zA zB :: string and x x' :: int and a b :: string and k
  assume h: "zA \<noteq> [] \<and> zB \<noteq> []" "isdigit (hd zA)" "\<not> \<not> isdigit (hd zB)" and a: "a = skip_0 zA" and b: "b = skip_0 zB"
    and k: "k = common_digits a b" and n: "\<not> digit_at a k" "\<not> digit_at b k"
  have "length a < length zA \<or> 0 < k"
  proof (cases "hd zA = CHR ''0''")
    case True
    then show ?thesis using skip_0_cases [of zA] h a by auto
  next
    case False
    then have "digit_at a 0" using skip_0_cases [of zA] h a by (auto simp: digit_at_def hd_conv_nth)
    then show ?thesis using n(1) by (cases k) auto
  qed
  then show "((drop k a, drop k b), (zA, zB)) \<in> measure (\<lambda>(a, b). length a + length b)"
    using skip_0_length [of zA] skip_0_length [of zB] h(1) a b by (cases zA; cases zB) auto
next
  fix zA zB :: string
  assume "zA \<noteq> [] \<and> zB \<noteq> []"
  then show "((tl zA, tl zB), (zA, zB)) \<in> measure (\<lambda>(a, b). length a + length b)" by (cases zA; cases zB) auto
qed auto

declare uint_loop.simps [simp del]

definition uintCollFunc :: "string \<Rightarrow> string \<Rightarrow> int" where
  "uintCollFunc pKey1 pKey2 = uint_loop pKey1 pKey2"

definition sqlite3_uint_init :: "(registration \<Rightarrow> int) \<Rightarrow> connection \<Rightarrow> int \<times> connection" where
  "sqlite3_uint_init rcs db =
     create rcs \<lparr>rg_kind = RegCollation, rg_name = ''uint'', rg_nArg = 0, rg_user = False, rg_func = ''uintCollFunc''\<rparr> db"

section \<open>The order\<close>

text \<open>
  The key of a text: every maximal string of digits is one token with its value, every other
  character is a token; numbers sort where the digits do.
\<close>

definition digits_of :: "string \<Rightarrow> int list" where
  "digits_of z = map (\<lambda>c. ord_char c - 48) (takeWhile isdigit z)"

function uint_key :: "string \<Rightarrow> (int \<times> int) list" where
  "uint_key z =
     (if z = [] then []
      else if isdigit (hd z) then (48, dval (digits_of z)) # uint_key (dropWhile isdigit z)
      else (ord_char (hd z), 0) # uint_key (tl z))"
  by auto
termination
proof (relation "measure length")
  fix z :: string
  assume "z \<noteq> []" "isdigit (hd z)"
  then show "(dropWhile isdigit z, z) \<in> measure length"
    by (cases z) (auto simp: less_Suc_eq_le length_dropWhile_le)
qed auto

declare uint_key.simps [simp del]

lemma skip_0_digits: "dval (digits_of (skip_0 z)) = dval (digits_of z)" "dropWhile isdigit (skip_0 z) = dropWhile isdigit z"
proof -
  have "isdigit CHR ''0''" "ord_char CHR ''0'' = 48" by (simp_all add: isdigit_def ord_char_def)
  then have "dval (digits_of (skip_0 z)) = dval (digits_of z) \<and> dropWhile isdigit (skip_0 z) = dropWhile isdigit z"
    by (induction z) (auto simp: skip_0_def digits_of_def dval_Cons)
  then show "dval (digits_of (skip_0 z)) = dval (digits_of z)" "dropWhile isdigit (skip_0 z) = dropWhile isdigit z" by auto
qed

lemma digits_of_ok: "digs_ok (digits_of z)"
  by (auto simp: digs_ok_def digits_of_def isdigit_def dest!: set_takeWhileD)

lemma digits_of_head: "digits_of (skip_0 z) \<noteq> [] \<Longrightarrow> hd (digits_of (skip_0 z)) \<noteq> 0"
proof -
  assume ne: "digits_of (skip_0 z) \<noteq> []"
  have "ord_char c - 48 = 0 \<Longrightarrow> c = CHR ''0''" for c
    using ord_char_inject [of c "CHR ''0''"] by (simp add: ord_char_def)
  moreover have "skip_0 z = [] \<or> hd (skip_0 z) \<noteq> CHR ''0''" unfolding skip_0_def by (metis (mono_tags) hd_dropWhile)
  ultimately show ?thesis using ne by (cases "skip_0 z") (auto simp: digits_of_def split: if_splits)
qed

lemma common_digits_min: "common_digits a b = min (length (digits_of a)) (length (digits_of b))"
  by (induction a b rule: common_digits.induct) (auto simp: digits_of_def)

lemma digit_at_iff: "k \<le> length (digits_of z) \<Longrightarrow> digit_at z k \<longleftrightarrow> k < length (digits_of z)"
proof (induction z arbitrary: k)
  case (Cons c z)
  then show ?case by (cases k) (auto simp: digit_at_def digits_of_def split: if_splits)
qed (simp add: digit_at_def digits_of_def)

lemma memcmp_shift: "memcmp (map (\<lambda>c. f c - (d :: int)) xs) (map (\<lambda>c. f c - d) ys) n = memcmp (map f xs) (map f ys) n"
  by (induction "map f xs" "map f ys" n arbitrary: xs ys rule: memcmp.induct) auto

lemma memcmp_bytes_take: "memcmp (take n xs) (take n ys) n = memcmp xs ys n"
  by (induction xs ys n rule: memcmp.induct) auto

lemma drop_digits: "drop (length (digits_of z)) z = dropWhile isdigit z" "take (length (digits_of z)) z = takeWhile isdigit z"
  by (simp_all add: digits_of_def dropWhile_eq_drop takeWhile_eq_take [symmetric])

text \<open>Two runs of digits without leading zeros: the longer is the larger.\<close>

lemma longer_larger:
  assumes "digs_ok xs" "digs_ok ys" "length xs < length ys" "hd ys \<noteq> 0"
  shows "dval xs < dval ys"
proof -
  have "dval xs < 10 ^ length xs" using assms(1) by (rule dval_less)
  also have "(10 :: int) ^ length xs \<le> 10 ^ (length ys - 1)" using assms(3) by (intro power_increasing) auto
  also have "\<dots> \<le> dval ys" using assms by (intro dval_lower) auto
  finally show ?thesis .
qed

lemma compare_runs:
  fixes zA zB :: string
  defines "a \<equiv> skip_0 zA" and "b \<equiv> skip_0 zB"
  defines "k \<equiv> common_digits a b"
  shows "digit_at a k \<Longrightarrow> dval (digits_of zB) < dval (digits_of zA)"
    "\<not> digit_at a k \<Longrightarrow> digit_at b k \<Longrightarrow> dval (digits_of zA) < dval (digits_of zB)"
    "\<not> digit_at a k \<Longrightarrow> \<not> digit_at b k \<Longrightarrow>
       memcmp (map ord_char a) (map ord_char b) k = sgn (dval (digits_of zA) - dval (digits_of zB)) \<and>
       drop k a = dropWhile isdigit zA \<and> drop k b = dropWhile isdigit zB"
proof -
  let ?x = "digits_of a" and ?y = "digits_of b"
  have v: "dval ?x = dval (digits_of zA)" "dval ?y = dval (digits_of zB)" by (simp_all add: a_def b_def skip_0_digits)
  have k: "k = min (length ?x) (length ?y)" by (simp add: k_def common_digits_min)
  have d: "digit_at a k \<longleftrightarrow> length ?y < length ?x" "digit_at b k \<longleftrightarrow> length ?x < length ?y"
    using digit_at_iff [of k a] digit_at_iff [of k b] k by auto
  note ok = digits_of_ok [of a] digits_of_ok [of b]
  show "digit_at a k \<Longrightarrow> dval (digits_of zB) < dval (digits_of zA)"
    using longer_larger [OF ok(2,1)] digits_of_head [of zA] d(1) v by (fastforce simp: a_def)
  show "\<not> digit_at a k \<Longrightarrow> digit_at b k \<Longrightarrow> dval (digits_of zA) < dval (digits_of zB)"
    using longer_larger [OF ok] digits_of_head [of zB] d(2) v by (fastforce simp: b_def)
  assume "\<not> digit_at a k" "\<not> digit_at b k"
  then have l: "length ?x = k" "length ?y = k" using d k by auto
  have "memcmp (map ord_char a) (map ord_char b) k = memcmp ?x ?y k"
    using memcmp_bytes_take [of k "map ord_char a" "map ord_char b"] memcmp_shift [of ord_char 48 "take k a" "take k b" k] l drop_digits(2)
    by (simp add: digits_of_def take_map) metis
  also have "\<dots> = sgn (dval ?x - dval ?y)" using memcmp_dval [OF ok l] .
  finally show "memcmp (map ord_char a) (map ord_char b) k = sgn (dval (digits_of zA) - dval (digits_of zB)) \<and>
       drop k a = dropWhile isdigit zA \<and> drop k b = dropWhile isdigit zB"
    using drop_digits(1) [of a] drop_digits(1) [of b] l v by (simp add: a_def b_def skip_0_digits(2))
qed

lemma digit_range: "isdigit c \<longleftrightarrow> ord_char c \<in> {48..57}"
  by (simp add: isdigit_def)

lemma uint_loop_key: "(uint_loop a b < 0 \<longleftrightarrow> uint_key a < uint_key b) \<and> (uint_loop a b = 0 \<longleftrightarrow> uint_key a = uint_key b)"
proof (induction a b rule: uint_loop.induct)
  case (1 a b)
  show ?case
  proof (cases "a = [] \<or> b = []")
    case True
    then show ?thesis by (auto simp: uint_loop.simps [of a b] uint_key.simps [of a] uint_key.simps [of b])
  next
    case False
    then have ne: "a \<noteq> []" "b \<noteq> []" by auto
    note K = uint_key.simps [of a] uint_key.simps [of b]
    consider (dd) "isdigit (hd a)" "isdigit (hd b)" | (dc) "isdigit (hd a) \<noteq> isdigit (hd b)" | (cc) "\<not> isdigit (hd a)" "\<not> isdigit (hd b)"
      by blast
    then show ?thesis
    proof cases
      case dc
      then have "ord_char (hd a) \<noteq> ord_char (hd b)" by auto
      then show ?thesis using dc ne unfolding K uint_loop.simps [of a b] by (auto simp: digit_range Let_def)
    next
      case cc
      show ?thesis
      proof (cases "hd a = hd b")
        case True
        then show ?thesis using 1(2) ne cc unfolding K uint_loop.simps [of a b] by (auto simp: Let_def)
      next
        case False
        then have "ord_char (hd a) \<noteq> ord_char (hd b)" by simp
        then show ?thesis using ne cc unfolding K uint_loop.simps [of a b] by (auto simp: Let_def)
      qed
    next
      case dd
      let ?a = "skip_0 a" and ?b = "skip_0 b"
      let ?k = "common_digits ?a ?b"
      note R = compare_runs [of a b]
      have L: "uint_loop a b = (if digit_at ?a ?k then 1 else if digit_at ?b ?k then - 1 else
          let x = memcmp (map ord_char ?a) (map ord_char ?b) ?k in if x \<noteq> 0 then x else uint_loop (drop ?k ?a) (drop ?k ?b))"
        using ne dd by (subst uint_loop.simps) (simp add: Let_def)
      have Kd: "uint_key a = (48, dval (digits_of a)) # uint_key (dropWhile isdigit a)"
        "uint_key b = (48, dval (digits_of b)) # uint_key (dropWhile isdigit b)"
        using ne dd by (simp_all add: K)
      consider (gt) "digit_at ?a ?k" | (lt) "\<not> digit_at ?a ?k" "digit_at ?b ?k" | (same) "\<not> digit_at ?a ?k" "\<not> digit_at ?b ?k" by blast
      then show ?thesis
      proof cases
        case gt
        then show ?thesis using R(1) unfolding L Kd by auto
      next
        case lt
        then show ?thesis using R(2) unfolding L Kd by auto
      next
        case same
        note M = R(3) [OF same]
        show ?thesis
        proof (cases "dval (digits_of a) = dval (digits_of b)")
          case True
          have IH: "(uint_loop (drop ?k ?a) (drop ?k ?b) < 0 \<longleftrightarrow> uint_key (drop ?k ?a) < uint_key (drop ?k ?b)) \<and>
             (uint_loop (drop ?k ?a) (drop ?k ?b) = 0 \<longleftrightarrow> uint_key (drop ?k ?a) = uint_key (drop ?k ?b))"
            using True M same ne dd by (intro 1(1) [OF _ refl _ _ refl refl refl _ _ refl]) auto
          then show ?thesis using True M same unfolding L Kd by (simp add: Let_def)
        next
          case False
          then show ?thesis using M same unfolding L Kd by (auto simp: Let_def sgn_if)
        qed
      qed
    qed
  qed
qed

text \<open>The UINT collation meets the contract of collations; its environment is trivial.\<close>

interpretation ucoll: collating_function "\<lambda>_ :: unit. \<lambda>z x. x = uint_key z" "\<lambda>_. uintCollFunc"
  by unfold_locales (simp add: uintCollFunc_def uint_loop_key)

section \<open>Properties\<close>

text \<open>
  C37: The UINT collation orders texts by the sequence of their tokens, where every string of digits counts as the
  number it denotes, of whatever length; it is a total preorder as SQLite requires of a collation, and leading
  zeros do not matter.
\<close>

theorem uint_collation_order:
  "(uintCollFunc a b < 0 \<longleftrightarrow> uint_key a < uint_key b) \<and> (uintCollFunc a b = 0 \<longleftrightarrow> uint_key a = uint_key b)
    \<and> (uintCollFunc a b < 0 \<longleftrightarrow> 0 < uintCollFunc b a)
    \<and> (uintCollFunc a b = 0 \<and> uintCollFunc b c = 0 \<longrightarrow> uintCollFunc a c = 0)
    \<and> (uintCollFunc a b < 0 \<and> uintCollFunc b c < 0 \<longrightarrow> uintCollFunc a c < 0)"
  using ucoll.cmp_key [OF refl refl] ucoll.cmp_antisym [OF refl refl] ucoll.cmp_eq_trans [OF refl refl refl]
    ucoll.cmp_less_trans [OF refl refl refl] by blast

theorem uint_collation_order_witness:
  "uintCollFunc ''x00123y'' ''x123y'' = 0 \<and> uintCollFunc ''a9'' ''a10'' < 0 \<and> uintCollFunc ''a10'' ''b'' < 0 \<and> uintCollFunc ''a9'' ''b'' < 0"
proof -
  have e: "uintCollFunc ''x00123y'' ''x123y'' = 0" "uintCollFunc ''a9'' ''a10'' < 0" "uintCollFunc ''a10'' ''b'' < 0"
    by code_simp+
  then show ?thesis using uint_collation_order [of "''a9''" "''a10''" "''b''"] by blast
qed

end
