(* ===== verification/Ieee754.thy ===== *)
theory Ieee754
  imports Decimal_Functions
begin

text \<open>
  The functions \<^verbatim>\<open>ieee754()\<close>, \<^verbatim>\<open>ieee754_mantissa()\<close>, \<^verbatim>\<open>ieee754_exponent()\<close>, \<^verbatim>\<open>ieee754_to_blob()\<close> and
  \<^verbatim>\<open>ieee754_from_blob()\<close> (\<^verbatim>\<open>ext/misc/ieee754.c\<close> within \<^verbatim>\<open>mvsqlite-sqlite3/shell.c\<close>): taking a binary64
  number apart into an integer and a power of two, and putting it together again.
\<close>

section \<open>Taking apart\<close>

definition ieee754_arg :: "sqlite3_api_routines \<Rightarrow> sqlite3_value \<Rightarrow> double" where
  "ieee754_arg api v =
     (case v of
        SQLITE_BLOB x \<Rightarrow> if length x = 8 then blob_double x else value_double api v
      | _ \<Rightarrow> value_double api v)"

text \<open>The loop \<^verbatim>\<open>while( e<1075 && m>0 && (m&1)==0 )\<close> is \<open>double_norm\<close>.\<close>

definition ieee754_parts :: "double \<Rightarrow> int \<times> int" where
  "ieee754_parts r =
     (let isNeg = dbl_lt_0 r;
          r = (if isNeg then dbl_uminus r else r);
          a = sint r
      in if a = 0 then (0, 0)
         else
           let e = a div 2 ^ 52;
               m = a mod 2 ^ 52;
               m = (if e = 0 then m * 2 else m + 2 ^ 52);
               (e, m) = double_norm e m
           in (if isNeg then - m else m, e))"

section \<open>Putting together\<close>

function halve :: "int \<Rightarrow> int \<Rightarrow> int \<times> int" where
  "halve m e = (if 0 \<le> m \<and> m div 2 ^ 32 AND 0xffe00000 \<noteq> 0 then halve (m div 2) (e + 1) else (m, e))"
  by pat_completeness auto
termination
proof (relation "measure (\<lambda>(m, e). nat m)")
  fix m e :: int
  assume h: "0 \<le> m \<and> m div 2 ^ 32 AND 0xffe00000 \<noteq> 0"
  then have "m \<noteq> 0" by auto
  then show "((m div 2, e + 1), (m, e)) \<in> measure (\<lambda>(m, e). nat m)" using h by auto
qed auto

function double_up :: "int \<Rightarrow> int \<Rightarrow> int \<times> int" where
  "double_up m e = (if 0 < m \<and> m div 2 ^ 32 AND 0xfff00000 = 0 \<and> m < 2 ^ 63 then double_up (m * 2) (e - 1) else (m, e))"
  by pat_completeness auto
termination
  by (relation "measure (\<lambda>(m, e). nat (2 ^ 64 - m))") auto

declare halve.simps [simp del] double_up.simps [simp del]

text \<open>\<open>None\<close> leaves the result NULL.\<close>

definition ieee754_make :: "int \<Rightarrow> int \<Rightarrow> double option" where
  "ieee754_make m e =
     (let e = (if e > 10000 then 10000 else if e < - 10000 then - 10000 else e);
          isNeg = (m < 0);
          m = (if isNeg then to_s64 (- m) else m)
      in if isNeg \<and> m < 0 then None
         else if \<not> isNeg \<and> m = 0 \<and> e > - 1000 \<and> e < 1000 then Some 0
         else
           let (m, e) = halve m e;
               (m, e) = double_up m e;
               e = e + 1075;
               (m, e) = (if e \<le> 0 then (if 1 - e \<ge> 64 then 0 else m div 2 ^ nat (1 - e), 0)
                         else if e > 0x7ff then (m, 0x7ff) else (m, e));
               a = (m mod 2 ^ 52) OR (e * 2 ^ 52);
               a = (if isNeg then a OR 2 ^ 63 else a)
           in Some (word_of_int a))"

section \<open>The functions\<close>

definition ieee754func :: "sqlite3_api_routines \<Rightarrow> int \<Rightarrow> sqlite3_value list \<Rightarrow> sql_result" where
  "ieee754func api iAux argv =
     (if length argv = 1 then
        let (m, e) = ieee754_parts (ieee754_arg api (argv ! 0)) in
        if iAux = 0 then ResText (''ieee754('' @ snprintf_lld api m @ '','' @ snprintf_lld api (e - 1075) @ '')'')
        else if iAux = 1 then ResInt m
        else if iAux = 2 then ResInt (e - 1075)
        else ResNull
      else
        case ieee754_make (value_int64 api (argv ! 0)) (value_int64 api (argv ! 1)) of
          None \<Rightarrow> ResNull | Some r \<Rightarrow> ResDouble r)"

definition ieee754func_from_blob :: "sqlite3_value list \<Rightarrow> sql_result" where
  "ieee754func_from_blob argv =
     (case argv ! 0 of
        SQLITE_BLOB x \<Rightarrow> if length x = 8 then ResDouble (blob_double x) else ResNull
      | _ \<Rightarrow> ResNull)"

text \<open>\<^verbatim>\<open>a[sizeof(r)-i] = v&0xff; v >>= 8\<close> for \<open>i\<close> from 1 to 8.\<close>

fun to_blob_loop :: "nat \<Rightarrow> 64 word \<Rightarrow> byte list \<Rightarrow> byte list" where
  "to_blob_loop 0 v a = a"
| "to_blob_loop (Suc n) v a = to_blob_loop n (drop_bit 8 v) (a[n := ucast (v AND 0xff)])"

definition ieee754func_to_blob :: "sqlite3_api_routines \<Rightarrow> sqlite3_value list \<Rightarrow> sql_result" where
  "ieee754func_to_blob api argv =
     (case argv ! 0 of
        SQLITE_FLOAT r \<Rightarrow> ResBlob (to_blob_loop 8 (value_double api (SQLITE_FLOAT r)) (replicate 8 0))
      | SQLITE_INTEGER i \<Rightarrow> ResBlob (to_blob_loop 8 (value_double api (SQLITE_INTEGER i)) (replicate 8 0))
      | _ \<Rightarrow> ResNull)"

definition ieee_aFunc :: "registration list" where
  "ieee_aFunc =
     map (\<lambda>(nm, n, f). \<lparr>rg_kind = RegFunction, rg_name = nm, rg_nArg = n, rg_user = True, rg_func = f\<rparr>)
       [(''ieee754'', 1, ''ieee754func''), (''ieee754'', 2, ''ieee754func''),
        (''ieee754_mantissa'', 1, ''ieee754func''), (''ieee754_exponent'', 1, ''ieee754func''),
        (''ieee754_to_blob'', 1, ''ieee754func_to_blob''), (''ieee754_from_blob'', 1, ''ieee754func_from_blob'')]"

definition sqlite3_ieee_init :: "(registration \<Rightarrow> int) \<Rightarrow> connection \<Rightarrow> int \<times> connection" where
  "sqlite3_ieee_init rcs db = create_all rcs ieee_aFunc db"

section \<open>The loops\<close>

lemma and_high_mask: "x AND push_bit n (mask k) = push_bit n (take_bit k (drop_bit n x))" for x :: int
  by (rule bit_eqI) (auto simp: bit_simps)

lemma shift_masks:
  fixes m :: int
  assumes "0 \<le> m" "m < 2 ^ 63"
  shows "m div 2 ^ 32 AND 0xffe00000 = 0 \<longleftrightarrow> m < 2 ^ 53" "m div 2 ^ 32 AND 0xfff00000 = 0 \<longleftrightarrow> m < 2 ^ 52"
proof -
  have k: "(0xffe00000 :: int) = push_bit 21 (mask 11)" "(0xfff00000 :: int) = push_bit 20 (mask 12)"
    by (simp_all add: mask_eq_exp_minus_1 push_bit_eq_mult)
  have q: "m div 4294967296 div 2097152 = m div 9007199254740992" "m div 4294967296 div 1048576 = m div 4503599627370496"
    by (simp_all add: zdiv_zmult2_eq [symmetric])
  have b: "0 \<le> m div 2 ^ 53" "m div 2 ^ 53 < 2 ^ 11" "0 \<le> m div 2 ^ 52" "m div 2 ^ 52 < 2 ^ 12" using assms by auto
  have "m div 2 ^ 32 AND 0xffe00000 = 0 \<longleftrightarrow> m div 2 ^ 53 = 0"
    unfolding k and_high_mask using b(1,2) by (simp add: push_bit_eq_mult take_bit_eq_mod drop_bit_eq_div q)
  moreover have "m div 2 ^ 32 AND 0xfff00000 = 0 \<longleftrightarrow> m div 2 ^ 52 = 0"
    unfolding k and_high_mask using b(3,4) by (simp add: push_bit_eq_mult take_bit_eq_mod drop_bit_eq_div q)
  ultimately show "m div 2 ^ 32 AND 0xffe00000 = 0 \<longleftrightarrow> m < 2 ^ 53" "m div 2 ^ 32 AND 0xfff00000 = 0 \<longleftrightarrow> m < 2 ^ 52"
    using assms by (auto simp: div_eq_0_iff)
qed

lemma halve_id: "0 \<le> m \<Longrightarrow> m < 2 ^ 53 \<Longrightarrow> halve m e = (m, e)"
  using shift_masks(1) [of m] by (subst halve.simps) auto

lemma double_up_shift: "0 < m \<Longrightarrow> 2 ^ 52 \<le> m * 2 ^ j \<Longrightarrow> m * 2 ^ j < 2 ^ 53 \<Longrightarrow> double_up m e = (m * 2 ^ j, e - int j)"
proof (induction j arbitrary: m e)
  case 0
  then show ?case using shift_masks(2) [of m] by (subst double_up.simps) auto
next
  case (Suc j)
  have "1 \<le> (2 :: int) ^ j" by simp
  then have "m * 1 \<le> m * 2 ^ j" using Suc.prems(1) by (intro mult_left_mono) auto
  then have "m < 2 ^ 52" using Suc.prems(3) by simp
  then have "double_up m e = double_up (m * 2) (e - 1)"
    using shift_masks(2) [of m] Suc.prems(1) by (subst double_up.simps) auto
  also have "\<dots> = (m * 2 * 2 ^ j, e - 1 - int j)" using Suc.prems by (intro Suc.IH) auto
  finally show ?case by (simp add: algebra_simps)
qed

lemma double_norm_exact: "double_norm e m = (e', m') \<Longrightarrow> \<exists>k. e' = e + int k \<and> m = m' * 2 ^ k"
proof (induction e m rule: double_norm.induct)
  case (1 e m)
  show ?case
  proof (cases "e < 1075 \<and> m > 0 \<and> even m")
    case True
    then obtain k where k: "e' = e + 1 + int k" "m div 2 = m' * 2 ^ k" using 1 double_norm.simps [of e m] by auto
    then have "m = m' * 2 ^ Suc k" using True by auto
    then show ?thesis using k(1) by (intro exI [of _ "Suc k"]) auto
  next
    case False
    then show ?thesis using 1(2) double_norm.simps [of e m] by (intro exI [of _ 0]) auto
  qed
qed

lemma ex_scale:
  assumes "0 < (m :: int)" "m < 2 ^ 53"
  obtains j where "2 ^ 52 \<le> m * 2 ^ j" "m * 2 ^ j < 2 ^ 53" "j < 53"
proof -
  define j where "j = (LEAST j. 2 ^ 52 \<le> m * 2 ^ j)"
  have e: "2 ^ 52 \<le> m * 2 ^ 52" using assms(1) by simp
  then have J: "2 ^ 52 \<le> m * 2 ^ j" unfolding j_def by (rule LeastI)
  have l: "j \<le> 52" unfolding j_def using e by (rule Least_le)
  have "m * 2 ^ j < 2 ^ 53"
  proof (cases j)
    case (Suc i)
    then have "\<not> 2 ^ 52 \<le> m * 2 ^ i" using not_less_Least [of i "\<lambda>j. 2 ^ 52 \<le> m * 2 ^ j"] by (simp add: j_def)
    then show ?thesis using Suc by simp
  qed (use assms in simp)
  then show thesis using that J l by simp
qed

lemma or_high: "0 \<le> x \<Longrightarrow> x < 2 ^ n \<Longrightarrow> x OR (y * 2 ^ n) = x + y * 2 ^ n" for x y :: int
proof -
  assume h: "0 \<le> x" "x < 2 ^ n"
  then have t: "take_bit n x = x" by (simp add: take_bit_int_eq_self_iff)
  have "x AND push_bit n y = take_bit n x AND push_bit n y" by (simp add: t)
  also have "\<dots> = 0" by (rule bit_eqI) (auto simp: bit_simps)
  finally show ?thesis by (simp add: disjunctive_add_eq_or push_bit_eq_mult)
qed

section \<open>Exactness and the round trip\<close>

text \<open>A finite number other than negative zero.\<close>

definition ordinary :: "double \<Rightarrow> bool" where
  "ordinary r \<longleftrightarrow> dbl_finite r \<and> \<not> (dbl_neg r \<and> dbl_exp r = 0 \<and> dbl_frac r = 0)"

definition significand :: "double \<Rightarrow> int" where
  "significand r = (if dbl_exp r = 0 then dbl_frac r * 2 else dbl_frac r + 2 ^ 52)"

lemma significand_bounds: "0 \<le> significand r" "significand r < 2 ^ 53" "dbl_exp r \<noteq> 0 \<Longrightarrow> 2 ^ 52 \<le> significand r"
  using dbl_bounds [of r] by (auto simp: significand_def)

lemma ieee754_parts_fields:
  assumes "dbl_finite r" "dbl_exp r \<noteq> 0 \<or> dbl_frac r \<noteq> 0"
  shows "ieee754_parts r = (let (e, m) = double_norm (dbl_exp r) (significand r) in (if dbl_neg r then - m else m, e))"
proof -
  have lt: "dbl_lt_0 r = dbl_neg r" using assms by (auto simp: dbl_lt_0_def dbl_nan_def dbl_finite_def)
  then have s: "sint (if dbl_lt_0 r then dbl_uminus r else r) = dbl_exp r * 2 ^ 52 + dbl_frac r"
    by (intro sint_magnitude) auto
  have "dbl_exp r * 2 ^ 52 + dbl_frac r \<noteq> 0"
  proof
    assume z: "dbl_exp r * 2 ^ 52 + dbl_frac r = 0"
    have "0 \<le> dbl_exp r * 2 ^ 52" using dbl_bounds(1) [of r] by simp
    then have "dbl_exp r * 2 ^ 52 = 0" "dbl_frac r = 0" using z dbl_bounds(3) [of r] by linarith+
    then show False using assms(2) by simp
  qed
  then show ?thesis
    unfolding ieee754_parts_def Let_def lt s [unfolded lt] parts_div_mod significand_def by (simp only: if_False)
qed

text \<open>Zero aside, the parts are the significand with factors of two moved to the exponent.\<close>

lemma ieee754_parts_scale:
  assumes "dbl_finite r" "dbl_exp r \<noteq> 0 \<or> dbl_frac r \<noteq> 0"
  obtains m k where "ieee754_parts r = (if dbl_neg r then - m else m, dbl_exp r + int k)" "significand r = m * 2 ^ k" "0 < m" "m < 2 ^ 53"
proof -
  obtain e m where n: "double_norm (dbl_exp r) (significand r) = (e, m)" by (metis surj_pair)
  obtain k where k: "e = dbl_exp r + int k" "significand r = m * 2 ^ k" using double_norm_exact [OF n] by auto
  have "0 < significand r" using assms(2) dbl_bounds [of r] by (auto simp: significand_def)
  then have m: "0 < m" using k(2) by (simp add: zero_less_mult_iff)
  have "m * 1 \<le> m * 2 ^ k" using m by (intro mult_left_mono) auto
  then have "m < 2 ^ 53" using significand_bounds(2) [of r] k(2) by linarith
  then show thesis using that [of m k] ieee754_parts_fields [OF assms] n k m by simp
qed

lemma ieee754_parts_value:
  assumes "ordinary r" "ieee754_parts r = (m, e)"
  shows "of_int m * 2 powi (e - 1075) = double_val r"
proof (cases "dbl_exp r = 0 \<and> dbl_frac r = 0")
  case True
  then have "\<not> dbl_neg r" using assms(1) by (simp add: ordinary_def)
  then have "ieee754_parts r = (0, 0)" using True by (simp add: ieee754_parts_def dbl_lt_0_def sint_split)
  then show ?thesis using assms(2) True by (simp add: double_val_def)
next
  case False
  have f: "dbl_finite r" using assms(1) by (simp add: ordinary_def)
  then obtain n k where n: "ieee754_parts r = (if dbl_neg r then - n else n, dbl_exp r + int k)" "significand r = n * 2 ^ k"
    using ieee754_parts_scale [of r] False by metis
  have "(2 :: rat) powi (dbl_exp r + int k - 1075) = 2 ^ k * 2 powi (dbl_exp r - 1075)"
    by (simp add: power_int_add power_int_diff)
  then have "of_int n * (2 :: rat) powi (dbl_exp r + int k - 1075) = of_int (significand r) * 2 powi (dbl_exp r - 1075)"
    by (simp add: n(2))
  moreover have "(of_int (dbl_frac r * 2) :: rat) * 2 powi (- 1075) = of_int (dbl_frac r) * 2 powi (- 1074)"
    using power_int_add [of "2 :: rat" "- 1075" 1] by simp
  ultimately show ?thesis using n(1) assms(2) by (auto simp: double_val_def significand_def algebra_simps)
qed

lemma word_of_fields: "word_of_int ((if dbl_neg r then 2 ^ 63 else 0) + dbl_exp r * 2 ^ 52 + dbl_frac r) = r"
  unfolding uint_split [symmetric] by simp

lemma pack_fields:
  assumes "m mod 2 ^ 52 = dbl_frac r"
  shows "word_of_int (let a = m mod 2 ^ 52 OR dbl_exp r * 2 ^ 52 in if dbl_neg r then a OR 2 ^ 63 else a) = r"
proof -
  have a: "m mod 2 ^ 52 OR dbl_exp r * 2 ^ 52 = dbl_frac r + dbl_exp r * 2 ^ 52"
    unfolding assms using dbl_bounds(3,4) [of r] by (intro or_high) auto
  have "dbl_exp r * 2 ^ 52 \<le> 2047 * 2 ^ 52" using dbl_bounds(2) [of r] by (intro mult_right_mono) auto
  moreover have "0 \<le> dbl_exp r * 2 ^ 52" using dbl_bounds(1) [of r] by simp
  ultimately have "(dbl_frac r + dbl_exp r * 2 ^ 52) OR 1 * 2 ^ 63 = dbl_frac r + dbl_exp r * 2 ^ 52 + 1 * 2 ^ 63"
    using dbl_bounds(3,4) [of r] by (intro or_high) auto
  then show ?thesis using word_of_fields [of r] unfolding Let_def a by (simp add: algebra_simps split: if_splits)
qed

lemma ieee754_make_packed:
  assumes "0 < n" "n < 2 ^ 53" "\<bar>e\<bar> \<le> 10000" and j: "2 ^ 52 \<le> n * 2 ^ j" "n * 2 ^ j < 2 ^ 53"
    and E: "E = e - int j + 1075" "E \<le> 0x7ff"
  shows "ieee754_make (if s then - n else n) e = Some (word_of_int (let (m, x) = (if E \<le> 0 then (if 1 - E \<ge> 64 then 0 else n * 2 ^ j div 2 ^ nat (1 - E), 0) else (n * 2 ^ j, E));
      a = (m mod 2 ^ 52) OR (x * 2 ^ 52) in if s then a OR 2 ^ 63 else a))"
proof -
  have t: "to_s64 n = n" using assms(1,2) by (intro to_s64_id) (simp add: s64_def)
  have l: "halve n e = (n, e)" "double_up n e = (n * 2 ^ j, e - int j)"
    using halve_id [of n e] double_up_shift [OF assms(1) j] assms(1,2) by auto
  have c: "(if e > 10000 then 10000 else if e < - 10000 then - 10000 else e) = e" using assms(3) by auto
  have m: "((if s then - n else n) < 0) = s" "(if s then to_s64 (- (if s then - n else n)) else (if s then - n else n)) = n"
    using assms(1) t by auto
  have g: "\<not> (0x7ff < E)" "\<not> n < 0" "n \<noteq> 0" using E(2) assms(1) by auto
  show ?thesis
    unfolding ieee754_make_def Let_def c m l prod.case E(1) [symmetric] using g by (simp only: simp_thms if_False if_True) (simp only: prod.case simp_thms split: if_splits)
qed

lemma ieee754_make_parts:
  assumes "ordinary r" "ieee754_parts r = (m, e)"
  shows "ieee754_make m (e - 1075) = Some r"
proof (cases "dbl_exp r = 0 \<and> dbl_frac r = 0")
  case True
  then have n: "\<not> dbl_neg r" using assms(1) by (simp add: ordinary_def)
  then have "ieee754_parts r = (0, 0)" using True by (simp add: ieee754_parts_def dbl_lt_0_def sint_split)
  moreover have "r = 0" using word_of_fields [of r] True n by simp
  moreover have "double_up 0 x = (0, x)" for x by (subst double_up.simps) simp
  ultimately show ?thesis using assms(2) by (simp add: ieee754_make_def halve_id)
next
  case False
  have f: "dbl_finite r" using assms(1) by (simp add: ordinary_def)
  obtain n k where n: "ieee754_parts r = (if dbl_neg r then - n else n, dbl_exp r + int k)" "significand r = n * 2 ^ k" "0 < n" "n < 2 ^ 53"
    using ieee754_parts_scale [OF f] False by metis
  obtain j where j: "2 ^ 52 \<le> n * 2 ^ j" "n * 2 ^ j < 2 ^ 53" "j < 53" using ex_scale [OF n(3,4)] by metis
  have me: "m = (if dbl_neg r then - n else n)" "e = dbl_exp r + int k" using assms(2) n(1) by auto
  have kj: "k \<le> j"
  proof (rule ccontr)
    assume "\<not> k \<le> j"
    then have "n * 2 ^ Suc j \<le> n * 2 ^ k" using n(3) by (intro mult_left_mono power_increasing) auto
    then show False using j(1) significand_bounds(2) [of r] n(2) by simp
  qed
  define d where "d = j - k"
  have jd: "j = k + d" using kj by (simp add: d_def)
  have sig: "n * 2 ^ j = significand r * 2 ^ d" by (simp add: jd n(2) power_add)
  define E where "E = dbl_exp r - int d"
  have E: "E = e - 1075 - int j + 1075" "E \<le> 0x7ff" using jd me(2) dbl_bounds(2) [of r] by (auto simp: E_def)
  have eb: "\<bar>e - 1075\<bar> \<le> 10000" using me(2) kj j(3) dbl_bounds(1,2) [of r] by auto
  show ?thesis
  proof (cases "dbl_exp r = 0")
    case True
    have "n * 2 ^ j = dbl_frac r * 2 ^ Suc d" using True by (simp add: sig significand_def)
    then have q: "n * 2 ^ j div 2 ^ nat (1 - E) = dbl_frac r" using True by (simp add: E_def nat_add_distrib)
    have "E \<le> 0" "\<not> 1 - E \<ge> 64" using True j(3) jd by (auto simp: E_def)
    moreover have "dbl_frac r mod 2 ^ 52 = dbl_frac r" using dbl_bounds(3,4) [of r] by simp
    ultimately show ?thesis
      using ieee754_make_packed [OF n(3,4) eb j(1,2) E, of "dbl_neg r"] pack_fields [of "dbl_frac r" r] True q
      unfolding me(1) by simp
  next
    case False
    have "significand r * 2 ^ d < 2 ^ 53" using j(2) sig by simp
    moreover have "2 ^ 52 * 2 ^ d \<le> significand r * 2 ^ d" using significand_bounds(3) [OF False] by (intro mult_right_mono) auto
    ultimately have "(2 :: int) ^ 52 * 2 ^ d < 2 ^ 53" by linarith
    then have "(2 :: int) ^ (52 + d) < 2 ^ 53" by (simp only: power_add)
    then have "d = 0" using power_less_imp_less_exp [of "2 :: int" "52 + d" 53] by simp
    then have s: "n * 2 ^ j = significand r" "E = dbl_exp r" by (simp_all add: sig E_def)
    have "\<not> E \<le> 0" using False dbl_bounds(1) [of r] by (simp add: s(2))
    moreover have "significand r mod 2 ^ 52 = dbl_frac r" using False dbl_bounds(3,4) [of r] by (simp add: significand_def)
    ultimately show ?thesis
      using ieee754_make_packed [OF n(3,4) eb j(1,2) E, of "dbl_neg r"] pack_fields [of "significand r" r]
      unfolding me(1) s by simp
  qed
qed

section \<open>Blobs\<close>

fun big_endian :: "nat \<Rightarrow> 64 word \<Rightarrow> byte list" where
  "big_endian 0 v = []"
| "big_endian (Suc n) v = big_endian n (drop_bit 8 v) @ [ucast v]"

lemma big_endian_length [simp]: "length (big_endian n v) = n"
  by (induction n arbitrary: v) auto

lemma ucast_low_byte: "(ucast (v AND 0xff) :: byte) = ucast v" for v :: "64 word"
proof -
  have "(0xff :: 64 word) = mask 8" by (simp add: mask_eq_exp_minus_1)
  then show ?thesis by (auto simp: bit_eq_iff bit_simps)
qed

lemma to_blob_loop_eq: "n \<le> length a \<Longrightarrow> to_blob_loop n v a = big_endian n v @ drop n a"
proof (induction n arbitrary: v a)
  case (Suc n)
  then have "to_blob_loop (Suc n) v a = big_endian n (drop_bit 8 v) @ drop n (a[n := ucast v])"
    by (simp add: ucast_low_byte)
  moreover have "drop n (a[n := ucast v]) = ucast v # drop (Suc n) a"
    using Suc.prems by (metis Cons_nth_drop_Suc Suc_le_lessD drop_update_cancel length_list_update lessI nth_list_update_eq)
  ultimately show ?case by simp
qed simp

lemma blob_double_snoc: "blob_double (x @ [b]) = push_bit 8 (blob_double x) OR ucast b"
  by (simp add: blob_double_def)

lemma blob_double_big_endian: "blob_double (big_endian n v) = take_bit (8 * n) v"
proof (induction n arbitrary: v)
  case (Suc n)
  have "push_bit 8 (take_bit (8 * n) (drop_bit 8 v)) OR ucast (ucast v :: byte) = take_bit (8 * Suc n) v"
    by (rule bit_word_eqI) (auto simp: bit_simps)
  then show ?case by (simp only: big_endian.simps blob_double_snoc Suc.IH)
qed (simp add: blob_double_def)

lemma big_endian_blob_double: "length x \<le> 8 \<Longrightarrow> big_endian (length x) (blob_double x) = x"
proof (induction x rule: rev_induct)
  case (snoc b x)
  have s: "blob_double x = take_bit 56 (blob_double x)"
  proof -
    have "blob_double x = blob_double (big_endian (length x) (blob_double x))" using snoc by simp
    also have "\<dots> = take_bit (8 * length x) (blob_double x)" by (rule blob_double_big_endian)
    finally have f: "blob_double x = take_bit (8 * length x) (blob_double x)" .
    then have "take_bit 56 (blob_double x) = take_bit (min 56 (8 * length x)) (blob_double x)" by (metis take_bit_take_bit)
    moreover have "min 56 (8 * length x) = 8 * length x" using snoc.prems by simp
    ultimately show ?thesis using f by simp
  qed
  have "drop_bit 8 (push_bit 8 (take_bit 56 w) OR ucast b) = take_bit 56 w" for w :: "64 word"
    by (rule bit_word_eqI) (auto simp: bit_simps dest: bit_imp_le_length)
  moreover have "(ucast (push_bit 8 w OR ucast b) :: byte) = b" for w :: "64 word"
    by (rule bit_word_eqI) (auto simp: bit_simps)
  ultimately show ?case using snoc s by (simp add: blob_double_snoc) metis
qed simp

section \<open>Properties\<close>

text \<open>
  C36: For every finite number except negative zero the integers \<open>m\<close> and \<open>e\<close> that \<^verbatim>\<open>ieee754_mantissa\<close> and
  \<^verbatim>\<open>ieee754_exponent\<close> return satisfy \<open>x = m * 2 ^ e\<close> exactly, and \<^verbatim>\<open>ieee754(m, e)\<close> is that number again, bit
  by bit, subnormal numbers included.
\<close>

theorem ieee754_round_trip:
  assumes "api_spec api" "ordinary r"
  shows "\<exists>m e. ieee754func api 1 [SQLITE_FLOAT r] = ResInt m \<and> ieee754func api 2 [SQLITE_FLOAT r] = ResInt e \<and>
    of_int m * 2 powi e = double_val r \<and>
    ieee754func api 0 [SQLITE_INTEGER m, SQLITE_INTEGER e] = ResDouble r"
proof -
  obtain m e where p: "ieee754_parts r = (m, e)" by force
  then show ?thesis
    using ieee754_parts_value [OF assms(2) p] ieee754_make_parts [OF assms(2) p]
    by (intro exI [of _ m] exI [of _ "e - 1075"]) (simp add: ieee754func_def ieee754_arg_def api_spec_simps [OF assms(1)])
qed

theorem ieee754_round_trip_witness:
  "ieee754func ref_api 0 [SQLITE_INTEGER 181, SQLITE_INTEGER (- 2)] = ResDouble 0x4046A00000000000"
proof -
  have "ieee754_parts 0x4046A00000000000 = (181, 1073)" by code_simp
  moreover have "ordinary 0x4046A00000000000" by code_simp
  ultimately show ?thesis using ieee754_round_trip [OF api_spec_ref_api, of "0x4046A00000000000"]
    by (auto simp: ieee754func_def ieee754_arg_def ref_api_def)
qed

text \<open>
  The conversions between numbers and blobs are inverse: a blob of 8 bytes survives the way through the
  number, and every number, NaNs with their payload included, the way through the blob, which is its big-endian encoding.
\<close>

theorem ieee754_blob_round_trip:
  assumes "api_spec api" "length x = 8"
  shows "(\<exists>y. ieee754func_to_blob api [SQLITE_FLOAT r] = ResBlob y \<and> length y = 8 \<and> ieee754func_from_blob [SQLITE_BLOB y] = ResDouble r)
    \<and> (\<exists>s. ieee754func_from_blob [SQLITE_BLOB x] = ResDouble s \<and> ieee754func_to_blob api [SQLITE_FLOAT s] = ResBlob x)"
proof -
  have "take_bit 64 r = r" by (rule bit_word_eqI) (simp add: bit_simps)
  then have "blob_double (to_blob_loop 8 r (replicate 8 0)) = r"
    using blob_double_big_endian [of 8 r] by (simp add: to_blob_loop_eq)
  moreover have "to_blob_loop 8 (blob_double x) (replicate 8 0) = x"
    using big_endian_blob_double [of x] assms(2) by (simp add: to_blob_loop_eq)
  ultimately show ?thesis using assms(2)
    by (simp add: ieee754func_to_blob_def ieee754func_from_blob_def api_spec_simps [OF assms(1)] to_blob_loop_eq)
qed

theorem ieee754_blob_round_trip_witness:
  "\<exists>s. ieee754func_from_blob [SQLITE_BLOB [0x3f, 0xf0, 0, 0, 0, 0, 0, 0]] = ResDouble s \<and>
     ieee754func_to_blob ref_api [SQLITE_FLOAT s] = ResBlob [0x3f, 0xf0, 0, 0, 0, 0, 0, 0]"
  using ieee754_blob_round_trip [OF api_spec_ref_api, of "[0x3f, 0xf0, 0, 0, 0, 0, 0, 0]"] by simp

text \<open>
  At the edges the functions are wrong.  Negative zero has the mantissa 1 and the exponent -3071, whose product is
  not zero; zero times a large power of two is infinite; and a number too large for the format is a NaN unless its
  significand is a power of two.
\<close>

lemma ieee754_edges:
  "ieee754func ref_api 1 [SQLITE_FLOAT 0x8000000000000000] = ResInt 1
    \<and> ieee754func ref_api 2 [SQLITE_FLOAT 0x8000000000000000] = ResInt (- 3071)
    \<and> ieee754func ref_api 0 [SQLITE_INTEGER 0, SQLITE_INTEGER 1000] = ResDouble 0x7FF0000000000000
    \<and> (\<exists>r. ieee754func ref_api 0 [SQLITE_INTEGER 3, SQLITE_INTEGER 2000] = ResDouble r \<and> dbl_nan r)"
proof -
  have "ieee754_parts 0x8000000000000000 = (1, - 1996)" by code_simp
  moreover have "ieee754_make 0 1000 = Some 0x7FF0000000000000" by code_simp
  moreover have "ieee754_make 3 2000 = Some 0x7FF8000000000000" by code_simp
  moreover have "dbl_nan 0x7FF8000000000000" by code_simp
  ultimately show ?thesis by (simp add: ieee754func_def ieee754_arg_def ref_api_def)
qed

end
