(* ===== verification/Regexp.thy ===== *)
theory Regexp
  imports Sqlite_Api
begin

text \<open>
  The REGEXP operator of the shell (\<^verbatim>\<open>ext/misc/regexp.c\<close> within \<^verbatim>\<open>mvsqlite-sqlite3/shell.c\<close>): a regular
  expression is compiled in one pass over its text to the program of a nondeterministic automaton, which is
  run on the text by keeping the set of its states.

  An input (\<^verbatim>\<open>ReInput\<close>) is the text not yet read.  The arrays \<^verbatim>\<open>aOp\<close> and \<^verbatim>\<open>aArg\<close> are one list of
  pairs.  \<open>None\<close> as the result of a loop stands for a call that reads outside the program or does not end.
  After an allocation has failed compiling goes on to its end and reports that; the stores that the C code makes into \<^verbatim>\<open>aArg\<close>
  beyond its old size until then are not modelled.
\<close>

section \<open>Opcodes and compiled expressions\<close>

datatype re_op =
    RE_OP_MATCH | RE_OP_ANY | RE_OP_ANYSTAR | RE_OP_FORK | RE_OP_GOTO | RE_OP_ACCEPT
  | RE_OP_CC_INC | RE_OP_CC_EXC | RE_OP_CC_VALUE | RE_OP_CC_RANGE
  | RE_OP_WORD | RE_OP_NOTWORD | RE_OP_DIGIT | RE_OP_NOTDIGIT | RE_OP_SPACE | RE_OP_NOTSPACE | RE_OP_BOUNDARY

abbreviation (input) RE_EOF :: int where "RE_EOF \<equiv> 0"

type_synonym re_prog = "(re_op \<times> int) list"

record ReCompiled =
  sIn :: string
  zErr :: "string option"
  ops :: re_prog
  noCase :: bool
    \<comment> \<open>is xNextChar the function re_next_char_nocase?\<close>
  zInit :: "int list"
  nAlloc :: int

section \<open>Characters\<close>

text \<open>\<^verbatim>\<open>(z[k] & 0xc0) == 0x80\<close>, and the bits a continuation byte contributes.\<close>

definition cont :: "string \<Rightarrow> nat \<Rightarrow> bool" where
  "cont z k \<longleftrightarrow> ord_char (z ! k) AND 0xc0 = 0x80"

definition low6 :: "string \<Rightarrow> nat \<Rightarrow> int" where
  "low6 z k = ord_char (z ! k) AND 0x3f"

fun re_next_char :: "string \<Rightarrow> int \<times> string" where
  "re_next_char [] = (0, [])"
| "re_next_char (b # z) =
     (let c = ord_char b in
      if c \<ge> 0x80 then
        if c AND 0xe0 = 0xc0 \<and> 0 < length z \<and> cont z 0 then
          let c = push_bit 6 (c AND 0x1f) OR low6 z 0
          in (if c < 0x80 then 0xfffd else c, drop 1 z)
        else if c AND 0xf0 = 0xe0 \<and> 1 < length z \<and> cont z 0 \<and> cont z 1 then
          let c = push_bit 12 (c AND 0x0f) OR push_bit 6 (low6 z 0) OR low6 z 1
          in (if c \<le> 0x7ff \<or> (c \<ge> 0xd800 \<and> c \<le> 0xdfff) then 0xfffd else c, drop 2 z)
        else if c AND 0xf8 = 0xf0 \<and> 3 < length z \<and> cont z 0 \<and> cont z 1 \<and> cont z 2 then
          let c = push_bit 18 (c AND 0x07) OR push_bit 12 (low6 z 0) OR push_bit 6 (low6 z 1) OR low6 z 2
          in (if c \<le> 0xffff \<or> c > 0x10ffff then 0xfffd else c, drop 3 z)
        else (0xfffd, z)
      else (c, z))"

definition re_next_char_nocase :: "string \<Rightarrow> int \<times> string" where
  "re_next_char_nocase z =
     (let (c, z) = re_next_char z in (if c \<ge> 65 \<and> c \<le> 90 then c + (97 - 65) else c, z))"

definition xNextChar :: "bool \<Rightarrow> string \<Rightarrow> int \<times> string" where
  "xNextChar nc z = (if nc then re_next_char_nocase z else re_next_char z)"

definition re_word_char :: "int \<Rightarrow> bool" where
  "re_word_char c \<longleftrightarrow> (c \<ge> 48 \<and> c \<le> 57) \<or> (c \<ge> 97 \<and> c \<le> 122) \<or> (c \<ge> 65 \<and> c \<le> 90) \<or> c = 95"

definition re_digit_char :: "int \<Rightarrow> bool" where
  "re_digit_char c \<longleftrightarrow> c \<ge> 48 \<and> c \<le> 57"

definition re_space_char :: "int \<Rightarrow> bool" where
  "re_space_char c \<longleftrightarrow> c = 32 \<or> c = 9 \<or> c = 10 \<or> c = 13 \<or> c = 11 \<or> c = 12"

section \<open>Running a program\<close>

text \<open>A set of states in the order they were added; the numbers are kept in 16 bits.\<close>

definition re_add_state :: "int list \<Rightarrow> int \<Rightarrow> int list" where
  "re_add_state states newState =
     (if newState \<in> set states then states else states @ [newState mod 65536])"

definition op_at :: "re_prog \<Rightarrow> int \<Rightarrow> re_op option" where
  "op_at P x = (if 0 \<le> x \<and> x < int (length P) then Some (fst (P ! nat x)) else None)"

definition arg_at :: "re_prog \<Rightarrow> int \<Rightarrow> int" where
  "arg_at P x = (if 0 \<le> x \<and> x < int (length P) then snd (P ! nat x) else 0)"

text \<open>The loop over the members of a character class, from the member \<open>j\<close>.\<close>

function class_hit :: "re_prog \<Rightarrow> int \<Rightarrow> int \<Rightarrow> int \<Rightarrow> int \<Rightarrow> bool" where
  "class_hit P c x n j =
     (if j > 0 \<and> j < n then
        if op_at P (x + j) = Some RE_OP_CC_VALUE then
          if arg_at P (x + j) = c then True else class_hit P c x n (j + 1)
        else if arg_at P (x + j) \<le> c \<and> arg_at P (x + j + 1) \<ge> c then True
        else class_hit P c x n (j + 2)
      else False)"
  by pat_completeness auto
termination by (relation "measure (\<lambda>(P, c, x, n, j). nat (n - j))") auto

declare class_hit.simps [simp del]

text \<open>
  One state: the sets \<^verbatim>\<open>pThis\<close> and \<^verbatim>\<open>pNext\<close> after it, \<open>None\<close> at \<^verbatim>\<open>RE_OP_ACCEPT\<close>.  The members of
  character classes are not states of their own; their opcodes have no case.
\<close>

definition re_state :: "re_prog \<Rightarrow> int \<Rightarrow> int \<Rightarrow> int \<Rightarrow> re_op \<Rightarrow> int list \<Rightarrow> int list \<Rightarrow> (int list \<times> int list) option" where
  "re_state P cPrev c x oper this nxt =
     (case oper of
        RE_OP_MATCH \<Rightarrow> Some (this, if arg_at P x = c then re_add_state nxt (x + 1) else nxt)
      | RE_OP_ANY \<Rightarrow> Some (this, if c \<noteq> 0 then re_add_state nxt (x + 1) else nxt)
      | RE_OP_WORD \<Rightarrow> Some (this, if re_word_char c then re_add_state nxt (x + 1) else nxt)
      | RE_OP_NOTWORD \<Rightarrow> Some (this, if \<not> re_word_char c \<and> c \<noteq> 0 then re_add_state nxt (x + 1) else nxt)
      | RE_OP_DIGIT \<Rightarrow> Some (this, if re_digit_char c then re_add_state nxt (x + 1) else nxt)
      | RE_OP_NOTDIGIT \<Rightarrow> Some (this, if \<not> re_digit_char c \<and> c \<noteq> 0 then re_add_state nxt (x + 1) else nxt)
      | RE_OP_SPACE \<Rightarrow> Some (this, if re_space_char c then re_add_state nxt (x + 1) else nxt)
      | RE_OP_NOTSPACE \<Rightarrow> Some (this, if \<not> re_space_char c \<and> c \<noteq> 0 then re_add_state nxt (x + 1) else nxt)
      | RE_OP_BOUNDARY \<Rightarrow>
          Some (if re_word_char c \<noteq> re_word_char cPrev then re_add_state this (x + 1) else this, nxt)
      | RE_OP_ANYSTAR \<Rightarrow> Some (re_add_state this (x + 1), re_add_state nxt x)
      | RE_OP_FORK \<Rightarrow> Some (re_add_state (re_add_state this (x + arg_at P x)) (x + 1), nxt)
      | RE_OP_GOTO \<Rightarrow> Some (re_add_state this (x + arg_at P x), nxt)
      | RE_OP_ACCEPT \<Rightarrow> None
      | RE_OP_CC_EXC \<Rightarrow>
          Some (this, if c \<noteq> 0 \<and> \<not> class_hit P c x (arg_at P x) 1 then re_add_state nxt (x + arg_at P x) else nxt)
      | RE_OP_CC_INC \<Rightarrow>
          Some (this, if class_hit P c x (arg_at P x) 1 then re_add_state nxt (x + arg_at P x) else nxt)
      | RE_OP_CC_VALUE \<Rightarrow> Some (this, nxt)
      | RE_OP_CC_RANGE \<Rightarrow> Some (this, nxt))"

text \<open>
  The loop over \<^verbatim>\<open>pThis\<close>, which grows while it runs: the number of tries is the first argument.  The
  result says whether a final state was met, and \<^verbatim>\<open>pNext\<close>.
\<close>

fun re_states :: "nat \<Rightarrow> re_prog \<Rightarrow> int \<Rightarrow> int \<Rightarrow> nat \<Rightarrow> int list \<Rightarrow> int list \<Rightarrow> (bool \<times> int list) option" where
  "re_states 0 P cPrev c i this nxt = None"
| "re_states (Suc k) P cPrev c i this nxt =
     (if i < length this then
        case op_at P (this ! i) of
          None \<Rightarrow> None
        | Some oper \<Rightarrow>
            (case re_state P cPrev c (this ! i) oper this nxt of
               None \<Rightarrow> Some (True, nxt)
             | Some (this, nxt) \<Rightarrow> re_states k P cPrev c (i + 1) this nxt)
      else Some (False, nxt))"

lemma re_next_char_shorter: "re_next_char z = (c, z') \<Longrightarrow> z \<noteq> [] \<Longrightarrow> length z' < length z"
  by (cases z) (auto simp: Let_def split: if_splits)

lemma xNextChar_shorter: "xNextChar nc z = (c, z') \<Longrightarrow> z \<noteq> [] \<Longrightarrow> length z' < length z"
  using re_next_char_shorter by (auto simp: xNextChar_def re_next_char_nocase_def Let_def split: if_splits prod.splits)

lemma xNextChar_Nil [simp]: "xNextChar nc [] = (0, [])"
  by (simp add: xNextChar_def re_next_char_nocase_def)

text \<open>The loop over the text.  A program of \<open>n\<close> states needs at most \<open>n + 1\<close> tries for one character.\<close>

function re_run :: "re_prog \<Rightarrow> bool \<Rightarrow> int \<Rightarrow> int list \<Rightarrow> string \<Rightarrow> bool option" where
  "re_run P nc c nxt z =
     (if c \<noteq> RE_EOF \<and> nxt \<noteq> [] then
        case re_states (length P + 1) P c (fst (xNextChar nc z)) 0 nxt [] of
          None \<Rightarrow> None
        | Some (True, _) \<Rightarrow> Some True
        | Some (False, nxt) \<Rightarrow> re_run P nc (fst (xNextChar nc z)) nxt (snd (xNextChar nc z))
      else Some (\<exists>x \<in> set nxt. op_at P x = Some RE_OP_ACCEPT))"
  by pat_completeness auto
termination
proof (relation "measure (\<lambda>(P, nc, c, nxt, z). length z + (if c = 0 then 0 else 1))")
  fix P :: re_prog and nc :: bool and c :: int and nxt nxt' :: "int list" and z :: string
  assume "c \<noteq> RE_EOF \<and> nxt \<noteq> []"
  then show "((P, nc, fst (xNextChar nc z), nxt', snd (xNextChar nc z)), (P, nc, c, nxt, z))
      \<in> measure (\<lambda>(P, nc, c, nxt, z). length z + (if c = 0 then 0 else 1))"
    using xNextChar_shorter [of nc z] by (cases "z = []") (auto simp: prod_eq_iff)
qed auto

declare re_run.simps [simp del]

text \<open>The search for the initial text; \<open>None\<close> when it does not occur.\<close>

fun skip_init :: "int list \<Rightarrow> string \<Rightarrow> string option" where
  "skip_init zi [] = (if zi = [] then Some [] else None)"
| "skip_init zi (b # z) =
     (if length zi \<le> Suc (length z) then
        if take (length zi) (map ord_char (b # z)) = zi then Some (b # z) else skip_init zi z
      else None)"

definition re_match :: "sqlite3_api_routines \<Rightarrow> ReCompiled \<Rightarrow> string \<Rightarrow> int option" where
  "re_match api pRe zIn =
     (case (if zInit pRe \<noteq> [] then skip_init (zInit pRe) zIn else Some zIn) of
        None \<Rightarrow> Some 0
      | Some z \<Rightarrow>
          if length (ops pRe) > 50 \<and> \<not> malloc64 api (2 * 2 * int (length (ops pRe))) then Some (- 1)
          else map_option (\<lambda>b. if b then 1 else 0) (re_run (ops pRe) (noCase pRe) (RE_EOF + 1) (re_add_state [] 0) z))"

section \<open>Building a program\<close>

text \<open>True is failure; both arrays are reallocated.\<close>

definition re_resize :: "sqlite3_api_routines \<Rightarrow> ReCompiled \<Rightarrow> int \<Rightarrow> bool \<times> ReCompiled" where
  "re_resize api p N =
     (if \<not> malloc64 api N then (True, p)
      else if \<not> malloc64 api (N * 4) then (True, p)
      else (False, p\<lparr>nAlloc := N\<rparr>))"

abbreviation nState :: "ReCompiled \<Rightarrow> nat" where
  "nState p \<equiv> length (ops p)"

definition re_insert :: "sqlite3_api_routines \<Rightarrow> ReCompiled \<Rightarrow> nat \<Rightarrow> re_op \<Rightarrow> int \<Rightarrow> nat \<times> ReCompiled" where
  "re_insert api p iBefore oper arg =
     (let (fail, p) = (if nAlloc p \<le> int (nState p) then re_resize api p (nAlloc p * 2) else (False, p))
      in if fail then (0, p)
         else (iBefore, p\<lparr>ops := take iBefore (ops p) @ (oper, arg) # drop iBefore (ops p)\<rparr>))"

definition re_append :: "sqlite3_api_routines \<Rightarrow> ReCompiled \<Rightarrow> re_op \<Rightarrow> int \<Rightarrow> nat \<times> ReCompiled" where
  "re_append api p oper arg = re_insert api p (nState p) oper arg"

definition re_copy :: "sqlite3_api_routines \<Rightarrow> nat \<Rightarrow> nat \<Rightarrow> ReCompiled \<Rightarrow> ReCompiled" where
  "re_copy api iStart N p =
     (let (fail, p) = (if int (nState p) + int N \<ge> nAlloc p then re_resize api p (nAlloc p * 2 + int N) else (False, p))
      in if fail then p else p\<lparr>ops := ops p @ take N (drop iStart (ops p))\<rparr>)"

section \<open>Reading the expression\<close>

text \<open>The value of a hexadecimal digit appended to \<open>v\<close>; \<open>None\<close> for another character.\<close>

definition re_hex :: "int \<Rightarrow> int \<Rightarrow> int option" where
  "re_hex c v =
     (if c \<ge> 48 \<and> c \<le> 57 then Some (v * 16 + (c - 48))
      else if c \<ge> 97 \<and> c \<le> 102 then Some (v * 16 + (c - 87))
      else if c \<ge> 65 \<and> c \<le> 70 then Some (v * 16 + (c - 55))
      else None)"

fun re_hexes :: "string \<Rightarrow> int \<Rightarrow> int option" where
  "re_hexes [] v = Some v"
| "re_hexes (b # z) v = (case re_hex (ord_char b) v of None \<Rightarrow> None | Some v \<Rightarrow> re_hexes z v)"

definition zEsc :: string where
  "zEsc = ''afnrtv'' @ [CHR 0x5C] @ ''()*.+?[$^{|}]''"

definition zTrans :: "int list" where
  "zTrans = [7, 12, 10, 13, 9, 11]"

text \<open>
  The character after a backslash.  A byte is a signed \<^verbatim>\<open>char\<close>: the position of an unknown one does not advance.
\<close>

definition re_esc_char :: "ReCompiled \<Rightarrow> int \<times> ReCompiled" where
  "re_esc_char p =
     (case sIn p of
        [] \<Rightarrow> (0, p)
      | c # z \<Rightarrow>
          let u = (if c = CHR ''u'' \<and> 4 \<le> length z then re_hexes (take 4 z) 0 else None);
              x = (if c = CHR ''x'' \<and> 2 \<le> length z then re_hexes (take 2 z) 0 else None);
              i = length (takeWhile (\<lambda>e. e \<noteq> c) zEsc)
          in if u \<noteq> None then (the u, p\<lparr>sIn := drop 4 z\<rparr>)
             else if x \<noteq> None then (the x, p\<lparr>sIn := drop 2 z\<rparr>)
             else if i < length zEsc
             then (if i < 6 then zTrans ! i else ord_char c, p\<lparr>sIn := z\<rparr>)
             else (if ord_char c < 128 then ord_char c else ord_char c - 256,
                   p\<lparr>zErr := Some (''unknown '' @ [CHR 0x5C] @ '' escape'')\<rparr>))"

definition rePeek :: "ReCompiled \<Rightarrow> char" where
  "rePeek p = cur (sIn p)"

definition re_skip :: "ReCompiled \<Rightarrow> ReCompiled" where
  "re_skip p = p\<lparr>sIn := tl (sIn p)\<rparr>"

definition re_read :: "ReCompiled \<Rightarrow> int \<times> ReCompiled" where
  "re_read p = (let (c, z) = xNextChar (noCase p) (sIn p) in (c, p\<lparr>sIn := z\<rparr>))"

text \<open>A decimal count, in 32 bits; the character after it is not read.\<close>

definition wrap32 :: "int \<Rightarrow> int" where
  "wrap32 x = (x + 2 ^ 31) mod 2 ^ 32 - 2 ^ 31"

fun re_count :: "int \<Rightarrow> string \<Rightarrow> int \<times> string" where
  "re_count m [] = (m, [])"
| "re_count m (b # z) = (if isdigit b then re_count (wrap32 (m * 10 + ord_char b - 48)) z else (m, b # z))"

definition quoted :: "string \<Rightarrow> string" where
  "quoted z = CHR 0x27 # z @ [CHR 0x27]"

text \<open>
  \<^verbatim>\<open>{m,n}\<close> after its operand, the code from \<open>iPrev\<close> on.  The result is an error message or the
  updated expression.
\<close>

definition re_optional :: "sqlite3_api_routines \<Rightarrow> nat \<Rightarrow> nat \<Rightarrow> ReCompiled \<Rightarrow> ReCompiled" where
  "re_optional api iPrev sz p = re_copy api iPrev sz (snd (re_append api p RE_OP_FORK (int sz + 1)))"

definition re_repeat :: "sqlite3_api_routines \<Rightarrow> nat \<Rightarrow> ReCompiled \<Rightarrow> string + ReCompiled" where
  "re_repeat api iPrev p =
     (let (m, z) = re_count 0 (sIn p);
          (n, z) = (if cur z = CHR '','' then re_count 0 (tl z) else (m, z));
          p = p\<lparr>sIn := z\<rparr>
      in if rePeek p \<noteq> CHR ''}'' then Inl (''unmatched '' @ quoted ''{'')
         else if n > 0 \<and> n < m then Inl (''n less than m in '' @ quoted ''{m,n}'')
         else
           let p = re_skip p; sz = nState p - iPrev in
           if m = 0 \<and> n = 0 then Inl (''both m and n are zero in '' @ quoted ''{m,n}'')
           else
             let (n', p) = (if m = 0 then (n - 1, snd (re_insert api p iPrev RE_OP_FORK (int sz + 1)))
                            else (n, (re_copy api iPrev sz ^^ nat (m - 1)) p));
                 p = (re_optional api iPrev sz ^^ nat (n' - m)) p
             in Inr (if n' = 0 \<and> m > 0 then snd (re_append api p RE_OP_FORK (- int sz)) else p))"

text \<open>The members of a character class; every one takes at least one byte.  The result has the last character.\<close>

definition esc_if :: "int \<times> ReCompiled \<Rightarrow> int \<times> ReCompiled" where
  "esc_if cp = (if fst cp = 92 then re_esc_char (snd cp) else cp)"

fun class_members :: "sqlite3_api_routines \<Rightarrow> nat \<Rightarrow> ReCompiled \<Rightarrow> (string + int \<times> ReCompiled) option" where
  "class_members api 0 p = None"
| "class_members api (Suc k) p =
     (let (c, p) = re_read p in
      if c = 0 then Some (Inr (c, p))
      else if c = 91 \<and> rePeek p = CHR '':'' then Some (Inl ''POSIX character classes not supported'')
      else
        let (c, p) = esc_if (c, p);
            (c, p) = (if rePeek p = CHR ''-'' then
                        let p = re_skip (snd (re_append api p RE_OP_CC_RANGE c));
                            (c, p) = esc_if (re_read p)
                        in (c, snd (re_append api p RE_OP_CC_RANGE c))
                      else (c, snd (re_append api p RE_OP_CC_VALUE c)))
        in if rePeek p = CHR '']'' then Some (Inr (c, re_skip p)) else class_members api k p)"

definition set_arg :: "ReCompiled \<Rightarrow> nat \<Rightarrow> int \<Rightarrow> ReCompiled" where
  "set_arg p i arg = p\<lparr>ops := (ops p)[i := (fst (ops p ! i), arg)]\<rparr>"

definition re_class :: "sqlite3_api_routines \<Rightarrow> ReCompiled \<Rightarrow> (string + ReCompiled) option" where
  "re_class api p =
     (let iFirst = nState p;
          p = (if rePeek p = CHR ''^'' then re_skip (snd (re_append api p RE_OP_CC_EXC 0))
               else snd (re_append api p RE_OP_CC_INC 0))
      in case class_members api (Suc (length (sIn p))) p of
           None \<Rightarrow> None
         | Some (Inl z) \<Rightarrow> Some (Inl z)
         | Some (Inr (c, p)) \<Rightarrow>
             Some (if c = 0 then Inl (''unclosed '' @ quoted ''['')
                   else Inr (set_arg p iFirst (int (nState p) - int iFirst))))"

definition special_op :: "char \<Rightarrow> re_op option" where
  "special_op c =
     (if c = CHR ''b'' then Some RE_OP_BOUNDARY else if c = CHR ''d'' then Some RE_OP_DIGIT
      else if c = CHR ''D'' then Some RE_OP_NOTDIGIT else if c = CHR ''s'' then Some RE_OP_SPACE
      else if c = CHR ''S'' then Some RE_OP_NOTSPACE else if c = CHR ''w'' then Some RE_OP_WORD
      else if c = CHR ''W'' then Some RE_OP_NOTWORD else None)"

text \<open>
  The cases of the switch but the parenthesis, after \<open>c\<close> has been read: an error or the updated
  expression; \<open>iPrev\<close> is where the code of the previous element begins, if there is one.
\<close>

definition re_element :: "sqlite3_api_routines \<Rightarrow> int \<Rightarrow> nat option \<Rightarrow> ReCompiled \<Rightarrow> (string + ReCompiled) option" where
  "re_element api c iPrev p =
     (if c = 46 then
        Some (Inr (if rePeek p = CHR ''*'' then re_skip (snd (re_append api p RE_OP_ANYSTAR 0))
                   else snd (re_append api p RE_OP_ANY 0)))
      else if c = 42 then
        Some (case iPrev of
          None \<Rightarrow> Inl (quoted ''*'' @ '' without operand'')
        | Some i \<Rightarrow>
            let p = snd (re_insert api p i RE_OP_GOTO (int (nState p) - int i + 1))
            in Inr (snd (re_append api p RE_OP_FORK (int i - int (nState p) + 1))))
      else if c = 43 then
        Some (case iPrev of
          None \<Rightarrow> Inl (quoted ''+'' @ '' without operand'')
        | Some i \<Rightarrow> Inr (snd (re_append api p RE_OP_FORK (int i - int (nState p)))))
      else if c = 63 then
        Some (case iPrev of
          None \<Rightarrow> Inl (quoted ''?'' @ '' without operand'')
        | Some i \<Rightarrow> Inr (snd (re_insert api p i RE_OP_FORK (int (nState p) - int i + 1))))
      else if c = 123 then
        Some (case iPrev of
          None \<Rightarrow> Inl (quoted ''{m,n}'' @ '' without operand'')
        | Some i \<Rightarrow> re_repeat api i p)
      else if c = 91 then re_class api p
      else if c = 92 then
        Some (Inr (case special_op (rePeek p) of
          Some oper \<Rightarrow> snd (re_append api (re_skip p) oper 0)
        | None \<Rightarrow> let (c, p) = re_esc_char p in snd (re_append api p RE_OP_MATCH c)))
      else Some (Inr (snd (re_append api p RE_OP_MATCH c))))"

text \<open>
  The two mutually recursive functions, the loop over the alternatives on its own.  Every element takes at
  least one byte, so that three times the length of the text is enough for the first argument.
\<close>

fun re_subcompile_re :: "sqlite3_api_routines \<Rightarrow> nat \<Rightarrow> ReCompiled \<Rightarrow> (string + ReCompiled) option"
  and re_alternatives :: "sqlite3_api_routines \<Rightarrow> nat \<Rightarrow> nat \<Rightarrow> ReCompiled \<Rightarrow> (string + ReCompiled) option"
  and re_subcompile_string :: "sqlite3_api_routines \<Rightarrow> nat \<Rightarrow> nat option \<Rightarrow> ReCompiled \<Rightarrow> (string + ReCompiled) option"
where
  "re_subcompile_re api 0 p = None"
| "re_subcompile_re api (Suc k) p =
     (case re_subcompile_string api k None p of
        Some (Inr q) \<Rightarrow> re_alternatives api k (nState p) q
      | r \<Rightarrow> r)"
| "re_alternatives api 0 iStart p = None"
| "re_alternatives api (Suc k) iStart p =
     (if rePeek p = CHR ''|'' then
        let p = snd (re_insert api p iStart RE_OP_FORK (int (nState p) + 2 - int iStart));
            (iGoto, p) = re_append api p RE_OP_GOTO 0
        in case re_subcompile_string api k None (re_skip p) of
             Some (Inr p) \<Rightarrow> re_alternatives api k iStart (set_arg p iGoto (int (nState p) - int iGoto))
           | r \<Rightarrow> r
      else Some (Inr p))"
| "re_subcompile_string api 0 iPrev p = None"
| "re_subcompile_string api (Suc k) iPrev p =
     (let (c, q) = re_read p in
      if c = 0 then Some (Inr q)
      else if c = 124 \<or> c = 36 \<or> c = 41 then Some (Inr p)
      else
        let r = (if c = 40 then
                   case re_subcompile_re api k q of
                     Some (Inr q) \<Rightarrow>
                       if rePeek q \<noteq> CHR '')'' then Some (Inl (''unmatched '' @ quoted ''(''))
                       else Some (Inr (re_skip q))
                   | r \<Rightarrow> r
                 else re_element api c iPrev q)
        in case r of
             Some (Inr q) \<Rightarrow> re_subcompile_string api k (Some (nState p)) q
           | r \<Rightarrow> r)"

section \<open>Compiling and the SQL function\<close>

text \<open>The initial text: at most ten bytes of the characters every match begins with.\<close>

fun init_text :: "re_prog \<Rightarrow> int list \<Rightarrow> int list" where
  "init_text [] acc = acc"
| "init_text ((oper, x) # P) acc =
     (if length acc < 10 \<and> oper = RE_OP_MATCH then
        if 0 \<le> x \<and> x \<le> 127 then init_text P (acc @ [x])
        else if 0 \<le> x \<and> x \<le> 0xfff then
          init_text P (acc @ [0xc0 OR drop_bit 6 x, 0x80 OR (x AND 0x3f)])
        else if 0 \<le> x \<and> x \<le> 0xffff then
          init_text P (acc @ [0xe0 OR drop_bit 12 x, 0x80 OR (drop_bit 6 x AND 0x3f), 0x80 OR (x AND 0x3f)])
        else acc
      else acc)"

definition init_of :: "re_prog \<Rightarrow> bool \<Rightarrow> int list" where
  "init_of P nc =
     (if op_at P 0 = Some RE_OP_ANYSTAR \<and> \<not> nc then
        let zi = init_text (tl P) [] in if zi \<noteq> [] \<and> last zi = 0 then butlast zi else zi
      else [])"

text \<open>The text to compile, after the first instruction.\<close>

definition re_start :: "sqlite3_api_routines \<Rightarrow> string \<Rightarrow> ReCompiled \<Rightarrow> ReCompiled" where
  "re_start api zIn pRe =
     (if cur zIn = CHR ''^'' then pRe\<lparr>sIn := tl zIn\<rparr>
      else (snd (re_append api pRe RE_OP_ANYSTAR 0))\<lparr>sIn := zIn\<rparr>)"

text \<open>After the expression: the final instructions and the initial text, or an error.\<close>

definition re_finish :: "sqlite3_api_routines \<Rightarrow> bool \<Rightarrow> ReCompiled \<Rightarrow> string option \<times> ReCompiled option" where
  "re_finish api nc pRe =
     (if rePeek pRe = CHR ''$'' \<and> length (sIn pRe) \<le> 1 then
        let pRe = snd (re_append api pRe RE_OP_MATCH RE_EOF);
            pRe = snd (re_append api pRe RE_OP_ACCEPT 0);
            pRe = pRe\<lparr>zInit := init_of (ops pRe) nc\<rparr>
        in (zErr pRe, Some pRe)
      else if sIn pRe = [] then
        let pRe = snd (re_append api pRe RE_OP_ACCEPT 0);
            pRe = pRe\<lparr>zInit := init_of (ops pRe) nc\<rparr>
        in (zErr pRe, Some pRe)
      else (Some ''unrecognized character'', None))"

text \<open>The message and the compiled expression.  The size of \<^verbatim>\<open>ReCompiled\<close> is 80 bytes.\<close>

definition re_compile :: "sqlite3_api_routines \<Rightarrow> string \<Rightarrow> bool \<Rightarrow> (string option \<times> ReCompiled option) option" where
  "re_compile api zIn nc =
     (let pRe = \<lparr>sIn = [], zErr = None, ops = [], noCase = nc, zInit = [], nAlloc = 0\<rparr>;
          (fail, pRe) = re_resize api pRe 30
      in if \<not> malloc64 api 80 \<or> fail then Some (Some ''out of memory'', None)
         else
           let pRe = re_start api zIn pRe
           in case re_subcompile_re api (3 * length (sIn pRe) + 3) pRe of
                None \<Rightarrow> None
              | Some (Inl z) \<Rightarrow> Some (Some z, None)
              | Some (Inr pRe) \<Rightarrow> Some (re_finish api nc pRe))"

text \<open>
  \<open>aux\<close> is the expression \<^verbatim>\<open>sqlite3_get_auxdata\<close> returns: one compiled for the same pattern before; the result
  has the one that is kept.
\<close>

definition re_sql_func :: "sqlite3_api_routines \<Rightarrow> bool \<Rightarrow> ReCompiled option \<Rightarrow> sqlite3_value \<Rightarrow> sqlite3_value \<Rightarrow>
    (sql_result \<times> ReCompiled option) option" where
  "re_sql_func api nc aux pattern str =
     (let run = (\<lambda>pRe. case value_text api str of
                         None \<Rightarrow> Some (ResNull, Some pRe)
                       | Some zStr \<Rightarrow> map_option (\<lambda>rc. (ResInt rc, Some pRe)) (re_match api pRe (c_str zStr)))
      in case aux of
           Some pRe \<Rightarrow> run pRe
         | None \<Rightarrow>
             (case value_text api pattern of
                None \<Rightarrow> Some (ResNull, None)
              | Some zPattern \<Rightarrow>
                  (case re_compile api (c_str zPattern) nc of
                     None \<Rightarrow> None
                   | Some (Some z, _) \<Rightarrow> Some (ResError z, None)
                   | Some (None, None) \<Rightarrow> Some (ResNomem, None)
                   | Some (None, Some pRe) \<Rightarrow> run pRe)))"

definition regexp_registrations :: "registration list" where
  "regexp_registrations =
     [\<lparr>rg_kind = RegFunction, rg_name = ''regexp'', rg_nArg = 2, rg_user = False, rg_func = ''re_sql_func''\<rparr>,
      \<lparr>rg_kind = RegFunction, rg_name = ''regexpi'', rg_nArg = 2, rg_user = True, rg_func = ''re_sql_func''\<rparr>]"

definition sqlite3_regexp_init :: "(registration \<Rightarrow> int) \<Rightarrow> connection \<Rightarrow> int \<times> connection" where
  "sqlite3_regexp_init rcs db = create_all rcs regexp_registrations db"

end
