(* ===== verification/Regexp_Nfa.thy ===== *)
theory Regexp_Nfa
  imports Regexp
begin

text \<open>
  What running a program computes.  A configuration is a state with the character before it and the
  characters that follow; the loops over the set of states find a final state exactly when some path of
  steps between configurations leads to one.
\<close>

section \<open>Steps of the automaton\<close>

text \<open>Moves that read no character, and moves on the character \<open>c\<close>.\<close>

definition eps_to :: "re_prog \<Rightarrow> int \<Rightarrow> int \<Rightarrow> int \<Rightarrow> int set" where
  "eps_to P cPrev c x =
     (case op_at P x of
        Some RE_OP_FORK \<Rightarrow> {x + arg_at P x, x + 1}
      | Some RE_OP_GOTO \<Rightarrow> {x + arg_at P x}
      | Some RE_OP_ANYSTAR \<Rightarrow> {x + 1}
      | Some RE_OP_BOUNDARY \<Rightarrow> if re_word_char c \<noteq> re_word_char cPrev then {x + 1} else {}
      | _ \<Rightarrow> {})"

definition read_to :: "re_prog \<Rightarrow> int \<Rightarrow> int \<Rightarrow> int set" where
  "read_to P c x =
     (case op_at P x of
        Some RE_OP_MATCH \<Rightarrow> if arg_at P x = c then {x + 1} else {}
      | Some RE_OP_ANY \<Rightarrow> if c \<noteq> 0 then {x + 1} else {}
      | Some RE_OP_WORD \<Rightarrow> if re_word_char c then {x + 1} else {}
      | Some RE_OP_NOTWORD \<Rightarrow> if \<not> re_word_char c \<and> c \<noteq> 0 then {x + 1} else {}
      | Some RE_OP_DIGIT \<Rightarrow> if re_digit_char c then {x + 1} else {}
      | Some RE_OP_NOTDIGIT \<Rightarrow> if \<not> re_digit_char c \<and> c \<noteq> 0 then {x + 1} else {}
      | Some RE_OP_SPACE \<Rightarrow> if re_space_char c then {x + 1} else {}
      | Some RE_OP_NOTSPACE \<Rightarrow> if \<not> re_space_char c \<and> c \<noteq> 0 then {x + 1} else {}
      | Some RE_OP_ANYSTAR \<Rightarrow> {x}
      | Some RE_OP_CC_INC \<Rightarrow> if class_hit P c x (arg_at P x) 1 then {x + arg_at P x} else {}
      | Some RE_OP_CC_EXC \<Rightarrow> if c \<noteq> 0 \<and> \<not> class_hit P c x (arg_at P x) 1 then {x + arg_at P x} else {}
      | _ \<Rightarrow> {})"

abbreviation is_final :: "re_prog \<Rightarrow> int \<Rightarrow> bool" where
  "is_final P x \<equiv> op_at P x = Some RE_OP_ACCEPT"

definition states_of :: "re_prog \<Rightarrow> int set" where
  "states_of P = {0..<int (length P)}"

text \<open>Programs whose moves stay inside, small enough for 16-bit state numbers.\<close>

definition prog_ok :: "re_prog \<Rightarrow> bool" where
  "prog_ok P \<longleftrightarrow> 0 < length P \<and> length P \<le> 65536 \<and>
     (\<forall>x \<in> states_of P. \<forall>cPrev c. eps_to P cPrev c x \<subseteq> states_of P \<and> read_to P c x \<subseteq> states_of P)"

text \<open>The states reached without reading.\<close>

definition closure :: "re_prog \<Rightarrow> int \<Rightarrow> int \<Rightarrow> int set \<Rightarrow> int set" where
  "closure P cPrev c N = {y. \<exists>x \<in> N. (\<lambda>x y. y \<in> eps_to P cPrev c x)\<^sup>*\<^sup>* x y}"

definition read_all :: "re_prog \<Rightarrow> int \<Rightarrow> int set \<Rightarrow> int set" where
  "read_all P c N = (\<Union>x \<in> N. read_to P c x)"

section \<open>One character\<close>

lemma op_at_valid: "x \<in> states_of P \<longleftrightarrow> op_at P x \<noteq> None"
  by (auto simp: states_of_def op_at_def)

lemma add_state_set:
  assumes "y \<in> states_of P" "length P \<le> 65536"
  shows "set (re_add_state N y) = insert y (set N)" "distinct N \<Longrightarrow> distinct (re_add_state N y)"
proof -
  have "y mod 65536 = y" using assms by (simp add: states_of_def)
  then show "set (re_add_state N y) = insert y (set N)" "distinct N \<Longrightarrow> distinct (re_add_state N y)"
    by (auto simp: re_add_state_def)
qed

lemma add_state_prefix: "\<exists>zs. re_add_state N y = N @ zs"
  by (simp add: re_add_state_def)

lemma re_state_cases:
  assumes ok: "prog_ok P" and x: "op_at P x = Some oper" and d: "distinct this" "distinct nxt"
  shows "case re_state P cPrev c x oper this nxt of
      None \<Rightarrow> oper = RE_OP_ACCEPT
    | Some (this', nxt') \<Rightarrow> oper \<noteq> RE_OP_ACCEPT \<and> (\<exists>zs. this' = this @ zs) \<and> distinct this' \<and> distinct nxt' \<and>
        set this' = set this \<union> eps_to P cPrev c x \<and> set nxt' = set nxt \<union> read_to P c x"
proof -
  have v: "x \<in> states_of P" using x by (simp add: op_at_valid)
  then have s: "eps_to P cp' c' x \<subseteq> states_of P" "read_to P c' x \<subseteq> states_of P" for cp' c' using ok by (auto simp: prog_ok_def)
  have l: "length P \<le> 65536" using ok by (simp add: prog_ok_def)
  note A = add_state_set [OF _ l] and defs = re_state_def eps_to_def read_to_def x
  show ?thesis
  proof (cases oper)
    case RE_OP_FORK
    then show ?thesis using s(1) [of cPrev c] d add_state_prefix [of this] add_state_prefix [of "re_add_state this (x + arg_at P x)"]
      by (auto simp: defs A) (metis append_assoc)
  next
    case RE_OP_ANYSTAR
    then show ?thesis using s(1) [of cPrev c] v d add_state_prefix [of this] by (auto simp: defs A)
  next
    case RE_OP_GOTO
    then show ?thesis using s(1) [of cPrev c] d add_state_prefix [of this] by (auto simp: defs A)
  next
    case RE_OP_BOUNDARY
    then show ?thesis using s(1) [of cPrev c] d add_state_prefix [of this] by (auto simp: defs A)
  qed (use s(2) [of c] d in \<open>auto simp: defs A\<close>)
qed

lemma closure_closed: "x \<in> closure P cPrev c N \<Longrightarrow> y \<in> eps_to P cPrev c x \<Longrightarrow> y \<in> closure P cPrev c N"
  unfolding closure_def by (auto intro: rtranclp.rtrancl_into_rtrancl)

lemma closure_base: "N \<subseteq> closure P cPrev c N"
  by (auto simp: closure_def)

lemma closure_least:
  assumes "N \<subseteq> C" "\<And>x y. x \<in> C \<Longrightarrow> y \<in> eps_to P cPrev c x \<Longrightarrow> y \<in> C"
  shows "closure P cPrev c N \<subseteq> C"
proof -
  have "y \<in> C" if "(\<lambda>x y. y \<in> eps_to P cPrev c x)\<^sup>*\<^sup>* x y" "x \<in> C" for x y
    using that by (induction rule: rtranclp_induct) (auto intro: assms(2))
  then show ?thesis using assms(1) by (auto simp: closure_def)
qed

text \<open>
  The loop over \<^verbatim>\<open>pThis\<close>: it never needs more tries than there are states, meets a final state exactly
  when the closure has one, and otherwise leaves in \<^verbatim>\<open>pNext\<close> the states after reading.
\<close>

lemma re_states_correct:
  assumes ok: "prog_ok P" and N: "N \<subseteq> states_of P"
  shows "\<lbrakk>distinct this; distinct nxt; N \<subseteq> set this; set this \<subseteq> closure P cPrev c N \<inter> states_of P; i \<le> length this;
      \<forall>x \<in> set (take i this). \<not> is_final P x \<and> eps_to P cPrev c x \<subseteq> set this;
      set nxt = read_all P c (set (take i this)); length P < k + i\<rbrakk> \<Longrightarrow>
    \<exists>nx. re_states k P cPrev c i this nxt = Some (\<exists>x \<in> closure P cPrev c N. is_final P x, nx) \<and>
      ((\<exists>x \<in> closure P cPrev c N. is_final P x) \<or> (distinct nx \<and> set nx = read_all P c (closure P cPrev c N)))"
proof (induction k arbitrary: i this nxt)
  case 0
  have "length this \<le> length P"
    using 0(1,4) distinct_card [of this] card_mono [of "states_of P" "set this"] by (auto simp: states_of_def)
  then show ?case using 0(5,8) by simp
next
  case (Suc k)
  show ?case
  proof (cases "i < length this")
    case False
    then have t: "take i this = this" using Suc.prems(5) by simp
    have "closure P cPrev c N \<subseteq> set this" using Suc.prems(3,6) unfolding t by (intro closure_least) auto
    then have "set this = closure P cPrev c N" using Suc.prems(4) by auto
    then show ?thesis using False Suc.prems(2,6,7) unfolding t by auto
  next
    case True
    let ?x = "this ! i"
    have x: "?x \<in> closure P cPrev c N" "?x \<in> states_of P" using Suc.prems(4) True nth_mem by blast+
    then obtain oper where oper: "op_at P ?x = Some oper" by (auto simp: op_at_valid)
    note C = re_state_cases [OF ok oper Suc.prems(1,2), of cPrev c]
    show ?thesis
    proof (cases "re_state P cPrev c ?x oper this nxt")
      case None
      then have "is_final P ?x" using C oper by simp
      then show ?thesis using None True oper x by auto
    next
      case (Some tn)
      obtain this' nxt' where tn: "tn = (this', nxt')" by force
      have c: "oper \<noteq> RE_OP_ACCEPT" "\<exists>zs. this' = this @ zs" "distinct this'" "distinct nxt'"
        "set this' = set this \<union> eps_to P cPrev c ?x" "set nxt' = set nxt \<union> read_to P c ?x" using C Some tn by auto
      have tk: "take (i + 1) this' = take i this @ [?x]" using c(2) True by (auto simp: take_Suc_conv_app_nth)
      have e: "eps_to P cPrev c ?x \<subseteq> states_of P" using ok x(2) by (auto simp: prog_ok_def)
      have "\<exists>nx. re_states k P cPrev c (i + 1) this' nxt' = Some (\<exists>x \<in> closure P cPrev c N. is_final P x, nx) \<and>
        ((\<exists>x \<in> closure P cPrev c N. is_final P x) \<or> (distinct nx \<and> set nx = read_all P c (closure P cPrev c N)))"
      proof (rule Suc.IH [OF c(3,4)])
        show "N \<subseteq> set this'" "set this' \<subseteq> closure P cPrev c N \<inter> states_of P"
          using Suc.prems(3,4) c(5) e closure_closed [OF x(1)] by auto
        show "i + 1 \<le> length this'" using c(2) True by auto
        show "\<forall>x \<in> set (take (i + 1) this'). \<not> is_final P x \<and> eps_to P cPrev c x \<subseteq> set this'"
          unfolding tk using Suc.prems(6) c(1,5) oper by auto
        show "set nxt' = read_all P c (set (take (i + 1) this'))"
          unfolding tk using Suc.prems(7) c(6) by (auto simp: read_all_def)
        show "length P < k + (i + 1)" using Suc.prems(8) by simp
      qed
      then show ?thesis using Some tn True oper by simp
    qed
  qed
qed

section \<open>The whole text\<close>

text \<open>The characters of a text.\<close>

function chars :: "bool \<Rightarrow> string \<Rightarrow> int list" where
  "chars nc z = (if z = [] then [] else fst (xNextChar nc z) # chars nc (snd (xNextChar nc z)))"
  by pat_completeness auto
termination
proof (relation "measure (\<lambda>(nc, z). length z)")
  fix nc and z :: string
  assume "z \<noteq> []"
  then show "((nc, snd (xNextChar nc z)), (nc, z)) \<in> measure (\<lambda>(nc, z). length z)"
    using xNextChar_shorter [of nc z] by (auto simp: prod_eq_iff)
qed auto

declare chars.simps [simp del]

lemma chars_Nil [simp]: "chars nc [] = []"
  by (simp add: chars.simps)

text \<open>Acceptance, set by set.  The texts here end with the character 0, which is read like the others.\<close>

fun nfa_acc :: "re_prog \<Rightarrow> int \<Rightarrow> int list \<Rightarrow> int set \<Rightarrow> bool" where
  "nfa_acc P cp [] N \<longleftrightarrow> (\<exists>x \<in> N. is_final P x)"
| "nfa_acc P cp (c # cs) N \<longleftrightarrow> (\<exists>x \<in> closure P cp c N. is_final P x) \<or> nfa_acc P c cs (read_all P c (closure P cp c N))"

lemma closure_empty [simp]: "closure P cp c {} = {}" "read_all P c {} = {}"
  by (simp_all add: closure_def read_all_def)

lemma nfa_acc_empty [simp]: "\<not> nfa_acc P cp cs {}"
  by (induction cs arbitrary: cp) auto

lemma prog_okD:
  "prog_ok P \<Longrightarrow> x \<in> states_of P \<Longrightarrow> y \<in> eps_to P cp c x \<Longrightarrow> y \<in> states_of P"
  "prog_ok P \<Longrightarrow> x \<in> states_of P \<Longrightarrow> y \<in> read_to P c x \<Longrightarrow> y \<in> states_of P"
  unfolding prog_ok_def by blast+

lemma closure_states: "prog_ok P \<Longrightarrow> N \<subseteq> states_of P \<Longrightarrow> closure P cp c N \<subseteq> states_of P"
  using prog_okD by (intro closure_least) blast+

lemma read_all_states: "prog_ok P \<Longrightarrow> N \<subseteq> states_of P \<Longrightarrow> read_all P c N \<subseteq> states_of P"
  using prog_okD unfolding read_all_def by blast

declare re_states.simps [simp del]

lemma re_states_start:
  assumes "prog_ok P" "distinct nxt" "set nxt \<subseteq> states_of P"
  obtains nx where "re_states (length P + 1) P cp c 0 nxt [] = Some (\<exists>x \<in> closure P cp c (set nxt). is_final P x, nx)"
    "(\<exists>x \<in> closure P cp c (set nxt). is_final P x) \<or> (distinct nx \<and> set nx = read_all P c (closure P cp c (set nxt)))"
  using re_states_correct [OF assms(1,3), of nxt "[]" cp c 0 "length P + 1"] assms closure_base [of "set nxt" P cp c]
  by (auto simp: read_all_def)

lemma re_run_correct:
  "prog_ok P \<Longrightarrow> distinct nxt \<Longrightarrow> set nxt \<subseteq> states_of P \<Longrightarrow> c \<noteq> 0 \<Longrightarrow> 0 \<notin> set (chars nc z) \<Longrightarrow>
   re_run P nc c nxt z = Some (nfa_acc P c (chars nc z @ [0]) (set nxt))"
proof (induction P nc c nxt z rule: re_run.induct)
  case (1 P nc c nxt z)
  show ?case
  proof (cases "nxt = []")
    case True
    then show ?thesis by (subst re_run.simps) simp
  next
    case ne: False
    let ?c = "fst (xNextChar nc z)" and ?z = "snd (xNextChar nc z)"
    obtain nx where R: "re_states (length P + 1) P c ?c 0 nxt [] = Some (\<exists>x \<in> closure P c ?c (set nxt). is_final P x, nx)"
      "(\<exists>x \<in> closure P c ?c (set nxt). is_final P x) \<or> (distinct nx \<and> set nx = read_all P ?c (closure P c ?c (set nxt)))"
      by (rule re_states_start [OF 1(2-4)])
    show ?thesis
    proof (cases "\<exists>x \<in> closure P c ?c (set nxt). is_final P x")
      case True
      then have "re_run P nc c nxt z = Some True" using ne 1(5) R(1) by (subst re_run.simps) simp
      then show ?thesis using True by (cases "z = []") (simp_all add: chars.simps [of nc z])
    next
      case nf: False
      then have nx: "distinct nx" "set nx = read_all P ?c (closure P c ?c (set nxt))" using R(2) by auto
      have r: "re_run P nc c nxt z = re_run P nc ?c nx ?z" using ne 1(5) R(1) nf by (subst re_run.simps) simp
      show ?thesis
      proof (cases "z = []")
        case True
        moreover have "re_run P nc 0 nx [] = Some (\<exists>x \<in> set nx. is_final P x)" by (simp add: re_run.simps [of P nc 0])
        ultimately show ?thesis using r nf nx(2) by simp
      next
        case zne: False
        have ch: "chars nc z = ?c # chars nc ?z" using zne by (subst chars.simps) simp
        have sub: "set nx \<subseteq> states_of P" unfolding nx(2) using 1(2,4) by (intro read_all_states closure_states)
        have "re_run P nc ?c nx ?z = Some (nfa_acc P ?c (chars nc ?z @ [0]) (set nx))"
        proof (cases "?c = 0")
          case True
          then show ?thesis using 1(6) ch by simp
        next
          case False
          show ?thesis
            by (rule 1(1) [OF _ R(1)]) (use 1(2,5,6) ne False nf nx(1) sub ch in auto)
        qed
        then show ?thesis using r nf nx(2) ch by simp
      qed
    qed
  qed
qed

section \<open>Paths\<close>

text \<open>A configuration: a state, the character read last, and the characters to come.\<close>

type_synonym re_config = "int \<times> int \<times> int list"

inductive stp :: "re_prog \<Rightarrow> re_config \<Rightarrow> re_config \<Rightarrow> bool" for P where
  stay: "y \<in> eps_to P cp c x \<Longrightarrow> stp P (x, cp, c # cs) (y, cp, c # cs)"
| read: "y \<in> read_to P c x \<Longrightarrow> stp P (x, cp, c # cs) (y, c, cs)"

inductive_cases stp_end: "stp P (x, cp, []) d"
inductive_cases stp_char: "stp P (x, cp, c # cs) d"

definition accepts :: "re_prog \<Rightarrow> re_config \<Rightarrow> bool" where
  "accepts P a \<longleftrightarrow> (\<exists>y b. (stp P)\<^sup>*\<^sup>* a (y, b) \<and> is_final P y)"

lemma acceptsI: "(stp P)\<^sup>*\<^sup>* a (y, b) \<Longrightarrow> is_final P y \<Longrightarrow> accepts P a"
  unfolding accepts_def by blast

lemma accepts_step: "stp P a b \<Longrightarrow> accepts P b \<Longrightarrow> accepts P a"
  unfolding accepts_def by (meson converse_rtranclp_into_rtranclp)

lemma accepts_unfold: "accepts P (x, a) \<longleftrightarrow> is_final P x \<or> (\<exists>b. stp P (x, a) b \<and> accepts P b)"
proof
  assume "accepts P (x, a)"
  then obtain y b where "(stp P)\<^sup>*\<^sup>* (x, a) (y, b)" "is_final P y" by (auto simp: accepts_def)
  then show "is_final P x \<or> (\<exists>b. stp P (x, a) b \<and> accepts P b)"
    by (cases rule: converse_rtranclpE) (blast intro: acceptsI)+
next
  assume "is_final P x \<or> (\<exists>b. stp P (x, a) b \<and> accepts P b)"
  then show "accepts P (x, a)"
  proof
    assume "is_final P x"
    then show ?thesis by (blast intro: acceptsI)
  qed (blast intro: accepts_step)
qed

lemma closure_path: "y \<in> closure P cp c N \<Longrightarrow> \<exists>x \<in> N. (stp P)\<^sup>*\<^sup>* (x, cp, c # cs) (y, cp, c # cs)"
proof -
  have "(stp P)\<^sup>*\<^sup>* (x, cp, c # cs) (y, cp, c # cs)" if "(\<lambda>x y. y \<in> eps_to P cp c x)\<^sup>*\<^sup>* x y" for x y
    using that by (induction rule: rtranclp_induct) (auto intro: rtranclp.rtrancl_into_rtrancl stp.stay)
  then show "y \<in> closure P cp c N \<Longrightarrow> \<exists>x \<in> N. (stp P)\<^sup>*\<^sup>* (x, cp, c # cs) (y, cp, c # cs)" by (auto simp: closure_def)
qed

lemma accepts_path: "(stp P)\<^sup>*\<^sup>* a b \<Longrightarrow> accepts P b \<Longrightarrow> accepts P a"
  unfolding accepts_def by (meson rtranclp_trans)

lemma path_in_closure:
  assumes "(stp P)\<^sup>*\<^sup>* a b"
  shows "a = (x, cp, c # cs) \<Longrightarrow> b = (y, bs) \<Longrightarrow> is_final P y \<Longrightarrow> x \<in> closure P cp c N \<Longrightarrow>
    (\<exists>x \<in> closure P cp c N. is_final P x) \<or> (\<exists>x \<in> read_all P c (closure P cp c N). accepts P (x, c, cs))"
  using assms
proof (induction arbitrary: x rule: converse_rtranclp_induct)
  case base
  then show ?case by auto
next
  case (step a' d)
  from step(1) show ?case unfolding step.prems(1)
  proof (cases rule: stp.cases)
    case (stay z)
    then show ?thesis using step.IH [of z] step.prems closure_closed [of x P cp c N z] by simp
  next
    case (read z)
    then have "z \<in> read_all P c (closure P cp c N)" using step.prems(4) by (auto simp: read_all_def)
    moreover have "accepts P (z, c, cs)" using step(2) step.prems(2,3) read by (blast intro: acceptsI)
    ultimately show ?thesis by blast
  qed
qed

lemma nfa_acc_paths: "nfa_acc P cp cs N \<longleftrightarrow> (\<exists>x \<in> N. accepts P (x, cp, cs))"
proof (induction cs arbitrary: cp N)
  case Nil
  then show ?case by (subst accepts_unfold) (auto elim: stp_end)
next
  case (Cons c cs)
  show ?case
  proof
    assume "nfa_acc P cp (c # cs) N"
    then consider y where "y \<in> closure P cp c N" "is_final P y"
      | y z where "y \<in> closure P cp c N" "z \<in> read_to P c y" "accepts P (z, c, cs)"
      by (auto simp: Cons.IH read_all_def)
    then obtain y where y: "y \<in> closure P cp c N" "accepts P (y, cp, c # cs)"
    proof cases
      case (1 y)
      then show ?thesis using that [of y] accepts_unfold [of P y] by blast
    next
      case (2 y z)
      then show ?thesis using that [of y] accepts_step [OF stp.read] by blast
    qed
    then show "\<exists>x \<in> N. accepts P (x, cp, c # cs)" using closure_path [OF y(1), of cs] accepts_path by blast
  next
    assume "\<exists>x \<in> N. accepts P (x, cp, c # cs)"
    then obtain x y b where "x \<in> N" "(stp P)\<^sup>*\<^sup>* (x, cp, c # cs) (y, b)" "is_final P y" by (auto simp: accepts_def)
    then have "(\<exists>x \<in> closure P cp c N. is_final P x) \<or> (\<exists>x \<in> read_all P c (closure P cp c N). accepts P (x, c, cs))"
      using path_in_closure closure_base [of N P cp c] by blast
    then show "nfa_acc P cp (c # cs) N" by (simp add: Cons.IH)
  qed
qed

text \<open>Running the states as sets finds a final state exactly when some path leads to one.\<close>

lemma re_run_accepts:
  assumes "prog_ok P" "c \<noteq> 0" "0 \<notin> set (chars nc z)"
  shows "re_run P nc c (re_add_state [] 0) z = Some (accepts P (0, c, chars nc z @ [0]))"
proof -
  have "set [0] \<subseteq> states_of P" using assms(1) by (auto simp: prog_ok_def states_of_def)
  then show ?thesis using re_run_correct [OF assms(1) _ _ assms(2,3), of "[0]"] by (simp add: re_add_state_def nfa_acc_paths)
qed

end
