(* ===== verification/Regexp_Lang.thy ===== *)
theory Regexp_Lang
  imports Regexp_Nfa
begin

text \<open>
  What the programs of the automaton mean.  \<open>rx\<close> are the expressions as trees, \<open>rel\<close> is what an expression
  matches: the pairs of places in a text between which it can lead.  \<open>rx_code\<close> is the code for an
  expression, and the paths of the automaton through that code are exactly the pairs of \<open>rel\<close>.
\<close>

section \<open>Expressions\<close>

datatype re_member = Val int | Range int int

datatype re_test = Is int | AnyChar | WordChar bool | DigitChar bool | SpaceChar bool | OneOf bool "re_member list"

datatype rx = Test re_test | AnyStar | Boundary | Eps | Seq rx rx | Alt rx rx | Star rx | Plus rx | Opt rx

fun member_has :: "re_member \<Rightarrow> int \<Rightarrow> bool" where
  "member_has (Val d) c \<longleftrightarrow> d = c"
| "member_has (Range d e) c \<longleftrightarrow> d \<le> c \<and> c \<le> e"

text \<open>The truth value says whether the test is the plain one or its negation; no negated test takes the end.\<close>

fun test_ok :: "re_test \<Rightarrow> int \<Rightarrow> bool" where
  "test_ok (Is d) c \<longleftrightarrow> d = c"
| "test_ok AnyChar c \<longleftrightarrow> c \<noteq> 0"
| "test_ok (WordChar b) c \<longleftrightarrow> (if b then re_word_char c else \<not> re_word_char c \<and> c \<noteq> 0)"
| "test_ok (DigitChar b) c \<longleftrightarrow> (if b then re_digit_char c else \<not> re_digit_char c \<and> c \<noteq> 0)"
| "test_ok (SpaceChar b) c \<longleftrightarrow> (if b then re_space_char c else \<not> re_space_char c \<and> c \<noteq> 0)"
| "test_ok (OneOf b ms) c \<longleftrightarrow>
     (if b then \<exists>m \<in> set ms. member_has m c else c \<noteq> 0 \<and> \<not> (\<exists>m \<in> set ms. member_has m c))"

text \<open>A place in a text: the character before it, and the characters after it with the final 0.\<close>

type_synonym place = "int \<times> int list"

fun rel :: "rx \<Rightarrow> (place \<times> place) set" where
  "rel (Test t) = {((p, c # s), (c, s)) | p c s. test_ok t c}"
| "rel AnyStar = {((p, u @ v), (last (p # u), v)) | p u v. v \<noteq> []}"
| "rel Boundary = {((p, c # s), (p, c # s)) | p c s. re_word_char c \<noteq> re_word_char p}"
| "rel Eps = Id"
| "rel (Seq r s) = rel r O rel s"
| "rel (Alt r s) = rel r \<union> rel s"
| "rel (Star r) = (rel r)\<^sup>*"
| "rel (Plus r) = (rel r)\<^sup>+"
| "rel (Opt r) = Id \<union> rel r"

text \<open>Expressions none of whose tests takes the end of the text.\<close>

fun rx_wf :: "rx \<Rightarrow> bool" where
  "rx_wf (Test t) \<longleftrightarrow> \<not> test_ok t 0"
| "rx_wf (Seq r s) \<longleftrightarrow> rx_wf r \<and> rx_wf s"
| "rx_wf (Alt r s) \<longleftrightarrow> rx_wf r \<and> rx_wf s"
| "rx_wf (Star r) \<longleftrightarrow> rx_wf r"
| "rx_wf (Plus r) \<longleftrightarrow> rx_wf r"
| "rx_wf (Opt r) \<longleftrightarrow> rx_wf r"
| "rx_wf r \<longleftrightarrow> True"

section \<open>Code\<close>

fun member_code :: "re_member \<Rightarrow> re_prog" where
  "member_code (Val c) = [(RE_OP_CC_VALUE, c)]"
| "member_code (Range c d) = [(RE_OP_CC_RANGE, c), (RE_OP_CC_RANGE, d)]"

definition members_code :: "re_member list \<Rightarrow> re_prog" where
  "members_code ms = concat (map member_code ms)"

fun test_code :: "re_test \<Rightarrow> re_prog" where
  "test_code (Is c) = [(RE_OP_MATCH, c)]"
| "test_code AnyChar = [(RE_OP_ANY, 0)]"
| "test_code (WordChar b) = [(if b then RE_OP_WORD else RE_OP_NOTWORD, 0)]"
| "test_code (DigitChar b) = [(if b then RE_OP_DIGIT else RE_OP_NOTDIGIT, 0)]"
| "test_code (SpaceChar b) = [(if b then RE_OP_SPACE else RE_OP_NOTSPACE, 0)]"
| "test_code (OneOf b ms) =
     (if b then RE_OP_CC_INC else RE_OP_CC_EXC, int (length (members_code ms)) + 1) # members_code ms"

fun rx_code :: "rx \<Rightarrow> re_prog" where
  "rx_code (Test t) = test_code t"
| "rx_code AnyStar = [(RE_OP_ANYSTAR, 0)]"
| "rx_code Boundary = [(RE_OP_BOUNDARY, 0)]"
| "rx_code Eps = []"
| "rx_code (Seq r s) = rx_code r @ rx_code s"
| "rx_code (Alt r s) =
     (RE_OP_FORK, int (length (rx_code r)) + 2) # rx_code r @ (RE_OP_GOTO, int (length (rx_code s)) + 1) # rx_code s"
| "rx_code (Star r) = (RE_OP_GOTO, int (length (rx_code r)) + 1) # rx_code r @ [(RE_OP_FORK, - int (length (rx_code r)))]"
| "rx_code (Plus r) = rx_code r @ [(RE_OP_FORK, - int (length (rx_code r)))]"
| "rx_code (Opt r) = (RE_OP_FORK, int (length (rx_code r)) + 1) # rx_code r"

section \<open>Code inside a program\<close>

definition seg :: "re_prog \<Rightarrow> int \<Rightarrow> re_prog \<Rightarrow> bool" where
  "seg P i F \<longleftrightarrow> (\<exists>A B. P = A @ F @ B \<and> int (length A) = i)"

lemma seg_append: "seg P i (F @ G) \<longleftrightarrow> seg P i F \<and> seg P (i + int (length F)) G"
proof
  assume "seg P i (F @ G)"
  then obtain A B where "P = A @ F @ G @ B" "int (length A) = i" by (auto simp: seg_def)
  then show "seg P i F \<and> seg P (i + int (length F)) G"
    unfolding seg_def by (metis append_assoc length_append of_nat_add)
next
  assume h: "seg P i F \<and> seg P (i + int (length F)) G"
  then obtain A B where 1: "P = A @ F @ B" "int (length A) = i" by (auto simp: seg_def)
  obtain C D where 2: "P = C @ G @ D" "int (length C) = i + int (length F)" using h by (auto simp: seg_def)
  have "length C = length (A @ F)" using 1(2) 2(2) by simp
  then have "B = G @ D" using 1(1) 2(1) append_eq_append_conv [of C "A @ F" "G @ D" B] by simp
  then show "seg P i (F @ G)" using 1 by (auto simp: seg_def)
qed

lemma seg_Cons: "seg P i (x # F) \<longleftrightarrow> seg P i [x] \<and> seg P (i + 1) F"
  using seg_append [of P i "[x]" F] by simp

lemma seg_op: "seg P i [(oper, x)] \<Longrightarrow> op_at P i = Some oper" "seg P i [(oper, x)] \<Longrightarrow> arg_at P i = x"
  by (auto simp: seg_def op_at_def arg_at_def)

lemma seg_head: "seg P i ((oper, x) # F) \<Longrightarrow> op_at P i = Some oper \<and> arg_at P i = x \<and> seg P (i + 1) F"
  using seg_Cons [of P i "(oper, x)" F] seg_op [of P i oper x] by blast

lemma seg_Cons2: "seg P i (x # y # F) \<longleftrightarrow> seg P i [x] \<and> seg P (i + 1) (y # F)"
  by (rule seg_Cons)

lemmas seg_simps = seg_append seg_Cons2

lemma length_code_bound: "seg P i F \<Longrightarrow> 0 \<le> i \<and> i + int (length F) \<le> int (length P)"
  by (auto simp: seg_def)

section \<open>Character classes\<close>

lemma class_hit_members:
  assumes "seg P (x + j) (members_code ms)" "n = j + int (length (members_code ms))" "0 < j"
  shows "class_hit P c x n j \<longleftrightarrow> (\<exists>m \<in> set ms. member_has m c)"
  using assms
proof (induction ms arbitrary: j)
  case Nil
  then show ?case by (subst class_hit.simps) (simp add: members_code_def)
next
  case (Cons m ms)
  show ?case
  proof (cases m)
    case (Val d)
    then have "op_at P (x + j) = Some RE_OP_CC_VALUE" "arg_at P (x + j) = d" "seg P (x + (j + 1)) (members_code ms)"
      using Cons.prems(1) by (auto simp: members_code_def add.assoc dest: seg_head)
    moreover have "n = j + 1 + int (length (members_code ms))" using Cons.prems(2) Val by (simp add: members_code_def)
    ultimately show ?thesis using Cons.IH [of "j + 1"] Cons.prems(3) Val
      by (subst class_hit.simps) auto
  next
    case (Range d e)
    then have "op_at P (x + j) = Some RE_OP_CC_RANGE" "arg_at P (x + j) = d" "arg_at P (x + j + 1) = e"
        "seg P (x + (j + 2)) (members_code ms)"
      using Cons.prems(1) by (auto simp: members_code_def add.assoc dest!: seg_head)
    moreover have "n = j + 2 + int (length (members_code ms))" using Cons.prems(2) Range by (simp add: members_code_def)
    ultimately show ?thesis using Cons.IH [of "j + 2"] Cons.prems(3) Range
      by (subst class_hit.simps) auto
  qed
qed

lemma length_test_code: "0 < length (test_code t)"
  by (cases t) auto

text \<open>The moves of a test.\<close>

lemma test_moves:
  assumes "seg P i (test_code t)"
  shows "eps_to P cp c i = {}" "read_to P c i = (if test_ok t c then {i + int (length (test_code t))} else {})"
proof -
  have "eps_to P cp c i = {} \<and> read_to P c i = (if test_ok t c then {i + int (length (test_code t))} else {})"
  proof (cases t)
    case (OneOf b ms)
    have h: "op_at P i = Some (if b then RE_OP_CC_INC else RE_OP_CC_EXC)" "arg_at P i = int (length (members_code ms)) + 1"
      using assms OneOf by (auto simp: seg_Cons [of _ _ _ "members_code ms"] dest: seg_op)
    moreover have "class_hit P c i (int (length (members_code ms)) + 1) 1 \<longleftrightarrow> (\<exists>m \<in> set ms. member_has m c)"
      using assms OneOf by (intro class_hit_members) (auto simp: seg_Cons [of _ _ _ "members_code ms"])
    ultimately show ?thesis using OneOf by (cases b) (auto simp: eps_to_def read_to_def)
  qed (use assms in \<open>auto simp: eps_to_def read_to_def seg_op split: if_splits\<close>)
  then show "eps_to P cp c i = {}" "read_to P c i = (if test_ok t c then {i + int (length (test_code t))} else {})" by auto
qed

section \<open>Paths through code\<close>

lemma stp_iff:
  "stp P (x, p, c # s) d \<longleftrightarrow> (\<exists>y \<in> eps_to P p c x. d = (y, p, c # s)) \<or> (\<exists>y \<in> read_to P c x. d = (y, c, s))"
  by (auto elim: stp_char intro: stp.intros)

text \<open>Places of texts that end with 0.\<close>

definition good :: "place \<Rightarrow> bool" where
  "good a \<longleftrightarrow> snd a \<noteq> [] \<and> last (snd a) = 0"

lemma good_cases: "good a \<Longrightarrow> (\<And>p c s. a = (p, c # s) \<Longrightarrow> Q) \<Longrightarrow> Q"
  by (cases a; cases "snd a") (auto simp: good_def)

lemma rtrancl_good:
  assumes "(a, b) \<in> R\<^sup>*" "good a" "\<And>a b. (a, b) \<in> R \<Longrightarrow> good a \<Longrightarrow> good b"
  shows "good b"
  using assms by (induction rule: rtrancl_induct) auto

lemma rel_good: "rx_wf r \<Longrightarrow> (a, b) \<in> rel r \<Longrightarrow> good a \<Longrightarrow> good b"
proof (induction r arbitrary: a b)
  case (Test t)
  then obtain p c s where "a = (p, c # s)" "b = (c, s)" "test_ok t c" by auto
  then show ?case using Test by (auto simp: good_def split: if_splits)
next
  case AnyStar
  then show ?case by (auto simp: good_def)
next
  case (Star r)
  then show ?case using rtrancl_good by (metis rel.simps(7) rx_wf.simps(4))
next
  case (Plus r)
  then show ?case using rtrancl_good by (metis rel.simps(8) rx_wf.simps(5) trancl_into_rtrancl)
qed auto

lemma relpowp_Cons: "(R ^^ Suc n) a c \<longleftrightarrow> (\<exists>b. R a b \<and> (R ^^ n) b c)"
  by (metis relpowp_Suc_D2 relpowp_Suc_I2)

text \<open>The moves at the jumps.\<close>

lemma jump_steps:
  "op_at P i = Some RE_OP_FORK \<Longrightarrow> good a \<Longrightarrow> stp P (i, a) d \<longleftrightarrow> d = (i + arg_at P i, a) \<or> d = (i + 1, a)"
  "op_at P i = Some RE_OP_GOTO \<Longrightarrow> good a \<Longrightarrow> stp P (i, a) d \<longleftrightarrow> d = (i + arg_at P i, a)"
  by (auto elim!: good_cases simp: stp_iff eps_to_def read_to_def)

lemma anystar_steps:
  "op_at P i = Some RE_OP_ANYSTAR \<Longrightarrow> stp P (i, p, c # s) d \<longleftrightarrow> d = (i + 1, p, c # s) \<or> d = (i, c, s)"
  by (auto simp: stp_iff eps_to_def read_to_def)

lemma boundary_steps:
  "op_at P i = Some RE_OP_BOUNDARY \<Longrightarrow> stp P (i, p, c # s) d \<longleftrightarrow> re_word_char c \<noteq> re_word_char p \<and> d = (i + 1, p, c # s)"
  by (auto simp: stp_iff eps_to_def read_to_def)

lemma test_steps:
  "seg P i (test_code t) \<Longrightarrow> stp P (i, p, c # s) d \<longleftrightarrow> test_ok t c \<and> d = (i + int (length (test_code t)), c, s)"
  by (auto simp: stp_iff test_moves)

lemma stp_path: "stp P a b \<Longrightarrow> (stp P)\<^sup>*\<^sup>* b c \<Longrightarrow> (stp P)\<^sup>*\<^sup>* a c"
  by (rule converse_rtranclp_into_rtranclp)

subsection \<open>From the meaning to a path\<close>

lemma anystar_path:
  "op_at P i = Some RE_OP_ANYSTAR \<Longrightarrow> v \<noteq> [] \<Longrightarrow> (stp P)\<^sup>*\<^sup>* (i, p, u @ v) (i + 1, last (p # u), v)"
proof (induction u arbitrary: p)
  case Nil
  then obtain c s where "v = c # s" by (cases v) auto
  then show ?case using Nil by (auto simp: anystar_steps)
next
  case (Cons c u)
  have "stp P (i, p, c # u @ v) (i, c, u @ v)" using Cons.prems by (simp add: anystar_steps)
  then show ?case using Cons.IH [OF Cons.prems, of c] by (auto intro: converse_rtranclp_into_rtranclp)
qed

lemma rtrancl_path:
  assumes "(a, b) \<in> R\<^sup>*" "good a" "\<And>a b. (a, b) \<in> R \<Longrightarrow> good a \<Longrightarrow> good b"
    "\<And>a b. (a, b) \<in> R \<Longrightarrow> good a \<Longrightarrow> (stp P)\<^sup>*\<^sup>* (i, a) (i, b)"
  shows "(stp P)\<^sup>*\<^sup>* (i, a) (i, b)"
  using assms
proof (induction rule: rtrancl_induct)
  case (step b c)
  then show ?case using rtrancl_good [of a b R] by (metis rtranclp_trans)
qed simp

lemma rel_path:
  "rx_wf r \<Longrightarrow> seg P i (rx_code r) \<Longrightarrow> (a, b) \<in> rel r \<Longrightarrow> good a \<Longrightarrow>
   (stp P)\<^sup>*\<^sup>* (i, a) (i + int (length (rx_code r)), b)"
proof (induction r arbitrary: i a b)
  case (Test t)
  then show ?case by (auto simp: test_steps)
next
  case AnyStar
  then show ?case using anystar_path by (auto dest!: seg_head)
next
  case Boundary
  then show ?case by (auto simp: boundary_steps dest!: seg_head)
next
  case Eps
  then show ?case by simp
next
  case (Seq r s)
  then obtain c where c: "(a, c) \<in> rel r" "(c, b) \<in> rel s" by auto
  have "(stp P)\<^sup>*\<^sup>* (i, a) (i + int (length (rx_code r)), c)" using Seq c by (auto simp: seg_append)
  moreover have "(stp P)\<^sup>*\<^sup>* (i + int (length (rx_code r)), c) (i + int (length (rx_code r)) + int (length (rx_code s)), b)"
    using Seq c rel_good [of r a c] by (auto simp: seg_append)
  ultimately show ?case by (simp add: add.assoc)
next
  case (Alt r s)
  let ?n = "int (length (rx_code r))" and ?m = "int (length (rx_code s))"
  have h: "op_at P i = Some RE_OP_FORK" "arg_at P i = ?n + 2" "seg P (i + 1) (rx_code r)"
    "op_at P (i + 1 + ?n) = Some RE_OP_GOTO" "arg_at P (i + 1 + ?n) = ?m + 1" "seg P (i + ?n + 2) (rx_code s)"
    using Alt.prems(2) by (auto simp: seg_append add.assoc add.commute dest!: seg_head)
  have J: "stp P (i, a) (i + 1, a)" "stp P (i, a) (i + ?n + 2, a)" using jump_steps(1) [OF h(1) Alt.prems(4)] h(2) by auto
  from Alt.prems(3) show ?case
  proof (simp, elim disjE)
    assume r: "(a, b) \<in> rel r"
    then have "(stp P)\<^sup>*\<^sup>* (i + 1, a) (i + 1 + ?n, b)" using Alt h(3) by simp
    moreover have "good b" using r Alt.prems(1,4) rel_good [of r a b] by simp
    then have "stp P (i + 1 + ?n, b) (i + (?n + ?m + 2), b)" using h(4,5) jump_steps(2) [of P "i + 1 + ?n" b] by simp
    ultimately have "(stp P)\<^sup>*\<^sup>* (i + 1, a) (i + (?n + ?m + 2), b)" by (rule rtranclp.rtrancl_into_rtrancl)
    then show "(stp P)\<^sup>*\<^sup>* (i, a) (i + (2 + (?n + ?m)), b)"
      using stp_path [OF J(1)] by (simp add: ac_simps)
  next
    assume "(a, b) \<in> rel s"
    then have "(stp P)\<^sup>*\<^sup>* (i + ?n + 2, a) (i + ?n + 2 + ?m, b)" using Alt h(6) by simp
    then show "(stp P)\<^sup>*\<^sup>* (i, a) (i + (2 + (?n + ?m)), b)"
      using stp_path [OF J(2)] by (simp add: ac_simps)
  qed
next
  case (Star r)
  let ?n = "int (length (rx_code r))"
  let ?f = "i + 1 + ?n"
  have h: "op_at P i = Some RE_OP_GOTO" "arg_at P i = ?n + 1" "seg P (i + 1) (rx_code r)"
    "op_at P ?f = Some RE_OP_FORK" "arg_at P ?f = - ?n"
    using Star.prems(2) by (auto simp: seg_append add.assoc add.commute dest!: seg_head)
  have g: "good b" if "(a, b) \<in> rel r" "good a" for a b using that Star.prems(1) rel_good [of r a b] by simp
  have J: "stp P (?f, c) (i + 1, c)" if "good c" for c using jump_steps(1) [OF h(4) that] h(5) by simp
  have "(stp P)\<^sup>*\<^sup>* (?f, c) (?f, d)" if "(c, d) \<in> rel r" "good c" for c d
    using Star.prems(1) by (intro stp_path [OF J [OF that(2)]] Star.IH [OF _ h(3) that]) simp
  with Star.prems(3,4) g have "(stp P)\<^sup>*\<^sup>* (?f, a) (?f, b)" by (auto intro: rtrancl_path)
  moreover have "stp P (i, a) (?f, a)" using h(1,2) Star.prems(4) jump_steps(2) [of P i a] by (simp add: ac_simps)
  moreover have "stp P (?f, b) (?f + 1, b)"
    using h(4) jump_steps(1) [of P ?f b] rtrancl_good [of a b "rel r"] Star.prems(3,4) g by auto
  ultimately have "(stp P)\<^sup>*\<^sup>* (i, a) (?f + 1, b)"
    by (metis converse_rtranclp_into_rtranclp rtranclp.rtrancl_into_rtrancl)
  then show ?case by (simp add: ac_simps)
next
  case (Plus r)
  let ?n = "int (length (rx_code r))"
  let ?f = "i + ?n"
  have h: "seg P i (rx_code r)" "op_at P ?f = Some RE_OP_FORK" "arg_at P ?f = - ?n"
    using Plus.prems(2) by (auto simp: seg_append dest!: seg_head)
  have g: "good b" if "(a, b) \<in> rel r" "good a" for a b using that Plus.prems(1) rel_good [of r a b] by simp
  have r: "(stp P)\<^sup>*\<^sup>* (i, c) (?f, d)" if "(c, d) \<in> rel r" "good c" for c d using that Plus.IH [OF _ h(1)] Plus.prems(1) by simp
  have l: "(stp P)\<^sup>*\<^sup>* (?f, c) (?f, d)" if "(c, d) \<in> rel r" "good c" for c d
  proof (rule stp_path [OF _ r [OF that]])
    show "stp P (?f, c) (i, c)" using jump_steps(1) [OF h(2) that(2)] h(3) by simp
  qed
  obtain c where c: "(a, c) \<in> rel r" "(c, b) \<in> (rel r)\<^sup>*" using Plus.prems(3) by (auto dest: tranclD)
  have "(stp P)\<^sup>*\<^sup>* (?f, c) (?f, b)" using c(2) g [OF c(1) Plus.prems(4)] g l by (rule rtrancl_path)
  moreover have "stp P (?f, b) (?f + 1, b)"
    using h(2) jump_steps(1) [of P ?f b] rtrancl_good [OF c(2) g [OF c(1) Plus.prems(4)] g] by auto
  ultimately have "(stp P)\<^sup>*\<^sup>* (i, a) (?f + 1, b)"
    using r [OF c(1) Plus.prems(4)] by (metis rtranclp.rtrancl_into_rtrancl rtranclp_trans)
  then show ?case by (simp add: ac_simps)
next
  case (Opt r)
  let ?n = "int (length (rx_code r))"
  have h: "op_at P i = Some RE_OP_FORK" "arg_at P i = ?n + 1" "seg P (i + 1) (rx_code r)"
    using Opt.prems(2) by (auto dest!: seg_head)
  note J = jump_steps(1) [OF h(1) Opt.prems(4)]
  from Opt.prems(3) show ?case
  proof (simp, elim disjE)
    assume "a = b"
    then show "(stp P)\<^sup>*\<^sup>* (i, a) (i + (1 + ?n), b)" using J [of "(i + (1 + ?n), a)"] h(2) by (simp add: ac_simps r_into_rtranclp)
  next
    assume "(a, b) \<in> rel r"
    then have "(stp P)\<^sup>*\<^sup>* (i + 1, a) (i + 1 + ?n, b)" using Opt h(3) by simp
    then show "(stp P)\<^sup>*\<^sup>* (i, a) (i + (1 + ?n), b)" using J stp_path [of P "(i, a)" "(i + 1, a)"] by (simp add: ac_simps)
  qed
qed

subsection \<open>From a path to the meaning\<close>

text \<open>A path from \<open>i\<close> that leaves the code up to \<open>j\<close> leaves it at \<open>j\<close>, after what \<open>R\<close> describes.\<close>

definition leaves :: "re_prog \<Rightarrow> int \<Rightarrow> int \<Rightarrow> (place \<times> place) set \<Rightarrow> bool" where
  "leaves P i j R \<longleftrightarrow> (\<forall>n a y b. good a \<longrightarrow> (stp P ^^ n) (i, a) (y, b) \<longrightarrow> y \<notin> {i..<j} \<longrightarrow>
     (\<exists>m \<le> n. \<exists>c. (a, c) \<in> R \<and> (stp P ^^ m) (j, c) (y, b)))"

definition keeps_good :: "(place \<times> place) set \<Rightarrow> bool" where
  "keeps_good R \<longleftrightarrow> (\<forall>a b. (a, b) \<in> R \<longrightarrow> good a \<longrightarrow> good b)"

lemma keeps_goodD: "keeps_good R \<Longrightarrow> (a, b) \<in> R \<Longrightarrow> good a \<Longrightarrow> good b"
  unfolding keeps_good_def by blast

lemma keeps_good_rel: "rx_wf r \<Longrightarrow> keeps_good (rel r)"
  using rel_good [of r] unfolding keeps_good_def by blast

lemma leaveI: "m \<le> n \<Longrightarrow> (a, c) \<in> R \<Longrightarrow> (stp P ^^ m) (j, c) (y, b) \<Longrightarrow> \<exists>m \<le> n. \<exists>c. (a, c) \<in> R \<and> (stp P ^^ m) (j, c) (y, b)"
  by blast

lemma leavesD:
  assumes "leaves P i j R" "good a" "(stp P ^^ n) (i, a) (y, b)" "y \<notin> {i..<j}"
  obtains m c where "m \<le> n" "(a, c) \<in> R" "(stp P ^^ m) (j, c) (y, b)"
  using assms unfolding leaves_def by blast

lemma leaves_steps:
  assumes "\<And>a d. good a \<Longrightarrow> stp P (i, a) d \<Longrightarrow> \<exists>c. (a, c) \<in> R \<and> d = (j, c)" "i < j"
  shows "leaves P i j R"
  unfolding leaves_def
proof (intro allI impI)
  fix n a y b assume h: "good a" "(stp P ^^ n) (i, a) (y, b)" "y \<notin> {i..<j}"
  obtain k where n: "n = Suc k" using h(2,3) assms(2) by (cases n) auto
  obtain d where d: "stp P (i, a) d" "(stp P ^^ k) d (y, b)" using h(2) unfolding n relpowp_Cons by blast
  then show "\<exists>m \<le> n. \<exists>c. (a, c) \<in> R \<and> (stp P ^^ m) (j, c) (y, b)" using assms(1) [OF h(1) d(1)] n by (metis le_SucI order_refl)
qed

lemma leaves_anystar:
  assumes "op_at P i = Some RE_OP_ANYSTAR"
  shows "leaves P i (i + 1) (rel AnyStar)"
proof -
  have "\<exists>m \<le> n. \<exists>c. ((p, s), c) \<in> rel AnyStar \<and> (stp P ^^ m) (i + 1, c) (y, b)"
    if "(stp P ^^ n) (i, p, s) (y, b)" "y \<noteq> i" "s \<noteq> []" for n p s y b
    using that
  proof (induction n arbitrary: p s)
    case (Suc k)
    obtain c t where s: "s = c # t" using Suc.prems(3) by (cases s) auto
    obtain d where d: "stp P (i, p, s) d" "(stp P ^^ k) d (y, b)" using Suc.prems(1) unfolding relpowp_Cons by blast
    from d(1) consider "d = (i + 1, p, s)" | "d = (i, c, t)" by (auto simp: s anystar_steps [OF assms])
    then show ?case
    proof cases
      case 1
      have "((p, s), (p, s)) \<in> rel AnyStar" using Suc.prems(3) by force
      then show ?thesis using d(2) 1 by (metis le_SucI order_refl)
    next
      case 2
      have "t \<noteq> []"
      proof
        assume "t = []"
        then have "k = 0" using d(2) 2 by (cases k) (auto simp: relpowp_Cons elim: stp_end simp del: relpowp.simps)
        then show False using d(2) 2 Suc.prems(2) by simp
      qed
      then obtain m u v where m: "m \<le> k" "t = u @ v" "v \<noteq> []" "(stp P ^^ m) (i + 1, last (c # u), v) (y, b)"
        using Suc.IH [of c t] d(2) 2 Suc.prems(2) by auto
      have "((p, s), (last (c # u), v)) \<in> rel AnyStar" using m(2,3) s by (auto intro!: exI [of _ "c # u"])
      then show ?thesis using m(1,4) by (meson le_SucI)
    qed
  qed simp
  then show ?thesis unfolding leaves_def good_def by (metis atLeastLessThan_iff order_refl prod.exhaust_sel zless_add1_eq)
qed

lemma leaves_seq:
  assumes "leaves P i j R" "leaves P j k S" "i \<le> j" "j \<le> k" "keeps_good R"
  shows "leaves P i k (R O S)"
  unfolding leaves_def
proof (intro allI impI)
  fix n a y b assume h: "good a" "(stp P ^^ n) (i, a) (y, b)" "y \<notin> {i..<k}"
  obtain m c where m: "m \<le> n" "(a, c) \<in> R" "(stp P ^^ m) (j, c) (y, b)"
    using leavesD [OF assms(1) h(1,2)] h(3) assms(4) by (metis atLeastLessThan_iff order_less_le_trans)
  obtain l d where l: "l \<le> m" "(c, d) \<in> S" "(stp P ^^ l) (k, d) (y, b)"
    using leavesD [OF assms(2) keeps_goodD [OF assms(5) m(2) h(1)] m(3)] h(3) assms(3) by (metis atLeastLessThan_iff order_trans)
  then show "\<exists>m \<le> n. \<exists>c. (a, c) \<in> R O S \<and> (stp P ^^ m) (k, c) (y, b)" using m by (meson order_trans relcomp.intros)
qed

text \<open>A fork at \<open>f\<close> that leads back to \<open>i\<close>.\<close>

lemma leaves_loop:
  assumes "leaves P i f R" "op_at P f = Some RE_OP_FORK" "f + arg_at P f = i" "i \<le> f" "keeps_good R"
    and "good a" "(stp P ^^ n) (f, a) (y, b)" "y \<notin> {i..f}"
  shows "\<exists>m \<le> n. \<exists>c. (a, c) \<in> R\<^sup>* \<and> (stp P ^^ m) (f + 1, c) (y, b)"
  using assms(6-8)
proof (induction n arbitrary: a rule: less_induct)
  case (less n)
  obtain k where n: "n = Suc k" using less.prems(2,3) assms(4) by (cases n) auto
  obtain d where d: "stp P (f, a) d" "(stp P ^^ k) d (y, b)" using less.prems(2) unfolding n relpowp_Cons by blast
  from d(1) consider "d = (i, a)" | "d = (f + 1, a)" using jump_steps(1) [OF assms(2) less.prems(1)] assms(3) by auto
  then show ?case
  proof cases
    case 1
    obtain m c where m: "m \<le> k" "(a, c) \<in> R" "(stp P ^^ m) (f, c) (y, b)"
      using leavesD [OF assms(1) less.prems(1)] d(2) 1 less.prems(3) by (metis atLeastAtMost_iff atLeastLessThan_iff less_imp_le)
    obtain l e where "l \<le> m" "(c, e) \<in> R\<^sup>*" "(stp P ^^ l) (f + 1, e) (y, b)"
      using less.IH [of m c] m n keeps_goodD [OF assms(5) m(2) less.prems(1)] less.prems(3) by auto
    then show ?thesis using m n by (meson converse_rtrancl_into_rtrancl le_SucI order_trans)
  next
    case 2
    then show ?thesis using d(2) n by (metis le_SucI order_refl rtrancl.rtrancl_refl)
  qed
qed

lemma relpowp_stepE:
  assumes "(R ^^ n) (i, a) (y, b)" "y \<noteq> i"
  obtains k d where "n = Suc k" "R (i, a) d" "(R ^^ k) d (y, b)"
proof (cases n)
  case 0
  then show ?thesis using assms by simp
next
  case (Suc k)
  then show ?thesis using assms(1) that unfolding Suc relpowp_Cons by blast
qed

lemma leaves_alt:
  assumes fork: "op_at P i = Some RE_OP_FORK" "i + arg_at P i = l + 1" and goto: "op_at P l = Some RE_OP_GOTO" "l + arg_at P l = k"
    and R: "leaves P (i + 1) l R" "keeps_good R" and S: "leaves P (l + 1) k S" and le: "i < l" "l < k"
  shows "leaves P i k (R \<union> S)"
  unfolding leaves_def
proof (intro allI impI)
  fix n a y b assume h: "good a" "(stp P ^^ n) (i, a) (y, b)" "y \<notin> {i..<k}"
  have "y \<noteq> i" "y \<noteq> l" using h(3) le by auto
  then obtain n' d where d: "n = Suc n'" "stp P (i, a) d" "(stp P ^^ n') d (y, b)" using h(2) relpowp_stepE by metis
  from d(2) consider "d = (i + 1, a)" | "d = (l + 1, a)" using jump_steps(1) [OF fork(1) h(1)] fork(2) by auto
  then show "\<exists>m \<le> n. \<exists>c. (a, c) \<in> R \<union> S \<and> (stp P ^^ m) (k, c) (y, b)"
  proof cases
    case 1
    obtain m c where m: "m \<le> n'" "(a, c) \<in> R" "(stp P ^^ m) (l, c) (y, b)"
      using d(3) h(3) le unfolding 1 by (auto elim: leavesD [OF R(1) h(1)])
    obtain m' e where e: "m = Suc m'" "stp P (l, c) e" "(stp P ^^ m') e (y, b)" using m(3) \<open>y \<noteq> l\<close> relpowp_stepE by metis
    have "e = (k, c)" using e(2) jump_steps(2) [OF goto(1) keeps_goodD [OF R(2) m(2) h(1)]] goto(2) by simp
    then show ?thesis using m(1,2) e(1,3) d(1) by (intro leaveI [of m' _ a c]) auto
  next
    case 2
    obtain m c where "m \<le> n'" "(a, c) \<in> S" "(stp P ^^ m) (k, c) (y, b)"
      using d(3) h(3) le unfolding 2 by (auto elim: leavesD [OF S h(1)])
    then show ?thesis using d(1) by (intro leaveI [of m _ a c]) auto
  qed
qed

lemma leaves_star:
  assumes goto: "op_at P i = Some RE_OP_GOTO" "i + arg_at P i = f" and fork: "op_at P f = Some RE_OP_FORK" "f + arg_at P f = i + 1"
    and R: "leaves P (i + 1) f R" "keeps_good R" and le: "i < f"
  shows "leaves P i (f + 1) (R\<^sup>*)"
  unfolding leaves_def
proof (intro allI impI)
  fix n a y b assume h: "good a" "(stp P ^^ n) (i, a) (y, b)" "y \<notin> {i..<f + 1}"
  have "y \<noteq> i" using h(3) le by auto
  then obtain n' d where d: "n = Suc n'" "stp P (i, a) d" "(stp P ^^ n') d (y, b)" using h(2) relpowp_stepE by metis
  have "d = (f, a)" using d(2) jump_steps(2) [OF goto(1) h(1)] goto(2) by simp
  then have "(stp P ^^ n') (f, a) (y, b)" using d(3) by simp
  moreover have "i + 1 \<le> f" "y \<notin> {i + 1..f}" using le h(3) by auto
  ultimately obtain m c where "m \<le> n'" "(a, c) \<in> R\<^sup>*" "(stp P ^^ m) (f + 1, c) (y, b)"
    using leaves_loop [OF R(1) fork _ R(2) h(1)] by blast
  then show "\<exists>m \<le> n. \<exists>c. (a, c) \<in> R\<^sup>* \<and> (stp P ^^ m) (f + 1, c) (y, b)" using d(1) by (intro leaveI [of m _ a c]) auto
qed

lemma leaves_plus:
  assumes R: "leaves P i f R" "keeps_good R" and fork: "op_at P f = Some RE_OP_FORK" "f + arg_at P f = i"
    and le: "i \<le> f"
  shows "leaves P i (f + 1) (R\<^sup>+)"
  unfolding leaves_def
proof (intro allI impI)
  fix n a y b assume h: "good a" "(stp P ^^ n) (i, a) (y, b)" "y \<notin> {i..<f + 1}"
  obtain m c where m: "m \<le> n" "(a, c) \<in> R" "(stp P ^^ m) (f, c) (y, b)"
    using h(3) le by (auto intro: leavesD [OF R(1) h(1,2)])
  have "y \<notin> {i..f}" using h(3) by auto
  then obtain l d where l: "l \<le> m" "(c, d) \<in> R\<^sup>*" "(stp P ^^ l) (f + 1, d) (y, b)"
    using leaves_loop [OF R(1) fork le R(2) keeps_goodD [OF R(2) m(2) h(1)] m(3)] by blast
  then have "(a, d) \<in> R\<^sup>+" using m(2) by (meson rtrancl_into_trancl2)
  then show "\<exists>m \<le> n. \<exists>c. (a, c) \<in> R\<^sup>+ \<and> (stp P ^^ m) (f + 1, c) (y, b)" using l m(1) by (intro leaveI [of l _ a d]) auto
qed

lemma leaves_opt:
  assumes fork: "op_at P i = Some RE_OP_FORK" "i + arg_at P i = k" and R: "leaves P (i + 1) k R" and le: "i < k"
  shows "leaves P i k (Id \<union> R)"
  unfolding leaves_def
proof (intro allI impI)
  fix n a y b assume h: "good a" "(stp P ^^ n) (i, a) (y, b)" "y \<notin> {i..<k}"
  have "y \<noteq> i" using h(3) le by auto
  then obtain n' d where d: "n = Suc n'" "stp P (i, a) d" "(stp P ^^ n') d (y, b)" using h(2) relpowp_stepE by metis
  from d(2) consider "d = (k, a)" | "d = (i + 1, a)" using jump_steps(1) [OF fork(1) h(1)] fork(2) by auto
  then show "\<exists>m \<le> n. \<exists>c. (a, c) \<in> Id \<union> R \<and> (stp P ^^ m) (k, c) (y, b)"
  proof cases
    case 1
    then show ?thesis using d(1,3) by (intro leaveI [of n' _ a a]) auto
  next
    case 2
    obtain m c where "m \<le> n'" "(a, c) \<in> R" "(stp P ^^ m) (k, c) (y, b)"
      using d(3) h(3) le unfolding 2 by (auto elim: leavesD [OF R h(1)])
    then show ?thesis using d(1) by (intro leaveI [of m _ a c]) auto
  qed
qed

lemma rx_leaves: "rx_wf r \<Longrightarrow> seg P i (rx_code r) \<Longrightarrow> leaves P i (i + int (length (rx_code r))) (rel r)"
proof (induction r arbitrary: i)
  case (Test t)
  then show ?case using length_test_code [of t] by (intro leaves_steps) (auto elim!: good_cases simp: test_steps)
next
  case AnyStar
  then have "op_at P i = Some RE_OP_ANYSTAR" by (auto dest!: seg_head)
  then show ?case using leaves_anystar by simp
next
  case Boundary
  then have "op_at P i = Some RE_OP_BOUNDARY" by (auto dest!: seg_head)
  then show ?case by (intro leaves_steps) (auto elim!: good_cases simp: boundary_steps)
next
  case Eps
  then show ?case by (auto simp: leaves_def)
next
  case (Seq r s)
  have "leaves P i (i + int (length (rx_code r)) + int (length (rx_code s))) (rel r O rel s)"
    using Seq keeps_good_rel [of r] by (intro leaves_seq [of P i "i + int (length (rx_code r))"]) (auto simp: seg_append)
  then show ?case by (simp add: add.assoc)
next
  case (Alt r s)
  let ?n = "int (length (rx_code r))" and ?m = "int (length (rx_code s))"
  have h: "op_at P i = Some RE_OP_FORK" "arg_at P i = ?n + 2" "seg P (i + 1) (rx_code r)"
    "op_at P (i + 1 + ?n) = Some RE_OP_GOTO" "arg_at P (i + 1 + ?n) = ?m + 1" "seg P (i + 1 + ?n + 1) (rx_code s)"
    using Alt.prems(2) by (auto simp: seg_append add.assoc dest!: seg_head)
  have "leaves P i (i + 1 + ?n + 1 + ?m) (rel r \<union> rel s)"
  proof (rule leaves_alt [OF h(1) _ h(4)])
    show "leaves P (i + 1) (i + 1 + ?n) (rel r)" "leaves P (i + 1 + ?n + 1) (i + 1 + ?n + 1 + ?m) (rel s)"
      using Alt h(3,6) by simp_all
  qed (use h(2,5) Alt.prems(1) keeps_good_rel [of r] in auto)
  then show ?case by (simp add: ac_simps)
next
  case (Star r)
  let ?n = "int (length (rx_code r))"
  have h: "op_at P i = Some RE_OP_GOTO" "arg_at P i = ?n + 1" "seg P (i + 1) (rx_code r)"
    "op_at P (i + 1 + ?n) = Some RE_OP_FORK" "arg_at P (i + 1 + ?n) = - ?n"
    using Star.prems(2) by (auto simp: seg_append add.assoc dest!: seg_head)
  have "leaves P i (i + 1 + ?n + 1) ((rel r)\<^sup>*)"
  proof (rule leaves_star [OF h(1) _ h(4)])
    show "leaves P (i + 1) (i + 1 + ?n) (rel r)" using Star h(3) by simp
  qed (use h(2,5) Star.prems(1) keeps_good_rel [of r] in auto)
  then show ?case by (simp add: ac_simps)
next
  case (Plus r)
  let ?n = "int (length (rx_code r))"
  have h: "seg P i (rx_code r)" "op_at P (i + ?n) = Some RE_OP_FORK" "arg_at P (i + ?n) = - ?n"
    using Plus.prems(2) by (auto simp: seg_append dest!: seg_head)
  have "leaves P i (i + ?n + 1) ((rel r)\<^sup>+)"
    using Plus h keeps_good_rel [of r] by (intro leaves_plus) auto
  then show ?case by (simp add: ac_simps)
next
  case (Opt r)
  let ?n = "int (length (rx_code r))"
  have h: "op_at P i = Some RE_OP_FORK" "arg_at P i = ?n + 1" "seg P (i + 1) (rx_code r)"
    using Opt.prems(2) by (auto dest!: seg_head)
  have "leaves P i (i + 1 + ?n) (Id \<union> rel r)"
    using Opt h by (intro leaves_opt) auto
  then show ?case by (simp add: ac_simps)
qed

section \<open>Whole programs\<close>

text \<open>Where an instruction leads, relative to its place; code that leads nowhere but to itself and its end.\<close>

fun targets :: "re_op \<times> int \<Rightarrow> int set" where
  "targets (oper, x) =
     (case oper of
        RE_OP_FORK \<Rightarrow> {x, 1} | RE_OP_GOTO \<Rightarrow> {x} | RE_OP_ANYSTAR \<Rightarrow> {0, 1}
      | RE_OP_CC_INC \<Rightarrow> {x} | RE_OP_CC_EXC \<Rightarrow> {x}
      | RE_OP_ACCEPT \<Rightarrow> {} | RE_OP_CC_VALUE \<Rightarrow> {} | RE_OP_CC_RANGE \<Rightarrow> {} | _ \<Rightarrow> {1})"

definition code_ok :: "re_prog \<Rightarrow> bool" where
  "code_ok F \<longleftrightarrow> (\<forall>k < length F. \<forall>t \<in> targets (F ! k). 0 \<le> int k + t \<and> int k + t \<le> int (length F))"

lemma moves_targets:
  assumes "0 \<le> x" "x < int (length P)"
  shows "eps_to P cp c x \<subseteq> (\<lambda>t. x + t) ` targets (P ! nat x)" "read_to P c x \<subseteq> (\<lambda>t. x + t) ` targets (P ! nat x)"
proof -
  obtain oper a where "P ! nat x = (oper, a)" by force
  then have "eps_to P cp c x \<subseteq> (\<lambda>t. x + t) ` targets (P ! nat x) \<and> read_to P c x \<subseteq> (\<lambda>t. x + t) ` targets (P ! nat x)"
    using assms by (cases oper) (simp_all add: eps_to_def read_to_def op_at_def arg_at_def)
  then show "eps_to P cp c x \<subseteq> (\<lambda>t. x + t) ` targets (P ! nat x)" "read_to P c x \<subseteq> (\<lambda>t. x + t) ` targets (P ! nat x)" by auto
qed

lemma code_ok_append:
  assumes "code_ok F" "code_ok G"
  shows "code_ok (F @ G)"
  unfolding code_ok_def
proof (intro allI impI ballI)
  fix k t assume h: "k < length (F @ G)" "t \<in> targets ((F @ G) ! k)"
  show "0 \<le> int k + t \<and> int k + t \<le> int (length (F @ G))"
  proof (cases "k < length F")
    case True
    then have "0 \<le> int k + t \<and> int k + t \<le> int (length F)" using h(2) assms(1) unfolding code_ok_def nth_append by simp
    then show ?thesis by simp
  next
    case False
    then have "0 \<le> int (k - length F) + t \<and> int (k - length F) + t \<le> int (length G)"
      using h assms(2) [unfolded code_ok_def, rule_format, of "k - length F" t] by (simp add: nth_append)
    then show ?thesis using False by simp
  qed
qed

lemma code_ok_Cons:
  assumes "code_ok F" "\<forall>t \<in> targets x. 0 \<le> t \<and> t \<le> int (length F) + 1"
  shows "code_ok (x # F)"
  unfolding code_ok_def
proof (intro allI impI ballI)
  fix k t assume h: "k < length (x # F)" "t \<in> targets ((x # F) ! k)"
  show "0 \<le> int k + t \<and> int k + t \<le> int (length (x # F))"
  proof (cases k)
    case 0
    then have "0 \<le> t \<and> t \<le> int (length F) + 1" using h(2) assms(2) by simp
    then show ?thesis using 0 by simp
  next
    case (Suc j)
    then have "0 \<le> int j + t \<and> int j + t \<le> int (length F)" using h assms(1) unfolding code_ok_def by simp
    then show ?thesis using Suc by simp
  qed
qed

lemma code_ok_snoc:
  assumes "code_ok F" "\<forall>t \<in> targets x. 0 \<le> int (length F) + t \<and> t \<le> 1"
  shows "code_ok (F @ [x])"
  unfolding code_ok_def
proof (intro allI impI ballI)
  fix k t assume h: "k < length (F @ [x])" "t \<in> targets ((F @ [x]) ! k)"
  show "0 \<le> int k + t \<and> int k + t \<le> int (length (F @ [x]))"
  proof (cases "k < length F")
    case True
    then have "0 \<le> int k + t \<and> int k + t \<le> int (length F)" using h(2) assms(1) unfolding code_ok_def nth_append by simp
    then show ?thesis by simp
  next
    case False
    then have "k = length F" using h(1) by simp
    then show ?thesis using h(2) assms(2) by simp
  qed
qed

lemma code_ok_Nil: "code_ok []"
  by (simp add: code_ok_def)

lemma code_ok_members: "code_ok (members_code ms)"
proof (induction ms)
  case (Cons m ms)
  have "code_ok (member_code m)" by (cases m) (auto intro!: code_ok_Cons code_ok_Nil)
  then show ?case using Cons by (simp add: members_code_def code_ok_append)
qed (simp add: members_code_def code_ok_Nil)

lemma code_ok_rx: "code_ok (rx_code r)"
proof (induction r)
  case (Test t)
  then show ?case by (cases t) (auto intro!: code_ok_Cons code_ok_Nil code_ok_members)
next
  case (Alt r s)
  then show ?case by (auto intro!: code_ok_Cons code_ok_append)
next
  case (Star r)
  then show ?case by (auto intro!: code_ok_Cons code_ok_snoc)
next
  case (Plus r)
  then show ?case by (auto intro!: code_ok_snoc)
qed (auto intro!: code_ok_Cons code_ok_Nil code_ok_append)

text \<open>No final state inside the code of an expression.\<close>

lemma rx_code_final: "RE_OP_ACCEPT \<notin> fst ` set (rx_code r)"
proof (induction r)
  case (Test t)
  have "RE_OP_ACCEPT \<notin> fst ` set (member_code m)" for m by (cases m) auto
  then have "RE_OP_ACCEPT \<notin> fst ` set (members_code ms)" for ms unfolding members_code_def by (induction ms) auto
  then show ?case by (cases t) auto
qed auto

lemma rel_suffix: "(a, b) \<in> rel r \<Longrightarrow> \<exists>u. snd a = u @ snd b"
proof (induction r arbitrary: a b)
  case (Seq r s)
  then obtain c where "(a, c) \<in> rel r" "(c, b) \<in> rel s" by auto
  then show ?case using Seq.IH by (metis append_assoc)
next
  case (Star r)
  then have "(a, b) \<in> (rel r)\<^sup>*" by simp
  then show ?case
  proof (induction rule: rtrancl_induct)
    case (step b c)
    then show ?case using Star.IH [of b c] by (metis append_assoc)
  qed simp
next
  case (Plus r)
  then have "(a, b) \<in> (rel r)\<^sup>+" by simp
  then show ?case
  proof (induction rule: trancl_induct)
    case (step b c)
    then show ?case using Plus.IH [of b c] by (metis append_assoc)
  qed (use Plus.IH in blast)
qed auto

text \<open>The program for an expression with or without a \<^verbatim>\<open>^\<close> before and a \<^verbatim>\<open>$\<close> after it, and what it has to find.\<close>

definition rx_prog :: "bool \<Rightarrow> rx \<Rightarrow> bool \<Rightarrow> re_prog" where
  "rx_prog a r e =
     (if a then [] else [(RE_OP_ANYSTAR, 0)]) @ rx_code r @ (if e then [(RE_OP_MATCH, 0)] else []) @ [(RE_OP_ACCEPT, 0)]"

definition finds :: "bool \<Rightarrow> rx \<Rightarrow> bool \<Rightarrow> int list \<Rightarrow> bool" where
  "finds a r e zs \<longleftrightarrow> (\<exists>u v p w. zs @ [0] = u @ v \<and> v \<noteq> [] \<and> (a \<longrightarrow> u = []) \<and>
     ((last (1 # u), v), (p, w)) \<in> rel r \<and> (e \<longrightarrow> w = [0]))"

definition searching :: "bool \<Rightarrow> rx \<Rightarrow> rx" where
  "searching a r = (if a then r else Seq AnyStar r)"

lemma rx_prog_searching: "rx_prog a r e = rx_code (searching a r) @ (if e then [(RE_OP_MATCH, 0)] else []) @ [(RE_OP_ACCEPT, 0)]"
  by (simp add: rx_prog_def searching_def)

lemma finds_searching: "finds a r e zs \<longleftrightarrow> (\<exists>p w. ((1, zs @ [0]), (p, w)) \<in> rel (searching a r) \<and> (e \<longrightarrow> w = [0]))"
proof (cases a)
  case True
  then show ?thesis by (simp add: finds_def searching_def)
next
  case False
  then have "(\<exists>p w. ((1, zs @ [0]), (p, w)) \<in> rel (searching a r) \<and> (e \<longrightarrow> w = [0])) \<longleftrightarrow>
    (\<exists>p w c. ((1, zs @ [0]), c) \<in> rel AnyStar \<and> (c, (p, w)) \<in> rel r \<and> (e \<longrightarrow> w = [0]))"
    by (auto simp: searching_def simp del: rel.simps(2))
  also have "\<dots> \<longleftrightarrow> finds a r e zs" using False unfolding finds_def rel.simps by blast
  finally show ?thesis by simp
qed

lemma prog_ok_accept:
  assumes F: "code_ok F" and l: "length (F @ [(RE_OP_ACCEPT, 0)]) \<le> 65536"
  shows "prog_ok (F @ [(RE_OP_ACCEPT, 0)])"
proof -
  let ?P = "F @ [(RE_OP_ACCEPT, 0)]"
  have "eps_to ?P cp c x \<subseteq> states_of ?P \<and> read_to ?P c x \<subseteq> states_of ?P" if "x \<in> states_of ?P" for x cp c
  proof -
    have x: "0 \<le> x" "x < int (length ?P)" using that by (auto simp: states_of_def)
    have T: "(\<lambda>t. x + t) ` targets (?P ! nat x) \<subseteq> states_of ?P"
    proof (cases "nat x < length F")
      case True
      have B: "0 \<le> x + t \<and> x + t \<le> int (length F)" if "t \<in> targets (F ! nat x)" for t
        using F [unfolded code_ok_def, rule_format, OF True that] x(1) by simp
      have e: "?P ! nat x = F ! nat x" using True by (simp only: nth_append if_True)
      have "x + t \<in> states_of ?P" if "t \<in> targets (?P ! nat x)" for t
        using B [OF that [unfolded e]] by (simp add: states_of_def)
      then show ?thesis by blast
    next
      case False
      then have "nat x = length F" using x by simp
      then have "?P ! nat x = (RE_OP_ACCEPT, 0)" by (simp only: nth_append_length)
      then show ?thesis by simp
    qed
    show ?thesis by (intro conjI subset_trans [OF moves_targets(1) [OF x] T] subset_trans [OF moves_targets(2) [OF x] T])
  qed
  then show ?thesis using l unfolding prog_ok_def by simp
qed

lemma prog_ok_rx: "length (rx_prog a r e) \<le> 65536 \<Longrightarrow> prog_ok (rx_prog a r e)"
proof -
  have "code_ok (rx_code (searching a r) @ (if e then [(RE_OP_MATCH, 0)] else []))" by (auto intro!: code_ok_snoc code_ok_rx)
  then show "length (rx_prog a r e) \<le> 65536 \<Longrightarrow> prog_ok (rx_prog a r e)"
    using prog_ok_accept unfolding rx_prog_searching by (metis append_assoc)
qed

lemma final_place:
  assumes "P = F @ [(RE_OP_ACCEPT, 0)]" "RE_OP_ACCEPT \<notin> fst ` set F"
  shows "is_final P y \<longleftrightarrow> y = int (length F)"
proof
  assume "is_final P y"
  then have y: "0 \<le> y" "y < int (length P)" "fst (P ! nat y) = RE_OP_ACCEPT" by (auto simp: op_at_def split: if_splits)
  have "\<not> nat y < length F"
  proof
    assume "nat y < length F"
    then have "P ! nat y \<in> set F" by (simp add: assms(1) nth_append)
    then show False using assms(2) y(3) by (metis image_eqI)
  qed
  then show "y = int (length F)" using y(1,2) assms(1) by simp
qed (simp add: op_at_def assms(1))

lemma rx_prog_accepts:
  assumes wf: "rx_wf r" and zs: "0 \<notin> set zs"
  shows "accepts (rx_prog a r e) (0, 1, zs @ [0]) \<longleftrightarrow> finds a r e zs"
proof -
  let ?r = "searching a r" and ?P = "rx_prog a r e" and ?n = "int (length (rx_code (searching a r)))"
  have w: "rx_wf ?r" using wf by (simp add: searching_def)
  have g: "good (1, zs @ [0])" by (simp add: good_def)
  have P: "?P = (rx_code ?r @ (if e then [(RE_OP_MATCH, 0)] else [])) @ [(RE_OP_ACCEPT, 0)]" by (simp add: rx_prog_searching)
  have s: "seg ?P 0 (rx_code ?r)" unfolding seg_def rx_prog_searching by (rule exI [of _ "[]"]) auto
  have f: "is_final ?P y \<longleftrightarrow> y = ?n + (if e then 1 else 0)" for y
    using final_place [OF P, of y] rx_code_final [of ?r] by (cases e) auto
  have m: "stp ?P (?n, p, c # t) d \<longleftrightarrow> c = 0 \<and> d = (?n + 1, c, t)" if e for p c t d
  proof -
    have "op_at ?P ?n = Some RE_OP_MATCH" "arg_at ?P ?n = 0" using that by (simp_all add: op_at_def arg_at_def rx_prog_searching nth_append)
    then show ?thesis by (auto simp: stp_iff eps_to_def read_to_def)
  qed
  have end0: "t = []" if A: "((1, zs @ [0]), (p, 0 # t)) \<in> rel ?r" for p t
  proof -
    obtain u where "zs @ [0] = u @ 0 # t" using rel_suffix [OF A] by auto
    then have "zs = butlast (u @ 0 # t)" by (metis butlast_snoc)
    then show ?thesis using zs by (cases t) (auto simp: butlast_append)
  qed
  show ?thesis
  proof
    assume "accepts ?P (0, 1, zs @ [0])"
    then obtain y b where y: "(stp ?P)\<^sup>*\<^sup>* (0, 1, zs @ [0]) (y, b)" "is_final ?P y" unfolding accepts_def by blast
    obtain n where n: "(stp ?P ^^ n) (0, 1, zs @ [0]) (y, b)" using rtranclp_imp_relpowp [OF y(1)] by blast
    have l: "leaves ?P 0 ?n (rel ?r)" using rx_leaves [OF w s] by simp
    have "y \<notin> {0..<?n}" using y(2) f by (auto split: if_splits)
    then obtain k c where c: "((1, zs @ [0]), c) \<in> rel ?r" "(stp ?P ^^ k) (?n, c) (y, b)"
      by (rule leavesD [OF l g n])
    obtain p t where pt: "c = (p, t)" by (cases c)
    show "finds a r e zs"
    proof (cases e)
      case True
      then have "y \<noteq> ?n" using y(2) f by simp
      then obtain d where d: "stp ?P (?n, c) d" by (rule relpowp_stepE [OF c(2)])
      obtain q t' where t: "t = q # t'" using rel_good [OF w c(1) g] pt by (auto simp: good_def neq_Nil_conv)
      then have "q = 0" using m [OF True, of p q t'] d pt by simp
      then have "t = [0]" using end0 [of p t'] c(1) pt t by simp
      then show ?thesis using c(1) pt unfolding finds_searching by blast
    next
      case False
      then show ?thesis using c(1) pt unfolding finds_searching by blast
    qed
  next
    assume "finds a r e zs"
    then obtain p t where pt: "((1, zs @ [0]), (p, t)) \<in> rel ?r" "e \<longrightarrow> t = [0]" unfolding finds_searching by blast
    have path: "(stp ?P)\<^sup>*\<^sup>* (0, 1, zs @ [0]) (?n, p, t)" using rel_path [OF w s pt(1) g] by simp
    show "accepts ?P (0, 1, zs @ [0])"
    proof (cases e)
      case True
      then have "stp ?P (?n, p, t) (?n + 1, 0, [])" using m [OF True] pt(2) by simp
      then have "(stp ?P)\<^sup>*\<^sup>* (0, 1, zs @ [0]) (?n + 1, 0, [])" using path by (simp add: rtranclp.rtrancl_into_rtrancl)
      then show ?thesis by (rule acceptsI) (use f True in simp)
    next
      case False
      show ?thesis using path by (rule acceptsI) (use f False in simp)
    qed
  qed
qed

end
