(* ===== verification/Regexp_Compile.thy ===== *)
theory Regexp_Compile
  imports Regexp_Lang
begin

text \<open>
  The compiler of regular expressions: it always returns, whatever it is given; the code it builds leads
  nowhere but into itself; and the first argument of its recursive functions, large enough, does not matter.
\<close>

section \<open>Reading shortens the text\<close>

lemma re_insert_sIn [simp]: "sIn (snd (re_insert api p i oper x)) = sIn p" "noCase (snd (re_insert api p i oper x)) = noCase p"
  by (auto simp: re_insert_def re_resize_def Let_def split: prod.splits if_splits)

lemma re_append_sIn [simp]: "sIn (snd (re_append api p oper x)) = sIn p" "noCase (snd (re_append api p oper x)) = noCase p"
  by (simp_all add: re_append_def)

lemma re_copy_sIn [simp]: "sIn (re_copy api i n p) = sIn p" "noCase (re_copy api i n p) = noCase p"
  by (auto simp: re_copy_def re_resize_def Let_def split: prod.splits if_splits)

lemma set_arg_sIn [simp]: "sIn (set_arg p i x) = sIn p"
  by (simp add: set_arg_def)

lemma funpow_sIn: "(\<And>p. sIn (f p) = sIn p) \<Longrightarrow> sIn ((f ^^ n) p) = sIn p" for f :: "ReCompiled \<Rightarrow> ReCompiled"
  by (induction n) auto

lemma re_skip_shorter: "length (sIn (re_skip p)) \<le> length (sIn p)"
  by (simp add: re_skip_def)

lemma re_esc_char_shorter: "length (sIn (snd (re_esc_char p))) \<le> length (sIn p)"
  by (auto simp: re_esc_char_def Let_def split: list.splits)

lemma re_read_shorter: "length (sIn (snd (re_read p))) \<le> length (sIn p)" "fst (re_read p) \<noteq> 0 \<Longrightarrow> length (sIn (snd (re_read p))) < length (sIn p)"
proof -
  have "sIn p = [] \<or> length (snd (xNextChar (noCase p) (sIn p))) < length (sIn p)"
    using xNextChar_shorter [of "noCase p" "sIn p"] by (metis prod.exhaust_sel)
  then show "length (sIn (snd (re_read p))) \<le> length (sIn p)" "fst (re_read p) \<noteq> 0 \<Longrightarrow> length (sIn (snd (re_read p))) < length (sIn p)"
    by (auto simp: re_read_def split: prod.splits)
qed

lemma esc_if_shorter: "length (sIn (snd (esc_if cp))) \<le> length (sIn (snd cp))"
  by (simp add: esc_if_def re_esc_char_shorter)

lemma re_count_shorter: "re_count m z = (n, z') \<Longrightarrow> length z' \<le> length z"
  by (induction m z rule: re_count.induct) (auto split: if_splits)

lemma re_repeat_shorter: "re_repeat api i p = Inr q \<Longrightarrow> length (sIn q) \<le> length (sIn p)"
proof -
  assume h: "re_repeat api i p = Inr q"
  obtain m z where 1: "re_count 0 (sIn p) = (m, z)" by force
  obtain n z' where 2: "(if cur z = CHR '','' then re_count 0 (tl z) else (m, z)) = (n, z')" by force
  have o: "sIn (re_optional api j s t) = sIn t" for j s t by (simp add: re_optional_def)
  have "length z' \<le> length z" using 2 re_count_shorter [of 0 "tl z" n z'] by (auto split: if_splits)
  then show ?thesis using h re_count_shorter [OF 1]
    by (auto simp: re_repeat_def 1 2 Let_def re_skip_def funpow_sIn o split: if_splits)
qed

text \<open>One member of a class.\<close>

definition class_member :: "sqlite3_api_routines \<Rightarrow> int \<times> ReCompiled \<Rightarrow> int \<times> ReCompiled" where
  "class_member api cp =
     (let (c, p) = esc_if cp
      in if rePeek p = CHR ''-'' then
           let p = re_skip (snd (re_append api p RE_OP_CC_RANGE c)); (c, p) = esc_if (re_read p)
           in (c, snd (re_append api p RE_OP_CC_RANGE c))
         else (c, snd (re_append api p RE_OP_CC_VALUE c)))"

lemma class_members_Suc:
  "class_members api (Suc k) p =
     (if fst (re_read p) = 0 then Some (Inr (re_read p))
      else if fst (re_read p) = 91 \<and> rePeek (snd (re_read p)) = CHR '':'' then Some (Inl ''POSIX character classes not supported'')
      else if rePeek (snd (class_member api (re_read p))) = CHR '']''
      then Some (Inr (fst (class_member api (re_read p)), re_skip (snd (class_member api (re_read p)))))
      else class_members api k (snd (class_member api (re_read p))))"
  by (simp add: class_member_def Let_def split_beta prod_eq_iff)

declare class_members.simps(2) [simp del]

lemma class_member_shorter: "length (sIn (snd (class_member api cp))) \<le> length (sIn (snd cp))"
proof -
  let ?p = "snd (esc_if cp)"
  have 1: "length (sIn ?p) \<le> length (sIn (snd cp))" by (rule esc_if_shorter)
  have "length (sIn (snd (esc_if (re_read (re_skip (snd (re_append api ?p RE_OP_CC_RANGE (fst (esc_if cp)))))))))
      \<le> length (sIn ?p)"
    by (rule order_trans [OF esc_if_shorter], rule order_trans [OF re_read_shorter(1)], rule order_trans [OF re_skip_shorter]) simp
  then show ?thesis using 1 by (auto simp: class_member_def Let_def split_beta)
qed

lemma class_members_total:
  "length (sIn p) < k \<Longrightarrow> \<exists>r. class_members api k p = Some r \<and> (\<forall>c q. r = Inr (c, q) \<longrightarrow> length (sIn q) \<le> length (sIn p))"
proof (induction k arbitrary: p)
  case (Suc k)
  let ?q = "snd (class_member api (re_read p))"
  note R = re_read_shorter [of p] and M = class_member_shorter [of api "re_read p"] and S = re_skip_shorter [of ?q]
  show ?case
  proof (cases "fst (re_read p) = 0 \<or> fst (re_read p) = 91 \<and> rePeek (snd (re_read p)) = CHR '':'' \<or> rePeek ?q = CHR '']''")
    case True
    have "length (sIn (re_skip ?q)) \<le> length (sIn p)" using R(1) M S by linarith
    then show ?thesis using True R(1) by (auto simp: class_members_Suc)
  next
    case False
    then have l: "length (sIn ?q) < length (sIn p)" using R(2) M by linarith
    then obtain r where "class_members api k ?q = Some r" "\<forall>c q. r = Inr (c, q) \<longrightarrow> length (sIn q) \<le> length (sIn ?q)"
      using Suc.IH [of ?q] Suc.prems by auto
    then show ?thesis using False l by (auto simp: class_members_Suc)
  qed
qed simp

lemma re_class_total: "\<exists>r. re_class api p = Some r \<and> (\<forall>q. r = Inr q \<longrightarrow> length (sIn q) \<le> length (sIn p))"
proof -
  define p1 where "p1 = (if rePeek p = CHR ''^'' then re_skip (snd (re_append api p RE_OP_CC_EXC 0)) else snd (re_append api p RE_OP_CC_INC 0))"
  have l: "length (sIn p1) \<le> length (sIn p)" by (simp add: p1_def re_skip_def)
  obtain r where r: "class_members api (Suc (length (sIn p1))) p1 = Some r" "\<forall>c q. r = Inr (c, q) \<longrightarrow> length (sIn q) \<le> length (sIn p1)"
    using class_members_total [of p1 "Suc (length (sIn p1))" api] by auto
  then show ?thesis using l unfolding re_class_def p1_def [symmetric] Let_def
    by (cases r) (fastforce simp: set_arg_def split: prod.splits)+
qed

lemma re_element_total:
  "\<exists>r. re_element api c i p = Some r \<and> (\<forall>q. r = Inr q \<longrightarrow> length (sIn q) \<le> length (sIn p))"
  using re_class_total [of api p] re_repeat_shorter [of api _ p] re_esc_char_shorter [of p]
  by (auto simp: re_element_def Let_def re_skip_def split_beta split: option.splits)

section \<open>The compiler returns\<close>

lemma subcompile_total:
  "(2 * length (sIn p) + 2 \<le> k \<longrightarrow> (\<exists>r. re_subcompile_re api k p = Some r \<and> (\<forall>q. r = Inr q \<longrightarrow> length (sIn q) \<le> length (sIn p)))) \<and>
   (2 * length (sIn p) + 1 \<le> k \<longrightarrow> (\<exists>r. re_alternatives api k j p = Some r \<and> (\<forall>q. r = Inr q \<longrightarrow> length (sIn q) \<le> length (sIn p)))) \<and>
   (2 * length (sIn p) + 1 \<le> k \<longrightarrow> (\<exists>r. re_subcompile_string api k i p = Some r \<and> (\<forall>q. r = Inr q \<longrightarrow> length (sIn q) \<le> length (sIn p))))"
proof (induction k arbitrary: p i j)
  case (Suc k)
  note IH_re = Suc.IH [THEN conjunct1, rule_format] and IH_alt = Suc.IH [THEN conjunct2, THEN conjunct1, rule_format]
    and IH_str = Suc.IH [THEN conjunct2, THEN conjunct2, rule_format]
  have re: "\<exists>r. re_subcompile_re api (Suc k) p = Some r \<and> (\<forall>q. r = Inr q \<longrightarrow> length (sIn q) \<le> length (sIn p))"
    if l: "2 * length (sIn p) + 2 \<le> Suc k"
  proof -
    obtain r where r: "re_subcompile_string api k None p = Some r" "\<forall>q. r = Inr q \<longrightarrow> length (sIn q) \<le> length (sIn p)"
      using IH_str [of p None] l by auto
    show ?thesis
    proof (cases r)
      case (Inr q)
      then have q: "length (sIn q) \<le> length (sIn p)" using r(2) by simp
      then show ?thesis using IH_alt [of q "nState p"] l r(1) Inr by force
    qed (use r in simp)
  qed
  have alt: "\<exists>r. re_alternatives api (Suc k) j p = Some r \<and> (\<forall>q. r = Inr q \<longrightarrow> length (sIn q) \<le> length (sIn p))"
    if l: "2 * length (sIn p) + 1 \<le> Suc k"
  proof (cases "rePeek p = CHR ''|''")
    case True
    define p1 where "p1 = snd (re_insert api p j RE_OP_FORK (int (nState p) + 2 - int j))"
    define gp where "gp = re_append api p1 RE_OP_GOTO 0"
    have ne: "sIn p \<noteq> []" using True by (auto simp: rePeek_def)
    have s: "length (sIn (re_skip (snd gp))) < length (sIn p)" using ne by (simp add: re_skip_def gp_def p1_def)
    obtain r where r: "re_subcompile_string api k None (re_skip (snd gp)) = Some r" "\<forall>q. r = Inr q \<longrightarrow> length (sIn q) \<le> length (sIn (re_skip (snd gp)))"
      using IH_str [of "re_skip (snd gp)" None] l s by auto
    have e: "re_alternatives api (Suc k) j p = (case re_subcompile_string api k None (re_skip (snd gp)) of
        Some (Inr p) \<Rightarrow> re_alternatives api k j (set_arg p (fst gp) (int (nState p) - int (fst gp))) | r \<Rightarrow> r)"
      unfolding gp_def p1_def using True by (simp add: Let_def split_beta)
    show ?thesis
    proof (cases r)
      case (Inr q)
      then have "length (sIn q) < length (sIn p)" using r(2) s by simp
      then show ?thesis using IH_alt [of "set_arg q (fst gp) (int (nState q) - int (fst gp))" j] l r(1) Inr e by force
    qed (use r e in simp)
  qed simp
  have str: "\<exists>r. re_subcompile_string api (Suc k) i p = Some r \<and> (\<forall>q. r = Inr q \<longrightarrow> length (sIn q) \<le> length (sIn p))"
    if l: "2 * length (sIn p) + 1 \<le> Suc k"
  proof -
    obtain c q where cq: "re_read p = (c, q)" by force
    show ?thesis
    proof (cases "c = 0 \<or> c = 124 \<or> c = 36 \<or> c = 41")
      case True
      then show ?thesis using cq re_read_shorter(1) [of p] by auto
    next
      case False
      then have q: "length (sIn q) < length (sIn p)" using re_read_shorter(2) [of p] cq by simp
      define r where "r = (if c = 40 then case re_subcompile_re api k q of
          Some (Inr q) \<Rightarrow> if rePeek q \<noteq> CHR '')'' then Some (Inl (''unmatched '' @ quoted ''('')) else Some (Inr (re_skip q))
        | r \<Rightarrow> r else re_element api c i q)"
      have r: "\<exists>x. r = Some x \<and> (\<forall>q'. x = Inr q' \<longrightarrow> length (sIn q') \<le> length (sIn q))"
      proof (cases "c = 40")
        case True
        obtain y where "re_subcompile_re api k q = Some y" "\<forall>q'. y = Inr q' \<longrightarrow> length (sIn q') \<le> length (sIn q)"
          using IH_re [of q] l q by auto
        then show ?thesis using True by (cases y) (auto simp: r_def re_skip_def)
      qed (simp add: r_def re_element_total)
      have e: "re_subcompile_string api (Suc k) i p = (case r of
          Some (Inr q) \<Rightarrow> re_subcompile_string api k (Some (nState p)) q | r \<Rightarrow> r)"
        using False by (simp add: cq r_def)
      obtain x where x: "r = Some x" "\<forall>q'. x = Inr q' \<longrightarrow> length (sIn q') \<le> length (sIn q)" using r by blast
      show ?thesis
      proof (cases x)
        case (Inr q')
        then have "length (sIn q') < length (sIn p)" using x(2) q by simp
        then show ?thesis using IH_str [of q' "Some (nState p)"] l x(1) Inr e by force
      qed (use x e in simp)
    qed
  qed
  show ?case using re alt str by blast
qed simp

lemma re_compile_total: "re_compile api z nc \<noteq> None"
proof -
  have "\<exists>r. re_subcompile_re api (3 * length (sIn p) + 3) p = Some r" for p
    using subcompile_total [of p "3 * length (sIn p) + 3" api 0 None] by auto
  then show ?thesis by (auto simp: re_compile_def Let_def split: prod.split sum.split option.split) (metis option.distinct(1))
qed

section \<open>More tries do not matter\<close>

lemma subcompile_Suc:
  "(\<forall>x. re_subcompile_re api k p = Some x \<longrightarrow> re_subcompile_re api (Suc k) p = Some x) \<and>
   (\<forall>x. re_alternatives api k j p = Some x \<longrightarrow> re_alternatives api (Suc k) j p = Some x) \<and>
   (\<forall>x. re_subcompile_string api k i p = Some x \<longrightarrow> re_subcompile_string api (Suc k) i p = Some x)"
proof (induction k arbitrary: p i j)
  case (Suc k)
  note [simp del] = re_subcompile_re.simps(2) re_alternatives.simps(2) re_subcompile_string.simps(2)
  note IH_re = Suc.IH [THEN conjunct1, rule_format] and IH_alt = Suc.IH [THEN conjunct2, THEN conjunct1, rule_format]
    and IH_str = Suc.IH [THEN conjunct2, THEN conjunct2, rule_format]
  have "re_subcompile_re api (Suc (Suc k)) p = Some x" if "re_subcompile_re api (Suc k) p = Some x" for x
    using that [unfolded re_subcompile_re.simps(2) [of api k]] unfolding re_subcompile_re.simps(2) [of api "Suc k"]
    by (auto dest!: IH_str IH_alt split: option.splits sum.splits)
  moreover have "re_alternatives api (Suc (Suc k)) j p = Some x" if "re_alternatives api (Suc k) j p = Some x" for x
    using that [unfolded re_alternatives.simps(2) [of api k] Let_def split_beta] unfolding re_alternatives.simps(2) [of api "Suc k"] Let_def split_beta
    by (auto dest!: IH_str IH_alt split: option.splits sum.splits if_splits)
  moreover have "re_subcompile_string api (Suc (Suc k)) i p = Some x" if "re_subcompile_string api (Suc k) i p = Some x" for x
    using that [unfolded re_subcompile_string.simps(2) [of api k] Let_def split_beta] unfolding re_subcompile_string.simps(2) [of api "Suc k"] Let_def split_beta
    by (auto dest!: IH_str IH_re split: option.splits sum.splits if_splits)
  ultimately show ?case by blast
qed simp

section \<open>The code that is built leads into itself\<close>

text \<open>Memory does not run out.  Requests of no bytes, which the code does not make, are included.\<close>

definition granted :: "sqlite3_api_routines \<Rightarrow> bool" where
  "granted api \<longleftrightarrow> (\<forall>n. malloc64 api n)"

lemma re_insert_granted:
  assumes "granted api"
  shows "\<exists>a. re_insert api p i oper x = (i, p\<lparr>ops := take i (ops p) @ (oper, x) # drop i (ops p), nAlloc := a\<rparr>)"
  using assms
  by (cases "nAlloc p \<le> int (nState p)") (auto simp: re_insert_def re_resize_def granted_def intro: exI [of _ "nAlloc p * 2"] exI [of _ "nAlloc p"])

lemma re_insert_ops:
  "granted api \<Longrightarrow> ops (snd (re_insert api p i oper x)) = take i (ops p) @ (oper, x) # drop i (ops p)"
  "granted api \<Longrightarrow> fst (re_insert api p i oper x) = i"
  using re_insert_granted [of api p i oper x] by auto

lemma re_append_ops:
  "granted api \<Longrightarrow> ops (snd (re_append api p oper x)) = ops p @ [(oper, x)]"
  "granted api \<Longrightarrow> fst (re_append api p oper x) = nState p"
  by (simp_all add: re_append_def re_insert_ops)

text \<open>An instruction at \<open>k\<close> that leads into code of length \<open>L\<close>.\<close>

definition leads_in :: "nat \<Rightarrow> nat \<Rightarrow> re_op \<times> int \<Rightarrow> bool" where
  "leads_in L k x \<longleftrightarrow> (\<forall>t \<in> targets x. - int k \<le> t \<and> t \<le> int L - int k)"

lemma code_ok_iff: "code_ok F \<longleftrightarrow> (\<forall>k < length F. leads_in (length F) k (F ! k))"
proof -
  have "0 \<le> int k + t \<and> int k + t \<le> int L \<longleftrightarrow> - int k \<le> t \<and> t \<le> int L - int k" for k L t by linarith
  then show ?thesis unfolding code_ok_def leads_in_def by simp
qed

lemma leads_in_mono: "leads_in L k x \<Longrightarrow> L \<le> M \<Longrightarrow> leads_in M k x"
  unfolding leads_in_def by fastforce

lemma leads_in_Suc: "leads_in L k x \<Longrightarrow> leads_in (Suc L) (Suc k) x"
  unfolding leads_in_def by fastforce

lemma code_ok_insert:
  assumes F: "code_ok F" and i: "i \<le> length F" and x: "leads_in (Suc (length F)) i x"
  shows "code_ok (take i F @ x # drop i F)"
proof -
  let ?G = "take i F @ x # drop i F"
  have l: "length ?G = Suc (length F)" using i by simp
  have "leads_in (Suc (length F)) k (?G ! k)" if k: "k < Suc (length F)" for k
  proof -
    consider "k < i" | "k = i" | j where "k = Suc j" "i \<le> j" by (metis Suc_leI less_Suc_eq_le lessE linorder_neqE_nat)
    then show ?thesis
    proof cases
      case 1
      then have "?G ! k = F ! k" "k < length F" using i by (simp_all add: nth_append)
      then show ?thesis using F leads_in_mono [of "length F" k "F ! k" "Suc (length F)"] by (simp add: code_ok_iff)
    next
      case 2
      then show ?thesis using x i by (simp add: nth_append)
    next
      case 3
      then have "?G ! k = F ! j" "j < length F" using i k by (simp_all add: nth_append)
      then show ?thesis using F leads_in_Suc [of "length F" j "F ! j"] 3 by (simp add: code_ok_iff)
    qed
  qed
  then show ?thesis unfolding code_ok_iff l by blast
qed

lemma code_ok_update:
  assumes "code_ok F" "leads_in (length F) k x"
  shows "code_ok (F[k := x])"
  unfolding code_ok_iff
proof (intro allI impI)
  fix j assume "j < length (F[k := x])"
  then show "leads_in (length (F[k := x])) j (F[k := x] ! j)" using assms by (cases "j = k") (simp_all add: code_ok_iff)
qed

lemma code_ok_end: "code_ok F \<Longrightarrow> leads_in (Suc (length F)) (length F) x \<Longrightarrow> code_ok (F @ [x])"
  using code_ok_insert [of F "length F" x] by simp

text \<open>Growing code: well-formed, and not shorter than before, from a text without the character \<^verbatim>\<open>{\<close>.\<close>

definition grows :: "ReCompiled \<Rightarrow> ReCompiled \<Rightarrow> bool" where
  "grows p q \<longleftrightarrow> code_ok (ops q) \<and> nState p \<le> nState q \<and> set (sIn q) \<subseteq> set (sIn p)"

lemma grows_trans: "grows p q \<Longrightarrow> grows q r \<Longrightarrow> grows p r"
  by (auto simp: grows_def)

lemma grows_append:
  "granted api \<Longrightarrow> code_ok (ops p) \<Longrightarrow> leads_in (Suc (nState p)) (nState p) (oper, x) \<Longrightarrow> grows p (snd (re_append api p oper x))"
  by (auto simp: grows_def re_append_ops intro!: code_ok_end)

lemma grows_skip: "code_ok (ops p) \<Longrightarrow> grows p (re_skip p)"
  by (cases "sIn p") (auto simp: grows_def re_skip_def)

lemma re_next_char_drop: "\<exists>k. snd (re_next_char z) = drop k z"
proof (cases z)
  case (Cons b y)
  have "\<exists>k. snd (re_next_char (b # y)) = drop k y"
    by (auto simp: Let_def split: if_splits intro: exI [of _ 0])
  then show ?thesis using Cons by (metis drop_Suc_Cons)
qed simp

lemma xNextChar_drop: "\<exists>k. snd (xNextChar nc z) = drop k z"
  using re_next_char_drop [of z] by (auto simp: xNextChar_def re_next_char_nocase_def split: prod.splits)

lemma grows_read: "code_ok (ops p) \<Longrightarrow> grows p (snd (re_read p))"
  using xNextChar_drop [of "noCase p" "sIn p"] by (auto simp: grows_def re_read_def split: prod.splits dest: in_set_dropD)

lemma grows_esc: "code_ok (ops p) \<Longrightarrow> grows p (snd (re_esc_char p))"
  by (auto simp: grows_def re_esc_char_def Let_def split: list.splits dest: in_set_dropD)

lemma grows_esc_if: "code_ok (ops (snd cp)) \<Longrightarrow> grows (snd cp) (snd (esc_if cp))"
  using grows_esc by (auto simp: esc_if_def grows_def)

lemma grows_ok: "grows p q \<Longrightarrow> code_ok (ops q)"
  by (simp add: grows_def)

lemma leads_next: "oper \<notin> {RE_OP_FORK, RE_OP_GOTO, RE_OP_CC_INC, RE_OP_CC_EXC} \<or> (- int n \<le> x \<and> x \<le> 1) \<Longrightarrow> leads_in (Suc n) n (oper, x)"
  by (cases oper) (auto simp: leads_in_def)

lemma grows_then: "grows p q \<Longrightarrow> (code_ok (ops q) \<Longrightarrow> grows q r) \<Longrightarrow> grows p r"
  using grows_trans grows_ok by blast

lemma grows_member:
  assumes "granted api" "code_ok (ops (snd cp))"
  shows "grows (snd cp) (snd (class_member api cp))"
proof -
  let ?q = "snd (esc_if cp)" and ?c = "fst (esc_if cp)"
  have q: "grows (snd cp) ?q" using assms(2) by (rule grows_esc_if)
  have A: "grows p (snd (re_append api p oper x))" if "code_ok (ops p)" "oper \<in> {RE_OP_CC_RANGE, RE_OP_CC_VALUE}" for p oper x
    using that assms(1) by (intro grows_append leads_next) auto
  let ?r = "snd (esc_if (re_read (re_skip (snd (re_append api ?q RE_OP_CC_RANGE ?c)))))"
  have "grows ?q (snd (re_append api ?q RE_OP_CC_RANGE ?c))" using A grows_ok [OF q] by simp
  then have "grows ?q (re_skip (snd (re_append api ?q RE_OP_CC_RANGE ?c)))" by (rule grows_then) (rule grows_skip)
  then have "grows ?q (snd (re_read (re_skip (snd (re_append api ?q RE_OP_CC_RANGE ?c)))))" by (rule grows_then) (rule grows_read)
  then have r: "grows ?q ?r" by (rule grows_then) (rule grows_esc_if)
  then have "grows ?q (snd (re_append api ?r RE_OP_CC_RANGE x))" for x by (rule grows_then) (simp add: A)
  moreover have "grows ?q (snd (re_append api ?q RE_OP_CC_VALUE ?c))" using A grows_ok [OF q] by simp
  ultimately have "grows ?q (snd (class_member api cp))" by (simp add: class_member_def Let_def split_beta)
  then show ?thesis using q by (rule grows_trans [rotated])
qed

lemma grows_members:
  "granted api \<Longrightarrow> code_ok (ops p) \<Longrightarrow> class_members api k p = Some (Inr (c, q)) \<Longrightarrow> grows p q"
proof (induction k arbitrary: p)
  case (Suc k)
  let ?r = "snd (class_member api (re_read p))"
  have R: "grows p (snd (re_read p))" using Suc.prems(2) by (rule grows_read)
  have M: "grows p ?r" using R grows_member [OF Suc.prems(1) grows_ok [OF R]] by (rule grows_trans)
  have S: "grows p (re_skip ?r)" using M grows_skip [OF grows_ok [OF M]] by (rule grows_trans)
  from Suc.prems(3) consider "q = snd (re_read p)" | "q = re_skip ?r" | "class_members api k ?r = Some (Inr (c, q))"
    by (auto simp: class_members_Suc split: if_splits)
  then show ?case
  proof cases
    case 3
    from M Suc.IH [OF Suc.prems(1) grows_ok [OF M] 3] show ?thesis by (rule grows_trans)
  qed (use R S in simp_all)
qed simp

lemma grows_class:
  assumes "granted api" "code_ok (ops p)" "re_class api p = Some (Inr q)"
  shows "grows p q"
proof -
  define p1 where "p1 = (if rePeek p = CHR ''^'' then re_skip (snd (re_append api p RE_OP_CC_EXC 0)) else snd (re_append api p RE_OP_CC_INC 0))"
  have A: "grows p (snd (re_append api p oper 0))" for oper using assms(1,2) by (intro grows_append leads_next) auto
  have p1: "grows p p1" using A [of RE_OP_CC_INC] grows_trans [OF A grows_skip [OF grows_ok [OF A]], of RE_OP_CC_EXC] by (simp add: p1_def)
  have o: "length (ops p1) = Suc (nState p)" using assms(1) by (simp add: p1_def re_append_ops re_skip_def)
  obtain c r where r: "class_members api (Suc (length (sIn p1))) p1 = Some (Inr (c, r))" "q = set_arg r (nState p) (int (nState r) - int (nState p))"
    using assms(3) unfolding re_class_def p1_def [symmetric] Let_def by (auto split: option.splits sum.splits if_splits)
  have g: "grows p1 r" using grows_members [OF assms(1) grows_ok [OF p1] r(1)] .
  then have l: "nState p < nState r" using o by (simp add: grows_def)
  have "leads_in (nState r) (nState p) (oper, int (nState r) - int (nState p))" for oper
    using l by (cases oper) (auto simp: leads_in_def)
  then have "code_ok (ops q)" unfolding r(2) set_arg_def using grows_ok [OF g] by (auto intro: code_ok_update)
  then show ?thesis using grows_trans [OF p1 g] l by (simp add: r(2) set_arg_def grows_def)
qed

lemma grows_element:
  assumes "granted api" "code_ok (ops p)" "re_element api c i p = Some (Inr q)" "c \<noteq> 123" "\<forall>j. i = Some j \<longrightarrow> j \<le> nState p"
  shows "grows p q"
proof -
  have A: "grows p (snd (re_append api p oper x))" if "oper \<notin> {RE_OP_FORK, RE_OP_GOTO, RE_OP_CC_INC, RE_OP_CC_EXC} \<or> (- int (nState p) \<le> x \<and> x \<le> 1)" for oper x
    using that assms(1,2) by (intro grows_append leads_next) auto
  have skip: "grows p q \<Longrightarrow> grows p (re_skip q)" for q by (erule grows_then) (rule grows_skip)
  have I: "grows p (snd (re_insert api p j oper (int (nState p) - int j + 1)))" if "j \<le> nState p" for j oper
  proof -
    have "leads_in (Suc (nState p)) j (oper, int (nState p) - int j + 1)" using that by (cases oper) (auto simp: leads_in_def)
    then show ?thesis using that assms(1,2) by (auto simp: grows_def re_insert_ops intro: code_ok_insert)
  qed
  show ?thesis
  proof (cases "c = 42")
    case True
    then obtain j where j: "i = Some j" "j \<le> nState p" using assms(3,5) by (auto simp: re_element_def split: option.splits)
    let ?p = "snd (re_insert api p j RE_OP_GOTO (int (nState p) - int j + 1))"
    have l: "nState ?p = Suc (nState p)" using assms(1) j by (simp add: re_insert_ops)
    have "grows ?p (snd (re_append api ?p RE_OP_FORK (int j - int (nState ?p) + 1)))"
      using assms(1) grows_ok [OF I [OF j(2)]] j(2) l by (intro grows_append leads_next) auto
    then show ?thesis using True j assms(3) grows_trans [OF I [OF j(2), of RE_OP_GOTO]] by (simp add: re_element_def Let_def)
  next
    case False
    have esc: "grows p (snd (re_append api (snd (re_esc_char p)) RE_OP_MATCH x))" for x
      using grows_trans [OF grows_esc [OF assms(2)] grows_append [OF assms(1) grows_ok [OF grows_esc [OF assms(2)]] leads_next]] by simp
    have sp: "grows p (snd (re_append api (re_skip p) oper 0))" if "special_op x = Some oper" for x oper
    proof -
      have "oper \<notin> {RE_OP_FORK, RE_OP_GOTO, RE_OP_CC_INC, RE_OP_CC_EXC}" using that by (auto simp: special_op_def split: if_splits)
      then show ?thesis using grows_trans [OF grows_skip [OF assms(2)] grows_append [OF assms(1) grows_ok [OF grows_skip [OF assms(2)]] leads_next]] by simp
    qed
    from assms(3,4) False show ?thesis
      using assms(5) A I skip [OF A] grows_class [OF assms(1,2)] esc sp
      by (auto simp: re_element_def Let_def split_beta split: if_splits option.splits)
  qed
qed

text \<open>A character below 128 comes from a single byte.\<close>

lemma re_next_char_ascii:
  assumes "re_next_char z = (c, z')" "c < 128" "z \<noteq> []"
  shows "\<exists>b. z = b # z' \<and> ord_char b = c"
proof -
  obtain b y where z: "z = b # y" using assms(3) by (cases z) auto
  show ?thesis using assms(1,2) unfolding z by (auto simp: Let_def split: if_splits)
qed

lemma re_read_brace: "fst (re_read p) = 123 \<Longrightarrow> CHR ''{'' \<in> set (sIn p)"
proof -
  assume h: "fst (re_read p) = 123"
  obtain c z where cz: "re_next_char (sIn p) = (c, z)" by force
  have "sIn p \<noteq> []" using h by (auto simp: re_read_def)
  moreover have "c = 123" using h cz by (auto simp: re_read_def xNextChar_def re_next_char_nocase_def split: if_splits prod.splits)
  ultimately obtain b where "sIn p = b # z" "ord_char b = ord_char (CHR ''{'')" using re_next_char_ascii [OF cz] by (auto simp: ord_char_def)
  then show ?thesis by simp
qed

lemma grows_brace: "grows p q \<Longrightarrow> CHR ''{'' \<notin> set (sIn p) \<Longrightarrow> CHR ''{'' \<notin> set (sIn q)"
  by (auto simp: grows_def)

lemma subcompile_grows:
  assumes g: "granted api"
  shows "code_ok (ops p) \<Longrightarrow> CHR ''{'' \<notin> set (sIn p) \<Longrightarrow>
    (\<forall>q. re_subcompile_re api k p = Some (Inr q) \<longrightarrow> grows p q) \<and>
    (\<forall>q. j \<le> nState p \<longrightarrow> re_alternatives api k j p = Some (Inr q) \<longrightarrow> grows p q) \<and>
    (\<forall>q. (\<forall>l. i = Some l \<longrightarrow> l \<le> nState p) \<longrightarrow> re_subcompile_string api k i p = Some (Inr q) \<longrightarrow> grows p q)"
proof (induction k arbitrary: p i j)
  case (Suc k)
  note IH_re = Suc.IH [THEN conjunct1, rule_format] and IH_alt = Suc.IH [THEN conjunct2, THEN conjunct1, rule_format]
    and IH_str = Suc.IH [THEN conjunct2, THEN conjunct2, rule_format]
  have re: "grows p q" if h: "re_subcompile_re api (Suc k) p = Some (Inr q)" for q
  proof -
    obtain r where r: "re_subcompile_string api k None p = Some (Inr r)" "re_alternatives api k (nState p) r = Some (Inr q)"
      using h by (auto split: option.splits sum.splits)
    have "grows p r" using IH_str [OF Suc.prems _ r(1)] by simp
    moreover from this have "grows r q"
      using IH_alt [OF grows_ok [OF \<open>grows p r\<close>] grows_brace [OF \<open>grows p r\<close> Suc.prems(2)] _ r(2)] by (simp add: grows_def)
    ultimately show ?thesis by (rule grows_trans)
  qed
  have alt: "grows p q" if j: "j \<le> nState p" and h: "re_alternatives api (Suc k) j p = Some (Inr q)" for q
  proof (cases "rePeek p = CHR ''|''")
    case True
    define p1 where "p1 = snd (re_insert api p j RE_OP_FORK (int (nState p) + 2 - int j))"
    define p2 where "p2 = snd (re_append api p1 RE_OP_GOTO 0)"
    have f: "fst (re_append api p1 RE_OP_GOTO 0) = Suc (nState p)" using g j by (simp add: re_append_ops p1_def re_insert_ops)
    obtain r where r: "re_subcompile_string api k None (re_skip p2) = Some (Inr r)"
      "re_alternatives api k j (set_arg r (Suc (nState p)) (int (nState r) - int (Suc (nState p)))) = Some (Inr q)"
      using h True f unfolding p1_def p2_def by (auto simp: Let_def split_beta split: option.splits sum.splits)
    have o: "ops p2 = take j (ops p @ [(RE_OP_GOTO, 0)]) @ (RE_OP_FORK, int (nState p) + 2 - int j) # drop j (ops p @ [(RE_OP_GOTO, 0)])"
      using g j by (simp add: p2_def p1_def re_append_ops re_insert_ops)
    have "code_ok (ops p2)" unfolding o
    proof (rule code_ok_insert)
      show "code_ok (ops p @ [(RE_OP_GOTO, 0)])" using Suc.prems(1) by (auto simp: leads_in_def intro!: code_ok_end)
    qed (use j in \<open>auto simp: leads_in_def\<close>)
    moreover have z: "sIn p2 = sIn p" by (simp add: p2_def p1_def)
    ultimately have s: "grows p (re_skip p2)" using j by (cases "sIn p") (auto simp: grows_def re_skip_def o z)
    have r': "grows (re_skip p2) r" using IH_str [OF grows_ok [OF s] grows_brace [OF s Suc.prems(2)] _ r(1)] by simp
    define r2 where "r2 = set_arg r (Suc (nState p)) (int (nState r) - int (Suc (nState p)))"
    have l: "Suc (Suc (nState p)) \<le> nState r" using r' j by (simp add: grows_def re_skip_def o)
    have "leads_in (nState r) (Suc (nState p)) (oper, int (nState r) - int (Suc (nState p)))" for oper
      using l by (cases oper) (auto simp: leads_in_def)
    then have "code_ok (ops r2)" unfolding r2_def set_arg_def using grows_ok [OF r'] by (auto intro: code_ok_update)
    then have r2: "grows p r2" using grows_trans [OF s r'] by (simp add: grows_def r2_def set_arg_def)
    have "grows r2 q" using IH_alt [OF grows_ok [OF r2] grows_brace [OF r2 Suc.prems(2)] _ r(2) [folded r2_def]] j l
      by (simp add: r2_def set_arg_def)
    then show ?thesis using r2 by (rule grows_trans [rotated])
  next
    case False
    then show ?thesis using h Suc.prems(1) by (simp add: grows_def)
  qed
  have str: "grows p q" if i: "\<forall>l. i = Some l \<longrightarrow> l \<le> nState p" and h: "re_subcompile_string api (Suc k) i p = Some (Inr q)" for q
  proof -
    obtain c r where cr: "re_read p = (c, r)" by force
    have R: "grows p r" using grows_read [OF Suc.prems(1)] cr by simp
    show ?thesis
    proof (cases "c = 0 \<or> c = 124 \<or> c = 36 \<or> c = 41")
      case True
      then show ?thesis using h cr R Suc.prems(1) by (auto simp: grows_def)
    next
      case False
      have n: "nState r = nState p" using cr by (auto simp: re_read_def split: prod.splits)
      obtain s where s: "grows r s" "re_subcompile_string api k (Some (nState p)) s = Some (Inr q)"
      proof (cases "c = 40")
        case True
        then obtain t where t: "re_subcompile_re api k r = Some (Inr t)" "re_subcompile_string api k (Some (nState p)) (re_skip t) = Some (Inr q)"
          using h cr by (auto split: option.splits sum.splits if_splits)
        have "grows r t" using IH_re [OF grows_ok [OF R] grows_brace [OF R Suc.prems(2)] t(1)] .
        then have "grows r (re_skip t)" by (rule grows_then) (rule grows_skip)
        then show ?thesis using that t(2) by blast
      next
        case F40: False
        then obtain t where t: "re_element api c i r = Some (Inr t)" "re_subcompile_string api k (Some (nState p)) t = Some (Inr q)"
          using h cr False by (auto split: option.splits sum.splits)
        have "c \<noteq> 123" using re_read_brace [of p] cr Suc.prems(2) by auto
        then have "grows r t" using grows_element [OF g grows_ok [OF R] t(1)] i n by simp
        then show ?thesis using that t(2) by blast
      qed
      have S: "grows p s" using R s(1) by (rule grows_trans)
      then have "grows s q" using IH_str [OF grows_ok [OF S] grows_brace [OF S Suc.prems(2)] _ s(2)] by (simp add: grows_def)
      with S show ?thesis by (rule grows_trans)
    qed
  qed
  show ?case using re alt str by blast
qed simp

text \<open>Programs compiled from a text without \<^verbatim>\<open>{\<close> are programs that can be run.\<close>

lemma re_compile_prog_ok:
  assumes g: "granted api" and z: "CHR ''{'' \<notin> set z" and c: "re_compile api z nc = Some (err, Some pRe)" and l: "nState pRe \<le> 65536"
  shows "prog_ok (ops pRe)"
proof -
  let ?p0 = "\<lparr>sIn = [], zErr = None, ops = [], noCase = nc, zInit = [], nAlloc = 30\<rparr>"
  define p where "p = re_start api z ?p0"
  have "code_ok (ops p)" "set (sIn p) \<subseteq> set z"
    using g by (cases z; auto simp: p_def re_start_def re_append_ops leads_in_def intro!: code_ok_end [of "[]", simplified] code_ok_Nil)+
  then have p: "code_ok (ops p)" "CHR ''{'' \<notin> set (sIn p)" using z by auto
  obtain q where q: "re_subcompile_re api (3 * length (sIn p) + 3) p = Some (Inr q)" "re_finish api nc q = (err, Some pRe)"
    using c g unfolding re_compile_def re_resize_def granted_def p_def by (auto simp: Let_def split: option.splits sum.splits)
  have "grows p q" using subcompile_grows [OF g p, of "3 * length (sIn p) + 3" 0 None] q(1) by blast
  then have o: "code_ok (ops q)" by (rule grows_ok)
  obtain F where F: "ops pRe = F @ [(RE_OP_ACCEPT, 0)]" "code_ok F"
  proof (cases "rePeek q = CHR ''$'' \<and> length (sIn q) \<le> 1")
    case True
    then have "ops pRe = (ops q @ [(RE_OP_MATCH, 0)]) @ [(RE_OP_ACCEPT, 0)]" using q(2) g by (auto simp: re_finish_def Let_def re_append_ops)
    moreover have "code_ok (ops q @ [(RE_OP_MATCH, 0)])" using o by (auto simp: leads_in_def intro!: code_ok_end)
    ultimately show ?thesis using that by blast
  next
    case False
    then have "ops pRe = ops q @ [(RE_OP_ACCEPT, 0)]" using q(2) g by (auto simp: re_finish_def Let_def re_append_ops split: if_splits)
    then show ?thesis using that o by blast
  qed
  then show ?thesis using l by (simp add: prog_ok_accept)
qed

section \<open>Every search returns\<close>

lemma re_next_char_0: "z \<noteq> [] \<Longrightarrow> NUL \<notin> set z \<Longrightarrow> fst (re_next_char z) \<noteq> 0"
proof
  assume h: "z \<noteq> []" "NUL \<notin> set z" "fst (re_next_char z) = 0"
  then obtain b where "z = b # snd (re_next_char z)" "ord_char b = 0"
    using re_next_char_ascii [of z 0 "snd (re_next_char z)"] by (auto simp: prod_eq_iff)
  then have "z = b # snd (re_next_char z)" "b = NUL" using ord_char_inject [of b NUL] by (auto simp: ord_char_def)
  then show False using h(2) by (metis list.set_intros(1))
qed

lemma chars_not_0: "NUL \<notin> set z \<Longrightarrow> 0 \<notin> set (chars nc z)"
proof (induction nc z rule: chars.induct)
  case (1 nc z)
  show ?case
  proof (cases "z = []")
    case False
    obtain k where k: "snd (xNextChar nc z) = drop k z" using xNextChar_drop by blast
    have "fst (xNextChar nc z) \<noteq> 0" using re_next_char_0 [OF False 1(2)]
      by (auto simp: xNextChar_def re_next_char_nocase_def split: prod.splits)
    moreover have "NUL \<notin> set (snd (xNextChar nc z))" using 1(2) k by (metis in_set_dropD)
    ultimately show ?thesis using 1(1) [OF False] False by (subst chars.simps) auto
  qed simp
qed

lemma skip_init_suffix: "skip_init zi z = Some z' \<Longrightarrow> \<exists>y. z = y @ z'"
  by (induction zi z rule: skip_init.induct) (auto split: if_splits)

lemma re_match_run:
  assumes "granted api" "prog_ok (ops pRe)" "NUL \<notin> set s"
  shows "re_match api pRe s = Some (case (if zInit pRe \<noteq> [] then skip_init (zInit pRe) s else Some s) of
      None \<Rightarrow> 0 | Some z \<Rightarrow> if accepts (ops pRe) (0, 1, chars (noCase pRe) z @ [0]) then 1 else 0)"
proof (cases "if zInit pRe \<noteq> [] then skip_init (zInit pRe) s else Some s")
  case None
  then show ?thesis by (simp add: re_match_def)
next
  case (Some z)
  then have "set z \<subseteq> set s" using skip_init_suffix [of "zInit pRe" s z] by (auto split: if_splits)
  then have "0 \<notin> set (chars (noCase pRe) z)" using assms(3) by (intro chars_not_0) blast
  then have "re_run (ops pRe) (noCase pRe) 1 (re_add_state [] 0) z = Some (accepts (ops pRe) (0, 1, chars (noCase pRe) z @ [0]))"
    using assms(2) by (intro re_run_accepts) auto
  then show ?thesis using assms(1) Some by (simp add: re_match_def granted_def)
qed

text \<open>
  C10: Compiling returns for every text, a program or an error.  If memory is granted and the text has no
  \<^verbatim>\<open>{\<close>, the program leads into itself, so that matching it against any text ends with yes or no
  and never looks at an instruction outside the program, as long as the states fit into 16 bits.
\<close>

theorem regexp_terminates:
  "re_compile api z nc \<noteq> None \<and>
   (granted api \<longrightarrow> CHR ''{'' \<notin> set z \<longrightarrow> (\<forall>pRe s. re_compile api z nc = Some (None, Some pRe) \<longrightarrow> nState pRe \<le> 65536 \<longrightarrow> NUL \<notin> set s \<longrightarrow>
     re_match api pRe s = Some 0 \<or> re_match api pRe s = Some 1))"
  using re_compile_total [of api z nc] re_match_run [of api _ _] re_compile_prog_ok [of api z nc None]
  by (auto split: option.splits)

definition ample_api :: sqlite3_api_routines where
  "ample_api = ref_api\<lparr>malloc64 := (\<lambda>n. True)\<rparr>"

lemma granted_ample: "granted ample_api"
  by (simp add: granted_def ample_api_def)

lemma ample_api_spec: "api_spec ample_api"
  using api_spec_ref_api by (simp add: api_spec_def ample_api_def)

lemma regexp_terminates_witness:
  "\<exists>pRe. re_compile ample_api ''(a|b)+'' False = Some (None, Some pRe) \<and>
     (re_match ample_api pRe ''xb'' = Some 0 \<or> re_match ample_api pRe ''xb'' = Some 1)"
proof -
  let ?p = "the (snd (the (re_compile ample_api ''(a|b)+'' False)))"
  have "re_compile ample_api ''(a|b)+'' False = Some (None, Some ?p)" "nState ?p = 7" "CHR ''{'' \<notin> set ''(a|b)+''" "NUL \<notin> set ''xb''" by code_simp+
  then show ?thesis using regexp_terminates [of ample_api "''(a|b)+''" False] granted_ample by (intro exI [of _ ?p]) auto
qed

end
