(* ===== verification/Utf8.thy ===== *)
theory Utf8
  imports Regexp_Nfa
begin

text \<open>
  UTF-8 as RFC 3629 defines it, independent of the decoder of \<^verbatim>\<open>ext/misc/regexp.c\<close>, and what that decoder
  makes of it: the characters of the text, unless the last one has four bytes.
\<close>

section \<open>The encoding\<close>

text \<open>The characters of Unicode other than 0, which ends a text.\<close>

definition scalar :: "int \<Rightarrow> bool" where
  "scalar u \<longleftrightarrow> 0 < u \<and> u \<le> 0x10ffff \<and> \<not> (0xd800 \<le> u \<and> u \<le> 0xdfff)"

definition byte_char :: "int \<Rightarrow> char" where
  "byte_char b = char_of b"

definition utf8_char :: "int \<Rightarrow> string" where
  "utf8_char u = map byte_char
     (if u < 0x80 then [u]
      else if u < 0x800 then [0xc0 + u div 64, 0x80 + u mod 64]
      else if u < 0x10000 then [0xe0 + u div 64 div 64, 0x80 + u div 64 mod 64, 0x80 + u mod 64]
      else [0xf0 + u div 64 div 64 div 64, 0x80 + u div 64 div 64 mod 64, 0x80 + u div 64 mod 64, 0x80 + u mod 64])"

text \<open>The texts whose characters are decoded one by one: no character of four bytes is the last one.\<close>

definition encodes :: "int list \<Rightarrow> string \<Rightarrow> bool" where
  "encodes us z \<longleftrightarrow> list_all scalar us \<and> (us \<noteq> [] \<longrightarrow> last us < 0x10000) \<and> z = concat (map utf8_char us)"

text \<open>A character without regard to the case of the letters A to Z.\<close>

definition fold_case :: "bool \<Rightarrow> int \<Rightarrow> int" where
  "fold_case nc u = (if nc \<and> 65 \<le> u \<and> u \<le> 90 then u + 32 else u)"

section \<open>The decoder\<close>

lemma ord_byte_char: "0 \<le> b \<Longrightarrow> b < 256 \<Longrightarrow> ord_char (byte_char b) = b"
  by (simp add: ord_char_def byte_char_def)

lemma lead_bits:
  "0 \<le> a \<Longrightarrow> a < 32 \<Longrightarrow> (0xc0 + a) AND 0xe0 = (0xc0 :: int)" "0 \<le> a \<Longrightarrow> a < 32 \<Longrightarrow> (0xc0 + a) AND 0x1f = (a :: int)"
  "0 \<le> a \<Longrightarrow> a < 16 \<Longrightarrow> (0xe0 + a) AND 0xe0 = (0xe0 :: int)" "0 \<le> a \<Longrightarrow> a < 16 \<Longrightarrow> (0xe0 + a) AND 0xf0 = (0xe0 :: int)"
  "0 \<le> a \<Longrightarrow> a < 16 \<Longrightarrow> (0xe0 + a) AND 0x0f = (a :: int)" "0 \<le> a \<Longrightarrow> a < 8 \<Longrightarrow> (0xf0 + a) AND 0xe0 = (0xe0 :: int)"
  "0 \<le> a \<Longrightarrow> a < 8 \<Longrightarrow> (0xf0 + a) AND 0xf0 = (0xf0 :: int)" "0 \<le> a \<Longrightarrow> a < 8 \<Longrightarrow> (0xf0 + a) AND 0xf8 = (0xf0 :: int)"
  "0 \<le> a \<Longrightarrow> a < 8 \<Longrightarrow> (0xf0 + a) AND 0x07 = (a :: int)"
proof -
  have l: "\<forall>a \<in> set [0..31]. (0xc0 + a) AND 0xe0 = (0xc0 :: int) \<and> (0xc0 + a) AND 0x1f = a" by code_simp
  have m: "\<forall>a \<in> set [0..15]. (0xe0 + a) AND 0xe0 = (0xe0 :: int) \<and> (0xe0 + a) AND 0xf0 = 0xe0 \<and> (0xe0 + a) AND 0x0f = a" by code_simp
  have h: "\<forall>a \<in> set [0..7]. (0xf0 + a) AND 0xe0 = (0xe0 :: int) \<and> (0xf0 + a) AND 0xf0 = 0xf0 \<and> (0xf0 + a) AND 0xf8 = 0xf0 \<and> (0xf0 + a) AND 0x07 = a"
    by code_simp
  show "0 \<le> a \<Longrightarrow> a < 32 \<Longrightarrow> (0xc0 + a) AND 0xe0 = 0xc0" "0 \<le> a \<Longrightarrow> a < 32 \<Longrightarrow> (0xc0 + a) AND 0x1f = a"
    using bspec [OF l, of a] by simp_all
  show "0 \<le> a \<Longrightarrow> a < 16 \<Longrightarrow> (0xe0 + a) AND 0xe0 = 0xe0" "0 \<le> a \<Longrightarrow> a < 16 \<Longrightarrow> (0xe0 + a) AND 0xf0 = 0xe0"
    "0 \<le> a \<Longrightarrow> a < 16 \<Longrightarrow> (0xe0 + a) AND 0x0f = a"
    using bspec [OF m, of a] by simp_all
  show "0 \<le> a \<Longrightarrow> a < 8 \<Longrightarrow> (0xf0 + a) AND 0xe0 = 0xe0" "0 \<le> a \<Longrightarrow> a < 8 \<Longrightarrow> (0xf0 + a) AND 0xf0 = 0xf0"
    "0 \<le> a \<Longrightarrow> a < 8 \<Longrightarrow> (0xf0 + a) AND 0xf8 = 0xf0" "0 \<le> a \<Longrightarrow> a < 8 \<Longrightarrow> (0xf0 + a) AND 0x07 = a"
    using bspec [OF h, of a] by simp_all
qed

lemma cont_bits: "(0x80 + u mod 64) AND 0xc0 = (0x80 :: int)" "(0x80 + u mod 64) AND 0x3f = (u mod 64 :: int)"
proof -
  have "\<forall>a \<in> set [0..63]. (0x80 + a) AND 0xc0 = (0x80 :: int) \<and> (0x80 + a) AND 0x3f = a" by code_simp
  from bspec [OF this, of "u mod 64"]
  show "(0x80 + u mod 64) AND 0xc0 = 0x80" "(0x80 + u mod 64) AND 0x3f = u mod 64" by simp_all
qed

lemma cont_byte: "cont (x # z) (Suc k) = cont z k" "cont (byte_char (0x80 + u mod 64) # z) 0"
  "low6 (x # z) (Suc k) = low6 z k" "low6 (byte_char (0x80 + u mod 64) # z) 0 = u mod 64"
proof -
  have "0 \<le> 0x80 + u mod 64" "0x80 + u mod 64 < 256" using pos_mod_bound [of 64 u] by simp_all
  from ord_byte_char [OF this] show "cont (byte_char (0x80 + u mod 64) # z) 0" "low6 (byte_char (0x80 + u mod 64) # z) 0 = u mod 64"
    by (simp_all add: cont_def low6_def cont_bits)
qed (simp_all add: cont_def low6_def)

text \<open>Digits to the base 64 put together.\<close>

lemma or_push: "push_bit 6 x OR (u mod 64) = 64 * x + u mod 64" for u :: int
  using concat_bit_eq [of 6 "u mod 64" x] by (simp add: concat_bit_def or.commute push_bit_eq_mult take_bit_eq_mod)

lemma join2: "push_bit 6 (u div 64) OR (u mod 64) = u" for u :: int
  by (simp add: or_push)

lemma join3: "push_bit 12 (u div 64 div 64) OR push_bit 6 (u div 64 mod 64) OR (u mod 64) = u" for u :: int
proof -
  have "push_bit 12 (u div 64 div 64) OR push_bit 6 (u div 64 mod 64) = push_bit 6 (u div 64)"
    using arg_cong [OF join2 [of "u div 64"], of "push_bit 6"] by simp
  then show ?thesis using join2 [of u] by (simp only: or.assoc [symmetric])
qed

lemma join4: "push_bit 18 (u div 64 div 64 div 64) OR push_bit 12 (u div 64 div 64 mod 64) OR push_bit 6 (u div 64 mod 64) OR (u mod 64) = u" for u :: int
proof -
  have "push_bit 18 (u div 64 div 64 div 64) OR push_bit 12 (u div 64 div 64 mod 64) = push_bit 12 (u div 64 div 64)"
    using arg_cong [OF join2 [of "u div 64 div 64"], of "push_bit 12"] by simp
  then show ?thesis using join3 [of u] by (simp only: or.assoc [symmetric])
qed

lemma re_next_char_scalar:
  assumes "scalar u" "u < 0x10000 \<or> z \<noteq> []"
  shows "re_next_char (utf8_char u @ z) = (u, z)"
proof -
  consider "u < 0x80" | "0x80 \<le> u" "u < 0x800" | "0x800 \<le> u" "u < 0x10000" | "0x10000 \<le> u" by linarith
  then show ?thesis
  proof cases
    case 1
    then show ?thesis using assms(1) by (simp add: utf8_char_def scalar_def ord_byte_char)
  next
    case 2
    then have a: "0 \<le> u div 64" "u div 64 < 32" by linarith+
    then have "ord_char (byte_char (0xc0 + u div 64)) = 0xc0 + u div 64" by (simp add: ord_byte_char)
    then show ?thesis using 2 by (simp add: utf8_char_def Let_def lead_bits(1,2) [OF a] cont_byte join2)
  next
    case 3
    then have a: "0 \<le> u div 64 div 64" "u div 64 div 64 < 16" by linarith+
    then have "ord_char (byte_char (0xe0 + u div 64 div 64)) = 0xe0 + u div 64 div 64" by (simp add: ord_byte_char)
    then show ?thesis using 3 assms(1) by (simp add: utf8_char_def Let_def lead_bits(3-5) [OF a] cont_byte join3 scalar_def)
  next
    case 4
    then have a: "0 \<le> u div 64 div 64 div 64" "u div 64 div 64 div 64 < 8" using assms(1) unfolding scalar_def by linarith+
    then have "ord_char (byte_char (0xf0 + u div 64 div 64 div 64)) = 0xf0 + u div 64 div 64 div 64" by (simp add: ord_byte_char)
    then show ?thesis using 4 assms by (simp add: utf8_char_def Let_def lead_bits(6-9) [OF a] cont_byte numeral_2_eq_2 join4 scalar_def)
  qed
qed

lemma xNextChar_scalar: "scalar u \<Longrightarrow> u < 0x10000 \<or> z \<noteq> [] \<Longrightarrow> xNextChar nc (utf8_char u @ z) = (fold_case nc u, z)"
  by (simp add: xNextChar_def re_next_char_nocase_def fold_case_def re_next_char_scalar)

lemma utf8_char_not_Nil [simp]: "utf8_char u \<noteq> []"
  by (simp add: utf8_char_def)

lemma chars_encoded: "encodes us z \<Longrightarrow> chars nc z = map (fold_case nc) us"
proof (induction us arbitrary: z)
  case (Cons u us)
  define y where "y = concat (map utf8_char us)"
  have y: "encodes us y" "z = utf8_char u @ y" "scalar u" "u < 0x10000 \<or> y \<noteq> []"
    using Cons.prems by (auto simp: encodes_def y_def)
  then show ?case using Cons.IH [OF y(1)] xNextChar_scalar [OF y(3,4)] by (subst chars.simps) simp
qed (simp add: encodes_def)

end
