(* ===== verification/Regexp_Syntax.thy ===== *)
theory Regexp_Syntax
  imports Regexp_Compile Utf8
begin

text \<open>
  The syntax of regular expressions, as the comment at the top of \<^verbatim>\<open>ext/misc/regexp.c\<close> describes it, and
  the code the compiler builds for it: the code \<open>rx_code\<close> of the expression a text stands for.

  The grammar reads a text from the left: its predicates relate a text, what its beginning means, and the
  rest.  It has every construct of that comment except \<^verbatim>\<open>X{0,q}\<close> with \<open>q\<close> of at least 2 and
  a repetition that is applied to a repetition without parentheses, for both of which the compiler builds other code.
  Characters are those of UTF-8; without regard to case a capital letter stands for the small one, a range
  for the one between the small letters, and capital letters written as escapes are left out.
\<close>

section \<open>Grammar\<close>

text \<open>After a backslash: a C escape, a hexadecimal number, or a character that would be special.\<close>

definition hex_digits :: "(char \<times> int) list" where
  "hex_digits = zip ''0123456789abcdef'' [0..15] @ zip ''ABCDEF'' [10..15]"

definition hex_number :: "string \<Rightarrow> int \<Rightarrow> bool" where
  "hex_number h v \<longleftrightarrow> (\<exists>vs. list_all2 (\<lambda>c d. (c, d) \<in> set hex_digits) h vs \<and> v = foldl (\<lambda>v d. 16 * v + d) 0 vs)"

inductive escaped :: "string \<Rightarrow> int \<Rightarrow> string \<Rightarrow> bool" where
  esc_u: "length h = 4 \<Longrightarrow> hex_number h v \<Longrightarrow> escaped (CHR ''u'' # h @ z) v z"
| esc_x: "length h = 2 \<Longrightarrow> hex_number h v \<Longrightarrow> escaped (CHR ''x'' # h @ z) v z"
| esc_a: "escaped (CHR ''a'' # z) 7 z"
| esc_f: "escaped (CHR ''f'' # z) 12 z"
| esc_n: "escaped (CHR ''n'' # z) 10 z"
| esc_r: "escaped (CHR ''r'' # z) 13 z"
| esc_t: "escaped (CHR ''t'' # z) 9 z"
| esc_v: "escaped (CHR ''v'' # z) 11 z"
| esc_self: "c \<in> set (CHR 0x5C # ''()*.+?[$^{|}]'') \<Longrightarrow> escaped (c # z) (ord_char c) z"

text \<open>A character of a class, written as itself or escaped.\<close>

inductive class_char :: "bool \<Rightarrow> string \<Rightarrow> int \<Rightarrow> string \<Rightarrow> bool" for nc where
  class_plain: "scalar u \<Longrightarrow> u < 0x10000 \<or> z \<noteq> [] \<Longrightarrow> u \<noteq> 92 \<Longrightarrow> class_char nc (utf8_char u @ z) (fold_case nc u) z"
| class_esc: "escaped z c z' \<Longrightarrow> c \<noteq> 0 \<Longrightarrow> fold_case nc c = c \<Longrightarrow> class_char nc (CHR 0x5C # z) c z'"

definition posix_class :: "string \<Rightarrow> bool" where
  "posix_class z \<longleftrightarrow> take 2 z = ''[:''"

inductive class_member_syn :: "bool \<Rightarrow> string \<Rightarrow> re_member \<Rightarrow> string \<Rightarrow> bool" for nc where
  mem_one: "class_char nc z c z' \<Longrightarrow> cur z' \<noteq> CHR ''-'' \<Longrightarrow> \<not> posix_class z \<Longrightarrow> class_member_syn nc z (Val c) z'"
| mem_range: "class_char nc z c (CHR ''-'' # y) \<Longrightarrow> class_char nc y d z' \<Longrightarrow> \<not> posix_class z \<Longrightarrow>
    class_member_syn nc z (Range c d) z'"

text \<open>The members up to the bracket that closes the class; a bracket right at the beginning is a member.\<close>

inductive class_syn :: "bool \<Rightarrow> string \<Rightarrow> re_member list \<Rightarrow> string \<Rightarrow> bool" for nc where
  class_last: "class_member_syn nc z m (CHR '']'' # z') \<Longrightarrow> class_syn nc z [m] z'"
| class_more: "class_member_syn nc z m y \<Longrightarrow> cur y \<noteq> CHR '']'' \<Longrightarrow> class_syn nc y ms z' \<Longrightarrow> class_syn nc z (m # ms) z'"

text \<open>A count in decimal that fits into an \<^verbatim>\<open>int\<close>.\<close>

definition count_value :: "string \<Rightarrow> int" where
  "count_value ds = foldl (\<lambda>m b. m * 10 + ord_char b - 48) 0 ds"

definition count_ok :: "string \<Rightarrow> bool" where
  "count_ok ds \<longleftrightarrow> list_all isdigit ds \<and> count_value ds < 2 ^ 31"

fun power_rx :: "rx \<Rightarrow> nat \<Rightarrow> rx" where
  "power_rx r 0 = Eps"
| "power_rx r (Suc k) = Seq r (power_rx r k)"

text \<open>Between \<open>m\<close> and \<open>n\<close> times, and at least \<open>m\<close> times.\<close>

definition between_rx :: "rx \<Rightarrow> nat \<Rightarrow> nat \<Rightarrow> rx" where
  "between_rx r m n = Seq (power_rx r m) (power_rx (Opt r) (n - m))"

definition at_least_rx :: "rx \<Rightarrow> nat \<Rightarrow> rx" where
  "at_least_rx r m = Seq (power_rx r (m - 1)) (Plus r)"

definition plain :: "int \<Rightarrow> bool" where
  "plain c \<longleftrightarrow> c \<notin> {0} \<union> ord_char ` set (CHR 0x5C # ''.*+?{[()|$'')"

text \<open>What ends a string of elements.\<close>

definition at_end :: "string \<Rightarrow> bool" where
  "at_end z \<longleftrightarrow> z = [] \<or> cur z \<in> set ''|$)''"

definition special_rx :: "(char \<times> rx) list" where
  "special_rx =
     [(CHR ''b'', Boundary), (CHR ''d'', Test (DigitChar True)), (CHR ''D'', Test (DigitChar False)),
      (CHR ''s'', Test (SpaceChar True)), (CHR ''S'', Test (SpaceChar False)),
      (CHR ''w'', Test (WordChar True)), (CHR ''W'', Test (WordChar False))]"

text \<open>Elements, repetitions after an element, strings of elements, and alternatives.\<close>

inductive suffix_syn :: "string \<Rightarrow> (rx \<Rightarrow> rx) \<Rightarrow> string \<Rightarrow> bool" where
  suf_star: "suffix_syn (CHR ''*'' # z) Star z"
| suf_plus: "suffix_syn (CHR ''+'' # z) Plus z"
| suf_opt: "suffix_syn (CHR ''?'' # z) Opt z"
| suf_times: "count_ok ms \<Longrightarrow> count_value ms = int m \<Longrightarrow> 0 < m \<Longrightarrow>
    suffix_syn (CHR ''{'' # ms @ CHR ''}'' # z) (\<lambda>r. between_rx r m m) z"
| suf_between: "count_ok ms \<Longrightarrow> count_value ms = int m \<Longrightarrow> 0 < m \<or> n = 1 \<Longrightarrow> count_ok ns \<Longrightarrow> count_value ns = int n \<Longrightarrow> 0 < n \<Longrightarrow> m \<le> n \<Longrightarrow>
    suffix_syn (CHR ''{'' # ms @ CHR '','' # ns @ CHR ''}'' # z) (\<lambda>r. between_rx r m n) z"
| suf_at_least: "count_ok ms \<Longrightarrow> count_value ms = int m \<Longrightarrow> 0 < m \<Longrightarrow>
    suffix_syn (CHR ''{'' # ms @ CHR '','' # CHR ''}'' # z) (\<lambda>r. at_least_rx r m) z"

inductive elem_syn :: "bool \<Rightarrow> string \<Rightarrow> rx \<Rightarrow> string \<Rightarrow> bool"
  and string_syn :: "bool \<Rightarrow> string \<Rightarrow> rx \<Rightarrow> string \<Rightarrow> bool"
  and re_syn :: "bool \<Rightarrow> string \<Rightarrow> rx \<Rightarrow> string \<Rightarrow> bool"
for nc where
  el_char: "scalar u \<Longrightarrow> u < 0x10000 \<or> z \<noteq> [] \<Longrightarrow> plain u \<Longrightarrow> elem_syn nc (utf8_char u @ z) (Test (Is (fold_case nc u))) z"
| el_any: "cur z \<noteq> CHR ''*'' \<Longrightarrow> elem_syn nc (CHR ''.'' # z) (Test AnyChar) z"
| el_anystar: "elem_syn nc (CHR ''.'' # CHR ''*'' # z) AnyStar z"
| el_special: "(c, r) \<in> set special_rx \<Longrightarrow> elem_syn nc (CHR 0x5C # c # z) r z"
| el_esc: "escaped z c z' \<Longrightarrow> c \<noteq> 0 \<Longrightarrow> fold_case nc c = c \<Longrightarrow> elem_syn nc (CHR 0x5C # z) (Test (Is c)) z'"
| el_class: "class_syn nc z ms z' \<Longrightarrow> cur z \<noteq> CHR ''^'' \<Longrightarrow> elem_syn nc (CHR ''['' # z) (Test (OneOf True ms)) z'"
| el_class_not: "class_syn nc z ms z' \<Longrightarrow> elem_syn nc (CHR ''['' # CHR ''^'' # z) (Test (OneOf False ms)) z'"
| el_group: "re_syn nc z r (CHR '')'' # z') \<Longrightarrow> elem_syn nc (CHR ''('' # z) r z'"
| str_end: "at_end z \<Longrightarrow> string_syn nc z Eps z"
| str_elem: "elem_syn nc z r y \<Longrightarrow> string_syn nc y s z' \<Longrightarrow> string_syn nc z (Seq r s) z'"
| str_suffix: "elem_syn nc z r y \<Longrightarrow> suffix_syn y f x \<Longrightarrow> string_syn nc x s z' \<Longrightarrow> string_syn nc z (Seq (f r) s) z'"
| re_one: "string_syn nc z r z' \<Longrightarrow> re_syn nc z r z'"
| re_alt: "re_syn nc z r (CHR ''|'' # y) \<Longrightarrow> string_syn nc y s z' \<Longrightarrow> re_syn nc z (Alt r s) z'"

text \<open>A whole pattern.\<close>

inductive pattern_syn :: "bool \<Rightarrow> string \<Rightarrow> bool \<Rightarrow> rx \<Rightarrow> bool \<Rightarrow> bool" for nc where
  pat_anywhere: "re_syn nc z r (if e then ''$'' else []) \<Longrightarrow> cur z \<noteq> CHR ''^'' \<Longrightarrow> pattern_syn nc z False r e"
| pat_start: "re_syn nc z r (if e then ''$'' else []) \<Longrightarrow> pattern_syn nc (CHR ''^'' # z) True r e"

section \<open>The compiler's functions without the number of tries\<close>

definition runs_re :: "sqlite3_api_routines \<Rightarrow> ReCompiled \<Rightarrow> string + ReCompiled \<Rightarrow> bool" where
  "runs_re api p R \<longleftrightarrow> (\<exists>k. re_subcompile_re api k p = Some R)"

definition runs_alt :: "sqlite3_api_routines \<Rightarrow> nat \<Rightarrow> ReCompiled \<Rightarrow> string + ReCompiled \<Rightarrow> bool" where
  "runs_alt api j p R \<longleftrightarrow> (\<exists>k. re_alternatives api k j p = Some R)"

definition runs_str :: "sqlite3_api_routines \<Rightarrow> nat option \<Rightarrow> ReCompiled \<Rightarrow> string + ReCompiled \<Rightarrow> bool" where
  "runs_str api i p R \<longleftrightarrow> (\<exists>k. re_subcompile_string api k i p = Some R)"

lemma subcompile_mono:
  assumes "k \<le> l"
  shows "re_subcompile_re api k p = Some x \<Longrightarrow> re_subcompile_re api l p = Some x"
    "re_alternatives api k j p = Some x \<Longrightarrow> re_alternatives api l j p = Some x"
    "re_subcompile_string api k i p = Some x \<Longrightarrow> re_subcompile_string api l i p = Some x"
  using assms by (induction l rule: dec_induct) (use subcompile_Suc in blast)+

lemma runs_re_tries: "runs_re api p R \<Longrightarrow> re_subcompile_re api (3 * length (sIn p) + 3) p = Some R"
proof -
  assume "runs_re api p R"
  then obtain k where k: "re_subcompile_re api k p = Some R" by (auto simp: runs_re_def)
  obtain R' where R': "re_subcompile_re api (3 * length (sIn p) + 3) p = Some R'"
    using subcompile_total [of p "3 * length (sIn p) + 3" api 0 None] by auto
  let ?m = "max k (3 * length (sIn p) + 3)"
  have "re_subcompile_re api ?m p = Some R" "re_subcompile_re api ?m p = Some R'"
    by (rule subcompile_mono(1) [OF _ k], simp) (rule subcompile_mono(1) [OF _ R'], simp)
  then show ?thesis using R' by simp
qed

lemma runs_re_intro:
  assumes "runs_str api None p (Inr q)" "runs_alt api (nState p) q R"
  shows "runs_re api p R"
proof -
  obtain k l where k: "re_subcompile_string api k None p = Some (Inr q)" and l: "re_alternatives api l (nState p) q = Some R"
    using assms by (auto simp: runs_str_def runs_alt_def)
  have "re_subcompile_string api (max k l) None p = Some (Inr q)" by (rule subcompile_mono(3) [OF _ k]) simp
  moreover have "re_alternatives api (max k l) (nState p) q = Some R" by (rule subcompile_mono(2) [OF _ l]) simp
  ultimately have "re_subcompile_re api (Suc (max k l)) p = Some R" by simp
  then show ?thesis unfolding runs_re_def by blast
qed

lemma runs_alt_stop: "rePeek p \<noteq> CHR ''|'' \<Longrightarrow> runs_alt api j p (Inr p)"
proof -
  assume "rePeek p \<noteq> CHR ''|''"
  then have "re_alternatives api (Suc 0) j p = Some (Inr p)" by simp
  then show ?thesis unfolding runs_alt_def by blast
qed

text \<open>The state in which the next alternative is compiled, and the end of one.\<close>

definition alt_open :: "sqlite3_api_routines \<Rightarrow> nat \<Rightarrow> ReCompiled \<Rightarrow> nat \<times> ReCompiled" where
  "alt_open api j p = re_append api (snd (re_insert api p j RE_OP_FORK (int (nState p) + 2 - int j))) RE_OP_GOTO 0"

lemma runs_alt_more:
  assumes "rePeek p = CHR ''|''" "runs_str api None (re_skip (snd (alt_open api j p))) (Inr q)"
    "runs_alt api j (set_arg q (fst (alt_open api j p)) (int (nState q) - int (fst (alt_open api j p)))) R"
  shows "runs_alt api j p R"
proof -
  let ?g = "alt_open api j p" and ?q = "set_arg q (fst (alt_open api j p)) (int (nState q) - int (fst (alt_open api j p)))"
  obtain k l where k: "re_subcompile_string api k None (re_skip (snd ?g)) = Some (Inr q)" and l: "re_alternatives api l j ?q = Some R"
    using assms(2,3) by (auto simp: runs_str_def runs_alt_def)
  have "re_subcompile_string api (max k l) None (re_skip (snd ?g)) = Some (Inr q)" by (rule subcompile_mono(3) [OF _ k]) simp
  moreover have "re_alternatives api (max k l) j ?q = Some R" by (rule subcompile_mono(2) [OF _ l]) simp
  ultimately have "re_alternatives api (Suc (max k l)) j p = Some R"
    using assms(1) by (simp add: alt_open_def Let_def split_beta)
  then show ?thesis unfolding runs_alt_def by blast
qed

lemma runs_str_end: "at_end (sIn p) \<Longrightarrow> runs_str api i p (Inr p)"
proof -
  assume h: "at_end (sIn p)"
  have "re_subcompile_string api (Suc 0) i p = Some (Inr p)"
  proof (cases "sIn p")
    case Nil
    then show ?thesis by (simp add: re_read_def)
  next
    case (Cons c z)
    then have "c \<in> set ''|$)''" using h by (simp add: at_end_def)
    then show ?thesis using Cons by (auto simp: re_read_def xNextChar_def re_next_char_nocase_def ord_char_def)
  qed
  then show ?thesis unfolding runs_str_def by blast
qed

lemma runs_str_element:
  assumes "re_read p = (c, q)" "c \<notin> {0, 124, 36, 41, 40}" "re_element api c i q = Some (Inr q')" "runs_str api (Some (nState p)) q' R"
  shows "runs_str api i p R"
proof -
  obtain k where "re_subcompile_string api k (Some (nState p)) q' = Some R" using assms(4) by (auto simp: runs_str_def)
  then have "re_subcompile_string api (Suc k) i p = Some R" using assms(1-3) by simp
  then show ?thesis unfolding runs_str_def by blast
qed

lemma runs_str_group:
  assumes "re_read p = (40, q)" "runs_re api q (Inr q')" "rePeek q' = CHR '')''" "runs_str api (Some (nState p)) (re_skip q') R"
  shows "runs_str api i p R"
proof -
  obtain k l where k: "re_subcompile_re api k q = Some (Inr q')" and l: "re_subcompile_string api l (Some (nState p)) (re_skip q') = Some R"
    using assms(2,4) by (auto simp: runs_re_def runs_str_def)
  have "re_subcompile_re api (max k l) q = Some (Inr q')" by (rule subcompile_mono(1) [OF _ k]) simp
  moreover have "re_subcompile_string api (max k l) (Some (nState p)) (re_skip q') = Some R" by (rule subcompile_mono(3) [OF _ l]) simp
  ultimately have "re_subcompile_string api (Suc (max k l)) i p = Some R" using assms(1,3) by simp
  then show ?thesis unfolding runs_str_def by blast
qed

section \<open>States of the compiler\<close>

text \<open>\<open>q\<close> is \<open>p\<close> with the text \<open>z\<close> still to read and the code \<open>F\<close> added.\<close>

definition becomes :: "ReCompiled \<Rightarrow> string \<Rightarrow> re_prog \<Rightarrow> ReCompiled \<Rightarrow> bool" where
  "becomes p z F q \<longleftrightarrow> sIn q = z \<and> ops q = ops p @ F \<and> noCase q = noCase p \<and> zErr q = zErr p"

lemma becomes_trans: "becomes p y F q \<Longrightarrow> becomes q z G r \<Longrightarrow> becomes p z (F @ G) r"
  by (simp add: becomes_def)

lemma becomes_read:
  "becomes p y F q \<Longrightarrow> fst (re_read q) = fst (xNextChar (noCase p) y)"
  "becomes p y F q \<Longrightarrow> becomes p (snd (xNextChar (noCase p) y)) F (snd (re_read q))"
  by (auto simp: becomes_def re_read_def split: prod.splits)

lemma becomes_skip: "becomes p (c # z) F q \<Longrightarrow> becomes p z F (re_skip q)"
  by (simp add: becomes_def re_skip_def)

lemma becomes_peek: "becomes p z F q \<Longrightarrow> rePeek q = cur z"
  by (simp add: becomes_def rePeek_def)

lemma re_insert_zErr [simp]: "zErr (snd (re_insert api p i oper x)) = zErr p"
  by (auto simp: re_insert_def re_resize_def Let_def split: prod.splits if_splits)

lemma re_append_zErr [simp]: "zErr (snd (re_append api p oper x)) = zErr p"
  by (simp add: re_append_def)

lemma becomes_append:
  "granted api \<Longrightarrow> becomes p z F q \<Longrightarrow> becomes p z (F @ [(oper, x)]) (snd (re_append api q oper x))"
  by (simp add: becomes_def re_append_ops)

lemma becomes_insert:
  "granted api \<Longrightarrow> becomes p z F q \<Longrightarrow> becomes p z ((oper, x) # F) (snd (re_insert api q (nState p) oper x))"
  by (simp add: becomes_def re_insert_ops)

lemma becomes_set_arg:
  "becomes p z (F @ (oper, x) # G) q \<Longrightarrow> i = nState p + length F \<Longrightarrow> becomes p z (F @ (oper, y) # G) (set_arg q i y)"
  by (simp add: becomes_def set_arg_def nth_append list_update_append)

lemma becomes_self: "sIn p = z \<Longrightarrow> becomes p z [] p"
  by (simp add: becomes_def)

text \<open>Characters that are single bytes.\<close>

definition low_byte :: "char \<Rightarrow> bool" where
  "low_byte c \<longleftrightarrow> ord_char c < 65 \<or> (90 < ord_char c \<and> ord_char c < 128)"

lemma xNextChar_low: "low_byte c \<Longrightarrow> xNextChar nc (c # z) = (ord_char c, z)"
  by (auto simp: low_byte_def xNextChar_def re_next_char_nocase_def)

lemma re_read_low:
  assumes "becomes p (c # z) F q" "low_byte c"
  obtains r where "re_read q = (ord_char c, r)" "becomes p z F r"
  using becomes_read [OF assms(1)] xNextChar_low [OF assms(2), of "noCase p" z] by (metis fst_conv snd_conv prod.exhaust_sel)

section \<open>Escapes and classes\<close>

lemma re_esc_char_simple:
  assumes "becomes p (d # z) F q" "d \<noteq> CHR ''u''" "d \<noteq> CHR ''x''" "length (takeWhile (\<lambda>e. e \<noteq> d) zEsc) = i" "i < length zEsc"
  shows "fst (re_esc_char q) = (if i < 6 then zTrans ! i else ord_char d) \<and> becomes p z F (snd (re_esc_char q))"
  using assms by (simp add: re_esc_char_def becomes_def Let_def)

lemma re_esc_char_hex:
  assumes "becomes p (d # h @ z) F q" "d = CHR ''u'' \<and> length h = 4 \<or> d = CHR ''x'' \<and> length h = 2" "re_hexes h 0 = Some v"
  shows "fst (re_esc_char q) = v \<and> becomes p z F (snd (re_esc_char q))"
proof -
  have "CHR ''x'' \<noteq> CHR ''u''" by simp
  then show ?thesis using assms by (elim disjE conjE) (simp_all only: re_esc_char_def becomes_def Let_def list.case append_eq_conv_conj,
    simp_all)
qed

lemma hex_number_re_hexes: "hex_number h v \<Longrightarrow> re_hexes h 0 = Some v"
proof -
  have d: "re_hex (ord_char c) a = Some (16 * a + d)" if "(c, d) \<in> set hex_digits" for c d a
  proof -
    have "\<forall>x \<in> set hex_digits. 48 \<le> ord_char (fst x) \<and> ord_char (fst x) \<le> 57 \<and> snd x = ord_char (fst x) - 48 \<or>
        97 \<le> ord_char (fst x) \<and> ord_char (fst x) \<le> 102 \<and> snd x = ord_char (fst x) - 87 \<or>
        65 \<le> ord_char (fst x) \<and> ord_char (fst x) \<le> 70 \<and> snd x = ord_char (fst x) - 55" by code_simp
    from bspec [OF this that] show ?thesis by (auto simp: re_hex_def)
  qed
  have "list_all2 (\<lambda>c d. (c, d) \<in> set hex_digits) h vs \<Longrightarrow> re_hexes h a = Some (foldl (\<lambda>v d. 16 * v + d) a vs)" for a vs
    by (induction h vs arbitrary: a rule: list_all2_induct) (simp_all add: d)
  then show "hex_number h v \<Longrightarrow> re_hexes h 0 = Some v" by (auto simp: hex_number_def)
qed

lemma re_esc_char_escaped:
  assumes e: "escaped y c z" and b: "becomes p y F q"
  shows "fst (re_esc_char q) = c \<and> becomes p z F (snd (re_esc_char q))"
  using e
proof cases
  case (esc_u h)
  then show ?thesis using b re_esc_char_hex [of p _ h z F q] hex_number_re_hexes by simp
next
  case (esc_x h)
  then show ?thesis using b re_esc_char_hex [of p _ h z F q] hex_number_re_hexes by simp
next
  case (esc_self d)
  have i: "\<forall>d \<in> set (CHR 0x5C # ''()*.+?[$^{|}]''). 6 \<le> length (takeWhile (\<lambda>e. e \<noteq> d) zEsc) \<and>
      length (takeWhile (\<lambda>e. e \<noteq> d) zEsc) < length zEsc \<and> d \<noteq> CHR ''u'' \<and> d \<noteq> CHR ''x''"
    by code_simp
  show ?thesis using re_esc_char_simple [OF b [unfolded esc_self(1)] _ _ refl] bspec [OF i esc_self(3)] esc_self(2) by simp
next
  case esc_a
  show ?thesis using re_esc_char_simple [OF b [unfolded esc_a(1)], of 0] esc_a(2) by (simp add: zEsc_def zTrans_def)
next
  case esc_f
  show ?thesis using re_esc_char_simple [OF b [unfolded esc_f(1)], of 1] esc_f(2) by (simp add: zEsc_def zTrans_def)
next
  case esc_n
  show ?thesis using re_esc_char_simple [OF b [unfolded esc_n(1)], of 2] esc_n(2) by (simp add: zEsc_def zTrans_def)
next
  case esc_r
  show ?thesis using re_esc_char_simple [OF b [unfolded esc_r(1)], of 3] esc_r(2) by (simp add: zEsc_def zTrans_def)
next
  case esc_t
  show ?thesis using re_esc_char_simple [OF b [unfolded esc_t(1)], of 4] esc_t(2) by (simp add: zEsc_def zTrans_def)
next
  case esc_v
  show ?thesis using re_esc_char_simple [OF b [unfolded esc_v(1)], of 5] esc_v(2) by (simp add: zEsc_def zTrans_def)
qed

lemma esc_if_class_char:
  assumes "class_char (noCase p) y c z" "becomes p y F q"
  shows "fst (esc_if (re_read q)) = c \<and> becomes p z F (snd (esc_if (re_read q))) \<and> fst (re_read q) \<noteq> 0"
  using assms(1)
proof cases
  case (class_plain u)
  have "xNextChar (noCase p) y = (c, z)" unfolding class_plain(1,2) by (rule xNextChar_scalar [OF class_plain(3,4)])
  moreover have "c \<noteq> 92" "c \<noteq> 0" using class_plain by (auto simp: fold_case_def scalar_def split: if_splits)
  ultimately show ?thesis using becomes_read [OF assms(2)] by (simp add: esc_if_def)
next
  case (class_esc y')
  have "low_byte (CHR 0x5C)" by (simp add: low_byte_def ord_char_def)
  then obtain r where r: "re_read q = (ord_char (CHR 0x5C), r)" "becomes p y' F r" using re_read_low assms(2) class_esc(1) by metis
  then show ?thesis using re_esc_char_escaped [OF class_esc(2) r(2)] by (simp add: esc_if_def ord_char_def)
qed

lemma xNextChar_bracket:
  assumes "xNextChar nc z = (91, y)"
  shows "z = CHR ''['' # y"
proof -
  obtain d where d: "re_next_char z = (d, y)" "d = 91"
    using assms by (auto simp: xNextChar_def re_next_char_nocase_def split: prod.splits if_splits)
  have "z \<noteq> []" using assms by auto
  then obtain b where "z = b # y" "ord_char b = ord_char (CHR ''['')" using re_next_char_ascii [OF d(1)] d(2) by (auto simp: ord_char_def)
  then show ?thesis by simp
qed

lemma fold_case_pos: "scalar u \<Longrightarrow> 0 < fold_case nc u"
  by (simp add: fold_case_def scalar_def)

lemma class_char_not_0: "class_char nc z c z' \<Longrightarrow> c \<noteq> 0"
  by (erule class_char.cases; simp add: fold_case_pos [THEN less_imp_neq, THEN not_sym])

lemma class_member_correct:
  assumes g: "granted api" and m: "class_member_syn (noCase p) z m y" and b: "becomes p z F q"
  shows "fst (class_member api (re_read q)) \<noteq> 0 \<and> becomes p y (F @ member_code m) (snd (class_member api (re_read q)))"
  using m
proof cases
  case (mem_one c)
  note E = esc_if_class_char [OF mem_one(2) b]
  have "rePeek (snd (esc_if (re_read q))) \<noteq> CHR ''-''" using E becomes_peek mem_one(3) by metis
  then show ?thesis using E becomes_append [OF g, of p y F] class_char_not_0 [OF mem_one(2)] mem_one(1)
    by (simp add: class_member_def Let_def split_beta)
next
  case (mem_range c y' d)
  note E = esc_if_class_char [OF mem_range(2) b]
  have pk: "rePeek (snd (esc_if (re_read q))) = CHR ''-''" using E becomes_peek by fastforce
  let ?r = "re_skip (snd (re_append api (snd (esc_if (re_read q))) RE_OP_CC_RANGE c))"
  have "becomes p y' (F @ [(RE_OP_CC_RANGE, c)]) ?r" using E becomes_append [OF g] becomes_skip by blast
  note D = esc_if_class_char [OF mem_range(3) this]
  then have "becomes p y (F @ [(RE_OP_CC_RANGE, c), (RE_OP_CC_RANGE, d)]) (snd (re_append api (snd (esc_if (re_read ?r))) RE_OP_CC_RANGE d))"
    using becomes_append [OF g, of p y "F @ [(RE_OP_CC_RANGE, c)]"] by simp
  then show ?thesis using D E pk class_char_not_0 [OF mem_range(3)] mem_range(1)
    by (simp add: class_member_def Let_def split_beta)
qed

lemma class_member_start:
  assumes m: "class_member_syn (noCase p) z m y" and b: "becomes p z F q"
  shows "fst (re_read q) \<noteq> 0" "\<not> (fst (re_read q) = 91 \<and> rePeek (snd (re_read q)) = CHR '':'')"
proof -
  show "fst (re_read q) \<noteq> 0" using m b by cases (use esc_if_class_char in blast)+
  show "\<not> (fst (re_read q) = 91 \<and> rePeek (snd (re_read q)) = CHR '':'')"
  proof
    assume h: "fst (re_read q) = 91 \<and> rePeek (snd (re_read q)) = CHR '':''"
    then have z: "z = CHR ''['' # snd (xNextChar (noCase p) z)"
      using becomes_read [OF b] by (intro xNextChar_bracket [of "noCase p"]) (simp add: prod_eq_iff)
    moreover have "cur (snd (xNextChar (noCase p) z)) = CHR '':''" using h becomes_peek [OF becomes_read(2) [OF b]] by simp
    then obtain v where "snd (xNextChar (noCase p) z) = CHR '':'' # v" by (cases "snd (xNextChar (noCase p) z)") auto
    ultimately have "z = CHR ''['' # CHR '':'' # v" by metis
    then have "posix_class z" by (simp add: posix_class_def)
    then show False using m by (auto elim: class_member_syn.cases)
  qed
qed

lemma class_members_correct:
  assumes g: "granted api"
  shows "class_syn nc z ms z' \<Longrightarrow> nc = noCase p \<Longrightarrow> becomes p z F q \<Longrightarrow> length z < k \<Longrightarrow>
    \<exists>c r. class_members api k q = Some (Inr (c, r)) \<and> c \<noteq> 0 \<and> becomes p z' (F @ members_code ms) r"
proof (induction arbitrary: F q k rule: class_syn.induct)
  case (class_last z m z')
  obtain l where k: "k = Suc l" using class_last.prems(3) by (cases k) auto
  note C = class_member_correct [OF g class_last.hyps [unfolded class_last.prems(1)] class_last.prems(2)]
  note S = class_member_start [OF class_last.hyps [unfolded class_last.prems(1)] class_last.prems(2)]
  have "rePeek (snd (class_member api (re_read q))) = CHR '']''" using C becomes_peek by fastforce
  then show ?case using C S becomes_skip unfolding k class_members_Suc by (auto simp: members_code_def)
next
  case (class_more z m y ms z')
  obtain l where k: "k = Suc l" using class_more.prems(3) by (cases k) auto
  let ?r = "class_member api (re_read q)"
  note C = class_member_correct [OF g class_more.hyps(1) [unfolded class_more.prems(1)] class_more.prems(2)]
  note S = class_member_start [OF class_more.hyps(1) [unfolded class_more.prems(1)] class_more.prems(2)]
  have "length (sIn (snd ?r)) < length (sIn q)" using class_member_shorter [of api "re_read q"] re_read_shorter(2) [OF S(1)] by linarith
  then have "length y < l" using C class_more.prems(2,3) k by (auto simp: becomes_def)
  then have "\<exists>c r. class_members api l (snd ?r) = Some (Inr (c, r)) \<and> c \<noteq> 0 \<and> becomes p z' ((F @ member_code m) @ members_code ms) r"
    using class_more.IH [OF class_more.prems(1)] C by blast
  moreover have "rePeek (snd ?r) \<noteq> CHR '']''" using C becomes_peek class_more.hyps(2) by metis
  ultimately show ?case using S unfolding k class_members_Suc by (simp add: members_code_def)
qed

text \<open>A class after its opening bracket.\<close>

lemma re_class_correct:
  assumes g: "granted api" and s: "class_syn (noCase p) z ms z'" and b: "becomes p (if incl then z else CHR ''^'' # z) [] q"
    and i: "incl \<Longrightarrow> cur z \<noteq> CHR ''^''"
  shows "\<exists>r. re_class api q = Some (Inr r) \<and> becomes p z' (test_code (OneOf incl ms)) r"
proof -
  define q1 where "q1 = (if rePeek q = CHR ''^'' then re_skip (snd (re_append api q RE_OP_CC_EXC 0)) else snd (re_append api q RE_OP_CC_INC 0))"
  let ?o = "if incl then RE_OP_CC_INC else RE_OP_CC_EXC"
  have n: "nState q = nState p" using b by (simp add: becomes_def)
  have q1: "becomes p z [(?o, 0)] q1"
    using b i becomes_append [OF g b] becomes_skip [of p "CHR ''^''" z] becomes_peek [OF b] by (cases incl) (auto simp: q1_def)
  then have "length z < Suc (length (sIn q1))" by (simp add: becomes_def)
  from class_members_correct [OF g s refl q1 this]
  obtain c r where r: "class_members api (Suc (length (sIn q1))) q1 = Some (Inr (c, r))" "c \<noteq> 0" "becomes p z' ((?o, 0) # members_code ms) r" by auto
  have "becomes p z' (test_code (OneOf incl ms)) (set_arg r (nState p) (int (nState r) - int (nState p)))"
    using becomes_set_arg [of p z' "[]" ?o 0 "members_code ms" r "nState p" "int (nState r) - int (nState p)"] r(3) by (simp add: becomes_def)
  then show ?thesis using r(1,2) unfolding re_class_def q1_def [symmetric] n Let_def by simp
qed

section \<open>Repetitions\<close>

lemma count_le:
  assumes "list_all isdigit ds" "0 \<le> m"
  shows "m \<le> foldl (\<lambda>m b. m * 10 + ord_char b - 48) m ds"
  using assms
proof (induction ds arbitrary: m)
  case (Cons d ds)
  have "m \<le> m * 10 + ord_char d - 48" using Cons.prems by (simp add: isdigit_def)
  moreover from this have "m * 10 + ord_char d - 48 \<le> foldl (\<lambda>m b. m * 10 + ord_char b - 48) (m * 10 + ord_char d - 48) ds"
    using Cons by simp
  ultimately show ?case by simp
qed simp

lemma re_count_digits:
  assumes "list_all isdigit ds" "0 \<le> m" "foldl (\<lambda>m b. m * 10 + ord_char b - 48) m ds < 2 ^ 31" "\<not> isdigit (cur z)"
  shows "re_count m (ds @ z) = (foldl (\<lambda>m b. m * 10 + ord_char b - 48) m ds, z)"
  using assms
proof (induction ds arbitrary: m)
  case Nil
  then show ?case by (cases z) auto
next
  case (Cons d ds)
  let ?n = "m * 10 + ord_char d - 48"
  have n: "0 \<le> ?n" using Cons.prems(1,2) by (simp add: isdigit_def)
  then have "?n < 2 ^ 31" using count_le [of ds ?n] Cons.prems(1,3) by simp
  then have "wrap32 ?n = ?n" using n by (simp add: wrap32_def)
  then show ?case using Cons.IH [OF _ n] Cons.prems by simp
qed

lemma re_count_value: "count_ok ds \<Longrightarrow> \<not> isdigit (cur z) \<Longrightarrow> re_count 0 (ds @ z) = (count_value ds, z)"
  using re_count_digits [of ds 0 z] by (simp add: count_ok_def count_value_def)

lemma becomes_copy:
  assumes "granted api" "becomes p z (F @ G) q"
  shows "becomes p z (F @ G @ F) (re_copy api (nState p) (length F) q)"
  using assms by (auto simp: becomes_def re_copy_def re_resize_def granted_def Let_def)

lemma becomes_copies:
  assumes "granted api" "becomes p z F q"
  shows "becomes p z (F @ concat (replicate k F)) ((re_copy api (nState p) (length F) ^^ k) q)"
proof (induction k)
  case (Suc k)
  then show ?case using becomes_copy [OF assms(1) Suc] by (simp add: replicate_append_same [symmetric] del: replicate_append_same)
qed (use assms in simp)

lemma becomes_optionals:
  assumes "granted api" "becomes p z (F @ G) q"
  shows "becomes p z (F @ G @ concat (replicate k ((RE_OP_FORK, int (length F) + 1) # F))) ((re_optional api (nState p) (length F) ^^ k) q)"
proof (induction k)
  case (Suc k)
  let ?o = "(RE_OP_FORK, int (length F) + 1)"
  have "becomes p z (F @ (G @ concat (replicate k (?o # F)) @ [?o])) (snd (re_append api ((re_optional api (nState p) (length F) ^^ k) q) RE_OP_FORK (int (length F) + 1)))"
    using becomes_append [OF assms(1) Suc] by simp
  from becomes_copy [OF assms(1) this]
  have "becomes p z (F @ G @ concat (replicate k (?o # F)) @ ?o # F) ((re_optional api (nState p) (length F) ^^ Suc k) q)"
    by (simp add: re_optional_def [of api "nState p" "length F" "(re_optional api (nState p) (length F) ^^ k) q"])
  then show ?case by (simp add: replicate_append_same [symmetric] del: replicate_append_same funpow.simps)
qed (use assms in simp)

lemma rx_code_power: "rx_code (power_rx r k) = concat (replicate k (rx_code r))"
  by (induction k) auto

lemma concat_replicate_Suc: "0 < m \<Longrightarrow> F @ concat (replicate (m - 1) F) = concat (replicate m F)"
  by (cases m) auto

lemma concat_replicate_end: "0 < m \<Longrightarrow> concat (replicate (m - 1) F) @ F = concat (replicate m F)"
  by (cases m) (simp_all add: replicate_append_same [symmetric] del: replicate_append_same)

text \<open>The counts that the text \<^verbatim>\<open>m}\<close>, \<^verbatim>\<open>m,n}\<close> or \<^verbatim>\<open>m,}\<close> gives.\<close>

definition counts_read :: "string \<Rightarrow> int \<Rightarrow> int \<Rightarrow> string \<Rightarrow> bool" where
  "counts_read y m n z \<longleftrightarrow>
     (\<exists>y'. re_count 0 y = (m, y') \<and> (if cur y' = CHR '','' then re_count 0 (tl y') else (m, y')) = (n, CHR ''}'' # z))"

lemma not_digit [simp]: "\<not> isdigit (CHR '','')" "\<not> isdigit (CHR ''}'')"
  by (simp_all add: isdigit_def ord_char_def)

lemma counts_readI:
  "count_ok ms \<Longrightarrow> counts_read (ms @ CHR ''}'' # z) (count_value ms) (count_value ms) z"
  "count_ok ms \<Longrightarrow> count_ok ns \<Longrightarrow> counts_read (ms @ CHR '','' # ns @ CHR ''}'' # z) (count_value ms) (count_value ns) z"
  "count_ok ms \<Longrightarrow> counts_read (ms @ CHR '','' # CHR ''}'' # z) (count_value ms) 0 z"
  using re_count_value [of "[]" "CHR ''}'' # z"] by (simp_all add: counts_read_def re_count_value count_ok_def count_value_def)

lemma re_repeat_unfold:
  assumes c: "counts_read y m n z" and b: "becomes p y F q" and ok: "n = 0 \<or> m \<le> n" "0 < m \<or> n = 1"
  shows "\<exists>q1. becomes p z F q1 \<and> re_repeat api (nState p) q =
    (let (n', q) = (if m = 0 then (n - 1, snd (re_insert api q1 (nState p) RE_OP_FORK (int (length F) + 1)))
                    else (n, (re_copy api (nState p) (length F) ^^ nat (m - 1)) q1));
         q = (re_optional api (nState p) (length F) ^^ nat (n' - m)) q
     in Inr (if n' = 0 \<and> m > 0 then snd (re_append api q RE_OP_FORK (- int (length F))) else q))"
proof -
  obtain y' where y': "re_count 0 y = (m, y')" "(if cur y' = CHR '','' then re_count 0 (tl y') else (m, y')) = (n, CHR ''}'' # z)"
    using c by (auto simp: counts_read_def)
  let ?q = "q\<lparr>sIn := CHR ''}'' # z\<rparr>"
  have s: "sIn q = y" using b by (simp add: becomes_def)
  have b1: "becomes p z F (re_skip ?q)" using b by (simp add: becomes_def re_skip_def)
  have n: "nState (re_skip ?q) - nState p = length F" using b1 by (simp add: becomes_def)
  have "\<not> (n > 0 \<and> n < m)" "\<not> (m = 0 \<and> n = 0)" "rePeek ?q = CHR ''}''" using ok by (auto simp: rePeek_def)
  then show ?thesis using b1 n 
    by (intro exI [of _ "re_skip ?q"]) (simp only: re_repeat_def s y' Let_def prod.case, simp)
qed

lemma re_repeat_between:
  assumes g: "granted api" and c: "counts_read y (int m) (int n) z" and b: "becomes p y (rx_code r) q"
    and ok: "m \<le> n" "0 < n" "0 < m \<or> n = 1"
  shows "\<exists>q'. re_repeat api (nState p) q = Inr q' \<and> becomes p z (rx_code (between_rx r m n)) q'"
proof -
  let ?F = "rx_code r"
  obtain q1 where q1: "becomes p z ?F q1" "re_repeat api (nState p) q =
    (let (n', q) = (if int m = 0 then (int n - 1, snd (re_insert api q1 (nState p) RE_OP_FORK (int (length ?F) + 1)))
                    else (int n, (re_copy api (nState p) (length ?F) ^^ nat (int m - 1)) q1));
         q = (re_optional api (nState p) (length ?F) ^^ nat (n' - int m)) q
     in Inr (if n' = 0 \<and> int m > 0 then snd (re_append api q RE_OP_FORK (- int (length ?F))) else q))"
    using re_repeat_unfold [OF c b] ok by auto
  show ?thesis
  proof (cases "m = 0")
    case True
    then show ?thesis using q1(2) becomes_insert [OF g q1(1), of RE_OP_FORK "int (length ?F) + 1"] ok(3)
      by (simp add: between_rx_def)
  next
    case False
    then have m: "F @ concat (replicate (m - 1) F) = concat (replicate m F)" for F :: re_prog by (intro concat_replicate_Suc) simp
    have e: "nat (int m - 1) = m - 1" "nat (int n - int m) = n - m" by auto
    have "becomes p z (?F @ concat (replicate (m - 1) ?F) @ concat (replicate (n - m) ((RE_OP_FORK, int (length ?F) + 1) # ?F)))
        ((re_optional api (nState p) (length ?F) ^^ (n - m)) ((re_copy api (nState p) (length ?F) ^^ (m - 1)) q1))"
      by (intro becomes_optionals becomes_copies g q1(1))
    then have "becomes p z (rx_code (between_rx r m n))
        ((re_optional api (nState p) (length ?F) ^^ (n - m)) ((re_copy api (nState p) (length ?F) ^^ (m - 1)) q1))"
      by (simp add: between_rx_def rx_code_power m [symmetric])
    then show ?thesis using q1(2) False ok(2) by (simp add: e)
  qed
qed

lemma re_repeat_at_least:
  assumes g: "granted api" and c: "counts_read y (int m) 0 z" and b: "becomes p y (rx_code r) q" and ok: "0 < m"
  shows "\<exists>q'. re_repeat api (nState p) q = Inr q' \<and> becomes p z (rx_code (at_least_rx r m)) q'"
proof -
  let ?F = "rx_code r"
  obtain q1 where q1: "becomes p z ?F q1" "re_repeat api (nState p) q =
    (let (n', q) = (if int m = 0 then (0 - 1, snd (re_insert api q1 (nState p) RE_OP_FORK (int (length ?F) + 1)))
                    else (0, (re_copy api (nState p) (length ?F) ^^ nat (int m - 1)) q1));
         q = (re_optional api (nState p) (length ?F) ^^ nat (n' - int m)) q
     in Inr (if n' = 0 \<and> int m > 0 then snd (re_append api q RE_OP_FORK (- int (length ?F))) else q))"
    using re_repeat_unfold [OF c b] ok by auto
  have m: "?F @ concat (replicate (m - 1) ?F) = concat (replicate (m - 1) ?F) @ ?F"
    using ok by (simp only: concat_replicate_Suc concat_replicate_end)
  have e: "nat (int m - 1) = m - 1" by auto
  have "becomes p z ((?F @ concat (replicate (m - 1) ?F)) @ [(RE_OP_FORK, - int (length ?F))])
      (snd (re_append api ((re_copy api (nState p) (length ?F) ^^ (m - 1)) q1) RE_OP_FORK (- int (length ?F))))"
    by (intro becomes_append becomes_copies g q1(1))
  then have "becomes p z (rx_code (at_least_rx r m))
      (snd (re_append api ((re_copy api (nState p) (length ?F) ^^ (m - 1)) q1) RE_OP_FORK (- int (length ?F))))"
    unfolding m by (simp add: at_least_rx_def rx_code_power)
  then show ?thesis using q1(2) ok by (simp add: e)
qed

text \<open>An element of the text that is compiled in one step.\<close>

definition one_step :: "sqlite3_api_routines \<Rightarrow> nat option \<Rightarrow> ReCompiled \<Rightarrow> ReCompiled \<Rightarrow> bool" where
  "one_step api i q q' \<longleftrightarrow> (\<exists>c r. re_read q = (c, r) \<and> c \<notin> {0, 124, 36, 41, 40} \<and> re_element api c i r = Some (Inr q'))"

lemma runs_str_step: "one_step api i q q' \<Longrightarrow> runs_str api (Some (nState q)) q' R \<Longrightarrow> runs_str api i q R"
  using runs_str_element unfolding one_step_def by blast

lemma one_stepI:
  assumes "becomes p (c # y) F q" "low_byte c" "ord_char c \<notin> {0, 124, 36, 41, 40}"
    "\<And>r. becomes p y F r \<Longrightarrow> \<exists>q'. re_element api (ord_char c) i r = Some (Inr q') \<and> becomes p z G q'"
  shows "\<exists>q'. one_step api i q q' \<and> becomes p z G q'"
proof -
  obtain r where r: "re_read q = (ord_char c, r)" "becomes p y F r" by (rule re_read_low [OF assms(1,2)])
  then obtain q' where "re_element api (ord_char c) i r = Some (Inr q')" "becomes p z G q'" using assms(4) by blast
  then show ?thesis using r assms(3) unfolding one_step_def by blast
qed

lemma suffix_correct:
  assumes g: "granted api" and s: "suffix_syn y f z" and b: "becomes p y (rx_code r) q"
  shows "\<exists>q'. one_step api (Some (nState p)) q q' \<and> becomes p z (rx_code (f r)) q'"
proof -
  let ?F = "rx_code r"
  have n: "nState q = nState p + length ?F" if "becomes p y ?F q" for q y using that by (simp add: becomes_def)
  have c: "low_byte (CHR ''*'')" "low_byte (CHR ''+'')" "low_byte (CHR ''?'')" "low_byte (CHR ''{'')"
    "ord_char (CHR ''*'') = 42" "ord_char (CHR ''+'') = 43" "ord_char (CHR ''?'') = 63" "ord_char (CHR ''{'') = 123"
    by (simp_all add: low_byte_def ord_char_def)
  have rep: "\<exists>q'. one_step api (Some (nState p)) q q' \<and> becomes p z (rx_code (f r)) q'"
    if "y = CHR ''{'' # x" "\<And>q. becomes p x ?F q \<Longrightarrow> \<exists>q'. re_repeat api (nState p) q = Inr q' \<and> becomes p z (rx_code (f r)) q'" for x
    using b that by (intro one_stepI [of p "CHR ''{''" x ?F]) (simp_all add: c re_element_def)
  show ?thesis using s
  proof cases
    case suf_star
    show ?thesis
    proof (rule one_stepI [OF b [unfolded suf_star(1)]])
      fix q1 assume q1: "becomes p z ?F q1"
      let ?q = "snd (re_insert api q1 (nState p) RE_OP_GOTO (int (length ?F) + 1))"
      have i: "becomes p z ((RE_OP_GOTO, int (length ?F) + 1) # ?F) ?q" by (rule becomes_insert [OF g q1])
      then have "becomes p z (rx_code (Star r)) (snd (re_append api ?q RE_OP_FORK (- int (length ?F))))"
        using becomes_append [OF g i] by simp
      moreover have "int (nState p) - int (nState ?q) + 1 = - int (length ?F)" using i by (simp add: becomes_def)
      ultimately show "\<exists>q'. re_element api (ord_char (CHR ''*'')) (Some (nState p)) q1 = Some (Inr q') \<and> becomes p z (rx_code (f r)) q'"
        by (simp add: re_element_def c n [OF q1] suf_star(2) Let_def)
    qed (simp_all add: c)
  next
    case suf_plus
    show ?thesis
    proof (rule one_stepI [OF b [unfolded suf_plus(1)]])
      fix q1 assume q1: "becomes p z ?F q1"
      have "becomes p z (rx_code (Plus r)) (snd (re_append api q1 RE_OP_FORK (- int (length ?F))))"
        using becomes_append [OF g q1] by simp
      then show "\<exists>q'. re_element api (ord_char (CHR ''+'')) (Some (nState p)) q1 = Some (Inr q') \<and> becomes p z (rx_code (f r)) q'"
        by (simp add: re_element_def c n [OF q1] suf_plus(2))
    qed (simp_all add: c)
  next
    case suf_opt
    show ?thesis
    proof (rule one_stepI [OF b [unfolded suf_opt(1)]])
      fix q1 assume q1: "becomes p z ?F q1"
      show "\<exists>q'. re_element api (ord_char (CHR ''?'')) (Some (nState p)) q1 = Some (Inr q') \<and> becomes p z (rx_code (f r)) q'"
        using becomes_insert [OF g q1, of RE_OP_FORK "int (length ?F) + 1"] by (simp add: re_element_def c n [OF q1] suf_opt(2))
    qed (simp_all add: c)
  next
    case (suf_times ms m)
    then show ?thesis using counts_readI(1) [of ms z] re_repeat_between [OF g, of _ m m] by (intro rep) auto
  next
    case (suf_between ms m n ns)
    then show ?thesis using counts_readI(2) [of ms ns z] re_repeat_between [OF g, of _ m n] by (intro rep) auto
  next
    case (suf_at_least ms m)
    then show ?thesis using counts_readI(3) [of ms z] re_repeat_at_least [OF g, of _ m] by (intro rep) auto
  qed
qed

section \<open>The code of an expression\<close>

definition compiles_elem :: "sqlite3_api_routines \<Rightarrow> bool \<Rightarrow> string \<Rightarrow> rx \<Rightarrow> string \<Rightarrow> bool" where
  "compiles_elem api nc z r y \<longleftrightarrow> (\<forall>p i. noCase p = nc \<longrightarrow> sIn p = z \<longrightarrow>
     (\<exists>q. becomes p y (rx_code r) q \<and> (\<forall>R. runs_str api (Some (nState p)) q R \<longrightarrow> runs_str api i p R)))"

definition compiles_string :: "sqlite3_api_routines \<Rightarrow> bool \<Rightarrow> string \<Rightarrow> rx \<Rightarrow> string \<Rightarrow> bool" where
  "compiles_string api nc z r y \<longleftrightarrow> (\<forall>p i. noCase p = nc \<longrightarrow> sIn p = z \<longrightarrow>
     (\<exists>q. becomes p y (rx_code r) q \<and> runs_str api i p (Inr q)))"

definition compiles_re :: "sqlite3_api_routines \<Rightarrow> bool \<Rightarrow> string \<Rightarrow> rx \<Rightarrow> string \<Rightarrow> bool" where
  "compiles_re api nc z r y \<longleftrightarrow> (\<forall>p. noCase p = nc \<longrightarrow> sIn p = z \<longrightarrow>
     (\<exists>q. becomes p y (rx_code r) q \<and> (\<forall>R. runs_alt api (nState p) q R \<longrightarrow> runs_re api p R)))"

lemma compiles_stringE:
  assumes "compiles_string api nc z r y" "noCase p = nc" "becomes p z F q"
  obtains t where "becomes p y (F @ rx_code r) t" "becomes q y (rx_code r) t" "runs_str api i q (Inr t)"
proof -
  have "noCase q = nc" "sIn q = z" using assms(2,3) by (auto simp: becomes_def)
  then obtain t where "becomes q y (rx_code r) t" "runs_str api i q (Inr t)" using assms(1) unfolding compiles_string_def by blast
  then show ?thesis using that becomes_trans [OF assms(3)] by blast
qed

lemma compiles_reE:
  assumes "compiles_re api nc z r y" "noCase p = nc" "becomes p z F q"
  obtains t where "becomes q y (rx_code r) t" "\<And>R. runs_alt api (nState q) t R \<Longrightarrow> runs_re api q R"
proof -
  have "noCase q = nc" "sIn q = z" using assms(2,3) by (auto simp: becomes_def)
  then show ?thesis using assms(1) that unfolding compiles_re_def by blast
qed

lemma compiles_elem_step:
  assumes "\<And>p i. noCase p = nc \<Longrightarrow> sIn p = z \<Longrightarrow> \<exists>q. one_step api i p q \<and> becomes p y (rx_code r) q"
  shows "compiles_elem api nc z r y"
  using assms runs_str_step unfolding compiles_elem_def by blast

lemma compiles_elem_low:
  assumes "low_byte c" "ord_char c \<notin> {0, 124, 36, 41, 40}"
    "\<And>p q i. noCase p = nc \<Longrightarrow> becomes p z [] q \<Longrightarrow> \<exists>q'. re_element api (ord_char c) i q = Some (Inr q') \<and> becomes p y (rx_code r) q'"
  shows "compiles_elem api nc (c # z) r y"
  using assms by (intro compiles_elem_step one_stepI [OF becomes_self]) auto

lemma compiles_char:
  assumes g: "granted api" and "xNextChar nc z = (c, y)" "plain c"
  shows "compiles_elem api nc z (Test (Is c)) y"
proof (rule compiles_elem_step)
  fix p :: ReCompiled and i assume p: "noCase p = nc" "sIn p = z"
  have o: "plain d \<longleftrightarrow> d \<notin> {0, 92, 46, 42, 43, 63, 123, 91, 40, 41, 124, 36}" for d by (simp add: plain_def ord_char_def) blast
  have r: "fst (re_read p) = c" "becomes p y [] (snd (re_read p))" using becomes_read [OF becomes_self [OF p(2)]] p(1) assms(2) by simp_all
  have "re_element api c i (snd (re_read p)) = Some (Inr (snd (re_append api (snd (re_read p)) RE_OP_MATCH c)))"
    using assms(3) by (simp add: re_element_def o)
  then have "one_step api i p (snd (re_append api (snd (re_read p)) RE_OP_MATCH c))"
    using r(1) assms(3) unfolding one_step_def o by (metis insert_iff prod.exhaust_sel)
  then show "\<exists>q. one_step api i p q \<and> becomes p y (rx_code (Test (Is c))) q" using becomes_append [OF g r(2), of RE_OP_MATCH c] by auto
qed

lemma compiles_scalar:
  assumes "granted api" "scalar u" "u < 0x10000 \<or> z \<noteq> []" "plain u"
  shows "compiles_elem api nc (utf8_char u @ z) (Test (Is (fold_case nc u))) z"
proof (rule compiles_char [OF assms(1) xNextChar_scalar [OF assms(2,3)]])
  show "plain (fold_case nc u)" using assms(4) by (auto simp: fold_case_def plain_def ord_char_def)
qed

lemma special_rx_op:
  "(c, r) \<in> set special_rx \<Longrightarrow> \<exists>oper. special_op c = Some oper \<and> rx_code r = [(oper, 0)]"
proof -
  have "\<forall>x \<in> set special_rx. special_op (fst x) \<noteq> None \<and> rx_code (snd x) = [(the (special_op (fst x)), 0)]" by code_simp
  then show "(c, r) \<in> set special_rx \<Longrightarrow> \<exists>oper. special_op c = Some oper \<and> rx_code r = [(oper, 0)]" by fastforce
qed

lemma escaped_not_special: "escaped z c z' \<Longrightarrow> special_op (cur z) = None"
  by (cases rule: escaped.cases) (auto simp: special_op_def)

lemma compiles_alt:
  assumes g: "granted api" and r: "compiles_re api nc z r (CHR ''|'' # y)" and s: "compiles_string api nc y s z'"
  shows "compiles_re api nc z (Alt r s) z'"
  unfolding compiles_re_def
proof (intro allI impI)
  fix p :: ReCompiled assume p: "noCase p = nc" "sIn p = z"
  let ?F = "rx_code r" and ?G = "rx_code s"
  obtain q where q: "becomes p (CHR ''|'' # y) ?F q" "\<And>R. runs_alt api (nState p) q R \<Longrightarrow> runs_re api p R"
    using r p unfolding compiles_re_def by blast
  have n: "int (nState q) + 2 - int (nState p) = int (length ?F) + 2" using q(1) by (simp add: becomes_def)
  define h where "h = (RE_OP_FORK, int (length ?F) + 2)"
  have o: "becomes p (CHR ''|'' # y) ((h # ?F) @ [(RE_OP_GOTO, 0)]) (snd (alt_open api (nState p) q))"
    "fst (alt_open api (nState p) q) = nState p + length (h # ?F)"
    using becomes_append [OF g becomes_insert [OF g q(1), of "fst h" "snd h"], of RE_OP_GOTO 0] becomes_insert [OF g q(1), of "fst h" "snd h"]
    unfolding alt_open_def n by (simp_all add: h_def re_append_ops [OF g] becomes_def)
  let ?g = "fst (alt_open api (nState p) q)" and ?q = "re_skip (snd (alt_open api (nState p) q))"
  have o': "becomes p y ((h # ?F) @ [(RE_OP_GOTO, 0)]) ?q" using becomes_skip [OF o(1)] .
  obtain t where t: "becomes p z' (((h # ?F) @ [(RE_OP_GOTO, 0)]) @ ?G) t" "becomes ?q z' ?G t" "runs_str api None ?q (Inr t)"
    by (rule compiles_stringE [OF s p(1) o'])
  let ?t = "set_arg t ?g (int (nState t) - int ?g)"
  have "becomes p z' ((h # ?F) @ (RE_OP_GOTO, 0) # ?G) t" using t(1) by simp
  then have "becomes p z' ((h # ?F) @ (RE_OP_GOTO, int (nState t) - int ?g) # ?G) ?t" using o(2) by (rule becomes_set_arg)
  moreover have "int (nState t) - int ?g = int (length ?G) + 1"
    using t(2) o' unfolding o(2) by (simp add: becomes_def)
  ultimately have "becomes p z' (rx_code (Alt r s)) ?t" by (simp add: h_def)
  moreover have "runs_alt api (nState p) ?t R \<Longrightarrow> runs_re api p R" for R
    using runs_alt_more [OF _ t(3)] becomes_peek [OF q(1)] q(2) by simp
  ultimately show "\<exists>q. becomes p z' (rx_code (Alt r s)) q \<and> (\<forall>R. runs_alt api (nState p) q R \<longrightarrow> runs_re api p R)" by blast
qed

lemma compiles_group:
  assumes "compiles_re api nc z r (CHR '')'' # y)"
  shows "compiles_elem api nc (CHR ''('' # z) r y"
  unfolding compiles_elem_def
proof (intro allI impI)
  fix p :: ReCompiled and i assume p: "noCase p = nc" "sIn p = CHR ''('' # z"
  have "low_byte (CHR ''('')" by (simp add: low_byte_def ord_char_def)
  then obtain q where q: "re_read p = (ord_char (CHR ''(''), q)" "becomes p z [] q" by (rule re_read_low [OF becomes_self [OF p(2)]])
  obtain t where t: "becomes q (CHR '')'' # y) (rx_code r) t" "\<And>R. runs_alt api (nState q) t R \<Longrightarrow> runs_re api q R"
    using compiles_reE [OF assms p(1) q(2)] by blast
  have "rePeek t = CHR '')''" using becomes_peek [OF t(1)] by simp
  moreover from this have "runs_re api q (Inr t)" using t(2) runs_alt_stop by simp
  moreover have "becomes p y (rx_code r) (re_skip t)" using becomes_trans [OF q(2) becomes_skip [OF t(1)]] by simp
  ultimately show "\<exists>q. becomes p y (rx_code r) q \<and> (\<forall>R. runs_str api (Some (nState p)) q R \<longrightarrow> runs_str api i p R)"
    using q(1) by (intro exI [of _ "re_skip t"]) (auto simp: ord_char_def intro: runs_str_group)
qed

lemma compiles_seq:
  assumes r: "compiles_elem api nc z r y" and s: "compiles_string api nc y s z'"
  shows "compiles_string api nc z (Seq r s) z'"
  unfolding compiles_string_def
proof (intro allI impI)
  fix p :: ReCompiled and i assume p: "noCase p = nc" "sIn p = z"
  obtain q where q: "becomes p y (rx_code r) q" "\<And>R. runs_str api (Some (nState p)) q R \<Longrightarrow> runs_str api i p R"
    using r p unfolding compiles_elem_def by blast
  obtain t where "becomes p z' (rx_code r @ rx_code s) t" "runs_str api (Some (nState p)) q (Inr t)"
    by (rule compiles_stringE [OF s p(1) q(1)])
  then show "\<exists>q. becomes p z' (rx_code (Seq r s)) q \<and> runs_str api i p (Inr q)"
    using q(2) by auto
qed

lemma compiles_suffix:
  assumes g: "granted api" and r: "compiles_elem api nc z r y" and f: "suffix_syn y f x" and s: "compiles_string api nc x s z'"
  shows "compiles_string api nc z (Seq (f r) s) z'"
  unfolding compiles_string_def
proof (intro allI impI)
  fix p :: ReCompiled and i assume p: "noCase p = nc" "sIn p = z"
  obtain q where q: "becomes p y (rx_code r) q" "\<And>R. runs_str api (Some (nState p)) q R \<Longrightarrow> runs_str api i p R"
    using r p unfolding compiles_elem_def by blast
  obtain q' where q': "one_step api (Some (nState p)) q q'" "becomes p x (rx_code (f r)) q'" using suffix_correct [OF g f q(1)] by blast
  obtain t where "becomes p z' (rx_code (f r) @ rx_code s) t" "runs_str api (Some (nState q)) q' (Inr t)"
    by (rule compiles_stringE [OF s p(1) q'(2)])
  then show "\<exists>q. becomes p z' (rx_code (Seq (f r) s)) q \<and> runs_str api i p (Inr q)"
    using q(2) runs_str_step [OF q'(1)] by auto
qed

lemma syn_compiles:
  assumes g: "granted api"
  shows "elem_syn nc z r y \<Longrightarrow> compiles_elem api nc z r y"
    "string_syn nc z r y \<Longrightarrow> compiles_string api nc z r y"
    "re_syn nc z r y \<Longrightarrow> compiles_re api nc z r y"
proof (induction rule: elem_syn_string_syn_re_syn.inducts)
  case (el_any z)
  have "rePeek q \<noteq> CHR ''*''" if "becomes p z [] q" for p q using becomes_peek [OF that] el_any by simp
  then show ?case using becomes_append [OF g, of _ z "[]"]
    by (intro compiles_elem_low) (auto simp: low_byte_def ord_char_def re_element_def)
next
  case (el_anystar z)
  have "rePeek q = CHR ''*''" "becomes p z [(RE_OP_ANYSTAR, 0)] (re_skip (snd (re_append api q RE_OP_ANYSTAR 0)))"
    if "becomes p (CHR ''*'' # z) [] q" for p q
    using becomes_peek [OF that] becomes_skip [OF becomes_append [OF g that]] by simp_all
  then show ?case by (intro compiles_elem_low) (auto simp: low_byte_def ord_char_def re_element_def)
next
  case (el_special c r z)
  obtain oper where o: "special_op c = Some oper" "rx_code r = [(oper, 0)]" using special_rx_op [OF el_special] by blast
  have "rePeek q = c" "becomes p z [(oper, 0)] (snd (re_append api (re_skip q) oper 0))" if "becomes p (c # z) [] q" for p q
    using becomes_peek [OF that] becomes_append [OF g becomes_skip [OF that], of oper 0] by simp_all
  then show ?case by (intro compiles_elem_low) (auto simp: low_byte_def ord_char_def re_element_def o)
next
  case (el_esc z c y)
  have "rePeek q = cur z" "becomes p y [(RE_OP_MATCH, c)] (snd (re_append api (snd (re_esc_char q)) RE_OP_MATCH c))" "fst (re_esc_char q) = c"
    if "becomes p z [] q" for p q
    using becomes_peek [OF that] re_esc_char_escaped [OF el_esc(1) that] becomes_append [OF g, of p y "[]" _ RE_OP_MATCH c] by auto
  then show ?case using escaped_not_special [OF el_esc(1)]
    by (intro compiles_elem_low) (auto simp: low_byte_def ord_char_def re_element_def Let_def split_beta)
next
  case (el_class z ms y)
  then show ?case using re_class_correct [OF g, of _ z ms y True]
    by (intro compiles_elem_low) (auto simp: low_byte_def ord_char_def re_element_def simp del: test_code.simps)
next
  case (el_class_not z ms y)
  then show ?case using re_class_correct [OF g, of _ z ms y False]
    by (intro compiles_elem_low) (auto simp: low_byte_def ord_char_def re_element_def simp del: test_code.simps)
next
  case (str_end z)
  then show ?case unfolding compiles_string_def using runs_str_end becomes_self by fastforce
next
  case (re_one z r y)
  then show ?case unfolding compiles_string_def compiles_re_def using runs_re_intro by blast
qed (auto intro: g compiles_scalar compiles_group compiles_seq compiles_suffix compiles_alt)

text \<open>The compiled form of a pattern: the code of the expression it stands for, and the text to look for first.\<close>

lemma re_finish_correct:
  assumes g: "granted api" and b: "becomes p (if e then ''$'' else []) F q" and z: "zErr p = None"
  shows "\<exists>pRe. re_finish api nc q = (None, Some pRe) \<and> ops pRe = ops p @ F @ (if e then [(RE_OP_MATCH, 0)] else []) @ [(RE_OP_ACCEPT, 0)] \<and>
    noCase pRe = noCase p \<and> zInit pRe = init_of (ops pRe) nc"
  using assms by (cases e) (auto simp: becomes_def re_finish_def Let_def rePeek_def re_append_ops)

lemma re_compile_pattern:
  assumes g: "granted api" and s: "pattern_syn nc z a r e"
  shows "\<exists>pRe. re_compile api z nc = Some (None, Some pRe) \<and> ops pRe = rx_prog a r e \<and> noCase pRe = nc \<and>
    zInit pRe = init_of (rx_prog a r e) nc"
proof -
  define p where "p = re_start api z \<lparr>sIn = [], zErr = None, ops = [], noCase = nc, zInit = [], nAlloc = 30\<rparr>"
  have p: "noCase p = nc" "zErr p = None" "ops p = (if a then [] else [(RE_OP_ANYSTAR, 0)])" "re_syn nc (sIn p) r (if e then ''$'' else [])"
    using s g by (cases; simp add: p_def re_start_def re_append_ops)+
  obtain q where q: "becomes p (if e then ''$'' else []) (rx_code r) q" "\<And>R. runs_alt api (nState p) q R \<Longrightarrow> runs_re api p R"
    using compiles_reE [OF syn_compiles(3) [OF g p(4)] p(1) becomes_self [OF refl]] by blast
  have "rePeek q \<noteq> CHR ''|''" using becomes_peek [OF q(1)] by (cases e) auto
  then have "runs_re api p (Inr q)" using q(2) runs_alt_stop by blast
  then have k: "re_subcompile_re api (3 * length (sIn p) + 3) p = Some (Inr q)" by (rule runs_re_tries)
  obtain pRe where "re_finish api nc q = (None, Some pRe)" "ops pRe = rx_prog a r e" "noCase pRe = nc" "zInit pRe = init_of (ops pRe) nc"
    using re_finish_correct [OF g q(1) p(2), of nc] p(1,3) by (auto simp: rx_prog_def)
  then show ?thesis using k g unfolding re_compile_def re_resize_def granted_def p_def by simp
qed

section \<open>Expressions of the grammar take no end of text\<close>

lemma re_next_char_nonneg: "0 \<le> fst (re_next_char z)"
  by (cases z) (auto simp: Let_def low6_def)

lemma xNextChar_nonneg: "xNextChar nc z = (c, y) \<Longrightarrow> 0 \<le> c"
  using re_next_char_nonneg [of z] by (auto simp: xNextChar_def re_next_char_nocase_def split: prod.splits if_splits)

lemma re_hexes_nonneg: "re_hexes h v = Some w \<Longrightarrow> 0 \<le> v \<Longrightarrow> 0 \<le> w"
  by (induction h v rule: re_hexes.induct) (auto simp: re_hex_def split: option.splits if_splits)

lemma escaped_nonneg: "escaped z c y \<Longrightarrow> 0 \<le> c"
  by (erule escaped.cases) (auto intro: re_hexes_nonneg [OF hex_number_re_hexes])

lemma class_char_pos: "class_char nc z c y \<Longrightarrow> 0 < c"
  by (erule class_char.cases) (simp add: fold_case_pos, simp add: order_less_le escaped_nonneg)

lemma class_syn_wf: "class_syn nc z ms y \<Longrightarrow> m \<in> set ms \<Longrightarrow> \<not> member_has m 0"
  by (induction rule: class_syn.induct) (auto elim!: class_member_syn.cases dest!: class_char_pos)

lemma rx_wf_power: "rx_wf r \<Longrightarrow> rx_wf (power_rx r k)"
  by (induction k) auto

lemma suffix_wf: "suffix_syn y f z \<Longrightarrow> rx_wf r \<Longrightarrow> rx_wf (f r)"
  by (cases rule: suffix_syn.cases) (auto simp: between_rx_def at_least_rx_def rx_wf_power)

lemma special_wf: "(c, r) \<in> set special_rx \<Longrightarrow> rx_wf r"
proof -
  have "\<forall>x \<in> set special_rx. rx_wf (snd x)" by code_simp
  then show "(c, r) \<in> set special_rx \<Longrightarrow> rx_wf r" by fastforce
qed

lemma syn_wf:
  "elem_syn nc z r y \<Longrightarrow> rx_wf r" "string_syn nc z r y \<Longrightarrow> rx_wf r" "re_syn nc z r y \<Longrightarrow> rx_wf r"
proof (induction rule: elem_syn_string_syn_re_syn.inducts)
  case (el_class z ms z')
  then show ?case using class_syn_wf by simp
next
  case (el_class_not z ms z')
  then show ?case by simp
next
  case (el_char u z)
  then show ?case using fold_case_pos [of u nc] by auto
qed (auto simp: special_wf intro: suffix_wf)

lemma pattern_wf: "pattern_syn nc z a r e \<Longrightarrow> rx_wf r"
  by (induction rule: pattern_syn.induct) (auto dest: syn_wf(3))

end
