(* ===== verification/Regexp_Search.thy ===== *)
theory Regexp_Search
  imports Regexp_Syntax
begin

text \<open>
  Looking for the initial text first changes no result; with it, what the SQL function answers for a pattern of
  the grammar and a text in UTF-8: whether the text has a part that the expression matches.
\<close>

section \<open>Where characters begin\<close>

text \<open>A byte that does not continue a character.\<close>

definition lead :: "char \<Rightarrow> bool" where
  "lead b \<longleftrightarrow> ord_char b AND 0xc0 \<noteq> 0x80"

lemma re_next_char_takes:
  "\<exists>n. snd (re_next_char (b # z)) = drop n z \<and> n \<le> length z \<and> (\<forall>k < n. \<not> lead (z ! k))"
proof -
  have 1: "cont z 0 \<Longrightarrow> \<forall>k < 1. \<not> lead (z ! k)" "cont z 0 \<Longrightarrow> cont z 1 \<Longrightarrow> \<forall>k < 2. \<not> lead (z ! k)"
    "cont z 0 \<Longrightarrow> cont z 1 \<Longrightarrow> cont z 2 \<Longrightarrow> \<forall>k < 3. \<not> lead (z ! k)"
    by (auto simp: cont_def lead_def less_Suc_eq numeral_2_eq_2 numeral_3_eq_3)
  let ?c = "ord_char b"
  define c2 where "c2 \<longleftrightarrow> ?c \<ge> 0x80 \<and> ?c AND 0xe0 = 0xc0 \<and> 0 < length z \<and> cont z 0"
  define c3 where "c3 \<longleftrightarrow> ?c \<ge> 0x80 \<and> ?c AND 0xf0 = 0xe0 \<and> 1 < length z \<and> cont z 0 \<and> cont z 1"
  define c4 where "c4 \<longleftrightarrow> ?c \<ge> 0x80 \<and> ?c AND 0xf8 = 0xf0 \<and> 3 < length z \<and> cont z 0 \<and> cont z 1 \<and> cont z 2"
  let ?n = "if c2 then 1 else if c3 then 2 else if c4 then 3 else 0"
  have e: "snd (re_next_char (b # z)) = drop ?n z"
    by (cases "?c \<ge> 0x80") (simp_all add: Let_def c2_def c3_def c4_def)
  have "0 < length z" "cont z 0" if c2 using that by (simp_all add: c2_def)
  moreover have "1 < length z" "cont z 0" "cont z 1" if c3 using that by (simp_all add: c3_def)
  moreover have "3 < length z" "cont z 0" "cont z 1" "cont z 2" if c4 using that by (simp_all add: c4_def)
  ultimately have "?n \<le> length z \<and> (\<forall>k < ?n. \<not> lead (z ! k))" using 1 by (auto simp: Suc_le_eq)
  then show ?thesis using e by blast
qed

abbreviation codes :: "string \<Rightarrow> int list" where
  "codes z \<equiv> chars False z"

lemma codes_Cons: "z \<noteq> [] \<Longrightarrow> codes z = fst (re_next_char z) # codes (snd (re_next_char z))"
  by (subst chars.simps) (simp add: xNextChar_def)

text \<open>Decoding comes through every byte that does not continue a character.\<close>

lemma codes_sync:
  assumes "y = [] \<or> lead (hd y)"
  shows "\<exists>u. codes (x @ y) = u @ codes y"
proof (induction "length x" arbitrary: x rule: less_induct)
  case less
  show ?case
  proof (cases x)
    case (Cons b w)
    obtain n where n: "snd (re_next_char (b # w @ y)) = drop n (w @ y)" "n \<le> length (w @ y)" "\<forall>k < n. \<not> lead ((w @ y) ! k)"
      using re_next_char_takes by blast
    have l: "n \<le> length w"
    proof (rule ccontr)
      assume "\<not> n \<le> length w"
      then have "\<not> lead ((w @ y) ! length w)" "y \<noteq> []" using n(2,3) by auto
      then show False using assms nth_append_length [of w "hd y" "tl y"] by auto
    qed
    then have "codes (x @ y) = fst (re_next_char (b # w @ y)) # codes (drop n w @ y)" using codes_Cons [of "x @ y"] Cons n(1) by simp
    moreover obtain u where "codes (drop n w @ y) = u @ codes y" using less [of "drop n w"] Cons by (auto simp: less_Suc_eq_le)
    ultimately show ?thesis by simp
  qed simp
qed

lemma codes_split: "codes s = u @ w \<Longrightarrow> \<exists>x y. s = x @ y \<and> codes y = w"
proof (induction u arbitrary: s)
  case (Cons c u)
  then have "s \<noteq> []" by auto
  then have "codes (snd (re_next_char s)) = u @ w" using Cons.prems codes_Cons [of s] by simp
  then obtain x y where "snd (re_next_char s) = x @ y" "codes y = w" using Cons.IH by blast
  moreover obtain k where "snd (re_next_char s) = drop k s" using re_next_char_drop by blast
  ultimately have "s = (take k s @ x) @ y" "codes y = w" using append_take_drop_id [of k s] by auto
  then show ?case by blast
qed auto

section \<open>The initial text as bytes\<close>

definition utf8 :: "int \<Rightarrow> int list" where
  "utf8 x = (if x \<le> 127 then [x] else if x \<le> 0xfff then [0xc0 OR drop_bit 6 x, 0x80 OR (x AND 0x3f)]
     else [0xe0 OR drop_bit 12 x, 0x80 OR (drop_bit 6 x AND 0x3f), 0x80 OR (x AND 0x3f)])"

text \<open>The characters whose encoding in the initial text is the only one that is decoded to them.\<close>

definition init_safe :: "int \<Rightarrow> bool" where
  "init_safe c \<longleftrightarrow> c < 0x800 \<or> 0xfff < c \<and> c \<noteq> 0xfffd"

lemma byte_bits:
  "b AND 0xe0 = 0xc0 \<Longrightarrow> b = 0xc0 OR (b AND 0x1f)" "b AND 0xf0 = 0xe0 \<Longrightarrow> b = 0xe0 OR (b AND 0x0f)"
  "b AND 0xc0 = 0x80 \<Longrightarrow> b = 0x80 OR (b AND 0x3f)" if "0 \<le> b" "b < 256" for b :: int
proof -
  have "\<forall>b \<in> set [0..255]. (b AND 0xe0 = 0xc0 \<longrightarrow> b = 0xc0 OR (b AND 0x1f)) \<and> (b AND 0xf0 = 0xe0 \<longrightarrow> b = 0xe0 OR (b AND 0x0f)) \<and>
      (b AND 0xc0 = 0x80 \<longrightarrow> b = 0x80 OR (b AND 0x3f))" for b :: int by code_simp
  moreover have "b \<in> set [0..255]" using that by simp
  ultimately show "b AND 0xe0 = 0xc0 \<Longrightarrow> b = 0xc0 OR (b AND 0x1f)" "b AND 0xf0 = 0xe0 \<Longrightarrow> b = 0xe0 OR (b AND 0x0f)"
    "b AND 0xc0 = 0x80 \<Longrightarrow> b = 0x80 OR (b AND 0x3f)" by blast+
qed

lemma drop_cont: "drop_bit 6 (push_bit 6 x OR (w AND 0x3f)) = x" "(push_bit 6 x OR (w AND 0x3f)) AND 0x3f = w AND 0x3f" for x w :: int
proof -
  have m: "(0x3f :: int) = mask 6" by (simp add: mask_eq_exp_minus_1)
  show "drop_bit 6 (push_bit 6 x OR (w AND 0x3f)) = x" "(push_bit 6 x OR (w AND 0x3f)) AND 0x3f = w AND 0x3f"
    unfolding m by (auto simp: bit_eq_iff bit_simps)
qed

lemma two_bytes_small: "push_bit 6 (b AND 0x1f) OR (w AND 0x3f) < (0x800 :: int)"
proof -
  have "b AND 0x1f < 32" "w AND 0x3f < 2 ^ 11" by (rule order_le_less_trans [OF AND_upper2], simp_all)+
  moreover from this(1) have "push_bit 6 (b AND 0x1f) < 2 ^ 11" by (simp only: push_bit_eq_mult) simp
  ultimately have "push_bit 6 (b AND 0x1f) OR (w AND 0x3f) < 2 ^ 11" by (intro OR_upper) simp_all
  then show ?thesis by simp
qed

lemma re_next_char_one: "ord_char b < 0x80 \<Longrightarrow> re_next_char (b # z) = (ord_char b, z)"
  by simp

lemma re_next_char_two:
  "ord_char b AND 0xe0 = 0xc0 \<Longrightarrow> cont (v # w) 0 \<Longrightarrow> 0x80 \<le> ord_char b \<Longrightarrow> c = push_bit 6 (ord_char b AND 0x1f) OR low6 (v # w) 0 \<Longrightarrow>
   re_next_char (b # v # w) = (if c < 0x80 then 0xfffd else c, w)"
  by (simp only: re_next_char.simps Let_def) simp

lemma re_next_char_three:
  "ord_char b AND 0xf0 = 0xe0 \<Longrightarrow> ord_char b AND 0xe0 \<noteq> 0xc0 \<Longrightarrow> cont (t # v # w) 0 \<Longrightarrow> cont (t # v # w) 1 \<Longrightarrow> 0x80 \<le> ord_char b \<Longrightarrow>
   c = push_bit 12 (ord_char b AND 0x0f) OR push_bit 6 (low6 (t # v # w) 0) OR low6 (t # v # w) 1 \<Longrightarrow>
   re_next_char (b # t # v # w) = (if c \<le> 0x7ff \<or> (c \<ge> 0xd800 \<and> c \<le> 0xdfff) then 0xfffd else c, w)"
  by (simp only: re_next_char.simps Let_def) simp

lemma re_next_char_other:
  assumes "0x80 \<le> ord_char b" "\<not> (ord_char b AND 0xe0 = 0xc0 \<and> 0 < length x \<and> cont x 0)"
    "\<not> (ord_char b AND 0xf0 = 0xe0 \<and> 1 < length x \<and> cont x 0 \<and> cont x 1)"
  shows "fst (re_next_char (b # x)) = 0xfffd \<or> 0xffff < fst (re_next_char (b # x))"
proof -
  define c where "c = push_bit 18 (ord_char b AND 0x07) OR push_bit 12 (low6 x 0) OR push_bit 6 (low6 x 1) OR low6 x 2"
  have "re_next_char (b # x) = (if ord_char b AND 0xf8 = 0xf0 \<and> 3 < length x \<and> cont x 0 \<and> cont x 1 \<and> cont x 2
      then (if c \<le> 0xffff \<or> c > 0x10ffff then 0xfffd else c, drop 3 x) else (0xfffd, x))"
    by (simp only: re_next_char.simps Let_def assms if_True if_False c_def)
  then show ?thesis by (simp split: if_splits)
qed

lemma lead_two_three: "b AND 0xf0 = 0xe0 \<Longrightarrow> b AND 0xe0 \<noteq> 0xc0" for b :: int
proof
  assume h: "b AND 0xf0 = 0xe0" "b AND 0xe0 = 0xc0"
  have "b AND 0xe0 = (b AND 0xf0) AND 0xe0" by (simp add: and.assoc)
  also have "\<dots> = 0xe0" unfolding h(1) by simp
  finally show False using h(2) by simp
qed

lemma re_next_char_utf8:
  assumes r: "re_next_char y = (c, z)" and y: "y \<noteq> []" and c: "init_safe c" "c \<le> 0xffff"
  shows "map ord_char y = utf8 c @ map ord_char z"
proof -
  obtain b x where yx: "y = b # x" using y by (cases y) auto
  let ?b = "ord_char b"
  have safe: "c \<noteq> 0xfffd" "\<not> (0x800 \<le> c \<and> c \<le> 0xfff)" using c(1) by (auto simp: init_safe_def)
  consider "?b < 0x80" "c = ?b" "z = x"
    | v w where "x = v # w" "?b AND 0xe0 = 0xc0" "ord_char v AND 0xc0 = 0x80" "z = w" "0x80 \<le> c"
        "c = push_bit 6 (?b AND 0x1f) OR (ord_char v AND 0x3f)"
    | t v w where "x = t # v # w" "?b AND 0xf0 = 0xe0" "ord_char t AND 0xc0 = 0x80" "ord_char v AND 0xc0 = 0x80" "z = w" "0xfff < c"
        "c = push_bit 12 (?b AND 0x0f) OR push_bit 6 (ord_char t AND 0x3f) OR (ord_char v AND 0x3f)"
  proof (cases "?b < 0x80")
    case True
    have "(?b, x) = (c, z)" using r re_next_char_one [OF True, of x] unfolding yx by metis
    then show ?thesis using that(1) [OF True] by blast
  next
    case False
    then have hi: "0x80 \<le> ?b" by simp
    consider "?b AND 0xe0 = 0xc0" "0 < length x" "cont x 0" | "?b AND 0xf0 = 0xe0" "1 < length x" "cont x 0" "cont x 1"
      | "\<not> (?b AND 0xe0 = 0xc0 \<and> 0 < length x \<and> cont x 0)" "\<not> (?b AND 0xf0 = 0xe0 \<and> 1 < length x \<and> cont x 0 \<and> cont x 1)" by blast
    then show ?thesis
    proof cases
      case 1
      then obtain v w where x: "x = v # w" by (cases x) auto
      define d where "d = push_bit 6 (?b AND 0x1f) OR low6 (v # w) 0"
      have "(if d < 0x80 then 0xfffd else d, w) = (c, z)"
        using r re_next_char_two [OF 1(1) 1(3) [unfolded x] hi d_def] unfolding yx x by simp
      then have "c = d" "0x80 \<le> d" "z = w" using safe(1) by (auto split: if_splits)
      then show ?thesis using 1 that(2) [OF x] unfolding d_def by (simp only: x low6_def cont_def nth_Cons_0)
    next
      case 2
      then obtain t v w where x: "x = t # v # w" by (cases x; cases "tl x") auto
      define d where "d = push_bit 12 (?b AND 0x0f) OR push_bit 6 (low6 (t # v # w) 0) OR low6 (t # v # w) 1"
      have "(if d \<le> 0x7ff \<or> (d \<ge> 0xd800 \<and> d \<le> 0xdfff) then 0xfffd else d, w) = (c, z)"
        using r re_next_char_three [OF 2(1) lead_two_three [OF 2(1)] 2(3,4) [unfolded x] hi d_def] unfolding yx x by simp
      then have "c = d" "0xfff < d" "z = w" using safe by (auto split: if_splits)
      then show ?thesis using 2 that(3) [OF x] unfolding d_def by (simp only: x low6_def cont_def nth_Cons_0 One_nat_def nth_Cons_Suc)
    next
      case 3
      show ?thesis using re_next_char_other [OF hi 3] safe(1) c(2) unfolding r [unfolded yx] fst_conv by linarith
    qed
  qed
  then show ?thesis
  proof cases
    case 1
    then show ?thesis by (simp add: yx utf8_def)
  next
    case (2 v w)
    have "c < 0x800" using two_bytes_small [of ?b "ord_char v"] 2(6) by simp
    moreover have "0xc0 OR drop_bit 6 c = ?b" "0x80 OR (c AND 0x3f) = ord_char v"
      unfolding 2(6) drop_cont by (rule byte_bits [symmetric], simp_all add: 2(2,3))+
    ultimately have "utf8 c = [?b, ord_char v]" using 2(5) by (simp add: utf8_def)
    then show ?thesis using 2(1,4) by (simp add: yx)
  next
    case (3 t v w)
    let ?d = "push_bit 6 (?b AND 0x0f) OR (ord_char t AND 0x3f)"
    have e: "c = push_bit 6 ?d OR (ord_char v AND 0x3f)" unfolding 3(7) by (simp only: push_bit_or push_bit_push_bit semiring_norm or.assoc)
    have d: "drop_bit 6 c = ?d" "c AND 0x3f = ord_char v AND 0x3f" unfolding e drop_cont by simp_all
    have "drop_bit 12 c = drop_bit 6 (drop_bit 6 c)" by simp
    also have "\<dots> = ?b AND 0x0f" unfolding d drop_cont ..
    finally have "0xe0 OR drop_bit 12 c = ?b" "0x80 OR (drop_bit 6 c AND 0x3f) = ord_char t" "0x80 OR (c AND 0x3f) = ord_char v"
      unfolding d drop_cont by (simp_all only:) (rule byte_bits [symmetric], simp_all add: 3(2-4))+
    then have "utf8 c = [?b, ord_char t, ord_char v]" using 3(6) by (simp add: utf8_def)
    then show ?thesis using 3(1,5) by (simp add: yx)
  qed
qed

lemma codes_utf8:
  "codes y = cs @ w \<Longrightarrow> \<forall>c \<in> set cs. init_safe c \<and> c \<le> 0xffff \<Longrightarrow> take (length (concat (map utf8 cs))) (map ord_char y) = concat (map utf8 cs)"
proof (induction cs arbitrary: y)
  case (Cons c cs)
  then have ne: "y \<noteq> []" by auto
  let ?z = "snd (re_next_char y)"
  have c: "re_next_char y = (c, ?z)" "codes ?z = cs @ w" using Cons.prems(1) codes_Cons [OF ne] by (auto simp: prod_eq_iff)
  have "map ord_char y = utf8 c @ map ord_char ?z" using re_next_char_utf8 [OF c(1) ne] Cons.prems(2) by simp
  then show ?case using Cons.IH [OF c(2)] Cons.prems(2) by simp
qed simp

lemma utf8_lead: "0 \<le> c \<Longrightarrow> c \<le> 0xffff \<Longrightarrow> utf8 c \<noteq> [] \<and> hd (utf8 c) AND 0xc0 \<noteq> 0x80"
proof -
  assume c: "0 \<le> c" "c \<le> 0xffff"
  have 1: "c \<le> 127 \<Longrightarrow> c AND 0xc0 \<noteq> 0x80"
  proof
    assume "c \<le> 127" "c AND 0xc0 = 0x80"
    moreover have "c AND 0xc0 \<le> c" using c(1) by (rule AND_upper1)
    ultimately show False by simp
  qed
  have 2: "(0xc0 OR x) AND 0xc0 \<noteq> 0x80" "(0xe0 OR x) AND 0xc0 \<noteq> 0x80" for x :: int
  proof -
    have "bit ((0xc0 OR x) AND 0xc0) 6" "bit ((0xe0 OR x) AND 0xc0) 6" "\<not> bit (0x80 :: int) 6" by (simp_all add: bit_simps)
    then show "(0xc0 OR x) AND 0xc0 \<noteq> 0x80" "(0xe0 OR x) AND 0xc0 \<noteq> 0x80" by metis+
  qed
  show ?thesis using 1 2 unfolding utf8_def by (cases "c \<le> 127"; cases "c \<le> 0xfff") simp_all
qed

text \<open>The characters of the initial text.\<close>

lemma init_text_chars:
  "\<exists>cs Q. P = map (Pair RE_OP_MATCH) cs @ Q \<and> init_text P acc = acc @ concat (map utf8 cs) \<and> (\<forall>c \<in> set cs. 0 \<le> c \<and> c \<le> 0xffff)"
proof (induction P acc rule: init_text.induct)
  case (1 acc)
  then show ?case by simp
next
  case (2 oper x P acc)
  show ?case
  proof (cases "length acc < 10 \<and> oper = RE_OP_MATCH \<and> 0 \<le> x \<and> x \<le> 0xffff")
    case True
    then have o: "length acc < 10 \<and> oper = RE_OP_MATCH" by simp
    have "\<exists>cs Q. P = map (Pair RE_OP_MATCH) cs @ Q \<and> init_text ((oper, x) # P) acc = (acc @ utf8 x) @ concat (map utf8 cs) \<and> (\<forall>c \<in> set cs. 0 \<le> c \<and> c \<le> 0xffff)"
    proof (cases "x \<le> 127")
      case le: True
      then show ?thesis using 2(1) [OF o] True by (simp add: utf8_def [of x])
    next
      case gt: False
      show ?thesis
      proof (cases "x \<le> 0xfff")
        case le: True
        then show ?thesis using 2(2) [OF o] True gt by (simp add: utf8_def [of x])
      next
        case gt2: False
        then show ?thesis using 2(3) [OF o] True gt by (simp add: utf8_def [of x])
      qed
    qed
    then obtain cs Q where "P = map (Pair RE_OP_MATCH) cs @ Q" "init_text ((oper, x) # P) acc = (acc @ utf8 x) @ concat (map utf8 cs)"
      "\<forall>c \<in> set cs. 0 \<le> c \<and> c \<le> 0xffff" by blast
    then show ?thesis using True by (intro exI [of _ "x # cs"] exI [of _ Q]) simp
  next
    case False
    then have "init_text ((oper, x) # P) acc = acc" by auto
    then show ?thesis by - (rule exI [of _ "[]"], simp del: init_text.simps)
  qed
qed

section \<open>The search\<close>

lemma skip_init_found:
  "skip_init zi z = Some y \<Longrightarrow> \<exists>x. z = x @ y \<and> take (length zi) (map ord_char y) = zi"
proof (induction zi z rule: skip_init.induct)
  case (2 zi b z)
  show ?case
  proof (cases "take (length zi) (map ord_char (b # z)) = zi")
    case True
    then show ?thesis using 2(2) by (intro exI [of _ "[]"]) (auto split: if_splits)
  next
    case False
    then have "skip_init zi z = Some y" "length zi \<le> Suc (length z)" using 2(2) by (auto split: if_splits)
    then obtain x where "z = x @ y" "take (length zi) (map ord_char y) = zi" using 2(1) False by blast
    then show ?thesis by (intro exI [of _ "b # x"]) simp
  qed
qed (auto split: if_splits)

lemma skip_init_finds:
  "take (length zi) (map ord_char y) = zi \<Longrightarrow> \<exists>v. skip_init zi (x @ y) = Some (v @ y)"
proof (induction x)
  case Nil
  have "length zi \<le> length y" using arg_cong [OF Nil, of length] by simp
  then show ?case using Nil by (cases y) (auto intro: exI [of _ "[]"])
next
  case (Cons b x)
  have "length zi \<le> length y" using arg_cong [OF Cons.prems, of length] by simp
  then show ?case using Cons.IH [OF Cons.prems] by (auto intro: exI [of _ "b # x"])
qed

text \<open>The search part of a program: its first instruction is \<^verbatim>\<open>RE_OP_ANYSTAR\<close>.\<close>

lemma accepts_anystar:
  assumes P: "op_at P 0 = Some RE_OP_ANYSTAR"
  shows "accepts P (0, p, v) \<longleftrightarrow> (\<exists>u w. v = u @ w \<and> w \<noteq> [] \<and> accepts P (1, last (p # u), w))"
proof (induction v arbitrary: p)
  case Nil
  then show ?case using P by (subst accepts_unfold) (auto elim: stp_end)
next
  case (Cons c v)
  have s: "stp P (0, p, c # v) d \<longleftrightarrow> d = (1, p, c # v) \<or> d = (0, c, v)" for d
    using P by (auto simp: eps_to_def read_to_def intro: stp.stay stp.read elim!: stp_char)
  have "accepts P (0, p, c # v) \<longleftrightarrow> accepts P (1, p, c # v) \<or> accepts P (0, c, v)"
    using P by (subst accepts_unfold) (auto simp: s)
  also have "\<dots> \<longleftrightarrow> (\<exists>u w. c # v = u @ w \<and> w \<noteq> [] \<and> accepts P (1, last (p # u), w))" (is "_ \<longleftrightarrow> ?R")
  proof
    assume "accepts P (1, p, c # v) \<or> accepts P (0, c, v)"
    then show ?R
    proof
      assume "accepts P (1, p, c # v)"
      then show ?R by - (rule exI [of _ "[]"], simp)
    next
      assume "accepts P (0, c, v)"
      then obtain u w where "v = u @ w" "w \<noteq> []" "accepts P (1, last (c # u), w)" using Cons.IH by blast
      then show ?R by - (rule exI [of _ "c # u"], simp)
    qed
  next
    assume ?R
    then obtain u w where u: "c # v = u @ w" "w \<noteq> []" "accepts P (1, last (p # u), w)" by blast
    show "accepts P (1, p, c # v) \<or> accepts P (0, c, v)"
    proof (cases u)
      case Nil
      then show ?thesis using u by simp
    next
      case (Cons d t)
      then have "v = t @ w" "accepts P (1, last (c # t), w)" using u by simp_all
      then show ?thesis using Cons.IH u(2) by blast
    qed
  qed
  finally show ?case .
qed

definition starts_with :: "re_prog \<Rightarrow> int \<Rightarrow> int list \<Rightarrow> bool" where
  "starts_with P i cs \<longleftrightarrow> seg P i (map (Pair RE_OP_MATCH) cs)"

lemma starts_with_Cons: "starts_with P i (c # cs) \<Longrightarrow> op_at P i = Some RE_OP_MATCH \<and> arg_at P i = c \<and> starts_with P (i + 1) cs"
  by (simp add: starts_with_def seg_head)

lemma stp_match:
  assumes "starts_with P i (c # cs)"
  shows "stp P (i, p, v) d \<longleftrightarrow> (\<exists>w. v = c # w \<and> d = (i + 1, c, w))"
  using starts_with_Cons [OF assms] by (auto simp: stp.simps eps_to_def read_to_def split: if_splits)

lemma accepts_starts:
  assumes "starts_with P i cs" "accepts P (i, p, v)"
  shows "\<exists>w. v = cs @ w"
  using assms
proof (induction cs arbitrary: i p v)
  case (Cons c cs)
  have "\<not> is_final P i" using starts_with_Cons [OF Cons.prems(1)] by simp
  then obtain d where "stp P (i, p, v) d" "accepts P d" using accepts_unfold [of P i "(p, v)"] Cons.prems(2) by blast
  then obtain w where "v = c # w" "accepts P (i + 1, c, w)" using stp_match [OF Cons.prems(1), of p v d] by blast
  then show ?case using Cons.IH [of "i + 1" c w] starts_with_Cons [OF Cons.prems(1)] by auto
qed simp

lemma accepts_prev:
  assumes "starts_with P i (c # cs)"
  shows "accepts P (i, p, v) \<longleftrightarrow> accepts P (i, q, v)"
  using starts_with_Cons [OF assms] stp_match [OF assms] by (subst (1 2) accepts_unfold) simp

lemma utf8_starts_lead:
  assumes "take (length (concat (map utf8 cs))) (map ord_char z) = concat (map utf8 cs)" "cs \<noteq> []" "\<forall>c \<in> set cs. 0 \<le> c \<and> c \<le> 0xffff"
  shows "z \<noteq> [] \<and> lead (hd z)"
proof -
  obtain c cs' where C: "cs = c # cs'" using assms(2) by (cases cs) auto
  have l: "utf8 c \<noteq> [] \<and> hd (utf8 c) AND 0xc0 \<noteq> 0x80" using utf8_lead [of c] assms(3) C by simp
  then have h: "concat (map utf8 cs) \<noteq> []" "hd (concat (map utf8 cs)) = hd (utf8 c)" by (simp_all add: C)
  then have "z \<noteq> []" using assms(1) by auto
  moreover have "hd (take (length (concat (map utf8 cs))) (map ord_char z)) = ord_char (hd z)"
    using h(1) \<open>z \<noteq> []\<close> by (simp add: hd_map)
  ultimately show ?thesis using l h(2) assms(1) by (simp add: lead_def)
qed

lemma search_correct:
  assumes P: "op_at P 0 = Some RE_OP_ANYSTAR" "starts_with P 1 cs" and cs: "cs \<noteq> []" "\<forall>c \<in> set cs. init_safe c \<and> 0 \<le> c \<and> c \<le> 0xffff" "0 \<notin> set cs"
  shows "(\<exists>z. skip_init (concat (map utf8 cs)) s = Some z \<and> accepts P (0, 1, codes z @ [0])) \<longleftrightarrow> accepts P (0, 1, codes s @ [0])"
proof
  obtain c cs' where C: "cs = c # cs'" using cs(1) by (cases cs) auto
  note prev = accepts_prev [OF P(2) [unfolded C]]
  {
    assume "\<exists>z. skip_init (concat (map utf8 cs)) s = Some z \<and> accepts P (0, 1, codes z @ [0])"
    then obtain z where z: "skip_init (concat (map utf8 cs)) s = Some z" "accepts P (0, 1, codes z @ [0])" by blast
    then obtain x where x: "s = x @ z" "take (length (concat (map utf8 cs))) (map ord_char z) = concat (map utf8 cs)" using skip_init_found by blast
    have "lead (hd z)" using utf8_starts_lead [OF x(2) cs(1)] cs(2) by blast
    then obtain u where u: "codes s = u @ codes z" using codes_sync [of z x] x(1) by blast
    obtain v w where "codes z @ [0] = v @ w" "w \<noteq> []" "accepts P (1, last (1 # v), w)" using z(2) accepts_anystar [OF P(1)] by blast
    then have "codes s @ [0] = (u @ v) @ w" "w \<noteq> []" "accepts P (1, last (1 # u @ v), w)" using u prev [THEN iffD1] by (simp, simp, blast)
    then show "accepts P (0, 1, codes s @ [0])" unfolding accepts_anystar [OF P(1)] by blast
  next
    assume "accepts P (0, 1, codes s @ [0])"
    then obtain u w where w: "codes s @ [0] = u @ w" "w \<noteq> []" "accepts P (1, last (1 # u), w)" using accepts_anystar [OF P(1)] by blast
    obtain t where t: "w = cs @ t" using accepts_starts [OF P(2) w(3)] by blast
    obtain t' where t': "t = t' @ [0]" using w(1,2) t cs(3) by (cases t rule: rev_cases) (auto simp: append_eq_append_conv2 Cons_eq_append_conv)
    then have "codes s = u @ cs @ t'" using w(1) t by simp
    then obtain x y where y: "s = x @ y" "codes y = cs @ t'" using codes_split by blast
    obtain v where v: "skip_init (concat (map utf8 cs)) s = Some (v @ y)"
      using codes_utf8 [OF y(2)] cs(2) skip_init_finds y(1) by blast
    have "lead (hd y)" using utf8_starts_lead [OF codes_utf8 [OF y(2)] cs(1)] cs(2) by blast
    then obtain u' where "codes (v @ y) = u' @ codes y" using codes_sync [of y v] by blast
    then have "codes (v @ y) @ [0] = u' @ w" "accepts P (1, last (1 # u'), w)" using y(2) t t' w(3) prev [THEN iffD1] by (simp, blast)
    then have "accepts P (0, 1, codes (v @ y) @ [0])" unfolding accepts_anystar [OF P(1)] using w(2) by blast
    then show "\<exists>z. skip_init (concat (map utf8 cs)) s = Some z \<and> accepts P (0, 1, codes z @ [0])" using v by blast
  }
qed

lemma rx_code_match: "rx_wf r \<Longrightarrow> (RE_OP_MATCH, 0) \<notin> set (rx_code r)"
proof (induction r)
  case (Test t)
  have "(RE_OP_MATCH, 0) \<notin> set (member_code m)" for m by (cases m) auto
  then have "(RE_OP_MATCH, 0) \<notin> set (members_code ms)" for ms unfolding members_code_def by auto
  then show ?case using Test by (cases t) auto
qed auto

lemma utf8_last: "0 < c \<Longrightarrow> utf8 c \<noteq> [] \<and> last (utf8 c) \<noteq> 0"
proof -
  assume "0 < c"
  moreover have "0x80 OR (c AND 0x3f) \<noteq> 0" using or_greater_eq [of "c AND 0x3f" "0x80"] by simp
  ultimately show ?thesis by (simp add: utf8_def)
qed

text \<open>When the initial text is used, its characters have to be ones it encodes faithfully.\<close>

definition init_exact :: "re_prog \<Rightarrow> bool \<Rightarrow> bool" where
  "init_exact P nc \<longleftrightarrow> (op_at P 0 = Some RE_OP_ANYSTAR \<longrightarrow> nc \<or> (\<forall>x \<in> set P. fst x = RE_OP_MATCH \<longrightarrow> init_safe (snd x)))"

lemma init_of_chars:
  assumes P: "P = (RE_OP_ANYSTAR, y) # A @ (if e then [(RE_OP_MATCH, 0)] else []) @ [(RE_OP_ACCEPT, 0)]" and A0: "(RE_OP_MATCH, 0) \<notin> set A"
  shows "\<exists>cs. starts_with P 1 cs \<and> init_of P False = concat (map utf8 cs) \<and>
    (\<forall>c \<in> set cs. 0 < c \<and> c \<le> 0xffff \<and> (RE_OP_MATCH, c) \<in> set P)"
proof -
  let ?P = P and ?A = A and ?B = "if e then [(RE_OP_MATCH, 0)] else []"
  obtain cs Q where cs: "?A @ ?B @ [(RE_OP_ACCEPT, 0)] = map (Pair RE_OP_MATCH) cs @ Q" "init_text (?A @ ?B @ [(RE_OP_ACCEPT, 0)]) [] = concat (map utf8 cs)"
    "\<forall>c \<in> set cs. 0 \<le> c \<and> c \<le> 0xffff" using init_text_chars [of "?A @ ?B @ [(RE_OP_ACCEPT, 0)]" "[]"] by auto
  have i: "init_of ?P False = (let zi = concat (map utf8 cs) in if zi \<noteq> [] \<and> last zi = 0 then butlast zi else zi)"
    using cs(2) by (simp add: init_of_def op_at_def P)
  have mem: "(RE_OP_MATCH, c) \<in> set ?P" if "c \<in> set cs" for c unfolding P cs(1) using that by auto
  have start: "starts_with ?P 1 ds" if "cs = ds @ ds'" for ds ds'
    unfolding starts_with_def seg_def P cs(1) that by (intro exI [of _ "[(RE_OP_ANYSTAR, y)]"] exI [of _ "map (Pair RE_OP_MATCH) ds' @ Q"]) simp
  show ?thesis
  proof (cases "0 \<in> set cs")
    case False
    then have pos: "\<forall>c \<in> set cs. 0 < c" using cs(3) by (metis order_le_less)
    have "last (concat (map utf8 cs)) \<noteq> 0" if ne: "cs \<noteq> []"
    proof -
      obtain ds d where d: "cs = ds @ [d]" using ne by (cases cs rule: rev_cases) auto
      then show ?thesis using utf8_last [of d] pos by simp
    qed
    then have "init_of ?P False = concat (map utf8 cs)" unfolding i by (cases "cs = []") (simp_all add: Let_def)
    then show ?thesis using start [of cs "[]"] pos cs(3) mem by (intro exI [of _ cs]) fastforce
  next
    case True
    then obtain ds ds' where d: "cs = ds @ 0 # ds'" "0 \<notin> set ds" using split_list_first by metis
    have "(RE_OP_MATCH, 0) \<in> set (?A @ ?B @ [(RE_OP_ACCEPT, 0)])" unfolding cs(1) d(1) by simp
    then have e: "e" using A0 by (auto split: if_splits)
    have "?A @ (RE_OP_MATCH, 0) # [(RE_OP_ACCEPT, 0)] = map (Pair RE_OP_MATCH) ds @ (RE_OP_MATCH, 0) # map (Pair RE_OP_MATCH) ds' @ Q"
      using cs(1) e d(1) by simp
    then have "map (Pair RE_OP_MATCH) ds' @ Q = [(RE_OP_ACCEPT, 0)]" using A0 by (subst (asm) append_Cons_eq_iff) auto
    then have "ds' = []" by (cases ds') auto
    then have "init_of ?P False = concat (map utf8 ds)" unfolding i d(1) by (simp add: utf8_def [of 0] butlast_append)
    moreover have "\<forall>c \<in> set ds. 0 < c \<and> c \<le> 0xffff" using cs(3) d by (auto simp: order_le_less)
    ultimately show ?thesis using start [OF d(1)] mem d(1) by (intro exI [of _ ds]) auto
  qed
qed

text \<open>Matching a compiled expression, with or without the initial text.\<close>

lemma re_match_accepts:
  assumes g: "granted api" and p: "ops pRe = rx_prog a r e" "noCase pRe = nc" "zInit pRe = init_of (rx_prog a r e) nc"
    and r: "rx_wf r" "length (rx_prog a r e) \<le> 65536" and s: "NUL \<notin> set s"
    and safe: "init_exact (rx_prog a r e) nc"
  shows "re_match api pRe s = Some (if accepts (rx_prog a r e) (0, 1, chars nc s @ [0]) then 1 else 0)"
proof -
  have m: "re_match api pRe s = Some (case (if zInit pRe \<noteq> [] then skip_init (zInit pRe) s else Some s) of
      None \<Rightarrow> 0 | Some z \<Rightarrow> if accepts (rx_prog a r e) (0, 1, chars nc z @ [0]) then 1 else 0)"
    using re_match_run [OF g _ s, of pRe] prog_ok_rx [OF r(2)] unfolding p(1,2) by blast
  show ?thesis
  proof (cases "zInit pRe = []")
    case True
    then show ?thesis using m by simp
  next
    case ne: False
    have an: "op_at (rx_prog a r e) 0 = Some RE_OP_ANYSTAR" "\<not> nc" using ne p(3) by (auto simp: init_of_def split: if_splits)
    let ?P = "rx_prog a r e" and ?r = "searching a r"
    have "\<exists>y A. rx_code ?r = (RE_OP_ANYSTAR, y) # A"
      using an(1) by (cases "rx_code ?r") (auto simp: rx_prog_searching op_at_def split: if_splits)
    then obtain y A where A: "rx_code ?r = (RE_OP_ANYSTAR, y) # A" by blast
    have "rx_wf ?r" using r(1) by (simp add: searching_def)
    then have "(RE_OP_MATCH, 0) \<notin> set A" using rx_code_match [of ?r] A by simp
    moreover have "?P = (RE_OP_ANYSTAR, y) # A @ (if e then [(RE_OP_MATCH, 0)] else []) @ [(RE_OP_ACCEPT, 0)]"
      by (simp add: rx_prog_searching A)
    ultimately obtain cs where cs: "starts_with ?P 1 cs" "init_of ?P False = concat (map utf8 cs)"
      "\<forall>c \<in> set cs. 0 < c \<and> c \<le> 0xffff \<and> (RE_OP_MATCH, c) \<in> set ?P" using init_of_chars by blast
    have "cs \<noteq> []" using ne p(3) cs(2) an(2) by auto
    moreover have "\<forall>c \<in> set cs. init_safe c \<and> 0 \<le> c \<and> c \<le> 0xffff" "0 \<notin> set cs"
      using safe an cs(3) unfolding init_exact_def by fastforce+
    ultimately have "(\<exists>z. skip_init (concat (map utf8 cs)) s = Some z \<and> accepts ?P (0, 1, codes z @ [0])) \<longleftrightarrow> accepts ?P (0, 1, codes s @ [0])"
      using search_correct [OF an(1) cs(1)] by blast
    then show ?thesis using m ne p(3) cs(2) an(2) by (auto split: option.splits)
  qed
qed

section \<open>The REGEXP operator\<close>

text \<open>
  C9: For a pattern of the grammar that stands for the expression \<open>r\<close>, with or without \<^verbatim>\<open>^\<close> and \<^verbatim>\<open>$\<close>, and a text that is the UTF-8 encoding
  of the characters \<open>us\<close>, the SQL function returns 1 if these characters have a part that \<open>r\<close> matches, from their start and to their end where the pattern asks for that,
  and 0 otherwise; compiled now or taken from the auxiliary data of an earlier call, with or without
  the search for the initial text, with or without regard to case.  The grammar leaves out \<^verbatim>\<open>X{0,q}\<close> with \<open>q\<close> of at least 2, a repetition of a repetition without
  parentheses, and escaped capital letters where case does not count; the last character of the text must not have four bytes; memory has to be granted, the program has to fit into 16-bit
  state numbers, and a pattern whose initial text is looked for must not ask for the characters U+0800 to U+0FFF or U+FFFD.
\<close>

theorem regexp_correct:
  assumes api: "api_spec api" "granted api" and syn: "pattern_syn nc (c_str z) a r e"
    and len: "length (rx_prog a r e) \<le> 65536" and init: "init_exact (rx_prog a r e) nc"
  shows "\<exists>pRe. \<forall>us s aux. encodes us (c_str s) \<longrightarrow> aux \<in> {None, Some pRe} \<longrightarrow> re_sql_func api nc aux (SQLITE_TEXT z) (SQLITE_TEXT s) =
    Some (ResInt (if finds a r e (map (fold_case nc) us) then 1 else 0), Some pRe)"
proof -
  have NUL: "NUL \<notin> set (c_str s)" for s unfolding c_str_def by (metis (mono_tags, lifting) set_takeWhileD)
  obtain pRe where p: "re_compile api (c_str z) nc = Some (None, Some pRe)" "ops pRe = rx_prog a r e" "noCase pRe = nc" "zInit pRe = init_of (rx_prog a r e) nc"
    using re_compile_pattern [OF api(2) syn] by blast
  have wf: "rx_wf r" using syn by (rule pattern_wf)
  have "re_match api pRe (c_str s) = Some (if finds a r e (chars nc (c_str s)) then 1 else 0)" for s
    unfolding rx_prog_accepts [OF wf chars_not_0 [OF NUL], symmetric] by (rule re_match_accepts [OF api(2) p(2-4) wf len NUL init])
  then have "re_sql_func api nc aux (SQLITE_TEXT z) (SQLITE_TEXT s) = Some (ResInt (if finds a r e (map (fold_case nc) us) then 1 else 0), Some pRe)"
    if "encodes us (c_str s)" "aux \<in> {None, Some pRe}" for us s aux
    using that(2) by (auto simp: re_sql_func_def p(1) api_spec_simps [OF api(1)] Let_def chars_encoded [OF that(1)])
  then show ?thesis by blast
qed

definition sample_rx :: rx where
  "sample_rx = Seq (Plus (Alt (Seq (Test (Is 97)) (Seq (Test (Is 98)) Eps)) (Seq (Test AnyChar) (Seq (Test (Is 100)) Eps))))
     (Seq (between_rx (Test (OneOf True [Range 48 57])) 2 3) Eps)"

lemma sample_plain: "plain 97" "plain 98" "plain 100"
  by code_simp+

lemma utf8_char_ascii: "utf8_char 97 = ''a''" "utf8_char 98 = ''b''" "utf8_char 100 = ''d''" "utf8_char 48 = ''0''" "utf8_char 57 = ''9''"
  "utf8_char 0x6D7 = [CHR 0xDB, CHR 0x97]"
  by code_simp+

lemma sample_syn: "pattern_syn False ''(ab|.d)+[0-9]{2,3}$'' False sample_rx True"
proof -
  have el: "elem_syn False (c # z) (Test (Is u)) z" if "utf8_char u = [c]" "plain u" "scalar u" "u < 128" for c u z
    using el_char [of u z False] that by (simp add: fold_case_def)
  have cl: "class_char False (c # z) u z" if "utf8_char u = [c]" "u \<noteq> 92" "scalar u" "u < 128" for c u z
    using class_plain [of u z False] that by (simp add: fold_case_def)
  note x = sample_plain utf8_char_ascii scalar_def
  have ab: "string_syn False ''ab|.d)+[0-9]{2,3}$'' (Seq (Test (Is 97)) (Seq (Test (Is 98)) Eps)) ''|.d)+[0-9]{2,3}$''"
    by (rule str_elem [OF el str_elem [OF el str_end]]) (simp_all add: at_end_def x)
  have d: "string_syn False ''.d)+[0-9]{2,3}$'' (Seq (Test AnyChar) (Seq (Test (Is 100)) Eps)) '')+[0-9]{2,3}$''"
    by (rule str_elem [OF el_any str_elem [OF el str_end]]) (simp_all add: at_end_def x)
  have c: "class_syn False ''0-9]{2,3}$'' [Range 48 57] ''{2,3}$''"
    by (rule class_last [OF mem_range [OF cl cl]]) (simp_all add: posix_class_def x)
  have n: "suffix_syn ''{2,3}$'' (\<lambda>r. between_rx r 2 3) ''$''"
    using suf_between [of "''2''" 2 3 "''3''" "''$''"] by (simp add: count_ok_def count_value_def isdigit_def ord_char_def)
  have "string_syn False ''(ab|.d)+[0-9]{2,3}$'' sample_rx ''$''"
    unfolding sample_rx_def
    by (rule str_suffix [OF el_group [OF re_alt [OF re_one [OF ab] d]] suf_plus str_suffix [OF el_class [OF c] n str_end]])
      (simp_all add: at_end_def)
  then show ?thesis using pat_anywhere [OF re_one, of False _ sample_rx True] by simp
qed

lemma regexp_correct_witness:
  "finds False sample_rx True [120, 97, 98, 0x6D7, 100, 49, 50] \<and> \<not> finds False sample_rx True [97, 98, 122, 100, 49]"
proof -
  let ?z = "''(ab|.d)+[0-9]{2,3}$''" and ?s = "''xab'' @ [CHR 0xDB, CHR 0x97] @ ''d12''" and ?t = "''abzd1''"
  have "init_exact (rx_prog False sample_rx True) False" by code_simp
  moreover have "length (rx_prog False sample_rx True) = 20" "c_str ?z = ?z" by code_simp+
  ultimately have "\<exists>pRe. \<forall>us s aux. encodes us (c_str s) \<longrightarrow> aux \<in> {None, Some pRe} \<longrightarrow> re_sql_func ample_api False aux (SQLITE_TEXT ?z) (SQLITE_TEXT s) =
    Some (ResInt (if finds False sample_rx True (map (fold_case False) us) then 1 else 0), Some pRe)"
    using regexp_correct [of ample_api False ?z False sample_rx True] ample_api_spec granted_ample sample_syn by simp
  then have R: "map_option fst (re_sql_func ample_api False None (SQLITE_TEXT ?z) (SQLITE_TEXT s)) =
    Some (ResInt (if finds False sample_rx True (map (fold_case False) us) then 1 else 0))" if "encodes us (c_str s)" for us s using that by auto
  have "encodes [120, 97, 98, 0x6D7, 100, 49, 50] (c_str ?s)" "encodes [97, 98, 122, 100, 49] (c_str ?t)" by code_simp+
  note S = R [OF this(1)] R [OF this(2)]
  have "map_option fst (re_sql_func ample_api False None (SQLITE_TEXT ?z) (SQLITE_TEXT ?s)) = Some (ResInt 1)"
    "map_option fst (re_sql_func ample_api False None (SQLITE_TEXT ?z) (SQLITE_TEXT ?t)) = Some (ResInt 0)" by code_simp+
  then show ?thesis unfolding S by (simp add: fold_case_def split: if_splits)
qed

text \<open>What the function answers, without the record it keeps.\<close>

definition regexp_result :: "bool \<Rightarrow> string \<Rightarrow> string \<Rightarrow> sql_result option" where
  "regexp_result nc z s = map_option fst (re_sql_func ample_api nc None (SQLITE_TEXT z) (SQLITE_TEXT s))"

text \<open>
  Outside the assumptions above the answers differ from what the patterns mean: \<^verbatim>\<open>^a{0,2}$\<close> accepts the text \<^verbatim>\<open>b\<close>, because
  the optional copies begin at the wrong place; \<^verbatim>\<open>\u0900\<close> does not find this character, although \<^verbatim>\<open>^\u0900\<close> does, because
  the initial text has a wrong encoding of it; a character of four bytes at the end of a text counts as four
  characters; the pattern \<^verbatim>\<open>\x41\<close> without regard to case does not find the letter A; \<^verbatim>\<open>a{0,}\<close> is refused; and matching \<^verbatim>\<open>a{0,3}??\<close> looks at an instruction behind the end of the program.
\<close>

theorem regexp_findings:
  "regexp_result False ''^a{0,2}$'' ''b'' = Some (ResInt 1) \<and>
   regexp_result False (CHR 0x5C # ''u0900'') [CHR 0xE0, CHR 0xA4, CHR 0x80] = Some (ResInt 0) \<and>
   regexp_result False (''^'' @ CHR 0x5C # ''u0900'') [CHR 0xE0, CHR 0xA4, CHR 0x80] = Some (ResInt 1) \<and>
   regexp_result False ''^.$'' [CHR 0xF0, CHR 0x9F, CHR 0x98, CHR 0x80] = Some (ResInt 0) \<and>
   regexp_result False ''^....$'' [CHR 0xF0, CHR 0x9F, CHR 0x98, CHR 0x80] = Some (ResInt 1) \<and>
   regexp_result True (CHR 0x5C # ''x41'') ''A'' = Some (ResInt 0) \<and>
   regexp_result False ''a{0,}'' ''a'' = Some (ResError (''both m and n are zero in '' @ quoted ''{m,n}'')) \<and>
   regexp_result False ''a{0,3}??'' [] = None"
  by code_simp

end
