(* ===== verification/Keccak.thy ===== *)
theory Keccak
  imports Prelude
begin

text \<open>
  The permutation of the SHA3 functions (\<^verbatim>\<open>ext/misc/shathree.c\<close> within \<^verbatim>\<open>mvsqlite-sqlite3/shell.c\<close>).
  \<^verbatim>\<open>KeccakF1600Step\<close> works in place: each of its four unrolled rounds leaves the lanes where the next one
  expects them, and after four rounds every lane is back at its own place.  The reference is the
  permutation of FIPS 202, with the five step mappings, the offsets and the round constants computed as
  the standard defines them.
\<close>

type_synonym u64 = "64 word"

section \<open>The rounds of the code\<close>

definition ROL64 :: "u64 \<Rightarrow> nat \<Rightarrow> u64" where
  "ROL64 a x = push_bit x a OR drop_bit (64 - x) a"

definition RC :: "u64 list" where
  "RC = [0x0000000000000001, 0x0000000000008082, 0x800000000000808a, 0x8000000080008000,
         0x000000000000808b, 0x0000000080000001, 0x8000000080008081, 0x8000000000008009,
         0x000000000000008a, 0x0000000000000088, 0x0000000080008009, 0x000000008000000a,
         0x000000008000808b, 0x800000000000008b, 0x8000000000008089, 0x8000000000008003,
         0x8000000000008002, 0x8000000000000080, 0x000000000000800a, 0x800000008000000a,
         0x8000000080008081, 0x8000000000008080, 0x0000000080000001, 0x8000000080008008]"

definition keccak_r0 :: "u64 \<Rightarrow> u64 list \<Rightarrow> u64 list" where
  "keccak_r0 rc s =
     (let a00 = s ! 0; a01 = s ! 1; a02 = s ! 2; a03 = s ! 3; a04 = s ! 4;
          a10 = s ! 5; a11 = s ! 6; a12 = s ! 7; a13 = s ! 8; a14 = s ! 9;
          a20 = s ! 10; a21 = s ! 11; a22 = s ! 12; a23 = s ! 13; a24 = s ! 14;
          a30 = s ! 15; a31 = s ! 16; a32 = s ! 17; a33 = s ! 18; a34 = s ! 19;
          a40 = s ! 20; a41 = s ! 21; a42 = s ! 22; a43 = s ! 23; a44 = s ! 24;
          c0 = a00 XOR a10 XOR a20 XOR a30 XOR a40;
          c1 = a01 XOR a11 XOR a21 XOR a31 XOR a41;
          c2 = a02 XOR a12 XOR a22 XOR a32 XOR a42;
          c3 = a03 XOR a13 XOR a23 XOR a33 XOR a43;
          c4 = a04 XOR a14 XOR a24 XOR a34 XOR a44;
          d0 = c4 XOR ROL64 c1 1; d1 = c0 XOR ROL64 c2 1; d2 = c1 XOR ROL64 c3 1;
          d3 = c2 XOR ROL64 c4 1; d4 = c3 XOR ROL64 c0 1;
          b0 = a00 XOR d0; b1 = ROL64 (a11 XOR d1) 44; b2 = ROL64 (a22 XOR d2) 43;
          b3 = ROL64 (a33 XOR d3) 21; b4 = ROL64 (a44 XOR d4) 14;
          a00 = b0 XOR (NOT b1 AND b2); a00 = a00 XOR rc; a11 = b1 XOR (NOT b2 AND b3);
          a22 = b2 XOR (NOT b3 AND b4); a33 = b3 XOR (NOT b4 AND b0); a44 = b4 XOR (NOT b0 AND b1);
          b2 = ROL64 (a20 XOR d0) 3; b3 = ROL64 (a31 XOR d1) 45; b4 = ROL64 (a42 XOR d2) 61;
          b0 = ROL64 (a03 XOR d3) 28; b1 = ROL64 (a14 XOR d4) 20;
          a20 = b0 XOR (NOT b1 AND b2); a31 = b1 XOR (NOT b2 AND b3); a42 = b2 XOR (NOT b3 AND b4);
          a03 = b3 XOR (NOT b4 AND b0); a14 = b4 XOR (NOT b0 AND b1);
          b4 = ROL64 (a40 XOR d0) 18; b0 = ROL64 (a01 XOR d1) 1; b1 = ROL64 (a12 XOR d2) 6;
          b2 = ROL64 (a23 XOR d3) 25; b3 = ROL64 (a34 XOR d4) 8;
          a40 = b0 XOR (NOT b1 AND b2); a01 = b1 XOR (NOT b2 AND b3); a12 = b2 XOR (NOT b3 AND b4);
          a23 = b3 XOR (NOT b4 AND b0); a34 = b4 XOR (NOT b0 AND b1);
          b1 = ROL64 (a10 XOR d0) 36; b2 = ROL64 (a21 XOR d1) 10; b3 = ROL64 (a32 XOR d2) 15;
          b4 = ROL64 (a43 XOR d3) 56; b0 = ROL64 (a04 XOR d4) 27;
          a10 = b0 XOR (NOT b1 AND b2); a21 = b1 XOR (NOT b2 AND b3); a32 = b2 XOR (NOT b3 AND b4);
          a43 = b3 XOR (NOT b4 AND b0); a04 = b4 XOR (NOT b0 AND b1);
          b3 = ROL64 (a30 XOR d0) 41; b4 = ROL64 (a41 XOR d1) 2; b0 = ROL64 (a02 XOR d2) 62;
          b1 = ROL64 (a13 XOR d3) 55; b2 = ROL64 (a24 XOR d4) 39;
          a30 = b0 XOR (NOT b1 AND b2); a41 = b1 XOR (NOT b2 AND b3); a02 = b2 XOR (NOT b3 AND b4);
          a13 = b3 XOR (NOT b4 AND b0); a24 = b4 XOR (NOT b0 AND b1)
      in [a00, a01, a02, a03, a04,
          a10, a11, a12, a13, a14,
          a20, a21, a22, a23, a24,
          a30, a31, a32, a33, a34,
          a40, a41, a42, a43, a44])"

definition keccak_r1 :: "u64 \<Rightarrow> u64 list \<Rightarrow> u64 list" where
  "keccak_r1 rc s =
     (let a00 = s ! 0; a01 = s ! 1; a02 = s ! 2; a03 = s ! 3; a04 = s ! 4;
          a10 = s ! 5; a11 = s ! 6; a12 = s ! 7; a13 = s ! 8; a14 = s ! 9;
          a20 = s ! 10; a21 = s ! 11; a22 = s ! 12; a23 = s ! 13; a24 = s ! 14;
          a30 = s ! 15; a31 = s ! 16; a32 = s ! 17; a33 = s ! 18; a34 = s ! 19;
          a40 = s ! 20; a41 = s ! 21; a42 = s ! 22; a43 = s ! 23; a44 = s ! 24;
          c0 = a00 XOR a20 XOR a40 XOR a10 XOR a30;
          c1 = a11 XOR a31 XOR a01 XOR a21 XOR a41;
          c2 = a22 XOR a42 XOR a12 XOR a32 XOR a02;
          c3 = a33 XOR a03 XOR a23 XOR a43 XOR a13;
          c4 = a44 XOR a14 XOR a34 XOR a04 XOR a24;
          d0 = c4 XOR ROL64 c1 1; d1 = c0 XOR ROL64 c2 1; d2 = c1 XOR ROL64 c3 1;
          d3 = c2 XOR ROL64 c4 1; d4 = c3 XOR ROL64 c0 1;
          b0 = a00 XOR d0; b1 = ROL64 (a31 XOR d1) 44; b2 = ROL64 (a12 XOR d2) 43;
          b3 = ROL64 (a43 XOR d3) 21; b4 = ROL64 (a24 XOR d4) 14;
          a00 = b0 XOR (NOT b1 AND b2); a00 = a00 XOR rc; a31 = b1 XOR (NOT b2 AND b3);
          a12 = b2 XOR (NOT b3 AND b4); a43 = b3 XOR (NOT b4 AND b0); a24 = b4 XOR (NOT b0 AND b1);
          b2 = ROL64 (a40 XOR d0) 3; b3 = ROL64 (a21 XOR d1) 45; b4 = ROL64 (a02 XOR d2) 61;
          b0 = ROL64 (a33 XOR d3) 28; b1 = ROL64 (a14 XOR d4) 20;
          a40 = b0 XOR (NOT b1 AND b2); a21 = b1 XOR (NOT b2 AND b3); a02 = b2 XOR (NOT b3 AND b4);
          a33 = b3 XOR (NOT b4 AND b0); a14 = b4 XOR (NOT b0 AND b1);
          b4 = ROL64 (a30 XOR d0) 18; b0 = ROL64 (a11 XOR d1) 1; b1 = ROL64 (a42 XOR d2) 6;
          b2 = ROL64 (a23 XOR d3) 25; b3 = ROL64 (a04 XOR d4) 8;
          a30 = b0 XOR (NOT b1 AND b2); a11 = b1 XOR (NOT b2 AND b3); a42 = b2 XOR (NOT b3 AND b4);
          a23 = b3 XOR (NOT b4 AND b0); a04 = b4 XOR (NOT b0 AND b1);
          b1 = ROL64 (a20 XOR d0) 36; b2 = ROL64 (a01 XOR d1) 10; b3 = ROL64 (a32 XOR d2) 15;
          b4 = ROL64 (a13 XOR d3) 56; b0 = ROL64 (a44 XOR d4) 27;
          a20 = b0 XOR (NOT b1 AND b2); a01 = b1 XOR (NOT b2 AND b3); a32 = b2 XOR (NOT b3 AND b4);
          a13 = b3 XOR (NOT b4 AND b0); a44 = b4 XOR (NOT b0 AND b1);
          b3 = ROL64 (a10 XOR d0) 41; b4 = ROL64 (a41 XOR d1) 2; b0 = ROL64 (a22 XOR d2) 62;
          b1 = ROL64 (a03 XOR d3) 55; b2 = ROL64 (a34 XOR d4) 39;
          a10 = b0 XOR (NOT b1 AND b2); a41 = b1 XOR (NOT b2 AND b3); a22 = b2 XOR (NOT b3 AND b4);
          a03 = b3 XOR (NOT b4 AND b0); a34 = b4 XOR (NOT b0 AND b1)
      in [a00, a01, a02, a03, a04,
          a10, a11, a12, a13, a14,
          a20, a21, a22, a23, a24,
          a30, a31, a32, a33, a34,
          a40, a41, a42, a43, a44])"

definition keccak_r2 :: "u64 \<Rightarrow> u64 list \<Rightarrow> u64 list" where
  "keccak_r2 rc s =
     (let a00 = s ! 0; a01 = s ! 1; a02 = s ! 2; a03 = s ! 3; a04 = s ! 4;
          a10 = s ! 5; a11 = s ! 6; a12 = s ! 7; a13 = s ! 8; a14 = s ! 9;
          a20 = s ! 10; a21 = s ! 11; a22 = s ! 12; a23 = s ! 13; a24 = s ! 14;
          a30 = s ! 15; a31 = s ! 16; a32 = s ! 17; a33 = s ! 18; a34 = s ! 19;
          a40 = s ! 20; a41 = s ! 21; a42 = s ! 22; a43 = s ! 23; a44 = s ! 24;
          c0 = a00 XOR a40 XOR a30 XOR a20 XOR a10;
          c1 = a31 XOR a21 XOR a11 XOR a01 XOR a41;
          c2 = a12 XOR a02 XOR a42 XOR a32 XOR a22;
          c3 = a43 XOR a33 XOR a23 XOR a13 XOR a03;
          c4 = a24 XOR a14 XOR a04 XOR a44 XOR a34;
          d0 = c4 XOR ROL64 c1 1; d1 = c0 XOR ROL64 c2 1; d2 = c1 XOR ROL64 c3 1;
          d3 = c2 XOR ROL64 c4 1; d4 = c3 XOR ROL64 c0 1;
          b0 = a00 XOR d0; b1 = ROL64 (a21 XOR d1) 44; b2 = ROL64 (a42 XOR d2) 43;
          b3 = ROL64 (a13 XOR d3) 21; b4 = ROL64 (a34 XOR d4) 14;
          a00 = b0 XOR (NOT b1 AND b2); a00 = a00 XOR rc; a21 = b1 XOR (NOT b2 AND b3);
          a42 = b2 XOR (NOT b3 AND b4); a13 = b3 XOR (NOT b4 AND b0); a34 = b4 XOR (NOT b0 AND b1);
          b2 = ROL64 (a30 XOR d0) 3; b3 = ROL64 (a01 XOR d1) 45; b4 = ROL64 (a22 XOR d2) 61;
          b0 = ROL64 (a43 XOR d3) 28; b1 = ROL64 (a14 XOR d4) 20;
          a30 = b0 XOR (NOT b1 AND b2); a01 = b1 XOR (NOT b2 AND b3); a22 = b2 XOR (NOT b3 AND b4);
          a43 = b3 XOR (NOT b4 AND b0); a14 = b4 XOR (NOT b0 AND b1);
          b4 = ROL64 (a10 XOR d0) 18; b0 = ROL64 (a31 XOR d1) 1; b1 = ROL64 (a02 XOR d2) 6;
          b2 = ROL64 (a23 XOR d3) 25; b3 = ROL64 (a44 XOR d4) 8;
          a10 = b0 XOR (NOT b1 AND b2); a31 = b1 XOR (NOT b2 AND b3); a02 = b2 XOR (NOT b3 AND b4);
          a23 = b3 XOR (NOT b4 AND b0); a44 = b4 XOR (NOT b0 AND b1);
          b1 = ROL64 (a40 XOR d0) 36; b2 = ROL64 (a11 XOR d1) 10; b3 = ROL64 (a32 XOR d2) 15;
          b4 = ROL64 (a03 XOR d3) 56; b0 = ROL64 (a24 XOR d4) 27;
          a40 = b0 XOR (NOT b1 AND b2); a11 = b1 XOR (NOT b2 AND b3); a32 = b2 XOR (NOT b3 AND b4);
          a03 = b3 XOR (NOT b4 AND b0); a24 = b4 XOR (NOT b0 AND b1);
          b3 = ROL64 (a20 XOR d0) 41; b4 = ROL64 (a41 XOR d1) 2; b0 = ROL64 (a12 XOR d2) 62;
          b1 = ROL64 (a33 XOR d3) 55; b2 = ROL64 (a04 XOR d4) 39;
          a20 = b0 XOR (NOT b1 AND b2); a41 = b1 XOR (NOT b2 AND b3); a12 = b2 XOR (NOT b3 AND b4);
          a33 = b3 XOR (NOT b4 AND b0); a04 = b4 XOR (NOT b0 AND b1)
      in [a00, a01, a02, a03, a04,
          a10, a11, a12, a13, a14,
          a20, a21, a22, a23, a24,
          a30, a31, a32, a33, a34,
          a40, a41, a42, a43, a44])"

definition keccak_r3 :: "u64 \<Rightarrow> u64 list \<Rightarrow> u64 list" where
  "keccak_r3 rc s =
     (let a00 = s ! 0; a01 = s ! 1; a02 = s ! 2; a03 = s ! 3; a04 = s ! 4;
          a10 = s ! 5; a11 = s ! 6; a12 = s ! 7; a13 = s ! 8; a14 = s ! 9;
          a20 = s ! 10; a21 = s ! 11; a22 = s ! 12; a23 = s ! 13; a24 = s ! 14;
          a30 = s ! 15; a31 = s ! 16; a32 = s ! 17; a33 = s ! 18; a34 = s ! 19;
          a40 = s ! 20; a41 = s ! 21; a42 = s ! 22; a43 = s ! 23; a44 = s ! 24;
          c0 = a00 XOR a30 XOR a10 XOR a40 XOR a20;
          c1 = a21 XOR a01 XOR a31 XOR a11 XOR a41;
          c2 = a42 XOR a22 XOR a02 XOR a32 XOR a12;
          c3 = a13 XOR a43 XOR a23 XOR a03 XOR a33;
          c4 = a34 XOR a14 XOR a44 XOR a24 XOR a04;
          d0 = c4 XOR ROL64 c1 1; d1 = c0 XOR ROL64 c2 1; d2 = c1 XOR ROL64 c3 1;
          d3 = c2 XOR ROL64 c4 1; d4 = c3 XOR ROL64 c0 1;
          b0 = a00 XOR d0; b1 = ROL64 (a01 XOR d1) 44; b2 = ROL64 (a02 XOR d2) 43;
          b3 = ROL64 (a03 XOR d3) 21; b4 = ROL64 (a04 XOR d4) 14;
          a00 = b0 XOR (NOT b1 AND b2); a00 = a00 XOR rc; a01 = b1 XOR (NOT b2 AND b3);
          a02 = b2 XOR (NOT b3 AND b4); a03 = b3 XOR (NOT b4 AND b0); a04 = b4 XOR (NOT b0 AND b1);
          b2 = ROL64 (a10 XOR d0) 3; b3 = ROL64 (a11 XOR d1) 45; b4 = ROL64 (a12 XOR d2) 61;
          b0 = ROL64 (a13 XOR d3) 28; b1 = ROL64 (a14 XOR d4) 20;
          a10 = b0 XOR (NOT b1 AND b2); a11 = b1 XOR (NOT b2 AND b3); a12 = b2 XOR (NOT b3 AND b4);
          a13 = b3 XOR (NOT b4 AND b0); a14 = b4 XOR (NOT b0 AND b1);
          b4 = ROL64 (a20 XOR d0) 18; b0 = ROL64 (a21 XOR d1) 1; b1 = ROL64 (a22 XOR d2) 6;
          b2 = ROL64 (a23 XOR d3) 25; b3 = ROL64 (a24 XOR d4) 8;
          a20 = b0 XOR (NOT b1 AND b2); a21 = b1 XOR (NOT b2 AND b3); a22 = b2 XOR (NOT b3 AND b4);
          a23 = b3 XOR (NOT b4 AND b0); a24 = b4 XOR (NOT b0 AND b1);
          b1 = ROL64 (a30 XOR d0) 36; b2 = ROL64 (a31 XOR d1) 10; b3 = ROL64 (a32 XOR d2) 15;
          b4 = ROL64 (a33 XOR d3) 56; b0 = ROL64 (a34 XOR d4) 27;
          a30 = b0 XOR (NOT b1 AND b2); a31 = b1 XOR (NOT b2 AND b3); a32 = b2 XOR (NOT b3 AND b4);
          a33 = b3 XOR (NOT b4 AND b0); a34 = b4 XOR (NOT b0 AND b1);
          b3 = ROL64 (a40 XOR d0) 41; b4 = ROL64 (a41 XOR d1) 2; b0 = ROL64 (a42 XOR d2) 62;
          b1 = ROL64 (a43 XOR d3) 55; b2 = ROL64 (a44 XOR d4) 39;
          a40 = b0 XOR (NOT b1 AND b2); a41 = b1 XOR (NOT b2 AND b3); a42 = b2 XOR (NOT b3 AND b4);
          a43 = b3 XOR (NOT b4 AND b0); a44 = b4 XOR (NOT b0 AND b1)
      in [a00, a01, a02, a03, a04,
          a10, a11, a12, a13, a14,
          a20, a21, a22, a23, a24,
          a30, a31, a32, a33, a34,
          a40, a41, a42, a43, a44])"

text \<open>The body of the loop over \<open>i\<close>, and the loop.\<close>

definition keccak_body :: "u64 list \<Rightarrow> nat \<Rightarrow> u64 list" where
  "keccak_body s i =
     keccak_r3 (RC ! (i + 3)) (keccak_r2 (RC ! (i + 2)) (keccak_r1 (RC ! (i + 1)) (keccak_r0 (RC ! i) s)))"

definition keccak_loop :: "u64 list \<Rightarrow> u64 list" where
  "keccak_loop s = foldl keccak_body s [0, 4, 8, 12, 16, 20]"

section \<open>The reference\<close>

text \<open>Lane \<open>(x, y)\<close> is the element \<open>5 * y + x\<close>.\<close>

definition lanes :: "(nat \<Rightarrow> nat \<Rightarrow> u64) \<Rightarrow> u64 list" where
  "lanes f = map (\<lambda>k. f (k mod 5) (k div 5)) [0..<25]"

definition lane :: "u64 list \<Rightarrow> nat \<Rightarrow> nat \<Rightarrow> u64" where
  "lane A x y = A ! (5 * (y mod 5) + x mod 5)"

definition theta :: "u64 list \<Rightarrow> u64 list" where
  "theta A =
     (let C = (\<lambda>x. lane A x 0 XOR lane A x 1 XOR lane A x 2 XOR lane A x 3 XOR lane A x 4);
          D = (\<lambda>x. C (x + 4) XOR word_rotl 1 (C (x + 1)))
      in lanes (\<lambda>x y. lane A x y XOR D x))"

text \<open>The offsets, in the order in which the standard walks over the lanes.\<close>

fun rho_walk :: "nat \<Rightarrow> nat \<Rightarrow> nat \<Rightarrow> nat \<Rightarrow> (nat \<Rightarrow> nat \<Rightarrow> nat) \<Rightarrow> nat \<Rightarrow> nat \<Rightarrow> nat" where
  "rho_walk 0 t x y R = R"
| "rho_walk (Suc n) t x y R =
     rho_walk n (t + 1) y ((2 * x + 3 * y) mod 5)
       (\<lambda>x' y'. if x' = x \<and> y' = y then (t + 1) * (t + 2) div 2 mod 64 else R x' y')"

definition rho_offset :: "nat \<Rightarrow> nat \<Rightarrow> nat" where
  "rho_offset = rho_walk 24 0 1 0 (\<lambda>x y. 0)"

definition rho :: "u64 list \<Rightarrow> u64 list" where
  "rho A = lanes (\<lambda>x y. word_rotl (rho_offset x y) (lane A x y))"

definition pi_map :: "u64 list \<Rightarrow> u64 list" where
  "pi_map A = lanes (\<lambda>x y. lane A (x + 3 * y) x)"

definition chi :: "u64 list \<Rightarrow> u64 list" where
  "chi A = lanes (\<lambda>x y. lane A x y XOR (NOT (lane A (x + 1) y) AND lane A (x + 2) y))"

definition iota :: "u64 \<Rightarrow> u64 list \<Rightarrow> u64 list" where
  "iota rc A = A[0 := lane A 0 0 XOR rc]"

text \<open>The round constants come from a linear feedback shift register of eight bits.\<close>

definition lfsr_step :: "bool list \<Rightarrow> bool list" where
  "lfsr_step R =
     (let R = False # R; f = (\<lambda>i. R ! i \<noteq> R ! 8)
      in take 8 (R[0 := f 0, 4 := f 4, 5 := f 5, 6 := f 6]))"

definition rc_bit :: "nat \<Rightarrow> bool" where
  "rc_bit t = ((lfsr_step ^^ (t mod 255)) [True, False, False, False, False, False, False, False] ! 0)"

definition round_constant :: "nat \<Rightarrow> u64" where
  "round_constant ir =
     foldl (\<lambda>w j. if rc_bit (j + 7 * ir) then w XOR push_bit (2 ^ j - 1) 1 else w) 0 [0..<7]"

definition keccak_round :: "u64 \<Rightarrow> u64 list \<Rightarrow> u64 list" where
  "keccak_round rc A = iota rc (chi (pi_map (rho (theta A))))"

definition keccak_f :: "u64 list \<Rightarrow> u64 list" where
  "keccak_f A = foldl (\<lambda>A ir. keccak_round (round_constant ir) A) A [0..<24]"

section \<open>The rounds are the rounds of the reference\<close>

lemma ROL64_rotl:
  assumes "0 < n" "n < 64"
  shows "ROL64 w n = word_rotl n w"
proof (rule bit_word_eqI)
  fix k assume "k < LENGTH(64)"
  then have k: "k < 64" by simp
  show "bit (ROL64 w n) k = bit (word_rotl n w) k"
  proof (cases "n \<le> k")
    case True
    then have "(k + 64 - n) mod 64 = k - n" using k assms by (simp add: mod_if)
    moreover have "\<not> bit w (64 - n + k)" using True assms by (auto dest: bit_imp_le_length)
    ultimately show ?thesis using True k assms by (simp add: ROL64_def bit_simps)
  next
    case False
    then have "(k + 64 - n) mod 64 = 64 - n + k" using k assms by simp
    then show ?thesis using False k assms by (simp add: ROL64_def bit_simps)
  qed
qed

text \<open>The output of the register, step by step.\<close>

fun rc_bits :: "nat \<Rightarrow> bool list \<Rightarrow> bool list" where
  "rc_bits 0 R = []"
| "rc_bits (Suc n) R = R ! 0 # rc_bits n (lfsr_step R)"

lemma rc_bits_nth: "i < n \<Longrightarrow> rc_bits n R ! i = ((lfsr_step ^^ i) R ! 0)"
proof (induction n arbitrary: R i)
  case (Suc n)
  then show ?case by (cases i) (simp_all add: funpow_swap1)
qed simp

definition rc_table :: "bool list" where
  "rc_table = rc_bits 168 [True, False, False, False, False, False, False, False]"

lemma rc_bit_table: "t < 168 \<Longrightarrow> rc_bit t = rc_table ! t"
  by (simp add: rc_bit_def rc_table_def rc_bits_nth)

definition table_constant :: "bool list \<Rightarrow> u64" where
  "table_constant bs = foldl (\<lambda>w j. if bs ! j then w XOR push_bit (2 ^ j - 1) 1 else w) 0 [0..<7]"

lemma round_constant_table: "ir < 24 \<Longrightarrow> round_constant ir = table_constant (drop (7 * ir) rc_table)"
proof -
  have "length (rc_bits n R) = n" for n R by (induction n arbitrary: R) auto
  then have "length rc_table = 168" by (simp add: rc_table_def)
  then show "ir < 24 \<Longrightarrow> round_constant ir = table_constant (drop (7 * ir) rc_table)"
    unfolding round_constant_def table_constant_def by (intro foldl_cong) (auto simp: rc_bit_table add.commute)
qed

lemma RC_table: "(let T = rc_table in map (\<lambda>ir. table_constant (drop (7 * ir) T)) [0..<24]) = RC"
  by code_simp

lemma RC_round_constant: "ir < 24 \<Longrightarrow> RC ! ir = round_constant ir"
  using arg_cong [OF RC_table, of "\<lambda>xs. xs ! ir"] by (simp add: Let_def round_constant_table)

lemma rho_table:
  "[rho_offset x y. y \<leftarrow> [0..<5], x \<leftarrow> [0..<5]] =
    [0, 1, 62, 28, 27, 36, 44, 6, 55, 20, 3, 10, 43, 25, 39, 41, 45, 15, 21, 8, 18, 2, 61, 56, 14]"
  by code_simp

lemma upt_5_25:
  "[0..<5] = [0, 1, 2, 3, 4::nat]"
  "[0..<25] = [0, 1, 2, 3, 4, 5, 6, 7, 8, 9, 10, 11, 12, 13, 14, 15, 16, 17, 18, 19, 20, 21, 22, 23, 24::nat]"
  by code_simp+

lemma lanes_explicit:
  "lanes f = [f 0 0, f 1 0, f 2 0, f 3 0, f 4 0, f 0 1, f 1 1, f 2 1, f 3 1, f 4 1, f 0 2, f 1 2, f 2 2, f 3 2, f 4 2,
    f 0 3, f 1 3, f 2 3, f 3 3, f 4 3, f 0 4, f 1 4, f 2 4, f 3 4, f 4 4]"
  by (simp add: lanes_def upt_5_25)

text \<open>Where the lanes are after one round: lane \<open>(x, y)\<close> is in row \<open>x + 2 * y\<close> of its column.\<close>

definition shuffle :: "u64 list \<Rightarrow> u64 list" where
  "shuffle A = lanes (\<lambda>x r. lane A x (3 * r + 2 * x))"

lemmas rho_values = rho_table [simplified upt_5_25, simplified]

lemma rotl_0: "word_rotl 0 w = w" for w :: u64
  by (rule bit_word_eqI) (simp add: bit_simps)

lemmas round_defs = keccak_round_def iota_def chi_def pi_map_def rho_def theta_def shuffle_def
  lanes_explicit lane_def Let_def rho_values ROL64_rotl rotl_0 numeral_2_eq_2 [symmetric]

lemma keccak_r0_round: "keccak_r0 rc A = shuffle (keccak_round rc A)"
  unfolding keccak_r0_def by (simp add: round_defs)

lemma keccak_r1_round: "keccak_r1 rc (shuffle A) = shuffle (shuffle (keccak_round rc A))"
  unfolding keccak_r1_def by (simp add: round_defs)

lemma keccak_r2_round: "keccak_r2 rc (shuffle (shuffle A)) = shuffle (shuffle (shuffle (keccak_round rc A)))"
  unfolding keccak_r2_def by (simp add: round_defs)

lemma keccak_r3_round: "keccak_r3 rc (shuffle (shuffle (shuffle A))) = keccak_round rc A"
  unfolding keccak_r3_def by (simp add: round_defs)

lemma keccak_body_rounds:
  "keccak_body A i = keccak_round (RC ! (i + 3)) (keccak_round (RC ! (i + 2)) (keccak_round (RC ! (i + 1)) (keccak_round (RC ! i) A)))"
  by (simp add: keccak_body_def keccak_r0_round keccak_r1_round keccak_r2_round keccak_r3_round)

lemma keccak_loop_correct: "keccak_loop A = keccak_f A"
proof -
  have "[0..<24] = [0, 1, 2, 3, 4, 5, 6, 7, 8, 9, 10, 11, 12, 13, 14, 15, 16, 17, 18, 19, 20, 21, 22, 23::nat]" by code_simp
  moreover have "RC ! k = round_constant k" if "k < 24" for k using that by (rule RC_round_constant)
  ultimately show ?thesis by (simp add: keccak_loop_def keccak_body_rounds keccak_f_def numeral_2_eq_2 [symmetric])
qed

end
