(* ===== verification/Sha3.thy ===== *)
theory Sha3
  imports Keccak Sqlite_Api
begin

text \<open>
  The SHA3 hash (\<^verbatim>\<open>ext/misc/shathree.c\<close> within \<^verbatim>\<open>mvsqlite-sqlite3/shell.c\<close>): a context that takes its input
  in pieces, and the function \<^verbatim>\<open>sha3(X,SIZE)\<close>.  The code is compiled for one of three settings of
  \<^verbatim>\<open>SHA3_BYTEORDER\<close>, and one of its loops is taken only for data at an address that is a multiple of
  eight; both are parameters, and the digest is that of FIPS 202 for all of them.
\<close>

section \<open>The context\<close>

text \<open>The union of the context: \<open>u_x\<close> are its bytes, the 64-bit words are read from and written to them.\<close>

record SHA3Context =
  u_x :: "byte list"
  nRate :: nat
  nLoaded :: nat
  ixMask :: nat

record sha3_build =
  SHA3_BYTEORDER :: int
  msb_first :: bool
  aligned :: "SHA3Context \<Rightarrow> byte list \<Rightarrow> bool"
    \<comment> \<open>is the address of the data a multiple of 8?\<close>

text \<open>
  \<^verbatim>\<open>SHA3_BYTEORDER\<close> is not 1234 or 4321 on a machine of the other order.  The macros that set it see to that except on a big-endian ARM, where
  \<^verbatim>\<open>__arm__\<close> gives 1234.
\<close>

definition build_ok :: "sha3_build \<Rightarrow> bool" where
  "build_ok bld \<longleftrightarrow>
     (SHA3_BYTEORDER bld = 1234 \<longrightarrow> \<not> msb_first bld) \<and> (SHA3_BYTEORDER bld = 4321 \<longrightarrow> msb_first bld)"

definition u64_of :: "bool \<Rightarrow> byte list \<Rightarrow> u64" where
  "u64_of be bs = word_rcat (if be then bs else rev bs)"

definition u64_bytes :: "bool \<Rightarrow> u64 \<Rightarrow> byte list" where
  "u64_bytes be w = (let bs = map (\<lambda>j. ucast (drop_bit (8 * j) w)) [0..<8] in if be then rev bs else bs)"

definition get_s :: "bool \<Rightarrow> byte list \<Rightarrow> nat \<Rightarrow> u64" where
  "get_s be x i = u64_of be (take 8 (drop (8 * i) x))"

definition put_s :: "bool \<Rightarrow> byte list \<Rightarrow> nat \<Rightarrow> u64 \<Rightarrow> byte list" where
  "put_s be x i w = take (8 * i) x @ u64_bytes be w @ drop (8 * i + 8) x"

definition KeccakF1600Step :: "sha3_build \<Rightarrow> SHA3Context \<Rightarrow> SHA3Context" where
  "KeccakF1600Step bld p =
     (let s = keccak_loop (map (get_s (msb_first bld) (u_x p)) [0..<25])
      in p\<lparr>u_x := concat (map (u64_bytes (msb_first bld)) s) @ drop 200 (u_x p)\<rparr>)"

section \<open>Initialising, adding, finishing\<close>

definition SHA3Init :: "sha3_build \<Rightarrow> int \<Rightarrow> SHA3Context" where
  "SHA3Init bld iSize =
     \<lparr>u_x = replicate 1600 0,
      nRate = nat (if iSize \<ge> 128 \<and> iSize \<le> 512 then (1600 - ((iSize + 31) AND NOT 31) * 2) div 8
                   else (1600 - 2 * 256) div 8),
      nLoaded = 0,
      ixMask = (if SHA3_BYTEORDER bld = 1234 then 0 else if SHA3_BYTEORDER bld = 4321 then 7
                else if \<not> msb_first bld then 0 else 7)\<rparr>"

text \<open>The loop over whole words, with the data it leaves.\<close>

definition absorb_word :: "sha3_build \<Rightarrow> SHA3Context \<Rightarrow> byte list \<Rightarrow> SHA3Context" where
  "absorb_word bld p w =
     (let i = nLoaded p div 8;
          p = p\<lparr>u_x := put_s (msb_first bld) (u_x p) i (get_s (msb_first bld) (u_x p) i XOR u64_of (msb_first bld) w)\<rparr>;
          p = p\<lparr>nLoaded := nLoaded p + 8\<rparr>
      in if nLoaded p \<ge> nRate p then (KeccakF1600Step bld p)\<lparr>nLoaded := 0\<rparr> else p)"

function absorb_words :: "sha3_build \<Rightarrow> SHA3Context \<Rightarrow> byte list \<Rightarrow> SHA3Context \<times> byte list" where
  "absorb_words bld p aData =
     (if 7 < length aData then absorb_words bld (absorb_word bld p (take 8 aData)) (drop 8 aData) else (p, aData))"
  by pat_completeness auto
termination by (relation "measure (\<lambda>(bld, p, aData). length aData)") auto

declare absorb_words.simps [simp del]

definition absorb_byte :: "sha3_build \<Rightarrow> SHA3Context \<Rightarrow> byte \<Rightarrow> SHA3Context" where
  "absorb_byte bld p b =
     (let i = (if SHA3_BYTEORDER bld = 1234 then nLoaded p
               else if SHA3_BYTEORDER bld = 4321 then nLoaded p XOR 7
               else nLoaded p XOR ixMask p);
          p = p\<lparr>u_x := (u_x p)[i := u_x p ! i XOR b]\<rparr>;
          p = p\<lparr>nLoaded := nLoaded p + 1\<rparr>
      in if nLoaded p = nRate p then (KeccakF1600Step bld p)\<lparr>nLoaded := 0\<rparr> else p)"

text \<open>\<open>None\<close> is the NULL pointer.\<close>

definition SHA3Update :: "sha3_build \<Rightarrow> SHA3Context \<Rightarrow> byte list option \<Rightarrow> SHA3Context" where
  "SHA3Update bld p aData =
     (case aData of
        None \<Rightarrow> p
      | Some d \<Rightarrow>
          let (p, d) = (if SHA3_BYTEORDER bld = 1234 \<and> nLoaded p mod 8 = 0 \<and> aligned bld p d
                        then absorb_words bld p d else (p, d))
          in foldl (absorb_byte bld) p d)"

text \<open>The bytes from the returned pointer on.\<close>

definition SHA3Final :: "sha3_build \<Rightarrow> SHA3Context \<Rightarrow> byte list" where
  "SHA3Final bld p =
     (let p = (if nLoaded p = nRate p - 1 then SHA3Update bld p (Some [0x86])
               else let p = SHA3Update bld p (Some [0x06]);
                        p = p\<lparr>nLoaded := nRate p - 1\<rparr>
                    in SHA3Update bld p (Some [0x80]));
          x = foldl (\<lambda>x i. x[i + nRate p := x ! (i XOR ixMask p)]) (u_x p) [0..<nRate p]
      in drop (nRate p) x)"

section \<open>The function\<close>

definition bytes_of :: "string \<Rightarrow> byte list" where
  "bytes_of z = map (\<lambda>c. word_of_int (ord_char c)) z"

text \<open>\<^verbatim>\<open>sqlite3_value_blob\<close> of an empty blob is NULL, and so is the text of a value that cannot be converted.\<close>

definition sha3_data :: "sqlite3_api_routines \<Rightarrow> sqlite3_value \<Rightarrow> byte list option" where
  "sha3_data api v =
     (case v of
        SQLITE_BLOB b \<Rightarrow> if b = [] then None else Some b
      | _ \<Rightarrow> map_option bytes_of (value_text api v))"

definition sha3_sizes :: "int list" where
  "sha3_sizes = [224, 256, 384, 512]"

definition sha3_size_error :: string where
  "sha3_size_error = ''SHA3 size should be one of: 224 256 384 512''"

definition sha3_iSize :: "sqlite3_api_routines \<Rightarrow> sqlite3_value list \<Rightarrow> int option" where
  "sha3_iSize api argv =
     (if length argv = 1 then Some 256
      else let iSize = value_int api (argv ! 1) in if iSize \<notin> set sha3_sizes then None else Some iSize)"

definition sha3Func :: "sqlite3_api_routines \<Rightarrow> sha3_build \<Rightarrow> sqlite3_value list \<Rightarrow> sql_result" where
  "sha3Func api bld argv =
     (case sha3_iSize api argv of
        None \<Rightarrow> ResError sha3_size_error
      | Some iSize \<Rightarrow>
          if argv ! 0 = SQLITE_NULL then ResNull
          else ResBlob (take (nat (iSize div 8))
                 (SHA3Final bld (SHA3Update bld (SHA3Init bld iSize) (sha3_data api (argv ! 0))))))"

section \<open>The reference\<close>

text \<open>
  The sponge of FIPS 202 on bytes (its appendix B.2): the state is a string of 200 bytes, a block is
  combined with its first bytes, and the padding marks the hash functions.
\<close>

definition keccak_bytes :: "byte list \<Rightarrow> byte list" where
  "keccak_bytes S = concat (map (u64_bytes False) (keccak_f (map (get_s False S) [0..<25])))"

definition xor_block :: "byte list \<Rightarrow> byte list \<Rightarrow> byte list" where
  "xor_block S P = map2 (XOR) S (P @ replicate (length S - length P) 0)"

definition sha3_pad :: "nat \<Rightarrow> nat \<Rightarrow> byte list" where
  "sha3_pad rate len =
     (let q = rate - len mod rate in if q = 1 then [0x86] else 0x06 # replicate (q - 2) 0 @ [0x80])"

fun blocks :: "nat \<Rightarrow> nat \<Rightarrow> byte list \<Rightarrow> byte list list" where
  "blocks 0 rate m = []"
| "blocks (Suc n) rate m = take rate m # blocks n rate (drop rate m)"

definition sponge :: "nat \<Rightarrow> byte list \<Rightarrow> byte list" where
  "sponge rate m = foldl (\<lambda>S P. keccak_bytes (xor_block S P)) (replicate 200 0) (blocks (length m div rate) rate m)"

definition sha3_digest :: "int \<Rightarrow> byte list \<Rightarrow> byte list" where
  "sha3_digest d m =
     (let rate = nat ((1600 - 2 * d) div 8)
      in take (nat (d div 8)) (sponge rate (m @ sha3_pad rate (length m))))"

section \<open>Bytes and words\<close>

lemma bit_u64_of: "length bs = 8 \<Longrightarrow> bit (u64_of False bs) n \<longleftrightarrow> n < 64 \<and> bit (bs ! (n div 8)) (n mod 8)"
  unfolding u64_of_def word_rcat_def
  using bit_horner_sum_uint_exp_iff [of bs n] by (auto simp: bit_simps)

lemma length_u64_bytes [simp]: "length (u64_bytes be w) = 8"
  by (simp add: u64_bytes_def Let_def)

lemma u64_bytes_nth: "j < 8 \<Longrightarrow> u64_bytes be w ! j = ucast (drop_bit (8 * (if be then 7 - j else j)) w)"
  by (auto simp: u64_bytes_def Let_def rev_nth)

lemma u64_bytes_xor:
  assumes "length a = 8" "length b = 8"
  shows "u64_bytes False (u64_of False a XOR u64_of False b) = map2 (XOR) a b"
proof (rule nth_equalityI)
  show "length (u64_bytes False (u64_of False a XOR u64_of False b)) = length (map2 (XOR) a b)" using assms by simp
next
  fix j assume "j < length (u64_bytes False (u64_of False a XOR u64_of False b))"
  then have j: "j < 8" by simp
  show "u64_bytes False (u64_of False a XOR u64_of False b) ! j = map2 (XOR) a b ! j"
  proof (rule bit_word_eqI)
    fix n assume "n < LENGTH(8)"
    then have n: "n < 8" by simp
    have "8 * j + n < 64" using j n by simp
    moreover have "(8 * j + n) div 8 = j" "(8 * j + n) mod 8 = n" using n by simp_all
    ultimately show "bit (u64_bytes False (u64_of False a XOR u64_of False b) ! j) n = bit (map2 (XOR) a b ! j) n"
      using j n assms by (simp add: u64_bytes_nth bit_simps bit_u64_of)
  qed
qed

lemma xor_7:
  fixes i j :: nat
  assumes "j < 8"
  shows "(8 * i + j) XOR 7 = 8 * i + (7 - j)"
proof -
  let ?x = "(8 * i + j) XOR 7"
  have "?x div 8 = drop_bit 3 ?x" by (simp add: drop_bit_eq_div)
  also have "\<dots> = drop_bit 3 (8 * i + j) XOR drop_bit 3 7" by simp
  also have "\<dots> = i" using assms by (simp add: drop_bit_eq_div)
  finally have d: "?x div 8 = i" .
  have "?x mod 8 = take_bit 3 ?x" by (simp add: take_bit_eq_mod)
  also have "\<dots> = take_bit 3 (8 * i + j) XOR take_bit 3 7" by simp
  also have "\<dots> = j XOR 7" using assms by (simp add: take_bit_eq_mod)
  also have "\<dots> = 7 - j"
  proof -
    consider "j = 0" | "j = 1" | "j = 2" | "j = 3" | "j = 4" | "j = 5" | "j = 6" | "j = 7" using assms by linarith
    then show ?thesis by cases simp_all
  qed
  finally show ?thesis using d div_mult_mod_eq [of ?x 8] by simp
qed

section \<open>The state as a string of bytes\<close>

text \<open>Byte \<open>k\<close> of the state is at \<open>k XOR m\<close>; \<open>m\<close> is 7 on a machine that stores the high byte first.\<close>

definition logical :: "nat \<Rightarrow> byte list \<Rightarrow> byte list" where
  "logical m x = map (\<lambda>k. x ! (k XOR m)) [0..<200]"

definition mask_of :: "bool \<Rightarrow> nat" where
  "mask_of be = (if be then 7 else 0)"

lemma length_logical [simp]: "length (logical m x) = 200"
  by (simp add: logical_def)

lemma logical_nth: "k < 200 \<Longrightarrow> logical m x ! k = x ! (k XOR m)"
  by (simp add: logical_def)

lemma mask_index: "j < 8 \<Longrightarrow> (8 * i + j) XOR mask_of be = 8 * i + (if be then 7 - j else j)"
  by (simp add: mask_of_def xor_7)

lemma mask_less:
  assumes "k < 8 * n"
  shows "k XOR mask_of be < 8 * n"
proof -
  have "k XOR mask_of be = 8 * (k div 8) + (if be then 7 - k mod 8 else k mod 8)"
    using mask_index [of "k mod 8" "k div 8" be] by simp
  moreover have "k div 8 < n" using assms by (simp add: less_mult_imp_div_less mult.commute)
  ultimately show ?thesis by (auto split: if_splits)
qed

lemma get_s_logical:
  assumes "i < 25" "200 \<le> length x"
  shows "get_s be x i = get_s False (logical (mask_of be) x) i"
proof -
  let ?t = "take 8 (drop (8 * i) x)" and ?l = "take 8 (drop (8 * i) (logical (mask_of be) x))"
  have "?l = (if be then rev ?t else ?t)"
  proof (rule nth_equalityI)
    show "length ?l = length (if be then rev ?t else ?t)" using assms by simp
  next
    fix j assume "j < length ?l"
    then have j: "j < 8" using assms by simp
    then have "8 * i + j < 200" using assms by simp
    then have "?l ! j = x ! (8 * i + (if be then 7 - j else j))" using j mask_index [OF j, of i be] by (simp add: logical_nth)
    then show "?l ! j = (if be then rev ?t else ?t) ! j" using j assms by (simp add: rev_nth)
  qed
  then show ?thesis by (simp add: get_s_def u64_of_def)
qed

lemma concat_bytes_nth:
  "i < length ws \<Longrightarrow> j < 8 \<Longrightarrow> (concat (map (u64_bytes be) ws) @ y) ! (8 * i + j) = u64_bytes be (ws ! i) ! j"
proof (induction ws arbitrary: i)
  case (Cons w ws)
  then show ?case by (cases i) (auto simp: nth_append)
qed simp

lemma length_concat_bytes [simp]: "length (concat (map (u64_bytes be) ws)) = 8 * length ws"
  by (induction ws) auto

lemma length_keccak_f [simp]: "length (keccak_f A) = 25"
proof -
  have "length (keccak_round rc A) = 25" for rc A by (simp add: keccak_round_def iota_def chi_def lanes_def)
  moreover have "[0..<24] = [0..<23] @ [23]" by (simp add: upt_Suc_append [symmetric])
  ultimately show ?thesis by (simp add: keccak_f_def)
qed

lemma step_logical:
  assumes "length (u_x p) = 1600"
  shows "logical (mask_of (msb_first bld)) (u_x (KeccakF1600Step bld p)) = keccak_bytes (logical (mask_of (msb_first bld)) (u_x p))"
    "length (u_x (KeccakF1600Step bld p)) = 1600"
proof -
  let ?be = "msb_first bld" and ?S = "logical (mask_of (msb_first bld)) (u_x p)"
  let ?s = "keccak_f (map (get_s False ?S) [0..<25])"
  have "map (get_s ?be (u_x p)) [0..<25] = map (get_s False ?S) [0..<25]"
    using assms by (intro map_cong refl get_s_logical) auto
  then have x: "u_x (KeccakF1600Step bld p) = concat (map (u64_bytes ?be) ?s) @ drop 200 (u_x p)"
    unfolding KeccakF1600Step_def Let_def keccak_loop_correct by (simp only:) simp
  show "length (u_x (KeccakF1600Step bld p)) = 1600" unfolding x using assms by simp
  show "logical (mask_of ?be) (u_x (KeccakF1600Step bld p)) = keccak_bytes ?S"
  proof (rule nth_equalityI)
    show "length (logical (mask_of ?be) (u_x (KeccakF1600Step bld p))) = length (keccak_bytes ?S)" by (simp add: keccak_bytes_def)
  next
    fix k assume "k < length (logical (mask_of ?be) (u_x (KeccakF1600Step bld p)))"
    then have k: "k < 200" by simp
    define i j where "i = k div 8" and "j = k mod 8"
    have ij: "k = 8 * i + j" "j < 8" "i < 25" using k by (auto simp: i_def j_def)
    define j' where "j' = (if ?be then 7 - j else j)"
    have j': "j' < 8" "k XOR mask_of ?be = 8 * i + j'" using ij mask_index [OF ij(2), of i ?be] by (auto simp: j'_def)
    have "logical (mask_of ?be) (u_x (KeccakF1600Step bld p)) ! k = u64_bytes ?be (?s ! i) ! j'"
      unfolding logical_nth [OF k] x j'(2) by (rule concat_bytes_nth [OF _ j'(1)]) (use ij in simp)
    also have "\<dots> = u64_bytes False (?s ! i) ! j" using ij j'(1) by (simp add: u64_bytes_nth j'_def)
    also have "\<dots> = keccak_bytes ?S ! k" using ij concat_bytes_nth [of i ?s j False "[]"] by (simp add: keccak_bytes_def)
    finally show "logical (mask_of ?be) (u_x (KeccakF1600Step bld p)) ! k = keccak_bytes ?S ! k" .
  qed
qed

lemma update_logical:
  assumes "n < 200" "200 \<le> length x"
  shows "logical (mask_of be) (x[n XOR mask_of be := x ! (n XOR mask_of be) XOR b])
    = (logical (mask_of be) x)[n := logical (mask_of be) x ! n XOR b]"
proof (rule nth_equalityI)
  fix k assume "k < length (logical (mask_of be) (x[n XOR mask_of be := x ! (n XOR mask_of be) XOR b]))"
  then have k: "k < 200" by simp
  have "k XOR mask_of be < 200" "n XOR mask_of be < 200" using k assms mask_less [of _ 25] by auto
  moreover have "n XOR mask_of be = k XOR mask_of be \<longleftrightarrow> n = k" by (metis xor.assoc xor.right_neutral xor_self_eq)
  ultimately show "logical (mask_of be) (x[n XOR mask_of be := x ! (n XOR mask_of be) XOR b]) ! k
      = (logical (mask_of be) x)[n := logical (mask_of be) x ! n XOR b] ! k"
    using k assms by (simp add: logical_nth nth_list_update)
qed simp

section \<open>Absorbing\<close>

text \<open>
  A machine that takes its input piece by piece: \<open>f\<close> implements the step \<open>g\<close> of an abstract machine, as long
  as its invariant holds and the input is a valid one, and so does any sequence of steps.
\<close>

locale absorbing =
  fixes ok :: "'c \<Rightarrow> bool" and \<alpha> :: "'c \<Rightarrow> 'a" and valid :: "'d \<Rightarrow> bool"
    and f :: "'c \<Rightarrow> 'd \<Rightarrow> 'c" and g :: "'a \<Rightarrow> 'd \<Rightarrow> 'a"
  assumes step_ok: "ok p \<Longrightarrow> valid d \<Longrightarrow> ok (f p d)" and step_abs: "ok p \<Longrightarrow> valid d \<Longrightarrow> \<alpha> (f p d) = g (\<alpha> p) d"
begin

lemma fold_ok: "ok p \<Longrightarrow> (\<forall>d \<in> set ds. valid d) \<Longrightarrow> ok (foldl f p ds)"
  by (induction ds arbitrary: p) (auto simp: step_ok)

lemma fold_abs: "ok p \<Longrightarrow> (\<forall>d \<in> set ds. valid d) \<Longrightarrow> \<alpha> (foldl f p ds) = foldl g (\<alpha> p) ds"
  by (induction ds arbitrary: p) (auto simp: step_ok step_abs)

end

text \<open>The abstract machine: the string of the state and the number of bytes combined with it so far.\<close>

definition ab_byte :: "nat \<Rightarrow> byte list \<times> nat \<Rightarrow> byte \<Rightarrow> byte list \<times> nat" where
  "ab_byte rate a b =
     (let (S, n) = a; S = S[n := S ! n XOR b] in if n + 1 = rate then (keccak_bytes S, 0) else (S, n + 1))"

definition ctx_ok :: "sha3_build \<Rightarrow> nat \<Rightarrow> SHA3Context \<Rightarrow> bool" where
  "ctx_ok bld rate p \<longleftrightarrow> build_ok bld \<and> length (u_x p) = 1600 \<and> nRate p = rate \<and> rate mod 8 = 0 \<and> rate \<le> 200 \<and> nLoaded p < rate \<and>
     ixMask p = mask_of (msb_first bld)"

definition ctx_abs :: "sha3_build \<Rightarrow> SHA3Context \<Rightarrow> byte list \<times> nat" where
  "ctx_abs bld p = (logical (mask_of (msb_first bld)) (u_x p), nLoaded p)"

lemma KeccakF1600Step_fields [simp]:
  "nRate (KeccakF1600Step bld p) = nRate p" "nLoaded (KeccakF1600Step bld p) = nLoaded p" "ixMask (KeccakF1600Step bld p) = ixMask p"
  by (simp_all add: KeccakF1600Step_def Let_def)

lemma absorb_byte_refines:
  assumes "ctx_ok bld rate p"
  shows "ctx_ok bld rate (absorb_byte bld p b) \<and> ctx_abs bld (absorb_byte bld p b) = ab_byte rate (ctx_abs bld p) b"
proof -
  let ?m = "mask_of (msb_first bld)" and ?n = "nLoaded p"
  define q where "q = p\<lparr>u_x := (u_x p)[?n XOR ?m := u_x p ! (?n XOR ?m) XOR b], nLoaded := ?n + 1\<rparr>"
  have i: "(if SHA3_BYTEORDER bld = 1234 then ?n else if SHA3_BYTEORDER bld = 4321 then ?n XOR 7 else ?n XOR ixMask p) = ?n XOR ?m"
    using assms by (auto simp: build_ok_def ctx_ok_def mask_of_def)
  have r: "absorb_byte bld p b = (if nLoaded q = nRate q then (KeccakF1600Step bld q)\<lparr>nLoaded := 0\<rparr> else q)"
    unfolding absorb_byte_def i q_def by (simp add: Let_def)
  have l: "length (u_x q) = 1600" using assms by (simp add: q_def ctx_ok_def)
  have a: "logical ?m (u_x q) = (logical ?m (u_x p))[?n := logical ?m (u_x p) ! ?n XOR b]"
    unfolding q_def using assms update_logical [of ?n "u_x p"] by (simp add: ctx_ok_def)
  show ?thesis using assms l a step_logical [OF l, of bld]
    by (auto simp: r ctx_ok_def ctx_abs_def ab_byte_def Let_def q_def)
qed

interpretation sha3_bytes: absorbing "ctx_ok bld rate" "ctx_abs bld" "\<lambda>b. True" "absorb_byte bld" "ab_byte rate" for bld rate
  by unfold_locales (use absorb_byte_refines in blast)+

text \<open>Combining the bytes \<open>P\<close> with the state at \<open>n\<close>.\<close>

definition xor_at :: "byte list \<Rightarrow> nat \<Rightarrow> byte list \<Rightarrow> byte list" where
  "xor_at S n P = take n S @ map2 (XOR) (drop n S) P @ drop (n + length P) S"

lemma xor_at_Cons: "n < length S \<Longrightarrow> xor_at S n (b # P) = xor_at (S[n := S ! n XOR b]) (n + 1) P"
  by (simp add: xor_at_def take_Suc_conv_app_nth Cons_nth_drop_Suc [symmetric])

lemma xor_at_Nil [simp]: "xor_at S n [] = S"
  by (simp add: xor_at_def)

lemma ab_bytes:
  "n + length P < rate \<Longrightarrow> rate \<le> length S \<Longrightarrow> foldl (ab_byte rate) (S, n) P = (xor_at S n P, n + length P)"
  by (induction P arbitrary: S n) (auto simp: ab_byte_def Let_def xor_at_Cons)

lemma ab_block:
  assumes "P \<noteq> []" "n + length P = rate" "rate \<le> length S"
  shows "foldl (ab_byte rate) (S, n) P = (keccak_bytes (xor_at S n P), 0)"
proof -
  obtain Q b where P: "P = Q @ [b]" using assms(1) by (metis rev_exhaust)
  have q: "foldl (ab_byte rate) (S, n) Q = (xor_at S n Q, n + length Q)" using assms P by (intro ab_bytes) auto
  have "xor_at S n P = (xor_at S n Q)[n + length Q := xor_at S n Q ! (n + length Q) XOR b]"
    using assms(2,3) unfolding P
  proof (induction Q arbitrary: S n)
    case Nil
    then show ?case by (simp add: xor_at_Cons)
  next
    case (Cons c Q)
    then show ?case using Cons.IH [of "Suc n"] by (simp add: xor_at_Cons)
  qed
  then show ?thesis using assms(2) by (simp add: P q ab_byte_def Let_def)
qed

text \<open>Eight bytes at once.\<close>

lemma logical_0: "200 \<le> length x \<Longrightarrow> logical 0 x = take 200 x"
  by (rule nth_equalityI) (auto simp: logical_nth)

lemma absorb_word_refines:
  assumes ok: "ctx_ok bld rate p" and le: "\<not> msb_first bld" and n: "nLoaded p mod 8 = 0" and w: "length w = 8"
  shows "ctx_ok bld rate (absorb_word bld p w) \<and> nLoaded (absorb_word bld p w) mod 8 = 0 \<and>
    ctx_abs bld (absorb_word bld p w) = foldl (ab_byte rate) (ctx_abs bld p) w"
proof -
  let ?n = "nLoaded p"
  define q where "q = p\<lparr>u_x := xor_at (u_x p) ?n w, nLoaded := ?n + 8\<rparr>"
  have w0: "w \<noteq> []" using w by auto
  have c: "length (u_x p) = 1600" "nRate p = rate" "rate mod 8 = 0" "rate \<le> 200" "?n < rate" using ok by (auto simp: ctx_ok_def)
  have n8: "8 * (?n div 8) = ?n" "?n + 8 \<le> rate" using n c by presburger+
  have zip8: "8 \<le> k \<Longrightarrow> zip (take k xs) w = zip xs w" for k and xs :: "byte list" using w take_zip [of k xs w] by simp
  have "put_s False (u_x p) (?n div 8) (get_s False (u_x p) (?n div 8) XOR u64_of False w) = xor_at (u_x p) ?n w"
    using c n8 w by (simp add: put_s_def get_s_def u64_bytes_xor xor_at_def zip8)
  then have r: "absorb_word bld p w = (if nLoaded q \<ge> nRate q then (KeccakF1600Step bld q)\<lparr>nLoaded := 0\<rparr> else q)"
    using le by (simp add: absorb_word_def q_def Let_def)
  have l: "length (u_x q) = 1600" using c n8 w by (simp add: q_def xor_at_def)
  have a: "logical 0 (u_x q) = xor_at (logical 0 (u_x p)) ?n w"
    using c n8 w l by (simp add: q_def logical_0) (simp add: xor_at_def drop_take zip8)
  show ?thesis
  proof (cases "?n + 8 = rate")
    case True
    then have "foldl (ab_byte rate) (ctx_abs bld p) w = (keccak_bytes (logical 0 (u_x q)), 0)"
      using w c le w0 ab_block [of w ?n rate "logical 0 (u_x p)"] by (auto simp: ctx_abs_def mask_of_def a)
    then show ?thesis using True ok c l le step_logical [OF l, of bld]
      by (auto simp: r ctx_ok_def ctx_abs_def mask_of_def q_def)
  next
    case False
    then have "foldl (ab_byte rate) (ctx_abs bld p) w = (logical 0 (u_x q), ?n + 8)"
      using w n8 c le ab_bytes [of ?n w rate "logical 0 (u_x p)"] by (auto simp: ctx_abs_def mask_of_def a)
    then show ?thesis using False n n8 ok c l le
      by (auto simp: r ctx_ok_def ctx_abs_def mask_of_def q_def)
  qed
qed

lemma absorb_words_refine:
  assumes le: "\<not> msb_first bld"
  shows "ctx_ok bld rate p \<Longrightarrow> nLoaded p mod 8 = 0 \<Longrightarrow> absorb_words bld p d = (q, e) \<Longrightarrow>
    ctx_ok bld rate q \<and> foldl (ab_byte rate) (ctx_abs bld p) d = foldl (ab_byte rate) (ctx_abs bld q) e"
  using le
proof (induction bld p d rule: absorb_words.induct)
  case (1 bld p d)
  show ?case
  proof (cases "7 < length d")
    case True
    note W = absorb_word_refines [OF 1(2,5,3), of "take 8 d"]
    have "absorb_words bld (absorb_word bld p (take 8 d)) (drop 8 d) = (q, e)"
      using 1(4) True by (subst (asm) absorb_words.simps) simp
    then have "ctx_ok bld rate q \<and> foldl (ab_byte rate) (ctx_abs bld (absorb_word bld p (take 8 d))) (drop 8 d)
        = foldl (ab_byte rate) (ctx_abs bld q) e"
      using 1(1) [OF True] W True 1(5) by auto
    moreover have "foldl (ab_byte rate) (ctx_abs bld p) d =
        foldl (ab_byte rate) (foldl (ab_byte rate) (ctx_abs bld p) (take 8 d)) (drop 8 d)"
      by (subst append_take_drop_id [of 8 d, symmetric], simp only: foldl_append)
    ultimately show ?thesis using W True by simp
  next
    case False
    then show ?thesis using 1 by (subst (asm) absorb_words.simps) simp
  qed
qed

lemma SHA3Update_refines:
  assumes "ctx_ok bld rate p"
  shows "ctx_ok bld rate (SHA3Update bld p (Some d))"
    "ctx_abs bld (SHA3Update bld p (Some d)) = foldl (ab_byte rate) (ctx_abs bld p) d"
proof -
  define qe where "qe = (if SHA3_BYTEORDER bld = 1234 \<and> nLoaded p mod 8 = 0 \<and> aligned bld p d then absorb_words bld p d else (p, d))"
  have "ctx_ok bld rate (fst qe) \<and> foldl (ab_byte rate) (ctx_abs bld p) d = foldl (ab_byte rate) (ctx_abs bld (fst qe)) (snd qe)"
    using assms absorb_words_refine [of bld rate p d "fst qe" "snd qe"] by (auto simp: qe_def ctx_ok_def build_ok_def)
  then show "ctx_ok bld rate (SHA3Update bld p (Some d))"
    "ctx_abs bld (SHA3Update bld p (Some d)) = foldl (ab_byte rate) (ctx_abs bld p) d"
    using sha3_bytes.fold_ok [of bld rate "fst qe" "snd qe"] sha3_bytes.fold_abs [of bld rate "fst qe" "snd qe"]
    by (simp_all add: SHA3Update_def qe_def [symmetric] split_beta)
qed

section \<open>The sponge\<close>

lemma length_keccak_bytes [simp]: "length (keccak_bytes S) = 200"
  by (simp add: keccak_bytes_def)

lemma xor_zeros: "length xs \<le> n \<Longrightarrow> map2 (XOR) xs (replicate n 0) = xs" for xs :: "byte list"
proof (induction xs arbitrary: n)
  case (Cons x xs)
  then show ?case by (cases n) auto
qed simp

lemma xor_block_at: "length P \<le> length S \<Longrightarrow> xor_block S P = xor_at S 0 P"
  using take_zip [of "length P" S P] by (simp add: xor_block_def xor_at_def zip_append2 xor_zeros)

lemma ab_blocks:
  assumes "0 < rate" "rate \<le> 200"
  shows "length S = 200 \<Longrightarrow> length m = c * rate \<Longrightarrow>
    foldl (ab_byte rate) (S, 0) m = (foldl (\<lambda>S P. keccak_bytes (xor_block S P)) S (blocks c rate m), 0)"
proof (induction c arbitrary: S m)
  case (Suc c)
  have "length (take rate m) = rate" using Suc.prems(2) by simp
  then have "foldl (ab_byte rate) (S, 0) (take rate m) = (keccak_bytes (xor_block S (take rate m)), 0)"
    using assms Suc.prems(1) ab_block [of "take rate m" 0 rate S] xor_block_at [of "take rate m" S] by force
  moreover have "foldl (ab_byte rate) (S, 0) m = foldl (ab_byte rate) (foldl (ab_byte rate) (S, 0) (take rate m)) (drop rate m)"
    by (subst append_take_drop_id [of rate m, symmetric], simp only: foldl_append)
  ultimately show ?case using Suc.IH [of "keccak_bytes (xor_block S (take rate m))" "drop rate m"] Suc.prems by simp
qed simp

lemma sponge_absorbs:
  assumes "0 < rate" "rate \<le> 200" "length m mod rate = 0"
  shows "foldl (ab_byte rate) (replicate 200 0, 0) m = (sponge rate m, 0)"
  using ab_blocks [OF assms(1,2), of "replicate 200 0" m "length m div rate"] assms(3) by (auto simp: sponge_def)

lemma length_pad: "0 < rate \<Longrightarrow> (n + length (sha3_pad rate n)) mod rate = 0"
proof -
  assume "0 < rate"
  then have q: "n mod rate < rate" by simp
  then have "length (sha3_pad rate n) = rate - n mod rate" by (auto simp: sha3_pad_def Let_def)
  then show ?thesis using q by (metis add.commute le_add_diff_inverse2 less_imp_le mod_add_left_eq mod_self)
qed

lemma ab_byte_loaded:
  assumes "0 < rate"
  shows "n < rate \<Longrightarrow> length S = 200 \<Longrightarrow>
    snd (foldl (ab_byte rate) (S, n) m) = (n + length m) mod rate \<and> length (fst (foldl (ab_byte rate) (S, n) m)) = 200"
proof (induction m arbitrary: S n)
  case (Cons b m)
  show ?case
  proof (cases "n + 1 = rate")
    case True
    then have "(n + length (b # m)) mod rate = length m mod rate" by (metis add.assoc add.commute length_Cons mod_add_self1 plus_1_eq_Suc)
    then show ?thesis using True assms Cons.IH [of 0 "keccak_bytes (S[n := S ! n XOR b])"] by (simp add: ab_byte_def)
  next
    case False
    then show ?thesis using Cons.prems Cons.IH [of "n + 1" "S[n := S ! n XOR b]"] by (simp add: ab_byte_def)
  qed
qed simp

text \<open>Jumping to the last byte of the block is the same as adding zeros up to it.\<close>

lemma ab_zeros: "n + k < rate \<Longrightarrow> foldl (ab_byte rate) (S, n) (replicate k 0) = (S, n + k)"
  by (induction k arbitrary: n) (auto simp: ab_byte_def)

lemma ab_pad:
  assumes "n < rate" "n = len mod rate"
  shows "foldl (ab_byte rate) (S, n) (sha3_pad rate len) =
    (if n = rate - 1 then ab_byte rate (S, n) 0x86 else ab_byte rate (fst (ab_byte rate (S, n) 0x06), rate - 1) 0x80)"
proof (cases "n = rate - 1")
  case True
  then show ?thesis using assms by (simp add: sha3_pad_def Let_def)
next
  case False
  then have "sha3_pad rate len = 0x06 # replicate (rate - n - 2) 0 @ [0x80]" using assms by (auto simp: sha3_pad_def Let_def)
  moreover have "ab_byte rate (S, n) 0x06 = (fst (ab_byte rate (S, n) 0x06), n + 1)" using False assms(1) by (auto simp: ab_byte_def Let_def)
  moreover have "n + 1 + (rate - n - 2) = rate - 1" using False assms(1) by simp
  ultimately show ?thesis using False ab_zeros [of "n + 1" "rate - n - 2" rate "fst (ab_byte rate (S, n) 0x06)"] assms(1)
    by simp
qed

text \<open>The copy at the end of \<^verbatim>\<open>SHA3Final\<close> does not read what it writes.\<close>

lemma final_copy:
  assumes "2 * r \<le> length x" "\<forall>i < r. i XOR m < r"
  shows "k \<le> r \<Longrightarrow> foldl (\<lambda>x i. x[i + r := x ! (i XOR m)]) x [0..<k]
    = take r x @ map (\<lambda>i. x ! (i XOR m)) [0..<k] @ drop (r + k) x"
proof (induction k)
  case (Suc k)
  let ?y = "take r x @ map (\<lambda>i. x ! (i XOR m)) [0..<k] @ drop (r + k) x"
  have "?y ! (k XOR m) = x ! (k XOR m)" using Suc.prems assms by (simp add: nth_append)
  moreover have "drop (r + k) x = x ! (r + k) # drop (Suc (r + k)) x" using Suc.prems assms(1) by (simp add: Cons_nth_drop_Suc)
  ultimately show ?case using Suc assms(1) by (simp add: list_update_append)
qed simp

lemma take_final:
  assumes "length x = 1600" "r mod 8 = 0" "r \<le> 200" "k \<le> r"
  shows "take k (drop r (foldl (\<lambda>x i. x[i + r := x ! (i XOR mask_of be)]) x [0..<r])) = take k (logical (mask_of be) x)"
proof -
  have "\<forall>i < r. i XOR mask_of be < r" using assms(2) mask_less [of _ "r div 8"] by auto
  then have "foldl (\<lambda>x i. x[i + r := x ! (i XOR mask_of be)]) x [0..<r]
      = take r x @ map (\<lambda>i. x ! (i XOR mask_of be)) [0..<r] @ drop (r + r) x" using assms by (intro final_copy) auto
  moreover have "map (\<lambda>i. x ! (i XOR mask_of be)) [0..<r] = take r (logical (mask_of be) x)"
    using assms by (simp add: logical_def take_map)
  ultimately show ?thesis using assms by simp
qed

section \<open>The digest\<close>

interpretation sha3_update: absorbing "ctx_ok bld rate" "ctx_abs bld" "\<lambda>d. True" "\<lambda>p d. SHA3Update bld p (Some d)" "foldl (ab_byte rate)"
  for bld rate
  by unfold_locales (use SHA3Update_refines in blast)+

lemma foldl_foldl: "foldl (foldl f) s xss = foldl f s (concat xss)"
  by (induction xss arbitrary: s) auto

lemma SHA3Final_refines:
  assumes ok: "ctx_ok bld rate p" and a: "ctx_abs bld p = (S, len mod rate)" and k: "k \<le> rate"
  shows "take k (SHA3Final bld p) = take k (fst (foldl (ab_byte rate) (S, len mod rate) (sha3_pad rate len)))"
proof -
  define q where "q = (if nLoaded p = nRate p - 1 then SHA3Update bld p (Some [0x86])
    else SHA3Update bld ((SHA3Update bld p (Some [0x06]))\<lparr>nLoaded := rate - 1\<rparr>) (Some [0x80]))"
  have c: "nRate p = rate" "nLoaded p = len mod rate" "len mod rate < rate" using ok a by (auto simp: ctx_ok_def ctx_abs_def)
  have "ctx_ok bld rate q \<and> ctx_abs bld q = foldl (ab_byte rate) (S, len mod rate) (sha3_pad rate len)"
  proof (cases "len mod rate = rate - 1")
    case True
    then show ?thesis using SHA3Update_refines [OF ok, of "[0x86]"] a c by (simp add: q_def ab_pad)
  next
    case False
    let ?r = "(SHA3Update bld p (Some [0x06]))\<lparr>nLoaded := rate - 1\<rparr>"
    note U = SHA3Update_refines [OF ok, of "[0x06]"]
    have "ctx_ok bld rate ?r" using U(1) c by (auto simp: ctx_ok_def)
    moreover have "ctx_abs bld ?r = (fst (ab_byte rate (S, len mod rate) 0x06), rate - 1)"
      using U(2) a by (simp add: ctx_abs_def) (metis fst_conv)
    ultimately show ?thesis using SHA3Update_refines [of bld rate ?r "[0x80]"] False c by (simp add: q_def ab_pad)
  qed
  then have q: "length (u_x q) = 1600" "nRate q = rate" "rate mod 8 = 0" "rate \<le> 200" "ixMask q = mask_of (msb_first bld)"
    "logical (mask_of (msb_first bld)) (u_x q) = fst (foldl (ab_byte rate) (S, len mod rate) (sha3_pad rate len))"
    by (auto simp: ctx_ok_def ctx_abs_def) (metis fst_conv)
  have u: "nRate (SHA3Update bld p (Some [0x06])) = rate" using SHA3Update_refines(1) [OF ok] by (simp add: ctx_ok_def)
  have "SHA3Final bld p = drop rate (foldl (\<lambda>x i. x[i + rate := x ! (i XOR mask_of (msb_first bld))]) (u_x q) [0..<rate])"
    using q(2,5) unfolding q_def SHA3Final_def Let_def by (simp add: u split: if_splits)
  then show ?thesis using take_final [OF q(1,3,4) k, of "msb_first bld"] q(6) by simp
qed

text \<open>The contexts that \<^verbatim>\<open>SHA3Init\<close> makes.\<close>

lemma SHA3Init_ok:
  assumes "build_ok bld" "d \<in> set sha3_sizes"
  shows "ctx_ok bld (nat ((1600 - 2 * d) div 8)) (SHA3Init bld d)"
    "ctx_abs bld (SHA3Init bld d) = (replicate 200 0, 0)"
    "0 < nat ((1600 - 2 * d) div 8)" "nat ((1600 - 2 * d) div 8) \<le> 200" "nat (d div 8) \<le> nat ((1600 - 2 * d) div 8)"
proof -
  have m: "ixMask (SHA3Init bld d) = mask_of (msb_first bld)" using assms(1) by (simp add: SHA3Init_def build_ok_def mask_of_def)
  have z: "logical m (replicate 1600 0) = replicate 200 0" if "m = mask_of be" for m be
  proof (rule nth_equalityI)
    fix k assume "k < length (logical m (replicate 1600 0))"
    then show "logical m (replicate 1600 0) ! k = replicate 200 0 ! k"
      using mask_less [of k 25 be] that by (simp add: logical_nth)
  qed simp
  show "ctx_ok bld (nat ((1600 - 2 * d) div 8)) (SHA3Init bld d)" "0 < nat ((1600 - 2 * d) div 8)" "nat ((1600 - 2 * d) div 8) \<le> 200"
    "nat (d div 8) \<le> nat ((1600 - 2 * d) div 8)"
    using assms m by (auto simp: ctx_ok_def sha3_sizes_def SHA3Init_def)
  show "ctx_abs bld (SHA3Init bld d) = (replicate 200 0, 0)" using z by (simp add: ctx_abs_def SHA3Init_def)
qed

lemma final_digest:
  assumes "build_ok bld" "d \<in> set sha3_sizes" and rate: "rate = nat ((1600 - 2 * d) div 8)"
    and ok: "ctx_ok bld rate p" and ab: "ctx_abs bld p = foldl (ab_byte rate) (replicate 200 0, 0) m"
  shows "take (nat (d div 8)) (SHA3Final bld p) = sha3_digest d m"
proof -
  note I = SHA3Init_ok [OF assms(1,2), folded rate]
  have "ctx_abs bld p = (fst (ctx_abs bld p), length m mod rate)"
    using ab_byte_loaded [OF I(3), of 0 "replicate 200 0" m] I(3) by (simp add: prod_eq_iff ab)
  then have "take (nat (d div 8)) (SHA3Final bld p) = take (nat (d div 8)) (fst (foldl (ab_byte rate) (ctx_abs bld p) (sha3_pad rate (length m))))"
    using SHA3Final_refines [OF ok _ I(5), of "fst (ctx_abs bld p)" "length m"] by simp
  also have "foldl (ab_byte rate) (ctx_abs bld p) (sha3_pad rate (length m)) = (sponge rate (m @ sha3_pad rate (length m)), 0)"
    unfolding ab foldl_append [symmetric] using length_pad [OF I(3), of "length m"] by (intro sponge_absorbs I(3,4)) simp
  finally show ?thesis by (simp add: sha3_digest_def Let_def rate)
qed

lemma sha3_stream_digest:
  assumes "build_ok bld" "d \<in> set sha3_sizes"
  shows "take (nat (d div 8)) (SHA3Final bld (foldl (\<lambda>p m. SHA3Update bld p (Some m)) (SHA3Init bld d) ms)) = sha3_digest d (concat ms)"
  using sha3_update.fold_ok [OF SHA3Init_ok(1) [OF assms], of ms] sha3_update.fold_abs [OF SHA3Init_ok(1) [OF assms], of ms]
  by (intro final_digest [OF assms refl]) (simp_all add: SHA3Init_ok(2) [OF assms] foldl_foldl)

lemma u64_of_bytes: "u64_of be (u64_bytes be w) = w"
proof -
  have "u64_of be (u64_bytes be w) = u64_of False (u64_bytes False w)" by (simp add: u64_of_def u64_bytes_def Let_def)
  also have "\<dots> = w"
  proof (rule bit_word_eqI)
    fix n assume "n < LENGTH(64)"
    then have "n < 64" "n div 8 < 8" "8 * (n div 8) + n mod 8 = n" by auto
    then show "bit (u64_of False (u64_bytes False w)) n = bit w n" by (simp add: bit_u64_of u64_bytes_nth bit_simps)
  qed
  finally show ?thesis .
qed

lemma get_s_concat: "i < length ws \<Longrightarrow> get_s be (concat (map (u64_bytes be) ws) @ y) i = ws ! i"
proof (induction ws arbitrary: i)
  case (Cons w ws)
  then show ?case by (cases i) (auto simp: get_s_def u64_of_bytes)
qed simp

text \<open>
  C7: \<^verbatim>\<open>KeccakF1600Step\<close>, with its four rounds unrolled so that the lanes are never moved, computes the
  permutation Keccak-f[1600] of FIPS 202: 24 rounds of theta, rho, pi, chi and iota, with the offsets and
  the round constants of the standard, on the 25 words of the state, whichever way the machine stores them.
\<close>

theorem keccak_step_standard:
  "length (u_x p) = 1600 \<Longrightarrow>
    map (get_s (msb_first bld) (u_x (KeccakF1600Step bld p))) [0..<25] = keccak_f (map (get_s (msb_first bld) (u_x p)) [0..<25])"
proof -
  assume l: "length (u_x p) = 1600"
  let ?be = "msb_first bld" and ?s = "keccak_f (map (get_s (msb_first bld) (u_x p)) [0..<25])"
  have "u_x (KeccakF1600Step bld p) = concat (map (u64_bytes ?be) ?s) @ drop 200 (u_x p)"
    by (simp add: KeccakF1600Step_def Let_def keccak_loop_correct)
  then have "get_s ?be (u_x (KeccakF1600Step bld p)) i = ?s ! i" if "i < 25" for i
    using get_s_concat [of i ?s ?be "drop 200 (u_x p)"] that by simp
  then show ?thesis by (intro nth_equalityI) auto
qed

theorem keccak_step_standard_witness:
  "map (get_s True (u_x (KeccakF1600Step \<lparr>SHA3_BYTEORDER = 0, msb_first = True, aligned = (\<lambda>p d. False)\<rparr>
      \<lparr>u_x = replicate 1600 0, nRate = 136, nLoaded = 0, ixMask = 7\<rparr>))) [0..<25] = keccak_f (map (get_s True (replicate 1600 0)) [0..<25])"
  using keccak_step_standard [of "\<lparr>u_x = replicate 1600 0, nRate = 136, nLoaded = 0, ixMask = 7\<rparr>"
    "\<lparr>SHA3_BYTEORDER = 0, msb_first = True, aligned = (\<lambda>p d. False)\<rparr>"] by simp

text \<open>
  C6: However the input is cut into pieces, whatever the byte order of the machine and the setting of
  \<^verbatim>\<open>SHA3_BYTEORDER\<close>, and whichever pieces are at addresses that allow the loop over words: the hash is the
  SHA3 hash of FIPS 202 of the concatenation.
\<close>

theorem sha3_stream:
  "build_ok bld \<Longrightarrow> d \<in> set sha3_sizes \<Longrightarrow>
    take (nat (d div 8)) (SHA3Final bld (foldl (\<lambda>p m. SHA3Update bld p (Some m)) (SHA3Init bld d) ms)) = sha3_digest d (concat ms)"
  by (rule sha3_stream_digest)

theorem sha3_stream_witness:
  "take 28 (SHA3Final \<lparr>SHA3_BYTEORDER = 0, msb_first = True, aligned = (\<lambda>p d. False)\<rparr>
     (SHA3Update \<lparr>SHA3_BYTEORDER = 0, msb_first = True, aligned = (\<lambda>p d. False)\<rparr>
       (SHA3Update \<lparr>SHA3_BYTEORDER = 0, msb_first = True, aligned = (\<lambda>p d. False)\<rparr>
         (SHA3Init \<lparr>SHA3_BYTEORDER = 0, msb_first = True, aligned = (\<lambda>p d. False)\<rparr> 224) (Some [1])) (Some [2, 3])))
   = sha3_digest 224 [1, 2, 3]"
  using sha3_stream [of "\<lparr>SHA3_BYTEORDER = 0, msb_first = True, aligned = (\<lambda>p d. False)\<rparr>" 224 "[[1], [2, 3]]"]
  by (simp add: build_ok_def sha3_sizes_def)

lemma sha3_data_update:
  "SHA3Update bld p (sha3_data api v) = foldl (\<lambda>p m. SHA3Update bld p (Some m)) p (case sha3_data api v of None \<Rightarrow> [] | Some m \<Rightarrow> [m])"
  by (simp add: SHA3Update_def split: option.splits)

text \<open>
  \<^verbatim>\<open>sha3(X,SIZE)\<close> is the error about the sizes for any other size than 224, 256, 384 and 512, also when X is
  NULL; otherwise NULL for NULL, and the hash of that size of the bytes of a blob or of the text of any
  other value.  Without SIZE it is SHA3-256.
\<close>

theorem sha3_function:
  assumes "build_ok bld" "api_spec api"
  shows "sha3Func api bld [v, SQLITE_INTEGER d] =
      (if value_int api (SQLITE_INTEGER d) \<notin> {224, 256, 384, 512} then ResError ''SHA3 size should be one of: 224 256 384 512''
       else if v = SQLITE_NULL then ResNull
       else ResBlob (sha3_digest (value_int api (SQLITE_INTEGER d)) (case sha3_data api v of None \<Rightarrow> [] | Some m \<Rightarrow> m))) \<and>
    sha3Func api bld [SQLITE_TEXT z] = ResBlob (sha3_digest 256 (bytes_of z)) \<and>
    sha3Func api bld [SQLITE_BLOB b] = ResBlob (sha3_digest 256 b) \<and>
    sha3Func api bld [SQLITE_NULL] = ResNull"
proof -
  have D: "take (nat (e div 8)) (SHA3Final bld (SHA3Update bld (SHA3Init bld e) (sha3_data api v)))
      = sha3_digest e (case sha3_data api v of None \<Rightarrow> [] | Some m \<Rightarrow> m)" if "e \<in> set sha3_sizes" for e v
    using sha3_stream_digest [OF assms(1) that, of "case sha3_data api v of None \<Rightarrow> [] | Some m \<Rightarrow> [m]"]
    by (simp only: sha3_data_update) (simp split: option.splits)
  have "sha3Func api bld [v, SQLITE_INTEGER d] =
      (if value_int api (SQLITE_INTEGER d) \<notin> {224, 256, 384, 512} then ResError ''SHA3 size should be one of: 224 256 384 512''
       else if v = SQLITE_NULL then ResNull
       else ResBlob (sha3_digest (value_int api (SQLITE_INTEGER d)) (case sha3_data api v of None \<Rightarrow> [] | Some m \<Rightarrow> m)))"
    using D [of 224 v] D [of 256 v] D [of 384 v] D [of 512 v]
    by (auto simp: sha3Func_def sha3_iSize_def sha3_size_error_def sha3_sizes_def)
  moreover have "sha3Func api bld [SQLITE_TEXT z] = ResBlob (sha3_digest 256 (bytes_of z))"
    "sha3Func api bld [SQLITE_BLOB b] = ResBlob (sha3_digest 256 b)"
    using D [of 256 "SQLITE_TEXT z"] D [of 256 "SQLITE_BLOB b"] assms(2)
    by (auto simp: sha3Func_def sha3_iSize_def sha3_sizes_def sha3_data_def api_spec_simps)
  moreover have "sha3Func api bld [SQLITE_NULL] = ResNull" by (simp add: sha3Func_def sha3_iSize_def)
  ultimately show ?thesis by blast
qed

theorem sha3_function_witness:
  "sha3Func ref_api \<lparr>SHA3_BYTEORDER = 1234, msb_first = False, aligned = (\<lambda>p d. True)\<rparr> [SQLITE_TEXT ''abc''] = ResBlob (sha3_digest 256 [97, 98, 99])"
  using sha3_function [of "\<lparr>SHA3_BYTEORDER = 1234, msb_first = False, aligned = (\<lambda>p d. True)\<rparr>" ref_api SQLITE_NULL 0 "''abc''" "[]"]
  by (simp add: build_ok_def api_spec_ref_api bytes_of_def ord_char_def)

end
