(* ===== verification/Sha3_Query.thy ===== *)
theory Sha3_Query
  imports Sha3 Ieee754
begin

text \<open>
  The function \<^verbatim>\<open>sha3_query(SQL,SIZE)\<close> of \<^verbatim>\<open>ext/misc/shathree.c\<close>: it runs the statements of its argument and
  hashes what they return.  The statements are those of the connection, which is a parameter; the
  byte stream that is hashed is the format the comment of the source describes, but for the order of the
  bytes of numbers.
\<close>

section \<open>The connection\<close>

text \<open>
  \<open>step_row st i\<close> is the row when call \<open>i\<close> of \<^verbatim>\<open>sqlite3_step\<close> on \<open>st\<close> returns \<^verbatim>\<open>SQLITE_ROW\<close>, and \<open>None\<close> when it returns something else; there may be no end of
  rows, as for a recursive query.
  Statements are values of the type \<open>'st\<close>; \<^verbatim>\<open>sqlite3_prepare_v2\<close> gives one of them, NULL included.
\<close>

record 'st sql_engine =
  prepare_v2 :: "string \<Rightarrow> int \<times> 'st \<times> string"
    \<comment> \<open>the result code, the statement and the rest of the text\<close>
  errmsg :: "string \<Rightarrow> string"
    \<comment> \<open>the message after preparing that text has failed\<close>
  stmt_readonly :: "'st \<Rightarrow> bool"
  column_count :: "'st \<Rightarrow> nat"
  stmt_sql :: "'st \<Rightarrow> string option"
  step_row :: "'st \<Rightarrow> nat \<Rightarrow> sqlite3_value list option"

text \<open>
  What SQLite documents: a statement takes up at least one byte of the text, a stored SQL text is a C
  string, and no text or blob has \<open>2 ^ 31\<close> bytes.
\<close>

definition value_size :: "sqlite3_value \<Rightarrow> nat" where
  "value_size v = (case v of SQLITE_TEXT z \<Rightarrow> length z | SQLITE_BLOB b \<Rightarrow> length b | _ \<Rightarrow> 0)"

definition engine_ok :: "'st sql_engine \<Rightarrow> bool" where
  "engine_ok eng \<longleftrightarrow>
     (\<forall>z rc st t. z \<noteq> [] \<longrightarrow> prepare_v2 eng z = (rc, st, t) \<longrightarrow> rc = SQLITE_OK \<longrightarrow> length t < length z) \<and>
     (\<forall>st z. stmt_sql eng st = Some z \<longrightarrow> NUL \<notin> set z \<and> length z < 2 ^ 31) \<and>
     (\<forall>st i row. step_row eng st i = Some row \<longrightarrow> (\<forall>v \<in> set row. value_size v < 2 ^ 31))"

section \<open>Hashing the statements\<close>

text \<open>\<^verbatim>\<open>sqlite3_vsnprintf\<close> of a letter, a number and a colon into 50 bytes.\<close>

definition hash_step_vformat :: "sqlite3_api_routines \<Rightarrow> sha3_build \<Rightarrow> SHA3Context \<Rightarrow> char \<Rightarrow> nat \<Rightarrow> SHA3Context" where
  "hash_step_vformat api bld p letter n =
     (let zBuf = take 49 (letter # snprintf_lld api (int n) @ '':'')
      in SHA3Update bld p (Some (bytes_of (c_str zBuf))))"

definition hash_column :: "sqlite3_api_routines \<Rightarrow> sha3_build \<Rightarrow> SHA3Context \<Rightarrow> sqlite3_value \<Rightarrow> SHA3Context" where
  "hash_column api bld p v =
     (case v of
        SQLITE_NULL \<Rightarrow> SHA3Update bld p (Some (bytes_of ''N''))
      | SQLITE_INTEGER i \<Rightarrow> SHA3Update bld p (Some (bytes_of ''I'' @ to_blob_loop 8 (word_of_int i) (replicate 8 0)))
      | SQLITE_FLOAT r \<Rightarrow> SHA3Update bld p (Some (bytes_of ''F'' @ to_blob_loop 8 r (replicate 8 0)))
      | SQLITE_TEXT z \<Rightarrow> SHA3Update bld (hash_step_vformat api bld p (CHR ''T'') (length z)) (Some (bytes_of z))
      | SQLITE_BLOB b \<Rightarrow>
          SHA3Update bld (hash_step_vformat api bld p (CHR ''B'') (length b)) (if b = [] then None else Some b))"

text \<open>Columns past the end of a row read as NULL.\<close>

definition column :: "sqlite3_value list \<Rightarrow> nat \<Rightarrow> sqlite3_value" where
  "column row i = (if i < length row then row ! i else SQLITE_NULL)"

definition hash_row :: "sqlite3_api_routines \<Rightarrow> sha3_build \<Rightarrow> nat \<Rightarrow> SHA3Context \<Rightarrow> sqlite3_value list \<Rightarrow> SHA3Context" where
  "hash_row api bld nCol p row =
     foldl (hash_column api bld) (SHA3Update bld p (Some (bytes_of ''R''))) (map (column row) [0..<nCol])"

text \<open>The loop over the rows of a statement, from call \<open>i\<close> of \<^verbatim>\<open>sqlite3_step\<close> on; \<open>None\<close> when it does not return.\<close>

partial_function (option) hash_rows ::
  "sqlite3_api_routines \<Rightarrow> sha3_build \<Rightarrow> 'st sql_engine \<Rightarrow> 'st \<Rightarrow> nat \<Rightarrow> SHA3Context \<Rightarrow> SHA3Context option" where
  "hash_rows api bld eng st i p =
     (case step_row eng st i of
        None \<Rightarrow> Some p
      | Some row \<Rightarrow> hash_rows api bld eng st (Suc i) (hash_row api bld (column_count eng st) p row))"

definition hash_stmt :: "sqlite3_api_routines \<Rightarrow> sha3_build \<Rightarrow> 'st sql_engine \<Rightarrow> SHA3Context \<Rightarrow> 'st \<Rightarrow> SHA3Context option" where
  "hash_stmt api bld eng p st =
     (let p = (case stmt_sql eng st of
                 None \<Rightarrow> p
               | Some z \<Rightarrow> let n = length (c_str z)
                           in SHA3Update bld (hash_step_vformat api bld p (CHR ''S'') n) (Some (bytes_of (take n z))))
      in hash_rows api bld eng st 0 p)"

text \<open>
  The loop over the statements; the number of tries is the first argument.  A message or the context.
  The text in the message about an error is what \<^verbatim>\<open>sqlite3_prepare_v2\<close> has left in \<^verbatim>\<open>zSql\<close>.
\<close>

fun sha3_query_loop :: "sqlite3_api_routines \<Rightarrow> sha3_build \<Rightarrow> 'st sql_engine \<Rightarrow> nat \<Rightarrow> SHA3Context \<Rightarrow> string \<Rightarrow> (string + SHA3Context) option"
where
  "sha3_query_loop api bld eng 0 p zSql = None"
| "sha3_query_loop api bld eng (Suc k) p zSql =
     (if zSql = [] then Some (Inr p)
      else
        let (rc, st, zTail) = prepare_v2 eng zSql in
        if rc \<noteq> SQLITE_OK then Some (Inl (''error SQL statement ['' @ zTail @ '']: '' @ errmsg eng zSql))
        else if \<not> stmt_readonly eng st then
          Some (Inl (''non-query: ['' @ (case stmt_sql eng st of None \<Rightarrow> [] | Some z \<Rightarrow> z) @ '']''))
        else
          case hash_stmt api bld eng p st of
            None \<Rightarrow> None
          | Some p \<Rightarrow> sha3_query_loop api bld eng k p zTail)"

definition sha3QueryFunc :: "sqlite3_api_routines \<Rightarrow> sha3_build \<Rightarrow> 'st sql_engine \<Rightarrow> sqlite3_value list \<Rightarrow> sql_result option" where
  "sha3QueryFunc api bld eng argv =
     (case sha3_iSize api argv of
        None \<Rightarrow> Some (ResError sha3_size_error)
      | Some iSize \<Rightarrow>
          (case value_text api (argv ! 0) of
             None \<Rightarrow> Some ResNull
           | Some zSql \<Rightarrow>
               (case sha3_query_loop api bld eng (length (c_str zSql) + 1) (SHA3Init bld iSize) (c_str zSql) of
                  None \<Rightarrow> None
                | Some (Inl zMsg) \<Rightarrow> Some (ResError zMsg)
                | Some (Inr cx) \<Rightarrow> Some (ResBlob (take (nat (iSize div 8)) (SHA3Final bld cx))))))"

definition shathree_registrations :: "registration list" where
  "shathree_registrations =
     map (\<lambda>(nm, n, f). \<lparr>rg_kind = RegFunction, rg_name = nm, rg_nArg = n, rg_user = False, rg_func = f\<rparr>)
       [(''sha3'', 1, ''sha3Func''), (''sha3'', 2, ''sha3Func''),
        (''sha3_query'', 1, ''sha3QueryFunc''), (''sha3_query'', 2, ''sha3QueryFunc'')]"

definition sqlite3_shathree_init :: "(registration \<Rightarrow> int) \<Rightarrow> connection \<Rightarrow> int \<times> connection" where
  "sqlite3_shathree_init rcs db = create_all rcs shathree_registrations db"

section \<open>The byte stream\<close>

text \<open>A number is written with its high byte first.\<close>

definition sized :: "string \<Rightarrow> byte list \<Rightarrow> byte list" where
  "sized letter b = bytes_of (letter @ fmt_int (int (length b)) @ '':'') @ b"

definition column_segment :: "sqlite3_value \<Rightarrow> byte list" where
  "column_segment v =
     (case v of
        SQLITE_NULL \<Rightarrow> bytes_of ''N''
      | SQLITE_INTEGER i \<Rightarrow> bytes_of ''I'' @ u64_bytes True (word_of_int i)
      | SQLITE_FLOAT r \<Rightarrow> bytes_of ''F'' @ u64_bytes True r
      | SQLITE_TEXT z \<Rightarrow> sized ''T'' (bytes_of z)
      | SQLITE_BLOB b \<Rightarrow> sized ''B'' b)"

definition row_segment :: "nat \<Rightarrow> sqlite3_value list \<Rightarrow> byte list" where
  "row_segment nCol row = bytes_of ''R'' @ concat (map (\<lambda>i. column_segment (column row i)) [0..<nCol])"

definition stmt_segment :: "'st sql_engine \<Rightarrow> 'st \<times> sqlite3_value list list \<Rightarrow> byte list" where
  "stmt_segment eng q =
     (case stmt_sql eng (fst q) of None \<Rightarrow> [] | Some z \<Rightarrow> sized ''S'' (bytes_of z)) @
     concat (map (row_segment (column_count eng (fst q))) (snd q))"

text \<open>The rows a statement returns, if they come to an end.\<close>

definition has_rows :: "'st sql_engine \<Rightarrow> 'st \<Rightarrow> nat \<Rightarrow> sqlite3_value list list \<Rightarrow> bool" where
  "has_rows eng st i rows \<longleftrightarrow> (\<forall>j < length rows. step_row eng st (i + j) = Some (rows ! j)) \<and> step_row eng st (i + length rows) = None"

text \<open>
  How the connection reads a text: the statements it runs with their rows, the message it stops with, or a statement whose rows never
  come to an end.
\<close>

inductive sql_script :: "'st sql_engine \<Rightarrow> string \<Rightarrow> ('st \<times> sqlite3_value list list) list \<Rightarrow> bool" for eng where
  script_end: "sql_script eng [] []"
| script_stmt: "z \<noteq> [] \<Longrightarrow> prepare_v2 eng z = (SQLITE_OK, st, t) \<Longrightarrow> stmt_readonly eng st \<Longrightarrow> has_rows eng st 0 rows \<Longrightarrow>
    sql_script eng t sts \<Longrightarrow> sql_script eng z ((st, rows) # sts)"

inductive sql_stops :: "'st sql_engine \<Rightarrow> string \<Rightarrow> string \<Rightarrow> bool" for eng where
  stop_error: "z \<noteq> [] \<Longrightarrow> prepare_v2 eng z = (rc, st, t) \<Longrightarrow> rc \<noteq> SQLITE_OK \<Longrightarrow>
    sql_stops eng z (''error SQL statement ['' @ t @ '']: '' @ errmsg eng z)"
| stop_write: "z \<noteq> [] \<Longrightarrow> prepare_v2 eng z = (SQLITE_OK, st, t) \<Longrightarrow> \<not> stmt_readonly eng st \<Longrightarrow>
    sql_stops eng z (''non-query: ['' @ (case stmt_sql eng st of None \<Rightarrow> [] | Some s \<Rightarrow> s) @ '']'')"
| stop_later: "z \<noteq> [] \<Longrightarrow> prepare_v2 eng z = (SQLITE_OK, st, t) \<Longrightarrow> stmt_readonly eng st \<Longrightarrow> has_rows eng st 0 rows \<Longrightarrow>
    sql_stops eng t msg \<Longrightarrow> sql_stops eng z msg"

inductive sql_endless :: "'st sql_engine \<Rightarrow> string \<Rightarrow> bool" for eng where
  endless_here: "z \<noteq> [] \<Longrightarrow> prepare_v2 eng z = (SQLITE_OK, st, t) \<Longrightarrow> stmt_readonly eng st \<Longrightarrow> (\<And>i. step_row eng st i \<noteq> None) \<Longrightarrow>
    sql_endless eng z"
| endless_later: "z \<noteq> [] \<Longrightarrow> prepare_v2 eng z = (SQLITE_OK, st, t) \<Longrightarrow> stmt_readonly eng st \<Longrightarrow> has_rows eng st 0 rows \<Longrightarrow>
    sql_endless eng t \<Longrightarrow> sql_endless eng z"

section \<open>The segments are what is hashed\<close>

lemma big_endian_bytes: "big_endian n v = rev (map (\<lambda>j. ucast (drop_bit (8 * j) v)) [0..<n])"
  by (induction n arbitrary: v) (simp_all add: map_upt_Suc add.commute del: upt_Suc)

lemma to_blob_bytes: "to_blob_loop 8 v (replicate 8 0) = u64_bytes True v"
  by (simp add: to_blob_loop_eq u64_bytes_def big_endian_bytes)

lemma fmt_int_chars: "NUL \<notin> set (fmt_int (int n))"
proof -
  have "digit_char d \<noteq> NUL" if "d < 10" for d
    using ord_digit_char [OF that] by (auto simp: ord_char_def)
  then show ?thesis using nat_digits_bounds [of n] by (force simp: fmt_int_def)
qed

lemma hash_step_bytes:
  assumes "api_spec api" "n < 2 ^ 31" "letter \<noteq> NUL"
  shows "hash_step_vformat api bld p letter n = SHA3Update bld p (Some (bytes_of (letter # fmt_int (int n) @ '':'')))"
proof -
  have "n < 10 ^ 10" using assms(2) by simp
  then have "length (nat_digits n) \<le> 10" using nat_digits_length [of 10 n] by simp
  then have "length (letter # fmt_int (int n) @ '':'') \<le> 49" by (simp add: fmt_int_def)
  moreover have "c_str (letter # fmt_int (int n) @ '':'') = letter # fmt_int (int n) @ '':''"
    unfolding c_str_def using assms(3) fmt_int_chars [of n] by (intro takeWhile_eq_all_conv [THEN iffD2]) auto
  ultimately show ?thesis using assms(1) by (simp add: hash_step_vformat_def api_spec_simps)
qed

text \<open>Adding the bytes \<open>b\<close> to a context.\<close>

definition feeds :: "sha3_build \<Rightarrow> nat \<Rightarrow> SHA3Context \<Rightarrow> byte list \<Rightarrow> SHA3Context \<Rightarrow> bool" where
  "feeds bld rate p b q \<longleftrightarrow> ctx_ok bld rate q \<and> ctx_abs bld q = foldl (ab_byte rate) (ctx_abs bld p) b"

lemma feeds_update: "ctx_ok bld rate p \<Longrightarrow> feeds bld rate p b (SHA3Update bld p (Some b))"
  by (simp add: feeds_def SHA3Update_refines)

lemma feeds_trans: "feeds bld rate p b q \<Longrightarrow> feeds bld rate q c r \<Longrightarrow> feeds bld rate p (b @ c) r"
  by (simp add: feeds_def)

lemma feeds_Nil: "ctx_ok bld rate p \<Longrightarrow> feeds bld rate p [] p"
  by (simp add: feeds_def)

lemma feeds_ok: "feeds bld rate p b q \<Longrightarrow> ctx_ok bld rate q"
  by (simp add: feeds_def)

lemma feeds_foldl:
  assumes "\<And>p d. ctx_ok bld rate p \<Longrightarrow> d \<in> set ds \<Longrightarrow> feeds bld rate p (seg d) (f p d)"
  shows "ctx_ok bld rate p \<Longrightarrow> feeds bld rate p (concat (map seg ds)) (foldl f p ds)"
  using assms
proof (induction ds arbitrary: p)
  case (Cons d ds)
  have "feeds bld rate p (seg d) (f p d)" using Cons.prems by simp
  moreover from this have "feeds bld rate (f p d) (concat (map seg ds)) (foldl f (f p d) ds)"
    using Cons.prems by (intro Cons.IH) (auto dest: feeds_ok)
  ultimately show ?case by (auto intro: feeds_trans)
qed (simp add: feeds_Nil)

lemma feeds_sized:
  assumes "api_spec api" "length b < 2 ^ 31" "ctx_ok bld rate p" "letter \<noteq> NUL"
  shows "feeds bld rate p (sized [letter] b) (SHA3Update bld (hash_step_vformat api bld p letter (length b)) (Some b))"
  unfolding hash_step_bytes [OF assms(1,2,4)] sized_def
  using feeds_trans [OF feeds_update [OF assms(3)] feeds_update [OF feeds_ok [OF feeds_update [OF assms(3)]]]] by simp

lemma update_empty: "SHA3Update bld p (Some []) = p" "SHA3Update bld p None = p"
  by (simp_all add: SHA3Update_def absorb_words.simps)

lemma length_bytes_of [simp]: "length (bytes_of z) = length z"
  by (simp add: bytes_of_def)

lemma feeds_column:
  assumes "api_spec api" "value_size v < 2 ^ 31" "ctx_ok bld rate p"
  shows "feeds bld rate p (column_segment v) (hash_column api bld p v)"
proof (cases v)
  case (SQLITE_BLOB b)
  then show ?thesis using feeds_sized [OF assms(1) _ assms(3), of b "CHR ''B''"] assms(2)
    by (cases "b = []") (auto simp: hash_column_def column_segment_def value_size_def update_empty)
next
  case (SQLITE_TEXT z)
  then show ?thesis using feeds_sized [OF assms(1) _ assms(3), of "bytes_of z" "CHR ''T''"] assms(2)
    by (simp add: hash_column_def column_segment_def value_size_def)
qed (simp_all add: hash_column_def column_segment_def to_blob_bytes feeds_update assms(3))

lemma feeds_row:
  assumes "api_spec api" "\<forall>v \<in> set row. value_size v < 2 ^ 31" "ctx_ok bld rate p"
  shows "feeds bld rate p (row_segment nCol row) (hash_row api bld nCol p row)"
proof -
  have "value_size (column row i) < 2 ^ 31" for i using assms(2) by (auto simp: column_def value_size_def)
  then have "feeds bld rate (SHA3Update bld p (Some (bytes_of ''R''))) (concat (map column_segment (map (column row) [0..<nCol])))
      (hash_row api bld nCol p row)"
    unfolding hash_row_def
    by (intro feeds_foldl) (auto intro: feeds_column [OF assms(1)] feeds_ok [OF feeds_update [OF assms(3)]])
  from feeds_trans [OF feeds_update [OF assms(3)] this] show ?thesis by (simp add: row_segment_def comp_def)
qed

text \<open>The loop over the rows returns exactly when they come to an end.\<close>

lemma hash_rows_finite:
  "has_rows eng st i rows \<Longrightarrow> hash_rows api bld eng st i p = Some (foldl (hash_row api bld (column_count eng st)) p rows)"
proof (induction rows arbitrary: i p)
  case Nil
  then show ?case by (subst hash_rows.simps) (simp add: has_rows_def)
next
  case (Cons row rows)
  have "step_row eng st i = Some row" "has_rows eng st (Suc i) rows"
    using Cons.prems by (auto simp: has_rows_def dest: spec [of _ "Suc _"])
  then show ?case using Cons.IH by (subst hash_rows.simps) simp
qed

lemma hash_rows_endless:
  assumes "\<And>j. step_row eng st j \<noteq> None"
  shows "hash_rows api bld eng st i p = None"
proof (rule ccontr)
  assume "hash_rows api bld eng st i p \<noteq> None"
  then obtain q where "hash_rows api bld eng st i p = Some q" by blast
  then have "\<exists>j. step_row eng st j = None"
    by (rule hash_rows.raw_induct [where P = "\<lambda>api bld eng st i p q. \<exists>j. step_row eng st j = None", rotated])
      (auto split: option.splits)
  then show False using assms by blast
qed

lemma rows_end: "(\<exists>rows. has_rows eng st 0 rows) \<or> (\<forall>i. step_row eng st i \<noteq> None)"
proof (cases "\<exists>i. step_row eng st i = None")
  case True
  define n where "n = (LEAST i. step_row eng st i = None)"
  have "step_row eng st n = None" unfolding n_def by (rule LeastI_ex [OF True])
  moreover have "\<forall>j < n. step_row eng st j \<noteq> None"
    unfolding n_def by (intro allI impI not_less_Least)
  ultimately have "has_rows eng st 0 (map (\<lambda>j. the (step_row eng st j)) [0..<n])" by (simp add: has_rows_def)
  then show ?thesis by (intro disjI1 exI)
next
  case False
  then show ?thesis by simp
qed

lemma feeds_stmt:
  assumes "api_spec api" "engine_ok eng" "ctx_ok bld rate p" "has_rows eng st 0 rows"
  shows "\<exists>q. hash_stmt api bld eng p st = Some q \<and> feeds bld rate p (stmt_segment eng (st, rows)) q"
proof -
  define q where "q = (case stmt_sql eng st of None \<Rightarrow> p | Some z \<Rightarrow> let n = length (c_str z)
    in SHA3Update bld (hash_step_vformat api bld p (CHR ''S'') n) (Some (bytes_of (take n z))))"
  have q: "feeds bld rate p (case stmt_sql eng st of None \<Rightarrow> [] | Some z \<Rightarrow> sized ''S'' (bytes_of z)) q"
  proof (cases "stmt_sql eng st")
    case None
    then show ?thesis using assms(3) by (simp add: q_def feeds_Nil)
  next
    case (Some z)
    then have z: "NUL \<notin> set z" "length z < 2 ^ 31" using assms(2) by (auto simp: engine_ok_def)
    then show ?thesis using Some c_str_id feeds_sized [OF assms(1) _ assms(3), of "bytes_of z" "CHR ''S''"] by (simp add: q_def)
  qed
  have "\<forall>v \<in> set row. value_size v < 2 ^ 31" if "row \<in> set rows" for row
    using that assms(2,4) by (auto simp: engine_ok_def has_rows_def in_set_conv_nth)
  then have "feeds bld rate q (concat (map (row_segment (column_count eng st)) rows)) (foldl (hash_row api bld (column_count eng st)) q rows)"
    using assms(1) q by (intro feeds_foldl feeds_row) (auto dest: feeds_ok)
  moreover have "hash_stmt api bld eng p st = Some (foldl (hash_row api bld (column_count eng st)) q rows)"
    using hash_rows_finite [OF assms(4)] by (simp add: hash_stmt_def q_def [symmetric])
  ultimately show ?thesis using feeds_trans [OF q] by (simp add: stmt_segment_def)
qed

lemma script_cases:
  assumes "engine_ok eng"
  shows "(\<exists>sts. sql_script eng z sts) \<or> (\<exists>msg. sql_stops eng z msg) \<or> sql_endless eng z"
proof (induction z rule: length_induct)
  case (1 z)
  show ?case
  proof (cases "z = []")
    case False
    obtain rc st t where p: "prepare_v2 eng z = (rc, st, t)" by (metis prod_cases3)
    have "rc = SQLITE_OK \<Longrightarrow> length t < length z" using assms False p by (auto simp: engine_ok_def)
    then consider "rc \<noteq> SQLITE_OK" | "rc = SQLITE_OK" "\<not> stmt_readonly eng st"
      | "rc = SQLITE_OK" "stmt_readonly eng st" "\<And>i. step_row eng st i \<noteq> None"
      | rows where "rc = SQLITE_OK" "stmt_readonly eng st" "has_rows eng st 0 rows"
          "(\<exists>sts. sql_script eng t sts) \<or> (\<exists>msg. sql_stops eng t msg) \<or> sql_endless eng t"
      using 1 rows_end [of eng st] by blast
    then show ?thesis
    proof cases
      case 1
      then show ?thesis using stop_error [OF False p] by blast
    next
      case 2
      then show ?thesis using stop_write [OF False, of eng st t] p by blast
    next
      case 3
      then show ?thesis using endless_here [OF False, of eng st t] p by blast
    next
      case 4
      then show ?thesis using script_stmt [OF False, of eng st t] stop_later [OF False, of eng st t] endless_later [OF False, of eng st t] p by blast
    qed
  qed (auto intro: script_end)
qed

lemma query_loop_script:
  assumes "api_spec api" "engine_ok eng"
  shows "sql_script eng z sts \<Longrightarrow> length z < k \<Longrightarrow> ctx_ok bld rate p \<Longrightarrow>
    \<exists>q. sha3_query_loop api bld eng k p z = Some (Inr q) \<and> feeds bld rate p (concat (map (stmt_segment eng) sts)) q"
proof (induction arbitrary: k p rule: sql_script.induct)
  case script_end
  then show ?case by (cases k) (auto simp: feeds_Nil)
next
  case (script_stmt z st t rows sts)
  obtain j where k: "k = Suc j" using script_stmt.prems(1) by (cases k) auto
  have "length t < length z" using assms(2) script_stmt(1,2) by (auto simp: engine_ok_def)
  then have j: "length t < j" using script_stmt.prems(1) k by simp
  obtain r where r: "hash_stmt api bld eng p st = Some r" "feeds bld rate p (stmt_segment eng (st, rows)) r"
    using feeds_stmt [OF assms script_stmt.prems(2) script_stmt(4)] by blast
  from script_stmt.IH [OF j feeds_ok [OF r(2)]] show ?case
    using script_stmt(1-3) r(1) feeds_trans [OF r(2)] by (auto simp: k)
qed

lemma query_loop_stops:
  assumes "engine_ok eng"
  shows "sql_stops eng z msg \<Longrightarrow> length z < k \<Longrightarrow> sha3_query_loop api bld eng k p z = Some (Inl msg)"
proof (induction arbitrary: k p rule: sql_stops.induct)
  case (stop_later z st t rows msg)
  obtain j where k: "k = Suc j" using stop_later.prems by (cases k) auto
  have "length t < length z" using assms stop_later(1,2) by (auto simp: engine_ok_def)
  moreover obtain q where "hash_stmt api bld eng p st = Some q"
    using hash_rows_finite [OF stop_later(4)] by (simp add: hash_stmt_def)
  ultimately show ?case using stop_later.IH [of j] stop_later.prems stop_later(1-3) by (simp add: k)
next
  case (stop_error z rc st t)
  then show ?case by (cases k) auto
next
  case (stop_write z st t)
  then show ?case by (cases k) auto
qed

lemma query_loop_endless: "sql_endless eng z \<Longrightarrow> sha3_query_loop api bld eng k p z = None"
proof (induction arbitrary: k p rule: sql_endless.induct)
  case (endless_here z st t)
  then have "hash_stmt api bld eng p st = None" by (simp add: hash_stmt_def hash_rows_endless)
  then show ?case using endless_here(1-3) by (cases k) simp_all
next
  case (endless_later z st t rows)
  then show ?case by (cases k) (auto split: option.split)
qed

text \<open>
  C8: \<^verbatim>\<open>sha3_query(SQL,SIZE)\<close> returns exactly when no query of the text has an endless number of rows before the function stops with an error.  When every statement of the text can be
  prepared and is a query, it is the hash of the concatenation of their segments: the size and text of the statement, and for each row
  an R and a segment for each column, numbers as eight bytes with the high byte first (the comment of the source says low byte first).  Otherwise it is
  the error of the first statement that cannot be prepared or is not a query, whatever the ones before it returned.
\<close>

theorem sha3_query_stream:
  assumes "api_spec api" "build_ok bld" "engine_ok eng" "d \<in> {224, 256, 384, 512}" "NUL \<notin> set z"
  shows "((\<exists>sts. sql_script eng z sts) \<or> (\<exists>msg. sql_stops eng z msg) \<or> sql_endless eng z) \<and>
    (\<forall>sts. sql_script eng z sts \<longrightarrow> sha3QueryFunc api bld eng [SQLITE_TEXT z, SQLITE_INTEGER d]
       = Some (ResBlob (sha3_digest d (concat (map (stmt_segment eng) sts))))) \<and>
    (\<forall>msg. sql_stops eng z msg \<longrightarrow> sha3QueryFunc api bld eng [SQLITE_TEXT z, SQLITE_INTEGER d] = Some (ResError msg)) \<and>
    (sql_endless eng z \<longrightarrow> sha3QueryFunc api bld eng [SQLITE_TEXT z, SQLITE_INTEGER d] = None)"
proof -
  have d: "d \<in> set sha3_sizes" using assms(4) by (auto simp: sha3_sizes_def)
  have "value_int api (SQLITE_INTEGER d) = d" using assms(1,4) by (intro value_int_small) auto
  then have i: "sha3_iSize api [SQLITE_TEXT z, SQLITE_INTEGER d] = Some d" using d by (simp add: sha3_iSize_def)
  note F = sha3QueryFunc_def i c_str_id [OF assms(5)] api_spec_simps(1) [OF assms(1)]
  note I = SHA3Init_ok [OF assms(2) d]
  have "sha3QueryFunc api bld eng [SQLITE_TEXT z, SQLITE_INTEGER d] = Some (ResBlob (sha3_digest d (concat (map (stmt_segment eng) sts))))"
    if s: "sql_script eng z sts" for sts
  proof -
    obtain q where q: "sha3_query_loop api bld eng (length z + 1) (SHA3Init bld d) z = Some (Inr q)"
      "feeds bld (nat ((1600 - 2 * d) div 8)) (SHA3Init bld d) (concat (map (stmt_segment eng) sts)) q"
      using query_loop_script [OF assms(1,3) s _ I(1), of "length z + 1"] by auto
    then have "take (nat (d div 8)) (SHA3Final bld q) = sha3_digest d (concat (map (stmt_segment eng) sts))"
      by (intro final_digest [OF assms(2) d refl]) (simp_all add: feeds_def I(2))
    then show ?thesis using q(1) by (simp add: F)
  qed
  moreover have "sha3QueryFunc api bld eng [SQLITE_TEXT z, SQLITE_INTEGER d] = Some (ResError msg)" if "sql_stops eng z msg" for msg
    using query_loop_stops [OF assms(3) that, of "length z + 1"] by (simp add: F)
  moreover have "sha3QueryFunc api bld eng [SQLITE_TEXT z, SQLITE_INTEGER d] = None" if "sql_endless eng z"
    using query_loop_endless [OF that, of api bld "length z + 1"] by (simp add: F)
  ultimately show ?thesis using script_cases [OF assms(3)] by blast
qed

text \<open>A connection that knows one query, with one row of an integer and a blob, and takes any text for it.\<close>

definition one_query :: "unit sql_engine" where
  "one_query = \<lparr>prepare_v2 = (\<lambda>z. (0, (), [])), errmsg = (\<lambda>z. []), stmt_readonly = (\<lambda>st. True), column_count = (\<lambda>st. 2),
     stmt_sql = (\<lambda>st. Some ''q''), step_row = (\<lambda>st i. if i = 0 then Some [SQLITE_INTEGER 258, SQLITE_BLOB [7]] else None)\<rparr>"

lemma one_query_ok: "engine_ok one_query"
  by (simp add: engine_ok_def one_query_def value_size_def)

theorem sha3_query_stream_witness:
  "sha3QueryFunc ref_api \<lparr>SHA3_BYTEORDER = 4321, msb_first = True, aligned = (\<lambda>p d. True)\<rparr> one_query [SQLITE_TEXT ''q'', SQLITE_INTEGER 224]
   = Some (ResBlob (sha3_digest 224 (bytes_of ''S1:qRI'' @ [0, 0, 0, 0, 0, 0, 1, 2] @ bytes_of ''B1:'' @ [7])))"
proof -
  let ?q = "((), [[SQLITE_INTEGER 258, SQLITE_BLOB [7]]])"
  have "sql_script one_query ''q'' [?q]"
    using script_stmt [OF _ _ _ _ script_end, of "''q''" one_query "()" "[[SQLITE_INTEGER 258, SQLITE_BLOB [7]]]"]
    by (simp add: one_query_def has_rows_def)
  moreover have "concat (map (stmt_segment one_query) [?q]) = bytes_of ''S1:qRI'' @ [0, 0, 0, 0, 0, 0, 1, 2] @ bytes_of ''B1:'' @ [7]"
    by code_simp
  ultimately show ?thesis
    using sha3_query_stream [of ref_api "\<lparr>SHA3_BYTEORDER = 4321, msb_first = True, aligned = (\<lambda>p d. True)\<rparr>" one_query 224 "''q''"]
    by (simp add: build_ok_def api_spec_ref_api one_query_ok)
qed

end
