(* ===== verification/Appendvfs.thy ===== *)
theory Appendvfs
  imports Sqlite_Api
begin

text \<open>
  The append VFS of the shell (\<^verbatim>\<open>ext/misc/appendvfs.c\<close> within \<^verbatim>\<open>mvsqlite-sqlite3/shell.c\<close>): a database at the end of
  another file, behind the methods of an ordinary \<^verbatim>\<open>sqlite3_file\<close>.

  The file below (\<^verbatim>\<open>ORIGFILE\<close>) and the VFS below (\<^verbatim>\<open>ORIGVFS\<close>) are arguments: tables of methods on a type \<open>'f\<close> of
  open files and a type \<open>'w\<close> for everything else.  A method returns its result code, what it
  writes through pointers, and the file.  Offsets are unbounded integers: the sums of the code overflow only for files of about
  \<open>2 ^ 63\<close> bytes.
\<close>

section \<open>Methods\<close>

abbreviation (input) SQLITE_IOERR :: int where "SQLITE_IOERR \<equiv> 10"
abbreviation (input) SQLITE_FULL :: int where "SQLITE_FULL \<equiv> 13"
abbreviation (input) SQLITE_CANTOPEN :: int where "SQLITE_CANTOPEN \<equiv> 14"
abbreviation (input) SQLITE_OK_LOAD_PERMANENTLY :: int where "SQLITE_OK_LOAD_PERMANENTLY \<equiv> 256"
abbreviation (input) SQLITE_IOERR_SHORT_READ :: int where "SQLITE_IOERR_SHORT_READ \<equiv> 522"
abbreviation (input) SQLITE_OPEN_CREATE :: int where "SQLITE_OPEN_CREATE \<equiv> 4"
abbreviation (input) SQLITE_OPEN_MAIN_DB :: int where "SQLITE_OPEN_MAIN_DB \<equiv> 256"

text \<open>The operations of \<^verbatim>\<open>xFileControl\<close> with what their argument points to.\<close>

datatype fcntl = FCNTL_SIZE_HINT int | FCNTL_VFSNAME "string option" | FCNTL_other int

record 'f sqlite3_io_methods =
  xClose :: "'f \<Rightarrow> int \<times> 'f"
  xRead :: "'f \<Rightarrow> int \<Rightarrow> int \<Rightarrow> int \<times> byte list \<times> 'f"
    \<comment> \<open>the number of bytes and the offset; the contents of the buffer\<close>
  xWrite :: "'f \<Rightarrow> byte list \<Rightarrow> int \<Rightarrow> int \<times> 'f"
  xTruncate :: "'f \<Rightarrow> int \<Rightarrow> int \<times> 'f"
  xSync :: "'f \<Rightarrow> int \<Rightarrow> int \<times> 'f"
  xFileSize :: "'f \<Rightarrow> int \<times> int \<times> 'f"
  xLock :: "'f \<Rightarrow> int \<Rightarrow> int \<times> 'f"
  xUnlock :: "'f \<Rightarrow> int \<Rightarrow> int \<times> 'f"
  xCheckReservedLock :: "'f \<Rightarrow> int \<times> int \<times> 'f"
  xFileControl :: "'f \<Rightarrow> fcntl \<Rightarrow> int \<times> fcntl \<times> 'f"
  xSectorSize :: "'f \<Rightarrow> int"
  xDeviceCharacteristics :: "'f \<Rightarrow> int"
  xShmMap :: "'f \<Rightarrow> int \<Rightarrow> int \<Rightarrow> int \<Rightarrow> int \<times> nat \<times> 'f"
  xShmLock :: "'f \<Rightarrow> int \<Rightarrow> int \<Rightarrow> int \<Rightarrow> int \<times> 'f"
  xShmBarrier :: "'f \<Rightarrow> 'f"
  xShmUnmap :: "'f \<Rightarrow> int \<Rightarrow> int \<times> 'f"
  xFetch :: "'f \<Rightarrow> int \<Rightarrow> int \<Rightarrow> int \<times> byte list option \<times> 'f"
    \<comment> \<open>the bytes behind the pointer, None for a null pointer\<close>
  xUnfetch :: "'f \<Rightarrow> int \<Rightarrow> byte list option \<Rightarrow> int \<times> 'f"

section \<open>Files with an append mark\<close>

record ApndFile =
  iPgOne :: int
  iMark :: int

text \<open>An \<^verbatim>\<open>ApndFile\<close> and the file that follows it in memory.\<close>

type_synonym 'f apnd_file = "ApndFile \<times> 'f"

definition ascii :: "string \<Rightarrow> byte list" where
  "ascii z = map (\<lambda>c. word_of_int (ord_char c)) z"

definition APND_MARK_PREFIX :: "byte list" where
  "APND_MARK_PREFIX = ascii ''Start-Of-SQLite3-''"

abbreviation (input) APND_MARK_PREFIX_SZ :: nat where "APND_MARK_PREFIX_SZ \<equiv> 17"
abbreviation (input) APND_MARK_FOS_SZ :: nat where "APND_MARK_FOS_SZ \<equiv> 8"
abbreviation (input) APND_MARK_SIZE :: nat where "APND_MARK_SIZE \<equiv> 25"
abbreviation (input) APND_MAX_SIZE :: int where "APND_MAX_SIZE \<equiv> 0x40000000"

definition APND_START_ROUNDUP :: "int \<Rightarrow> int" where
  "APND_START_ROUNDUP fsz = (fsz + 4095) AND NOT 4095"

definition apndClose :: "'f sqlite3_io_methods \<Rightarrow> 'f apnd_file \<Rightarrow> int \<times> 'f apnd_file" where
  "apndClose M = (\<lambda>(paf, f). let (rc, f) = xClose M f in (rc, paf, f))"

definition apndRead :: "'f sqlite3_io_methods \<Rightarrow> 'f apnd_file \<Rightarrow> int \<Rightarrow> int \<Rightarrow> int \<times> byte list \<times> 'f apnd_file" where
  "apndRead M = (\<lambda>(paf, f) iAmt iOfst. let (rc, buf, f) = xRead M f iAmt (iPgOne paf + iOfst) in (rc, buf, paf, f))"

text \<open>The loop that stores the offset, from the last byte to the first.\<close>

fun mark_loop :: "nat \<Rightarrow> int \<Rightarrow> byte list \<Rightarrow> byte list" where
  "mark_loop 0 v a = a"
| "mark_loop (Suc i) v a = mark_loop i (drop_bit 8 v) (a[APND_MARK_PREFIX_SZ + i := word_of_int (v AND 0xff)])"

definition apndWriteMark :: "'f sqlite3_io_methods \<Rightarrow> 'f apnd_file \<Rightarrow> int \<Rightarrow> int \<times> 'f apnd_file" where
  "apndWriteMark M = (\<lambda>(paf, f) iWriteEnd.
     let a = mark_loop APND_MARK_FOS_SZ (iPgOne paf) (APND_MARK_PREFIX @ replicate APND_MARK_FOS_SZ 0);
         iWriteEnd = iWriteEnd + iPgOne paf;
         (rc, f) = xWrite M f a iWriteEnd
     in (rc, if rc = SQLITE_OK then paf\<lparr>iMark := iWriteEnd\<rparr> else paf, f))"

definition apndWrite :: "'f sqlite3_io_methods \<Rightarrow> 'f apnd_file \<Rightarrow> byte list \<Rightarrow> int \<Rightarrow> int \<times> 'f apnd_file" where
  "apndWrite M = (\<lambda>(paf, f) zBuf iOfst.
     let iWriteEnd = iOfst + int (length zBuf) in
     if iWriteEnd \<ge> APND_MAX_SIZE then (SQLITE_FULL, paf, f)
     else
       let (rc, paf, f) = (if iMark paf < 0 \<or> iPgOne paf + iWriteEnd > iMark paf then apndWriteMark M (paf, f) iWriteEnd
                           else (SQLITE_OK, paf, f))
       in if rc \<noteq> SQLITE_OK then (rc, paf, f)
          else let (rc, f) = xWrite M f zBuf (iPgOne paf + iOfst) in (rc, paf, f))"

definition apndTruncate :: "'f sqlite3_io_methods \<Rightarrow> 'f apnd_file \<Rightarrow> int \<Rightarrow> int \<times> 'f apnd_file" where
  "apndTruncate M = (\<lambda>(paf, f) size.
     let (rc, paf, f) = apndWriteMark M (paf, f) size in
     if rc \<noteq> SQLITE_OK then (SQLITE_IOERR, paf, f)
     else let (rc, f) = xTruncate M f (iMark paf + int APND_MARK_SIZE) in (rc, paf, f))"

definition apndSync :: "'f sqlite3_io_methods \<Rightarrow> 'f apnd_file \<Rightarrow> int \<Rightarrow> int \<times> 'f apnd_file" where
  "apndSync M = (\<lambda>(paf, f) flags. let (rc, f) = xSync M f flags in (rc, paf, f))"

definition apndFileSize :: "'f apnd_file \<Rightarrow> int \<times> int \<times> 'f apnd_file" where
  "apndFileSize = (\<lambda>(paf, f). (SQLITE_OK, if iMark paf \<ge> 0 then iMark paf - iPgOne paf else 0, paf, f))"

definition apndLock :: "'f sqlite3_io_methods \<Rightarrow> 'f apnd_file \<Rightarrow> int \<Rightarrow> int \<times> 'f apnd_file" where
  "apndLock M = (\<lambda>(paf, f) eLock. let (rc, f) = xLock M f eLock in (rc, paf, f))"

definition apndUnlock :: "'f sqlite3_io_methods \<Rightarrow> 'f apnd_file \<Rightarrow> int \<Rightarrow> int \<times> 'f apnd_file" where
  "apndUnlock M = (\<lambda>(paf, f) eLock. let (rc, f) = xUnlock M f eLock in (rc, paf, f))"

definition apndCheckReservedLock :: "'f sqlite3_io_methods \<Rightarrow> 'f apnd_file \<Rightarrow> int \<times> int \<times> 'f apnd_file" where
  "apndCheckReservedLock M = (\<lambda>(paf, f). let (rc, res, f) = xCheckReservedLock M f in (rc, res, paf, f))"

definition apndFileControl :: "'f sqlite3_io_methods \<Rightarrow> 'f apnd_file \<Rightarrow> fcntl \<Rightarrow> int \<times> fcntl \<times> 'f apnd_file" where
  "apndFileControl M = (\<lambda>(paf, f) arg.
     let (rc, res, f) = xFileControl M f (case arg of FCNTL_SIZE_HINT n \<Rightarrow> FCNTL_SIZE_HINT (n + iPgOne paf) | _ \<Rightarrow> arg)
     in (rc,
         (case (arg, res) of
            (FCNTL_VFSNAME _, FCNTL_VFSNAME z) \<Rightarrow>
              if rc = SQLITE_OK
              then FCNTL_VFSNAME (Some (''apnd('' @ fmt_int (iPgOne paf) @ '')/'' @ (case z of None \<Rightarrow> [] | Some z \<Rightarrow> z)))
              else res
          | _ \<Rightarrow> res), paf, f))"

definition apndSectorSize :: "'f sqlite3_io_methods \<Rightarrow> 'f apnd_file \<Rightarrow> int" where
  "apndSectorSize M = (\<lambda>(paf, f). xSectorSize M f)"

definition apndDeviceCharacteristics :: "'f sqlite3_io_methods \<Rightarrow> 'f apnd_file \<Rightarrow> int" where
  "apndDeviceCharacteristics M = (\<lambda>(paf, f). xDeviceCharacteristics M f)"

definition apndShmMap :: "'f sqlite3_io_methods \<Rightarrow> 'f apnd_file \<Rightarrow> int \<Rightarrow> int \<Rightarrow> int \<Rightarrow> int \<times> nat \<times> 'f apnd_file" where
  "apndShmMap M = (\<lambda>(paf, f) iPg pgsz bExtend. let (rc, pp, f) = xShmMap M f iPg pgsz bExtend in (rc, pp, paf, f))"

definition apndShmLock :: "'f sqlite3_io_methods \<Rightarrow> 'f apnd_file \<Rightarrow> int \<Rightarrow> int \<Rightarrow> int \<Rightarrow> int \<times> 'f apnd_file" where
  "apndShmLock M = (\<lambda>(paf, f) offset n flags. let (rc, f) = xShmLock M f offset n flags in (rc, paf, f))"

definition apndShmBarrier :: "'f sqlite3_io_methods \<Rightarrow> 'f apnd_file \<Rightarrow> 'f apnd_file" where
  "apndShmBarrier M = (\<lambda>(paf, f). (paf, xShmBarrier M f))"

definition apndShmUnmap :: "'f sqlite3_io_methods \<Rightarrow> 'f apnd_file \<Rightarrow> int \<Rightarrow> int \<times> 'f apnd_file" where
  "apndShmUnmap M = (\<lambda>(paf, f) deleteFlag. let (rc, f) = xShmUnmap M f deleteFlag in (rc, paf, f))"

definition apndFetch :: "'f sqlite3_io_methods \<Rightarrow> 'f apnd_file \<Rightarrow> int \<Rightarrow> int \<Rightarrow> int \<times> byte list option \<times> 'f apnd_file" where
  "apndFetch M = (\<lambda>(p, f) iOfst iAmt.
     if iMark p < 0 \<or> iOfst + iAmt > iMark p then (SQLITE_IOERR, None, p, f)
     else let (rc, pp, f) = xFetch M f (iOfst + iPgOne p) iAmt in (rc, pp, p, f))"

definition apndUnfetch :: "'f sqlite3_io_methods \<Rightarrow> 'f apnd_file \<Rightarrow> int \<Rightarrow> byte list option \<Rightarrow> int \<times> 'f apnd_file" where
  "apndUnfetch M = (\<lambda>(p, f) iOfst pPage. let (rc, f) = xUnfetch M f (iOfst + iPgOne p) pPage in (rc, p, f))"

definition apnd_io_methods :: "'f sqlite3_io_methods \<Rightarrow> 'f apnd_file sqlite3_io_methods" where
  "apnd_io_methods M =
     \<lparr>xClose = apndClose M, xRead = apndRead M, xWrite = apndWrite M, xTruncate = apndTruncate M, xSync = apndSync M,
      xFileSize = apndFileSize, xLock = apndLock M, xUnlock = apndUnlock M, xCheckReservedLock = apndCheckReservedLock M,
      xFileControl = apndFileControl M, xSectorSize = apndSectorSize M, xDeviceCharacteristics = apndDeviceCharacteristics M,
      xShmMap = apndShmMap M, xShmLock = apndShmLock M, xShmBarrier = apndShmBarrier M, xShmUnmap = apndShmUnmap M,
      xFetch = apndFetch M, xUnfetch = apndUnfetch M\<rparr>"

section \<open>Recognising files\<close>

text \<open>The rest of the offset, \<open>msbs\<close> bits to the left at most.\<close>

fun read_loop :: "byte list \<Rightarrow> nat \<Rightarrow> int \<Rightarrow> int" where
  "read_loop [] msbs v = v"
| "read_loop (b # bs) msbs v = read_loop bs (msbs - 8) (v OR push_bit (msbs - 8) (uint b))"

definition apndReadMark :: "'f sqlite3_io_methods \<Rightarrow> int \<Rightarrow> 'f \<Rightarrow> int \<times> 'f" where
  "apndReadMark M sz f =
     (if int APND_MARK_SIZE \<noteq> sz AND 0x1ff then (- 1, f)
      else
        let (rc, a, f) = xRead M f (int APND_MARK_SIZE) (sz - int APND_MARK_SIZE);
            n = read_loop (take 7 (drop 18 a)) 56 (push_bit 56 (uint (a ! APND_MARK_PREFIX_SZ) AND 0x7f))
        in (if rc \<noteq> SQLITE_OK then - 1
            else if take APND_MARK_PREFIX_SZ a \<noteq> APND_MARK_PREFIX then - 1
            else if n > sz - int APND_MARK_SIZE - 512 then - 1
            else if n AND 0x1ff \<noteq> 0 then - 1
            else n, f))"

definition apvfsSqliteHdr :: "byte list" where
  "apvfsSqliteHdr = ascii (''SQLite format 3'' @ [NUL])"

definition apndIsAppendvfsDatabase :: "'f sqlite3_io_methods \<Rightarrow> int \<Rightarrow> 'f \<Rightarrow> bool \<times> 'f" where
  "apndIsAppendvfsDatabase M sz f =
     (let (iMark, f) = apndReadMark M sz f in
      if iMark \<ge> 0 then
        let (rc, zHdr, f) = xRead M f 16 iMark
        in (rc = SQLITE_OK \<and> zHdr = apvfsSqliteHdr \<and> sz AND 0x1ff = int APND_MARK_SIZE \<and> sz \<ge> 512 + int APND_MARK_SIZE, f)
      else (False, f))"

definition apndIsOrdinaryDatabaseFile :: "'f sqlite3_io_methods \<Rightarrow> int \<Rightarrow> 'f \<Rightarrow> bool \<times> 'f" where
  "apndIsOrdinaryDatabaseFile M sz f =
     (let (appended, f) = apndIsAppendvfsDatabase M sz f in
      if appended \<or> sz AND 0x1ff \<noteq> 0 then (False, f)
      else let (rc, zHdr, f) = xRead M f 16 0 in (rc = SQLITE_OK \<and> zHdr = apvfsSqliteHdr, f))"

section \<open>The VFS\<close>

record ('w, 'f) sqlite3_vfs =
  iVersion :: int
  szOsFile :: int
  methods :: "'f sqlite3_io_methods"
    \<comment> \<open>pMethods of the files it opens\<close>
  xOpen :: "string \<Rightarrow> int \<Rightarrow> 'w \<Rightarrow> int \<times> 'f \<times> int \<times> 'w"
    \<comment> \<open>the result code, the file, the output flags\<close>
  xDelete :: "string \<Rightarrow> int \<Rightarrow> 'w \<Rightarrow> int \<times> 'w"
  xAccess :: "string \<Rightarrow> int \<Rightarrow> 'w \<Rightarrow> int \<times> int \<times> 'w"
  xFullPathname :: "string \<Rightarrow> int \<Rightarrow> 'w \<Rightarrow> int \<times> string \<times> 'w"
  xDlOpen :: "string \<Rightarrow> 'w \<Rightarrow> nat \<times> 'w"
  xDlError :: "int \<Rightarrow> 'w \<Rightarrow> string \<times> 'w"
  xDlSym :: "nat \<Rightarrow> string \<Rightarrow> 'w \<Rightarrow> nat \<times> 'w"
  xDlClose :: "nat \<Rightarrow> 'w \<Rightarrow> 'w"
  xRandomness :: "int \<Rightarrow> 'w \<Rightarrow> int \<times> byte list \<times> 'w"
  xSleep :: "int \<Rightarrow> 'w \<Rightarrow> int \<times> 'w"
  xCurrentTime :: "'w \<Rightarrow> int \<times> 64 word \<times> 'w"
  xGetLastError :: "int \<Rightarrow> 'w \<Rightarrow> int \<times> string \<times> 'w"
  xCurrentTimeInt64 :: "'w \<Rightarrow> int \<times> int \<times> 'w"
  xSetSystemCall :: "string \<Rightarrow> nat \<Rightarrow> 'w \<Rightarrow> int \<times> 'w"
  xGetSystemCall :: "string \<Rightarrow> 'w \<Rightarrow> nat \<times> 'w"
  xNextSystemCall :: "string \<Rightarrow> 'w \<Rightarrow> string option \<times> 'w"

text \<open>
  What the \<^verbatim>\<open>sqlite3_file\<close> that was to be opened is afterwards: one without methods, one with the methods of the VFS below,
  or one with \<^verbatim>\<open>apnd_io_methods\<close>.
\<close>

datatype 'f apnd_handle = NoMethods 'f | BaseFile 'f | Appended "'f apnd_file"

definition apndOpen :: "('w, 'f) sqlite3_vfs \<Rightarrow> string \<Rightarrow> int \<Rightarrow> 'w \<Rightarrow> int \<times> 'f apnd_handle \<times> int \<times> 'w" where
  "apndOpen pBaseVfs zName flags w =
     (let M = methods pBaseVfs;
          (rc, f, pOutFlags, w) = xOpen pBaseVfs zName flags w
      in if flags AND SQLITE_OPEN_MAIN_DB = 0 then (rc, BaseFile f, pOutFlags, w)
         else if rc \<noteq> SQLITE_OK then (rc, NoMethods f, pOutFlags, w)
         else
           let (rc, sz, f) = xFileSize M f in
           if rc \<noteq> SQLITE_OK then (rc, NoMethods (snd (xClose M f)), pOutFlags, w)
           else
             let (ordinary, f) = apndIsOrdinaryDatabaseFile M sz f in
             if ordinary then (SQLITE_OK, BaseFile f, pOutFlags, w)
             else
               let paf = \<lparr>iPgOne = 0, iMark = - 1\<rparr>;
                   (n, (paf, f)) = apndReadMark (apnd_io_methods M) sz (paf, f);
                   paf = paf\<lparr>iPgOne := n\<rparr>
               in if n \<ge> 0 then (SQLITE_OK, Appended (paf\<lparr>iMark := sz - int APND_MARK_SIZE\<rparr>, f), pOutFlags, w)
                  else if flags AND SQLITE_OPEN_CREATE = 0
                  then (SQLITE_CANTOPEN, NoMethods (snd (xClose M f)), pOutFlags, w)
                  else (SQLITE_OK, Appended (paf\<lparr>iPgOne := APND_START_ROUNDUP sz\<rparr>, f), pOutFlags, w))"

text \<open>The other methods go to the VFS below.\<close>

definition apndDelete :: "('w, 'f) sqlite3_vfs \<Rightarrow> string \<Rightarrow> int \<Rightarrow> 'w \<Rightarrow> int \<times> 'w" where
  "apndDelete pVfs zPath dirSync w = xDelete pVfs zPath dirSync w"

definition apndAccess :: "('w, 'f) sqlite3_vfs \<Rightarrow> string \<Rightarrow> int \<Rightarrow> 'w \<Rightarrow> int \<times> int \<times> 'w" where
  "apndAccess pVfs zPath flags w = xAccess pVfs zPath flags w"

definition apndFullPathname :: "('w, 'f) sqlite3_vfs \<Rightarrow> string \<Rightarrow> int \<Rightarrow> 'w \<Rightarrow> int \<times> string \<times> 'w" where
  "apndFullPathname pVfs zPath nOut w = xFullPathname pVfs zPath nOut w"

definition apndDlOpen :: "('w, 'f) sqlite3_vfs \<Rightarrow> string \<Rightarrow> 'w \<Rightarrow> nat \<times> 'w" where
  "apndDlOpen pVfs zPath w = xDlOpen pVfs zPath w"

definition apndDlError :: "('w, 'f) sqlite3_vfs \<Rightarrow> int \<Rightarrow> 'w \<Rightarrow> string \<times> 'w" where
  "apndDlError pVfs nByte w = xDlError pVfs nByte w"

definition apndDlSym :: "('w, 'f) sqlite3_vfs \<Rightarrow> nat \<Rightarrow> string \<Rightarrow> 'w \<Rightarrow> nat \<times> 'w" where
  "apndDlSym pVfs p zSym w = xDlSym pVfs p zSym w"

definition apndDlClose :: "('w, 'f) sqlite3_vfs \<Rightarrow> nat \<Rightarrow> 'w \<Rightarrow> 'w" where
  "apndDlClose pVfs pHandle w = xDlClose pVfs pHandle w"

definition apndRandomness :: "('w, 'f) sqlite3_vfs \<Rightarrow> int \<Rightarrow> 'w \<Rightarrow> int \<times> byte list \<times> 'w" where
  "apndRandomness pVfs nByte w = xRandomness pVfs nByte w"

definition apndSleep :: "('w, 'f) sqlite3_vfs \<Rightarrow> int \<Rightarrow> 'w \<Rightarrow> int \<times> 'w" where
  "apndSleep pVfs nMicro w = xSleep pVfs nMicro w"

definition apndCurrentTime :: "('w, 'f) sqlite3_vfs \<Rightarrow> 'w \<Rightarrow> int \<times> 64 word \<times> 'w" where
  "apndCurrentTime pVfs w = xCurrentTime pVfs w"

definition apndGetLastError :: "('w, 'f) sqlite3_vfs \<Rightarrow> int \<Rightarrow> 'w \<Rightarrow> int \<times> string \<times> 'w" where
  "apndGetLastError pVfs a w = xGetLastError pVfs a w"

definition apndCurrentTimeInt64 :: "('w, 'f) sqlite3_vfs \<Rightarrow> 'w \<Rightarrow> int \<times> int \<times> 'w" where
  "apndCurrentTimeInt64 pVfs w = xCurrentTimeInt64 pVfs w"

definition apndSetSystemCall :: "('w, 'f) sqlite3_vfs \<Rightarrow> string \<Rightarrow> nat \<Rightarrow> 'w \<Rightarrow> int \<times> 'w" where
  "apndSetSystemCall pVfs zName pCall w = xSetSystemCall pVfs zName pCall w"

definition apndGetSystemCall :: "('w, 'f) sqlite3_vfs \<Rightarrow> string \<Rightarrow> 'w \<Rightarrow> nat \<times> 'w" where
  "apndGetSystemCall pVfs zName w = xGetSystemCall pVfs zName w"

definition apndNextSystemCall :: "('w, 'f) sqlite3_vfs \<Rightarrow> string \<Rightarrow> 'w \<Rightarrow> string option \<times> 'w" where
  "apndNextSystemCall pVfs zName w = xNextSystemCall pVfs zName w"

text \<open>
  Registration: the default VFS, if there is one, and what \<^verbatim>\<open>sqlite3_vfs_register\<close> returns for the new one.
  An \<^verbatim>\<open>ApndFile\<close> has 24 bytes.
\<close>

record vfs_entry =
  ve_name :: string
  ve_iVersion :: int
  ve_szOsFile :: int

definition sqlite3_appendvfs_init :: "('w, 'f) sqlite3_vfs option \<Rightarrow> (vfs_entry \<Rightarrow> int) \<Rightarrow> int \<times> vfs_entry option" where
  "sqlite3_appendvfs_init pOrig vfs_register =
     (case pOrig of
        None \<Rightarrow> (SQLITE_ERROR, None)
      | Some pOrig \<Rightarrow>
          let e = \<lparr>ve_name = ''apndvfs'', ve_iVersion = iVersion pOrig, ve_szOsFile = szOsFile pOrig + 24\<rparr>;
              rc = vfs_register e
          in if rc = SQLITE_OK then (SQLITE_OK_LOAD_PERMANENTLY, Some e) else (rc, None))"

end
