(* ===== verification/Append_File.thy ===== *)
theory Append_File
  imports Appendvfs
begin

text \<open>
  The append VFS keeps the contract of the files below it.  \<open>sqlite_file\<close> is what SQLite documents of the methods of a file that the
  append VFS relies on; the file it provides has the same contract, so that a database inside a file behaves as a
  file of its own.  The file around the database does not change, and opening it again finds the database.
\<close>

section \<open>The contract of a file\<close>

text \<open>
  The bytes of a file after a write: the new ones at their place, the old ones elsewhere.  Nothing is said of a gap between the old end
  and the place that is written.
\<close>

definition written :: "byte list \<Rightarrow> byte list \<Rightarrow> nat \<Rightarrow> byte list \<Rightarrow> bool" where
  "written c d ofs c' \<longleftrightarrow> length c' = max (length c) (ofs + length d) \<and> (\<forall>i < length d. c' ! (ofs + i) = d ! i) \<and>
     (\<forall>i < length c. i < ofs \<or> ofs + length d \<le> i \<longrightarrow> c' ! i = c ! i)"

locale sqlite_file =
  fixes M :: "'f sqlite3_io_methods" and content :: "'f \<Rightarrow> byte list" and good :: "'f \<Rightarrow> bool"
  assumes read_law: "good f \<Longrightarrow> 0 < a \<Longrightarrow> 0 \<le> ofs \<Longrightarrow> ofs + a \<le> int (length (content f)) \<Longrightarrow> xRead M f a ofs = (rc, buf, f') \<Longrightarrow>
      good f' \<and> content f' = content f \<and> (rc = SQLITE_OK \<longrightarrow> buf = take (nat a) (drop (nat ofs) (content f)))"
    and write_law: "good f \<Longrightarrow> d \<noteq> [] \<Longrightarrow> 0 \<le> ofs \<Longrightarrow> xWrite M f d ofs = (SQLITE_OK, f') \<Longrightarrow>
      good f' \<and> written (content f) d (nat ofs) (content f')"
    and truncate_law: "good f \<Longrightarrow> 0 \<le> n \<Longrightarrow> n \<le> int (length (content f)) \<Longrightarrow> xTruncate M f n = (SQLITE_OK, f') \<Longrightarrow>
      good f' \<and> content f' = take (nat n) (content f)"
    and size_law: "good f \<Longrightarrow> xFileSize M f = (rc, n, f') \<Longrightarrow>
      good f' \<and> content f' = content f \<and> (rc = SQLITE_OK \<longrightarrow> n = int (length (content f)))"

section \<open>The mark\<close>

definition mark_bytes :: "int \<Rightarrow> byte list" where
  "mark_bytes p = mark_loop 8 p (APND_MARK_PREFIX @ replicate 8 0)"

definition be64 :: "int \<Rightarrow> byte list" where
  "be64 p = map (\<lambda>k. word_of_int (drop_bit (8 * k) p)) [7, 6, 5, 4, 3, 2, 1, 0]"

lemma APND_MARK_PREFIX_bytes: "APND_MARK_PREFIX = [0x53, 0x74, 0x61, 0x72, 0x74, 0x2D, 0x4F, 0x66, 0x2D, 0x53, 0x51, 0x4C, 0x69, 0x74, 0x65, 0x33, 0x2D]"
  by (simp add: APND_MARK_PREFIX_def ascii_def ord_char_def)

lemma low_byte_and: "word_of_int (v AND 0xff) = (word_of_int v :: byte)"
proof -
  have "(0xff :: int) = mask 8" by (simp add: mask_eq_exp_minus_1)
  then show ?thesis by (simp add: word_of_int_eq_iff take_bit_eq_mask)
qed

lemma mark_bytes_eq: "mark_bytes p = APND_MARK_PREFIX @ be64 p"
  by (simp add: mark_bytes_def be64_def APND_MARK_PREFIX_bytes eval_nat_numeral low_byte_and)

lemma length_mark_bytes [simp]: "length (mark_bytes p) = 25"
  by (simp add: mark_bytes_eq be64_def APND_MARK_PREFIX_bytes)

section \<open>The database inside a file\<close>

definition apnd_bytes :: "('f \<Rightarrow> byte list) \<Rightarrow> 'f apnd_file \<Rightarrow> byte list" where
  "apnd_bytes content = (\<lambda>(paf, f).
     if iMark paf < 0 then [] else take (nat (iMark paf - iPgOne paf)) (drop (nat (iPgOne paf)) (content f)))"

text \<open>The invariant: the mark is where \<^verbatim>\<open>iMark\<close> says, it names \<^verbatim>\<open>iPgOne\<close>, and the file ends with it.\<close>

definition apnd_good :: "('f \<Rightarrow> byte list) \<Rightarrow> ('f \<Rightarrow> bool) \<Rightarrow> 'f apnd_file \<Rightarrow> bool" where
  "apnd_good content good = (\<lambda>(paf, f). good f \<and> 0 \<le> iPgOne paf \<and>
     (if iMark paf < 0 then int (length (content f)) \<le> iPgOne paf
      else iPgOne paf \<le> iMark paf \<and> int (length (content f)) = iMark paf + 25 \<and> drop (nat (iMark paf)) (content f) = mark_bytes (iPgOne paf)))"

lemma written_drop: "written c d ofs c' \<Longrightarrow> length c \<le> ofs + length d \<Longrightarrow> drop ofs c' = d"
  by (rule nth_equalityI) (auto simp: written_def max_def)

lemma written_after: "written c d ofs c' \<Longrightarrow> ofs + length d \<le> length c \<Longrightarrow> ofs + length d \<le> k \<Longrightarrow> drop k c' = drop k c"
  by (rule nth_equalityI) (auto simp: written_def max_def)

lemma written_before: "written c d ofs c' \<Longrightarrow> k \<le> ofs \<Longrightarrow> k \<le> length c \<Longrightarrow> take k c' = take k c"
  by (rule nth_equalityI) (auto simp: written_def max_def)

lemma written_inside:
  assumes "written c d (p + ofs) c'" "p + ofs + length d \<le> p + n" "p + n \<le> length c'" "m \<le> n" "p + m \<le> length c" "n = max m (ofs + length d)"
  shows "written (take m (drop p c)) d ofs (take n (drop p c'))"
  using assms unfolding written_def by (auto simp: add.assoc)

lemma apnd_methods:
  "xClose (apnd_io_methods M) = apndClose M" "xRead (apnd_io_methods M) = apndRead M" "xWrite (apnd_io_methods M) = apndWrite M"
  "xTruncate (apnd_io_methods M) = apndTruncate M" "xFileSize (apnd_io_methods M) = apndFileSize"
  by (simp_all add: apnd_io_methods_def)

context sqlite_file
begin

lemma write_mark_law:
  assumes g: "good f" and p: "0 \<le> iPgOne paf" "0 \<le> e" and r: "apndWriteMark M (paf, f) e = (SQLITE_OK, q, f')"
  shows "good f' \<and> q = paf\<lparr>iMark := iPgOne paf + e\<rparr> \<and> written (content f) (mark_bytes (iPgOne paf)) (nat (iPgOne paf + e)) (content f')"
proof -
  have w: "xWrite M f (mark_bytes (iPgOne paf)) (e + iPgOne paf) = (SQLITE_OK, f')" "q = paf\<lparr>iMark := e + iPgOne paf\<rparr>"
    using r by (auto simp: apndWriteMark_def mark_bytes_def Let_def split: prod.splits if_splits)
  have "mark_bytes (iPgOne paf) \<noteq> []" using length_mark_bytes [of "iPgOne paf"] by (metis list.size(3) zero_neq_numeral)
  from write_law [OF g this _ w(1)] p w(2) show ?thesis by (simp add: add.commute)
qed

text \<open>Whatever happens when the mark is written, the offset of the database stays, and so does the mark unless it succeeds.\<close>

lemma write_mark_error: "apndWriteMark M (paf, f) e = (rc, q, f') \<Longrightarrow> iPgOne q = iPgOne paf \<and> (rc \<noteq> SQLITE_OK \<longrightarrow> q = paf)"
  by (auto simp: apndWriteMark_def Let_def split: prod.splits if_splits)

lemma apnd_read_law:
  assumes g: "apnd_good content good x" and a: "0 < a" "0 \<le> ofs" "ofs + a \<le> int (length (apnd_bytes content x))" and r: "apndRead M x a ofs = (rc, buf, y)"
  shows "apnd_good content good y \<and> apnd_bytes content y = apnd_bytes content x \<and> (rc = SQLITE_OK \<longrightarrow> buf = take (nat a) (drop (nat ofs) (apnd_bytes content x)))"
proof -
  obtain paf f where x: "x = (paf, f)" by (cases x)
  obtain f' where y: "y = (paf, f')" "xRead M f a (iPgOne paf + ofs) = (rc, buf, f')" using r x by (auto simp: apndRead_def split: prod.splits)
  have G: "good f" "0 \<le> iPgOne paf" using g x by (auto simp: apnd_good_def)
  have m: "0 \<le> iMark paf" using a x by (auto simp: apnd_bytes_def split: if_splits)
  then have l: "iPgOne paf + ofs + a \<le> iMark paf" "iPgOne paf + ofs + a \<le> int (length (content f))"
    using g a x by (auto simp: apnd_good_def apnd_bytes_def)
  note R = read_law [OF G(1) a(1) _ l(2) y(2)]
  have "take (nat a) (drop (nat ofs) (take (nat (iMark paf - iPgOne paf)) (drop (nat (iPgOne paf)) (content f)))) = take (nat a) (drop (nat (iPgOne paf + ofs)) (content f))"
    using l(1) a G(2) by (simp add: drop_take nat_add_distrib add.commute min_def)
  then show ?thesis using R G(2) a m g by (simp add: x y apnd_good_def apnd_bytes_def)
qed

lemma apnd_size_law:
  assumes "apnd_good content good x" "apndFileSize x = (rc, n, y)"
  shows "apnd_good content good y \<and> apnd_bytes content y = apnd_bytes content x \<and> (rc = SQLITE_OK \<longrightarrow> n = int (length (apnd_bytes content x)))"
  using assms by (cases x) (auto simp: apndFileSize_def apnd_bytes_def apnd_good_def)

lemma apnd_truncate_law:
  assumes g: "apnd_good content good x" and n: "0 \<le> n" "n \<le> int (length (apnd_bytes content x))" and r: "apndTruncate M x n = (SQLITE_OK, y)"
  shows "apnd_good content good y \<and> apnd_bytes content y = take (nat n) (apnd_bytes content x)"
proof -
  obtain paf f where x: "x = (paf, f)" by (cases x)
  obtain q f1 f2 where m: "apndWriteMark M (paf, f) n = (SQLITE_OK, q, f1)" "xTruncate M f1 (iMark q + 25) = (SQLITE_OK, f2)" "y = (q, f2)"
    using r x by (auto simp: apndTruncate_def Let_def split: prod.splits if_splits)
  have p: "good f" "0 \<le> iPgOne paf" using g x by (auto simp: apnd_good_def)
  let ?k = "nat (iPgOne paf + n)"
  have W: "good f1" "q = paf\<lparr>iMark := iPgOne paf + n\<rparr>" "written (content f) (mark_bytes (iPgOne paf)) ?k (content f1)"
    using write_mark_law [OF p n(1) m(1)] by auto
  have l: "?k + 25 \<le> length (content f1)" using W(3) by (simp add: written_def)
  then have T: "good f2" "content f2 = take (?k + 25) (content f1)"
    using truncate_law [OF W(1) _ _ m(2)] W(2) p(2) n(1) by (auto simp: nat_add_distrib)
  have mark: "drop ?k (content f2) = mark_bytes (iPgOne paf)"
    using l W(3) unfolding T(2) by (intro nth_equalityI) (auto simp: written_def)
  have "take (nat n) (drop (nat (iPgOne paf)) (content f2)) = take (nat n) (apnd_bytes content x)"
  proof (cases "n = 0")
    case False
    then have i: "0 \<le> iMark paf" "iPgOne paf + n \<le> iMark paf" using n g x by (auto simp: apnd_bytes_def apnd_good_def split: if_splits)
    then have "?k \<le> length (content f)" using g x by (auto simp: apnd_good_def)
    then have "take ?k (content f1) = take ?k (content f)" by (intro written_before [OF W(3)]) simp_all
    then have e: "take ?k (content f2) = take ?k (content f)" unfolding T(2) by simp
    have "take (nat n) (drop (nat (iPgOne paf)) c) = drop (nat (iPgOne paf)) (take ?k c)" for c :: "byte list"
      using n(1) p(2) by (simp add: drop_take nat_add_distrib)
    then have "take (nat n) (drop (nat (iPgOne paf)) (content f2)) = take (nat n) (drop (nat (iPgOne paf)) (content f))" using e by simp
    then show ?thesis using i by (simp add: x apnd_bytes_def min_def)
  qed simp
  then show ?thesis using T l mark W(2) p(2) n(1) by (simp add: m(3) apnd_good_def apnd_bytes_def)
qed

lemma apnd_write_law:
  assumes g: "apnd_good content good x" and d: "d \<noteq> []" "0 \<le> ofs" and r: "apndWrite M x d ofs = (SQLITE_OK, y)"
  shows "apnd_good content good y \<and> written (apnd_bytes content x) d (nat ofs) (apnd_bytes content y)"
proof -
  obtain paf f where x: "x = (paf, f)" by (cases x)
  let ?e = "ofs + int (length d)" and ?p = "iPgOne paf"
  have p: "good f" "0 \<le> ?p" using g x by (auto simp: apnd_good_def)
  have pn: "nat (?p + ofs) = nat ?p + nat ofs" using p(2) d(2) by (simp add: nat_add_distrib)
  show ?thesis
  proof (cases "iMark paf < 0 \<or> ?p + ?e > iMark paf")
    case True
    obtain q f1 f2 where w: "apndWriteMark M (paf, f) ?e = (SQLITE_OK, q, f1)" "xWrite M f1 d (iPgOne q + ofs) = (SQLITE_OK, f2)" "y = (q, f2)"
      using r x True by (auto simp: apndWrite_def Let_def split: prod.splits if_splits)
    have W: "good f1" "q = paf\<lparr>iMark := ?p + ?e\<rparr>" "written (content f) (mark_bytes ?p) (nat (?p + ?e)) (content f1)"
      using write_mark_law [OF p _ w(1)] d(2) by auto
    have V: "good f2" "written (content f1) d (nat (?p + ofs)) (content f2)"
      using write_law [OF W(1) d(1) _ w(2)] W(2) p(2) d(2) by auto
    have e: "nat (?p + ?e) = nat ?p + nat ofs + length d" using p(2) d(2) by (simp add: nat_add_distrib)
    have "length (content f) \<le> nat (?p + ?e) + 25" using g x True p(2) d(2) by (auto simp: apnd_good_def split: if_splits)
    then have l1: "length (content f1) = nat (?p + ?e) + 25" "drop (nat (?p + ?e)) (content f1) = mark_bytes ?p"
      using W(3) written_drop [OF W(3)] by (auto simp: written_def)
    then have l2: "length (content f2) = nat (?p + ?e) + 25" "drop (nat (?p + ?e)) (content f2) = mark_bytes ?p"
      using V(2) written_after [OF V(2)] unfolding pn e by (auto simp: written_def)
    have "apnd_good content good y" using l2 V(1) W(2) p(2) d(2) by (simp add: w(3) apnd_good_def)
    moreover have "written (apnd_bytes content x) d (nat ofs) (apnd_bytes content y)"
    proof -
      define m where "m = (if iMark paf < 0 then 0 else nat (iMark paf - ?p))"
      let ?n = "nat ofs + length d"
      have k: "nat ?p + m \<le> nat (?p + ?e)" "iMark paf < 0 \<or> nat ?p + m \<le> length (content f)" using True g x p(2) d(2) by (auto simp: apnd_good_def m_def)
      have c: "apnd_bytes content x = take m (drop (nat ?p) (content f1))"
      proof (cases "iMark paf < 0")
        case False
        then have "take (nat ?p + m) (content f1) = take (nat ?p + m) (content f)" using k by (intro written_before [OF W(3)]) auto
        then have "take m (drop (nat ?p) (content f1)) = take m (drop (nat ?p) (content f))" unfolding take_drop by (simp add: add.commute)
        then show ?thesis using False by (simp add: x apnd_bytes_def m_def)
      qed (simp add: x apnd_bytes_def m_def)
      have n: "apnd_bytes content y = take ?n (drop (nat ?p) (content f2))" using W(2) p(2) d(2) by (simp add: w(3) apnd_bytes_def nat_add_distrib)
      have "m \<le> ?n" using True d(2) p(2) by (auto simp: m_def)
      then have "written (take m (drop (nat ?p) (content f1))) d (nat ofs) (take ?n (drop (nat ?p) (content f2)))"
        using l1(1) l2(1) unfolding e by (intro written_inside [OF V(2) [unfolded pn]]) auto
      then show ?thesis unfolding c n .
    qed
    ultimately show ?thesis ..
  next
    case False
    obtain f2 where m: "xWrite M f d (?p + ofs) = (SQLITE_OK, f2)" "y = (paf, f2)"
      using r x False by (auto simp: apndWrite_def Let_def split: prod.splits if_splits)
    have V: "good f2" "written (content f) d (nat (?p + ofs)) (content f2)" using write_law [OF p(1) d(1) _ m(1)] p(2) d(2) by auto
    have G: "?p \<le> iMark paf" "int (length (content f)) = iMark paf + 25" "drop (nat (iMark paf)) (content f) = mark_bytes ?p"
      using g x False by (auto simp: apnd_good_def)
    have b: "nat (?p + ofs) + length d \<le> nat (iMark paf)" "nat (iMark paf) \<le> length (content f)" using False p(2) d(2) G by auto
    then have "length (content f2) = length (content f)" "drop (nat (iMark paf)) (content f2) = drop (nat (iMark paf)) (content f)"
      using V(2) written_after [OF V(2)] by (auto simp: written_def)
    then have "apnd_good content good y" using V(1) False p(2) G by (simp add: m(2) apnd_good_def)
    moreover have "written (apnd_bytes content x) d (nat ofs) (apnd_bytes content y)"
    proof -
      let ?n = "nat (iMark paf - ?p)"
      have "written (take ?n (drop (nat ?p) (content f))) d (nat ofs) (take ?n (drop (nat ?p) (content f2)))"
        using b G(1) p(2) False d(2) \<open>length (content f2) = length (content f)\<close> by (intro written_inside [OF V(2) [unfolded pn]]) auto
      then show ?thesis using False by (simp add: x m(2) apnd_bytes_def)
    qed
    ultimately show ?thesis ..
  qed
qed

lemma apnd_sqlite_file: "sqlite_file (apnd_io_methods M) (apnd_bytes content) (apnd_good content good)"
  by (unfold_locales, unfold apnd_methods) (fact apnd_read_law apnd_write_law apnd_truncate_law apnd_size_law)+

end

section \<open>Sequences of operations\<close>

datatype file_op = WriteOp "byte list" int | TruncateOp int

text \<open>The file after a sequence of operations that all succeed.\<close>

fun file_run :: "'f sqlite3_io_methods \<Rightarrow> 'f \<Rightarrow> file_op list \<Rightarrow> 'f option" where
  "file_run M f [] = Some f"
| "file_run M f (WriteOp d ofs # xs) = (let (rc, f) = xWrite M f d ofs in if rc = SQLITE_OK then file_run M f xs else None)"
| "file_run M f (TruncateOp n # xs) = (let (rc, f) = xTruncate M f n in if rc = SQLITE_OK then file_run M f xs else None)"

text \<open>What the operations mean for the bytes of a file, and when they apply: a write begins inside the file or at its end.\<close>

fun bytes_run :: "byte list \<Rightarrow> file_op list \<Rightarrow> byte list" where
  "bytes_run c [] = c"
| "bytes_run c (WriteOp d ofs # xs) = bytes_run (take (nat ofs) c @ d @ drop (nat ofs + length d) c) xs"
| "bytes_run c (TruncateOp n # xs) = bytes_run (take (nat n) c) xs"

fun ops_fit :: "byte list \<Rightarrow> file_op list \<Rightarrow> bool" where
  "ops_fit c [] \<longleftrightarrow> True"
| "ops_fit c (WriteOp d ofs # xs) \<longleftrightarrow> d \<noteq> [] \<and> 0 \<le> ofs \<and> ofs \<le> int (length c) \<and> ops_fit (take (nat ofs) c @ d @ drop (nat ofs + length d) c) xs"
| "ops_fit c (TruncateOp n # xs) \<longleftrightarrow> 0 \<le> n \<and> n \<le> int (length c) \<and> ops_fit (take (nat n) c) xs"

lemma written_overwrite:
  assumes "written c d k c'" "k \<le> length c"
  shows "c' = take k c @ d @ drop (k + length d) c"
proof (rule nth_equalityI)
  show "length c' = length (take k c @ d @ drop (k + length d) c)" using assms by (auto simp: written_def max_def)
  fix i assume i: "i < length c'"
  consider "i < k" | j where "i = k + j" "j < length d" | "k + length d \<le> i" by (metis add_diff_inverse_nat add_less_cancel_left not_less)
  then show "c' ! i = (take k c @ d @ drop (k + length d) c) ! i"
    by cases (use assms i in \<open>auto simp: written_def nth_append max_def split: if_splits\<close>)
qed

context sqlite_file
begin

lemma run_law:
  "file_run M f xs = Some f' \<Longrightarrow> good f \<Longrightarrow> ops_fit (content f) xs \<Longrightarrow> good f' \<and> content f' = bytes_run (content f) xs"
proof (induction xs arbitrary: f)
  case (Cons x xs)
  show ?case
  proof (cases x)
    case (WriteOp d ofs)
    obtain g where g: "xWrite M f d ofs = (SQLITE_OK, g)" "file_run M g xs = Some f'" using Cons.prems(1) WriteOp by (auto split: prod.splits if_splits)
    have W: "good g" "written (content f) d (nat ofs) (content g)" using write_law [OF Cons.prems(2) _ _ g(1)] Cons.prems(3) WriteOp by auto
    then have "content g = take (nat ofs) (content f) @ d @ drop (nat ofs + length d) (content f)"
      using Cons.prems(3) WriteOp by (intro written_overwrite) auto
    then show ?thesis using Cons.IH [OF g(2) W(1)] Cons.prems(3) WriteOp by simp
  next
    case (TruncateOp n)
    obtain g where g: "xTruncate M f n = (SQLITE_OK, g)" "file_run M g xs = Some f'" using Cons.prems(1) TruncateOp by (auto split: prod.splits if_splits)
    have "good g" "content g = take (nat n) (content f)" using truncate_law [OF Cons.prems(2) _ _ g(1)] Cons.prems(3) TruncateOp by auto
    then show ?thesis using Cons.IH [OF g(2)] Cons.prems(3) TruncateOp by simp
  qed
qed simp

text \<open>The bytes before the database.\<close>

lemma write_mark_host:
  assumes "good f" "0 \<le> iPgOne paf" "0 \<le> e" "apndWriteMark M (paf, f) e = (SQLITE_OK, q, f')" "k \<le> length (content f)" "int k \<le> iPgOne paf"
  shows "k \<le> length (content f') \<and> take k (content f') = take k (content f)"
proof -
  have W: "written (content f) (mark_bytes (iPgOne paf)) (nat (iPgOne paf + e)) (content f')" using write_mark_law [OF assms(1-4)] by simp
  then show ?thesis using written_before [OF W, of k] assms(3,5,6) by (auto simp: written_def)
qed

lemma apnd_write_host:
  assumes g: "apnd_good content good (paf, f)" and d: "d \<noteq> []" "0 \<le> ofs" and r: "apndWrite M (paf, f) d ofs = (SQLITE_OK, q, f')"
    and k: "k \<le> length (content f)" "int k \<le> iPgOne paf"
  shows "iPgOne q = iPgOne paf \<and> k \<le> length (content f') \<and> take k (content f') = take k (content f)"
proof -
  let ?e = "ofs + int (length d)"
  have p: "good f" "0 \<le> iPgOne paf" using g by (auto simp: apnd_good_def)
  obtain f1 where f1: "good f1" "iPgOne q = iPgOne paf" "xWrite M f1 d (iPgOne paf + ofs) = (SQLITE_OK, f')" "k \<le> length (content f1)" "take k (content f1) = take k (content f)"
  proof (cases "iMark paf < 0 \<or> iPgOne paf + ?e > iMark paf")
    case True
    then obtain f1 where m: "apndWriteMark M (paf, f) ?e = (SQLITE_OK, q, f1)" "xWrite M f1 d (iPgOne q + ofs) = (SQLITE_OK, f')"
      using r by (auto simp: apndWrite_def Let_def split: prod.splits if_splits)
    have "good f1" "iPgOne q = iPgOne paf" using write_mark_law [OF p _ m(1)] d(2) by auto
    then show ?thesis using that [of f1] m write_mark_host [OF p _ m(1) k] d(2) by simp
  next
    case False
    then show ?thesis using that [of f] r p k by (auto simp: apndWrite_def Let_def split: prod.splits if_splits)
  qed
  have W: "written (content f1) d (nat (iPgOne paf + ofs)) (content f')" using write_law [OF f1(1) d(1) _ f1(3)] p(2) d(2) by simp
  then show ?thesis using written_before [OF W, of k] f1 k d(2) by (auto simp: written_def)
qed

lemma apnd_truncate_host:
  assumes g: "apnd_good content good (paf, f)" and n: "0 \<le> n" and r: "apndTruncate M (paf, f) n = (SQLITE_OK, q, f')"
    and k: "k \<le> length (content f)" "int k \<le> iPgOne paf"
  shows "iPgOne q = iPgOne paf \<and> k \<le> length (content f') \<and> take k (content f') = take k (content f)"
proof -
  have p: "good f" "0 \<le> iPgOne paf" using g by (auto simp: apnd_good_def)
  obtain f1 where m: "apndWriteMark M (paf, f) n = (SQLITE_OK, q, f1)" "xTruncate M f1 (iMark q + 25) = (SQLITE_OK, f')"
    using r by (auto simp: apndTruncate_def Let_def split: prod.splits if_splits)
  have W: "good f1" "q = paf\<lparr>iMark := iPgOne paf + n\<rparr>" "written (content f) (mark_bytes (iPgOne paf)) (nat (iPgOne paf + n)) (content f1)"
    using write_mark_law [OF p n m(1)] by auto
  have l: "iMark q + 25 \<le> int (length (content f1))" using W(2,3) p(2) n by (auto simp: written_def)
  have "content f' = take (nat (iMark q + 25)) (content f1)" using truncate_law [OF W(1) _ l m(2)] W(2) p(2) n by simp
  then show ?thesis using write_mark_host [OF p n m(1) k] W(2) k(2) n l by (auto simp: min_def)
qed

lemma run_host:
  "file_run (apnd_io_methods M) x xs = Some y \<Longrightarrow> apnd_good content good x \<Longrightarrow> ops_fit (apnd_bytes content x) xs \<Longrightarrow>
   k \<le> length (content (snd x)) \<Longrightarrow> int k \<le> iPgOne (fst x) \<Longrightarrow>
   iPgOne (fst y) = iPgOne (fst x) \<and> k \<le> length (content (snd y)) \<and> take k (content (snd y)) = take k (content (snd x))"
proof (induction xs arbitrary: x)
  case (Cons a xs)
  obtain paf f where x: "x = (paf, f)" by (cases x)
  have "\<exists>z. file_run (apnd_io_methods M) z xs = Some y \<and> apnd_good content good z \<and> ops_fit (apnd_bytes content z) xs \<and>
    iPgOne (fst z) = iPgOne (fst x) \<and> k \<le> length (content (snd z)) \<and> take k (content (snd z)) = take k (content (snd x))"
  proof (cases a)
    case (WriteOp d ofs)
    obtain q g where g: "apndWrite M (paf, f) d ofs = (SQLITE_OK, q, g)" "file_run (apnd_io_methods M) (q, g) xs = Some y"
      using Cons.prems(1) WriteOp x by (auto simp: apnd_methods split: prod.splits if_splits)
    have fit: "d \<noteq> []" "0 \<le> ofs" "ofs \<le> int (length (apnd_bytes content x))" using Cons.prems(3) WriteOp by auto
    note L = apnd_write_law [OF Cons.prems(2) [unfolded x] fit(1,2) g(1)]
    have "apnd_bytes content (q, g) = take (nat ofs) (apnd_bytes content x) @ d @ drop (nat ofs + length d) (apnd_bytes content x)"
      using L fit(3) x by (intro written_overwrite) auto
    moreover have "iPgOne q = iPgOne paf \<and> k \<le> length (content g) \<and> take k (content g) = take k (content f)"
      using Cons.prems x by (intro apnd_write_host [OF _ fit(1,2) g(1)]) auto
    ultimately show ?thesis using g(2) L Cons.prems(3) WriteOp x by (intro exI [of _ "(q, g)"]) simp
  next
    case (TruncateOp n)
    obtain q g where g: "apndTruncate M (paf, f) n = (SQLITE_OK, q, g)" "file_run (apnd_io_methods M) (q, g) xs = Some y"
      using Cons.prems(1) TruncateOp x by (auto simp: apnd_methods split: prod.splits if_splits)
    have fit: "0 \<le> n" "n \<le> int (length (apnd_bytes content x))" using Cons.prems(3) TruncateOp by auto
    note L = apnd_truncate_law [OF Cons.prems(2) [unfolded x] fit [unfolded x] g(1)]
    have "iPgOne q = iPgOne paf \<and> k \<le> length (content g) \<and> take k (content g) = take k (content f)"
      using Cons.prems x by (intro apnd_truncate_host [OF _ fit(1) g(1)]) auto
    then show ?thesis using g(2) L Cons.prems(3) TruncateOp x by (intro exI [of _ "(q, g)"]) simp
  qed
  then obtain z where z: "file_run (apnd_io_methods M) z xs = Some y" "apnd_good content good z" "ops_fit (apnd_bytes content z) xs"
    "iPgOne (fst z) = iPgOne (fst x)" "k \<le> length (content (snd z))" "take k (content (snd z)) = take k (content (snd x))" by blast
  then show ?case using Cons.IH [OF z(1-3)] Cons.prems(5) by simp
qed simp

end

end
