(* ===== verification/Append_Open.thy ===== *)
theory Append_Open
  imports Append_File
begin

text \<open>
  Opening a file with the append VFS: how it recognises an appended database, an ordinary one and a file to append to, and that a
  database it has written is found again.  \<open>mem_methods\<close> are the methods of a file in memory, an instance of the
  contract on which the properties are evaluated.
\<close>

section \<open>Files whose operations work\<close>

locale working_file = sqlite_file M content good
  for M :: "'f sqlite3_io_methods" and content :: "'f \<Rightarrow> byte list" and good :: "'f \<Rightarrow> bool" +
  assumes read_ok: "good f \<Longrightarrow> 0 < a \<Longrightarrow> 0 \<le> ofs \<Longrightarrow> ofs + a \<le> int (length (content f)) \<Longrightarrow> fst (xRead M f a ofs) = SQLITE_OK"
    and read_short: "good f \<Longrightarrow> 0 < a \<Longrightarrow> 0 \<le> ofs \<Longrightarrow> int (length (content f)) < ofs + a \<Longrightarrow> xRead M f a ofs = (rc, buf, f') \<Longrightarrow>
      rc = SQLITE_IOERR_SHORT_READ \<and> good f' \<and> content f' = content f"
    and size_ok: "good f \<Longrightarrow> fst (xFileSize M f) = SQLITE_OK"

section \<open>The offset in a mark\<close>

definition be_value :: "byte list \<Rightarrow> int" where
  "be_value bs = foldl (\<lambda>v b. v * 256 + uint b) 0 bs"

lemma or_byte: "push_bit 8 w OR uint (b :: byte) = w * 256 + uint b"
proof -
  have "take_bit 8 (uint b) = uint b" by (simp add: take_bit_int_eq_self_iff uint_lt2p [of b, simplified])
  then have "push_bit 8 w OR uint b = take_bit 8 (uint b) OR push_bit 8 w" by (simp add: or.commute)
  also have "\<dots> = take_bit 8 (uint b) + push_bit 8 w" using concat_bit_eq [of 8 "uint b" w] by (simp add: concat_bit_def)
  finally show ?thesis using \<open>take_bit 8 (uint b) = uint b\<close> by (simp add: push_bit_eq_mult)
qed

lemma read_loop_value: "read_loop bs (8 * length bs) (push_bit (8 * length bs) w) = foldl (\<lambda>v b. v * 256 + uint b) w bs"
proof (induction bs arbitrary: w)
  case (Cons b bs)
  have "push_bit (8 * length (b # bs)) w OR push_bit (8 * length bs) (uint b) = push_bit (8 * length bs) (push_bit 8 w OR uint b)"
    by (simp add: add.commute)
  then show ?case using Cons.IH [of "w * 256 + uint b"] by (simp add: or_byte)
qed simp

lemma AND_low: "x AND 0x1ff = x mod 512" "x AND 0x7f = x mod 128" for x :: int
proof -
  have m: "(0x1ff :: int) = mask 9" "(0x7f :: int) = mask 7" by (simp_all add: mask_eq_exp_minus_1)
  show "x AND 0x1ff = x mod 512" "x AND 0x7f = x mod 128" unfolding m take_bit_eq_mask [symmetric] take_bit_eq_mod by simp_all
qed

lemma be64_nth: "uint (word_of_int (drop_bit (8 * k) p) :: byte) = p div 2 ^ (8 * k) mod 256"
  by (simp add: unsigned_of_int take_bit_eq_mod drop_bit_eq_div)

lemma be_value_be64:
  assumes "0 \<le> p" "p < 2 ^ 63"
  shows "be_value (be64 p) = p"
proof -
  define q where "q k = p div 2 ^ (8 * k)" for k :: nat
  have s: "q l * 256 + q k mod 256 = q k" if "l = Suc k" for k l
  proof -
    have "q l = q k div 256" by (simp add: that q_def zdiv_zmult2_eq [symmetric] power_add mult.commute)
    then show ?thesis by simp
  qed
  have q: "q 7 mod 256 = q 7" "q 0 = p"
    using assms unfolding q_def by (auto intro!: mod_pos_pos_trivial simp: div_less_iff_less_mult pos_imp_zdiv_nonneg_iff)
  have n: "q 7 * 256 + q 6 mod 256 = q 6" "q 6 * 256 + q 5 mod 256 = q 5" "q 5 * 256 + q 4 mod 256 = q 4" "q 4 * 256 + q 3 mod 256 = q 3"
    "q 3 * 256 + q 2 mod 256 = q 2" "q 2 * 256 + q 1 mod 256 = q 1" "q 1 * 256 + q 0 mod 256 = q 0"
    by (rule s; simp)+
  have "be_value (be64 p) = q 0" unfolding be_value_def be64_def list.map foldl_Cons foldl_Nil be64_nth q_def [symmetric]
    by (simp only: q(1) n mult_zero_left add_0_left)
  then show ?thesis using q(2) by simp
qed

section \<open>Recognising an appended database\<close>

text \<open>The offset in the mark at the end of a file, \<open>- 1\<close> if the file has no valid mark.\<close>

definition mark_of :: "byte list \<Rightarrow> int" where
  "mark_of c =
     (let n = foldl (\<lambda>v b. v * 256 + uint b) (uint (c ! (length c - 8)) mod 128) (drop (length c - 7) c)
      in if length c mod 512 = 25 \<and> take 17 (drop (length c - 25) c) = APND_MARK_PREFIX \<and> n \<le> int (length c) - 537 \<and> n mod 512 = 0
         then n else - 1)"

definition ordinary :: "byte list \<Rightarrow> bool" where
  "ordinary c \<longleftrightarrow> length c mod 512 = 0 \<and> take 16 c = apvfsSqliteHdr"

lemma int_mod_512: "int n mod 512 = int (n mod 512)"
  by (simp add: of_nat_mod)

lemma length_apvfsSqliteHdr: "length apvfsSqliteHdr = 16"
  by (simp add: apvfsSqliteHdr_def ascii_def)

lemma mark_of_nonneg: "mark_of c \<noteq> - 1 \<Longrightarrow> 0 \<le> mark_of c \<and> length c mod 512 = 25 \<and> mark_of c + 537 \<le> int (length c)"
proof -
  have "0 \<le> foldl (\<lambda>v b. v * 256 + uint b) w bs" if "0 \<le> w" for w and bs :: "byte list"
    using that by (induction bs arbitrary: w) auto
  then show "mark_of c \<noteq> - 1 \<Longrightarrow> 0 \<le> mark_of c \<and> length c mod 512 = 25 \<and> mark_of c + 537 \<le> int (length c)"
    by (auto simp: mark_of_def Let_def split: if_splits)
qed

context working_file
begin

lemma read_whole:
  assumes "good f" "0 < a" "0 \<le> ofs" "ofs + a \<le> int (length (content f))"
  obtains f' where "xRead M f a ofs = (SQLITE_OK, take (nat a) (drop (nat ofs) (content f)), f')" "good f'" "content f' = content f"
proof -
  obtain rc buf f' where r: "xRead M f a ofs = (rc, buf, f')" by (metis prod_cases3)
  moreover have "rc = SQLITE_OK" using read_ok [OF assms] r by simp
  ultimately show ?thesis using that read_law [OF assms r] by simp
qed

lemma read_mark:
  assumes g: "good f"
  shows "\<exists>f'. apndReadMark M (int (length (content f))) f = (mark_of (content f), f') \<and> good f' \<and> content f' = content f"
proof (cases "length (content f) mod 512 = 25")
  case True
  let ?c = "content f" and ?l = "length (content f)"
  have l: "25 \<le> ?l" using True mod_less_eq_dividend [of ?l 512] by simp
  have m: "int ?l mod 512 = 25" using True by (simp add: int_mod_512)
  obtain f' where r: "xRead M f 25 (int ?l - 25) = (SQLITE_OK, take (nat 25) (drop (nat (int ?l - 25)) ?c), f')" "good f'" "content f' = ?c"
    by (rule read_whole [OF g, of 25 "int ?l - 25"]) (use l in auto)
  let ?a = "drop (?l - 25) ?c"
  have a: "take (nat 25) (drop (nat (int ?l - 25)) ?c) = ?a" using l by (simp add: nat_diff_distrib')
  have e: "take 7 (drop 18 ?a) = drop (?l - 7) ?c" "?a ! 17 = ?c ! (?l - 8)" using l by (simp_all add: add.commute)
  let ?n = "foldl (\<lambda>v b. v * 256 + uint b) (uint (?c ! (?l - 8)) mod 128) (drop (?l - 7) ?c)"
  have n: "read_loop (take 7 (drop 18 ?a)) 56 (push_bit 56 (uint (?a ! 17) AND 0x7f)) = ?n"
    using read_loop_value [of "drop (?l - 7) ?c" "uint (?c ! (?l - 8)) mod 128"] l unfolding e AND_low by simp
  have "apndReadMark M (int ?l) f = (if take 17 ?a \<noteq> APND_MARK_PREFIX then - 1 else if ?n > int ?l - 25 - 512 then - 1
      else if ?n mod 512 \<noteq> 0 then - 1 else ?n, f')"
    unfolding apndReadMark_def AND_low(1) m of_nat_numeral r(1) Let_def split_beta fst_conv snd_conv a n by simp
  also have "\<dots> = (mark_of ?c, f')" unfolding mark_of_def Let_def using True by auto
  finally show ?thesis using r(2,3) by blast
next
  case False
  then have "int (length (content f)) mod 512 \<noteq> 25" unfolding int_mod_512 by linarith
  then show ?thesis using g False by (simp add: apndReadMark_def mark_of_def AND_low)
qed

end

context working_file
begin

lemma is_appended:
  assumes g: "good f"
  shows "\<exists>b f'. apndIsAppendvfsDatabase M (int (length (content f))) f = (b, f') \<and> (b \<longrightarrow> length (content f) mod 512 = 25) \<and> good f' \<and> content f' = content f"
proof -
  obtain f1 where m: "apndReadMark M (int (length (content f))) f = (mark_of (content f), f1)" "good f1" "content f1 = content f"
    using read_mark [OF g] by blast
  show ?thesis
  proof (cases "mark_of (content f) = - 1")
    case True
    then show ?thesis using m by (auto simp: apndIsAppendvfsDatabase_def)
  next
    case False
    then have n: "0 \<le> mark_of (content f)" "length (content f) mod 512 = 25" "mark_of (content f) + 537 \<le> int (length (content f))"
      using mark_of_nonneg by blast+
    then obtain f2 where "xRead M f1 16 (mark_of (content f)) = (SQLITE_OK, take (nat 16) (drop (nat (mark_of (content f))) (content f1)), f2)" "good f2" "content f2 = content f1"
      using m(3) by (elim read_whole [OF m(2), of 16 "mark_of (content f)", rotated -1]) auto
    then show ?thesis using m n by (simp add: apndIsAppendvfsDatabase_def)
  qed
qed

lemma is_ordinary:
  assumes g: "good f"
  shows "\<exists>f'. apndIsOrdinaryDatabaseFile M (int (length (content f))) f = (ordinary (content f), f') \<and> good f' \<and> content f' = content f"
proof -
  obtain b f1 where b: "apndIsAppendvfsDatabase M (int (length (content f))) f = (b, f1)" "b \<longrightarrow> length (content f) mod 512 = 25" "good f1" "content f1 = content f"
    using is_appended [OF g] by blast
  show ?thesis
  proof (cases "length (content f) mod 512 = 0")
    case False
    then show ?thesis using b by (simp add: apndIsOrdinaryDatabaseFile_def AND_low int_mod_512 ordinary_def)
  next
    case True
    then have t: "\<not> b" "int (length (content f)) mod 512 = 0" using b(2) by (auto simp: int_mod_512)
    show ?thesis
    proof (cases "16 \<le> length (content f)")
      case le: True
      obtain f2 where "xRead M f1 16 0 = (SQLITE_OK, take (nat 16) (drop (nat 0) (content f1)), f2)" "good f2" "content f2 = content f1"
        by (rule read_whole [OF b(3), of 16 0]) (use le b(4) in auto)
      then show ?thesis using b t True by (simp add: apndIsOrdinaryDatabaseFile_def AND_low ordinary_def)
    next
      case gt: False
      obtain rc buf f2 where r: "xRead M f1 16 0 = (rc, buf, f2)" by (metis prod_cases3)
      have "rc = SQLITE_IOERR_SHORT_READ" "good f2" "content f2 = content f1" using read_short [OF b(3) _ _ _ r] gt b(4) by auto
      moreover have "take 16 (content f) \<noteq> apvfsSqliteHdr" using gt arg_cong [of _ apvfsSqliteHdr length] length_apvfsSqliteHdr by fastforce
      ultimately show ?thesis using b t r by (simp add: apndIsOrdinaryDatabaseFile_def AND_low ordinary_def)
    qed
  qed
qed

text \<open>The mark as \<^verbatim>\<open>apndOpen\<close> reads it, through the methods of the handle whose offset is still 0.\<close>

lemma apnd_read_mark: "apndReadMark (apnd_io_methods M) sz (\<lparr>iPgOne = 0, iMark = i\<rparr>, f) = (let (n, f) = apndReadMark M sz f in (n, \<lparr>iPgOne = 0, iMark = i\<rparr>, f))"
  by (simp add: apndReadMark_def apnd_methods apndRead_def Let_def split_beta)

end

lemma and_not_split: "(x AND NOT m) + (x AND m) = x" for x m :: int
proof -
  have "(x AND NOT m) AND (x AND m) = 0" "(x AND NOT m) OR (x AND m) = x" by (auto simp: bit_eq_iff bit_simps)
  then show ?thesis using disjunctive_add_eq_or [of "x AND NOT m" "x AND m"] by simp
qed

lemma roundup_bounds: "n \<le> APND_START_ROUNDUP n \<and> APND_START_ROUNDUP n < n + 4096 \<and> APND_START_ROUNDUP n mod 4096 = 0"
proof -
  have m: "(0xfff :: int) = mask 12" by (simp add: mask_eq_exp_minus_1)
  let ?x = "n + 4095"
  have "?x = (?x AND NOT 0xfff) + (?x AND 0xfff)" by (rule and_not_split [symmetric])
  moreover have "?x AND 0xfff = ?x mod 4096" unfolding m take_bit_eq_mask [symmetric] take_bit_eq_mod by simp
  ultimately have r: "APND_START_ROUNDUP n = ?x - ?x mod 4096" by (simp add: APND_START_ROUNDUP_def)
  have b: "0 \<le> ?x mod 4096" "?x mod 4096 < 4096" by simp_all
  have "(?x - ?x mod 4096) mod 4096 = 0" by (simp add: minus_mod_eq_mult_div)
  then show ?thesis using b unfolding r by linarith
qed

text \<open>The mark that the VFS writes is the one it reads.\<close>

lemma mark_of_written:
  assumes "0 \<le> p" "p < 2 ^ 63" "p mod 512 = 0" "length d mod 512 = 0" "p + 512 \<le> int (length d)"
  shows "mark_of (d @ mark_bytes p) = p"
proof -
  let ?c = "d @ mark_bytes p"
  have b: "be64 p = word_of_int (drop_bit 56 p) # map (\<lambda>k. word_of_int (drop_bit (8 * k) p)) [6, 5, 4, 3, 2, 1, 0]" (is "_ = ?b # ?bs") by (simp add: be64_def)
  have l: "length APND_MARK_PREFIX = 17" by (simp add: APND_MARK_PREFIX_bytes)
  have 1: "?c ! (length ?c - 8) = ?b" by (simp add: mark_bytes_eq b nth_append l)
  have 2: "drop (length ?c - 7) ?c = ?bs" by (simp add: mark_bytes_eq b l)
  have 3: "take 17 (drop (length ?c - 25) ?c) = APND_MARK_PREFIX" by (simp add: mark_bytes_eq l b)
  have "uint ?b = p div 2 ^ 56 mod 256" using be64_nth [of 7 p] by simp
  moreover have "p div 2 ^ 56 < 128" using assms(2) by (simp add: div_less_iff_less_mult)
  ultimately have "uint ?b mod 128 = uint ?b" using assms(1) by (simp add: mod_mod_cancel pos_imp_zdiv_nonneg_iff)
  then have "foldl (\<lambda>v b. v * 256 + uint b) (uint ?b mod 128) ?bs = p"
    using be_value_be64 [OF assms(1,2)] unfolding be_value_def b by simp
  moreover have "length ?c mod 512 = 25" using assms(4) by (simp add: mod_add_left_eq [symmetric])
  ultimately show ?thesis using 3 assms(3,5) unfolding mark_of_def 1 2 Let_def by simp
qed

context working_file
begin

lemma open_main:
  assumes v: "methods v = M" "xOpen v z flags w = (SQLITE_OK, f, out, w')" "good f" and fl: "flags AND SQLITE_OPEN_MAIN_DB \<noteq> 0"
  defines "c \<equiv> content f"
  shows "\<exists>g. good g \<and> content g = c \<and> apndOpen v z flags w =
    (if ordinary c then (SQLITE_OK, BaseFile g, out, w')
     else if 0 \<le> mark_of c then (SQLITE_OK, Appended (\<lparr>iPgOne = mark_of c, iMark = int (length c) - 25\<rparr>, g), out, w')
     else if flags AND SQLITE_OPEN_CREATE = 0 then (SQLITE_CANTOPEN, NoMethods (snd (xClose M g)), out, w')
     else (SQLITE_OK, Appended (\<lparr>iPgOne = APND_START_ROUNDUP (int (length c)), iMark = - 1\<rparr>, g), out, w'))"
proof -
  obtain rc n f1 where s: "xFileSize M f = (rc, n, f1)" by (metis prod_cases3)
  then have S: "rc = SQLITE_OK" "n = int (length c)" "good f1" "content f1 = c" using size_ok [OF v(3)] size_law [OF v(3) s] by (auto simp: c_def)
  obtain f2 where o: "apndIsOrdinaryDatabaseFile M (int (length c)) f1 = (ordinary c, f2)" "good f2" "content f2 = c"
    using is_ordinary [OF S(3)] unfolding S(4) by blast
  obtain f3 where m: "apndReadMark M (int (length c)) f2 = (mark_of c, f3)" "good f3" "content f3 = c"
    using read_mark [OF o(2)] unfolding o(3) by blast
  have "apndOpen v z flags w = (if ordinary c then (SQLITE_OK, BaseFile f2, out, w')
     else if 0 \<le> mark_of c then (SQLITE_OK, Appended (\<lparr>iPgOne = mark_of c, iMark = int (length c) - 25\<rparr>, f3), out, w')
     else if flags AND SQLITE_OPEN_CREATE = 0 then (SQLITE_CANTOPEN, NoMethods (snd (xClose M f3)), out, w')
     else (SQLITE_OK, Appended (\<lparr>iPgOne = APND_START_ROUNDUP (int (length c)), iMark = - 1\<rparr>, f3), out, w'))"
    using fl s S(1,2) by (simp add: apndOpen_def v(1,2) o(1) apnd_read_mark m(1) Let_def)
  then show ?thesis using o m by (cases "ordinary c") auto
qed

end

section \<open>Files in memory\<close>

definition mem_methods :: "byte list sqlite3_io_methods" where
  "mem_methods =
     \<lparr>xClose = (\<lambda>f. (SQLITE_OK, f)),
      xRead = (\<lambda>f a ofs. let b = take (nat a) (drop (nat ofs) f)
        in (if ofs + a \<le> int (length f) then SQLITE_OK else SQLITE_IOERR_SHORT_READ, b @ replicate (nat a - length b) 0, f)),
      xWrite = (\<lambda>f d ofs. (SQLITE_OK, take (nat ofs) f @ replicate (nat ofs - length f) 0 @ d @ drop (nat ofs + length d) f)),
      xTruncate = (\<lambda>f n. (SQLITE_OK, take (nat n) f)),
      xSync = (\<lambda>f flags. (SQLITE_OK, f)),
      xFileSize = (\<lambda>f. (SQLITE_OK, int (length f), f)),
      xLock = (\<lambda>f e. (SQLITE_OK, f)),
      xUnlock = (\<lambda>f e. (SQLITE_OK, f)),
      xCheckReservedLock = (\<lambda>f. (SQLITE_OK, 0, f)),
      xFileControl = (\<lambda>f a. (SQLITE_OK, a, f)),
      xSectorSize = (\<lambda>f. 4096),
      xDeviceCharacteristics = (\<lambda>f. 0),
      xShmMap = (\<lambda>f i n e. (SQLITE_IOERR, 0, f)),
      xShmLock = (\<lambda>f ofs n flags. (SQLITE_IOERR, f)),
      xShmBarrier = (\<lambda>f. f),
      xShmUnmap = (\<lambda>f d. (SQLITE_OK, f)),
      xFetch = (\<lambda>f ofs a. (SQLITE_OK, if ofs + a \<le> int (length f) then Some (take (nat a) (drop (nat ofs) f)) else None, f)),
      xUnfetch = (\<lambda>f ofs p. (SQLITE_OK, f))\<rparr>"

lemma mem_methods_simps:
  "xClose mem_methods f = (SQLITE_OK, f)"
  "xRead mem_methods f a ofs = (let b = take (nat a) (drop (nat ofs) f)
     in (if ofs + a \<le> int (length f) then SQLITE_OK else SQLITE_IOERR_SHORT_READ, b @ replicate (nat a - length b) 0, f))"
  "xWrite mem_methods f d ofs = (SQLITE_OK, take (nat ofs) f @ replicate (nat ofs - length f) 0 @ d @ drop (nat ofs + length d) f)"
  "xTruncate mem_methods f n = (SQLITE_OK, take (nat n) f)"
  "xFileSize mem_methods f = (SQLITE_OK, int (length f), f)"
  by (simp_all add: mem_methods_def)

lemma written_mem: "written f d k (take k f @ replicate (k - length f) 0 @ d @ drop (k + length d) f)"
  by (cases "k \<le> length f") (auto simp: written_def nth_append max_def)

interpretation mem: working_file mem_methods "\<lambda>f. f" "\<lambda>f. True"
  by unfold_locales (auto simp: mem_methods_simps Let_def written_mem)

interpretation apnd_mem: sqlite_file "apnd_io_methods mem_methods" "apnd_bytes (\<lambda>f. f)" "apnd_good (\<lambda>f. f) (\<lambda>f. True)"
  by (rule mem.apnd_sqlite_file)

text \<open>A VFS with one file in memory.\<close>

definition mem_vfs :: "byte list \<Rightarrow> (unit, byte list) sqlite3_vfs" where
  "mem_vfs f =
     \<lparr>iVersion = 3, szOsFile = 64, methods = mem_methods, xOpen = (\<lambda>z flags w. (SQLITE_OK, f, flags, w)),
      xDelete = (\<lambda>z s w. (SQLITE_OK, w)), xAccess = (\<lambda>z fl w. (SQLITE_OK, 1, w)), xFullPathname = (\<lambda>z n w. (SQLITE_OK, z, w)),
      xDlOpen = (\<lambda>z w. (0, w)), xDlError = (\<lambda>n w. ([], w)), xDlSym = (\<lambda>p z w. (0, w)), xDlClose = (\<lambda>p w. w),
      xRandomness = (\<lambda>n w. (0, [], w)), xSleep = (\<lambda>n w. (n, w)), xCurrentTime = (\<lambda>w. (SQLITE_OK, 0, w)),
      xGetLastError = (\<lambda>a w. (0, [], w)), xCurrentTimeInt64 = (\<lambda>w. (SQLITE_OK, 0, w)), xSetSystemCall = (\<lambda>z p w. (SQLITE_OK, w)),
      xGetSystemCall = (\<lambda>z w. (0, w)), xNextSystemCall = (\<lambda>z w. (None, w))\<rparr>"

lemma mem_vfs_simps: "methods (mem_vfs f) = mem_methods" "xOpen (mem_vfs f) z flags w = (SQLITE_OK, f, flags, w)"
  by (simp_all add: mem_vfs_def)

section \<open>The properties of the VFS\<close>

text \<open>
  C11: On top of any file that keeps the contract of \<^verbatim>\<open>sqlite3_file\<close>, the file of the append VFS keeps it too: after every sequence
  of successful writes that begin inside the database or at its end, and of truncations that do not extend it (\<open>ops_fit\<close>), its bytes are those that the operations give for a file of its own, and its size is their number.  The offset of
  the database stays, the file ends with the mark that names it (this is \<open>apnd_good\<close>), and no byte of the file before the database changes.
\<close>

theorem append_refines:
  assumes "sqlite_file M content good" "apnd_good content good (paf, f)" "ops_fit (apnd_bytes content (paf, f)) xs"
    "file_run (apnd_io_methods M) (paf, f) xs = Some (paf', f')"
  shows "apnd_good content good (paf', f') \<and> apnd_bytes content (paf', f') = bytes_run (apnd_bytes content (paf, f)) xs \<and>
    apndFileSize (paf', f') = (SQLITE_OK, int (length (apnd_bytes content (paf', f'))), paf', f') \<and> iPgOne paf' = iPgOne paf \<and>
    (\<forall>k. k \<le> length (content f) \<and> int k \<le> iPgOne paf \<longrightarrow> take k (content f') = take k (content f))"
proof -
  note R = sqlite_file.run_law [OF sqlite_file.apnd_sqlite_file [OF assms(1)] assms(4,2,3)]
  have "\<exists>n. apndFileSize (paf', f') = (SQLITE_OK, n, paf', f')" by (simp add: apndFileSize_def)
  then have "apndFileSize (paf', f') = (SQLITE_OK, int (length (apnd_bytes content (paf', f'))), paf', f')"
    using sqlite_file.apnd_size_law [OF assms(1)] R by blast
  then show ?thesis using R sqlite_file.run_host [OF assms(1) assms(4,2,3)] sqlite_file.run_host [OF assms(1) assms(4,2,3), of 0] assms(2)
    by (auto simp: apnd_good_def)
qed

lemma append_refines_witness:
  "\<exists>paf f. file_run (apnd_io_methods mem_methods) (\<lparr>iPgOne = 8, iMark = - 1\<rparr>, ascii ''host'') [WriteOp [1, 2, 3] 0, WriteOp [4, 5] 2, TruncateOp 3] = Some (paf, f) \<and>
     apnd_bytes (\<lambda>f. f) (paf, f) = [1, 2, 4] \<and> take 4 f = ascii ''host''"
proof -
  let ?p = "\<lparr>iPgOne = 8, iMark = - 1\<rparr>" and ?xs = "[WriteOp [1, 2, 3] 0, WriteOp [4, 5] 2, TruncateOp 3]"
  have "sqlite_file mem_methods (\<lambda>f. f) (\<lambda>f. True)" ..
  moreover have "apnd_good (\<lambda>f. f) (\<lambda>f. True) (?p, ascii ''host'')" "ops_fit (apnd_bytes (\<lambda>f. f) (?p, ascii ''host'')) ?xs"
    by (simp_all add: apnd_good_def apnd_bytes_def ascii_def)
  moreover have "file_run (apnd_io_methods mem_methods) (?p, ascii ''host'') ?xs \<noteq> None" by code_simp
  then obtain paf f where r: "file_run (apnd_io_methods mem_methods) (?p, ascii ''host'') ?xs = Some (paf, f)" by auto
  ultimately have "apnd_bytes (\<lambda>f. f) (paf, f) = bytes_run (apnd_bytes (\<lambda>f. f) (?p, ascii ''host'')) ?xs \<and> take 4 f = take 4 (ascii ''host'')"
    using append_refines [of mem_methods "\<lambda>f. f" "\<lambda>f. True" ?p "ascii ''host''" ?xs paf f] by (simp add: ascii_def)
  then show ?thesis using r by (simp add: apnd_bytes_def ascii_def)
qed



text \<open>
  C12: A database that the VFS has written, in whole sectors of 512 bytes, is found again: opening the file gives the same offsets, and
  so the same bytes, whatever the database contains.
\<close>

theorem append_reopens:
  assumes W: "working_file M content good" and g: "apnd_good content good (paf, f)"
    and m: "0 \<le> iMark paf" "iMark paf mod 512 = 0" "iPgOne paf mod 512 = 0" "iPgOne paf < 2 ^ 63" "iPgOne paf + 512 \<le> iMark paf"
    and v: "methods v = M" "xOpen v z flags w = (SQLITE_OK, f', out, w')" "good f'" "content f' = content f" "flags AND SQLITE_OPEN_MAIN_DB \<noteq> 0"
  shows "\<exists>h. apndOpen v z flags w = (SQLITE_OK, Appended (paf, h), out, w') \<and> apnd_good content good (paf, h) \<and>
    apnd_bytes content (paf, h) = apnd_bytes content (paf, f)"
proof -
  let ?c = "content f" and ?d = "take (nat (iMark paf)) (content f)"
  have G: "0 \<le> iPgOne paf" "int (length ?c) = iMark paf + 25" "drop (nat (iMark paf)) ?c = mark_bytes (iPgOne paf)" using g m(1) by (auto simp: apnd_good_def)
  then have c: "?c = ?d @ mark_bytes (iPgOne paf)" "int (length ?d) = iMark paf" using m(1) by (metis append_take_drop_id, simp)
  have "int (length ?d) mod 512 = 0" using m(2) c(2) by simp
  then have l: "length ?d mod 512 = 0" unfolding int_mod_512 by simp
  have mk: "mark_of ?c = iPgOne paf" using mark_of_written [OF G(1) m(4,3) l] m(5) c by simp
  have "int (length ?c) mod 512 = 25" using m(2) unfolding G(2) by (simp add: mod_add_left_eq [symmetric])
  then have "length ?c mod 512 \<noteq> 0" unfolding int_mod_512 by simp
  then have o: "\<not> ordinary ?c" by (simp add: ordinary_def)
  obtain h where h: "good h" "content h = ?c" "apndOpen v z flags w = (SQLITE_OK, Appended (\<lparr>iPgOne = iPgOne paf, iMark = int (length ?c) - 25\<rparr>, h), out, w')"
    using working_file.open_main [OF W v(1-3,5)] o mk G(1) unfolding v(4) by auto
  moreover have "\<lparr>iPgOne = iPgOne paf, iMark = int (length ?c) - 25\<rparr> = paf" using G(2) by simp
  ultimately show ?thesis using g by (auto simp: apnd_good_def apnd_bytes_def)
qed

lemma append_reopens_witness:
  "\<exists>h. apndOpen (mem_vfs (replicate 1024 7 @ mark_bytes 512)) ''x'' 256 () = (SQLITE_OK, Appended (\<lparr>iPgOne = 512, iMark = 1024\<rparr>, h), 256, ()) \<and>
     apnd_bytes (\<lambda>f. f) (\<lparr>iPgOne = 512, iMark = 1024\<rparr>, h) = replicate 512 7"
proof -
  let ?p = "\<lparr>iPgOne = 512, iMark = 1024\<rparr>" and ?f = "replicate 1024 7 @ mark_bytes 512"
  have W: "working_file mem_methods (\<lambda>f. f) (\<lambda>f. True)" ..
  have g: "apnd_good (\<lambda>f. f) (\<lambda>f. True) (?p, ?f)" by (simp add: apnd_good_def)
  obtain h where "apndOpen (mem_vfs ?f) ''x'' 256 () = (SQLITE_OK, Appended (?p, h), 256, ())"
      "apnd_bytes (\<lambda>f. f) (?p, h) = apnd_bytes (\<lambda>f. f) (?p, ?f)"
    using append_reopens [OF W g _ _ _ _ _ mem_vfs_simps TrueI refl, of 256 "''x''" "()"] by auto
  moreover have "apnd_bytes (\<lambda>f. f) (?p, ?f) = replicate 512 7" by (simp add: apnd_bytes_def)
  ultimately show ?thesis by auto
qed

text \<open>
  Where the VFS is not like a file: a read past the end of the database succeeds and returns bytes of the mark, where a file
  reports a short read; a page behind the end can be fetched, because the limit lacks the offset of the database; a write past the end
  leaves the old mark in the gap; an empty file is not opened as an ordinary database but refused or appended to; and the limit of 1 GiB does not
  count the file before the database.
\<close>

theorem append_findings:
  "apndRead mem_methods (\<lparr>iPgOne = 0, iMark = 2\<rparr>, [1, 2] @ mark_bytes 0) 4 0 = (SQLITE_OK, [1, 2, 0x53, 0x74], \<lparr>iPgOne = 0, iMark = 2\<rparr>, [1, 2] @ mark_bytes 0) \<and>
   fst (xRead mem_methods [1, 2] 4 0) = SQLITE_IOERR_SHORT_READ \<and>
   apndFetch mem_methods (\<lparr>iPgOne = 4, iMark = 6\<rparr>, [0, 0, 0, 0, 1, 2] @ mark_bytes 4) 2 2 = (SQLITE_OK, Some [0x53, 0x74], \<lparr>iPgOne = 4, iMark = 6\<rparr>, [0, 0, 0, 0, 1, 2] @ mark_bytes 4) \<and>
   apnd_bytes (\<lambda>f. f) (snd (apndWrite mem_methods (\<lparr>iPgOne = 0, iMark = 2\<rparr>, [1, 2] @ mark_bytes 0) [9] 4)) = [1, 2, 0x53, 0x74, 9] \<and>
   apndOpen (mem_vfs []) ''x'' 256 () = (SQLITE_CANTOPEN, NoMethods [], 256, ()) \<and>
   apndOpen (mem_vfs []) ''x'' 260 () = (SQLITE_OK, Appended (\<lparr>iPgOne = 0, iMark = - 1\<rparr>, []), 260, ()) \<and>
   fst (apndWrite (mem_methods\<lparr>xWrite := (\<lambda>f d ofs. (SQLITE_OK, f))\<rparr>) (\<lparr>iPgOne = APND_MAX_SIZE, iMark = - 1\<rparr>, []) [9] 0) = SQLITE_OK"
  by code_simp

end
