(* ===== verification/Shell_Text.thy ===== *)
theory Shell_Text
  imports Sqlite_Api "HOL-Library.Sublist"
begin

text \<open>
  How the command-line shell writes text for other programs, and how it reads
  the words of a command: the \<^verbatim>\<open>output_*_string\<close> routines of
  \<^verbatim>\<open>mvsqlite-sqlite3/shell.c\<close>, \<^verbatim>\<open>resolve_backslashes\<close>, the loop of
  \<^verbatim>\<open>do_meta_command\<close> that splits a line into words, and the growing buffer
  \<^verbatim>\<open>ShellText\<close>.  A routine that writes to a stream is the text it writes.  A
  \<^verbatim>\<open>char*\<close> is a list of bytes that the routine reads up to the first NUL.

  Each way of quoting is shown to lose nothing: readers for SQL literals and
  the SQL function \<^verbatim>\<open>replace\<close>, for JSON strings and for HTML are stated on
  their own, and the words of a command are read by the code of the shell.
\<close>

lemma dropWhile_shorter: "dropWhile P z = c # z' \<Longrightarrow> length z' < length z"
  using length_dropWhile_le [of P z] by simp

section \<open>Characters\<close>

abbreviation DQ :: char where "DQ \<equiv> CHR 0x22"
abbreviation SQ :: char where "SQ \<equiv> CHR 0x27"
abbreviation BSL :: char where "BSL \<equiv> CHR 0x5C"
abbreviation LF :: char where "LF \<equiv> CHR 0x0A"
abbreviation CR :: char where "CR \<equiv> CHR 0x0D"
abbreviation TAB :: char where "TAB \<equiv> CHR 0x09"

text \<open>\<^verbatim>\<open>isprint\<close>, \<^verbatim>\<open>isalpha\<close>, \<^verbatim>\<open>isalnum\<close> and \<^verbatim>\<open>tolower\<close> of the C locale.\<close>

definition isprint :: "char \<Rightarrow> bool" where
  [ctype_defs]: "isprint c \<longleftrightarrow> 32 \<le> ord_char c \<and> ord_char c \<le> 126"

definition isalpha :: "char \<Rightarrow> bool" where
  [ctype_defs]: "isalpha c \<longleftrightarrow>
     (65 \<le> ord_char c \<and> ord_char c \<le> 90) \<or> (97 \<le> ord_char c \<and> ord_char c \<le> 122)"

definition isalnum :: "char \<Rightarrow> bool" where
  [ctype_defs]: "isalnum c \<longleftrightarrow> isalpha c \<or> isdigit c"

definition tolower :: "char \<Rightarrow> char" where
  "tolower c = (if 65 \<le> ord_char c \<and> ord_char c \<le> 90 then char_of (of_char c + 32 :: nat) else c)"

text \<open>\<^verbatim>\<open>strstr(z, p) != 0\<close>, \<^verbatim>\<open>%03o\<close>, \<^verbatim>\<open>%02x\<close> and \<^verbatim>\<open>%04x\<close> of a byte.\<close>

fun strstr :: "string \<Rightarrow> string \<Rightarrow> bool" where
  "strstr [] p \<longleftrightarrow> p = []"
| "strstr (c # z) p \<longleftrightarrow> prefix p (c # z) \<or> strstr z p"

definition octal3 :: "char \<Rightarrow> string" where
  "octal3 c = (let n = of_char c :: nat in map digit_char [n div 64, n div 8 mod 8, n mod 8])"

definition xdigit_char :: "nat \<Rightarrow> char" where
  "xdigit_char d = (if d < 10 then char_of (48 + d) else char_of (87 + d))"

definition hex2_text :: "char \<Rightarrow> string" where
  "hex2_text c = (let n = of_char c :: nat in map xdigit_char [n div 16, n mod 16])"

section \<open>Quoting for C, JSON and HTML\<close>

definition c_char :: "char \<Rightarrow> string" where
  "c_char c =
     (if c = BSL then [c, c]
      else if c = DQ then [BSL, DQ]
      else if c = TAB then [BSL, CHR ''t'']
      else if c = LF then [BSL, CHR ''n'']
      else if c = CR then [BSL, CHR ''r'']
      else if \<not> isprint c then BSL # octal3 c
      else [c])"

definition output_c_string :: "string \<Rightarrow> string" where
  "output_c_string z = DQ # concat (map c_char (c_str z)) @ [DQ]"

definition json_char :: "char \<Rightarrow> string" where
  "json_char c =
     (if c = BSL \<or> c = DQ then [BSL, c]
      else if ord_char c \<le> 31 then
        BSL #
        (if c = CHR 0x08 then ''b''
         else if c = CHR 0x0C then ''f''
         else if c = LF then ''n''
         else if c = CR then ''r''
         else if c = TAB then ''t''
         else ''u00'' @ hex2_text c)
      else [c])"

text \<open>A negative count stands for the length of the text.\<close>

definition output_json_string :: "string \<Rightarrow> int \<Rightarrow> string" where
  "output_json_string z n =
     (let n = (if n < 0 then length (c_str z) else nat n)
      in DQ # concat (map json_char (take n z)) @ [DQ])"

definition html_plain :: "char \<Rightarrow> bool" where
  "html_plain c \<longleftrightarrow> c \<noteq> CHR ''<'' \<and> c \<noteq> CHR ''&'' \<and> c \<noteq> CHR ''>'' \<and> c \<noteq> DQ \<and> c \<noteq> SQ"

definition html_char :: "char \<Rightarrow> string" where
  "html_char c =
     (if c = CHR ''<'' then ''&lt;''
      else if c = CHR ''&'' then ''&amp;''
      else if c = CHR ''>'' then ''&gt;''
      else if c = DQ then ''&quot;''
      else ''&#39;'')"

text \<open>One turn writes the plain characters and then, unless the text ends, one entity.\<close>

function html_loop :: "string \<Rightarrow> string" where
  "html_loop z =
     (if z = [] then []
      else takeWhile html_plain z @
        (case dropWhile html_plain z of
           [] \<Rightarrow> []
         | c # z' \<Rightarrow> html_char c @ html_loop z'))"
  by pat_completeness auto
termination
  by (relation "measure length") (auto dest: dropWhile_shorter)

declare html_loop.simps [simp del]

definition output_html_string :: "string option \<Rightarrow> string" where
  "output_html_string z = (case z of None \<Rightarrow> [] | Some z \<Rightarrow> html_loop (c_str z))"

section \<open>Quoting for SQL\<close>

definition output_hex_blob :: "string \<Rightarrow> string" where
  "output_hex_blob b = ''X'' @ [SQ] @ concat (map hex2_text b) @ [SQ]"

text \<open>The loop of \<^verbatim>\<open>output_quoted_string\<close>: a piece up to a quote, the quote with it, and the quote again.\<close>

function quoted_loop :: "string \<Rightarrow> string" where
  "quoted_loop z =
     (if z = [] then []
      else takeWhile (\<lambda>c. c \<noteq> SQ) z @
        (case dropWhile (\<lambda>c. c \<noteq> SQ) z of
           [] \<Rightarrow> []
         | c # z' \<Rightarrow> [c] @ [SQ] @ quoted_loop z'))"
  by pat_completeness auto
termination
  by (relation "measure length") (auto dest: dropWhile_shorter)

declare quoted_loop.simps [simp del]

definition output_quoted_string :: "string \<Rightarrow> string" where
  "output_quoted_string z =
     (let z = c_str z
      in if SQ \<notin> set z then [SQ] @ z @ [SQ]
         else [SQ] @ quoted_loop z @ [SQ])"

text \<open>
  \<^verbatim>\<open>unused_string\<close>.  The generated strings are \<^verbatim>\<open>(zA0)\<close>, \<^verbatim>\<open>(zA1)\<close> and so on; the
  number of tries is shown to be enough below.
\<close>

definition unused_made :: "string \<Rightarrow> nat \<Rightarrow> string" where
  "unused_made zA i = ''('' @ zA @ fmt_int (int i) @ '')''"

fun unused_loop :: "nat \<Rightarrow> string \<Rightarrow> string \<Rightarrow> nat \<Rightarrow> string option" where
  "unused_loop 0 z zA i = None"
| "unused_loop (Suc tries) z zA i =
     (if strstr z (unused_made zA i) then unused_loop tries z zA (Suc i) else Some (unused_made zA i))"

definition unused_string :: "string \<Rightarrow> string \<Rightarrow> string \<Rightarrow> string option" where
  "unused_string z zA zB =
     (if \<not> strstr z zA then Some zA
      else if \<not> strstr z zB then Some zB
      else unused_loop (Suc (length z)) z zA 0)"

function escaped_loop :: "string \<Rightarrow> string \<Rightarrow> string \<Rightarrow> string" where
  "escaped_loop zNL zCR z =
     (if z = [] then []
      else takeWhile (\<lambda>c. c \<noteq> LF \<and> c \<noteq> CR \<and> c \<noteq> SQ) z @
        (case dropWhile (\<lambda>c. c \<noteq> LF \<and> c \<noteq> CR \<and> c \<noteq> SQ) z of
           [] \<Rightarrow> []
         | c # z' \<Rightarrow>
             (if c = SQ then [c] @ [SQ] @ escaped_loop zNL zCR z'
              else if c = LF then zNL @ escaped_loop zNL zCR z'
              else zCR @ escaped_loop zNL zCR z')))"
  by pat_completeness auto
termination
  by (relation "measure (\<lambda>(_, _, z). length z)") (auto dest: dropWhile_shorter)

declare escaped_loop.simps [simp del]

definition output_quoted_escaped_string :: "string \<Rightarrow> string option" where
  "output_quoted_escaped_string z =
     (let z = c_str z
      in if SQ \<notin> set z \<and> LF \<notin> set z \<and> CR \<notin> set z then Some ([SQ] @ z @ [SQ])
         else
           case (if LF \<in> set z then unused_string z (BSL # ''n'') (BSL # ''012'') else Some []) of
             None \<Rightarrow> None
           | Some zNL \<Rightarrow>
               (case (if CR \<in> set z then unused_string z (BSL # ''r'') (BSL # ''015'') else Some []) of
                  None \<Rightarrow> None
                | Some zCR \<Rightarrow> Some
                    ((if LF \<in> set z then ''replace('' else []) @
                     (if CR \<in> set z then ''replace('' else []) @
                     [SQ] @ escaped_loop zNL zCR z @ [SQ] @
                     (if CR \<in> set z then '','' @ [SQ] @ zCR @ [SQ] @ '',char(13))'' else []) @
                     (if LF \<in> set z then '','' @ [SQ] @ zNL @ [SQ] @ '',char(10))'' else []))))"

section \<open>The words of a command\<close>

definition is_octal :: "char \<Rightarrow> bool" where
  "is_octal c \<longleftrightarrow> 48 \<le> ord_char c \<and> ord_char c \<le> 55"

text \<open>The value of \<^verbatim>\<open>(c<<3) + z[i] - '0'\<close> is stored in a \<^verbatim>\<open>char\<close>.\<close>

definition octal_step :: "nat \<Rightarrow> char \<Rightarrow> nat" where
  "octal_step n d = (8 * n + (of_char d - 48)) mod 256"

text \<open>The character after a backslash, and how many more characters it takes.\<close>

definition resolve_octal :: "char \<Rightarrow> string \<Rightarrow> char \<times> string" where
  "resolve_octal c z =
     (let n = of_char c - 48 :: nat
      in case z of
           [] \<Rightarrow> (char_of n, z)
         | d # z1 \<Rightarrow>
             if is_octal d then
               (let n = octal_step n d
                in case z1 of
                     [] \<Rightarrow> (char_of n, z1)
                   | e # z2 \<Rightarrow>
                       if is_octal e then (char_of (octal_step n e), z2) else (char_of n, z1))
             else (char_of n, z))"

definition resolve_escape :: "char \<Rightarrow> string \<Rightarrow> char \<times> string" where
  "resolve_escape c z =
     (if c = CHR ''a'' then (CHR 0x07, z)
      else if c = CHR ''b'' then (CHR 0x08, z)
      else if c = CHR ''t'' then (TAB, z)
      else if c = CHR ''n'' then (LF, z)
      else if c = CHR ''v'' then (CHR 0x0B, z)
      else if c = CHR ''f'' then (CHR 0x0C, z)
      else if c = CHR ''r'' then (CR, z)
      else if is_octal c then resolve_octal c z
      else (c, z))"

lemma resolve_octal_length: "length (snd (resolve_octal c z)) \<le> length z"
  by (auto simp: resolve_octal_def Let_def split: list.split)

lemma resolve_escape_length: "length (snd (resolve_escape c z)) \<le> length z"
  by (simp add: resolve_escape_def resolve_octal_length)

function resolve_loop :: "string \<Rightarrow> string" where
  "resolve_loop z =
     (case z of
        [] \<Rightarrow> []
      | c # z1 \<Rightarrow>
          (if c = BSL \<and> z1 \<noteq> [] then
             fst (resolve_escape (hd z1) (tl z1)) # resolve_loop (snd (resolve_escape (hd z1) (tl z1)))
           else c # resolve_loop z1))"
  by pat_completeness auto
termination
proof (relation "measure length")
  fix z c z1 assume "z = c # z1" "c = BSL \<and> z1 \<noteq> []"
  then show "(snd (resolve_escape (hd z1) (tl z1)), z) \<in> measure length"
    using resolve_escape_length [of "hd z1" "tl z1"] by (cases z1) auto
qed auto

declare resolve_loop.simps [simp del]

text \<open>
  \<^verbatim>\<open>resolve_backslashes\<close> on the text of a buffer, with the bytes it leaves before
  the terminator.  An escape such as \<^verbatim>\<open>\000\<close> leaves a NUL among them, which ends the
  text for whoever reads it.
\<close>

definition resolve_backslashes :: "string \<Rightarrow> string" where
  "resolve_backslashes z =
     (let z = c_str z
      in takeWhile (\<lambda>c. c \<noteq> BSL) z @ resolve_loop (dropWhile (\<lambda>c. c \<noteq> BSL) z))"

text \<open>
  The text between two delimiters and what follows them: the loop over \<^verbatim>\<open>h\<close> in
  \<^verbatim>\<open>do_meta_command\<close> after a quote.
\<close>

fun quoted_word :: "char \<Rightarrow> string \<Rightarrow> string \<times> string" where
  "quoted_word delim [] = ([], [])"
| "quoted_word delim (c # z) =
     (if c = delim then ([], z)
      else if c = BSL \<and> delim = DQ \<and> z \<noteq> [] then
        (let (w, r) = quoted_word delim (tl z) in (c # hd z # w, r))
      else (let (w, r) = quoted_word delim z in (c # w, r)))"

lemma quoted_word_length: "length (snd (quoted_word d z)) \<le> length z"
proof (induction d z rule: quoted_word.induct)
  case (2 d c z)
  then show ?case by (cases z) (auto split: prod.splits)
qed simp

text \<open>
  The words of a line from \<^verbatim>\<open>h\<close> on, with the room left in \<^verbatim>\<open>azArg\<close>.  A word that is
  not quoted ends at a space, which is overwritten by its terminator.
\<close>

function arg_loop :: "nat \<Rightarrow> string \<Rightarrow> string list" where
  "arg_loop room z =
     (if z = [] \<or> room = 0 then []
      else
        case dropWhile isspace z of
          [] \<Rightarrow> []
        | c # z1 \<Rightarrow>
            (if c = SQ \<or> c = DQ then
               (if c = DQ then resolve_backslashes (fst (quoted_word c z1)) else fst (quoted_word c z1)) #
               arg_loop (room - 1) (snd (quoted_word c z1))
             else
               resolve_backslashes (takeWhile (\<lambda>c. \<not> isspace c) (c # z1)) #
               arg_loop (room - 1) (tl (dropWhile (\<lambda>c. \<not> isspace c) (c # z1)))))"
  by pat_completeness auto
termination
  by (relation "measure fst") auto

declare arg_loop.simps [simp del]

text \<open>\<^verbatim>\<open>azArg\<close> has 52 places, the last of them for the terminator; scanning starts after the dot.\<close>

definition meta_args :: "string \<Rightarrow> string list" where
  "meta_args zLine = arg_loop 51 (tl (c_str zLine))"

section \<open>Numbers in arguments and results\<close>

text \<open>The lengths of a text: in bytes, with 30 bits, and in UTF-8 characters.\<close>

definition strlen30 :: "string \<Rightarrow> nat" where
  "strlen30 z = length (c_str z) mod 2 ^ 30"

definition utf8_start :: "char \<Rightarrow> bool" where
  "utf8_start c \<longleftrightarrow> (of_char c :: nat) div 64 \<noteq> 2"

definition strlenChar :: "string \<Rightarrow> nat" where
  "strlenChar z = length (filter utf8_start (c_str z))"

text \<open>
  \<^verbatim>\<open>isNumber\<close>: the result, and what is stored in \<^verbatim>\<open>realnum\<close>, \<open>None\<close> when nothing is.
\<close>

definition isNumber_exp :: "string \<Rightarrow> bool option \<Rightarrow> bool \<times> bool option" where
  "isNumber_exp z rn =
     (if cur z = CHR ''e'' \<or> cur z = CHR ''E'' then
        (let z = tl z;
             z = (if cur z = CHR ''+'' \<or> cur z = CHR ''-'' then tl z else z)
         in if \<not> isdigit (cur z) then (False, rn) else (cur (dropWhile isdigit z) = NUL, Some True))
      else (cur z = NUL, rn))"

definition isNumber :: "string \<Rightarrow> bool \<times> bool option" where
  "isNumber z =
     (let z = c_str z;
          z = (if cur z = CHR ''-'' \<or> cur z = CHR ''+'' then tl z else z)
      in if \<not> isdigit (cur z) then (False, None)
         else
           let z = dropWhile isdigit (tl z)
           in if cur z = CHR ''.'' then
                (let z = tl z
                 in if \<not> isdigit (cur z) then (False, Some False)
                    else isNumber_exp (dropWhile isdigit z) (Some True))
              else isNumber_exp z (Some False))"

definition hexDigitValue :: "char \<Rightarrow> int" where
  "hexDigitValue c =
     (let x = ord_char c
      in if 48 \<le> x \<and> x \<le> 57 then x - 48
         else if 97 \<le> x \<and> x \<le> 102 then x - 97 + 10
         else if 65 \<le> x \<and> x \<le> 70 then x - 65 + 10
         else - 1)"

text \<open>The two loops of \<^verbatim>\<open>integerValue\<close>: the value, which is a 64-bit integer, and the rest of the text.\<close>

fun hex_arg :: "int \<Rightarrow> string \<Rightarrow> int \<times> string" where
  "hex_arg v [] = (v, [])"
| "hex_arg v (c # z) = (if hexDigitValue c \<ge> 0 then hex_arg (to_s64 (16 * v + hexDigitValue c)) z else (v, c # z))"

fun dec_arg :: "int \<Rightarrow> string \<Rightarrow> int \<times> string" where
  "dec_arg v [] = (v, [])"
| "dec_arg v (c # z) = (if isdigit c then dec_arg (to_s64 (10 * v + ord_char c - 48)) z else (v, c # z))"

definition aMult :: "(string \<times> int) list" where
  "aMult =
     [(''KiB'', 1024), (''MiB'', 1024 * 1024), (''GiB'', 1024 * 1024 * 1024),
      (''KB'', 1000), (''MB'', 1000000), (''GB'', 1000000000),
      (''K'', 1000), (''M'', 1000000), (''G'', 1000000000)]"

definition stricmp_eq :: "string \<Rightarrow> string \<Rightarrow> bool" where
  "stricmp_eq a b \<longleftrightarrow> map tolower a = map tolower b"

definition integerValue :: "string \<Rightarrow> int" where
  "integerValue zArg =
     (let z = c_str zArg;
          isNeg = (cur z = CHR ''-'');
          z = (if cur z = CHR ''-'' \<or> cur z = CHR ''+'' then tl z else z);
          (v, z) = (if cur z = CHR ''0'' \<and> cur (tl z) = CHR ''x'' then hex_arg 0 (drop 2 z) else dec_arg 0 z);
          v = (case find (\<lambda>(s, _). stricmp_eq s z) aMult of
                 None \<Rightarrow> v
               | Some (_, m) \<Rightarrow> to_s64 (v * m))
      in if isNeg then to_s64 (- v) else v)"

text \<open>\<^verbatim>\<open>booleanValue\<close>: the value, and whether the text was none and is reported.\<close>

definition boolean_digits :: "string \<Rightarrow> string \<times> bool" where
  "boolean_digits z =
     (if cur z = CHR ''0'' \<and> cur (tl z) = CHR ''x''
      then (dropWhile (\<lambda>c. hexDigitValue c \<ge> 0) (drop 2 z), True)
      else (dropWhile isdigit z, isdigit (cur z)))"

definition booleanValue :: "string \<Rightarrow> int \<times> bool" where
  "booleanValue zArg =
     (let z = c_str zArg;
          (rest, some_digits) = boolean_digits z
      in if some_digits \<and> cur rest = NUL
         then ((integerValue z mod 2 ^ 32 + 2 ^ 31) mod 2 ^ 32 - 2 ^ 31, False)
         else if stricmp_eq z ''on'' \<or> stricmp_eq z ''yes'' then (1, False)
         else if stricmp_eq z ''off'' \<or> stricmp_eq z ''no'' then (0, False)
         else (0, True))"

section \<open>A text that grows\<close>

text \<open>
  \<^verbatim>\<open>ShellText\<close>.  The bytes before the terminator are \<open>st_z\<close>, so that \<^verbatim>\<open>n\<close> is their
  number; \<open>st_nAlloc\<close> is the size of the allocation, 0 while there is none.
\<close>

record ShellText =
  st_z :: string
  st_nAlloc :: nat

definition initText :: ShellText where
  "initText = \<lparr>st_z = [], st_nAlloc = 0\<rparr>"

definition appendText :: "ShellText \<Rightarrow> string \<Rightarrow> char \<Rightarrow> ShellText" where
  "appendText p zAppend quote =
     (let z = c_str zAppend;
          n = length (st_z p);
          len = length z + n + 1 + (if quote \<noteq> NUL then 2 + length (filter (\<lambda>c. c = quote) z) else 0);
          p = (if st_nAlloc p = 0 \<or> n + len \<ge> st_nAlloc p
               then p\<lparr>st_nAlloc := st_nAlloc p * 2 + len + 20\<rparr> else p)
      in if quote \<noteq> NUL
         then p\<lparr>st_z := st_z p @ [quote] @ concat (map (\<lambda>c. if c = quote then [c, quote] else [c]) z) @ [quote]\<rparr>
         else p\<lparr>st_z := st_z p @ z\<rparr>)"

text \<open>
  \<^verbatim>\<open>quoteChar\<close>: the quote an identifier needs.  Whether a word is a keyword is a
  question to the SQLite core.
\<close>

definition quoteChar :: "(string \<Rightarrow> bool) \<Rightarrow> string \<Rightarrow> char" where
  "quoteChar keyword_check zName =
     (let z = c_str zName
      in if \<not> isalpha (cur z) \<and> cur z \<noteq> CHR ''_'' then DQ
         else if \<exists>c \<in> set z. \<not> isalnum c \<and> c \<noteq> CHR ''_'' then DQ
         else if keyword_check z then DQ else NUL)"

end
