(* ===== verification/Shell_Rows.thy ===== *)
theory Shell_Rows
  imports Shell_Text Ieee
begin

text \<open>
  The rows of a query as the shell prints them: \<^verbatim>\<open>shell_callback\<close> of
  \<^verbatim>\<open>mvsqlite-sqlite3/shell.c\<close> with its output modes, and the graph of
  \<^verbatim>\<open>EXPLAIN QUERY PLAN\<close>.  The part of \<^verbatim>\<open>ShellState\<close> that it uses is a record in which
  \<^verbatim>\<open>out\<close> is the text written so far.  What it asks of the SQLite core about the current row is
  the record \<open>row_env\<close>.  The values of a row are NULL pointers or texts; column names are texts.
\<close>

section \<open>State\<close>

datatype output_mode =
    MODE_Line | MODE_Column | MODE_List | MODE_Semi | MODE_Html | MODE_Insert | MODE_Quote | MODE_Tcl | MODE_Csv
  | MODE_Explain | MODE_Ascii | MODE_Pretty | MODE_EQP | MODE_Json | MODE_Markdown | MODE_Table | MODE_Box
  | MODE_Count | MODE_Off

datatype column_type = TY_INTEGER | TY_FLOAT | TY_TEXT | TY_BLOB | TY_NULL

record EQPGraphRow =
  iEqpId :: int
  iParentId :: int
  zText :: string

record ShellState =
  out :: string
  cMode :: output_mode
  cnt :: nat
  showHeader :: bool
  newlines :: bool \<comment> \<open>\<^verbatim>\<open>SHFLG_Newlines\<close> of \<^verbatim>\<open>shellFlgs\<close>\<close>
  colSeparator :: string
  rowSeparator :: string
  nullValue :: string
  zDestTable :: string
  pStmt :: bool \<comment> \<open>is there a current statement?\<close>
  autoEQPtest :: bool
  sGraph :: "EQPGraphRow list"
  aiIndent :: "nat list option"
  iIndent :: nat

record row_env =
  column_double :: "nat \<Rightarrow> double"
  column_blob :: "nat \<Rightarrow> string"
  fmt_g20 :: "double \<Rightarrow> string" \<comment> \<open>\<^verbatim>\<open>sqlite3_snprintf()\<close> of \<^verbatim>\<open>%!.20g\<close>\<close>
  strglob :: "string \<Rightarrow> string \<Rightarrow> bool" \<comment> \<open>does \<^verbatim>\<open>sqlite3_strglob()\<close> return 0?\<close>
  strlike :: "string \<Rightarrow> string \<Rightarrow> bool"
  keyword_check :: "string \<Rightarrow> bool"

definition put :: "string \<Rightarrow> ShellState \<Rightarrow> ShellState" where
  "put s p = p\<lparr>out := out p @ s\<rparr>"

definition count_row :: "ShellState \<Rightarrow> ShellState" where
  "count_row p = p\<lparr>cnt := Suc (cnt p)\<rparr>"

text \<open>The column \<^verbatim>\<open>azArg[i]\<close>, or the text for NULL.\<close>

definition shown :: "ShellState \<Rightarrow> string option \<Rightarrow> string" where
  "shown p v = (case v of None \<Rightarrow> nullValue p | Some z \<Rightarrow> c_str z)"

text \<open>The elements of a row with their positions, and the text between them.\<close>

definition sep_text :: "string \<Rightarrow> string list \<Rightarrow> string" where
  "sep_text sep ts = (case ts of [] \<Rightarrow> [] | t # ts \<Rightarrow> t @ concat (map (\<lambda>t. sep @ t) ts))"

section \<open>Widths\<close>

text \<open>The loop of \<^verbatim>\<open>utf8_width_print\<close>: how many bytes make up \<^verbatim>\<open>aw\<close> characters, and how many characters there are.\<close>

fun width_loop :: "nat \<Rightarrow> nat \<Rightarrow> nat \<Rightarrow> string \<Rightarrow> nat \<times> nat" where
  "width_loop aw i n [] = (i, n)"
| "width_loop aw i n (c # z) =
     (if utf8_start c then
        (if Suc n = aw then (i + 1 + length (takeWhile (\<lambda>c. \<not> utf8_start c) z), Suc n)
         else width_loop aw (Suc i) (Suc n) z)
      else width_loop aw (Suc i) n z)"

definition utf8_width_print :: "int \<Rightarrow> string \<Rightarrow> string" where
  "utf8_width_print w zUtf =
     (let z = c_str zUtf; aw = nat \<bar>w\<bar>; (i, n) = width_loop aw 0 0 z
      in if n \<ge> aw then take i z
         else if w < 0 then replicate (aw - n) CHR '' '' @ z
         else z @ replicate (aw - n) CHR '' '')"

text \<open>\<^verbatim>\<open>print_dashes\<close> with its line of 50 dashes.\<close>

function print_dashes :: "nat \<Rightarrow> string" where
  "print_dashes N = (if N > 50 then replicate 50 CHR ''-'' @ print_dashes (N - 50) else replicate N CHR ''-'')"
  by pat_completeness auto
termination
  by (relation "measure id") auto

declare print_dashes.simps [simp del]

section \<open>Schemas\<close>

definition printSchemaLine :: "row_env \<Rightarrow> string option \<Rightarrow> string \<Rightarrow> string" where
  "printSchemaLine E z zTail =
     (case z of
        None \<Rightarrow> []
      | Some z \<Rightarrow>
          if strglob E (''CREATE TABLE ['' @ [SQ, DQ] @ '']*'') z
          then ''CREATE TABLE IF NOT EXISTS '' @ drop 13 (c_str z) @ zTail
          else c_str z @ zTail)"

fun wsToEol :: "string \<Rightarrow> bool" where
  "wsToEol [] \<longleftrightarrow> True"
| "wsToEol (c # z) \<longleftrightarrow>
     (if c = LF then True
      else if isspace c then wsToEol z
      else c = CHR ''-'' \<and> cur z = CHR ''-'')"

text \<open>
  The first loop of \<^verbatim>\<open>MODE_Pretty\<close>, which copies the statement within its buffer and drops
  spaces.  The bytes copied so far are in reverse order; leading spaces have been skipped before.
\<close>

fun pretty_squeeze :: "string \<Rightarrow> string \<Rightarrow> string" where
  "pretty_squeeze acc [] = acc"
| "pretty_squeeze acc (c # z) =
     (if isspace c then
        (let acc = (if cur acc = CR then LF # tl acc else acc)
         in if isspace (cur acc) \<or> cur acc = CHR ''('' then pretty_squeeze acc z
            else pretty_squeeze (c # acc) z)
      else if (c = CHR ''('' \<or> c = CHR '')'') \<and> acc \<noteq> [] \<and> isspace (cur acc)
      then pretty_squeeze (c # tl acc) z
      else pretty_squeeze (c # acc) z)"

record pretty_state =
  nParen :: int
  cEnd :: char
  nLine :: nat
  held :: string \<comment> \<open>\<^verbatim>\<open>z[0..j)\<close>\<close>
  lines :: string \<comment> \<open>printed so far\<close>

definition pretty_flush :: "row_env \<Rightarrow> string \<Rightarrow> pretty_state \<Rightarrow> pretty_state" where
  "pretty_flush E zTail s = s\<lparr>lines := lines s @ printSchemaLine E (Some (held s)) zTail, held := []\<rparr>"

text \<open>The quotes, comments and parentheses that one character opens or closes.\<close>

definition pretty_class :: "row_env \<Rightarrow> char \<Rightarrow> string \<Rightarrow> pretty_state \<Rightarrow> pretty_state" where
  "pretty_class E c z s =
     (if c = cEnd s then s\<lparr>cEnd := NUL\<rparr>
      else if c = DQ \<or> c = SQ \<or> c = CHR ''`'' then s\<lparr>cEnd := c\<rparr>
      else if c = CHR ''['' then s\<lparr>cEnd := CHR '']''\<rparr>
      else if c = CHR ''-'' \<and> cur z = CHR ''-'' then s\<lparr>cEnd := LF\<rparr>
      else if c = CHR ''('' then s\<lparr>nParen := nParen s + 1\<rparr>
      else if c = CHR '')'' then
        (let s = s\<lparr>nParen := nParen s - 1\<rparr>
         in if nLine s > 0 \<and> nParen s = 0 \<and> held s \<noteq> [] then pretty_flush E [LF] s else s)
      else s)"

function pretty_loop :: "row_env \<Rightarrow> string \<Rightarrow> pretty_state \<Rightarrow> pretty_state" where
  "pretty_loop E z s =
     (case z of
        [] \<Rightarrow> s
      | c # z \<Rightarrow>
          (let s = pretty_class E c z s;
               s = s\<lparr>held := held s @ [c]\<rparr>
           in if nParen s = 1 \<and> cEnd s = NUL \<and> (c = CHR ''('' \<or> c = LF \<or> (c = CHR '','' \<and> \<not> wsToEol z)) then
                (let s = (if c = LF then s\<lparr>held := butlast (held s)\<rparr> else s);
                     s = pretty_flush E (LF # ''  '') s
                 in pretty_loop E (dropWhile isspace z) (s\<lparr>nLine := Suc (nLine s)\<rparr>))
              else pretty_loop E z s))"
  by pat_completeness auto
termination
  by (relation "measure (\<lambda>(_, z, _). length z)")
    (auto simp: le_imp_less_Suc length_dropWhile_le)

declare pretty_loop.simps [simp del]

definition mode_pretty :: "row_env \<Rightarrow> string option \<Rightarrow> string" where
  "mode_pretty E z =
     (case z of
        None \<Rightarrow> []
      | Some z \<Rightarrow>
          if strlike E ''CREATE VIEW%'' z \<or> strlike E ''CREATE TRIG%'' z then c_str z @ '';'' @ [LF]
          else
            let z = rev (dropWhile isspace (pretty_squeeze [] (dropWhile isspace (c_str z))));
                s = (if strlen30 z \<ge> 79
                     then pretty_loop E z \<lparr>nParen = 0, cEnd = NUL, nLine = 0, held = [], lines = []\<rparr>
                     else \<lparr>nParen = 0, cEnd = NUL, nLine = 0, held = z, lines = []\<rparr>)
            in lines s @ printSchemaLine E (Some (held s)) ('';'' @ [LF]))"

section \<open>The graph of a query plan\<close>

definition eqp_append :: "int \<Rightarrow> int \<Rightarrow> string \<Rightarrow> ShellState \<Rightarrow> ShellState" where
  "eqp_append iEqp p2 text p =
     (let p = (if autoEQPtest p then put (fmt_int iEqp @ '','' @ fmt_int p2 @ '','' @ c_str text @ [LF]) p else p)
      in p\<lparr>sGraph := sGraph p @ [\<lparr>iEqpId = iEqp, iParentId = p2, zText = c_str text\<rparr>]\<rparr>)"

definition eqp_reset :: "ShellState \<Rightarrow> ShellState" where
  "eqp_reset p = p\<lparr>sGraph := []\<rparr>"

text \<open>
  \<^verbatim>\<open>eqp_render_level\<close>: the rows below one parent, given as the list that
  \<^verbatim>\<open>eqp_next_row\<close> walks through.  The prefix is kept in 100 bytes, which bounds the depth
  whatever the graph is.
\<close>

function eqp_siblings :: "EQPGraphRow list \<Rightarrow> string \<Rightarrow> EQPGraphRow list \<Rightarrow> string" where
  "eqp_siblings g zPrefix rs =
     (case rs of
        [] \<Rightarrow> []
      | r # rs \<Rightarrow>
          zPrefix @ (if rs \<noteq> [] then ''|--'' else ''`--'') @ zText r @ [LF] @
          (if length zPrefix < 100 - 7
           then eqp_siblings g (zPrefix @ (if rs \<noteq> [] then ''|  '' else ''   '')) (filter (\<lambda>q. iParentId q = iEqpId r) g)
           else []) @
          eqp_siblings g zPrefix rs)"
  by pat_completeness auto
termination
  by (relation "measures [\<lambda>(_, zPrefix, _). 100 - length zPrefix, \<lambda>(_, _, rs). length rs]") auto

declare eqp_siblings.simps [simp del]

definition eqp_render_level :: "EQPGraphRow list \<Rightarrow> string \<Rightarrow> int \<Rightarrow> string" where
  "eqp_render_level g zPrefix iEqp = eqp_siblings g zPrefix (filter (\<lambda>q. iParentId q = iEqp) g)"

definition eqp_render :: "ShellState \<Rightarrow> ShellState" where
  "eqp_render p =
     (case sGraph p of
        [] \<Rightarrow> p
      | r # rs \<Rightarrow>
          if cur (zText r) = CHR ''-'' then
            (if rs = [] then eqp_reset p
             else eqp_reset (put (drop 3 (zText r) @ [LF] @ eqp_render_level rs [] 0) p))
          else eqp_reset (put (''QUERY PLAN'' @ [LF] @ eqp_render_level (r # rs) [] 0) p))"

text \<open>\<^verbatim>\<open>atoi\<close>, for numbers that an \<^verbatim>\<open>int\<close> can hold.\<close>

definition atoi :: "string \<Rightarrow> int" where
  "atoi s =
     (let z = dropWhile isspace (c_str s);
          ds = takeWhile isdigit (if cur z = CHR ''-'' \<or> cur z = CHR ''+'' then tl z else z);
          v = foldl (\<lambda>v d. 10 * v + (ord_char d - 48)) 0 ds
      in if cur z = CHR ''-'' then - v else v)"

section \<open>CSV\<close>

text \<open>The table of the bytes that force quotes: the controls, space, the two quotes, and everything from 127 on.\<close>

definition needCsvQuote :: "nat list" where
  "needCsvQuote = replicate 32 1 @ [1, 0, 1, 0, 0, 0, 0, 1] @ replicate 87 0 @ [1] @ replicate 128 1"

text \<open>\<^verbatim>\<open>%w\<close> of \<^verbatim>\<open>sqlite3_mprintf\<close> doubles every double quote.\<close>

definition double_dq :: "string \<Rightarrow> string" where
  "double_dq z = concat (map (\<lambda>c. if c = DQ then [DQ, DQ] else [c]) z)"

definition output_csv :: "ShellState \<Rightarrow> string option \<Rightarrow> bool \<Rightarrow> string" where
  "output_csv p v bSep =
     (case v of
        None \<Rightarrow> nullValue p
      | Some z \<Rightarrow>
          (let z = c_str z
           in if z = [] \<or> (\<exists>c \<in> set z. needCsvQuote ! of_char c \<noteq> 0) \<or> strstr z (colSeparator p)
              then [DQ] @ double_dq z @ [DQ]
              else z)) @
     (if bSep then colSeparator p else [])"

section \<open>One row\<close>

definition is_type :: "column_type list option \<Rightarrow> nat \<Rightarrow> column_type \<Rightarrow> bool" where
  "is_type aiType i t \<longleftrightarrow> (case aiType of None \<Rightarrow> False | Some ts \<Rightarrow> ts ! i = t)"

text \<open>
  \<^verbatim>\<open>(sqlite3_int64)r\<close> of a double, with the result of a 64-bit processor outside the range, and
  \<^verbatim>\<open>r==(double)ir\<close>.
\<close>

definition dbl_int64 :: "double \<Rightarrow> int" where
  "dbl_int64 r =
     (let v = double_val r; i = (if v < 0 then - \<lfloor>- v\<rfloor> else \<lfloor>v\<rfloor>)
      in if dbl_finite r \<and> s64 i then i else - (2 ^ 63))"

definition dbl_is_int :: "double \<Rightarrow> int \<Rightarrow> bool" where
  "dbl_is_int r i \<longleftrightarrow> dbl_finite r \<and> double_val r = of_int i"

definition quote_value :: "ShellState \<Rightarrow> string \<Rightarrow> string" where
  "quote_value p z =
     (if newlines p then output_quoted_string z
      else case output_quoted_escaped_string z of None \<Rightarrow> [] | Some t \<Rightarrow> t)"

definition insert_float :: "row_env \<Rightarrow> double \<Rightarrow> string" where
  "insert_float E r =
     (if uint r = 0x7ff0000000000000 then ''1e999''
      else if uint r = 0xfff0000000000000 then ''-1e999''
      else if dbl_is_int r (dbl_int64 r) then fmt_int (dbl_int64 r) @ ''.0''
      else fmt_g20 E r)"

definition insert_value :: "row_env \<Rightarrow> ShellState \<Rightarrow> column_type list option \<Rightarrow> nat \<Rightarrow> string option \<Rightarrow> string" where
  "insert_value E p aiType i v =
     (case v of
        None \<Rightarrow> ''NULL''
      | Some z \<Rightarrow>
          if is_type aiType i TY_NULL then ''NULL''
          else if is_type aiType i TY_TEXT then quote_value p z
          else if is_type aiType i TY_INTEGER then c_str z
          else if is_type aiType i TY_FLOAT then insert_float E (column_double E i)
          else if is_type aiType i TY_BLOB \<and> pStmt p then output_hex_blob (column_blob E i)
          else if fst (isNumber z) then c_str z
          else quote_value p z)"

definition json_float :: "row_env \<Rightarrow> double \<Rightarrow> string" where
  "json_float E r =
     (if uint r = 0x7ff0000000000000 then ''1e999''
      else if uint r = 0xfff0000000000000 then ''-1e999''
      else fmt_g20 E r)"

definition json_field :: "row_env \<Rightarrow> ShellState \<Rightarrow> column_type list option \<Rightarrow> nat \<Rightarrow> string option \<Rightarrow> string" where
  "json_field E p aiType i v =
     (case v of
        None \<Rightarrow> ''null''
      | Some z \<Rightarrow>
          if is_type aiType i TY_NULL then ''null''
          else if is_type aiType i TY_FLOAT then json_float E (column_double E i)
          else if is_type aiType i TY_BLOB \<and> pStmt p then output_json_string (column_blob E i) (int (length (column_blob E i)))
          else if is_type aiType i TY_TEXT then output_json_string z (- 1)
          else c_str z)"

definition mode_quote_value :: "row_env \<Rightarrow> ShellState \<Rightarrow> column_type list option \<Rightarrow> nat \<Rightarrow> string option \<Rightarrow> string" where
  "mode_quote_value E p aiType i v =
     (case v of
        None \<Rightarrow> ''NULL''
      | Some z \<Rightarrow>
          if is_type aiType i TY_NULL then ''NULL''
          else if is_type aiType i TY_TEXT then output_quoted_string z
          else if is_type aiType i TY_INTEGER then c_str z
          else if is_type aiType i TY_FLOAT then fmt_g20 E (column_double E i)
          else if is_type aiType i TY_BLOB \<and> pStmt p then output_hex_blob (column_blob E i)
          else if fst (isNumber z) then c_str z
          else output_quoted_string z)"

definition insert_name :: "row_env \<Rightarrow> string \<Rightarrow> string" where
  "insert_name E z = (if quoteChar (keyword_check E) z \<noteq> NUL then [DQ] @ double_dq (c_str z) @ [DQ] else c_str z)"

text \<open>
  The cases of \<^verbatim>\<open>shell_callback\<close>.  Each gives the text that it writes for a row with the
  values \<open>vs\<close> and the column names \<open>cs\<close>; \<open>first\<close> tells whether \<^verbatim>\<open>p->cnt\<close> was 0 before.
\<close>

definition indexed :: "'a list \<Rightarrow> (nat \<times> 'a) list" where
  "indexed xs = zip [0..<length xs] xs"

definition mode_line :: "ShellState \<Rightarrow> string list \<Rightarrow> string option list \<Rightarrow> string" where
  "mode_line p cs vs =
     (let w = fold max (map strlen30 cs) 5
      in (if cnt p > 0 then rowSeparator p else []) @
         concat (map (\<lambda>(c, v). replicate (w - length (c_str c)) CHR '' '' @ c_str c @ '' = '' @ shown p v @ rowSeparator p)
           (zip cs vs)))"

definition aExplainWidth :: "nat list" where
  "aExplainWidth = [4, 13, 4, 4, 4, 13, 2, 13]"

definition explain_end :: "nat \<Rightarrow> nat \<Rightarrow> string" where
  "explain_end n i = (if i = n - 1 then [LF] else ''  '')"

definition explain_cell :: "ShellState \<Rightarrow> nat \<Rightarrow> nat \<times> string option \<Rightarrow> string" where
  "explain_cell p n = (\<lambda>(i, v).
     (let w = (if i = n - 1 then 0 else aExplainWidth ! i);
          w = (case v of None \<Rightarrow> w | Some z \<Rightarrow> max w (strlenChar z));
          indent = (case aiIndent p of
                      Some ai \<Rightarrow> if i = 1 \<and> pStmt p \<and> iIndent p < length ai then replicate (ai ! iIndent p) CHR '' '' else []
                    | None \<Rightarrow> [])
      in indent @ utf8_width_print (int w) (shown p v) @ explain_end n i))"

definition mode_explain :: "ShellState \<Rightarrow> string list \<Rightarrow> string option list \<Rightarrow> ShellState" where
  "mode_explain p cs vs =
     (let n = min (length vs) (length aExplainWidth);
          header = (if cnt p = 0
            then concat (map (\<lambda>(i, c). utf8_width_print (int (aExplainWidth ! i)) c @ explain_end n i) (indexed (take n cs))) @
                 concat (map (\<lambda>i. print_dashes (aExplainWidth ! i) @ explain_end n i) [0..<n])
            else []);
          row = concat (map (explain_cell p n) (indexed (take n vs)));
          p = put (header @ row) (count_row p)
      in if aiIndent p \<noteq> None \<and> pStmt p \<and> 1 < n then p\<lparr>iIndent := Suc (iIndent p)\<rparr> else p)"

definition mode_list :: "ShellState \<Rightarrow> string list \<Rightarrow> string option list \<Rightarrow> string" where
  "mode_list p cs vs =
     (let line = (\<lambda>ts. if ts = [] then [] else sep_text (colSeparator p) ts @ rowSeparator p)
      in (if cnt p = 0 \<and> showHeader p then line (map c_str cs) else []) @ line (map (shown p) vs))"

definition mode_html :: "ShellState \<Rightarrow> string list \<Rightarrow> string option list \<Rightarrow> string" where
  "mode_html p cs vs =
     (if cnt p = 0 \<and> showHeader p
      then ''<TR>'' @ concat (map (\<lambda>c. ''<TH>'' @ output_html_string (Some c) @ ''</TH>'' @ [LF]) cs) @ ''</TR>'' @ [LF]
      else []) @
     ''<TR>'' @ concat (map (\<lambda>v. ''<TD>'' @ output_html_string (Some (shown p v)) @ ''</TD>'' @ [LF]) vs) @ ''</TR>'' @ [LF]"

definition mode_tcl :: "ShellState \<Rightarrow> string list \<Rightarrow> string option list \<Rightarrow> string" where
  "mode_tcl p cs vs =
     (if cnt p = 0 \<and> showHeader p
      then sep_text (colSeparator p) (map output_c_string cs) @ rowSeparator p else []) @
     sep_text (colSeparator p) (map (\<lambda>v. output_c_string (shown p v)) vs) @ rowSeparator p"

definition csv_line :: "ShellState \<Rightarrow> string option list \<Rightarrow> string" where
  "csv_line p vs = concat (map (\<lambda>(i, v). output_csv p v (i < length vs - 1)) (indexed vs)) @ rowSeparator p"

definition mode_csv :: "ShellState \<Rightarrow> string list \<Rightarrow> string option list \<Rightarrow> string" where
  "mode_csv p cs vs =
     (if cnt p = 0 \<and> showHeader p then csv_line p (map Some cs) else []) @
     (if vs \<noteq> [] then csv_line p vs else [])"

definition mode_insert :: "row_env \<Rightarrow> ShellState \<Rightarrow> column_type list option \<Rightarrow> string list \<Rightarrow> string option list \<Rightarrow> string" where
  "mode_insert E p aiType cs vs =
     ''INSERT INTO '' @ zDestTable p @
     (if showHeader p then ''('' @ sep_text '','' (map (insert_name E) cs) @ '')'' else []) @
     concat (map (\<lambda>(i, v). (if i > 0 then '','' else '' VALUES('') @ insert_value E p aiType i v) (indexed vs)) @
     '');'' @ [LF]"

definition mode_json :: "row_env \<Rightarrow> ShellState \<Rightarrow> column_type list option \<Rightarrow> string list \<Rightarrow> string option list \<Rightarrow> string" where
  "mode_json E p aiType cs vs =
     (if cnt p = 0 then ''[{'' else '','' @ [LF] @ ''{'') @
     sep_text '','' (map (\<lambda>(c, i, v). output_json_string c (- 1) @ '':'' @ json_field E p aiType i v) (zip cs (indexed vs))) @
     ''}''"

definition mode_quote :: "row_env \<Rightarrow> ShellState \<Rightarrow> column_type list option \<Rightarrow> string list \<Rightarrow> string option list \<Rightarrow> string" where
  "mode_quote E p aiType cs vs =
     (if cnt p = 0 \<and> showHeader p
      then sep_text (colSeparator p) (map output_quoted_string cs) @ rowSeparator p else []) @
     sep_text (colSeparator p) (map (\<lambda>(i, v). mode_quote_value E p aiType i v) (indexed vs)) @ rowSeparator p"

definition mode_ascii :: "ShellState \<Rightarrow> string list \<Rightarrow> string option list \<Rightarrow> string" where
  "mode_ascii p cs vs =
     (if cnt p = 0 \<and> showHeader p
      then sep_text (colSeparator p) (map c_str cs) @ rowSeparator p else []) @
     sep_text (colSeparator p) (map (shown p) vs) @ rowSeparator p"

text \<open>
  \<^verbatim>\<open>shell_callback\<close>, which always returns 0.  \<^verbatim>\<open>azArg\<close> itself may be NULL.  The modes that print in
  columns are handled elsewhere and print nothing here.
\<close>

definition shell_callback ::
  "row_env \<Rightarrow> ShellState \<Rightarrow> string option list option \<Rightarrow> string list \<Rightarrow> column_type list option \<Rightarrow> ShellState" where
  "shell_callback E p azArg azCol aiType =
     (case azArg of
        None \<Rightarrow> p
      | Some vs \<Rightarrow>
          (case cMode p of
             MODE_Line \<Rightarrow> put (mode_line p azCol vs) (count_row p)
           | MODE_Explain \<Rightarrow> mode_explain p azCol vs
           | MODE_Semi \<Rightarrow> put (printSchemaLine E (vs ! 0) ('';'' @ [LF])) p
           | MODE_Pretty \<Rightarrow> put (mode_pretty E (vs ! 0)) p
           | MODE_List \<Rightarrow> put (mode_list p azCol vs) (count_row p)
           | MODE_Html \<Rightarrow> put (mode_html p azCol vs) (count_row p)
           | MODE_Tcl \<Rightarrow> put (mode_tcl p azCol vs) (count_row p)
           | MODE_Csv \<Rightarrow> put (mode_csv p azCol vs) (count_row p)
           | MODE_Insert \<Rightarrow> put (mode_insert E p aiType azCol vs) (count_row p)
           | MODE_Json \<Rightarrow> put (mode_json E p aiType azCol vs) (count_row p)
           | MODE_Quote \<Rightarrow> put (mode_quote E p aiType azCol vs) (count_row p)
           | MODE_Ascii \<Rightarrow> put (mode_ascii p azCol vs) (count_row p)
           | MODE_EQP \<Rightarrow> eqp_append (atoi (the (vs ! 0))) (atoi (the (vs ! 1))) (the (vs ! 3)) p
           | _ \<Rightarrow> p))"

text \<open>The rows of a query, one after the other.\<close>

definition print_rows ::
  "row_env \<Rightarrow> string list \<Rightarrow> (string option list \<times> column_type list option) list \<Rightarrow> ShellState \<Rightarrow> ShellState" where
  "print_rows E azCol rows p = fold (\<lambda>(vs, ts) p. shell_callback E p (Some vs) azCol ts) rows p"

end
