(* ===== verification/Shell_Import.thy ===== *)
theory Shell_Import
  imports Shell_Text
begin

text \<open>
  The command \<^verbatim>\<open>.import\<close> of the shell: reading fields of CSV and of ASCII-delimited text, and
  the loop that turns fields into rows.  \<^verbatim>\<open>ImportCtx\<close> is a record; the stream is the list of the
  bytes not yet read, and \<^verbatim>\<open>z\<close> with \<^verbatim>\<open>n\<close> is the list of the bytes before the terminator, or NULL.
  Rows go into an INSERT statement of the SQLite core; whether the core accepts a row is an argument.
\<close>

section \<open>State\<close>

record ImportCtx =
  zFile :: string
  inp :: string
  zbuf :: "string option"
  nAlloc :: nat
  ic_nLine :: nat
  nRow :: nat
  nErr :: nat
  bNotFirst :: bool
  cTerm :: int
  cColSep :: int
  cRowSep :: int
  errs :: "string list" \<comment> \<open>lines written to \<^verbatim>\<open>stderr\<close>\<close>

abbreviation EOF :: int where "EOF \<equiv> - 1"

definition fgetc :: "ImportCtx \<Rightarrow> int \<times> ImportCtx" where
  "fgetc p = (case inp p of [] \<Rightarrow> (EOF, p) | c # r \<Rightarrow> (ord_char c, p\<lparr>inp := r\<rparr>))"

definition field :: "ImportCtx \<Rightarrow> string" where
  "field p = (case zbuf p of None \<Rightarrow> [] | Some z \<Rightarrow> z)"

definition warn :: "string \<Rightarrow> ImportCtx \<Rightarrow> ImportCtx" where
  "warn m p = p\<lparr>errs := errs p @ [m]\<rparr>"

text \<open>The message \<^verbatim>\<open>%s:%d: ...\<close> with the file and a line.\<close>

definition at_line :: "ImportCtx \<Rightarrow> nat \<Rightarrow> string \<Rightarrow> string" where
  "at_line p n m = zFile p @ '':'' @ fmt_int (int n) @ '': '' @ m @ [LF]"

definition import_append_char :: "int \<Rightarrow> ImportCtx \<Rightarrow> ImportCtx" where
  "import_append_char c p =
     (let p = (if length (field p) + 1 \<ge> nAlloc p then p\<lparr>nAlloc := nAlloc p + nAlloc p + 100\<rparr> else p)
      in p\<lparr>zbuf := Some (field p @ [char_of (nat (c mod 256))])\<rparr>)"

section \<open>Fields of CSV\<close>

text \<open>\<^verbatim>\<open>do{ p->n--; }while( p->z[p->n]!=cQuote );\<close>\<close>

definition drop_quote :: "string \<Rightarrow> string" where
  "drop_quote z = rev (tl (dropWhile (\<lambda>c. c \<noteq> DQ) (rev z)))"

definition count_line :: "int \<Rightarrow> ImportCtx \<Rightarrow> ImportCtx" where
  "count_line c p = (if c = cRowSep p then p\<lparr>ic_nLine := Suc (ic_nLine p)\<rparr> else p)"

definition warn_unescaped :: "int \<Rightarrow> int \<Rightarrow> ImportCtx \<Rightarrow> ImportCtx" where
  "warn_unescaped c pc p =
     (if pc = 34 \<and> c \<noteq> 13 then warn (at_line p (ic_nLine p) (''unescaped '' @ [DQ] @ '' character'')) p else p)"

definition warn_unterminated :: "nat \<Rightarrow> ImportCtx \<Rightarrow> ImportCtx" where
  "warn_unterminated startLine p = warn (at_line p startLine (''unterminated '' @ [DQ] @ ''-quoted field'')) p"

text \<open>The condition under which a character ends a quoted field.\<close>

definition ends_quoted :: "ImportCtx \<Rightarrow> int \<Rightarrow> int \<Rightarrow> int \<Rightarrow> bool" where
  "ends_quoted p c pc ppc \<longleftrightarrow>
     (c = cColSep p \<and> pc = 34) \<or> (c = cRowSep p \<and> pc = 34) \<or>
     (c = cRowSep p \<and> pc = 13 \<and> ppc = 34) \<or> (c = EOF \<and> pc = 34)"

text \<open>
  One turn of the loop over a quoted field, with the character just read: \<open>Inl\<close> ends the loop,
  \<open>Inr\<close> goes on with new values of \<^verbatim>\<open>pc\<close> and \<^verbatim>\<open>ppc\<close>.  \<^verbatim>\<open>cQuote\<close> is always the double quote, 34.
\<close>

definition csv_quoted_step :: "nat \<Rightarrow> int \<Rightarrow> int \<Rightarrow> int \<Rightarrow> ImportCtx \<Rightarrow> ImportCtx + int \<times> int \<times> ImportCtx" where
  "csv_quoted_step startLine c pc ppc p =
     (if c = 34 \<and> pc = 34 then Inr (0, ppc, count_line c p)
      else if ends_quoted p c pc ppc
      then Inl ((count_line c p)\<lparr>zbuf := Some (drop_quote (field (count_line c p))), cTerm := c\<rparr>)
      else if c = EOF
      then Inl ((warn_unterminated startLine (warn_unescaped c pc (count_line c p)))\<lparr>cTerm := c\<rparr>)
      else Inr (c, pc, import_append_char c (warn_unescaped c pc (count_line c p))))"

fun csv_quoted :: "nat \<Rightarrow> int \<Rightarrow> int \<Rightarrow> string \<Rightarrow> ImportCtx \<Rightarrow> ImportCtx" where
  "csv_quoted startLine pc ppc [] p =
     (case csv_quoted_step startLine EOF pc ppc p of
        Inl p \<Rightarrow> p\<lparr>inp := []\<rparr>
      | Inr (pc, ppc, p) \<Rightarrow> p\<lparr>inp := []\<rparr>)"
| "csv_quoted startLine pc ppc (b # r) p =
     (case csv_quoted_step startLine (ord_char b) pc ppc p of
        Inl p \<Rightarrow> p\<lparr>inp := r\<rparr>
      | Inr (pc, ppc, p) \<Rightarrow> csv_quoted startLine pc ppc r p)"

text \<open>
  The loop over a field without quotes, from the character that is at hand.  It gives the
  character that ends the field.
\<close>

function plain_loop :: "int \<Rightarrow> ImportCtx \<Rightarrow> int \<times> ImportCtx" where
  "plain_loop c p =
     (if c \<noteq> EOF \<and> c \<noteq> cColSep p \<and> c \<noteq> cRowSep p
      then (let (c', p') = fgetc (import_append_char c p) in plain_loop c' p')
      else (c, p))"
  by pat_completeness auto
termination
proof (relation "measure (\<lambda>(c, p). length (inp p) + (if c = EOF then 0 else 1))")
  fix c :: int and p :: ImportCtx and x c' p'
  assume c: "c \<noteq> EOF \<and> c \<noteq> cColSep p \<and> c \<noteq> cRowSep p" and x: "x = fgetc (import_append_char c p)" "(c', p') = x"
  have "inp (import_append_char c p) = inp p" by (simp add: import_append_char_def Let_def)
  then show "((c', p'), c, p) \<in> measure (\<lambda>(c, p). length (inp p) + (if c = EOF then 0 else 1))"
    using c x by (cases "inp p") (auto simp: fgetc_def)
qed simp

declare plain_loop.simps [simp del]

definition csv_plain :: "int \<Rightarrow> ImportCtx \<Rightarrow> ImportCtx" where
  "csv_plain c p =
     (let (c, p) = plain_loop c p;
          p = (if c = cRowSep p then
                 (let p = p\<lparr>ic_nLine := Suc (ic_nLine p)\<rparr>
                  in if field p \<noteq> [] \<and> last (field p) = CR then p\<lparr>zbuf := Some (butlast (field p))\<rparr> else p)
               else p)
      in p\<lparr>cTerm := c\<rparr>)"

text \<open>\<^verbatim>\<open>p->n = 0\<close> keeps the buffer.\<close>

definition clear_field :: "ImportCtx \<Rightarrow> ImportCtx" where
  "clear_field p = p\<lparr>zbuf := map_option (\<lambda>_. []) (zbuf p)\<rparr>"

text \<open>\<^verbatim>\<open>csv_read_one_field\<close>; the second value of the result is the state.  It calls itself once, after a byte order mark.\<close>

function csv_read_one_field :: "bool \<Rightarrow> ImportCtx \<Rightarrow> string option \<times> ImportCtx" where
  "csv_read_one_field seenInterrupt p =
     (let (c, p1) = fgetc (clear_field p);
          done = (\<lambda>p. (zbuf p, p\<lparr>bNotFirst := True\<rparr>))
      in if c = EOF \<or> seenInterrupt then (None, p1\<lparr>cTerm := EOF\<rparr>)
         else if c = 34 then done (csv_quoted (ic_nLine p1) 0 0 (inp p1) p1)
         else if c = 0xef \<and> \<not> bNotFirst p then
           (let (c2, p2) = fgetc (import_append_char c p1)
            in if c2 = 0xbb then
                 (let (c3, p3) = fgetc (import_append_char c2 p2)
                  in if c3 = 0xbf then csv_read_one_field seenInterrupt (clear_field (p3\<lparr>bNotFirst := True\<rparr>))
                     else done (csv_plain c3 p3))
               else done (csv_plain c2 p2))
         else done (csv_plain c p1))"
  by pat_completeness auto
termination
  by (relation "measure (\<lambda>(_, p). if bNotFirst p then 0 else 1)") (auto simp: clear_field_def)

declare csv_read_one_field.simps [simp del]

definition ascii_read_one_field :: "bool \<Rightarrow> ImportCtx \<Rightarrow> string option \<times> ImportCtx" where
  "ascii_read_one_field seenInterrupt p =
     (let (c, p) = fgetc (clear_field p)
      in if c = EOF \<or> seenInterrupt then (None, p\<lparr>cTerm := EOF\<rparr>)
         else
           let (c, p) = plain_loop c p;
               p = (if c = cRowSep p then p\<lparr>ic_nLine := Suc (ic_nLine p)\<rparr> else p)
           in (zbuf p, p\<lparr>cTerm := c\<rparr>))"

section \<open>The command\<close>

text \<open>
  The options of \<^verbatim>\<open>.import\<close>.  A reader is chosen by the output mode and by the options; \<open>Inl\<close> is the message
  of an error, after which the usage is shown.
\<close>

record import_opts =
  o_file :: "string option"
  o_table :: "string option"
  o_schema :: "string option"
  o_verbose :: nat
  o_skip :: int
  o_ascii :: bool \<comment> \<open>is \<^verbatim>\<open>xRead\<close> the reader for ASCII-delimited text?\<close>
  o_seps :: "(int \<times> int) option" \<comment> \<open>\<^verbatim>\<open>cColSep\<close> and \<^verbatim>\<open>cRowSep\<close>, unless they come from the output mode\<close>

fun import_args :: "string list \<Rightarrow> import_opts \<Rightarrow> string + import_opts" where
  "import_args [] o1 =
     (case o_table o1 of
        None \<Rightarrow> Inl (''ERROR: missing '' @ (if o_file o1 = None then ''FILE'' else ''TABLE'') @ '' argument. Usage:'' @ [LF])
      | Some _ \<Rightarrow> Inr o1)"
| "import_args (a # as) o1 =
     (let z = (if cur a = CHR ''-'' \<and> cur (tl a) = CHR ''-'' then tl a else a)
      in if cur z \<noteq> CHR ''-'' then
           (if o_file o1 = None then import_args as (o1\<lparr>o_file := Some z\<rparr>)
            else if o_table o1 = None then import_args as (o1\<lparr>o_table := Some z\<rparr>)
            else Inl (''ERROR: extra argument: '' @ [DQ] @ z @ [DQ] @ ''.  Usage:'' @ [LF]))
         else if z = ''-v'' then import_args as (o1\<lparr>o_verbose := Suc (o_verbose o1)\<rparr>)
         else if z = ''-schema'' \<and> as \<noteq> [] then import_args (tl as) (o1\<lparr>o_schema := Some (hd as)\<rparr>)
         else if z = ''-skip'' \<and> as \<noteq> [] then
           import_args (tl as) (o1\<lparr>o_skip := (integerValue (hd as) + 2 ^ 31) mod 2 ^ 32 - 2 ^ 31\<rparr>)
         else if z = ''-ascii'' then import_args as (o1\<lparr>o_ascii := True, o_seps := Some (0x1F, 0x1E)\<rparr>)
         else if z = ''-csv'' then import_args as (o1\<lparr>o_ascii := False, o_seps := Some (44, 10)\<rparr>)
         else Inl (''ERROR: unknown option: '' @ [DQ] @ z @ [DQ] @ ''.  Usage:'' @ [LF]))"

definition import_opts0 :: "bool \<Rightarrow> import_opts" where
  "import_opts0 mode_ascii =
     \<lparr>o_file = None, o_table = None, o_schema = None, o_verbose = 0, o_skip = 0, o_ascii = mode_ascii, o_seps = None\<rparr>"

text \<open>A \<^verbatim>\<open>char\<close> that is assigned to an \<^verbatim>\<open>int\<close> keeps its sign.\<close>

definition signed_char :: "char \<Rightarrow> int" where
  "signed_char c = (ord_char c + 128) mod 256 - 128"

text \<open>
  The separators from the output mode: \<open>Inl\<close> is an error; otherwise the two characters and the row separator that is kept.
\<close>

definition import_separators :: "bool \<Rightarrow> string \<Rightarrow> string \<Rightarrow> string + int \<times> int \<times> string" where
  "import_separators mode_csv colSep rowSep =
     (if strlen30 colSep = 0 then Inl (''Error: non-null column separator required for import'' @ [LF])
      else if strlen30 colSep > 1
      then Inl (''Error: multi-character column separators not allowed for import'' @ [LF])
      else if strlen30 rowSep = 0 then Inl (''Error: non-null row separator required for import'' @ [LF])
      else
        let rowSep = (if strlen30 rowSep = 2 \<and> mode_csv \<and> c_str rowSep = [CR, LF] then [LF] else rowSep)
        in if strlen30 rowSep > 1
           then Inl (''Error: multi-character row separators not allowed for import'' @ [LF])
           else Inr (signed_char (cur colSep), signed_char (cur rowSep), rowSep))"

definition xRead :: "bool \<Rightarrow> bool \<Rightarrow> ImportCtx \<Rightarrow> string option \<times> ImportCtx" where
  "xRead ascii seenInterrupt p = (if ascii then ascii_read_one_field seenInterrupt p else csv_read_one_field seenInterrupt p)"

definition warn_short :: "nat \<Rightarrow> nat \<Rightarrow> nat \<Rightarrow> ImportCtx \<Rightarrow> ImportCtx" where
  "warn_short startLine nCol i p =
     warn (at_line p startLine (''expected '' @ fmt_int (int nCol) @ '' columns but found '' @ fmt_int (int i + 1) @
       '' - filling the rest with NULL'')) p"

definition warn_extras :: "nat \<Rightarrow> nat \<Rightarrow> nat \<times> ImportCtx \<Rightarrow> nat \<times> ImportCtx" where
  "warn_extras startLine nCol = (\<lambda>(i, p).
     (i, warn (at_line p startLine (''expected '' @ fmt_int (int nCol) @ '' columns but found '' @ fmt_int (int i) @
       '' - extras ignored'')) p))"

text \<open>
  The columns of one row.  \<open>k\<close> columns are left after \<open>i\<close>; \<open>bound\<close> are the parameters of the statement.
  When a row is too short the rest is bound to NULL, and \<^verbatim>\<open>i\<close> is left beyond the last column.
\<close>

fun import_columns ::
  "bool \<Rightarrow> bool \<Rightarrow> nat \<Rightarrow> nat \<Rightarrow> nat \<Rightarrow> nat \<Rightarrow> string option list \<Rightarrow> ImportCtx \<Rightarrow> nat \<times> string option list \<times> ImportCtx" where
  "import_columns ascii mode_ascii nCol startLine 0 i bound p = (i, bound, p)"
| "import_columns ascii mode_ascii nCol startLine (Suc k) i bound p =
     (let (z, p) = xRead ascii False p
      in if z = None \<and> i = 0 then (i, bound, p)
         else if mode_ascii \<and> (z = None \<or> cur (the z) = NUL) \<and> i = 0 then (i, bound, p)
         else
           let bound = bound[i := map_option c_str z]
           in if i < nCol - 1 \<and> cTerm p \<noteq> cColSep p then
                (nCol + 2, take (Suc i) bound @ replicate (nCol - Suc i) None,
                 warn_short startLine nCol i p)
              else import_columns ascii mode_ascii nCol startLine k (Suc i) bound p)"

text \<open>The loop over extra columns; \<open>None\<close> when the tries do not suffice.\<close>

fun import_extras :: "nat \<Rightarrow> bool \<Rightarrow> nat \<Rightarrow> ImportCtx \<Rightarrow> (nat \<times> ImportCtx) option" where
  "import_extras 0 ascii i p = None"
| "import_extras (Suc tries) ascii i p =
     (let (z, p) = xRead ascii False p
      in if cTerm p = cColSep p then import_extras tries ascii (Suc i) p else Some (Suc i, p))"

text \<open>
  The statement runs when all columns are bound.  \<open>rejects\<close> is the answer of the core to a row, after the rows inserted before:
  \<open>None\<close> when it is inserted, otherwise the error message.
\<close>

definition import_insert ::
  "(string option list list \<Rightarrow> string option list \<Rightarrow> string option) \<Rightarrow> nat \<Rightarrow> nat \<Rightarrow> string option list list \<Rightarrow>
   string option list \<Rightarrow> nat \<times> ImportCtx \<Rightarrow> string option list list \<times> string option list \<times> ImportCtx" where
  "import_insert rejects startLine nCol rows bound = (\<lambda>(i, p).
     (if i \<ge> nCol then
        (case rejects rows bound of
           Some e \<Rightarrow> (rows, bound, (warn (at_line p startLine (''INSERT failed: '' @ e)) p)\<lparr>nErr := Suc (nErr p)\<rparr>)
         | None \<Rightarrow> (rows @ [bound], bound, p\<lparr>nRow := Suc (nRow p)\<rparr>))
      else (rows, bound, p)))"

text \<open>One turn of the loop over rows.\<close>

definition import_row ::
  "nat \<Rightarrow> (string option list list \<Rightarrow> string option list \<Rightarrow> string option) \<Rightarrow> bool \<Rightarrow> bool \<Rightarrow> nat \<Rightarrow>
   string option list list \<times> string option list \<times> ImportCtx \<Rightarrow>
   (string option list list \<times> string option list \<times> ImportCtx) option" where
  "import_row tries rejects ascii mode_ascii nCol = (\<lambda>(rows, bound, p).
     (let startLine = ic_nLine p;
          (i, bound, p) = import_columns ascii mode_ascii nCol startLine nCol 0 bound p
      in map_option (import_insert rejects startLine nCol rows bound)
           (if cTerm p = cColSep p
            then map_option (warn_extras startLine nCol) (import_extras tries ascii i p)
            else Some (i, p))))"

fun import_rows ::
  "nat \<Rightarrow> (string option list list \<Rightarrow> string option list \<Rightarrow> string option) \<Rightarrow> bool \<Rightarrow> bool \<Rightarrow> nat \<Rightarrow>
   string option list list \<times> string option list \<times> ImportCtx \<Rightarrow>
   (string option list list \<times> string option list \<times> ImportCtx) option" where
  "import_rows 0 rejects ascii mode_ascii nCol s = None"
| "import_rows (Suc tries) rejects ascii mode_ascii nCol s =
     (case import_row (Suc tries) rejects ascii mode_ascii nCol s of
        None \<Rightarrow> None
      | Some (rows, bound, p) \<Rightarrow>
          if cTerm p = EOF then Some (rows, bound, p)
          else import_rows tries rejects ascii mode_ascii nCol (rows, bound, p))"

text \<open>The lines that \<^verbatim>\<open>--skip\<close> passes over, again with a number of tries for the fields of a line.\<close>

fun skip_line :: "nat \<Rightarrow> bool \<Rightarrow> ImportCtx \<Rightarrow> ImportCtx option" where
  "skip_line 0 ascii p = None"
| "skip_line (Suc tries) ascii p =
     (let (z, p) = xRead ascii False p
      in if z \<noteq> None \<and> cTerm p = cColSep p then skip_line tries ascii p else Some p)"

fun import_skip :: "nat \<Rightarrow> bool \<Rightarrow> ImportCtx \<Rightarrow> ImportCtx option" where
  "import_skip 0 ascii p = Some p"
| "import_skip (Suc n) ascii p = Option.bind (skip_line (Suc (length (inp p))) ascii p) (import_skip n ascii)"

text \<open>
  The state when reading starts, and the import into an existing table with \<open>nCol\<close> columns.
\<close>

definition import_start :: "string \<Rightarrow> string \<Rightarrow> int \<Rightarrow> int \<Rightarrow> ImportCtx" where
  "import_start file bytes col row =
     \<lparr>zFile = file, inp = bytes, zbuf = Some [], nAlloc = 0, ic_nLine = 1, nRow = 0, nErr = 0, bNotFirst = False,
      cTerm = 0, cColSep = col, cRowSep = row, errs = []\<rparr>"

definition import_table ::
  "(string option list list \<Rightarrow> string option list \<Rightarrow> string option) \<Rightarrow> bool \<Rightarrow> bool \<Rightarrow> nat \<Rightarrow> int \<Rightarrow> ImportCtx \<Rightarrow>
   (string option list list \<times> ImportCtx) option" where
  "import_table rejects ascii mode_ascii nCol nSkip p =
     Option.bind (import_skip (nat nSkip) ascii p) (\<lambda>p.
       let p = import_append_char 0 p
       in if nCol = 0 then Some ([], p)
          else map_option (\<lambda>(rows, _, p). (rows, p))
            (import_rows (Suc (length (inp p))) rejects ascii mode_ascii nCol ([], replicate nCol None, p)))"

end
