(* ===== verification/Shell_Csv.thy ===== *)
theory Shell_Csv
  imports Shell_Rows Shell_Import
begin

text \<open>
  CSV written by the shell and read by the shell.  The readers always make progress, so that an
  import ends unless the column separator is the byte that stands for the end of the file; and
  what \<^verbatim>\<open>shell_callback\<close> writes in the mode CSV is imported as the same rows.
\<close>

section \<open>Progress\<close>

lemma import_append_char_simps [simp]:
  "inp (import_append_char c p) = inp p" "cColSep (import_append_char c p) = cColSep p"
  "cRowSep (import_append_char c p) = cRowSep p" "errs (import_append_char c p) = errs p"
  "zFile (import_append_char c p) = zFile p" "nRow (import_append_char c p) = nRow p"
  "nErr (import_append_char c p) = nErr p" "cTerm (import_append_char c p) = cTerm p"
  "bNotFirst (import_append_char c p) = bNotFirst p"
  by (simp_all add: import_append_char_def Let_def)

lemma warn_simps [simp]:
  "inp (warn m p) = inp p" "cColSep (warn m p) = cColSep p" "cRowSep (warn m p) = cRowSep p" "cTerm (warn m p) = cTerm p"
  by (simp_all add: warn_def)

lemma count_line_simps [simp]:
  "inp (count_line c p) = inp p" "cColSep (count_line c p) = cColSep p" "cRowSep (count_line c p) = cRowSep p"
  "errs (count_line c p) = errs p" "zFile (count_line c p) = zFile p" "nRow (count_line c p) = nRow p"
  "nErr (count_line c p) = nErr p" "field (count_line c p) = field p" "zbuf (count_line c p) = zbuf p"
  by (simp_all add: count_line_def field_def)

lemma warn_unescaped_simps [simp]:
  "inp (warn_unescaped c pc p) = inp p" "cColSep (warn_unescaped c pc p) = cColSep p"
  "cRowSep (warn_unescaped c pc p) = cRowSep p"
  by (simp_all add: warn_unescaped_def)

lemma warn_unterminated_simps [simp]:
  "inp (warn_unterminated l p) = inp p" "cColSep (warn_unterminated l p) = cColSep p"
  "cRowSep (warn_unterminated l p) = cRowSep p"
  by (simp_all add: warn_unterminated_def)

lemma clear_field_simps [simp]:
  "inp (clear_field p) = inp p" "cColSep (clear_field p) = cColSep p" "cRowSep (clear_field p) = cRowSep p"
  by (simp_all add: clear_field_def)

text \<open>\<open>goes_on p q\<close>: \<open>q\<close> is a later state of the same job.\<close>

definition goes_on :: "ImportCtx \<Rightarrow> ImportCtx \<Rightarrow> bool" where
  "goes_on p q \<longleftrightarrow> cColSep q = cColSep p \<and> cRowSep q = cRowSep p \<and> length (inp q) \<le> length (inp p)"

lemma goes_on_refl [simp]: "goes_on p p"
  by (simp add: goes_on_def)

lemma goes_on_trans [trans]: "goes_on p q \<Longrightarrow> goes_on q r \<Longrightarrow> goes_on p r"
  by (simp add: goes_on_def)

lemma csv_quoted_step_goes_on:
  "csv_quoted_step l c pc ppc p = Inl q \<Longrightarrow> cColSep q = cColSep p \<and> cRowSep q = cRowSep p"
  "csv_quoted_step l c pc ppc p = Inr (pc', ppc', q) \<Longrightarrow> cColSep q = cColSep p \<and> cRowSep q = cRowSep p"
  by (auto simp: csv_quoted_step_def split: if_splits)

lemma csv_quoted_goes_on:
  "length (inp (csv_quoted l pc ppc r p)) \<le> length r \<and>
   cColSep (csv_quoted l pc ppc r p) = cColSep p \<and> cRowSep (csv_quoted l pc ppc r p) = cRowSep p"
proof (induction r arbitrary: pc ppc p)
  case Nil
  then show ?case by (auto dest: csv_quoted_step_goes_on split: sum.split)
next
  case (Cons b r)
  show ?case
  proof (cases "csv_quoted_step l (ord_char b) pc ppc p")
    case (Inl q)
    then show ?thesis using csv_quoted_step_goes_on(1) [OF Inl] by simp
  next
    case (Inr x)
    obtain pc' ppc' q where x: "x = (pc', ppc', q)" by (cases x)
    show ?thesis
      using csv_quoted_step_goes_on(2) [OF Inr [unfolded x]] Inr x Cons.IH [of pc' ppc' q] by simp
  qed
qed

lemma fgetc_goes_on: "fgetc p = (c, q) \<Longrightarrow> goes_on p q \<and> (c \<noteq> EOF \<longrightarrow> length (inp q) < length (inp p)) \<and> (c = EOF \<longleftrightarrow> inp p = [])"
  using ord_char_bounds(1) [of "hd (inp p)"] by (cases "inp p") (auto simp: fgetc_def goes_on_def)

lemma plain_loop_goes_on: "plain_loop c p = (c', q) \<Longrightarrow> goes_on p q"
proof (induction c p arbitrary: rule: plain_loop.induct)
  case (1 c p)
  show ?case
  proof (cases "c \<noteq> EOF \<and> c \<noteq> cColSep p \<and> c \<noteq> cRowSep p")
    case True
    obtain d p1 where d: "fgetc (import_append_char c p) = (d, p1)" by (cases "fgetc (import_append_char c p)")
    have "plain_loop d p1 = (c', q)" using 1(2) True d by (subst (asm) plain_loop.simps) simp
    then have "goes_on p1 q" using 1(1) [OF True d [symmetric] refl] by simp
    moreover have "goes_on p p1" using fgetc_goes_on [OF d] by (simp add: goes_on_def)
    ultimately show ?thesis using goes_on_trans by blast
  next
    case False
    then show ?thesis using 1(2) by (subst (asm) plain_loop.simps) auto
  qed
qed

lemma csv_plain_goes_on: "goes_on p (csv_plain c p)"
proof -
  obtain c' q where q: "plain_loop c p = (c', q)" by (cases "plain_loop c p")
  from plain_loop_goes_on [OF q] show ?thesis by (auto simp: csv_plain_def q Let_def goes_on_def)
qed

text \<open>At the end of the file there is no field; before it, a field takes at least one byte.\<close>

definition advances :: "ImportCtx \<Rightarrow> string option \<times> ImportCtx \<Rightarrow> bool" where
  "advances p r \<longleftrightarrow> goes_on p (snd r) \<and>
     (if inp p = [] then fst r = None \<and> cTerm (snd r) = EOF else length (inp (snd r)) < length (inp p))"

lemma ascii_advances: "advances p (ascii_read_one_field False p)"
proof -
  obtain c p1 where c: "fgetc (clear_field p) = (c, p1)" by (cases "fgetc (clear_field p)")
  obtain c' q where q: "plain_loop c p1 = (c', q)" by (cases "plain_loop c p1")
  from fgetc_goes_on [OF c] plain_loop_goes_on [OF q] show ?thesis
    by (auto simp: advances_def ascii_read_one_field_def c q Let_def goes_on_def)
qed

lemma csv_quoted_advance: "goes_on p (csv_quoted l pc ppc (inp p) p)"
  using csv_quoted_goes_on [of l pc ppc "inp p" p] by (simp add: goes_on_def)

lemma csv_advances: "advances p (csv_read_one_field False p)"
proof (induction False p rule: csv_read_one_field.induct)
  case (1 p)
  obtain c p1 where c: "fgetc (clear_field p) = (c, p1)" by (cases "fgetc (clear_field p)")
  have p1: "goes_on p p1" "c \<noteq> EOF \<longrightarrow> length (inp p1) < length (inp p)" "c = EOF \<longleftrightarrow> inp p = []"
    using fgetc_goes_on [OF c] by (simp_all add: goes_on_def)
  have done1: "advances p (zbuf q, q\<lparr>bNotFirst := True\<rparr>)" if "goes_on p1 q" "c \<noteq> EOF" for q
    using that p1 by (auto simp: advances_def goes_on_def)
  note unfold = csv_read_one_field.simps [of False p] c Let_def
  consider "c = EOF" | "c = 34" | "c \<noteq> EOF" "c \<noteq> 34" "\<not> (c = 0xef \<and> \<not> bNotFirst p)" | "c = 0xef" "\<not> bNotFirst p" by force
  then show ?case
  proof cases
    case 1
    then show ?thesis using p1 by (simp add: unfold advances_def goes_on_def)
  next
    case 2
    then show ?thesis using done1 [OF csv_quoted_advance] by (simp add: unfold)
  next
    case 3
    then show ?thesis using done1 [OF csv_plain_goes_on] by (cases "c = 0xef") (simp_all add: unfold)
  next
    case 4
    obtain c2 p2 where c2: "fgetc (import_append_char 0xef p1) = (c2, p2)" by (cases "fgetc (import_append_char 0xef p1)")
    have p2: "goes_on p1 p2" using fgetc_goes_on [OF c2] by (simp add: goes_on_def)
    obtain c3 p3 where c3: "fgetc (import_append_char 0xbb p2) = (c3, p3)" by (cases "fgetc (import_append_char 0xbb p2)")
    have p3: "goes_on p1 p3" using fgetc_goes_on [OF c3] p2 by (simp add: goes_on_def)
    define q where "q = clear_field (p3\<lparr>bNotFirst := True\<rparr>)"
    have "advances q (csv_read_one_field False q)" if "c2 = 0xbb" "c3 = 0xbf"
      unfolding q_def using 4 c c2 c3 that by (intro 1) auto
    moreover have "goes_on p1 q" using p3 by (simp add: q_def goes_on_def)
    ultimately have rec: "advances p (csv_read_one_field False q)" if "c2 = 0xbb" "c3 = 0xbf"
      using that p1 4 by (auto simp: advances_def goes_on_def split: if_splits)
    have "advances p (zbuf (csv_plain d r), (csv_plain d r)\<lparr>bNotFirst := True\<rparr>)" if "goes_on p1 r" for d r
      using that 4 by (intro done1) (use goes_on_trans csv_plain_goes_on in blast, simp)
    then show ?thesis
      using 4 p2 p3 rec by (auto simp: unfold c2 c3 q_def)
  qed
qed

lemma xRead_advances: "advances p (xRead ascii False p)"
  by (simp add: xRead_def ascii_advances csv_advances)

lemma xRead_goes_on: "xRead ascii False p = (z, q) \<Longrightarrow> goes_on p q"
  using xRead_advances [of p ascii] by (simp add: advances_def)

lemma goes_on_warn [simp]: "goes_on p (warn_short l n i q) \<longleftrightarrow> goes_on p q"
  by (simp add: goes_on_def warn_short_def)

lemma import_columns_goes_on: "import_columns ascii m nCol l k i bound p = (i', bound', q) \<Longrightarrow> goes_on p q"
proof (induction k arbitrary: i bound p)
  case (Suc k)
  obtain z p1 where z: "xRead ascii False p = (z, p1)" by (cases "xRead ascii False p")
  note r = xRead_goes_on [OF z]
  show ?case
    using Suc.prems r goes_on_trans [OF r Suc.IH] by (auto simp: z Let_def split: if_splits)
qed simp

lemma import_columns_advances:
  assumes "import_columns ascii m nCol l nCol 0 bound p = (i, bound', q)" "0 < nCol"
  shows "goes_on p q \<and> (cTerm q \<noteq> EOF \<longrightarrow> length (inp q) < length (inp p))"
proof -
  obtain k where k: "nCol = Suc k" using assms(2) by (cases nCol) auto
  obtain z p1 where z: "xRead ascii False p = (z, p1)" by (cases "xRead ascii False p")
  have a: "advances p (z, p1)" using xRead_advances [of p ascii] z by simp
  show ?thesis
  proof (cases "inp p = []")
    case True
    then have "z = None" "cTerm p1 = EOF" using a by (simp_all add: advances_def)
    then have "q = p1" using assms(1) by (simp add: k z)
    then show ?thesis using a \<open>cTerm p1 = EOF\<close> by (simp add: advances_def)
  next
    case False
    then have lt: "goes_on p p1" "length (inp p1) < length (inp p)" using a by (simp_all add: advances_def)
    have "goes_on p1 q"
      using assms(1) import_columns_goes_on [of ascii m nCol l k "Suc 0" _ p1] by (auto simp: k z Let_def split: if_splits)
    then show ?thesis using lt by (auto simp: goes_on_def)
  qed
qed

lemma import_extras_total:
  assumes "cColSep p \<noteq> EOF" "length (inp p) < tries"
  shows "\<exists>i' q. import_extras tries ascii i p = Some (i', q) \<and> goes_on p q"
  using assms
proof (induction tries arbitrary: i p)
  case (Suc n)
  obtain z p1 where z: "xRead ascii False p = (z, p1)" by (cases "xRead ascii False p")
  have a: "advances p (z, p1)" using xRead_advances [of p ascii] z by simp
  show ?case
  proof (cases "cTerm p1 = cColSep p1")
    case True
    then have "length (inp p1) < n" "cColSep p1 \<noteq> EOF"
      using a Suc.prems by (auto simp: advances_def goes_on_def split: if_splits)
    from Suc.IH [OF this(2,1), of "Suc i"] show ?thesis
      using True z xRead_goes_on [OF z] goes_on_trans by (auto simp: Let_def)
  qed (use z xRead_goes_on [OF z] in simp)
qed simp

lemma import_row_total:
  assumes "cColSep p \<noteq> EOF" "length (inp p) < tries" "0 < nCol"
  shows "\<exists>rows' bound' q. import_row tries rej ascii m nCol (rows, bound, p) = Some (rows', bound', q) \<and>
           cColSep q = cColSep p \<and> (cTerm q \<noteq> EOF \<longrightarrow> length (inp q) < length (inp p))"
proof -
  obtain i b p1 where c: "import_columns ascii m nCol (ic_nLine p) nCol 0 bound p = (i, b, p1)"
    by (cases "import_columns ascii m nCol (ic_nLine p) nCol 0 bound p")
  note a = import_columns_advances [OF c assms(3)]
  have sel: "\<exists>rows' bound' q'. import_insert rej (ic_nLine p) nCol rows b (i', q) = (rows', bound', q') \<and>
      cColSep q' = cColSep q \<and> cTerm q' = cTerm q \<and> inp q' = inp q" for i' q
    by (cases "rej rows b") (auto simp: import_insert_def)
  show ?thesis
  proof (cases "cTerm p1 = cColSep p1")
    case True
    then have ne: "cTerm p1 \<noteq> EOF" using assms(1) a by (simp add: goes_on_def)
    obtain i' q where q: "import_extras tries ascii i p1 = Some (i', q)" "goes_on p1 q"
      using import_extras_total [of p1 tries ascii i] a assms by (auto simp: goes_on_def)
    obtain w where w: "warn_extras (ic_nLine p) nCol (i', q) = (i', w)" "cColSep w = cColSep q" "inp w = inp q"
      by (simp add: warn_extras_def)
    show ?thesis
      using sel [of i' w] True q a ne w by (auto simp: import_row_def c goes_on_def)
  next
    case False
    then show ?thesis using sel [of i p1] a by (auto simp: import_row_def c goes_on_def)
  qed
qed

lemma import_rows_total:
  assumes "cColSep p \<noteq> EOF" "length (inp p) < tries" "0 < nCol"
  shows "\<exists>s. import_rows tries rej ascii m nCol (rows, bound, p) = Some s"
  using assms
proof (induction tries arbitrary: rows bound p)
  case (Suc n)
  obtain rows' b q where q: "import_row (Suc n) rej ascii m nCol (rows, bound, p) = Some (rows', b, q)"
    "cColSep q = cColSep p" "cTerm q \<noteq> EOF \<longrightarrow> length (inp q) < length (inp p)"
    using import_row_total [OF Suc.prems] by blast
  then show ?case using Suc.IH [of q rows' b] Suc.prems by (cases "cTerm q = EOF") auto
qed simp

lemma skip_line_total:
  "length (inp p) < tries \<Longrightarrow> \<exists>q. skip_line tries ascii p = Some q \<and> goes_on p q"
proof (induction tries arbitrary: p)
  case (Suc n)
  obtain z p1 where z: "xRead ascii False p = (z, p1)" by (cases "xRead ascii False p")
  have a: "advances p (z, p1)" using xRead_advances [of p ascii] z by simp
  show ?case
  proof (cases "z \<noteq> None \<and> cTerm p1 = cColSep p1")
    case True
    then have "length (inp p1) < n" using a Suc.prems by (auto simp: advances_def split: if_splits)
    from Suc.IH [OF this] show ?thesis using True z xRead_goes_on [OF z] goes_on_trans by auto
  qed (use z xRead_goes_on [OF z] in auto)
qed simp

lemma import_skip_total: "\<exists>q. import_skip n ascii p = Some q \<and> goes_on p q"
proof (induction n arbitrary: p)
  case (Suc n)
  obtain q where q: "skip_line (Suc (length (inp p))) ascii p = Some q" "goes_on p q"
    using skip_line_total [of p "Suc (length (inp p))"] by auto
  obtain r where "import_skip n ascii q = Some r" "goes_on q r" using Suc by blast
  then show ?case using q goes_on_trans by auto
qed simp

text \<open>
  C20: An import ends.  Whatever the bytes of the file are, for both readers, for every number of columns and of lines to skip, the
  loops of \<^verbatim>\<open>.import\<close> come to an end, provided that the column separator is not the value that stands for the end of the file.
\<close>

theorem import_terminates:
  assumes "cColSep p \<noteq> EOF"
  shows "\<exists>rows q. import_table rejects ascii m nCol nSkip p = Some (rows, q)"
proof -
  obtain p1 where p1: "import_skip (nat nSkip) ascii p = Some p1" "goes_on p p1" using import_skip_total by blast
  show ?thesis
  proof (cases "nCol = 0")
    case False
    have "\<exists>s. import_rows (Suc (length (inp (import_append_char 0 p1)))) rejects ascii m nCol
        ([], replicate nCol None, import_append_char 0 p1) = Some s"
      by (rule import_rows_total) (use p1(2) assms False in \<open>simp_all add: goes_on_def\<close>)
    then show ?thesis using p1 False by (auto simp: import_table_def Let_def simp del: import_rows.simps)
  qed (simp add: import_table_def p1)
qed

theorem import_terminates_witness:
  "\<exists>rows q. import_table (\<lambda>_ _. None) False False 2 0 (import_start ''f'' (''a,b'' @ [LF]) 44 10) = Some (rows, q)"
  by (rule import_terminates) (simp add: import_start_def)

section \<open>Reading what was written\<close>

text \<open>The state of a job whose separators can be told apart from quotes and line ends, and the part of it that reading keeps.\<close>

definition csv_job :: "ImportCtx \<Rightarrow> bool" where
  "csv_job p \<longleftrightarrow> cRowSep p = 10 \<and> cColSep p \<notin> {34, 13, 10, EOF} \<and> cColSep p < 128 \<and> zbuf p \<noteq> None"

definition same_job :: "ImportCtx \<Rightarrow> ImportCtx \<Rightarrow> bool" where
  "same_job p q \<longleftrightarrow> cColSep q = cColSep p \<and> cRowSep q = cRowSep p \<and> zFile q = zFile p \<and> nRow q = nRow p \<and>
     nErr q = nErr p \<and> errs q = errs p \<and> (zbuf p \<noteq> None \<longrightarrow> zbuf q \<noteq> None)"

lemma same_job_refl [simp]: "same_job p p"
  by (simp add: same_job_def)

lemma same_job_trans [trans]: "same_job p q \<Longrightarrow> same_job q r \<Longrightarrow> same_job p r"
  by (simp add: same_job_def)

lemma csv_job_same: "csv_job p \<Longrightarrow> same_job p q \<Longrightarrow> csv_job q"
  by (simp add: csv_job_def same_job_def)

lemma field_append_char [simp]: "field (import_append_char (ord_char c) p) = field p @ [c]"
proof -
  have "nat (ord_char c) = of_char c" by (metis nat_int of_nat_of_char ord_char_def)
  then have "char_of (nat (ord_char c mod 256)) = c" by simp
  then show ?thesis by (simp add: import_append_char_def Let_def field_def)
qed

lemma zbuf_append_char [simp]: "zbuf (import_append_char c p) \<noteq> None"
  by (simp add: import_append_char_def Let_def)

lemma same_job_steps [simp]:
  "same_job p (import_append_char c q) \<longleftrightarrow> same_job p (q\<lparr>zbuf := Some x\<rparr>)" "same_job p (count_line c q) \<longleftrightarrow> same_job p q"
  by (simp_all add: same_job_def)

text \<open>The loop over a quoted field is between two characters of the text: nothing that ended it would be mistaken.\<close>

definition clean :: "int \<Rightarrow> int \<Rightarrow> bool" where
  "clean pc ppc \<longleftrightarrow> pc \<noteq> 34 \<and> \<not> (pc = 13 \<and> ppc = 34)"

lemma ord_char_34: "ord_char c = 34 \<longleftrightarrow> c = DQ" "ord_char c = 13 \<longleftrightarrow> c = CR" "ord_char c = 10 \<longleftrightarrow> c = LF"
proof -
  have "ord_char DQ = 34" "ord_char CR = 13" "ord_char LF = 10" by (simp_all add: ord_char_def)
  then show "ord_char c = 34 \<longleftrightarrow> c = DQ" "ord_char c = 13 \<longleftrightarrow> c = CR" "ord_char c = 10 \<longleftrightarrow> c = LF"
    by (metis ord_char_inject)+
qed

lemma ord_char_EOF [simp]: "ord_char c \<noteq> EOF"
  using ord_char_bounds(1) [of c] by linarith

lemma csv_quoted_char:
  assumes "csv_job p" "clean pc ppc" "c \<noteq> DQ"
  shows "csv_quoted_step l (ord_char c) pc ppc p = Inr (ord_char c, pc, import_append_char (ord_char c) (count_line (ord_char c) p))"
    and "clean (ord_char c) pc"
  using assms
  by (auto simp: csv_quoted_step_def ends_quoted_def clean_def csv_job_def warn_unescaped_def ord_char_34)

lemma csv_quoted_dq:
  assumes "csv_job p" "clean pc ppc"
  shows "csv_quoted_step l 34 pc ppc p = Inr (34, pc, import_append_char 34 p)"
  using assms by (auto simp: csv_quoted_step_def ends_quoted_def clean_def csv_job_def warn_unescaped_def count_line_def)

lemma csv_quoted_text:
  assumes "csv_job p" "clean pc ppc"
  shows "\<exists>pc' ppc' q. csv_quoted l pc ppc (double_dq z @ r) p = csv_quoted l pc' ppc' r q \<and>
           clean pc' ppc' \<and> same_job p q \<and> field q = field p @ z"
  using assms
proof (induction z arbitrary: pc ppc p)
  case Nil
  then show ?case by (intro exI [of _ pc] exI [of _ ppc] exI [of _ p]) (simp add: double_dq_def)
next
  case (Cons c z)
  define q where "q = import_append_char (ord_char c) (count_line (ord_char c) p)"
  have q: "same_job p q" "field q = field p @ [c]"
    by (simp_all add: q_def same_job_def)
  have job: "csv_job q" using csv_job_same [OF Cons.prems(1) q(1)] .
  show ?case
  proof (cases "c = DQ")
    case False
    have step: "csv_quoted l pc ppc (double_dq (c # z) @ r) p = csv_quoted l (ord_char c) pc (double_dq z @ r) q"
      using csv_quoted_char(1) [OF Cons.prems False] False by (simp add: double_dq_def q_def)
    from Cons.IH [OF job csv_quoted_char(2) [OF Cons.prems False]] show ?thesis
      unfolding step using q same_job_trans [OF q(1)] by fastforce
  next
    case True
    have qd: "q = import_append_char 34 p"
      using True Cons.prems(1) by (simp add: q_def count_line_def csv_job_def ord_char_34 ord_char_def)
    have "csv_quoted_step l 34 34 pc q = Inr (0, pc, q)"
      using job by (simp add: csv_quoted_step_def count_line_def csv_job_def)
    then have step: "csv_quoted l pc ppc (double_dq (c # z) @ r) p = csv_quoted l 0 pc (double_dq z @ r) q"
      using csv_quoted_dq [OF Cons.prems] True qd by (simp add: double_dq_def ord_char_def)
    have "clean 0 pc" using Cons.prems(2) by (simp add: clean_def)
    from Cons.IH [OF job this] show ?thesis
      unfolding step using q same_job_trans [OF q(1)] by fastforce
  qed
qed

text \<open>What can follow a field: the column separator, or a line end with or without a carriage return.\<close>

definition ends :: "ImportCtx \<Rightarrow> string \<Rightarrow> int \<Rightarrow> bool" where
  "ends p e t \<longleftrightarrow> (\<exists>s. e = [s] \<and> ord_char s = cColSep p \<and> t = cColSep p) \<or> ((e = [LF] \<or> e = [CR, LF]) \<and> t = 10)"

lemma ends_cases:
  assumes "ends p e t"
  obtains (one) s where "e = [s]" "ord_char s = t" "t = cColSep p \<or> t = 10" | (two) "e = [CR, LF]" "t = 10"
proof -
  have "ord_char LF = 10" by (simp add: ord_char_def)
  with assms show thesis unfolding ends_def by (metis one two)
qed

lemma drop_quote_simps: "drop_quote (z @ [DQ]) = z" "drop_quote (z @ [DQ, CR]) = z"
  by (simp_all add: drop_quote_def)

lemma ord_specials [simp]: "ord_char DQ = 34" "ord_char CR = 13" "ord_char LF = 10"
  by (simp_all add: ord_char_def)

lemma same_job_updates [simp]:
  "same_job p (q\<lparr>inp := r\<rparr>) \<longleftrightarrow> same_job p q" "same_job p (q\<lparr>cTerm := t\<rparr>) \<longleftrightarrow> same_job p q"
  "same_job p (q\<lparr>bNotFirst := b\<rparr>) \<longleftrightarrow> same_job p q"
  by (simp_all add: same_job_def)

lemma field_updates [simp]:
  "field (q\<lparr>inp := r\<rparr>) = field q" "field (q\<lparr>cTerm := t\<rparr>) = field q" "field (q\<lparr>zbuf := Some z\<rparr>) = z"
  by (simp_all add: field_def)

lemma csv_quoted_end:
  assumes "csv_job p" "clean pc ppc" "ends p e t"
  shows "\<exists>q. csv_quoted l pc ppc ([DQ] @ e @ r) p = q \<and> same_job p q \<and> field q = field p \<and> inp q = r \<and> cTerm q = t"
proof -
  define p1 where "p1 = import_append_char 34 p"
  have p1: "same_job p p1" "field p1 = field p @ [DQ]"
    using field_append_char [of DQ p] by (simp_all add: p1_def same_job_def)
  have job: "csv_job p1" using csv_job_same [OF assms(1) p1(1)] .
  have one: "csv_quoted l pc ppc ([DQ] @ e @ r) p = csv_quoted l 34 pc (e @ r) p1"
    using csv_quoted_dq [OF assms(1,2)] by (simp add: p1_def)
  have stop: "csv_quoted_step l c pc' ppc' q = Inl ((count_line c q)\<lparr>zbuf := Some (drop_quote (field q)), cTerm := c\<rparr>)"
    if "ends_quoted q c pc' ppc'" "c \<noteq> 34" for c pc' ppc' q
    using that by (simp add: csv_quoted_step_def)
  from assms(3) show ?thesis
  proof (cases rule: ends_cases)
    case 1: (one s)
    have "ends_quoted p1 t 34 pc" "t \<noteq> 34" using job p1(1) 1(3) by (auto simp: ends_quoted_def csv_job_def same_job_def)
    from stop [OF this] have "csv_quoted l pc ppc ([DQ] @ e @ r) p =
        (count_line t p1)\<lparr>zbuf := Some (field p), cTerm := t, inp := r\<rparr>"
      using 1(1,2) one p1(2) by (simp add: drop_quote_simps)
    then show ?thesis using p1(1) by (simp add: same_job_def)
  next
    case 2: two
    define p2 where "p2 = import_append_char 13 p1"
    have p2: "same_job p p2" "field p2 = field p @ [DQ, CR]"
      using field_append_char [of CR p1] p1 by (auto simp: p2_def same_job_def)
    have "csv_quoted_step l 13 34 pc p1 = Inr (13, 34, p2)"
      using job by (auto simp: csv_quoted_step_def ends_quoted_def csv_job_def warn_unescaped_def count_line_def p2_def)
    moreover have "ends_quoted p2 10 13 34" using job by (auto simp: ends_quoted_def p2_def csv_job_def)
    ultimately have "csv_quoted l pc ppc ([DQ] @ e @ r) p =
        (count_line 10 p2)\<lparr>zbuf := Some (field p), cTerm := 10, inp := r\<rparr>"
      using stop [of p2 10 13 34] 2 one p2(2) by (simp add: drop_quote_simps)
    then show ?thesis using p2(1) 2 by (simp add: same_job_def)
  qed
qed

lemma plain_loop_stop: "c = cColSep p \<or> c = cRowSep p \<Longrightarrow> plain_loop c p = (c, p)"
  by (subst plain_loop.simps) auto

lemma plain_loop_text:
  assumes "inp p = z @ s # r" "\<forall>c \<in> set z. ord_char c \<noteq> cColSep p \<and> ord_char c \<noteq> cRowSep p"
    "ord_char s = cColSep p \<or> ord_char s = cRowSep p"
  shows "\<exists>q. plain_loop (fst (fgetc p)) (snd (fgetc p)) = (ord_char s, q) \<and> same_job p q \<and> field q = field p @ z \<and> inp q = r"
  using assms
proof (induction z arbitrary: p)
  case Nil
  then show ?case by (simp add: fgetc_def plain_loop_stop)
next
  case (Cons c z)
  define p1 where "p1 = import_append_char (ord_char c) (p\<lparr>inp := z @ s # r\<rparr>)"
  have p1: "same_job p p1" "field p1 = field p @ [c]" "inp p1 = z @ s # r"
    by (simp_all add: p1_def same_job_def)
  have "plain_loop (fst (fgetc p)) (snd (fgetc p)) = plain_loop (fst (fgetc p1)) (snd (fgetc p1))"
    using Cons.prems by (subst plain_loop.simps) (simp add: fgetc_def [of p] p1_def split_beta)
  moreover obtain q where "plain_loop (fst (fgetc p1)) (snd (fgetc p1)) = (ord_char s, q)" "same_job p1 q"
    "field q = field p1 @ z" "inp q = r"
    using Cons.IH [of p1] p1 Cons.prems by (auto simp: same_job_def)
  ultimately show ?case using p1 same_job_trans by auto
qed

lemma csv_plain_text:
  assumes "csv_job p" "inp p = z @ e @ r" "\<forall>c \<in> set z. ord_char c \<noteq> cColSep p \<and> c \<noteq> LF \<and> c \<noteq> CR" "ends p e t" "field p = []"
  shows "\<exists>q. csv_plain (fst (fgetc p)) (snd (fgetc p)) = q \<and> same_job p q \<and> field q = z \<and> inp q = r \<and> cTerm q = t"
proof -
  define y where "y = (if e = [CR, LF] then [CR] else [])"
  from assms(4) obtain s where s: "e = y @ [s]" "ord_char s = t" "t = cColSep p \<or> t = cRowSep p" "y = [] \<or> t = 10"
  proof (cases rule: ends_cases)
    case (one s)
    then show ?thesis using that [of s] assms(1) by (simp add: y_def csv_job_def)
  next
    case two
    then show ?thesis using that [of LF] assms(1) by (simp add: y_def csv_job_def)
  qed
  have "cRowSep p = 10" "cColSep p \<noteq> 13" using assms(1) by (simp_all add: csv_job_def)
  then have "ord_char c \<noteq> cColSep p \<and> ord_char c \<noteq> cRowSep p" if "c \<in> set z \<or> c = CR" for c
  proof (cases "c = CR")
    case False
    then have "ord_char c \<noteq> cColSep p" "c \<noteq> LF" using that assms(3) by blast+
    then show ?thesis using \<open>cRowSep p = 10\<close> ord_char_34(3) [of c] by simp
  qed (use \<open>cRowSep p = 10\<close> \<open>cColSep p \<noteq> 13\<close> in simp)
  moreover have "set y \<subseteq> {CR}" by (auto simp: y_def)
  ultimately have plain: "\<forall>c \<in> set (z @ y). ord_char c \<noteq> cColSep p \<and> ord_char c \<noteq> cRowSep p" by auto
  have "inp p = (z @ y) @ s # r" using assms(2) s(1) by simp
  from plain_loop_text [OF this plain s(3) [folded s(2)]]
  obtain q where q: "plain_loop (fst (fgetc p)) (snd (fgetc p)) = (t, q)" "same_job p q" "field q = z @ y" "inp q = r"
    unfolding s(2) assms(5) by auto
  show ?thesis
  proof (cases "t = 10")
    case True
    have l: "(z @ y \<noteq> [] \<and> last (z @ y) = CR) = (y \<noteq> [])"
      using assms(3) by (cases z rule: rev_cases) (auto simp: y_def)
    define q1 where "q1 = q\<lparr>ic_nLine := Suc (ic_nLine q)\<rparr>"
    have q1: "same_job p q1" "field q1 = z @ y" "inp q1 = r" "cRowSep q = 10"
      using q assms(1) by (simp_all add: q1_def same_job_def field_def csv_job_def)
    have "csv_plain (fst (fgetc p)) (snd (fgetc p)) =
        (if y \<noteq> [] then q1\<lparr>zbuf := Some (butlast (z @ y))\<rparr> else q1)\<lparr>cTerm := 10\<rparr>"
      unfolding csv_plain_def q(1) Let_def case_prod_conv using True q1 l by (simp add: q1_def [symmetric])
    then show ?thesis using q1 True by (auto simp: y_def same_job_def)
  next
    case False
    then have "y = []" "t = cColSep p" using s assms(1) by (auto simp: csv_job_def)
    then have "csv_plain (fst (fgetc p)) (snd (fgetc p)) = q\<lparr>cTerm := t\<rparr>"
      using False q assms(1) by (simp add: csv_plain_def csv_job_def same_job_def)
    then show ?thesis using q \<open>y = []\<close> by simp
  qed
qed

lemma zbuf_field: "zbuf p \<noteq> None \<Longrightarrow> zbuf p = Some (field p)"
  by (auto simp: field_def)

lemma clear_field_job:
  assumes "csv_job p"
  shows "same_job p (clear_field p)" "field (clear_field p) = []" "csv_job (clear_field p)"
  using assms by (auto simp: clear_field_def same_job_def csv_job_def field_def)

lemma csv_read_plain:
  assumes "csv_job p" "inp p = z @ e @ r" "\<forall>c \<in> set z. ord_char c \<noteq> cColSep p \<and> c \<noteq> LF \<and> c \<noteq> CR \<and> c \<noteq> DQ \<and> ord_char c \<noteq> 0xef"
    "ends p e t"
  shows "\<exists>q. csv_read_one_field False p = (Some z, q) \<and> same_job p q \<and> inp q = r \<and> cTerm q = t"
proof -
  define p1 where "p1 = clear_field p"
  have p1: "same_job p p1" "field p1 = []" "csv_job p1" "inp p1 = z @ e @ r"
    using clear_field_job [OF assms(1)] assms(2) by (simp_all add: p1_def)
  have "e \<noteq> []" using assms(4) by (cases rule: ends_cases) simp_all
  then obtain b x where b: "z @ e @ r = b # x" "b \<in> set z \<or> b = hd e"
    by (cases z; cases e) auto
  have c: "ord_char b \<noteq> EOF" "ord_char b \<noteq> 34" "ord_char b \<noteq> 0xef"
  proof -
    have "ord_char b = 10 \<or> ord_char b = 13 \<or> ord_char b = cColSep p" if "b = hd e"
      using assms(4) that by (cases rule: ends_cases) auto
    moreover have "cColSep p \<noteq> 34" "cColSep p < 128" using assms(1) by (simp_all add: csv_job_def)
    moreover have "ord_char b \<noteq> 34" "ord_char b \<noteq> 0xef" if "b \<in> set z"
      using assms(3) that ord_char_34(1) [of b] by blast+
    ultimately show "ord_char b \<noteq> 34" "ord_char b \<noteq> 0xef" using b(2) by force+
  qed simp
  have "ends p1 e t" using assms(4) p1(1) by (simp add: ends_def same_job_def)
  moreover have "\<forall>c \<in> set z. ord_char c \<noteq> cColSep p1 \<and> c \<noteq> LF \<and> c \<noteq> CR"
    using assms(3) p1(1) by (simp add: same_job_def)
  ultimately obtain q where q: "csv_plain (fst (fgetc p1)) (snd (fgetc p1)) = q" "same_job p1 q" "field q = z" "inp q = r" "cTerm q = t"
    using csv_plain_text [OF p1(3,4) _ _ p1(2)] by blast
  have "fgetc p1 = (ord_char b, p1\<lparr>inp := x\<rparr>)" using p1(4) b(1) by (simp add: fgetc_def)
  then have read: "csv_read_one_field False p = (zbuf q, q\<lparr>bNotFirst := True\<rparr>)"
    using c q(1) by (subst csv_read_one_field.simps) (simp add: p1_def)
  have "same_job p q" using p1(1) q(2) same_job_trans by blast
  moreover have "zbuf q = Some z"
    using zbuf_field [of q] calculation assms(1) q(3) by (simp add: same_job_def csv_job_def)
  ultimately show ?thesis using read q by simp
qed

lemma csv_read_quoted:
  assumes "csv_job p" "inp p = [DQ] @ double_dq z @ [DQ] @ e @ r" "ends p e t"
  shows "\<exists>q. csv_read_one_field False p = (Some z, q) \<and> same_job p q \<and> inp q = r \<and> cTerm q = t"
proof -
  define p1 where "p1 = (clear_field p)\<lparr>inp := double_dq z @ [DQ] @ e @ r\<rparr>"
  have p1: "same_job p p1" "field p1 = []" "csv_job p1" "inp p1 = double_dq z @ [DQ] @ e @ r"
    using clear_field_job [OF assms(1)] by (simp_all add: p1_def csv_job_def)
  have "clean 0 0" by (simp add: clean_def)
  from csv_quoted_text [OF p1(3) this, of "ic_nLine p1" z "[DQ] @ e @ r"]
  obtain pc ppc p2 where p2: "csv_quoted (ic_nLine p1) 0 0 (inp p1) p1 = csv_quoted (ic_nLine p1) pc ppc ([DQ] @ e @ r) p2"
    "clean pc ppc" "same_job p1 p2" "field p2 = z" unfolding p1(4) p1(2) by auto
  have "ends p2 e t" using assms(3) p1(1) p2(3) by (simp add: ends_def same_job_def)
  from csv_quoted_end [OF csv_job_same [OF p1(3) p2(3)] p2(2) this, of "ic_nLine p1" r]
  obtain q where q: "csv_quoted (ic_nLine p1) 0 0 (inp p1) p1 = q" "same_job p2 q" "field q = z" "inp q = r" "cTerm q = t"
    unfolding p2(1) p2(4) by auto
  have "fgetc (clear_field p) = (34, p1)" using assms(2) by (simp add: fgetc_def p1_def)
  then have read: "csv_read_one_field False p = (zbuf q, q\<lparr>bNotFirst := True\<rparr>)"
    using q(1) by (subst csv_read_one_field.simps) simp
  have "same_job p q" using p1(1) p2(3) q(2) same_job_trans by blast
  moreover have "zbuf q = Some z"
    using zbuf_field [of q] calculation assms(1) q(3) by (simp add: same_job_def csv_job_def)
  ultimately show ?thesis using read q by simp
qed

text \<open>The bytes that need no quotes are plain.\<close>

lemma needCsvQuote_plain:
  assumes "needCsvQuote ! of_char c = 0"
  shows "c \<noteq> LF \<and> c \<noteq> CR \<and> c \<noteq> DQ \<and> ord_char c \<noteq> 0xef"
proof -
  have "c \<noteq> LF" "c \<noteq> CR" "c \<noteq> DQ"
    using assms by (auto simp: needCsvQuote_def nth_append)
  moreover have "of_char c \<noteq> (0xef :: nat)"
    using assms by (auto simp: needCsvQuote_def nth_append)
  moreover have "ord_char c = int (of_char c)" by (simp add: ord_char_def of_nat_of_char)
  ultimately show ?thesis by simp
qed

text \<open>The output state whose CSV the shell can read: a separator of one character, and a text for NULL that needs no quotes.\<close>

definition csv_output :: "ShellState \<Rightarrow> char \<Rightarrow> bool" where
  "csv_output st s \<longleftrightarrow> colSeparator st = [s] \<and> s \<notin> {NUL, DQ, CR, LF} \<and> ord_char s < 128 \<and>
     (rowSeparator st = [LF] \<or> rowSeparator st = [CR, LF]) \<and>
     (\<forall>c \<in> set (nullValue st). needCsvQuote ! of_char c = 0 \<and> c \<noteq> s)"

lemma strstr_single: "strstr z [s] \<longleftrightarrow> s \<in> set z"
  by (induction z) auto

lemma csv_read_output:
  assumes "csv_job p" "csv_output st s" "cColSep p = ord_char s" "inp p = output_csv st v False @ e @ r" "ends p e t"
  shows "\<exists>q. csv_read_one_field False p = (Some (shown st v), q) \<and> same_job p q \<and> inp q = r \<and> cTerm q = t"
proof -
  have plain: "\<exists>q. csv_read_one_field False p = (Some z, q) \<and> same_job p q \<and> inp q = r \<and> cTerm q = t"
    if "inp p = z @ e @ r" "\<forall>c \<in> set z. needCsvQuote ! of_char c = 0 \<and> c \<noteq> s" for z
    using csv_read_plain [OF assms(1) that(1) _ assms(5)] that(2) needCsvQuote_plain assms(3) by auto
  show ?thesis
  proof (cases v)
    case None
    then show ?thesis using plain [of "nullValue st"] assms(2,4) by (simp add: output_csv_def shown_def csv_output_def)
  next
    case (Some z)
    show ?thesis
    proof (cases "c_str z = [] \<or> (\<exists>c \<in> set (c_str z). needCsvQuote ! of_char c \<noteq> 0) \<or> strstr (c_str z) (colSeparator st)")
      case True
      then have "inp p = [DQ] @ double_dq (c_str z) @ [DQ] @ e @ r"
        using assms(4) by (simp add: output_csv_def Some Let_def)
      from csv_read_quoted [OF assms(1) this assms(5)] show ?thesis by (simp add: Some shown_def)
    next
      case False
      then have "inp p = c_str z @ e @ r" using assms(4) by (simp add: output_csv_def Some Let_def)
      then show ?thesis
        using plain [of "c_str z"] False assms(2) by (auto simp: Some shown_def strstr_single csv_output_def)
    qed
  qed
qed

section \<open>Rows\<close>

fun csv_fields :: "ShellState \<Rightarrow> string option list \<Rightarrow> string" where
  "csv_fields st [] = []"
| "csv_fields st (v # vs) = output_csv st v False @ (if vs = [] then [] else colSeparator st @ csv_fields st vs)"

lemma csv_line_fields: "csv_line st vs = csv_fields st vs @ rowSeparator st"
proof -
  have "concat (map (\<lambda>(i, v). output_csv st v (i < n - 1)) (zip [k..<n] ws)) = csv_fields st ws"
    if "k + length ws = n" for k n ws
    using that
  proof (induction ws arbitrary: k)
    case (Cons v ws)
    then have "[k..<n] = k # [Suc k..<n]" by (simp add: upt_rec)
    then show ?case using Cons by (cases ws) (auto simp: output_csv_def)
  qed simp
  from this [of 0 vs "length vs"] show ?thesis by (simp add: csv_line_def indexed_def)
qed

text \<open>What follows the fields of a row is a line end; in between it is the separator.\<close>

lemma ends_row: "csv_job p \<Longrightarrow> csv_output st s \<Longrightarrow> ends p (rowSeparator st) 10"
  by (auto simp: ends_def csv_output_def)

lemma csv_read_first:
  assumes "csv_job p" "csv_output st s" "cColSep p = ord_char s" "inp p = csv_fields st (v # vs) @ rowSeparator st @ r"
  obtains q where "csv_read_one_field False p = (Some (shown st v), q)" "same_job p q" "csv_job q" "cColSep q = ord_char s"
    "inp q = (if vs = [] then r else csv_fields st vs @ rowSeparator st @ r)" "cTerm q = (if vs = [] then 10 else cColSep q)"
proof (cases "vs = []")
  case True
  with assms(4) have "inp p = output_csv st v False @ rowSeparator st @ r" by simp
  from csv_read_output [OF assms(1,2,3) this ends_row [OF assms(1,2)]] show thesis
    using that True csv_job_same [OF assms(1)] assms(3) by (auto simp: same_job_def)
next
  case False
  with assms(2,4) have "inp p = output_csv st v False @ [s] @ csv_fields st vs @ rowSeparator st @ r"
    by (simp add: csv_output_def)
  moreover have "ends p [s] (ord_char s)" using assms(3) by (simp add: ends_def)
  ultimately obtain q where "csv_read_one_field False p = (Some (shown st v), q)" "same_job p q"
    "inp q = csv_fields st vs @ rowSeparator st @ r" "cTerm q = ord_char s"
    using csv_read_output [OF assms(1,2,3)] by blast
  then show thesis using that [of q] False csv_job_same [OF assms(1)] assms(3) by (simp add: same_job_def)
qed

lemma c_str_shown:
  assumes "csv_output st s"
  shows "c_str (shown st v) = shown st v"
proof (cases v)
  case None
  have "needCsvQuote ! of_char NUL \<noteq> 0" by (simp add: needCsvQuote_def nth_append)
  then have "NUL \<notin> set (nullValue st)" using assms by (auto simp: csv_output_def)
  then show ?thesis by (auto simp: None shown_def c_str_def)
next
  case (Some z)
  then show ?thesis by (simp add: shown_def c_str_def)
qed

lemma import_columns_row:
  assumes "csv_job p" "csv_output st s" "cColSep p = ord_char s" "inp p = csv_fields st vs @ rowSeparator st @ r"
    "vs \<noteq> []" "i + length vs = nCol" "length bound = nCol"
  shows "\<exists>q. import_columns False False nCol l (length vs) i bound p = (nCol, take i bound @ map (Some \<circ> shown st) vs, q) \<and>
           same_job p q \<and> inp q = r \<and> cTerm q = 10"
  using assms
proof (induction vs arbitrary: p i bound)
  case (Cons v vs)
  obtain q where q: "csv_read_one_field False p = (Some (shown st v), q)" "same_job p q" "csv_job q" "cColSep q = ord_char s"
    "inp q = (if vs = [] then r else csv_fields st vs @ rowSeparator st @ r)" "cTerm q = (if vs = [] then 10 else cColSep q)"
    using csv_read_first [OF Cons.prems(1-4)] .
  define b where "b = bound[i := Some (shown st v)]"
  have step: "import_columns False False nCol l (Suc (length vs)) i bound p = import_columns False False nCol l (length vs) (Suc i) b q"
    using q(1,6) Cons.prems(6) by (auto simp: xRead_def c_str_shown [OF Cons.prems(2)] b_def)
  have tb: "take (Suc i) b = take i bound @ [Some (shown st v)]" "length b = nCol"
    using Cons.prems(6,7) by (simp_all add: b_def take_Suc_conv_app_nth)
  show ?case
  proof (cases "vs = []")
    case True
    then have "take (Suc i) b = b" using tb(2) Cons.prems(6) by simp
    then show ?thesis using step q True tb Cons.prems(6) by simp
  next
    case False
    then obtain q' where "import_columns False False nCol l (length vs) (Suc i) b q = (nCol, take (Suc i) b @ map (Some \<circ> shown st) vs, q')"
      "same_job q q'" "inp q' = r" "cTerm q' = 10"
      using Cons.IH [OF q(3) Cons.prems(2) q(4), of "Suc i" b] q(5) Cons.prems(6) tb(2) by auto
    then show ?thesis using step tb(1) q(2) same_job_trans by auto
  qed
qed simp

lemma import_row_line:
  assumes "csv_job p" "csv_output st s" "cColSep p = ord_char s" "inp p = csv_line st vs @ r"
    "vs \<noteq> []" "length vs = nCol" "length bound = nCol"
  shows "\<exists>q. import_row tries (\<lambda>_ _. None) False False nCol (rows, bound, p) =
           Some (rows @ [map (Some \<circ> shown st) vs], map (Some \<circ> shown st) vs, q\<lparr>nRow := Suc (nRow p)\<rparr>) \<and>
           same_job p q \<and> inp q = r \<and> cTerm q = 10"
proof -
  obtain q where q: "import_columns False False nCol (ic_nLine p) nCol 0 bound p = (nCol, map (Some \<circ> shown st) vs, q)"
    "same_job p q" "inp q = r" "cTerm q = 10"
    using import_columns_row [OF assms(1-3), of vs r 0 nCol bound "ic_nLine p"] assms(4-7) by (auto simp: csv_line_fields)
  have "cTerm q \<noteq> cColSep q" using q assms(1) by (auto simp: same_job_def csv_job_def)
  then have "import_row tries (\<lambda>_ _. None) False False nCol (rows, bound, p) =
           Some (rows @ [map (Some \<circ> shown st) vs], map (Some \<circ> shown st) vs, q\<lparr>nRow := Suc (nRow q)\<rparr>)"
    by (simp add: import_row_def q(1) import_insert_def)
  moreover have "nRow q = nRow p" using q(2) by (simp add: same_job_def)
  ultimately show ?thesis using q by auto
qed

lemma import_row_end:
  assumes "inp p = []" "0 < nCol" "cColSep p \<noteq> EOF"
  shows "import_row tries rej False False nCol (rows, bound, p) = Some (rows, bound, (clear_field p)\<lparr>cTerm := EOF\<rparr>)"
proof -
  have "csv_read_one_field False p = (None, (clear_field p)\<lparr>cTerm := EOF\<rparr>)"
    using assms(1) by (subst csv_read_one_field.simps) (simp add: fgetc_def)
  then have "import_columns False False nCol l nCol 0 bound p = (0, bound, (clear_field p)\<lparr>cTerm := EOF\<rparr>)" for l
    using assms(2) by (cases nCol) (simp_all add: xRead_def)
  then show ?thesis using assms by (simp add: import_row_def import_insert_def)
qed

lemma import_rows_lines:
  assumes "csv_job p" "csv_output st s" "cColSep p = ord_char s" "inp p = concat (map (csv_line st) vss)"
    "\<forall>vs \<in> set vss. length vs = nCol" "0 < nCol" "length bound = nCol" "length vss < tries"
  shows "\<exists>bound' q. import_rows tries (\<lambda>_ _. None) False False nCol (rows, bound, p) =
           Some (rows @ map (map (Some \<circ> shown st)) vss, bound', q) \<and>
           errs q = errs p \<and> nErr q = nErr p \<and> nRow q = nRow p + length vss"
  using assms
proof (induction vss arbitrary: p rows bound tries)
  case Nil
  then obtain n where "tries = Suc n" by (cases tries) auto
  moreover have "cColSep p \<noteq> EOF" using Nil.prems(1) by (simp add: csv_job_def)
  ultimately show ?case using import_row_end [of p nCol] Nil.prems(4,6) by (simp add: clear_field_def)
next
  case (Cons vs vss)
  obtain n where n: "tries = Suc n" using Cons.prems(8) by (cases tries) auto
  have "vs \<noteq> []" using Cons.prems(5,6) by auto
  then obtain q0 where q0: "import_row tries (\<lambda>_ _. None) False False nCol (rows, bound, p) =
           Some (rows @ [map (Some \<circ> shown st) vs], map (Some \<circ> shown st) vs, q0\<lparr>nRow := Suc (nRow p)\<rparr>)"
    "same_job p q0" "inp q0 = concat (map (csv_line st) vss)" "cTerm q0 = 10"
    using import_row_line [OF Cons.prems(1-3), of vs _ nCol bound tries rows] Cons.prems(4-7) by auto
  define q where "q = q0\<lparr>nRow := Suc (nRow p)\<rparr>"
  have q: "csv_job q" "cColSep q = ord_char s" "inp q = concat (map (csv_line st) vss)" "errs q = errs p" "nErr q = nErr p"
    "nRow q = Suc (nRow p)" "cTerm q = 10"
    using q0 csv_job_same [OF Cons.prems(1) q0(2)] Cons.prems(3) by (simp_all add: q_def same_job_def csv_job_def)
  obtain bound' q' where "import_rows n (\<lambda>_ _. None) False False nCol (rows @ [map (Some \<circ> shown st) vs], map (Some \<circ> shown st) vs, q) =
     Some ((rows @ [map (Some \<circ> shown st) vs]) @ map (map (Some \<circ> shown st)) vss, bound', q')"
    "errs q' = errs q" "nErr q' = nErr q" "nRow q' = nRow q + length vss"
    using Cons.IH [OF q(1) Cons.prems(2) q(2,3), of "map (Some \<circ> shown st) vs" n "rows @ [map (Some \<circ> shown st) vs]"]
      Cons.prems(5-8) n by auto
  then show ?case
    using q0(1) q n by (simp add: q_def [symmetric])
qed

lemma skip_line_row:
  assumes "csv_job p" "csv_output st s" "cColSep p = ord_char s" "inp p = csv_fields st vs @ rowSeparator st @ r"
    "vs \<noteq> []" "length vs \<le> tries"
  shows "\<exists>q. skip_line tries False p = Some q \<and> same_job p q \<and> inp q = r"
  using assms
proof (induction vs arbitrary: p tries)
  case (Cons v vs)
  obtain n where n: "tries = Suc n" using Cons.prems(6) by (cases tries) auto
  obtain q where q: "csv_read_one_field False p = (Some (shown st v), q)" "same_job p q" "csv_job q" "cColSep q = ord_char s"
    "inp q = (if vs = [] then r else csv_fields st vs @ rowSeparator st @ r)" "cTerm q = (if vs = [] then 10 else cColSep q)"
    using csv_read_first [OF Cons.prems(1-4)] .
  show ?case
  proof (cases "vs = []")
    case True
    then have "cTerm q \<noteq> cColSep q" using q(3,6) by (simp add: csv_job_def)
    then show ?thesis using q True n by (simp add: xRead_def)
  next
    case False
    then obtain q' where "skip_line n False q = Some q'" "same_job q q'" "inp q' = r"
      using Cons.IH [OF q(3) Cons.prems(2) q(4)] q(5) Cons.prems(6) n by auto
    then show ?thesis using q False n same_job_trans by (auto simp: xRead_def)
  qed
qed simp

lemma csv_fields_length: "csv_output st s \<Longrightarrow> length vs \<le> Suc (length (csv_fields st vs))"
  by (induction vs) (auto simp: csv_output_def)

lemma csv_lines_length: "csv_output st s \<Longrightarrow> length vss \<le> length (concat (map (csv_line st) vss))"
  by (induction vss) (auto simp: csv_output_def csv_line_def)

lemma csv_line_cong: "csv_line (put t (count_row p)) vs = csv_line p vs"
proof -
  have "output_csv (put t (count_row p)) v b = output_csv p v b" for v b
    by (cases v) (simp_all add: output_csv_def put_def count_row_def)
  then show ?thesis by (simp add: csv_line_def put_def count_row_def)
qed

lemma print_csv_rows:
  assumes "cMode p = MODE_Csv" "\<not> (cnt p = 0 \<and> showHeader p)" "\<forall>(vs, ts) \<in> set rows. vs \<noteq> []"
  shows "out (print_rows E cs rows p) = out p @ concat (map (csv_line p \<circ> fst) rows)"
  using assms
proof (induction rows arbitrary: p)
  case (Cons row rows)
  obtain vs ts where row: "row = (vs, ts)" by (cases row)
  define q where "q = put (csv_line p vs) (count_row p)"
  have "shell_callback E p (Some vs) cs ts = q"
    using Cons.prems row by (auto simp: shell_callback_def mode_csv_def q_def)
  then have "print_rows E cs (row # rows) p = print_rows E cs rows q" by (simp add: print_rows_def row)
  moreover have "out (print_rows E cs rows q) = out q @ concat (map (csv_line q \<circ> fst) rows)"
    using Cons.prems by (intro Cons.IH) (auto simp: q_def put_def count_row_def)
  moreover have "csv_line q = csv_line p" by (rule ext) (simp add: q_def csv_line_cong)
  ultimately show ?case by (simp add: q_def put_def count_row_def row comp_def)
qed (simp add: print_rows_def)

text \<open>All that is written for the rows of a query, with the header before the first of them.\<close>

definition csv_header :: "ShellState \<Rightarrow> bool" where
  "csv_header p \<longleftrightarrow> cnt p = 0 \<and> showHeader p"

lemma print_csv:
  assumes "cMode p = MODE_Csv" "\<forall>(vs, ts) \<in> set rows. vs \<noteq> []"
  shows "out (print_rows E cs rows p) =
     out p @ (if csv_header p \<and> rows \<noteq> [] then csv_line p (map Some cs) else []) @ concat (map (csv_line p \<circ> fst) rows)"
proof (cases "csv_header p \<and> rows \<noteq> []")
  case True
  then obtain vs ts rest where rows: "rows = (vs, ts) # rest" by (cases rows) auto
  define q where "q = put (csv_line p (map Some cs) @ csv_line p vs) (count_row p)"
  have "shell_callback E p (Some vs) cs ts = q"
    using True assms rows by (auto simp: shell_callback_def mode_csv_def q_def csv_header_def)
  then have "print_rows E cs rows p = print_rows E cs rest q" by (simp add: print_rows_def rows)
  moreover have "out (print_rows E cs rest q) = out q @ concat (map (csv_line q \<circ> fst) rest)"
    using assms rows by (intro print_csv_rows) (auto simp: q_def put_def count_row_def)
  moreover have "csv_line q = csv_line p" by (rule ext) (simp add: q_def csv_line_cong)
  ultimately show ?thesis using True by (simp add: q_def put_def count_row_def rows comp_def)
next
  case False
  then show ?thesis
    using print_csv_rows [OF assms(1) _ assms(2)] by (cases "rows = []") (auto simp: csv_header_def print_rows_def)
qed

lemma import_start_job:
  assumes "csv_output st s"
  shows "csv_job (import_start file bytes (ord_char s) 10)"
  using assms ord_char_34 [of s] by (auto simp: csv_job_def import_start_def csv_output_def)

lemma import_skip_header:
  assumes "csv_output st s" "bytes = (if h then csv_line st (map Some cs) else []) @ r" "cs \<noteq> []"
    and "p = import_start file bytes (ord_char s) 10"
  shows "\<exists>q. import_skip (if h then 1 else 0) False p = Some q \<and> same_job p q \<and> inp q = r"
proof (cases h)
  case True
  have job: "csv_job p" unfolding assms(4) by (rule import_start_job [OF assms(1)])
  have p: "inp p = csv_fields st (map Some cs) @ rowSeparator st @ r" "cColSep p = ord_char s"
    using True assms(2) by (simp_all add: assms(4) import_start_def csv_line_fields)
  have "length (map Some cs) \<le> Suc (length (inp p))"
    using csv_fields_length [OF assms(1), of "map Some cs"] p(1) by simp
  then obtain q where "skip_line (Suc (length (inp p))) False p = Some q" "same_job p q" "inp q = r"
    using skip_line_row [OF job assms(1) p(2,1), of "Suc (length (inp p))"] assms(3) by (auto simp del: skip_line.simps)
  then show ?thesis using True by (simp del: skip_line.simps)
qed (simp add: assms(2,4) import_start_def)

text \<open>
  C15: CSV is imported as it was exported.  Let the mode be CSV, with a column separator of one ASCII
  character, one of the two usual row separators, and a text for NULL that needs no quotes.  Then the separators are accepted by \<^verbatim>\<open>.import\<close>,
  and what is written for any rows of texts and NULLs, whatever quotes, separators, line ends or
  byte order marks are in the texts, is read without any message into exactly these rows, NULL being the text for NULL.  When column names
  were written before the rows, they are one line for \<^verbatim>\<open>--skip 1\<close>, even if there are line ends in the names.
\<close>

theorem csv_round_trip:
  assumes "csv_output p s" "cMode p = MODE_Csv" "0 < nCol" "length cs = nCol" "\<forall>(vs, ts) \<in> set rows. length vs = nCol"
    and "bytes = drop (length (out p)) (out (print_rows E cs rows p))"
  shows "import_separators True (colSeparator p) (rowSeparator p) = Inr (ord_char s, 10, [LF]) \<and>
    (\<exists>q. import_table (\<lambda>_ _. None) False False nCol (if csv_header p \<and> rows \<noteq> [] then 1 else 0)
           (import_start file bytes (ord_char s) 10) =
         Some (map (\<lambda>(vs, ts). map (\<lambda>v. Some (shown p v)) vs) rows, q) \<and> errs q = [] \<and> nErr q = 0 \<and> nRow q = length rows)"
proof
  show "import_separators True (colSeparator p) (rowSeparator p) = Inr (ord_char s, 10, [LF])"
  proof -
    have "signed_char s = ord_char s" using assms(1) by (simp add: csv_output_def signed_char_def)
    moreover have "strlen30 [s] = 1" "s \<noteq> NUL" using assms(1) by (simp_all add: csv_output_def strlen30_def c_str_def)
    moreover have "strlen30 [LF] = 1" "strlen30 [CR, LF] = 2" "c_str [CR, LF] = [CR, LF]" "signed_char LF = 10"
      by (simp_all add: strlen30_def c_str_def signed_char_def)
    ultimately show ?thesis using assms(1) by (auto simp: csv_output_def import_separators_def Let_def)
  qed
  define h where "h = (csv_header p \<and> rows \<noteq> [])"
  define vss where "vss = map fst rows"
  define p0 where "p0 = import_start file bytes (ord_char s) 10"
  have ne: "\<forall>(vs, ts) \<in> set rows. vs \<noteq> []" using assms(3,5) by auto
  have bytes: "bytes = (if h then csv_line p (map Some cs) else []) @ concat (map (csv_line p) vss)"
    using print_csv [OF assms(2) ne, of E cs] assms(6) by (simp add: h_def vss_def)
  have "cs \<noteq> []" using assms(3,4) by auto
  from import_skip_header [OF assms(1) bytes this p0_def]
  obtain q1 where q1: "import_skip (if h then 1 else 0) False p0 = Some q1" "same_job p0 q1" "inp q1 = concat (map (csv_line p) vss)"
    by blast
  define q2 where "q2 = import_append_char 0 q1"
  have q2: "csv_job q2" "cColSep q2 = ord_char s" "inp q2 = concat (map (csv_line p) vss)" "errs q2 = []" "nErr q2 = 0" "nRow q2 = 0"
    using csv_job_same [OF import_start_job [OF assms(1)] q1(2) [unfolded p0_def]] q1(2,3)
    by (simp_all add: q2_def csv_job_def same_job_def p0_def import_start_def)
  have "\<exists>bound' q. import_rows (Suc (length (inp q2))) (\<lambda>_ _. None) False False nCol ([], replicate nCol None, q2) =
           Some ([] @ map (map (Some \<circ> shown p)) vss, bound', q) \<and> errs q = errs q2 \<and> nErr q = nErr q2 \<and> nRow q = nRow q2 + length vss"
    using csv_lines_length [OF assms(1), of vss] assms(3,5) q2(3)
    by (intro import_rows_lines [OF q2(1) assms(1) q2(2,3)]) (auto simp: vss_def)
  then obtain bound' q where q: "import_rows (Suc (length (inp q2))) (\<lambda>_ _. None) False False nCol ([], replicate nCol None, q2) =
           Some (map (map (Some \<circ> shown p)) vss, bound', q)" "errs q = []" "nErr q = 0" "nRow q = length rows"
    using q2 by (auto simp: vss_def)
  have rows: "map (map (Some \<circ> shown p)) vss = map (\<lambda>(vs, ts). map (\<lambda>v. Some (shown p v)) vs) rows"
    by (simp add: vss_def comp_def split_beta)
  have "nat (if h then 1 else 0) = (if h then 1 else 0)" by simp
  then have "import_table (\<lambda>_ _. None) False False nCol (if h then 1 else 0) p0 =
      Some (map (\<lambda>(vs, ts). map (\<lambda>v. Some (shown p v)) vs) rows, q)"
    unfolding import_table_def using q1(1) q(1) [unfolded q2_def] assms(3) rows
    by (simp add: Let_def del: import_rows.simps import_skip.simps)
  then show "\<exists>q. import_table (\<lambda>_ _. None) False False nCol (if csv_header p \<and> rows \<noteq> [] then 1 else 0)
           (import_start file bytes (ord_char s) 10) =
         Some (map (\<lambda>(vs, ts). map (\<lambda>v. Some (shown p v)) vs) rows, q) \<and> errs q = [] \<and> nErr q = 0 \<and> nRow q = length rows"
    using q(2-4) unfolding h_def [symmetric] p0_def [symmetric] by blast
qed

definition csv_example :: ShellState where
  "csv_example =
     \<lparr>out = [], cMode = MODE_Csv, cnt = 0, showHeader = True, newlines = False, colSeparator = '','', rowSeparator = [CR, LF],
      nullValue = [], zDestTable = [], pStmt = True, autoEQPtest = False, sGraph = [], aiIndent = None, iIndent = 0\<rparr>"

definition plain_env :: row_env where
  "plain_env =
     \<lparr>column_double = \<lambda>_. 0, column_blob = \<lambda>_. [], fmt_g20 = \<lambda>_. ''0.0'', strglob = \<lambda>_ _. False, strlike = \<lambda>_ _. False,
      keyword_check = \<lambda>_. False\<rparr>"

theorem csv_round_trip_witness:
  "csv_output csv_example CHR '','' \<and>
   (\<exists>q. import_table (\<lambda>_ _. None) False False 2 1
      (import_start ''f'' (out (print_rows plain_env [''a'', ''b''] [([Some [DQ, CR, LF, CHR 0xEF], None], None)] csv_example)) (ord_char CHR '','') 10) =
      Some ([[Some [DQ, CR, LF, CHR 0xEF], Some []]], q))"
proof -
  have o: "csv_output csv_example CHR '',''" by (simp add: csv_output_def csv_example_def ord_char_def)
  have h: "csv_header csv_example" by (simp add: csv_header_def csv_example_def)
  from csv_round_trip [OF o, of 2 "[''a'', ''b'']" "[([Some [DQ, CR, LF, CHR 0xEF], None], None)]" _ plain_env "''f''", OF _ _ _ _ refl]
  show ?thesis using o h by (auto simp: shown_def csv_example_def c_str_def simp del: import_skip.simps import_rows.simps)
qed

lemma import_extras_EOF:
  assumes "inp p = []" "cColSep p = EOF"
  shows "import_extras n False i p = None"
  using assms
proof (induction n arbitrary: i p)
  case (Suc n)
  have "csv_read_one_field False p = (None, (clear_field p)\<lparr>cTerm := EOF\<rparr>)"
    using Suc.prems(1) by (subst csv_read_one_field.simps) (simp add: fgetc_def)
  then show ?case using Suc.IH [of "(clear_field p)\<lparr>cTerm := EOF\<rparr>" "Suc i"] Suc.prems by (simp add: xRead_def)
qed simp

lemma import_EOF_columns:
  "import_columns False False 1 1 1 0 [None] (import_start ''f'' ''a'' EOF 10) =
     (1, [Some ''a''], (import_start ''f'' [] EOF 10)\<lparr>zbuf := Some ''a'', nAlloc := 100, bNotFirst := True, cTerm := EOF\<rparr>)"
  by code_simp

text \<open>
  Where the text routines of the shell fail.  A row separator other than a line end is not taken into account when
  \<^verbatim>\<open>output_csv\<close> decides about quotes: a value with a semicolon in it is written as two rows when the
  semicolon separates rows.  The byte 255 is accepted as a column separator, and since it is the same number as the end of the file, the import
  of a file with one letter in it never ends, however many turns its loops are given.  The documented escape \<^verbatim>\<open>\s\<close> for a space is not known to \<^verbatim>\<open>resolve_backslashes\<close>.
\<close>

theorem shell_text_findings:
  "output_csv (csv_example\<lparr>rowSeparator := '';''\<rparr>) (Some ''a;b'') False = ''a;b'' \<and>
   map_option fst (import_table (\<lambda>_ _. None) False False 1 0
     (import_start ''f'' (csv_line (csv_example\<lparr>rowSeparator := '';''\<rparr>) [Some ''a;b'']) 44 59)) =
     Some [[Some ''a''], [Some ''b'']] \<and>
   import_separators False [CHR 0xFF] [LF] = Inr (EOF, 10, [LF]) \<and>
   (\<forall>tries. import_rows tries (\<lambda>_ _. None) False False 1 ([], [None], import_start ''f'' ''a'' EOF 10) = None) \<and>
   resolve_backslashes (BSL # ''s'') = ''s''"
proof (intro conjI allI)
  show "output_csv (csv_example\<lparr>rowSeparator := '';''\<rparr>) (Some ''a;b'') False = ''a;b''" by code_simp
  show "map_option fst (import_table (\<lambda>_ _. None) False False 1 0
     (import_start ''f'' (csv_line (csv_example\<lparr>rowSeparator := '';''\<rparr>) [Some ''a;b'']) 44 59)) =
     Some [[Some ''a''], [Some ''b'']]" by code_simp
  show "import_separators False [CHR 0xFF] [LF] = Inr (EOF, 10, [LF])"
    by (simp add: import_separators_def strlen30_def c_str_def signed_char_def ord_char_def)
  show "resolve_backslashes (BSL # ''s'') = ''s''" by code_simp
  fix tries
  show "import_rows tries (\<lambda>_ _. None) False False 1 ([], [None], import_start ''f'' ''a'' EOF 10) = None"
  proof (cases tries)
    case (Suc n)
    have "import_row (Suc n) (\<lambda>_ _. None) False False 1 ([], [None], import_start ''f'' ''a'' EOF 10) = None"
      using import_extras_EOF [of "(import_start ''f'' [] EOF 10)\<lparr>zbuf := Some ''a'', nAlloc := 100, bNotFirst := True, cTerm := EOF\<rparr>" "Suc n" 1]
        import_EOF_columns
      by (simp add: import_row_def import_start_def del: import_extras.simps import_columns.simps)
    then show ?thesis by (simp add: Suc)
  qed simp
qed

end
