(* ===== verification/Shell_Quote.thy ===== *)
theory Shell_Quote
  imports Shell_Text
begin

text \<open>
  What the quoting routines of the shell mean to a reader.  \<open>sql_term\<close> reads the
  SQL expressions the shell writes for a text (string literals and calls of
  \<^verbatim>\<open>replace\<close> with \<^verbatim>\<open>char\<close>) as the SQL documentation describes them, \<open>json_value\<close> a
  JSON string, \<open>html_value\<close> the character references of HTML.  The words of a
  command are read by \<open>meta_args\<close>, the code of the shell itself.
\<close>

section \<open>Readers\<close>

text \<open>A string literal after its opening quote: its value and what follows it.\<close>

fun sql_chars :: "string \<Rightarrow> (string \<times> string) option" where
  "sql_chars [] = None"
| "sql_chars (c # z) =
     (if c \<noteq> SQ then map_option (apfst (Cons c)) (sql_chars z)
      else case z of
             [] \<Rightarrow> Some ([], [])
           | d # z' \<Rightarrow> if d = SQ then map_option (apfst (Cons SQ)) (sql_chars z') else Some ([], z))"

definition sql_literal :: "string \<Rightarrow> (string \<times> string) option" where
  "sql_literal z = (if cur z = SQ then sql_chars (tl z) else None)"

text \<open>\<^verbatim>\<open>replace(X,Y,Z)\<close> of SQL: every occurrence of \<^verbatim>\<open>Y\<close> in \<^verbatim>\<open>X\<close>, from the left, becomes \<^verbatim>\<open>Z\<close>.\<close>

function replace_all :: "string \<Rightarrow> string \<Rightarrow> string \<Rightarrow> string" where
  "replace_all y r x =
     (if x = [] \<or> y = [] then x
      else if prefix y x then r @ replace_all y r (drop (length y) x)
      else hd x # replace_all y r (tl x))"
  by pat_completeness auto
termination
  by (relation "measure (\<lambda>(_, _, x). length x)") (auto simp: neq_Nil_conv)

declare replace_all.simps [simp del]

definition after :: "string \<Rightarrow> string \<Rightarrow> string option" where
  "after p z = (if prefix p z then Some (drop (length p) z) else None)"

definition sql_char :: "string \<Rightarrow> (string \<times> string) option" where
  "sql_char z =
     (case after ''10))'' z of
        Some r \<Rightarrow> Some ([LF], r)
      | None \<Rightarrow> map_option (Pair [CR]) (after ''13))'' z))"

definition sql_replace :: "string \<Rightarrow> string \<Rightarrow> (string \<times> string) option" where
  "sql_replace x z =
     Option.bind (after '','' z) (\<lambda>z.
     Option.bind (sql_literal z) (\<lambda>(y, z).
     Option.bind (after '',char('' z) (\<lambda>z.
     Option.bind (sql_char z) (\<lambda>(r, z).
     Some (replace_all y r x, z)))))"

text \<open>The value of an expression at the start of a text, and what follows the expression.\<close>

function sql_term :: "string \<Rightarrow> (string \<times> string) option" where
  "sql_term z =
     (if prefix ''replace('' z
      then Option.bind (sql_term (drop 8 z)) (\<lambda>(x, z). sql_replace x z)
      else sql_literal z)"
  by pat_completeness auto
termination
  by (relation "measure length") (auto simp: prefix_def)

declare sql_term.simps [simp del]

section \<open>String literals\<close>

definition sql_double :: "char \<Rightarrow> string" where
  "sql_double c = (if c = SQ then [SQ, SQ] else [c])"

lemma concat_map_takeWhile:
  "(\<And>c. P c \<Longrightarrow> f c = [c]) \<Longrightarrow> concat (map f z) = takeWhile P z @ concat (map f (dropWhile P z))"
  by (induction z) auto

lemma dropWhile_Cons_hd: "dropWhile P z = c # z' \<Longrightarrow> \<not> P c"
  by (induction z) (auto split: if_splits)

lemma quoted_loop_concat: "quoted_loop z = concat (map sql_double z)"
proof (induction z rule: quoted_loop.induct)
  case (1 z)
  have e: "concat (map sql_double z) =
      takeWhile (\<lambda>c. c \<noteq> SQ) z @ concat (map sql_double (dropWhile (\<lambda>c. c \<noteq> SQ) z))"
    by (rule concat_map_takeWhile) (simp add: sql_double_def)
  show ?case
  proof (cases "dropWhile (\<lambda>c. c \<noteq> SQ) z")
    case Nil
    show ?thesis unfolding e by (subst quoted_loop.simps) (simp add: Nil del: dropWhile_eq_Nil_conv)
  next
    case (Cons c z')
    then have c: "c = SQ" using dropWhile_Cons_hd [of "\<lambda>c. c \<noteq> SQ" z c z'] by simp
    have "z \<noteq> []" using Cons by auto
    then show ?thesis using e 1 [OF _ Cons] Cons c by (subst quoted_loop.simps) (simp add: sql_double_def [of SQ])
  qed
qed

lemma concat_map_single: "(\<And>c. c \<in> set z \<Longrightarrow> f c = [c]) \<Longrightarrow> concat (map f z) = z"
  by (induction z) auto

lemma output_quoted_string_concat:
  "output_quoted_string z = [SQ] @ concat (map sql_double (c_str z)) @ [SQ]"
proof (cases "SQ \<in> set (c_str z)")
  case False
  then have "concat (map sql_double (c_str z)) = c_str z"
    by (intro concat_map_single) (auto simp: sql_double_def)
  with False show ?thesis by (simp add: output_quoted_string_def Let_def)
qed (simp add: output_quoted_string_def Let_def quoted_loop_concat)

lemma sql_chars_double: "cur r \<noteq> SQ \<Longrightarrow> sql_chars (concat (map sql_double z) @ SQ # r) = Some (z, r)"
proof (induction z)
  case Nil
  then show ?case by (cases r) auto
next
  case (Cons c z)
  then show ?case by (simp add: sql_double_def)
qed

lemma sql_literal_double:
  "cur r \<noteq> SQ \<Longrightarrow> sql_literal ([SQ] @ concat (map sql_double z) @ [SQ] @ r) = Some (z, r)"
  using sql_chars_double [of r z] by (simp add: sql_literal_def)

section \<open>Marking line ends\<close>

text \<open>
  Line ends inside a literal are written as markers, which \<^verbatim>\<open>replace\<close> turns back.  That
  only the markers are replaced rests on \<open>clash\<close>: neither of two texts begins with the other.
\<close>

definition clash :: "string \<Rightarrow> string \<Rightarrow> bool" where
  "clash u v \<longleftrightarrow> \<not> prefix u v \<and> \<not> prefix v u"

definition no_overlap :: "string \<Rightarrow> string \<Rightarrow> bool" where
  "no_overlap w m \<longleftrightarrow> (\<forall>v. suffix v (tl w) \<longrightarrow> v \<noteq> [] \<longrightarrow> clash v m)"

lemma clash_sym: "clash u v \<Longrightarrow> clash v u"
  by (simp add: clash_def)

lemma clash_append: "clash u v \<Longrightarrow> \<not> prefix u (v @ y)"
  by (metis clash_def prefix_append prefix_def)

lemma strstr_iff: "strstr z p \<longleftrightarrow> (\<exists>a b. z = a @ p @ b)"
proof (induction z)
  case (Cons c z)
  have "strstr (c # z) p \<longleftrightarrow> (\<exists>b. c # z = p @ b) \<or> (\<exists>a b. z = a @ p @ b)"
    using Cons by (simp add: prefix_def)
  also have "\<dots> \<longleftrightarrow> (\<exists>a b. c # z = a @ p @ b)"
    by (metis append_Cons append_Nil neq_Nil_conv list.inject)
  finally show ?case .
qed auto

lemma prefix_of_marked:
  assumes "\<And>c. f c = [c] \<or> f c \<in> M" "\<And>u m. suffix u v \<Longrightarrow> u \<noteq> [] \<Longrightarrow> m \<in> M \<Longrightarrow> clash u m"
    and "prefix v (concat (map f z))"
  shows "prefix v z"
  using assms(2, 3)
proof (induction v arbitrary: z)
  case (Cons a v)
  show ?case
  proof (cases z)
    case Nil
    then show ?thesis using Cons.prems(2) by simp
  next
    case z: (Cons c z')
    have "f c \<notin> M"
      using Cons.prems(1) [of "a # v" "f c"] Cons.prems(2) clash_append [of "a # v" "f c"] z by auto
    then have "f c = [c]" using assms(1) by blast
    then have "a = c" "prefix v (concat (map f z'))" using Cons.prems(2) z by simp_all
    then show ?thesis using Cons.IH [OF Cons.prems(1)] z by (simp add: suffix_Cons)
  qed
qed simp

lemma replace_all_skip:
  "\<forall>u. suffix u t \<longrightarrow> u \<noteq> [] \<longrightarrow> \<not> prefix w (u @ x) \<Longrightarrow> w \<noteq> [] \<Longrightarrow> replace_all w r (t @ x) = t @ replace_all w r x"
proof (induction t)
  case (Cons c t)
  then have "\<not> prefix w (c # t @ x)" by (metis append_Cons list.distinct(1) suffix_order.refl)
  with Cons show ?case by (subst replace_all.simps) (simp add: suffix_Cons)
qed simp

lemma replace_all_marker: "w \<noteq> [] \<Longrightarrow> replace_all w r (w @ x) = r @ replace_all w r x"
  by (subst replace_all.simps) auto

lemma replace_marked:
  assumes f: "\<And>c. c \<noteq> x \<Longrightarrow> f c = [c] \<or> f c \<in> M" "f x = w" "w \<noteq> []"
    and g: "\<And>c. c \<noteq> x \<Longrightarrow> g c = f c" "g x = r"
    and no: "no_overlap w w" "\<And>m. m \<in> M \<Longrightarrow> no_overlap w m \<and> no_overlap m w \<and> clash m w"
    and "\<not> strstr z w"
  shows "replace_all w r (concat (map f z)) = concat (map g z)"
  using assms(8)
proof (induction z)
  case Nil
  then show ?case by (simp add: replace_all.simps)
next
  case (Cons c z)
  let ?x = "concat (map f z)"
  have IH: "replace_all w r ?x = concat (map g z)" using Cons by simp
  have all: "f c = [c] \<or> f c \<in> insert w M" for c using f by (cases "c = x") auto
  have ov: "clash u m" if "suffix u (tl w)" "u \<noteq> []" "m \<in> insert w M" for u m
    using no that by (auto simp: no_overlap_def)
  show ?case
  proof (cases "c = x")
    case True
    then show ?thesis using f(2,3) g(2) IH replace_all_marker by simp
  next
    case ne: False
    have "\<not> prefix w (u @ ?x)" if u: "suffix u (f c)" "u \<noteq> []" for u
    proof (cases "f c = [c]")
      case True
      show ?thesis
      proof
        assume p: "prefix w (u @ ?x)"
        have "u = [c]" using u True by (auto simp: suffix_Cons)
        with p f(3) obtain w' where w: "w = c # w'" "prefix w' ?x" by (cases w) auto
        have "prefix w' z" by (rule prefix_of_marked [OF all _ w(2)]) (use ov w in auto)
        with w Cons.prems show False by simp
      qed
    next
      case False
      then have m: "f c \<in> M" using f(1) ne by blast
      have "clash w u"
      proof (cases "u = f c")
        case True
        then show ?thesis using no(2) [OF m] clash_sym by blast
      next
        case False
        then have "suffix u (tl (f c))" using u(1) by (cases "f c") (auto simp: suffix_Cons)
        then show ?thesis using no(2) [OF m] u(2) clash_sym by (auto simp: no_overlap_def)
      qed
      then show ?thesis by (rule clash_append)
    qed
    then have "replace_all w r (f c @ ?x) = f c @ replace_all w r ?x"
      using f(3) by (intro replace_all_skip) auto
    then show ?thesis using IH g(1) ne by simp
  qed
qed

text \<open>The markers for one kind of line end, as \<^verbatim>\<open>unused_string\<close> chooses them.\<close>

definition marker :: "string \<Rightarrow> string \<Rightarrow> string \<Rightarrow> bool" where
  "marker a b m \<longleftrightarrow> m = BSL # a \<or> m = BSL # b \<or> (\<exists>i. m = unused_made (BSL # a) i)"

lemma fmt_nat_digits: "c \<in> set (fmt_int (int i)) \<Longrightarrow> isdigit c"
  using nat_digits_bounds by (auto simp: fmt_int_def isdigit_digit_char)

lemma not_digit_mark [simp]: "\<not> isdigit BSL" "\<not> isdigit (CHR ''('')" "\<not> isdigit SQ" "\<not> isdigit (CHR '')'')"
  by (simp_all add: ctype_defs ord_char_def)

lemma fmt_nat_inject: "fmt_int (int i) = fmt_int (int j) \<longleftrightarrow> i = j"
proof
  assume "fmt_int (int i) = fmt_int (int j)"
  then have "map (\<lambda>c. nat (ord_char c - 48)) (fmt_int (int i)) = map (\<lambda>c. nat (ord_char c - 48)) (fmt_int (int j))"
    by simp
  moreover have "map (\<lambda>c. nat (ord_char c - 48)) (fmt_int (int k)) = nat_digits k" for k
    using nat_digits_bounds [of k] by (auto simp: fmt_int_def ord_digit_char intro: map_idI)
  ultimately have "nat_digits i = nat_digits j" by simp
  then show "i = j" by (metis nat_digits_value)
qed simp

lemma unused_made_read:
  "prefix (unused_made a i) z \<Longrightarrow> takeWhile isdigit (drop (Suc (length a)) z) = fmt_int (int i)"
  using fmt_nat_digits
  by (auto simp: unused_made_def prefix_def takeWhile_append ctype_defs ord_char_def)

lemma unused_loop_None: "unused_loop n z a i = None \<Longrightarrow> k < n \<Longrightarrow> strstr z (unused_made a (i + k))"
proof (induction n arbitrary: i k)
  case (Suc n)
  show ?case
  proof (cases k)
    case 0
    then show ?thesis using Suc.prems(1) by (auto split: if_splits)
  next
    case (Suc j)
    then show ?thesis using Suc.IH [of "Suc i" j] Suc.prems by (auto split: if_splits)
  qed
qed simp

lemma unused_loop_Some: "unused_loop n z a i = Some m \<Longrightarrow> \<not> strstr z m \<and> (\<exists>i. m = unused_made a i)"
  by (induction n arbitrary: i) (auto split: if_splits)

text \<open>Of the generated strings at most one begins at each place of the text, so the tries are enough.\<close>

lemma unused_loop_total: "\<exists>m. unused_loop (Suc (length z)) z a 0 = Some m"
proof (rule ccontr)
  assume "\<nexists>m. unused_loop (Suc (length z)) z a 0 = Some m"
  then have "unused_loop (Suc (length z)) z a 0 = None" by simp
  then have "\<exists>p. p < length z \<and> prefix (unused_made a k) (drop p z)" if "k \<in> {..<Suc (length z)}" for k
  proof -
    have "strstr z (unused_made a k)"
      using unused_loop_None [of "Suc (length z)" z a 0 k] \<open>unused_loop _ z a 0 = None\<close> that by simp
    then obtain u v where uv: "z = u @ unused_made a k @ v" unfolding strstr_iff by blast
    then show ?thesis by (intro exI [of _ "length u"]) (simp add: unused_made_def)
  qed
  then obtain p where p: "k \<in> {..<Suc (length z)} \<Longrightarrow> p k < length z \<and> prefix (unused_made a k) (drop (p k) z)" for k
    by metis
  have "inj_on p {..<Suc (length z)}"
  proof
    fix i j assume i: "i \<in> {..<Suc (length z)}" and j: "j \<in> {..<Suc (length z)}" and eq: "p i = p j"
    have "fmt_int (int i) = fmt_int (int j)"
      using unused_made_read [of a i "drop (p i) z"] unused_made_read [of a j "drop (p i) z"] p [OF i] p [OF j] eq
      by simp
    then show "i = j" by (simp add: fmt_nat_inject)
  qed
  moreover have "p ` {..<Suc (length z)} \<subseteq> {..<length z}" using p by auto
  ultimately have "card {..<Suc (length z)} \<le> card {..<length z}" by (intro card_inj_on_le) auto
  then show False by simp
qed

lemma unused_string_marker:
  obtains m where "unused_string z (BSL # a) (BSL # b) = Some m" "marker a b m" "\<not> strstr z m"
proof (cases "strstr z (BSL # a) \<and> strstr z (BSL # b)")
  case True
  obtain m where m: "unused_loop (Suc (length z)) z (BSL # a) 0 = Some m" using unused_loop_total by blast
  then show thesis
    using that [of m] True unused_loop_Some [OF m] by (auto simp: unused_string_def marker_def simp del: unused_loop.simps)
next
  case False
  then show thesis
    using that [of "BSL # a"] that [of "BSL # b"]
    by (cases "strstr z (BSL # a)") (simp_all add: unused_string_def marker_def)
qed

lemma clash_hd: "cur u \<noteq> cur v \<Longrightarrow> u \<noteq> [] \<Longrightarrow> v \<noteq> [] \<Longrightarrow> clash u v"
  by (cases u; cases v) (auto simp: clash_def)

lemma marker_cur: "marker a b m \<Longrightarrow> m \<noteq> [] \<and> (cur m = BSL \<or> cur m = CHR ''('')"
  by (auto simp: marker_def unused_made_def)

definition marks :: "string \<Rightarrow> bool" where
  "marks a \<longleftrightarrow> a \<noteq> [] \<and> BSL \<notin> set a \<and> CHR ''('' \<notin> set a \<and> SQ \<notin> set a"

lemma not_marks: "clash v m" if "suffix v s" "v \<noteq> []" "BSL \<notin> set s" "CHR ''('' \<notin> set s" "marker a b m"
proof -
  have "cur v \<in> set s" using that(1, 2) set_mono_suffix [OF that(1)] by (cases v) auto
  then show ?thesis using that marker_cur [of a b m] by (intro clash_hd) auto
qed

lemma no_overlap_marker:
  assumes "marker a b w" "marker a' b' m" "marks a" "marks b" "w = m \<or> (cur a \<noteq> cur a' \<and> cur a \<noteq> cur b')" "marks a'" "marks b'"
  shows "no_overlap w m"
  unfolding no_overlap_def
proof (intro allI impI)
  fix v assume v: "suffix v (tl w)" "v \<noteq> []"
  consider "w = BSL # a" | "w = BSL # b" | i where "w = unused_made (BSL # a) i"
    using assms(1) unfolding marker_def by blast
  then show "clash v m"
  proof cases
    case 1
    then show ?thesis using not_marks [of v a a' b' m] v assms by (simp add: marks_def)
  next
    case 2
    then show ?thesis using not_marks [of v b a' b' m] v assms by (simp add: marks_def)
  next
    case 3
    define t where "t = a @ fmt_int (int i) @ '')''"
    have tl: "tl w = BSL # t" by (simp add: 3 unused_made_def t_def)
    have "BSL \<notin> set t" "CHR ''('' \<notin> set t"
      using assms(3) by (auto simp: t_def marks_def dest: fmt_nat_digits)
    then show ?thesis
    proof (cases "v = BSL # t")
      case True
      have t: "cur t = cur a" "t \<noteq> []" using assms(3) by (cases a; simp add: marks_def t_def)+
      consider "cur m = CHR ''(''" | x where "m = BSL # x" "x = a' \<or> x = b'"
        using assms(2) by (auto simp: marker_def unused_made_def)
      then show ?thesis
      proof cases
        case 1
        then show ?thesis using True marker_cur [OF assms(2)] by (intro clash_hd) auto
      next
        case 2
        then have "w \<noteq> m" using 3 by (simp add: unused_made_def)
        then have "clash t x" using 2 assms t by (intro clash_hd) (auto simp: marks_def)
        then show ?thesis using True 2 by (simp add: clash_def)
      qed
    next
      case False
      then have "suffix v t" using v(1) tl by (simp add: suffix_Cons)
      then show ?thesis using not_marks [of v t a' b' m] v assms \<open>BSL \<notin> set t\<close> \<open>CHR ''('' \<notin> set t\<close> by simp
    qed
  qed
qed

section \<open>Literals with line ends\<close>

definition mark_ends :: "string \<Rightarrow> string \<Rightarrow> char \<Rightarrow> string" where
  "mark_ends zNL zCR c = (if c = LF then zNL else if c = CR then zCR else [c])"

lemma escaped_loop_concat:
  "escaped_loop zNL zCR z = concat (map (\<lambda>c. if c = SQ then [SQ, SQ] else mark_ends zNL zCR c) z)"
  (is "_ = concat (map ?f z)")
proof (induction zNL zCR z rule: escaped_loop.induct)
  case (1 zNL zCR z)
  let ?P = "\<lambda>c. c \<noteq> LF \<and> c \<noteq> CR \<and> c \<noteq> SQ"
  have e: "concat (map (\<lambda>c. if c = SQ then [SQ, SQ] else mark_ends zNL zCR c) z) =
      takeWhile ?P z @ concat (map (\<lambda>c. if c = SQ then [SQ, SQ] else mark_ends zNL zCR c) (dropWhile ?P z))"
    by (rule concat_map_takeWhile) (simp add: mark_ends_def)
  show ?case
  proof (cases "dropWhile ?P z")
    case Nil
    show ?thesis unfolding e by (subst escaped_loop.simps) (simp add: Nil del: dropWhile_eq_Nil_conv)
  next
    case (Cons c z')
    then have c: "c = LF \<or> c = CR \<or> c = SQ" using dropWhile_Cons_hd [of ?P z c z'] by blast
    have z: "z \<noteq> []" using Cons by auto
    show ?thesis unfolding e
      using c z 1 [OF z Cons] by (subst escaped_loop.simps) (auto simp: Cons mark_ends_def [of _ _ LF] mark_ends_def [of _ _ CR])
  qed
qed

lemma fmt_nat_SQ [simp]: "SQ \<notin> set (fmt_int (int i))"
  using fmt_nat_digits [of SQ i] by auto

lemma marker_SQ: "marker a b m \<Longrightarrow> marks a \<Longrightarrow> marks b \<Longrightarrow> SQ \<notin> set m"
  by (auto simp: marker_def marks_def unused_made_def)

lemma escaped_loop_double:
  assumes "SQ \<notin> set zNL" "SQ \<notin> set zCR"
  shows "escaped_loop zNL zCR z = concat (map sql_double (concat (map (mark_ends zNL zCR) z)))"
proof -
  have "concat (map sql_double m) = m" if "SQ \<notin> set m" for m
    using that by (intro concat_map_single) (auto simp: sql_double_def)
  then show ?thesis
    unfolding escaped_loop_concat
    by (induction z) (use assms in \<open>auto simp: mark_ends_def sql_double_def [of SQ]\<close>)
qed

lemma sql_term_literal: "cur z = SQ \<Longrightarrow> sql_term z = sql_literal z"
  by (subst sql_term.simps) (auto simp: prefix_def)

lemma after_append [simp]: "after p (p @ z) = Some z"
  by (simp add: after_def)

lemma sql_term_replace:
  assumes "sql_term (t @ '','' @ [SQ] @ m @ [SQ] @ '',char('' @ n @ r) = Some (x, '','' @ [SQ] @ m @ [SQ] @ '',char('' @ n @ r)"
    and "SQ \<notin> set m" "sql_char (n @ r) = Some (y, r)"
  shows "sql_term (''replace('' @ t @ '','' @ [SQ] @ m @ [SQ] @ '',char('' @ n @ r) = Some (replace_all m y x, r)"
proof -
  have "concat (map sql_double m) = m"
    using assms(2) by (intro concat_map_single) (auto simp: sql_double_def)
  then have l: "sql_literal ([SQ] @ m @ [SQ] @ '',char('' @ n @ r) = Some (m, '',char('' @ n @ r)"
    using sql_literal_double [of "'',char('' @ n @ r" m] by simp
  have "sql_replace x ('','' @ [SQ] @ m @ [SQ] @ '',char('' @ n @ r) = Some (replace_all m y x, r)"
    unfolding sql_replace_def after_append bind.bind_lunit l case_prod_conv assms(3) ..
  then show ?thesis
    using assms(1) by (subst sql_term.simps) (simp add: prefix_def)
qed

text \<open>Either a marker that the text does not have, or the character itself where the text has none.\<close>

definition mark_for :: "char \<Rightarrow> string \<Rightarrow> string \<Rightarrow> string \<Rightarrow> string \<Rightarrow> bool" where
  "mark_for c a b z m \<longleftrightarrow> (if c \<in> set z then marker a b m \<and> \<not> strstr z m else m = [c])"

lemma marks_ends: "marks ''n''" "marks ''012''" "marks ''r''" "marks ''015''"
  by (simp_all add: marks_def)

lemmas no_overlap_ends =
  no_overlap_marker [OF _ _ marks_ends(1,2) _ marks_ends(1,2)] no_overlap_marker [OF _ _ marks_ends(3,4) _ marks_ends(3,4)]
  no_overlap_marker [OF _ _ marks_ends(1,2) _ marks_ends(3,4)] no_overlap_marker [OF _ _ marks_ends(3,4) _ marks_ends(1,2)]

lemma clash_ends:
  assumes "marker ''n'' ''012'' m" "marker ''r'' ''015'' w"
  shows "clash m w"
  using assms by (auto simp: marker_def clash_def unused_made_def)

lemma replace_CR:
  assumes "mark_for LF ''n'' ''012'' z zNL" "marker ''r'' ''015'' zCR" "\<not> strstr z zCR"
  shows "replace_all zCR [CR] (concat (map (mark_ends zNL zCR) z)) = concat (map (mark_ends zNL [CR]) z)"
proof (rule replace_marked [where x = CR and M = "if LF \<in> set z then {zNL} else {}"])
  show "no_overlap zCR m \<and> no_overlap m zCR \<and> clash m zCR" if "m \<in> (if LF \<in> set z then {zNL} else {})" for m
  proof -
    have m: "marker ''n'' ''012'' m" using that assms(1) by (auto simp: mark_for_def split: if_splits)
    show ?thesis using no_overlap_ends(3) [OF m assms(2)] no_overlap_ends(4) [OF assms(2) m] clash_ends [OF m assms(2)] by simp
  qed
  show "no_overlap zCR zCR" using no_overlap_ends(2) [OF assms(2,2)] by simp
qed (use assms marker_cur [OF assms(2)] in \<open>auto simp: mark_ends_def mark_for_def split: if_splits\<close>)

lemma replace_LF:
  assumes "marker ''n'' ''012'' zNL" "\<not> strstr z zNL"
  shows "replace_all zNL [LF] (concat (map (mark_ends zNL [CR]) z)) = concat (map (mark_ends [LF] [CR]) z)"
proof (rule replace_marked [where x = LF and M = "{}"])
  show "no_overlap zNL zNL" using no_overlap_ends(1) [OF assms(1,1)] by simp
qed (use assms marker_cur [OF assms(1)] in \<open>auto simp: mark_ends_def\<close>)

lemma mark_ends_none: "concat (map (mark_ends [LF] [CR]) z) = z"
  by (rule concat_map_single) (simp add: mark_ends_def)

text \<open>What \<^verbatim>\<open>output_quoted_escaped_string\<close> writes, with its two choices.\<close>

definition escaped_text :: "string \<Rightarrow> string \<Rightarrow> string \<Rightarrow> string" where
  "escaped_text zNL zCR z =
     (if LF \<in> set z then ''replace('' else []) @ (if CR \<in> set z then ''replace('' else []) @
     [SQ] @ concat (map sql_double (concat (map (mark_ends zNL zCR) z))) @ [SQ] @
     (if CR \<in> set z then '','' @ [SQ] @ zCR @ [SQ] @ '',char('' @ ''13))'' else []) @
     (if LF \<in> set z then '','' @ [SQ] @ zNL @ [SQ] @ '',char('' @ ''10))'' else [])"

lemma output_quoted_escaped_cases:
  assumes "z = c_str s"
  obtains zNL zCR where "mark_for LF ''n'' ''012'' z zNL" "mark_for CR ''r'' ''015'' z zCR"
    "output_quoted_escaped_string s = Some (escaped_text zNL zCR z)"
proof -
  obtain n where n: "unused_string z (BSL # ''n'') (BSL # ''012'') = Some n" "marker ''n'' ''012'' n" "\<not> strstr z n"
    by (rule unused_string_marker)
  obtain r where r: "unused_string z (BSL # ''r'') (BSL # ''015'') = Some r" "marker ''r'' ''015'' r" "\<not> strstr z r"
    by (rule unused_string_marker)
  define zNL zCR where "zNL = (if LF \<in> set z then n else [LF])" and "zCR = (if CR \<in> set z then r else [CR])"
  have SQ: "SQ \<notin> set n" "SQ \<notin> set r" using marker_SQ n(2) r(2) marks_ends by blast+
  have cong: "concat (map sql_double (concat (map (mark_ends zNL zCR) z))) =
      escaped_loop (if LF \<in> set z then n else []) (if CR \<in> set z then r else []) z"
  proof -
    have eq: "map (mark_ends zNL zCR) z = map (mark_ends (if LF \<in> set z then n else []) (if CR \<in> set z then r else [])) z"
      by (auto simp: mark_ends_def zNL_def zCR_def)
    show ?thesis unfolding eq by (rule escaped_loop_double [symmetric]) (simp_all add: SQ)
  qed
  show thesis
  proof (rule that)
    show "mark_for LF ''n'' ''012'' z zNL" "mark_for CR ''r'' ''015'' z zCR"
      using n r by (simp_all add: mark_for_def zNL_def zCR_def)
    have single: "escaped_loop [] [] z = z" if "SQ \<notin> set z" "LF \<notin> set z" "CR \<notin> set z"
      unfolding escaped_loop_concat using that by (intro concat_map_single) (auto simp: mark_ends_def)
    show "output_quoted_escaped_string s = Some (escaped_text zNL zCR z)"
      unfolding escaped_text_def cong output_quoted_escaped_string_def Let_def assms [symmetric]
      using n(1) r(1) single by (simp add: zNL_def zCR_def)
  qed
qed

lemma sql_char_10: "sql_char (''10))'' @ r) = Some ([LF], r)"
  by (simp add: sql_char_def after_def)

lemma sql_char_13: "sql_char (''13))'' @ r) = Some ([CR], r)"
  by (simp add: sql_char_def after_def)

lemma sql_term_double:
  "cur r \<noteq> SQ \<Longrightarrow> sql_term ([SQ] @ concat (map sql_double z) @ [SQ] @ r) = Some (z, r)"
  using sql_literal_double by (simp add: sql_term_literal)

lemma escaped_term:
  assumes "mark_for LF ''n'' ''012'' z zNL" "mark_for CR ''r'' ''015'' z zCR" "cur r \<noteq> SQ"
  shows "sql_term (escaped_text zNL zCR z @ r) = Some (z, r)"
proof -
  define lit where "lit = [SQ] @ concat (map sql_double (concat (map (mark_ends zNL zCR) z))) @ [SQ]"
  define cr where "cr = (if CR \<in> set z then ''replace('' @ lit @ '','' @ [SQ] @ zCR @ [SQ] @ '',char('' @ ''13))'' else lit)"
  have lit: "sql_term (lit @ x) = Some (concat (map (mark_ends zNL zCR) z), x)" if "cur x \<noteq> SQ" for x
    using sql_term_double [OF that] by (simp add: lit_def)
  have cr: "sql_term (cr @ x) = Some (concat (map (mark_ends zNL [CR]) z), x)" if "cur x \<noteq> SQ" for x
  proof (cases "CR \<in> set z")
    case True
    then have m: "marker ''r'' ''015'' zCR" "\<not> strstr z zCR" using assms(2) by (simp_all add: mark_for_def)
    have "sql_term (''replace('' @ lit @ '','' @ [SQ] @ zCR @ [SQ] @ '',char('' @ ''13))'' @ x) =
        Some (replace_all zCR [CR] (concat (map (mark_ends zNL zCR) z)), x)"
      by (rule sql_term_replace [OF lit marker_SQ [OF m(1) marks_ends(3,4)] sql_char_13]) simp
    then show ?thesis using True replace_CR [OF assms(1) m] by (simp add: cr_def)
  next
    case False
    then have "zCR = [CR]" using assms(2) by (simp add: mark_for_def)
    then show ?thesis using False lit [OF that] by (simp add: cr_def)
  qed
  show ?thesis
  proof (cases "LF \<in> set z")
    case True
    then have m: "marker ''n'' ''012'' zNL" "\<not> strstr z zNL" using assms(1) by (simp_all add: mark_for_def)
    have "sql_term (''replace('' @ cr @ '','' @ [SQ] @ zNL @ [SQ] @ '',char('' @ ''10))'' @ r) =
        Some (replace_all zNL [LF] (concat (map (mark_ends zNL [CR]) z)), r)"
      by (rule sql_term_replace [OF cr marker_SQ [OF m(1) marks_ends(1,2)] sql_char_10]) simp
    then show ?thesis using True replace_LF [OF m] mark_ends_none
      by (cases "CR \<in> set z") (simp_all add: cr_def lit_def escaped_text_def)
  next
    case False
    then have "zNL = [LF]" using assms(1) by (simp add: mark_for_def)
    then show ?thesis using False cr [OF assms(3)] mark_ends_none
      by (cases "CR \<in> set z") (simp_all add: cr_def lit_def escaped_text_def)
  qed
qed

lemma concat_map_notin: "(\<And>c. c \<in> set z \<Longrightarrow> x \<notin> set (f c)) \<Longrightarrow> x \<notin> set (concat (map f z))"
  by auto

lemma marker_ends: "marker a b m \<Longrightarrow> x \<notin> set a \<Longrightarrow> x \<notin> set b \<Longrightarrow> x \<in> {LF, CR} \<Longrightarrow> x \<notin> set m"
  using fmt_nat_digits [of LF] fmt_nat_digits [of CR]
  by (auto simp: marker_def unused_made_def ctype_defs ord_char_def)

lemma escaped_no_ends:
  assumes "output_quoted_escaped_string z = Some t" "x \<in> {LF, CR}"
  shows "x \<notin> set t"
proof -
  obtain zNL zCR where m: "mark_for LF ''n'' ''012'' (c_str z) zNL" "mark_for CR ''r'' ''015'' (c_str z) zCR"
    and t: "output_quoted_escaped_string z = Some (escaped_text zNL zCR (c_str z))"
    by (rule output_quoted_escaped_cases [OF refl])
  have n: "LF \<in> set (c_str z) \<Longrightarrow> x \<notin> set zNL" "CR \<in> set (c_str z) \<Longrightarrow> x \<notin> set zCR"
    using m assms(2) marker_ends [of "''n''" "''012''" zNL x] marker_ends [of "''r''" "''015''" zCR x]
    by (auto simp: mark_for_def)
  have "x \<notin> set (mark_ends zNL zCR c)" if "c \<in> set (c_str z)" for c
    using n that assms(2) by (auto simp: mark_ends_def)
  then have "x \<notin> set (concat (map (mark_ends zNL zCR) (c_str z)))" by (rule concat_map_notin)
  moreover have "x \<notin> set (sql_double c)" if "c \<noteq> x" for c
    using that assms(2) by (auto simp: sql_double_def)
  ultimately have "x \<notin> set (concat (map sql_double (concat (map (mark_ends zNL zCR) (c_str z)))))"
    by (intro concat_map_notin) metis
  then show ?thesis using assms t n by (auto simp: escaped_text_def split: if_splits)
qed

text \<open>
  C16: A text that the shell quotes for SQL is read back as it was.  The literal of
  \<^verbatim>\<open>output_quoted_string\<close> denotes the text; the expression of
  \<^verbatim>\<open>output_quoted_escaped_string\<close> always exists, which is to say that the search for an unused marker ends, it has no
  line end in it, and its value is the text with all its line ends, whatever the text has in it that looks like a marker.
  Both hold wherever the expression stands, unless another quote follows at once.
\<close>

theorem sql_quoting_exact:
  assumes "cur r \<noteq> SQ"
  shows "sql_term (output_quoted_string z @ r) = Some (c_str z, r) \<and>
    (\<exists>t. output_quoted_escaped_string z = Some t \<and> sql_term (t @ r) = Some (c_str z, r) \<and>
         LF \<notin> set t \<and> CR \<notin> set t)"
proof
  show "sql_term (output_quoted_string z @ r) = Some (c_str z, r)"
    using sql_term_double [OF assms] by (simp add: output_quoted_string_concat)
  obtain t where t: "output_quoted_escaped_string z = Some t" "sql_term (t @ r) = Some (c_str z, r)"
    using output_quoted_escaped_cases [OF refl, of z] escaped_term [OF _ _ assms] by metis
  then show "\<exists>t. output_quoted_escaped_string z = Some t \<and> sql_term (t @ r) = Some (c_str z, r) \<and>
         LF \<notin> set t \<and> CR \<notin> set t"
    using escaped_no_ends [OF t(1)] by blast
qed

theorem sql_quoting_exact_witness:
  "cur '');'' \<noteq> SQ \<and>
   sql_term (the (output_quoted_escaped_string (BSL # ''n'' @ [LF, SQ, CR])) @ '');'') = Some (BSL # ''n'' @ [LF, SQ, CR], '');'')"
  using sql_quoting_exact [of "'');''" "BSL # ''n'' @ [LF, SQ, CR]"] by (auto simp: c_str_def)

section \<open>JSON and HTML\<close>

text \<open>
  A JSON string after its opening quote, as RFC 8259 has it, for bytes: a control character must not stand for
  itself, and a \<^verbatim>\<open>\u\<close> escape is read when it denotes one byte.
\<close>

definition json_simple :: "char \<Rightarrow> char option" where
  "json_simple e = map_of
     [(DQ, DQ), (BSL, BSL), (CHR ''/'', CHR ''/''), (CHR ''b'', CHR 0x08), (CHR ''f'', CHR 0x0C),
      (CHR ''n'', LF), (CHR ''r'', CR), (CHR ''t'', TAB)] e"

fun json_chars :: "string \<Rightarrow> (string \<times> string) option" where
  "json_chars [] = None"
| "json_chars (c # z) =
     (if c = DQ then Some ([], z)
      else if c = BSL then
        (case z of
           [] \<Rightarrow> None
         | e # z1 \<Rightarrow>
             if e = CHR ''u'' then
               (case z1 of
                  a # b # h # l # z2 \<Rightarrow>
                    if a = CHR ''0'' \<and> b = CHR ''0'' \<and> 0 \<le> hexDigitValue h \<and> 0 \<le> hexDigitValue l
                    then map_option (apfst (Cons (char_of (nat (16 * hexDigitValue h + hexDigitValue l))))) (json_chars z2)
                    else None
                | _ \<Rightarrow> None)
             else
               (case json_simple e of
                  None \<Rightarrow> None
                | Some d \<Rightarrow> map_option (apfst (Cons d)) (json_chars z1)))
      else if ord_char c \<le> 31 then None
      else map_option (apfst (Cons c)) (json_chars z))"

definition json_value :: "string \<Rightarrow> (string \<times> string) option" where
  "json_value z = (if cur z = DQ then json_chars (tl z) else None)"

text \<open>The character references of HTML that the shell writes; other characters stand for themselves.\<close>

definition html_refs :: "(string \<times> char) list" where
  "html_refs = [(''&lt;'', CHR ''<''), (''&amp;'', CHR ''&''), (''&gt;'', CHR ''>''), (''&quot;'', DQ), (''&#39;'', SQ)]"

function html_value :: "string \<Rightarrow> string" where
  "html_value z =
     (if z = [] then []
      else
        case find (\<lambda>(p, _). prefix p z \<and> p \<noteq> []) html_refs of
          None \<Rightarrow> hd z # html_value (tl z)
        | Some (p, c) \<Rightarrow> c # html_value (drop (length p) z))"
  by pat_completeness auto
termination
  by (relation "measure length") (auto simp: neq_Nil_conv find_Some_iff)

declare html_value.simps [simp del]

lemma xdigit_value: "d < 16 \<Longrightarrow> hexDigitValue (xdigit_char d) = int d"
proof -
  assume "d < 16"
  have "ord_char (char_of m) = int m" if "m < 256" for m :: nat
    using that by (metis ord_char_def of_nat_of_char of_char_of mod_less)
  then have "ord_char (xdigit_char d) = (if d < 10 then 48 + int d else 87 + int d)"
    using \<open>d < 16\<close> by (simp add: xdigit_char_def)
  then show ?thesis using \<open>d < 16\<close> by (simp add: hexDigitValue_def Let_def)
qed

lemma hex2_text_Cons: obtains h l where "hex2_text c = [h, l]"
    "hexDigitValue h \<ge> 0" "hexDigitValue l \<ge> 0" "char_of (nat (16 * hexDigitValue h + hexDigitValue l)) = c"
proof
  define n where "n = (of_char c :: nat)"
  have n: "n < 256" "char_of n = c" by (simp_all add: n_def)
  then have d: "n div 16 < 16" "n mod 16 < 16" by auto
  show "hex2_text c = [xdigit_char (n div 16), xdigit_char (n mod 16)]" by (simp add: hex2_text_def n_def Let_def)
  show "hexDigitValue (xdigit_char (n div 16)) \<ge> 0" "hexDigitValue (xdigit_char (n mod 16)) \<ge> 0"
    by (simp_all add: xdigit_value d)
  have "int (16 * (n div 16) + n mod 16) = 16 * int (n div 16) + int (n mod 16)" by (simp only: of_nat_add of_nat_mult of_nat_numeral)
  then have "nat (16 * int (n div 16) + int (n mod 16)) = n" by (metis mult_div_mod_eq nat_int)
  then show "char_of (nat (16 * hexDigitValue (xdigit_char (n div 16)) + hexDigitValue (xdigit_char (n mod 16)))) = c"
    using d n(2) by (simp add: xdigit_value)
qed

lemma json_chars_char: "json_chars (json_char c @ z) = map_option (apfst (Cons c)) (json_chars z)"
proof (cases "c \<in> {BSL, DQ, CHR 0x08, CHR 0x0C, LF, CR, TAB} \<or> \<not> ord_char c \<le> 31")
  case True
  then show ?thesis by (auto simp: json_char_def json_simple_def ord_char_def)
next
  case False
  obtain h l where "hex2_text c = [h, l]" "hexDigitValue h \<ge> 0" "hexDigitValue l \<ge> 0"
    "char_of (nat (16 * hexDigitValue h + hexDigitValue l)) = c" by (rule hex2_text_Cons)
  with False show ?thesis by (simp add: json_char_def)
qed

lemma json_chars_chars: "json_chars (concat (map json_char t) @ DQ # r) = Some (t, r)"
  by (induction t) (simp_all add: json_chars_char)

lemma html_loop_concat: "html_loop z = concat (map (\<lambda>c. if html_plain c then [c] else html_char c) z)"
proof (induction z rule: html_loop.induct)
  case (1 z)
  have e: "concat (map (\<lambda>c. if html_plain c then [c] else html_char c) z) = takeWhile html_plain z @
      concat (map (\<lambda>c. if html_plain c then [c] else html_char c) (dropWhile html_plain z))"
    by (rule concat_map_takeWhile) simp
  show ?case
  proof (cases "dropWhile html_plain z")
    case Nil
    show ?thesis unfolding e by (subst html_loop.simps) (simp add: Nil del: dropWhile_eq_Nil_conv)
  next
    case (Cons c z')
    then have "\<not> html_plain c" by (rule dropWhile_Cons_hd)
    moreover have z: "z \<noteq> []" using Cons by auto
    ultimately show ?thesis unfolding e using 1 [OF z Cons] by (subst html_loop.simps) (simp add: Cons)
  qed
qed

lemma html_value_char: "html_value ((if html_plain c then [c] else html_char c) @ z) = c # html_value z"
  by (subst html_value.simps) (auto simp: html_plain_def html_char_def html_refs_def)

text \<open>
  C21: What the shell writes as JSON or as HTML is read back as it was.  The JSON string, which may be a blob with any
  bytes in it, ends where it should and has no control character in it; the HTML text denotes the value and has
  no character in it that could open or close a tag or an attribute.
\<close>

theorem json_html_exact:
  "json_value (output_json_string z (- 1) @ r) = Some (c_str z, r) \<and>
   json_value (output_json_string b (int (length b)) @ r) = Some (b, r) \<and>
   html_value (output_html_string (Some z)) = c_str z \<and>
   set (output_html_string (Some z)) \<inter> {CHR ''<'', CHR ''>'', DQ, SQ} = {}"
proof (intro conjI)
  have "take (length (c_str z)) z = c_str z" unfolding c_str_def by (rule takeWhile_eq_take [symmetric])
  then show "json_value (output_json_string z (- 1) @ r) = Some (c_str z, r)"
    using json_chars_chars [of "c_str z" r] by (simp add: json_value_def output_json_string_def Let_def)
  show "json_value (output_json_string b (int (length b)) @ r) = Some (b, r)"
    using json_chars_chars [of b r] by (simp add: json_value_def output_json_string_def Let_def)
  have "html_value (concat (map (\<lambda>c. if html_plain c then [c] else html_char c) t)) = t" for t
    by (induction t) (simp_all add: html_value_char html_value.simps [of "[]"] del: if_split)
  then show "html_value (output_html_string (Some z)) = c_str z"
    by (simp add: output_html_string_def html_loop_concat)
  show "set (output_html_string (Some z)) \<inter> {CHR ''<'', CHR ''>'', DQ, SQ} = {}"
    by (auto simp: output_html_string_def html_loop_concat html_plain_def html_char_def split: if_splits)
qed

end
