(* ===== verification/Shell_Insert.thy ===== *)
theory Shell_Insert
  imports Decimal_Double Shell_Quote Shell_Rows
begin

text \<open>
  The mode \<^verbatim>\<open>insert\<close> of the shell, which is also how \<^verbatim>\<open>.dump\<close> writes the rows of a table: the list of
  values of the statement is read back, with the reader for SQL expressions of \<open>Shell_Quote\<close>, as the row.  What numerals
  denote is said by \<open>dec_numeral\<close>.
\<close>

section \<open>Lists of values\<close>

datatype sql_item = NullItem | TextItem string | NumItem string | BlobItem string

definition num_char :: "char \<Rightarrow> bool" where
  "num_char c \<longleftrightarrow> isdigit c \<or> c = CHR ''+'' \<or> c = CHR ''-'' \<or> c = CHR ''.'' \<or> c = CHR ''e'' \<or> c = CHR ''E''"

definition num_text :: "string \<Rightarrow> bool" where
  "num_text z \<longleftrightarrow> z \<noteq> [] \<and> (\<forall>c \<in> set z. num_char c)"

fun blob_chars :: "string \<Rightarrow> (string \<times> string) option" where
  "blob_chars (h # l # z) =
     (if h = SQ then Some ([], l # z)
      else if 0 \<le> hexDigitValue h \<and> 0 \<le> hexDigitValue l
      then map_option (apfst (Cons (char_of (nat (16 * hexDigitValue h + hexDigitValue l))))) (blob_chars z)
      else None)"
| "blob_chars z = (if z = [SQ] then Some ([], []) else None)"

definition read_item :: "string \<Rightarrow> (sql_item \<times> string) option" where
  "read_item z =
     (case after ''NULL'' z of
        Some r \<Rightarrow> Some (NullItem, r)
      | None \<Rightarrow>
          (case after (''X'' @ [SQ]) z of
             Some r \<Rightarrow> map_option (apfst BlobItem) (blob_chars r)
           | None \<Rightarrow>
               (case sql_term z of
                  Some (t, r) \<Rightarrow> Some (TextItem t, r)
                | None \<Rightarrow>
                    if num_char (cur z) then Some (NumItem (takeWhile num_char z), dropWhile num_char z) else None)))"

text \<open>The values up to the closing parenthesis; \<open>n\<close> is their number.\<close>

fun read_items :: "nat \<Rightarrow> string \<Rightarrow> (sql_item list \<times> string) option" where
  "read_items 0 z = None"
| "read_items (Suc n) z =
     (case read_item z of
        None \<Rightarrow> None
      | Some (v, r) \<Rightarrow>
          if cur r = CHR '','' then map_option (apfst (Cons v)) (read_items n (tl r))
          else if cur r = CHR '')'' \<and> n = 0 then Some ([v], tl r)
          else None)"

section \<open>Values\<close>

definition closes :: "string \<Rightarrow> bool" where
  "closes r \<longleftrightarrow> cur r = CHR '','' \<or> cur r = CHR '')''"

lemma after_cur: "z \<noteq> [] \<Longrightarrow> p \<noteq> [] \<Longrightarrow> cur z \<noteq> cur p \<Longrightarrow> after p z = None"
  by (cases z; cases p) (simp_all add: after_def)

lemma read_null: "read_item (''NULL'' @ r) = Some (NullItem, r)"
  by (simp add: read_item_def after_def)

lemma blob_chars_hex: "r \<noteq> [] \<Longrightarrow> blob_chars (concat (map hex2_text b) @ SQ # r) = Some (b, r)"
proof (induction b)
  case Nil
  then show ?case by (cases r) simp_all
next
  case (Cons c b)
  obtain h l where "hex2_text c = [h, l]" "hexDigitValue h \<ge> 0" "hexDigitValue l \<ge> 0"
    "char_of (nat (16 * hexDigitValue h + hexDigitValue l)) = c" by (rule hex2_text_Cons)
  moreover have "hexDigitValue SQ = - 1" by (simp add: hexDigitValue_def ord_char_def)
  ultimately show ?case using Cons by auto
qed

lemma read_blob: "r \<noteq> [] \<Longrightarrow> read_item (output_hex_blob b @ r) = Some (BlobItem b, r)"
  using blob_chars_hex [of r b] by (simp add: read_item_def output_hex_blob_def after_def)

lemma read_text:
  assumes "sql_term (t @ r) = Some (z, r)" "cur t = SQ \<or> cur t = CHR ''r''" "t \<noteq> []"
  shows "read_item (t @ r) = Some (TextItem z, r)"
proof -
  have "cur (t @ r) = cur t" using assms(3) by (cases t) auto
  then have "after ''NULL'' (t @ r) = None" "after (''X'' @ [SQ]) (t @ r) = None"
    using assms(2,3) by (auto intro!: after_cur)
  then show ?thesis using assms(1) by (simp add: read_item_def)
qed

lemma not_num_char [simp]: "\<not> num_char CHR '',''" "\<not> num_char CHR '')''" "\<not> num_char SQ" "\<not> num_char CHR ''N''"
  "\<not> num_char CHR ''X''" "\<not> num_char CHR ''r''"
  by (simp_all add: num_char_def ctype_defs ord_char_def)

lemma read_num:
  assumes "num_text z" "closes r"
  shows "read_item (z @ r) = Some (NumItem z, r)"
proof -
  obtain c z' where z: "z = c # z'" "num_char c" using assms(1) by (cases z) (auto simp: num_text_def)
  obtain d r' where r: "r = d # r'" "\<not> num_char d" using assms(2) by (cases r) (auto simp: closes_def)
  have c: "c \<noteq> CHR ''N''" "c \<noteq> CHR ''X''" "c \<noteq> CHR ''r''" "c \<noteq> SQ" using z(2) by auto
  then have "after ''NULL'' (z @ r) = None" "after (''X'' @ [SQ]) (z @ r) = None"
    by (intro after_cur; simp add: z(1))+
  moreover have "sql_term (z @ r) = None"
    using c by (subst sql_term.simps) (simp add: z(1) sql_literal_def)
  moreover have "takeWhile num_char (z @ r) = z" "dropWhile num_char (z @ r) = r"
    using assms(1) r by (simp_all add: num_text_def)
  ultimately show ?thesis using z by (simp add: read_item_def)
qed

lemma quote_value_read:
  assumes "closes r"
  shows "read_item (quote_value p z @ r) = Some (TextItem (c_str z), r)"
proof -
  have r: "cur r \<noteq> SQ" using assms by (auto simp: closes_def)
  have lit: "sql_term (output_quoted_string z @ r) = Some (c_str z, r)"
    using sql_term_double [OF r] by (simp add: output_quoted_string_concat)
  obtain zNL zCR where e: "mark_for LF ''n'' ''012'' (c_str z) zNL" "mark_for CR ''r'' ''015'' (c_str z) zCR"
    "output_quoted_escaped_string z = Some (escaped_text zNL zCR (c_str z))"
    by (rule output_quoted_escaped_cases [OF refl])
  have esc: "sql_term (escaped_text zNL zCR (c_str z) @ r) = Some (c_str z, r)" by (rule escaped_term [OF e(1,2) r])
  show ?thesis
  proof (cases "newlines p")
    case True
    then show ?thesis using read_text [OF lit] by (simp add: quote_value_def output_quoted_string_def Let_def)
  next
    case False
    have "cur (escaped_text zNL zCR (c_str z)) = SQ \<or> cur (escaped_text zNL zCR (c_str z)) = CHR ''r''"
      "escaped_text zNL zCR (c_str z) \<noteq> []" by (auto simp: escaped_text_def)
    then show ?thesis using read_text [OF esc] False e(3) by (simp add: quote_value_def)
  qed
qed

lemma num_text_fmt_int: "num_text (fmt_int i)"
proof -
  have "isdigit c" if "c \<in> set (map digit_char (nat_digits n))" for c n
    using that nat_digits_bounds [of n] isdigit_digit_char by auto
  moreover have "fmt_int i \<noteq> []" by (simp add: fmt_int_def)
  ultimately show ?thesis by (auto simp: num_text_def num_char_def fmt_int_def)
qed

lemma num_text_append: "num_text a \<Longrightarrow> num_text b \<Longrightarrow> num_text (a @ b)"
  by (auto simp: num_text_def)

text \<open>
  The numeral \<open>z\<close> stands for the double \<open>r\<close>: for an infinity it denotes a number that is out of the range of doubles, for
  an integer of 64 bits that integer, and for another number it is the numeral that the core prints.
\<close>

definition real_text :: "row_env \<Rightarrow> double \<Rightarrow> string \<Rightarrow> bool" where
  "real_text E r z \<longleftrightarrow>
     (if dbl_finite r then
        if \<exists>i. s64 i \<and> double_val r = of_int i then dec_numeral z (double_val r) else z = fmt_g20 E r
      else \<exists>v. dec_numeral z v \<and> (if dbl_neg r then v \<le> - (2 ^ 1024) else 2 ^ 1024 \<le> v))"

text \<open>The item stands for the value of a column of the given type.\<close>

definition value_item :: "row_env \<Rightarrow> nat \<Rightarrow> column_type \<Rightarrow> string option \<Rightarrow> sql_item \<Rightarrow> bool" where
  "value_item E i ty v it \<longleftrightarrow>
     (case v of
        None \<Rightarrow> it = NullItem
      | Some z \<Rightarrow>
          (case ty of
             TY_NULL \<Rightarrow> it = NullItem
           | TY_TEXT \<Rightarrow> it = TextItem (c_str z)
           | TY_INTEGER \<Rightarrow> it = NumItem (c_str z)
           | TY_FLOAT \<Rightarrow> (\<exists>t. it = NumItem t \<and> real_text E (column_double E i) t)
           | TY_BLOB \<Rightarrow> it = BlobItem (column_blob E i)))"

text \<open>
  What the core documents of numbers: the text of an integer and the text that \<^verbatim>\<open>%!.20g\<close> makes of a finite number have only digits, signs, a point and an
  exponent, and no column is a NaN, which the core turns into NULL.
\<close>

definition numbers_ok :: "row_env \<Rightarrow> column_type list \<Rightarrow> string option list \<Rightarrow> bool" where
  "numbers_ok E ts vs \<longleftrightarrow> (\<forall>i < length vs. \<forall>z. vs ! i = Some z \<longrightarrow>
     (ts ! i = TY_INTEGER \<longrightarrow> num_text (c_str z)) \<and>
     (ts ! i = TY_FLOAT \<longrightarrow> \<not> dbl_nan (column_double E i) \<and> (dbl_finite (column_double E i) \<longrightarrow> num_text (fmt_g20 E (column_double E i)))))"

lemma infinite_bits:
  assumes "\<not> dbl_nan r"
  shows "uint r = 0x7ff0000000000000 \<longleftrightarrow> \<not> dbl_finite r \<and> \<not> dbl_neg r" "uint r = 0xfff0000000000000 \<longleftrightarrow> \<not> dbl_finite r \<and> dbl_neg r"
  using uint_split [of r] dbl_bounds [of r] assms by (auto simp: dbl_nan_def dbl_finite_def split: if_splits)

lemma dbl_int64_integer:
  "dbl_finite r \<Longrightarrow> dbl_is_int r (dbl_int64 r) \<longleftrightarrow> (\<exists>i. s64 i \<and> double_val r = of_int i)"
proof
  assume f: "dbl_finite r" and "dbl_is_int r (dbl_int64 r)"
  moreover have "s64 (dbl_int64 r)" by (simp add: dbl_int64_def Let_def s64_def)
  ultimately show "\<exists>i. s64 i \<and> double_val r = of_int i" by (auto simp: dbl_is_int_def)
next
  assume f: "dbl_finite r" and "\<exists>i. s64 i \<and> double_val r = of_int i"
  then obtain i where i: "s64 i" "double_val r = of_int i" by blast
  then have "dbl_int64 r = i" using f by (simp add: dbl_int64_def Let_def del: of_int_minus flip: of_int_minus)
  then show "dbl_is_int r (dbl_int64 r)" using f i by (simp add: dbl_is_int_def)
qed

lemma integral_numeral: "dec_numeral (fmt_int m @ ''.0'') (of_int m)"
  unfolding dec_numeral_def
proof (intro exI conjI)
  let ?d = "map digit_char (nat_digits (nat \<bar>m\<bar>))"
  note t = nat_digits_text [of "nat \<bar>m\<bar>"]
  show "fmt_int m @ ''.0'' = [] @ (if m < 0 then ''-'' else []) @ ?d @ ''.0'' @ []" by (simp add: fmt_int_def)
  show "exp_part [] 0" by (simp add: exp_part_def)
  have "dval (map digit_of (?d @ ''0'')) = 10 * dval (map digit_of ?d)" by (simp add: dval_def digit_of_def ord_char_def)
  then show "of_int m = (if (if m < 0 then ''-'' else []) = ''-'' then - 1 else 1) *
      rat_of_int (dval (map digit_of (?d @ tl ''.0''))) * 10 powi (0 - int (length (tl ''.0'')))"
    using t(1) by (simp add: power_int_minus del: map_map)
  show "\<forall>c \<in> set ?d. isdigit c" using t(2) by auto
qed (simp_all add: isdigit_def ord_char_def)

lemma infinite_numeral: "dec_numeral (sg @ ''1e999'') ((if sg = ''-'' then - 1 else 1) * 10 ^ 999)" if "sg = [] \<or> sg = ''-''"
  unfolding dec_numeral_def
proof (intro exI conjI)
  show "sg @ ''1e999'' = [] @ sg @ ''1'' @ [] @ ''e999''" by simp
  show "exp_part ''e999'' 999"
    unfolding exp_part_def by (rule disjI2, rule exI [of _ "CHR ''e''"], rule exI [of _ "[]"], rule exI [of _ "''999''"])
      (simp add: isdigit_def ord_char_def dval_def digit_of_def)
  have "dval (map digit_of (''1'' @ tl [])) = 1" by (simp add: dval_def digit_of_def ord_char_def)
  moreover have "999 - int (length (tl ([] :: string))) = int 999" by simp
  then have "10 powi (999 - int (length (tl ([] :: string)))) = (10 :: rat) ^ 999" by (simp only: power_int_of_nat)
  ultimately show "(if sg = ''-'' then - 1 else 1) * 10 ^ 999 = (if sg = ''-'' then - 1 else 1) * rat_of_int (dval (map digit_of (''1'' @ tl []))) *
      10 powi (999 - int (length (tl ([] :: string))))" by (simp only: of_int_1 mult_1_right)
  show "sg = [] \<or> sg = ''+'' \<or> sg = ''-''" using that by blast
qed (simp_all add: isdigit_def ord_char_def)

lemma infinite_range: "(2 :: rat) ^ 1024 \<le> 10 ^ 999"
proof -
  have "(2 :: rat) ^ (3 * k + 1) \<le> 10 ^ (k + 1)" for k
  proof -
    have "(8 :: rat) ^ k \<le> 10 ^ k" "0 \<le> (10 :: rat) ^ k" by (simp_all add: power_mono)
    then have "2 * (8 :: rat) ^ k \<le> 10 * 10 ^ k" by linarith
    then show ?thesis by (simp add: power_mult)
  qed
  moreover have "3 * 341 + 1 = (1024 :: nat)" "341 + 1 = (342 :: nat)" by simp_all
  ultimately have "(2 :: rat) ^ 1024 \<le> 10 ^ 342" by metis
  also have "\<dots> \<le> 10 ^ 999" by (rule power_increasing) simp_all
  finally show ?thesis .
qed

lemma insert_float_text:
  assumes "\<not> dbl_nan r" "dbl_finite r \<longrightarrow> num_text (fmt_g20 E r)"
  shows "num_text (insert_float E r)" "real_text E r (insert_float E r)"
proof -
  note I = infinite_bits [OF assms(1)]
  have n: "num_text ''1e999''" "num_text ''-1e999''" "num_text ''.0''"
    by (simp_all add: num_text_def num_char_def ctype_defs ord_char_def)
  show "num_text (insert_float E r)"
    using n num_text_append [OF num_text_fmt_int] assms I by (auto simp: insert_float_def)
  have p: "\<exists>v. dec_numeral ''1e999'' v \<and> 2 ^ 1024 \<le> v"
    using infinite_numeral [of "[]"] infinite_range by (intro exI [of _ "10 ^ 999"]) (simp only: append_Nil list.distinct if_False mult_1_left simp_thms)
  have m: "\<exists>v. dec_numeral ''-1e999'' v \<and> v \<le> - (2 ^ 1024)"
    using infinite_numeral [of "''-''"] infinite_range
    by (intro exI [of _ "- (10 ^ 999)"]) (simp only: append_Cons append_Nil if_True mult_minus1 neg_le_iff_le simp_thms)
  have "real_text E r (insert_float E r)" if "dbl_finite r"
    using that I dbl_int64_integer [OF that] integral_numeral [of "dbl_int64 r"] by (auto simp: insert_float_def real_text_def dbl_is_int_def)
  moreover have "real_text E r (insert_float E r)" if "\<not> dbl_finite r"
    using that I p m by (cases "dbl_neg r") (simp_all only: insert_float_def real_text_def if_True if_False simp_thms)
  ultimately show "real_text E r (insert_float E r)" by blast
qed

text \<open>The item that is written for a column.\<close>

definition row_item :: "row_env \<Rightarrow> nat \<Rightarrow> column_type \<Rightarrow> string option \<Rightarrow> sql_item" where
  "row_item E i ty v =
     (case v of
        None \<Rightarrow> NullItem
      | Some z \<Rightarrow>
          (case ty of
             TY_NULL \<Rightarrow> NullItem
           | TY_TEXT \<Rightarrow> TextItem (c_str z)
           | TY_INTEGER \<Rightarrow> NumItem (c_str z)
           | TY_FLOAT \<Rightarrow> NumItem (insert_float E (column_double E i))
           | TY_BLOB \<Rightarrow> BlobItem (column_blob E i)))"

lemma row_item_value: "numbers_ok E ts vs \<Longrightarrow> i < length vs \<Longrightarrow> value_item E i (ts ! i) (vs ! i) (row_item E i (ts ! i) (vs ! i))"
  using insert_float_text(2) [of "column_double E i" E]
  by (auto simp: numbers_ok_def value_item_def row_item_def split: option.splits column_type.splits)

lemma insert_value_read:
  assumes "pStmt p" "numbers_ok E ts vs" "i < length vs" "closes r"
  shows "read_item (insert_value E p (Some ts) i (vs ! i) @ r) = Some (row_item E i (ts ! i) (vs ! i), r)"
proof (cases "vs ! i")
  case None
  then show ?thesis by (simp add: insert_value_def row_item_def read_null del: append_Cons)
next
  case (Some z)
  have r: "r \<noteq> []" using assms(4) by (auto simp: closes_def)
  show ?thesis
  proof (cases "ts ! i")
    case TY_INTEGER
    then show ?thesis
      using Some assms read_num [OF _ assms(4)] by (simp add: insert_value_def row_item_def is_type_def numbers_ok_def)
  next
    case TY_FLOAT
    then have n: "num_text (insert_float E (column_double E i))"
      using Some assms(2,3) by (intro insert_float_text(1)) (auto simp: numbers_ok_def)
    then show ?thesis using Some TY_FLOAT read_num [OF n assms(4)] by (simp add: insert_value_def row_item_def is_type_def)
  next
    case TY_TEXT
    then show ?thesis using Some quote_value_read [OF assms(4)] by (simp add: insert_value_def row_item_def is_type_def)
  next
    case TY_BLOB
    then show ?thesis using Some assms(1) read_blob [OF r] by (simp add: insert_value_def row_item_def is_type_def)
  next
    case TY_NULL
    then show ?thesis using Some by (simp add: insert_value_def row_item_def is_type_def read_null del: append_Cons)
  qed
qed

text \<open>The list of values from one of them on.\<close>

definition values_from :: "row_env \<Rightarrow> ShellState \<Rightarrow> column_type list \<Rightarrow> string option list \<Rightarrow> nat \<Rightarrow> string" where
  "values_from E p ts vs k = concat (map (\<lambda>i. (if i > k then '','' else []) @ insert_value E p (Some ts) i (vs ! i)) [k..<length vs])"

lemma values_from_Suc:
  assumes "k < length vs"
  shows "values_from E p ts vs k = insert_value E p (Some ts) k (vs ! k) @
     (if Suc k < length vs then '','' @ values_from E p ts vs (Suc k) else [])"
proof -
  have up: "[k..<length vs] = k # [Suc k..<length vs]" using assms by (simp add: upt_rec)
  show ?thesis
  proof (cases "Suc k < length vs")
    case True
    then have "[Suc k..<length vs] = Suc k # [Suc (Suc k)..<length vs]" by (simp add: upt_rec)
    then show ?thesis unfolding values_from_def up using True by (auto intro!: arg_cong [where f = concat])
  qed (simp add: values_from_def up)
qed

lemma read_items_from:
  assumes "pStmt p" "numbers_ok E ts vs" "k < length vs"
  shows "read_items (length vs - k) (values_from E p ts vs k @ '')'' @ r) =
     Some (map (\<lambda>i. row_item E i (ts ! i) (vs ! i)) [k..<length vs], r)"
  using assms(3)
proof (induction "length vs - k" arbitrary: k)
  case (Suc n)
  have up: "[k..<length vs] = k # [Suc k..<length vs]" "length vs - k = Suc n" using Suc by (simp_all add: upt_rec)
  show ?case
  proof (cases "Suc k < length vs")
    case True
    have n: "n = length vs - Suc k" using Suc(2) by simp
    have "read_item (values_from E p ts vs k @ '')'' @ r) =
        Some (row_item E k (ts ! k) (vs ! k), '','' @ values_from E p ts vs (Suc k) @ '')'' @ r)"
      unfolding values_from_Suc [OF Suc(3)]
      using insert_value_read [OF assms(1,2) Suc(3), of "'','' @ values_from E p ts vs (Suc k) @ '')'' @ r"] True
      by (simp add: closes_def)
    then show ?thesis using Suc(1) [OF n True] up n by simp
  next
    case False
    then have "n = 0" "[Suc k..<length vs] = []" using Suc by simp_all
    moreover have "read_item (values_from E p ts vs k @ '')'' @ r) = Some (row_item E k (ts ! k) (vs ! k), '')'' @ r)"
      unfolding values_from_Suc [OF Suc(3)]
      using insert_value_read [OF assms(1,2) Suc(3), of "'')'' @ r"] False by (simp add: closes_def)
    ultimately show ?thesis using up by simp
  qed
qed simp

lemma indexed_map: "indexed vs = map (\<lambda>i. (i, vs ! i)) [0..<length vs]"
  unfolding indexed_def by (rule nth_equalityI) simp_all

lemma values_list:
  assumes "vs \<noteq> []"
  shows "concat (map (\<lambda>(i, v). (if i > 0 then '','' else '' VALUES('') @ insert_value E p (Some ts) i v) (indexed vs)) =
     '' VALUES('' @ values_from E p ts vs 0"
proof -
  have up: "[0..<length vs] = 0 # [Suc 0..<length vs]" using assms by (simp add: upt_rec)
  have "map (\<lambda>i. (if i > 0 then '','' else '' VALUES('') @ insert_value E p (Some ts) i (vs ! i)) [Suc 0..<length vs] =
      map (\<lambda>i. (if i > 0 then '','' else []) @ insert_value E p (Some ts) i (vs ! i)) [Suc 0..<length vs]" by simp
  then show ?thesis by (simp add: indexed_map values_from_def comp_def up del: map_eq_conv)
qed

text \<open>
  C17: A row in the mode \<^verbatim>\<open>insert\<close> is a statement with the values of the row.  For a row of a statement with column types, in which the core gives
  numbers as numerals and no column is a NaN, \<^verbatim>\<open>shell_callback\<close> writes one INSERT statement; its list of values has as many members as there are columns, and each of them
  reads as the value of the column: NULL, the exact text with any quotes and line ends in it, the numeral of an integer, the bytes of the blob, or a numeral for the floating
  point number: of the same value if that is a 64-bit integer, of a value out of range with the right sign if it is an infinity, and otherwise the one that the core prints with \<^verbatim>\<open>%!.20g\<close>.
\<close>

theorem insert_row_exact:
  assumes "cMode p = MODE_Insert" "pStmt p" "vs \<noteq> []" "numbers_ok E ts vs"
  shows "\<exists>names values items. out (shell_callback E p (Some vs) cs (Some ts)) =
       out p @ ''INSERT INTO '' @ zDestTable p @ names @ '' VALUES('' @ values \<and>
     names = (if showHeader p then ''('' @ sep_text '','' (map (insert_name E) cs) @ '')'' else []) \<and>
     read_items (length vs) values = Some (items, '';'' @ [LF]) \<and> length items = length vs \<and>
     (\<forall>i < length vs. value_item E i (ts ! i) (vs ! i) (items ! i))"
proof (intro exI conjI)
  show "out (shell_callback E p (Some vs) cs (Some ts)) =
       out p @ ''INSERT INTO '' @ zDestTable p @
       (if showHeader p then ''('' @ sep_text '','' (map (insert_name E) cs) @ '')'' else []) @
       '' VALUES('' @ values_from E p ts vs 0 @ '')'' @ '';'' @ [LF]"
    using assms(1) values_list [OF assms(3), of E p ts]
    by (simp add: shell_callback_def mode_insert_def put_def count_row_def)
  show "read_items (length vs) (values_from E p ts vs 0 @ '')'' @ '';'' @ [LF]) =
      Some (map (\<lambda>i. row_item E i (ts ! i) (vs ! i)) [0..<length vs], '';'' @ [LF])"
    using read_items_from [OF assms(2,4), of 0 "'';'' @ [LF]"] assms(3) by simp
qed (simp_all add: row_item_value [OF assms(4)])

definition insert_example :: ShellState where
  "insert_example =
     \<lparr>out = [], cMode = MODE_Insert, cnt = 0, showHeader = False, newlines = False, colSeparator = ''|'', rowSeparator = [LF],
      nullValue = [], zDestTable = ''t'', pStmt = True, autoEQPtest = False, sGraph = [], aiIndent = None, iIndent = 0\<rparr>"

definition insert_env :: row_env where
  "insert_env =
     \<lparr>column_double = \<lambda>_. 0xC008000000000000, column_blob = \<lambda>_. [CHR 0xFF], fmt_g20 = \<lambda>_. ''0.5'', strglob = \<lambda>_ _. False, strlike = \<lambda>_ _. False,
      keyword_check = \<lambda>_. False\<rparr>"

theorem insert_row_exact_witness:
  "\<exists>values t. out (shell_callback insert_env insert_example (Some [Some ''-7'', Some [SQ, LF], None, Some ''-3.0'']) [] (Some [TY_INTEGER, TY_TEXT, TY_NULL, TY_FLOAT])) =
       ''INSERT INTO t VALUES('' @ values \<and>
     read_items 4 values = Some ([NumItem ''-7'', TextItem [SQ, LF], NullItem, NumItem t], '';'' @ [LF]) \<and> dec_numeral t (- 3)"
proof -
  let ?vs = "[Some ''-7'', Some [SQ, LF], None, Some ''-3.0'']" and ?ts = "[TY_INTEGER, TY_TEXT, TY_NULL, TY_FLOAT]"
  have "\<not> dbl_nan 0xC008000000000000" by code_simp
  then have "numbers_ok insert_env ?ts ?vs"
    by (auto simp: numbers_ok_def insert_env_def num_text_def num_char_def ctype_defs ord_char_def c_str_def nth_Cons split: nat.splits)
  then obtain names shown items where R: "out (shell_callback insert_env insert_example (Some ?vs) [] (Some ?ts)) = ''INSERT INTO t'' @ names @ '' VALUES('' @ shown"
    "names = []" "read_items 4 shown = Some (items, '';'' @ [LF])" "length items = 4"
    "\<forall>i < 4. value_item insert_env i (?ts ! i) (?vs ! i) (items ! i)"
    using insert_row_exact [of insert_example ?vs insert_env ?ts "[]"] by (auto simp: insert_example_def eval_nat_numeral simp del: read_items.simps)
  have "double_val 0xC008000000000000 = of_int (- 3)" "s64 (- 3)" "dbl_finite 0xC008000000000000" by code_simp+
  then have f: "real_text insert_env 0xC008000000000000 t \<longleftrightarrow> dec_numeral t (- 3)" for t unfolding real_text_def by auto
  obtain a b c d where i: "items = [a, b, c, d]" using R(4) by (auto simp: numeral_eq_Suc length_Suc_conv)
  then have "a = NumItem ''-7''" "b = TextItem [SQ, LF]" "c = NullItem" "\<exists>t. d = NumItem t \<and> dec_numeral t (- 3)"
    using R(5) [rule_format, of 0] R(5) [rule_format, of 1] R(5) [rule_format, of 2] R(5) [rule_format, of 3] f
    by (simp_all add: value_item_def c_str_def insert_env_def numeral_eq_Suc)
  then show ?thesis using R i by auto
qed

end
