(* ===== verification/Shell_Words.thy ===== *)
theory Shell_Words
  imports Shell_Text
begin

text \<open>
  The words of a command.  What \<^verbatim>\<open>output_c_string\<close> writes is what the loop in
  \<^verbatim>\<open>do_meta_command\<close> together with \<^verbatim>\<open>resolve_backslashes\<close> reads.
\<close>

section \<open>Escapes\<close>

lemma resolve_loop_Nil [simp]: "resolve_loop [] = []"
  by (subst resolve_loop.simps) simp

lemma resolve_loop_plain: "c \<noteq> BSL \<Longrightarrow> resolve_loop (c # z) = c # resolve_loop z"
  by (subst resolve_loop.simps) simp

lemma resolve_loop_escape:
  "resolve_loop (BSL # c # z) = fst (resolve_escape c z) # resolve_loop (snd (resolve_escape c z))"
  by (subst resolve_loop.simps) simp

lemma resolve_backslashes_loop: "resolve_backslashes z = resolve_loop (c_str z)"
proof -
  have "takeWhile (\<lambda>c. c \<noteq> BSL) y @ resolve_loop (dropWhile (\<lambda>c. c \<noteq> BSL) y) = resolve_loop y" for y
    by (induction y) (auto simp: resolve_loop_plain)
  then show ?thesis by (simp add: resolve_backslashes_def Let_def)
qed

text \<open>An octal escape has three digits, so that a digit that follows it is not taken for one of its own.\<close>

lemma is_octal_digit: "d < 8 \<Longrightarrow> is_octal (digit_char d) \<and> of_char (digit_char d) = 48 + d"
proof -
  assume "d < 8"
  then have "of_char (digit_char d) = 48 + d" by (simp add: digit_char_def)
  then show ?thesis using ord_digit_char [of d] \<open>d < 8\<close> by (simp add: is_octal_def)
qed

lemma resolve_octal3:
  fixes c :: char
  assumes "octal3 c = d # e"
  shows "resolve_octal d (e @ z) = (c, z)" "is_octal d"
proof -
  define n where "n = (of_char c :: nat)"
  have n: "n < 256" "char_of n = c" by (simp_all add: n_def)
  have de: "d = digit_char (n div 64)" "e = [digit_char (n div 8 mod 8), digit_char (n mod 8)]"
    using assms by (simp_all add: octal3_def n_def [symmetric] Let_def)
  have lt: "n div 64 < 8" "n div 8 mod 8 < 8" "n mod 8 < 8" using n(1) by auto
  have "8 * (8 * (n div 64) + n div 8 mod 8) + n mod 8 = n"
    by (metis (no_types) div_mult2_eq mult_div_mod_eq num_double numeral_times_numeral)
  moreover have "8 * (n div 64) + n div 8 mod 8 < 256" using lt n(1) by linarith
  ultimately show "resolve_octal d (e @ z) = (c, z)"
    using lt n is_octal_digit by (simp add: resolve_octal_def de octal_step_def Let_def)
  show "is_octal d" using is_octal_digit lt(1) by (simp add: de)
qed

lemma octal3_Cons: obtains d e f where "octal3 c = [d, e, f]" "is_octal d" "is_octal e" "is_octal f"
proof (rule that)
  show "octal3 c = [digit_char (of_char c div 64), digit_char (of_char c div 8 mod 8), digit_char (of_char c mod 8)]"
    by (simp add: octal3_def Let_def)
  have "(of_char c :: nat) div 64 < 8" using nat_of_char_less_256 [of c] by linarith
  then show "is_octal (digit_char (of_char c div 64))" using is_octal_digit by blast
qed (simp_all add: is_octal_digit)

lemma is_octal_set: "is_octal c \<Longrightarrow> c \<in> set ''01234567''"
proof -
  assume "is_octal c"
  moreover define n where "n = (of_char c :: nat)"
  moreover have "ord_char c = int n" by (simp add: ord_char_def n_def of_nat_of_char)
  ultimately have "n \<in> {48, 49, 50, 51, 52, 53, 54, 55}" by (auto simp: is_octal_def)
  then have "\<exists>d \<in> set ''01234567''. of_char d = n" by auto
  then show ?thesis by (auto simp: n_def)
qed

lemma is_octal_not: "is_octal c \<Longrightarrow> c \<noteq> BSL \<and> c \<noteq> DQ \<and> c \<noteq> NUL \<and> \<not> isalpha c"
  by (drule is_octal_set) (auto simp: ctype_defs ord_char_def)

lemma resolve_escape_octal: "is_octal c \<Longrightarrow> resolve_escape c z = resolve_octal c z"
  using is_octal_set [of c] by (auto simp: resolve_escape_def)

lemma resolve_c_char: "resolve_loop (c_char c @ z) = c # resolve_loop z"
proof (cases "c \<in> {BSL, DQ, TAB, LF, CR} \<or> isprint c")
  case True
  then show ?thesis
    by (auto simp: c_char_def resolve_loop_escape resolve_loop_plain resolve_escape_def is_octal_def ord_char_def)
next
  case False
  obtain d e f where d: "octal3 c = [d, e, f]" "is_octal d" by (rule octal3_Cons [of c])
  then show ?thesis
    using False resolve_octal3(1) [OF d(1), of z]
    by (simp add: c_char_def resolve_loop_escape resolve_escape_octal)
qed

lemma resolve_c_chars: "resolve_loop (concat (map c_char t)) = t"
  by (induction t) (simp_all add: resolve_c_char)

lemma c_char_no_NUL: "c \<noteq> NUL \<Longrightarrow> NUL \<notin> set (c_char c)"
proof -
  assume "c \<noteq> NUL"
  obtain d e f where "octal3 c = [d, e, f]" "is_octal d" "is_octal e" "is_octal f" by (rule octal3_Cons [of c])
  then show ?thesis using \<open>c \<noteq> NUL\<close> is_octal_not by (auto simp: c_char_def)
qed

lemma quoted_word_plain: "c \<noteq> DQ \<Longrightarrow> c \<noteq> BSL \<Longrightarrow> quoted_word DQ (c # z) = apfst (Cons c) (quoted_word DQ z)"
  by (simp add: split_beta apfst_def map_prod_def)

lemma quoted_word_escape: "quoted_word DQ (BSL # c # z) = apfst (append [BSL, c]) (quoted_word DQ z)"
  by (simp add: split_beta apfst_def map_prod_def)

lemma quoted_word_c_char: "quoted_word DQ (c_char c @ z) = apfst (append (c_char c)) (quoted_word DQ z)"
proof (cases "c \<in> {BSL, DQ, TAB, LF, CR} \<or> isprint c")
  case True
  then show ?thesis
    by (auto simp: c_char_def quoted_word_escape quoted_word_plain simp del: quoted_word.simps)
next
  case False
  obtain d e f where "octal3 c = [d, e, f]" "is_octal d" "is_octal e" "is_octal f" by (rule octal3_Cons [of c])
  then show ?thesis
    using False is_octal_not
    by (simp add: c_char_def quoted_word_escape quoted_word_plain apfst_compose comp_def del: quoted_word.simps)
qed

lemma quoted_word_c_chars:
  "quoted_word DQ (concat (map c_char t) @ DQ # r) = (concat (map c_char t), r)"
  by (induction t) (simp_all add: quoted_word_c_char)

section \<open>Lines\<close>

lemma arg_loop_quoted:
  assumes "0 < room"
  shows "arg_loop room ('' '' @ output_c_string t @ r) = c_str t # arg_loop (room - 1) r"
proof -
  have "NUL \<notin> set (concat (map c_char (c_str t)))" using c_char_no_NUL by (auto simp: c_str_def dest: set_takeWhileD)
  then have "resolve_backslashes (concat (map c_char (c_str t))) = c_str t"
    by (simp add: resolve_backslashes_loop c_str_id resolve_c_chars)
  then show ?thesis
    using assms by (subst arg_loop.simps) (simp add: output_c_string_def quoted_word_c_chars ctype_defs ord_char_def)
qed

lemma arg_loop_words:
  "arg_loop room (concat (map (\<lambda>t. '' '' @ output_c_string t) ts)) = take room (map c_str ts)"
proof (induction ts arbitrary: room)
  case Nil
  then show ?case by (subst arg_loop.simps) simp
next
  case (Cons t ts)
  show ?case
  proof (cases "room = 0")
    case True
    then show ?thesis by (subst arg_loop.simps) simp
  next
    case False
    then show ?thesis using arg_loop_quoted [of room t] Cons.IH [of "room - 1"] by (cases room) simp_all
  qed
qed

text \<open>
  C18: The words of a command survive quoting.  A line that consists of a command and of any
  texts, each written by \<^verbatim>\<open>output_c_string\<close>, is split by \<^verbatim>\<open>do_meta_command\<close> into the command and exactly
  these texts, up to the 51 words it has room for; every byte but NUL can be in them.
\<close>

theorem command_words:
  assumes "cmd \<noteq> []" "\<forall>c \<in> set cmd. \<not> isspace c \<and> c \<noteq> BSL \<and> c \<noteq> NUL" "cur cmd \<noteq> SQ" "cur cmd \<noteq> DQ"
  shows "meta_args (''.'' @ cmd @ concat (map (\<lambda>t. '' '' @ output_c_string t) ts)) = cmd # take 50 (map c_str ts)"
proof -
  define r where "r = concat (map (\<lambda>t. '' '' @ output_c_string t) ts)"
  have "NUL \<notin> set (output_c_string t)" for t
    using c_char_no_NUL by (auto simp: output_c_string_def c_str_def dest: set_takeWhileD)
  then have "NUL \<notin> set (''.'' @ cmd @ r)" using assms(2) by (auto simp: r_def)
  then have line: "c_str (''.'' @ cmd @ r) = ''.'' @ cmd @ r" by (rule c_str_id)
  obtain c cmd' where c: "cmd = c # cmd'" using assms(1) by (cases cmd) auto
  have sp: "dropWhile isspace (cmd @ r) = cmd @ r" using assms(2) by (simp add: c)
  have r: "r = [] \<or> (\<exists>r'. r = CHR '' '' # r' \<and> ts \<noteq> [])" by (cases ts) (simp_all add: r_def)
  have "takeWhile (\<lambda>c. \<not> isspace c) (cmd @ y) = cmd @ takeWhile (\<lambda>c. \<not> isspace c) y"
    "dropWhile (\<lambda>c. \<not> isspace c) (cmd @ y) = dropWhile (\<lambda>c. \<not> isspace c) y" for y
    using assms(2) by (induction cmd) simp_all
  then have tw: "takeWhile (\<lambda>c. \<not> isspace c) (cmd @ r) = cmd" "dropWhile (\<lambda>c. \<not> isspace c) (cmd @ r) = r"
    using r by (auto simp: ctype_defs ord_char_def)
  have res: "resolve_backslashes cmd = cmd"
  proof -
    have "resolve_loop y = y" if "\<forall>c \<in> set y. c \<noteq> BSL" for y
      using that by (induction y) (simp_all add: resolve_loop_plain)
    moreover have "c_str cmd = cmd" using assms(2) by (intro c_str_id) auto
    ultimately show ?thesis using assms(2) by (simp add: resolve_backslashes_loop)
  qed
  have tl: "arg_loop 50 (tl r) = arg_loop 50 r"
  proof (cases ts)
    case (Cons t ts')
    define y where "y = output_c_string t @ concat (map (\<lambda>t. '' '' @ output_c_string t) ts')"
    have "r = CHR '' '' # y" "y \<noteq> []" by (simp_all add: r_def y_def Cons output_c_string_def)
    then show ?thesis
      by (subst (1 2) arg_loop.simps) (simp add: ctype_defs ord_char_def)
  qed (simp add: r_def)
  have "arg_loop 51 (cmd @ r) = cmd # arg_loop 50 (tl r)"
    using assms(3, 4) sp tw res by (subst arg_loop.simps) (simp add: c)
  then show ?thesis using line tl arg_loop_words [of 50 ts] by (simp add: meta_args_def r_def)
qed

theorem command_words_witness:
  "meta_args (''.separator'' @ concat (map (\<lambda>t. '' '' @ output_c_string t) [[DQ, BSL, CHR 0x01, CHR ''7''], [LF]])) =
     [''separator'', [DQ, BSL, CHR 0x01, CHR ''7''], [LF]]"
  using command_words [of "''separator''" "[[DQ, BSL, CHR 0x01, CHR ''7''], [LF]]"]
  by (simp add: ctype_defs ord_char_def c_str_def)

section \<open>Numbers as arguments\<close>

lemma dec_arg_digits:
  assumes "\<forall>d \<in> set ds. d < 10" "0 \<le> v" "s64 (foldl (\<lambda>v d. 10 * v + int d) v ds)" "\<not> isdigit (cur r)"
  shows "dec_arg v (map digit_char ds @ r) = (foldl (\<lambda>v d. 10 * v + int d) v ds, r)"
  using assms
proof (induction ds arbitrary: v)
  case Nil
  then show ?case by (cases r) simp_all
next
  case (Cons d ds)
  have mono: "0 \<le> x \<Longrightarrow> x \<le> foldl (\<lambda>v d. 10 * v + int d) x es" for x es
  proof (induction es arbitrary: x)
    case (Cons e es)
    from Cons.IH [of "10 * x + int e"] Cons.prems show ?case by simp
  qed simp
  have "s64 (10 * v + int d)" using mono [of "10 * v + int d" ds] Cons.prems(2,3) by (simp add: s64_def)
  then have "to_s64 (10 * v + ord_char (digit_char d) - 48) = 10 * v + int d"
    using Cons.prems(1) by (simp add: ord_digit_char wrap_simps)
  then show ?case using Cons by (simp add: isdigit_digit_char)
qed

lemma foldl_int: "foldl (\<lambda>v d. 10 * v + int d) (int n) ds = int (foldl (\<lambda>v d. 10 * v + d) n ds)"
proof (induction ds arbitrary: n)
  case (Cons d ds)
  from Cons [of "10 * n + d"] show ?case by simp
qed simp

lemma dec_arg_nat:
  assumes "s64 (int n)" "\<not> isdigit (cur r)"
  shows "dec_arg 0 (map digit_char (nat_digits n) @ r) = (int n, r)"
  using dec_arg_digits [of "nat_digits n" 0 r] nat_digits_bounds foldl_int [of 0 "nat_digits n"] nat_digits_value [of n] assms by simp

lemma multipliers:
  "find (\<lambda>(s, _). stricmp_eq s []) aMult = None \<and>
   (\<forall>(z, m) \<in> set aMult. find (\<lambda>(s, _). stricmp_eq s z) aMult = Some (z, m) \<and> \<not> isdigit (cur z) \<and> cur z \<noteq> CHR ''x'' \<and> NUL \<notin> set z)"
  by code_simp

text \<open>
  An integer with one of the suffixes of \<^verbatim>\<open>integerValue\<close>, or with none, is read as the product, when it fits into 64 bits.
\<close>

lemma integerValue_exact:
  assumes "(z, m) \<in> insert ([], 1) (set aMult)" "s64 \<bar>n\<bar>" "s64 (\<bar>n\<bar> * m)"
  shows "integerValue (fmt_int n @ z) = n * m"
proof -
  define ds where "ds = map digit_char (nat_digits (nat \<bar>n\<bar>))"
  have z: "\<not> isdigit (cur z)" "cur z \<noteq> CHR ''x''" "NUL \<notin> set z"
    "(case find (\<lambda>(s, _). stricmp_eq s z) aMult of None \<Rightarrow> v | Some (_, k) \<Rightarrow> to_s64 (v * k)) = (if z = [] then v else to_s64 (v * m))" for v
    using assms(1) multipliers by (auto split: if_splits)
  have ds: "\<forall>c \<in> set ds. isdigit c" "ds \<noteq> []"
    using nat_digits_bounds isdigit_digit_char by (auto simp: ds_def)
  then have cur: "isdigit (cur (ds @ z))" by (cases ds) auto
  have "NUL \<notin> set (fmt_int n @ z)" using ds z(3) by (auto simp: fmt_int_def ds_def [symmetric])
  then have c: "c_str (fmt_int n @ z) = (if n < 0 then ''-'' else []) @ ds @ z" by (simp add: c_str_id fmt_int_def ds_def)
  have no0x: "cur (tl (ds @ z)) \<noteq> CHR ''x''"
  proof (cases ds)
    case (Cons c cs)
    have "\<not> isdigit CHR ''x''" by (simp add: ctype_defs ord_char_def)
    then show ?thesis using ds(1) z(2) by (cases cs) (auto simp: Cons)
  qed (use ds in simp)
  have dec: "dec_arg 0 (ds @ z) = (\<bar>n\<bar>, z)"
    using dec_arg_nat [of "nat \<bar>n\<bar>" z] assms(2) z(1) by (simp add: ds_def)
  have m: "(if z = [] then \<bar>n\<bar> else to_s64 (\<bar>n\<bar> * m)) = \<bar>n\<bar> * m"
  proof (cases "z = []")
    case True
    then have "m = 1" using assms(1) by (auto simp: aMult_def)
    then show ?thesis using True by simp
  qed (simp add: wrap_simps assms(3))
  have sgn: "isdigit c \<Longrightarrow> c \<noteq> CHR ''-'' \<and> c \<noteq> CHR ''+''" for c by (auto simp: ctype_defs ord_char_def)
  have "0 < m" using assms(1) by (auto simp: aMult_def)
  then have "0 \<le> \<bar>n\<bar> * m" by simp
  then have neg: "to_s64 (- (\<bar>n\<bar> * m)) = - (\<bar>n\<bar> * m)" using assms(3) by (simp add: wrap_simps s64_def)
  define a where "a = \<bar>n\<bar>"
  have "integerValue (fmt_int n @ z) = (if n < 0 then - (a * m) else a * m)"
    unfolding integerValue_def c Let_def
    using no0x cur sgn [OF cur] neg [folded a_def] dec [folded a_def] z(4) [of a] m [folded a_def] by simp
  then show ?thesis by (simp add: a_def)
qed

section \<open>A text that grows\<close>

text \<open>After \<^verbatim>\<open>appendText\<close> there is always a place for the terminator within the allocation.\<close>

lemma appendText_fits: "length (st_z (appendText p z q)) < st_nAlloc (appendText p z q)"
proof -
  have "length (concat (map (\<lambda>c. if c = q then [c, q] else [c]) y)) = length y + length (filter (\<lambda>c. c = q) y)" for y
    by (induction y) simp_all
  then show ?thesis by (simp add: appendText_def Let_def)
qed

end
