(* ===== verification/Shell_Input.thy ===== *)
theory Shell_Input
  imports Shell_Text
begin

text \<open>
  How the shell reads its input: \<^verbatim>\<open>local_getline\<close>, the scanner \<^verbatim>\<open>quickscan\<close> that is resumed from line to line, and the loop of
  \<^verbatim>\<open>process_input\<close> that collects lines into SQL text and runs it.  Running SQL, running a dot command and \<^verbatim>\<open>sqlite3_complete\<close> are
  arguments.  Scanning line by line is shown to be the same as scanning the collected text from its start, and with it the
  loop equals one without any state of a scanner.
\<close>

section \<open>Lines\<close>

text \<open>
  \<^verbatim>\<open>local_getline\<close> on a stream without NUL bytes: the line without its end, and the rest of the stream.
  The buffer grows as needed.
\<close>

definition local_getline :: "string \<Rightarrow> (string \<times> string) option" where
  "local_getline input =
     (if input = [] then None
      else
        let line = takeWhile (\<lambda>c. c \<noteq> LF) input
        in case dropWhile (\<lambda>c. c \<noteq> LF) input of
             [] \<Rightarrow> Some (line, [])
           | _ # rest \<Rightarrow> Some (if line \<noteq> [] \<and> last line = CR then butlast line else line, rest))"

section \<open>The scanner\<close>

text \<open>
  \<^verbatim>\<open>QuickScanState\<close>: the bits \<^verbatim>\<open>QSS_HasDark\<close> and \<^verbatim>\<open>QSS_EndingSemi\<close>, and the character in the low byte that the scan
  waits for, which is NUL outside quotes and comments.
\<close>

record QuickScanState =
  dark :: bool
  semi :: bool
  cWait :: char

definition QSS_Start :: QuickScanState where
  "QSS_Start = \<lparr>dark = False, semi = False, cWait = NUL\<rparr>"

definition QSS_INPLAIN :: "QuickScanState \<Rightarrow> bool" where
  "QSS_INPLAIN q \<longleftrightarrow> cWait q = NUL"

definition QSS_PLAINWHITE :: "QuickScanState \<Rightarrow> bool" where
  "QSS_PLAINWHITE q \<longleftrightarrow> cWait q = NUL \<and> \<not> dark q"

definition QSS_SEMITERM :: "QuickScanState \<Rightarrow> bool" where
  "QSS_SEMITERM q \<longleftrightarrow> cWait q = NUL \<and> semi q"

text \<open>The two loops of \<^verbatim>\<open>quickscan\<close>; \<^verbatim>\<open>goto\<close> is a call.\<close>

function (sequential) plain_scan :: "QuickScanState \<Rightarrow> string \<Rightarrow> QuickScanState"
  and term_scan :: "QuickScanState \<Rightarrow> string \<Rightarrow> QuickScanState" where
  "plain_scan q [] = q"
| "plain_scan q (c # z) =
     (if isspace c then plain_scan q z
      else if c = CHR ''-'' \<and> cur z = CHR ''-'' then
        (case dropWhile (\<lambda>c. c \<noteq> LF) (tl z) of
           [] \<Rightarrow> q
         | d # z' \<Rightarrow> plain_scan q (d # z'))
      else if c = CHR '';'' then plain_scan (q\<lparr>semi := True\<rparr>) z
      else if c = CHR ''/'' \<and> cur z = CHR ''*'' then term_scan (q\<lparr>cWait := CHR ''*''\<rparr>) (tl z)
      else if c = CHR ''['' then term_scan \<lparr>dark = True, semi = False, cWait = CHR '']''\<rparr> z
      else if c = CHR ''`'' \<or> c = SQ \<or> c = DQ then term_scan \<lparr>dark = True, semi = False, cWait = c\<rparr> z
      else plain_scan (q\<lparr>semi := False, dark := True\<rparr>) z)"
| "term_scan q [] = q"
| "term_scan q (c # z) =
     (if c = cWait q then
        (if c = CHR ''*'' then
           (if cur z \<noteq> CHR ''/'' then term_scan q z else plain_scan (q\<lparr>cWait := NUL\<rparr>) (tl z))
         else if (c = CHR ''`'' \<or> c = SQ \<or> c = DQ) \<and> cur z = c then term_scan q (tl z)
         else plain_scan (q\<lparr>cWait := NUL\<rparr>) z)
      else term_scan q z)"
  by pat_completeness auto
termination
proof (relation "measure (\<lambda>s. case s of Inl (_, z) \<Rightarrow> length z | Inr (_, z) \<Rightarrow> length z)", goal_cases)
  case (3 q c z d z')
  have "length (dropWhile (\<lambda>c. c \<noteq> LF) (tl z)) \<le> length (tl z)" by (rule length_dropWhile_le)
  with 3 show ?case by simp
qed auto

definition quickscan :: "string \<Rightarrow> QuickScanState \<Rightarrow> QuickScanState" where
  "quickscan zLine q = (if cWait q = NUL then plain_scan q (c_str zLine) else term_scan q (c_str zLine))"

definition line_is_command_terminator :: "string \<Rightarrow> bool" where
  "line_is_command_terminator zLine =
     (let z = dropWhile isspace (c_str zLine)
      in if cur z = CHR ''/'' then quickscan (tl z) QSS_Start = QSS_Start
         else if tolower (cur z) = CHR ''g'' \<and> tolower (cur (tl z)) = CHR ''o'' then quickscan (drop 2 z) QSS_Start = QSS_Start
         else False)"

section \<open>The loop\<close>

text \<open>
  What the loop calls: \<^verbatim>\<open>sqlite3_complete\<close>, \<^verbatim>\<open>echo_group_input\<close>, \<^verbatim>\<open>do_meta_command\<close> with its result, \<^verbatim>\<open>runOneSqlLine\<close> with
  the line on which the text starts and the number of errors, and what happens to the output after it.  \<open>'a\<close> is the rest of the state of the shell.
\<close>

record 'a input_env =
  complete :: "string \<Rightarrow> bool"
  echo_group_input :: "string \<Rightarrow> 'a \<Rightarrow> 'a"
  do_meta_command :: "string \<Rightarrow> 'a \<Rightarrow> int \<times> 'a"
  runOneSqlLine :: "string \<Rightarrow> nat \<Rightarrow> 'a \<Rightarrow> nat \<times> 'a"
  after_sql :: "'a \<Rightarrow> 'a"
  bail_on_error :: "'a \<Rightarrow> bool"
  from_file :: bool \<comment> \<open>\<^verbatim>\<open>p->in!=0\<close>\<close>
  stdin_is_interactive :: bool

text \<open>
  \<^verbatim>\<open>zSql\<close> with \<^verbatim>\<open>nSql\<close>: \<open>None\<close> while nothing is allocated, otherwise the bytes in use.
\<close>

record 'a input_state =
  shell :: 'a
  lineno :: nat
  zSql :: "string option"
  errCnt :: nat
  startline :: nat
  qss :: QuickScanState

definition sql :: "'a input_state \<Rightarrow> string" where
  "sql s = (case zSql s of None \<Rightarrow> [] | Some z \<Rightarrow> z)"

definition line_is_complete :: "'a input_env \<Rightarrow> string option \<Rightarrow> bool" where
  "line_is_complete E z = (case z of None \<Rightarrow> True | Some z \<Rightarrow> complete E (z @ '';''))"

text \<open>Appending a line to the text; leading spaces of the first line are dropped.\<close>

definition collect :: "string \<Rightarrow> 'a input_state \<Rightarrow> 'a input_state" where
  "collect line s =
     (if sql s = [] then s\<lparr>zSql := Some (dropWhile isspace line), startline := lineno s\<rparr>
      else s\<lparr>zSql := Some (sql s @ [LF] @ line)\<rparr>)"

definition run_sql :: "'a input_env \<Rightarrow> 'a input_state \<Rightarrow> 'a input_state" where
  "run_sql E s =
     (let (e, x) = runOneSqlLine E (sql s) (startline s) (echo_group_input E (sql s) (shell s))
      in s\<lparr>shell := x, errCnt := errCnt s + e\<rparr>)"

definition run_complete :: "'a input_env \<Rightarrow> 'a input_state \<Rightarrow> 'a input_state" where
  "run_complete E s =
     (let s = run_sql E s in s\<lparr>shell := after_sql E (shell s), zSql := Some [], qss := QSS_Start\<rparr>)"

text \<open>One line, after the checks for interrupts: the new state, and whether the loop goes on.\<close>

definition replace_terminator :: "'a input_env \<Rightarrow> string \<Rightarrow> 'a input_state \<Rightarrow> string" where
  "replace_terminator E line s =
     (if QSS_INPLAIN (qss s) \<and> line_is_command_terminator line \<and> line_is_complete E (zSql s) then '';'' else line)"

definition meta_line :: "'a input_env \<Rightarrow> string \<Rightarrow> 'a input_state \<Rightarrow> 'a input_state \<times> bool" where
  "meta_line E line s =
     (let s = s\<lparr>shell := echo_group_input E line (shell s)\<rparr>
      in if cur line = CHR ''.'' then
           (let (rc, x) = do_meta_command E line (shell s); s = s\<lparr>shell := x\<rparr>
            in if rc = 2 then (s, False)
               else (s\<lparr>errCnt := errCnt s + (if rc \<noteq> 0 then 1 else 0), qss := QSS_Start\<rparr>, True))
         else (s\<lparr>qss := QSS_Start\<rparr>, True))"

definition process_line :: "'a input_env \<Rightarrow> string \<Rightarrow> 'a input_state \<Rightarrow> 'a input_state \<times> bool" where
  "process_line E zLine s =
     (let s = s\<lparr>lineno := Suc (lineno s)\<rparr>;
          line = replace_terminator E (c_str zLine) s;
          s = s\<lparr>qss := quickscan line (qss s)\<rparr>
      in if QSS_PLAINWHITE (qss s) \<and> sql s = [] then
           (s\<lparr>shell := echo_group_input E line (shell s), qss := QSS_Start\<rparr>, True)
         else if (cur line = CHR ''.'' \<or> cur line = CHR ''#'') \<and> sql s = [] then meta_line E line s
         else
           let s = collect line s
           in if sql s \<noteq> [] \<and> QSS_SEMITERM (qss s) \<and> complete E (sql s) then (run_complete E s, True)
              else if sql s \<noteq> [] \<and> QSS_PLAINWHITE (qss s) then
                (s\<lparr>shell := echo_group_input E (sql s) (shell s), zSql := Some [], qss := QSS_Start\<rparr>, True)
              else (s, True))"

text \<open>The loop over the lines; the flag of a line tells whether an interrupt was seen when it was read.\<close>

fun process_lines :: "'a input_env \<Rightarrow> (bool \<times> string) list \<Rightarrow> 'a input_state \<Rightarrow> 'a input_state" where
  "process_lines E [] s = s"
| "process_lines E ((intr, line) # ls) s =
     (if errCnt s = 0 \<or> \<not> bail_on_error E (shell s) \<or> (\<not> from_file E \<and> stdin_is_interactive E) then
        (if intr \<and> from_file E then s
         else
           let (s, go_on) = process_line E line s
           in if go_on then process_lines E ls s else s)
      else s)"

text \<open>\<^verbatim>\<open>process_input\<close> from its second half: nesting has been checked.  The result is \<^verbatim>\<open>errCnt>0\<close> and the state.\<close>

definition process_input :: "'a input_env \<Rightarrow> (bool \<times> string) list \<Rightarrow> 'a \<Rightarrow> bool \<times> 'a" where
  "process_input E ls x =
     (let s = process_lines E ls \<lparr>shell = x, lineno = 0, zSql = None, errCnt = 0, startline = 0, qss = QSS_Start\<rparr>;
          s = (if sql s \<noteq> [] then run_sql E s else s)
      in (errCnt s > 0, shell s))"

text \<open>The limit for input that reads input, checked first; \<open>nested\<close> is \<^verbatim>\<open>p->inputNesting\<close>.\<close>

definition process_nested :: "'a input_env \<Rightarrow> nat \<Rightarrow> (bool \<times> string) list \<Rightarrow> 'a \<Rightarrow> bool \<times> 'a" where
  "process_nested E nested ls x = (if nested = 25 then (True, x) else process_input E ls x)"

section \<open>Resuming the scan\<close>

definition scan_ok :: "QuickScanState \<Rightarrow> bool" where
  "scan_ok q \<longleftrightarrow> cWait q \<in> {NUL, CHR ''*'', CHR '']'', CHR ''`'', SQ, DQ}"

definition scan_from :: "QuickScanState \<Rightarrow> string \<Rightarrow> QuickScanState" where
  "scan_from q z = (if cWait q = NUL then plain_scan q z else term_scan q z)"

lemma plain_scan_space: "isspace c \<Longrightarrow> plain_scan q (c # z) = plain_scan q z"
  by simp

lemma isspace_LF [simp]: "isspace LF"
  by (simp add: ctype_defs ord_char_def)

lemma dropWhile_line:
  "dropWhile (\<lambda>c. c \<noteq> LF) (z @ LF # b) = (case dropWhile (\<lambda>c. c \<noteq> LF) z of [] \<Rightarrow> LF # b | d # z' \<Rightarrow> (d # z') @ LF # b)"
  by (induction z) simp_all

lemma plain_scan_comment:
  "plain_scan q (CHR ''-'' # CHR ''-'' # z) = (case dropWhile (\<lambda>c. c \<noteq> LF) z of [] \<Rightarrow> q | d # z' \<Rightarrow> plain_scan q (d # z'))"
  by (simp add: ctype_defs ord_char_def)

text \<open>The characters that are neither space nor the start of a comment, a quote or a semicolon.\<close>

lemma plain_scan_dark:
  assumes "\<not> isspace c" "\<not> (c = CHR ''-'' \<and> cur z = CHR ''-'')" "c \<noteq> CHR '';''" "\<not> (c = CHR ''/'' \<and> cur z = CHR ''*'')"
    "c \<noteq> CHR ''[''" "\<not> (c = CHR ''`'' \<or> c = SQ \<or> c = DQ)"
  shows "plain_scan q (c # z) = plain_scan (q\<lparr>semi := False, dark := True\<rparr>) z"
  using assms by auto

lemma term_scan_close:
  assumes "c = cWait q" "c \<noteq> CHR ''*''" "\<not> ((c = CHR ''`'' \<or> c = SQ \<or> c = DQ) \<and> cur z = c)"
  shows "term_scan q (c # z) = plain_scan (q\<lparr>cWait := NUL\<rparr>) z"
  using assms by auto

text \<open>
  Scanning two lines at once and one after the other: a scan that stops at the end of a line goes on with the next one.
\<close>

lemma scan_resume_aux:
  "scan_ok q \<Longrightarrow> cWait q = NUL \<Longrightarrow>
     scan_ok (plain_scan q a) \<and> plain_scan q (a @ LF # b) = scan_from (plain_scan q a) b"
  "scan_ok q \<Longrightarrow> cWait q \<noteq> NUL \<Longrightarrow>
     scan_ok (term_scan q a) \<and> term_scan q (a @ LF # b) = scan_from (term_scan q a) b"
proof (induction q a and q a rule: plain_scan_term_scan.induct)
  case (1 q)
  then show ?case by (simp add: scan_from_def)
next
  case (2 q c z)
  show ?case
  proof (cases "\<not> isspace c \<and> c = CHR ''-'' \<and> cur z = CHR ''-''")
    case True
    then obtain z1 where z: "z = CHR ''-'' # z1" by (cases z) auto
    have c: "c = CHR ''-''" using True by blast
    show ?thesis
    proof (cases "dropWhile (\<lambda>c. c \<noteq> LF) z1")
      case Nil
      then show ?thesis
        using 2(8,9) by (simp add: z c plain_scan_comment dropWhile_line scan_from_def del: plain_scan.simps(2) dropWhile_eq_Nil_conv)
          (simp add: plain_scan_space)
    next
      case (Cons d z2)
      then have "dropWhile (\<lambda>c. c \<noteq> LF) (tl z) = d # z2" by (simp add: z)
      from 2(2) [OF _ _ this 2(8,9)] show ?thesis
        using True by (auto simp: z c Cons plain_scan_comment dropWhile_line simp del: plain_scan.simps)
    qed
  next
    case False
    have c1: "cur (z @ LF # b) = CHR ''-'' \<longleftrightarrow> cur z = CHR ''-''" "cur (z @ LF # b) = CHR ''*'' \<longleftrightarrow> cur z = CHR ''*''"
      by (cases z; simp)+
    have tl: "tl (z @ LF # b) = tl z @ LF # b" if "cur z = CHR ''*''" using that by (cases z) auto
    consider (space) "isspace c" | (semi) "\<not> isspace c" "c = CHR '';''"
      | (comment) "\<not> isspace c" "c = CHR ''/''" "cur z = CHR ''*''" | (bracket) "\<not> isspace c" "c = CHR ''[''"
      | (quote) "\<not> isspace c" "c = CHR ''`'' \<or> c = SQ \<or> c = DQ"
      | (other) "\<not> isspace c" "c \<noteq> CHR '';''" "\<not> (c = CHR ''/'' \<and> cur z = CHR ''*'')" "c \<noteq> CHR ''[''"
          "\<not> (c = CHR ''`'' \<or> c = SQ \<or> c = DQ)" by blast
    then show ?thesis
    proof cases
      case space
      then show ?thesis using 2(1) 2(8,9) by simp
    next
      case semi
      then show ?thesis using 2(3) False 2(8,9) by (simp add: scan_ok_def)
    next
      case comment
      then show ?thesis using 2(4) False 2(8,9) c1 tl by (simp add: scan_ok_def)
    next
      case bracket
      then show ?thesis using 2(5) False by (simp add: scan_ok_def)
    next
      case quote
      then have "c \<noteq> CHR ''-''" "c \<noteq> CHR '';''" "c \<noteq> CHR ''/''" "c \<noteq> CHR ''[''" by auto
      moreover have "scan_ok \<lparr>dark = True, semi = False, cWait = c\<rparr>" "c \<noteq> NUL" using quote by (auto simp: scan_ok_def)
      ultimately show ?thesis using 2(6) quote by simp
    next
      case other
      have n: "\<not> (c = CHR ''-'' \<and> cur z = CHR ''-'')" using False other(1) by blast
      note e = plain_scan_dark [OF other(1) n other(2-5)] plain_scan_dark [of c "z @ LF # b", OF other(1) _ other(2) _ other(4,5)]
      show ?thesis using 2(7) [OF other(1) n other(2-5)] 2(8,9) n other(3) c1 by (simp add: e scan_ok_def del: plain_scan.simps)
    qed
  qed
next
  case (3 q)
  have "LF \<noteq> cWait q" using 3(1) by (auto simp: scan_ok_def)
  then show ?case using 3 by (simp add: scan_from_def)
next
  case (4 q c z)
  note IH4 = 4(4)
  have c1: "cur (z @ LF # b) = CHR ''/'' \<longleftrightarrow> cur z = CHR ''/''" by (cases z) simp_all
  have c2: "cur (z @ LF # b) = c \<longleftrightarrow> cur z = c" if "c = CHR ''`'' \<or> c = SQ \<or> c = DQ" using that by (cases z) auto
  have tl: "tl (z @ LF # b) = tl z @ LF # b" if "cur z \<noteq> NUL" using that by (cases z) auto
  show ?case
  proof (cases "c = cWait q")
    case False
    then show ?thesis using 4 by simp
  next
    case True
    have ok: "scan_ok (q\<lparr>cWait := NUL\<rparr>)" by (simp add: scan_ok_def)
    consider "c = CHR ''*''" "cur z = CHR ''/''" | "c = CHR ''*''" "cur z \<noteq> CHR ''/''"
      | "c \<noteq> CHR ''*''" "(c = CHR ''`'' \<or> c = SQ \<or> c = DQ) \<and> cur z = c"
      | "c \<noteq> CHR ''*''" "\<not> ((c = CHR ''`'' \<or> c = SQ \<or> c = DQ) \<and> cur z = c)" by blast
    then show ?thesis
    proof cases
      case 1
      then show ?thesis using True c1 tl ok 4(2) by simp
    next
      case 2
      then show ?thesis using True c1 4(1) [OF True 2] 4(6,7) by simp
    next
      case 3
      then have "cur z \<noteq> NUL" "cur (z @ LF # b) = c" using c2 True 4(7) by auto
      then show ?thesis using 3 True tl 4(3) [OF True 3] 4(6,7) by simp
    next
      case 4
      then have "\<not> ((c = CHR ''`'' \<or> c = SQ \<or> c = DQ) \<and> cur (z @ LF # b) = c)" using c2 by blast
      note e = term_scan_close [OF True 4] term_scan_close [OF True 4(1) this]
      show ?thesis using ok IH4 [OF True 4] by (simp add: e del: term_scan.simps)
    qed
  qed
qed

lemma quickscan_scan: "quickscan z q = scan_from q (c_str z)"
  by (simp add: quickscan_def scan_from_def)

lemma scan_from_ok: "scan_ok q \<Longrightarrow> scan_ok (scan_from q z)"
  using scan_resume_aux [of q z] by (simp add: scan_from_def)

lemma quickscan_resume:
  assumes "scan_ok q" "NUL \<notin> set a"
  shows "quickscan (a @ LF # b) q = quickscan b (quickscan a q)"
proof -
  have "c_str a = a" "c_str (a @ LF # b) = a @ LF # c_str b"
    using assms(2) by (induction a) (auto simp: c_str_def)
  then show ?thesis
    using scan_resume_aux [of q a "c_str b"] assms(1) by (simp add: quickscan_scan scan_from_def)
qed

definition scan_of :: "string \<Rightarrow> QuickScanState" where
  "scan_of t = quickscan t QSS_Start"

lemma scan_ok_of: "scan_ok (scan_of t)"
  unfolding scan_of_def quickscan_scan by (rule scan_from_ok) (simp add: scan_ok_def QSS_Start_def)

lemma scan_of_Nil [simp]: "scan_of [] = QSS_Start"
  by (simp add: scan_of_def quickscan_def QSS_Start_def c_str_def)

lemma scan_of_line: "NUL \<notin> set a \<Longrightarrow> scan_of (a @ [LF] @ b) = quickscan b (scan_of a)"
  unfolding scan_of_def using quickscan_resume [of QSS_Start a b] by (simp add: scan_ok_def QSS_Start_def)

lemma scan_of_trim: "scan_of (dropWhile isspace z) = scan_of z"
proof (induction z)
  case (Cons c z)
  show ?case
  proof (cases "isspace c")
    case True
    then have "c \<noteq> NUL" by auto
    then have "scan_of (c # z) = scan_of z" using True by (simp add: scan_of_def quickscan_def QSS_Start_def c_str_def)
    then show ?thesis using Cons True by simp
  qed simp
qed simp

section \<open>The loop without a scanner state\<close>

text \<open>
  The reference: one line is handled by scanning the collected text from its start.  The field \<^verbatim>\<open>qss\<close> is not used.
\<close>

definition ref_line :: "'a input_env \<Rightarrow> string \<Rightarrow> 'a input_state \<Rightarrow> 'a input_state \<times> bool" where
  "ref_line E zLine s =
     (let s = s\<lparr>lineno := Suc (lineno s)\<rparr>;
          line = (if QSS_INPLAIN (scan_of (sql s)) \<and> line_is_command_terminator zLine \<and> line_is_complete E (zSql s)
                  then '';'' else c_str zLine);
          text = sql (collect line s)
      in if sql s = [] \<and> QSS_PLAINWHITE (scan_of text) then (s\<lparr>shell := echo_group_input E line (shell s)\<rparr>, True)
         else if sql s = [] \<and> (cur line = CHR ''.'' \<or> cur line = CHR ''#'') then meta_line E line s
         else if QSS_SEMITERM (scan_of text) \<and> complete E text then (run_complete E (collect line s), True)
         else if QSS_PLAINWHITE (scan_of text) then
           ((collect line s)\<lparr>shell := echo_group_input E text (shell s), zSql := Some []\<rparr>, True)
         else (collect line s, True))"

fun ref_lines :: "'a input_env \<Rightarrow> (bool \<times> string) list \<Rightarrow> 'a input_state \<Rightarrow> 'a input_state" where
  "ref_lines E [] s = s"
| "ref_lines E ((intr, line) # ls) s =
     (if errCnt s = 0 \<or> \<not> bail_on_error E (shell s) \<or> (\<not> from_file E \<and> stdin_is_interactive E) then
        (if intr \<and> from_file E then s
         else
           let (s, go_on) = ref_line E line s
           in if go_on then ref_lines E ls s else s)
      else s)"

definition ref_input :: "'a input_env \<Rightarrow> (bool \<times> string) list \<Rightarrow> 'a \<Rightarrow> bool \<times> 'a" where
  "ref_input E ls x =
     (let s = ref_lines E ls \<lparr>shell = x, lineno = 0, zSql = None, errCnt = 0, startline = 0, qss = QSS_Start\<rparr>;
          s = (if sql s \<noteq> [] then run_sql E s else s)
      in (errCnt s > 0, shell s))"

definition unscan :: "'a input_state \<Rightarrow> 'a input_state" where
  "unscan s = s\<lparr>qss := QSS_Start\<rparr>"

text \<open>The invariant of the loop: the scanner is where a scan of the collected text ends.\<close>

definition scanned :: "'a input_state \<Rightarrow> bool" where
  "scanned s \<longleftrightarrow> qss s = scan_of (sql s) \<and> NUL \<notin> set (sql s)"

lemma unscan_simps [simp]:
  "shell (unscan s) = shell s" "lineno (unscan s) = lineno s" "zSql (unscan s) = zSql s" "errCnt (unscan s) = errCnt s"
  "startline (unscan s) = startline s" "sql (unscan s) = sql s" "qss (unscan s) = QSS_Start"
  by (simp_all add: unscan_def sql_def)

lemma input_state_updates [simp]:
  "sql (s\<lparr>qss := q\<rparr>) = sql s" "sql (s\<lparr>shell := x\<rparr>) = sql s" "sql (s\<lparr>lineno := n\<rparr>) = sql s" "sql (s\<lparr>errCnt := n\<rparr>) = sql s"
  "sql (s\<lparr>zSql := Some z\<rparr>) = z" "sql (s\<lparr>startline := n\<rparr>) = sql s"
  by (simp_all add: sql_def)

lemma sql_collect: "sql (collect line s) = (if sql s = [] then dropWhile isspace line else sql s @ [LF] @ line)"
  by (simp add: collect_def)

lemma collect_qss: "qss (collect line s) = qss s" "unscan (collect line s) = collect line (unscan s)"
  by (simp_all add: collect_def unscan_def)

lemma scan_of_collect:
  "NUL \<notin> set (sql s) \<Longrightarrow> scan_of (sql (collect line s)) = quickscan line (scan_of (sql s))"
  by (simp add: sql_collect scan_of_trim scan_of_line [simplified]) (simp add: scan_of_def)

lemma run_complete_unscan: "unscan (run_complete E s) = run_complete E (unscan s)"
  by (simp add: run_complete_def run_sql_def Let_def split_beta unscan_def sql_def)

lemma meta_line_unscan:
  "meta_line E line (unscan s) = (unscan (fst (meta_line E line s)), snd (meta_line E line s))"
  "snd (meta_line E line s) \<Longrightarrow> qss (fst (meta_line E line s)) = QSS_Start"
  "sql (fst (meta_line E line s)) = sql s"
  by (auto simp: meta_line_def Let_def split_beta unscan_def split: if_splits)

lemma process_line_ref:
  assumes "scanned s"
  shows "ref_line E zLine (unscan s) = (unscan (fst (process_line E zLine s)), snd (process_line E zLine s)) \<and>
    (snd (process_line E zLine s) \<longrightarrow> scanned (fst (process_line E zLine s)))"
proof -
  define s1 where "s1 = s\<lparr>lineno := Suc (lineno s)\<rparr>"
  define line where "line = replace_terminator E (c_str zLine) s1"
  define s2 where "s2 = s1\<lparr>qss := quickscan line (qss s1)\<rparr>"
  have q: "qss s1 = scan_of (sql s)" "NUL \<notin> set (sql s)" "sql s1 = sql s" "sql s2 = sql s"
    using assms by (simp_all add: scanned_def s1_def s2_def)
  have "line_is_command_terminator (c_str zLine) = line_is_command_terminator zLine"
    by (simp add: line_is_command_terminator_def c_str_def)
  then have line: "line = (if QSS_INPLAIN (scan_of (sql s)) \<and> line_is_command_terminator zLine \<and> line_is_complete E (zSql s)
                  then '';'' else c_str zLine)"
    using q by (simp add: line_def replace_terminator_def s1_def)
  have line2: "line = (if QSS_INPLAIN (scan_of (sql s)) \<and> line_is_command_terminator zLine \<and> line_is_complete E (zSql s2)
                  then '';'' else c_str zLine)" using line by (simp add: s1_def s2_def)
  have nul: "NUL \<notin> set line" by (auto simp: line c_str_def dest: set_takeWhileD)
  have u: "(unscan s)\<lparr>lineno := Suc (lineno s)\<rparr> = unscan s2" by (simp add: unscan_def s1_def s2_def)
  define t where "t = sql (collect line s2)"
  have t: "scan_of t = qss s2" "sql (collect line (unscan s2)) = t" "NUL \<notin> set t"
    using scan_of_collect [of s2 line] q nul
    by (auto simp: t_def s2_def sql_collect dest: set_dropWhileD)
  have ne: "t \<noteq> []" if "\<not> QSS_PLAINWHITE (qss s2)"
    using that t(1) [symmetric] by (auto simp: QSS_PLAINWHITE_def QSS_Start_def)
  have P: "process_line E zLine s =
     (if QSS_PLAINWHITE (qss s2) \<and> sql s = [] then
        (s2\<lparr>shell := echo_group_input E line (shell s2), qss := QSS_Start\<rparr>, True)
      else if (cur line = CHR ''.'' \<or> cur line = CHR ''#'') \<and> sql s = [] then meta_line E line s2
      else if t \<noteq> [] \<and> QSS_SEMITERM (qss s2) \<and> complete E t then (run_complete E (collect line s2), True)
      else if t \<noteq> [] \<and> QSS_PLAINWHITE (qss s2) then
        ((collect line s2)\<lparr>shell := echo_group_input E t (shell s2), zSql := Some [], qss := QSS_Start\<rparr>, True)
      else (collect line s2, True))"
    unfolding process_line_def Let_def s1_def [symmetric] line_def [symmetric] s2_def [symmetric] q(4) collect_qss t_def [symmetric]
    by (simp add: collect_def)
  have R: "ref_line E zLine (unscan s) =
     (if sql s = [] \<and> QSS_PLAINWHITE (qss s2) then ((unscan s2)\<lparr>shell := echo_group_input E line (shell s2)\<rparr>, True)
      else if sql s = [] \<and> (cur line = CHR ''.'' \<or> cur line = CHR ''#'') then meta_line E line (unscan s2)
      else if QSS_SEMITERM (qss s2) \<and> complete E t then (run_complete E (collect line (unscan s2)), True)
      else if QSS_PLAINWHITE (qss s2) then
        ((collect line (unscan s2))\<lparr>shell := echo_group_input E t (shell s2), zSql := Some []\<rparr>, True)
      else (collect line (unscan s2), True))"
    unfolding ref_line_def Let_def unscan_simps u q(4) line2 [symmetric] t(2) t(1) ..
  have start: "scanned x" if "sql x = []" "qss x = QSS_Start" for x :: "'a input_state" using that by (simp add: scanned_def)
  have white: "t \<noteq> []" if "sql s \<noteq> []" using that q(4) by (simp add: t_def sql_collect)
  consider "sql s = []" "QSS_PLAINWHITE (qss s2)"
    | "sql s = []" "\<not> QSS_PLAINWHITE (qss s2)" "cur line = CHR ''.'' \<or> cur line = CHR ''#''"
    | "\<not> (sql s = [] \<and> QSS_PLAINWHITE (qss s2))" "\<not> (sql s = [] \<and> (cur line = CHR ''.'' \<or> cur line = CHR ''#''))" by blast
  then show ?thesis
  proof cases
    case 1
    then show ?thesis unfolding P R using q(4) by (simp add: start unscan_def)
  next
    case 2
    then show ?thesis unfolding P R using meta_line_unscan [of E line s2] q(4) by (auto intro!: start)
  next
    case 3
    then have "t \<noteq> []" using ne white by blast
    moreover have "sql (run_complete E x) = []" "qss (run_complete E x) = QSS_Start" for x :: "'a input_state"
      by (simp_all add: run_complete_def Let_def sql_def)
    moreover have "scanned (collect line s2)" using t q by (simp add: scanned_def t_def [symmetric] collect_qss)
    ultimately show ?thesis
      unfolding P R using 3 start by (auto simp: run_complete_unscan collect_qss) (simp_all add: unscan_def collect_def)
  qed
qed

lemma process_lines_ref: "scanned s \<Longrightarrow> ref_lines E ls (unscan s) = unscan (process_lines E ls s)"
proof (induction ls arbitrary: s)
  case (Cons l ls)
  obtain intr line where l: "l = (intr, line)" by (cases l)
  show ?case
    using process_line_ref [OF Cons.prems, of E line] Cons.IH [of "fst (process_line E line s)"]
    by (simp add: l split_beta)
qed simp

text \<open>
  C19: Resuming the scan makes no difference.  Whatever the input lines are, and whatever \<^verbatim>\<open>sqlite3_complete\<close>, the dot commands and the SQL statements
  answer, \<^verbatim>\<open>process_input\<close>, which scans each line once and carries the state of the scanner from line to line, behaves as the
  loop that scans all the text collected so far from its start: the same texts are run, with the same numbers of their first lines, in
  the same order, and with the same result.
\<close>

theorem process_input_rescans: "process_input E ls x = ref_input E ls x"
proof -
  define s where "s = \<lparr>shell = x, lineno = 0, zSql = None, errCnt = 0, startline = 0, qss = QSS_Start\<rparr>"
  have "scanned s" by (simp add: scanned_def s_def sql_def)
  moreover have "unscan s = s" by (simp add: unscan_def s_def)
  ultimately have "ref_lines E ls s = unscan (process_lines E ls s)" using process_lines_ref [of s E ls] by simp
  moreover have "errCnt (run_sql E (unscan y)) = errCnt (run_sql E y)" "shell (run_sql E (unscan y)) = shell (run_sql E y)" for y
    by (simp_all add: run_sql_def split_beta unscan_def sql_def)
  ultimately show ?thesis by (simp add: process_input_def ref_input_def Let_def s_def [symmetric])
qed

end
