(* ===== verification/Dbdata.thy ===== *)
theory Dbdata
  imports Sqlite_Api "HOL-Library.Signed_Division"
begin

text \<open>
  The virtual tables \<^verbatim>\<open>sqlite_dbdata\<close> and \<^verbatim>\<open>sqlite_dbptr\<close> of the shell (\<^verbatim>\<open>ext/misc/dbdata.c\<close> in
  \<^verbatim>\<open>shell.c\<close>), which decode the pages of a database file without the help of the b-tree layer.  The pages may be corrupt, so
  every access to a buffer is checked in the model: \<open>Fault\<close> is an access outside of it.  The loops are given a number
  of turns; \<open>Running\<close> says that they have not come to an end by then.  The statements that fetch pages and count them are arguments.
\<close>

section \<open>Runs\<close>

datatype 'a run = Ret 'a | Fault | Running

fun bind_run :: "'a run \<Rightarrow> ('a \<Rightarrow> 'b run) \<Rightarrow> 'b run" where
  "bind_run (Ret x) f = f x"
| "bind_run Fault f = Fault"
| "bind_run Running f = Running"

text \<open>\<^verbatim>\<open>a[i]\<close>, and \<^verbatim>\<open>memcpy(&a[i], &b[j], n)\<close>, where \<open>n\<close> is converted to an unsigned size.\<close>

definition rd :: "byte list \<Rightarrow> int \<Rightarrow> int run" where
  "rd a i = (if 0 \<le> i \<and> i < int (length a) then Ret (uint (a ! nat i)) else Fault)"

definition rd_n :: "byte list \<Rightarrow> int \<Rightarrow> int \<Rightarrow> byte list run" where
  "rd_n b j n = (if 0 \<le> j \<and> 0 \<le> n \<and> j + n \<le> int (length b) then Ret (take (nat n) (drop (nat j) b)) else Fault)"

definition copy :: "byte list \<Rightarrow> int \<Rightarrow> byte list \<Rightarrow> int \<Rightarrow> int \<Rightarrow> byte list run" where
  "copy a i b j n =
     bind_run (rd_n b j n) (\<lambda>bs.
       if 0 \<le> i \<and> i + n \<le> int (length a)
       then Ret (take (nat i) a @ bs @ drop (nat (i + n)) a) else Fault)"

definition to_s32 :: "int \<Rightarrow> int" where
  "to_s32 x = (x + 2 ^ 31) mod 2 ^ 32 - 2 ^ 31"

section \<open>Tables and cursors\<close>

abbreviation (input) DBDATA_PADDING_BYTES :: int where "DBDATA_PADDING_BYTES \<equiv> 100"

text \<open>
  A prepared statement for pages is the schema that is bound to its first parameter.  The pointers into the
  record are offsets from its beginning.
\<close>

type_synonym page_stmt = "string option"

record DbdataCursor =
  pStmt :: "page_stmt option"
  iPgno :: int
  aPage :: "byte list option"
  nPage :: int
  nCell :: int
  iCell :: int
  bOnePage :: bool
  szDb :: int
  iRowid :: int
  pRec :: "byte list option"
  nRec :: int
  nHdr :: int
  iField :: int
  pHdrPtr :: int
  pPtr :: int
  iIntkey :: int

record DbdataTable =
  tab_stmt :: "page_stmt option"
  bPtr :: bool
  zErrMsg :: "string option"

text \<open>
  What is around the tables: the routines of the core; for a schema and a page number, the blob in the row of \<^verbatim>\<open>sqlite_dbpage\<close>, if there is a row, and
  the code with which the statement is reset; and the outcomes of the other calls.
\<close>

record dbdata_env =
  api :: sqlite3_api_routines
  dbpage :: "string option \<Rightarrow> int \<Rightarrow> byte list option \<times> int"
  mprintf_ok :: bool
  count_prepare :: "string option \<Rightarrow> int"
  count_row :: "string option \<Rightarrow> int option"
  count_finalize :: "string option \<Rightarrow> int"
  page_prepare :: int
  bind_schema :: "string option \<Rightarrow> int"
  errmsg :: string

definition dbdataConnect :: "dbdata_env \<Rightarrow> int \<Rightarrow> bool \<Rightarrow> int \<times> DbdataTable option" where
  "dbdataConnect E declared pAux =
     (if declared \<noteq> SQLITE_OK then (declared, None)
      else if \<not> malloc64 (api E) 48 then (SQLITE_NOMEM, None)
      else (SQLITE_OK, Some \<lparr>tab_stmt = None, bPtr = pAux, zErrMsg = None\<rparr>))"

definition zeroed :: DbdataCursor where
  "zeroed = \<lparr>pStmt = None, iPgno = 0, aPage = None, nPage = 0, nCell = 0, iCell = 0, bOnePage = False, szDb = 0, iRowid = 0,
     pRec = None, nRec = 0, nHdr = 0, iField = 0, pHdrPtr = 0, pPtr = 0, iIntkey = 0\<rparr>"

definition dbdataOpen :: "dbdata_env \<Rightarrow> int \<times> DbdataCursor option" where
  "dbdataOpen E = (if malloc64 (api E) 112 then (SQLITE_OK, Some zeroed) else (SQLITE_NOMEM, None))"

definition dbdataResetCursor :: "DbdataTable \<Rightarrow> DbdataCursor \<Rightarrow> DbdataTable \<times> DbdataCursor" where
  "dbdataResetCursor T c =
     ((if tab_stmt T = None then T\<lparr>tab_stmt := pStmt c\<rparr> else T),
      c\<lparr>pStmt := None, iPgno := 1, iCell := 0, iField := 0, bOnePage := False, pRec := None, aPage := None\<rparr>)"

definition dbdataClose :: "DbdataTable \<Rightarrow> DbdataCursor \<Rightarrow> DbdataTable" where
  "dbdataClose T c = fst (dbdataResetCursor T c)"

section \<open>Decoding\<close>

definition get_uint16 :: "byte list \<Rightarrow> int \<Rightarrow> int run" where
  "get_uint16 a i = bind_run (rd a i) (\<lambda>x. bind_run (rd a (i + 1)) (\<lambda>y. Ret (push_bit 8 x OR y)))"

definition get_uint32 :: "byte list \<Rightarrow> int \<Rightarrow> int run" where
  "get_uint32 a i =
     bind_run (rd a i) (\<lambda>x. bind_run (rd a (i + 1)) (\<lambda>y.
     bind_run (rd a (i + 2)) (\<lambda>z. bind_run (rd a (i + 3)) (\<lambda>w.
       Ret (push_bit 24 x OR push_bit 16 y OR push_bit 8 z OR w)))))"

text \<open>The loop over the first eight bytes; \<open>k\<close> of them are left.  The result is the number of bytes and the value.\<close>

fun varint_loop :: "nat \<Rightarrow> byte list \<Rightarrow> int \<Rightarrow> nat \<Rightarrow> int \<Rightarrow> (int \<times> int) run" where
  "varint_loop 0 a p i v =
     bind_run (rd a (p + int i)) (\<lambda>z. Ret (9, to_s64 (to_s64 (v * 2 ^ 8) + (z AND 0xff))))"
| "varint_loop (Suc k) a p i v =
     bind_run (rd a (p + int i)) (\<lambda>z.
       let v = to_s64 (to_s64 (v * 2 ^ 7) + (z AND 0x7f))
       in if z AND 0x80 = 0 then Ret (int i + 1, v) else varint_loop k a p (Suc i) v)"

definition dbdataGetVarint :: "byte list \<Rightarrow> int \<Rightarrow> (int \<times> int) run" where
  "dbdataGetVarint a p = varint_loop 8 a p 0 0"

definition dbdataValueBytes :: "int \<Rightarrow> int" where
  "dbdataValueBytes eType =
     (if eType \<in> {0, 8, 9, 10, 11} then 0
      else if eType = 1 then 1
      else if eType = 2 then 2
      else if eType = 3 then 3
      else if eType = 4 then 4
      else if eType = 5 then 6
      else if eType = 6 \<or> eType = 7 then 8
      else if eType > 0 then (eType - 12) sdiv 2
      else 0)"

text \<open>The statements of the inner switch: the first one shifts by 16 bits, the second by 8; \<open>v\<close> is unsigned.\<close>

definition shift16 :: "byte list \<Rightarrow> int \<times> int \<Rightarrow> (int \<times> int) run" where
  "shift16 a s =
     (case s of (p, v) \<Rightarrow>
        bind_run (rd a p) (\<lambda>x. bind_run (rd a (p + 1)) (\<lambda>y.
          Ret (p + 2, to_u64 (to_u64 (to_u64 (v * 2 ^ 16) + push_bit 8 x) + y)))))"

definition shift8 :: "byte list \<Rightarrow> int \<times> int \<Rightarrow> (int \<times> int) run" where
  "shift8 a s = (case s of (p, v) \<Rightarrow> bind_run (rd a p) (\<lambda>x. Ret (p + 1, to_u64 (to_u64 (v * 2 ^ 8) + x))))"

definition on :: "bool \<Rightarrow> ('a \<Rightarrow> 'a run) \<Rightarrow> 'a \<Rightarrow> 'a run" where
  "on b f x = (if b then f x else Ret x)"

definition value_number :: "int \<Rightarrow> byte list \<Rightarrow> int \<Rightarrow> int run" where
  "value_number eType a p =
     bind_run (rd a p) (\<lambda>x.
     bind_run (on (eType \<in> {6, 7}) (shift16 a) (p + 1, to_u64 (if x < 128 then x else x - 256))) (\<lambda>s.
     bind_run (on (eType \<in> {5, 6, 7}) (shift16 a) s) (\<lambda>s.
     bind_run (on (eType \<in> {4, 5, 6, 7}) (shift8 a) s) (\<lambda>s.
     bind_run (on (eType \<in> {3, 4, 5, 6, 7}) (shift8 a) s) (\<lambda>s.
     bind_run (on (eType \<in> {2, 3, 4, 5, 6, 7}) (shift8 a) s) (\<lambda>s. Ret (snd s)))))))"

definition byte_char :: "byte \<Rightarrow> char" where
  "byte_char b = char_of (unat b)"

definition dbdataValue :: "int \<Rightarrow> byte list \<Rightarrow> int \<Rightarrow> int \<Rightarrow> sql_result run" where
  "dbdataValue eType a p nData =
     (if eType \<ge> 0 \<and> dbdataValueBytes eType \<le> nData then
        if eType \<in> {0, 10, 11} then Ret ResNull
        else if eType = 8 then Ret (ResInt 0)
        else if eType = 9 then Ret (ResInt 1)
        else if eType \<in> {1, 2, 3, 4, 5, 6, 7} then
          bind_run (value_number eType a p) (\<lambda>v.
            Ret (if eType = 7 then ResDouble (word_of_int v) else ResInt (to_s64 v)))
        else
          bind_run (rd_n a p ((eType - 12) sdiv 2)) (\<lambda>bs.
            Ret (if eType smod 2 \<noteq> 0 then ResText (map byte_char bs) else ResBlob bs))
      else Ret ResNull)"

section \<open>Moving to the next entry\<close>

text \<open>The code, the buffer with its padding, and the size of the page.\<close>

definition dbdataLoadPage :: "dbdata_env \<Rightarrow> DbdataCursor \<Rightarrow> int \<Rightarrow> int \<times> byte list option \<times> int" where
  "dbdataLoadPage E c pgno =
     (let (blob, rc2) = (case pStmt c of None \<Rightarrow> (None, SQLITE_OK) | Some z \<Rightarrow> dbpage E z pgno)
      in case blob of
           None \<Rightarrow> (rc2, None, 0)
         | Some bs \<Rightarrow>
             if bs = [] then (rc2, None, 0)
             else if malloc64 (api E) (int (length bs) + DBDATA_PADDING_BYTES)
             then (rc2, Some (bs @ replicate 100 0), int (length bs))
             else (SQLITE_NOMEM, None, int (length bs)))"

text \<open>\<^verbatim>\<open>Some rc\<close> stands for a return with this code, \<^verbatim>\<open>None\<close> for going on.\<close>

fun load_loop :: "nat \<Rightarrow> dbdata_env \<Rightarrow> DbdataCursor \<Rightarrow> (int option \<times> DbdataCursor) run" where
  "load_loop 0 E c = Running"
| "load_loop (Suc k) E c =
     (if \<not> bOnePage c \<and> iPgno c > szDb c then Ret (Some SQLITE_OK, c)
      else
        let (rc, a, n) = dbdataLoadPage E c (iPgno c mod 2 ^ 32); c = c\<lparr>aPage := a, nPage := n\<rparr>
        in if rc \<noteq> SQLITE_OK then Ret (Some rc, c)
           else if a \<noteq> None then Ret (None, c)
           else load_loop k E (c\<lparr>iPgno := to_s32 (iPgno c + 1)\<rparr>))"

definition page_off :: "DbdataCursor \<Rightarrow> int" where
  "page_off c = (if iPgno c = 1 then 100 else 0)"

definition load_page :: "nat \<Rightarrow> dbdata_env \<Rightarrow> DbdataTable \<Rightarrow> int \<Rightarrow> DbdataCursor \<Rightarrow> (int option \<times> DbdataCursor) run" where
  "load_page k E T iOff c =
     (if aPage c \<noteq> None then Ret (None, c)
      else
        bind_run (load_loop k E c) (\<lambda>(r, c).
          if r \<noteq> None then Ret (r, c)
          else bind_run (get_uint16 (the (aPage c)) (iOff + 3)) (\<lambda>n.
            Ret (None, c\<lparr>iCell := (if bPtr T then - 2 else 0), nCell := n\<rparr>))))"

definition next_page :: "DbdataCursor \<Rightarrow> int option \<times> DbdataCursor" where
  "next_page c =
     (let c = c\<lparr>aPage := None\<rparr>
      in if bOnePage c then (Some SQLITE_OK, c) else (None, c\<lparr>iPgno := to_s32 (iPgno c + 1)\<rparr>))"

definition next_pointer :: "int \<Rightarrow> DbdataCursor \<Rightarrow> (int option \<times> DbdataCursor) run" where
  "next_pointer iOff c =
     bind_run (rd (the (aPage c)) iOff) (\<lambda>t.
       let c = (if t \<noteq> 0x02 \<and> t \<noteq> 0x05 then c\<lparr>iCell := nCell c\<rparr> else c);
           c = c\<lparr>iCell := iCell c + 1\<rparr>
       in Ret (if iCell c \<ge> nCell c then next_page c else (Some SQLITE_OK, c)))"

text \<open>
  The beginning of a cell: \<open>bNextPage\<close>, the offset of the local part of the payload, the size of the payload, and the
  cursor with the integer key.
\<close>

definition cell_offset :: "int \<Rightarrow> int \<Rightarrow> DbdataCursor \<Rightarrow> (bool \<times> int) run" where
  "cell_offset iOff nPointer c =
     (let iOff = iOff + (8 + nPointer + iCell c * 2)
      in if iOff > nPage c then Ret (True, iOff + nPointer)
         else bind_run (get_uint16 (the (aPage c)) iOff) (\<lambda>q. Ret (False, q + nPointer)))"

definition cell_start :: "int \<Rightarrow> int \<Rightarrow> bool \<Rightarrow> DbdataCursor \<Rightarrow> (bool \<times> int \<times> int \<times> DbdataCursor) run" where
  "cell_start iOff nPointer bHasRowid c =
     bind_run (cell_offset iOff nPointer c) (\<lambda>(bNextPage, iOff).
       if bNextPage \<or> iOff > nPage c then Ret (True, iOff, 0, c)
       else bind_run (dbdataGetVarint (the (aPage c)) iOff) (\<lambda>(n, nPayload).
         let iOff = iOff + n
         in if bHasRowid \<and> iOff < nPage c
            then bind_run (dbdataGetVarint (the (aPage c)) iOff) (\<lambda>(n, k).
              Ret (False, iOff + n, nPayload, c\<lparr>iIntkey := k\<rparr>))
            else Ret (False, iOff, nPayload, c)))"

text \<open>How much of the payload is on the page; the remainder by zero is a fault.\<close>

definition local_size :: "int \<Rightarrow> bool \<Rightarrow> int \<Rightarrow> int run" where
  "local_size U bHasRowid nPayload =
     (let X = (if bHasRowid then U - 35 else ((U - 12) * 64 sdiv 255) - 23)
      in if nPayload \<le> X then Ret (to_s32 nPayload)
         else
           let M = ((U - 12) * 32 sdiv 255) - 23
           in if U = 4 then Fault
              else let K = to_s32 (M + (to_s64 (nPayload - M) smod (U - 4))) in Ret (if K \<le> X then K else M))"

fun overflow_loop :: "nat \<Rightarrow> dbdata_env \<Rightarrow> DbdataCursor \<Rightarrow> int \<Rightarrow> int \<Rightarrow> int \<Rightarrow> byte list \<Rightarrow> (int option \<times> byte list) run" where
  "overflow_loop 0 E c nPayload nRem pgnoOvfl rec = Running"
| "overflow_loop (Suc k) E c nPayload nRem pgnoOvfl rec =
     (if nRem > 0 then
        let (rc, aOvfl, nOvfl) = dbdataLoadPage E c pgnoOvfl
        in if rc \<noteq> SQLITE_OK then Ret (Some rc, rec)
           else case aOvfl of
             None \<Rightarrow> Ret (None, rec)
           | Some a \<Rightarrow>
               if nOvfl \<noteq> nPage c then Fault
               else
                 let nCopy = (if nPage c - 4 > nRem then nRem else nPage c - 4)
                 in bind_run (copy rec (nPayload - nRem) a 4 nCopy) (\<lambda>rec.
                    bind_run (get_uint32 a 0) (\<lambda>pgnoOvfl.
                      overflow_loop k E c nPayload (nRem - nCopy) pgnoOvfl rec))
      else Ret (None, rec))"

text \<open>Allocating and filling the record.\<close>

definition load_payload :: "dbdata_env \<Rightarrow> int \<Rightarrow> int \<Rightarrow> int \<Rightarrow> DbdataCursor \<Rightarrow> (int option \<times> DbdataCursor) run" where
  "load_payload E iOff nPayload nLocal c =
     (if \<not> malloc64 (api E) (to_u64 (nPayload + DBDATA_PADDING_BYTES)) then Ret (Some SQLITE_NOMEM, c)
      else
        let rec = replicate (nat (nPayload + DBDATA_PADDING_BYTES)) 0; c = c\<lparr>nRec := to_s32 nPayload\<rparr>
        in bind_run (copy rec 0 (the (aPage c)) iOff nLocal) (\<lambda>rec.
           bind_run
             (if nPayload > nLocal then
                bind_run (get_uint32 (the (aPage c)) (iOff + nLocal)) (\<lambda>pgnoOvfl.
                  overflow_loop (Suc (nat (nPayload - nLocal))) E c nPayload (nPayload - nLocal) pgnoOvfl rec)
              else Ret (None, rec)) (\<lambda>(r, rec).
             Ret (r, c\<lparr>pRec := Some rec\<rparr>))))"

definition start_record :: "bool \<Rightarrow> DbdataCursor \<Rightarrow> DbdataCursor run" where
  "start_record bHasRowid c =
     bind_run (dbdataGetVarint (the (pRec c)) 0) (\<lambda>(iHdr, h).
       Ret (c\<lparr>nHdr := to_s32 h, pHdrPtr := iHdr, pPtr := to_s32 h, iField := (if bHasRowid then - 1 else 0)\<rparr>))"

text \<open>
  Loading the record of the current cell.  The result is a code to return with, or \<open>bNextPage\<close>.
\<close>

definition load_record :: "dbdata_env \<Rightarrow> int \<Rightarrow> DbdataCursor \<Rightarrow> (int option \<times> bool \<times> DbdataCursor) run" where
  "load_record E iOff c =
     bind_run (rd (the (aPage c)) iOff) (\<lambda>t.
       let nPointer = (if t = 0x02 then 4 else 0); bHasRowid = (t = 0x0d);
           c = (if t \<in> {0x02, 0x0a, 0x0d} then c else c\<lparr>iCell := nCell c\<rparr>)
       in if iCell c \<ge> nCell c then Ret (None, True, c)
          else
            bind_run (cell_start iOff nPointer bHasRowid c) (\<lambda>(bNextPage, iOff, nPayload, c).
            bind_run (local_size (nPage c) bHasRowid nPayload) (\<lambda>nLocal.
              if bNextPage \<or> nLocal + iOff > nPage c then Ret (None, True, c)
              else
                bind_run (load_payload E iOff nPayload nLocal c) (\<lambda>(r, c).
                  if r \<noteq> None then Ret (r, False, c)
                  else bind_run (start_record bHasRowid c) (\<lambda>c. Ret (None, False, c))))))"

definition next_field :: "DbdataCursor \<Rightarrow> (int option \<times> bool \<times> DbdataCursor) run" where
  "next_field c =
     (let c = c\<lparr>iField := iField c + 1\<rparr>
      in if iField c > 0 then
           if pHdrPtr c > nRec c then Ret (None, True, c)
           else bind_run (dbdataGetVarint (the (pRec c)) (pHdrPtr c)) (\<lambda>(n, iType).
             Ret (None, False, c\<lparr>pHdrPtr := pHdrPtr c + n, pPtr := pPtr c + dbdataValueBytes (to_s32 iType)\<rparr>))
         else Ret (None, False, c))"

definition next_data :: "dbdata_env \<Rightarrow> int \<Rightarrow> DbdataCursor \<Rightarrow> (int option \<times> DbdataCursor) run" where
  "next_data E iOff c =
     bind_run (if pRec c = None then load_record E iOff c else next_field c) (\<lambda>(r, bNextPage, c).
       Ret (if r \<noteq> None then (r, c)
            else if bNextPage then next_page (c\<lparr>pRec := None\<rparr>)
            else if iField c < 0 \<or> pHdrPtr c < nHdr c then (Some SQLITE_OK, c)
            else (None, c\<lparr>pRec := None, iCell := iCell c + 1\<rparr>)))"

definition next_turn :: "nat \<Rightarrow> dbdata_env \<Rightarrow> DbdataTable \<Rightarrow> DbdataCursor \<Rightarrow> (int option \<times> DbdataCursor) run" where
  "next_turn k E T c =
     bind_run (load_page k E T (page_off c) c) (\<lambda>(r, c').
       if r \<noteq> None then Ret (r, c')
       else if bPtr T then next_pointer (page_off c) c'
       else next_data E (page_off c) c')"

fun next_loop :: "nat \<Rightarrow> dbdata_env \<Rightarrow> DbdataTable \<Rightarrow> DbdataCursor \<Rightarrow> (int \<times> DbdataCursor) run" where
  "next_loop 0 E T c = Running"
| "next_loop (Suc k) E T c =
     bind_run (next_turn (Suc k) E T c) (\<lambda>(r, c). case r of Some rc \<Rightarrow> Ret (rc, c) | None \<Rightarrow> next_loop k E T c)"

definition dbdataNext :: "nat \<Rightarrow> dbdata_env \<Rightarrow> DbdataTable \<Rightarrow> DbdataCursor \<Rightarrow> (int \<times> DbdataCursor) run" where
  "dbdataNext k E T c = next_loop k E T (c\<lparr>iRowid := iRowid c + 1\<rparr>)"

definition dbdataEof :: "DbdataCursor \<Rightarrow> bool" where
  "dbdataEof c \<longleftrightarrow> aPage c = None"

section \<open>Starting a scan\<close>

definition dbdataDbsize :: "dbdata_env \<Rightarrow> string option \<Rightarrow> DbdataCursor \<Rightarrow> int \<times> DbdataCursor" where
  "dbdataDbsize E zSchema c =
     (if \<not> mprintf_ok E then (SQLITE_NOMEM, c)
      else
        let rc = count_prepare E zSchema;
            c = (if rc = SQLITE_OK then case count_row E zSchema of None \<Rightarrow> c | Some n \<Rightarrow> c\<lparr>szDb := n\<rparr> else c);
            rc2 = count_finalize E zSchema
        in (if rc = SQLITE_OK then rc2 else rc, c))"

text \<open>The page size is assigned the result code of the first call; the result code that counts is the one of the second.\<close>

definition filter_target ::
  "dbdata_env \<Rightarrow> int \<Rightarrow> sqlite3_value list \<Rightarrow> string option \<Rightarrow> DbdataCursor \<Rightarrow> int \<times> DbdataCursor" where
  "filter_target E idxNum argv zSchema c =
     (if idxNum AND 0x02 \<noteq> 0
      then (SQLITE_OK, c\<lparr>iPgno := value_int (api E) (argv ! nat (idxNum AND 0x01)), bOnePage := True\<rparr>)
      else let (rc, c) = dbdataDbsize E zSchema c in dbdataDbsize E zSchema (c\<lparr>nPage := rc\<rparr>))"

definition filter_stmt :: "dbdata_env \<Rightarrow> DbdataTable \<Rightarrow> DbdataCursor \<Rightarrow> int \<times> DbdataTable \<times> DbdataCursor" where
  "filter_stmt E T c =
     (case tab_stmt T of
        Some z \<Rightarrow> (SQLITE_OK, T\<lparr>tab_stmt := None\<rparr>, c\<lparr>pStmt := Some z\<rparr>)
      | None \<Rightarrow> (page_prepare E, T, c\<lparr>pStmt := (if page_prepare E = SQLITE_OK then Some None else None)\<rparr>))"

definition dbdataFilter ::
  "nat \<Rightarrow> dbdata_env \<Rightarrow> int \<Rightarrow> sqlite3_value list \<Rightarrow> DbdataTable \<Rightarrow> DbdataCursor \<Rightarrow> (int \<times> DbdataTable \<times> DbdataCursor) run" where
  "dbdataFilter k E idxNum argv T c =
     (let (T, c) = dbdataResetCursor T c;
          zSchema = (if idxNum AND 0x01 \<noteq> 0 then value_text (api E) (argv ! 0) else Some ''main'');
          (rc, c) = filter_target E idxNum argv zSchema c;
          (rc, T, c) = (if rc = SQLITE_OK then filter_stmt E T c else (rc, T, c));
          (rc, T, c) =
            (if rc = SQLITE_OK then
               (bind_schema E zSchema, T, if bind_schema E zSchema = SQLITE_OK then c\<lparr>pStmt := Some zSchema\<rparr> else c)
             else (rc, T\<lparr>zErrMsg := Some (errmsg E)\<rparr>, c))
      in if rc = SQLITE_OK then bind_run (dbdataNext k E T c) (\<lambda>(rc, c). Ret (rc, T, c))
         else Ret (rc, T, c))"

section \<open>Columns\<close>

definition pointer_child :: "DbdataCursor \<Rightarrow> sql_result run" where
  "pointer_child c =
     bind_run
       (if iCell c < 0 then Ret (Some (page_off c + 8))
        else let iOff = page_off c + (12 + iCell c * 2)
             in if iOff > nPage c then Ret None
                else bind_run (get_uint16 (the (aPage c)) iOff) (\<lambda>q. Ret (Some q)))
       (\<lambda>iOff. case iOff of
          None \<Rightarrow> Ret ResNull
        | Some iOff \<Rightarrow>
            if iOff \<le> nPage c then bind_run (get_uint32 (the (aPage c)) iOff) (\<lambda>n. Ret (ResInt n))
            else Ret ResNull)"

definition field_value :: "DbdataCursor \<Rightarrow> sql_result run" where
  "field_value c =
     (if iField c < 0 then Ret (ResInt (iIntkey c))
      else bind_run (dbdataGetVarint (the (pRec c)) (pHdrPtr c)) (\<lambda>(n, iType).
        dbdataValue (to_s32 iType) (the (pRec c)) (pPtr c) (to_s32 (nRec c - pPtr c))))"

text \<open>A column without a case sets no result.\<close>

definition dbdataColumn :: "DbdataTable \<Rightarrow> DbdataCursor \<Rightarrow> int \<Rightarrow> sql_result run" where
  "dbdataColumn T c i =
     (if bPtr T then
        if i = 0 then Ret (ResInt (iPgno c))
        else if i = 1 then pointer_child c
        else Ret ResNull
      else
        if i = 0 then Ret (ResInt (iPgno c))
        else if i = 1 then Ret (ResInt (iCell c))
        else if i = 2 then Ret (ResInt (iField c))
        else if i = 3 then field_value c
        else Ret ResNull)"

definition dbdataRowid :: "DbdataCursor \<Rightarrow> int" where
  "dbdataRowid c = iRowid c"

section \<open>Planning and registration\<close>

text \<open>The loop over the constraints: \<open>None\<close> for a return with \<^verbatim>\<open>SQLITE_CONSTRAINT\<close>.\<close>

fun plan_loop :: "int \<Rightarrow> int \<Rightarrow> index_constraint list \<Rightarrow> int \<times> int \<Rightarrow> (int \<times> int) option" where
  "plan_loop colSchema i [] s = Some s"
| "plan_loop colSchema i (p # ps) s =
     (if c_op p = CONSTRAINT_EQ then
        if iColumn p = colSchema \<and> \<not> usable p then None
        else
          let s = (if iColumn p = colSchema then (i, snd s) else s);
              s = (if iColumn p = 0 \<and> usable p then (fst s, i) else s)
          in plan_loop colSchema (i + 1) ps s
      else plan_loop colSchema (i + 1) ps s)"

definition plan_order :: "DbdataTable \<Rightarrow> index_orderby list \<Rightarrow> bool \<Rightarrow> bool" where
  "plan_order T obs old =
     (if bPtr T then old
      else case obs of
        [] \<Rightarrow> old
      | [b] \<Rightarrow> if ob_desc b then old else ob_column b = 0 \<or> ob_column b = 1
      | [b, b'] \<Rightarrow> if ob_desc b \<or> ob_desc b' \<or> ob_column b \<noteq> 0 then old else ob_column b' = 1
      | _ \<Rightarrow> old)"

definition use :: "int \<Rightarrow> int \<Rightarrow> constraint_usage list \<Rightarrow> constraint_usage list" where
  "use i n us = (if i \<ge> 0 then us[nat i := \<lparr>argvIndex = n, omit = True\<rparr>] else us)"

definition dbdataBestIndex :: "DbdataTable \<Rightarrow> index_info \<Rightarrow> int \<times> index_info" where
  "dbdataBestIndex T info =
     (case plan_loop (if bPtr T then 2 else 4) 0 (aConstraint info) (- 1, - 1) of
        None \<Rightarrow> (SQLITE_CONSTRAINT, info)
      | Some (schema, pgno) \<Rightarrow>
          let info = info\<lparr>aConstraintUsage := use schema 1 (aConstraintUsage info)\<rparr>;
              info = (if pgno \<ge> 0 then
                        info\<lparr>aConstraintUsage := use pgno (1 + (if schema \<ge> 0 then 1 else 0)) (aConstraintUsage info),
                             estimatedCost := 100, estimatedRows := 50,
                             orderByConsumed := plan_order T (aOrderBy info) (orderByConsumed info)\<rparr>
                      else info\<lparr>estimatedCost := 100000000, estimatedRows := 1000000000\<rparr>)
          in (SQLITE_OK, info\<lparr>plan_idxNum := (if schema \<ge> 0 then 0x01 else 0x00) OR (if pgno \<ge> 0 then 0x02 else 0x00)\<rparr>))"

definition dbdata_modules :: "registration list" where
  "dbdata_modules =
     [\<lparr>rg_kind = RegModule, rg_name = ''sqlite_dbdata'', rg_nArg = 0, rg_user = False, rg_func = ''dbdata_module''\<rparr>,
      \<lparr>rg_kind = RegModule, rg_name = ''sqlite_dbptr'', rg_nArg = 0, rg_user = True, rg_func = ''dbdata_module''\<rparr>]"

definition sqlite3DbdataRegister :: "(registration \<Rightarrow> int) \<Rightarrow> connection \<Rightarrow> int \<times> connection" where
  "sqlite3DbdataRegister rcs db = create_all rcs dbdata_modules db"



end
