(* ===== verification/Dbdata_Format.thy ===== *)
theory Dbdata_Format
  imports Dbdata
begin

text \<open>
  The file format of SQLite as far as \<open>Dbdata\<close> decodes it, stated on its own: variable length integers, serial types, records, and cells whose payload
  goes on in overflow pages.  The lemmas say that the routines of \<open>Dbdata\<close> read what is there.
\<close>

section \<open>Reading buffers\<close>

definition stored :: "byte list \<Rightarrow> nat \<Rightarrow> byte list \<Rightarrow> bool" where
  "stored a i bs \<longleftrightarrow> i + length bs \<le> length a \<and> take (length bs) (drop i a) = bs"

lemma stored_nth: "stored a i bs \<Longrightarrow> k < length bs \<Longrightarrow> i + k < length a \<and> a ! (i + k) = bs ! k"
proof -
  assume a: "stored a i bs" and k: "k < length bs"
  then have "take (length bs) (drop i a) ! k = bs ! k" by (simp add: stored_def)
  then show ?thesis using a k by (simp add: stored_def)
qed

lemma stored_append: "stored a i (xs @ ys) \<longleftrightarrow> stored a i xs \<and> stored a (i + length xs) ys"
  by (auto simp: stored_def take_add add.commute add.left_commute)

lemma stored_pad: "stored a i bs \<Longrightarrow> stored (a @ p) i bs"
  by (auto simp: stored_def)

lemma stored_rd: "stored a i bs \<Longrightarrow> k < length bs \<Longrightarrow> rd a (int i + int k) = Ret (uint (bs ! k))"
  using stored_nth [of a i bs k] by (simp add: rd_def nat_add_distrib)

lemma stored_rd_0: "stored a i (b # bs) \<Longrightarrow> rd a (int i) = Ret (uint b)"
  using stored_rd [of a i "b # bs" 0] by simp

lemma stored_Cons: "stored a i (b # bs) \<Longrightarrow> stored a (Suc i) bs"
  using stored_append [of a i "[b]" bs] by simp

lemma stored_rd_n: "stored a i bs \<Longrightarrow> n = int (length bs) \<Longrightarrow> rd_n a (int i) n = Ret bs"
  by (simp add: rd_n_def stored_def)

section \<open>Integers\<close>

definition be_val :: "byte list \<Rightarrow> int" where
  "be_val bs = foldl (\<lambda>v b. v * 256 + uint b) 0 bs"

lemma be_val_simps [simp]: "be_val [] = 0" "be_val (bs @ [b]) = be_val bs * 256 + uint b"
  by (simp_all add: be_val_def)

lemma byte_bounds: "0 \<le> uint (b :: byte)" "uint b < 256"
  using uint_bounded [of b] by simp_all

lemma be_val_bounds: "0 \<le> be_val bs \<and> be_val bs < 256 ^ length bs"
proof (induction bs rule: rev_induct)
  case (snoc b bs)
  then show ?case using byte_bounds [of b] by simp
qed simp

lemma shift_or: "0 \<le> y \<Longrightarrow> y < 2 ^ n \<Longrightarrow> push_bit n (x :: int) OR y = x * 2 ^ n + y"
proof -
  assume y: "0 \<le> y" "y < 2 ^ n"
  then have t: "take_bit n y = y" by (simp add: take_bit_int_eq_self)
  have "push_bit n x AND y = 0"
    by (rule bit_eqI) (metis t bit_and_iff bit_0_eq bit_push_bit_iff bit_take_bit_iff bot_apply bot_bool_def leD)
  then show ?thesis using plus_and_or [of "push_bit n x" y] by (simp add: push_bit_eq_mult)
qed

lemma get_uint16_at: "stored a i [x, y] \<Longrightarrow> get_uint16 a (int i) = Ret (be_val [x, y])"
  using stored_rd [of a i "[x, y]" 0] stored_rd [of a i "[x, y]" 1] byte_bounds [of y]
  by (simp add: get_uint16_def shift_or be_val_def)

lemma get_uint32_at: "stored a i [x, y, z, w] \<Longrightarrow> get_uint32 a (int i) = Ret (be_val [x, y, z, w])"
proof -
  assume a: "stored a i [x, y, z, w]"
  have "push_bit 8 (uint z) OR uint w = be_val [z, w]"
    using byte_bounds [of w] by (simp add: shift_or be_val_def)
  moreover have "push_bit 16 (uint y) OR be_val [z, w] = be_val [y, z, w]"
    using be_val_bounds [of "[z, w]"] by (simp add: shift_or) (simp add: be_val_def)
  moreover have "push_bit 24 (uint x) OR be_val [y, z, w] = be_val [x, y, z, w]"
    using be_val_bounds [of "[y, z, w]"] by (simp add: shift_or) (simp add: be_val_def)
  ultimately have "push_bit 24 (uint x) OR push_bit 16 (uint y) OR push_bit 8 (uint z) OR uint w = be_val [x, y, z, w]"
    by (simp add: or.assoc)
  then show ?thesis
    using stored_rd [OF a, of 0] stored_rd [OF a, of 1] stored_rd [OF a, of 2] stored_rd [OF a, of 3]
    by (simp add: get_uint32_def)
qed

text \<open>
  A variable length integer: up to eight bytes with seven bits each, all but the last with the highest bit
  set, or eight such bytes with the highest bit set and a ninth with eight bits.  The value is signed.
\<close>

definition base128 :: "byte list \<Rightarrow> int" where
  "base128 bs = foldl (\<lambda>v b. v * 128 + uint b mod 128) 0 bs"

definition is_varint :: "byte list \<Rightarrow> int \<Rightarrow> bool" where
  "is_varint bs v \<longleftrightarrow>
     bs \<noteq> [] \<and> (\<forall>b \<in> set (butlast bs). 128 \<le> uint b) \<and>
     (if length bs \<le> 8 then uint (last bs) < 128 \<and> v = base128 bs
      else length bs = 9 \<and> v = to_s64 (base128 (butlast bs) * 256 + uint (last bs)))"

lemma byte_and:
  "uint (b :: byte) AND 0xff = uint b"
  "uint b AND 0x7f = uint b mod 128"
  "uint b AND 0x80 = 0 \<longleftrightarrow> uint b < 128"
proof -
  have "uint b AND 0xff = uint b mod 2 ^ 8" using take_bit_eq_mask [of 8 "uint b"] by (simp add: take_bit_eq_mod mask_eq_exp_minus_1)
  then show "uint b AND 0xff = uint b" using byte_bounds [of b] by simp
  show "uint b AND 0x7f = uint b mod 128" using take_bit_eq_mask [of 7 "uint b"] by (simp add: take_bit_eq_mod mask_eq_exp_minus_1)
  have high: "even (x div 128) \<longleftrightarrow> x < 128" if "0 \<le> x" "x < 256" for x :: int using that by presburger
  have "(uint b AND 0x80 = 0) = (\<not> bit (uint b) 7)" using and_exp_eq_0_iff_not_bit [of "uint b" 7] by simp
  also have "\<dots> \<longleftrightarrow> uint b < 128"
    using high [of "uint b"] byte_bounds [of b] by (simp add: bit_iff_odd)
  finally show "uint b AND 0x80 = 0 \<longleftrightarrow> uint b < 128" .
qed

lemma base128_bounds: "0 \<le> base128 bs \<and> base128 bs < 128 ^ length bs"
proof (induction bs rule: rev_induct)
  case (snoc b bs)
  have "uint b mod 128 < 128" "0 \<le> uint b mod 128" by simp_all
  moreover have "base128 (bs @ [b]) = base128 bs * 128 + uint b mod 128" by (simp add: base128_def)
  ultimately show ?case using snoc by (simp only: length_append_singleton power_Suc) linarith
qed (simp add: base128_def)

lemma to_s64_small: "0 \<le> v \<Longrightarrow> v < 2 ^ 63 \<Longrightarrow> to_s64 v = v"
  by (simp add: to_s64_id s64_def)

text \<open>The loop after the first \<open>length ds\<close> bytes.\<close>

lemma varint_loop_step:
  assumes "stored a (i + length ds) [b]" "length ds + Suc k = 8"
  shows "varint_loop (Suc k) a (int i) (length ds) (base128 ds) =
    (if uint b < 128 then Ret (int (length ds) + 1, base128 (ds @ [b]))
     else varint_loop k a (int i) (length (ds @ [b])) (base128 (ds @ [b])))"
proof -
  have "128 ^ length ds * 128 \<le> (128 :: int) ^ 8"
    using power_increasing [of "Suc (length ds)" 8 "128 :: int"] assms(2) by (simp add: mult.commute)
  moreover have "base128 ds * 128 < 128 ^ length ds * 128" using base128_bounds [of ds] by simp
  ultimately have "base128 ds * 128 < 2 ^ 56" by simp
  then have "to_s64 (to_s64 (base128 ds * 2 ^ 7) + (uint b AND 0x7f)) = base128 (ds @ [b])"
    using base128_bounds [of ds] by (simp add: to_s64_small byte_and base128_def)
  moreover have "rd a (int i + int (length ds)) = Ret (uint b)" using stored_rd_0 [OF assms(1)] by simp
  ultimately show ?thesis by (simp add: byte_and)
qed

lemma varint_loop_stored:
  assumes "stored a (i + length ds) bs" "is_varint (ds @ bs) v" "length ds + k = 8" "bs \<noteq> []"
  shows "varint_loop k a (int i) (length ds) (base128 ds) = Ret (int (length (ds @ bs)), v)"
  using assms
proof (induction k arbitrary: ds bs)
  case 0
  then have "length bs = 1" by (auto simp: is_varint_def split: if_splits)
  then obtain b where b: "bs = [b]" by (auto simp: length_Suc_conv)
  have v: "v = to_s64 (base128 ds * 256 + uint b)" using 0 by (simp add: is_varint_def b)
  have "to_s64 (to_s64 (base128 ds * 256) + uint b) = v"
    by (simp add: v to_s64_def mod_simps algebra_simps)
  moreover have "rd a (int i + int (length ds)) = Ret (uint b)" using stored_rd_0 [of a "i + length ds" b] 0 b by simp
  ultimately show ?case using 0 b by (simp add: byte_and)
next
  case (Suc k)
  obtain b cs where b: "bs = b # cs" using Suc.prems(4) by (cases bs) auto
  have s: "stored a (i + length ds) [b]" "stored a (i + length (ds @ [b])) cs"
    using Suc.prems(1) stored_append [of a "i + length ds" "[b]" cs] by (simp_all add: b)
  show ?case
  proof (cases "cs = []")
    case True
    then have "uint b < 128" "v = base128 (ds @ [b])" using Suc.prems(2,3) by (auto simp: b is_varint_def)
    then show ?thesis using varint_loop_step [OF s(1) Suc.prems(3)] by (simp add: b True)
  next
    case False
    then have "128 \<le> uint b" using Suc.prems(2) by (auto simp: b is_varint_def butlast_append)
    then have "varint_loop (Suc k) a (int i) (length ds) (base128 ds) =
        varint_loop k a (int i) (length (ds @ [b])) (base128 (ds @ [b]))"
      using varint_loop_step [OF s(1) Suc.prems(3)] by simp
    also have "\<dots> = Ret (int (length ((ds @ [b]) @ cs)), v)"
      using Suc.IH [OF s(2), unfolded append_assoc] Suc.prems(2,3) False by (simp add: b)
    finally show ?thesis by (simp add: b)
  qed
qed

lemma varint_stored: "stored a i bs \<Longrightarrow> is_varint bs v \<Longrightarrow> dbdataGetVarint a (int i) = Ret (int (length bs), v)"
  using varint_loop_stored [of a i "[]" bs v 8] by (auto simp: dbdataGetVarint_def base128_def is_varint_def)

lemma is_varint_length: "is_varint bs v \<Longrightarrow> 1 \<le> length bs \<and> length bs \<le> 9"
  by (cases bs) (auto simp: is_varint_def split: if_splits)

section \<open>Values\<close>

text \<open>Serial types: the number of bytes of the content, and the value.  Integers are big-endian two's complement numbers.\<close>

definition be_signed :: "byte list \<Rightarrow> int" where
  "be_signed bs = (if be_val bs * 2 \<ge> 256 ^ length bs then be_val bs - 256 ^ length bs else be_val bs)"

definition ser_len :: "nat \<Rightarrow> nat" where
  "ser_len t = (if t \<ge> 12 then (t - 12) div 2 else [0, 1, 2, 3, 4, 6, 8, 8, 0, 0, 0, 0] ! t)"

definition ser_value :: "nat \<Rightarrow> byte list \<Rightarrow> sql_result" where
  "ser_value t bs =
     (if t \<in> {1, 2, 3, 4, 5, 6} then ResInt (be_signed bs)
      else if t = 7 then ResDouble (word_of_int (be_val bs))
      else if t = 8 then ResInt 0
      else if t = 9 then ResInt 1
      else if t < 12 then ResNull
      else if even t then ResBlob bs
      else ResText (map byte_char bs))"

lemma be_signed_snoc: "bs \<noteq> [] \<Longrightarrow> be_signed (bs @ [b]) = be_signed bs * 256 + uint b"
proof -
  assume "bs \<noteq> []"
  then obtain m where m: "(256 :: int) ^ length bs = 2 * m" by (cases bs) auto
  obtain u where "uint b = u" "0 \<le> u" "u < 256" using byte_bounds [of b] by blast
  then show ?thesis by (auto simp: be_signed_def m)
qed

lemma to_u64_shift: "to_u64 (to_u64 (to_u64 v * 2 ^ n) + x) = to_u64 (v * 2 ^ n + x)"
  by (simp add: to_u64_def mod_simps)

lemma shift8_signed:
  "stored a i (ds @ [x]) \<Longrightarrow> ds \<noteq> [] \<Longrightarrow>
   shift8 a (int i + int (length ds), to_u64 (be_signed ds)) =
     Ret (int i + int (length (ds @ [x])), to_u64 (be_signed (ds @ [x])))"
  using stored_rd [of a i "ds @ [x]" "length ds"] to_u64_shift [of "be_signed ds" 8 "uint x"]
  by (simp add: shift8_def be_signed_snoc)

lemma shift16_signed:
  assumes "stored a i (ds @ [x, y])" "ds \<noteq> []"
  shows "shift16 a (int i + int (length ds), to_u64 (be_signed ds)) =
     Ret (int i + int (length (ds @ [x, y])), to_u64 (be_signed (ds @ [x, y])))"
proof -
  have "be_signed (ds @ [x, y]) = be_signed ds * 2 ^ 16 + uint x * 256 + uint y"
    using be_signed_snoc [of "ds @ [x]" y] be_signed_snoc [OF assms(2)] by simp
  moreover have "to_u64 (to_u64 (to_u64 (to_u64 v * 2 ^ 16) + u) + w) = to_u64 (v * 2 ^ 16 + u + w)" for v u w
    by (simp add: to_u64_def mod_simps)
  moreover have "rd a (int i + int (length ds)) = Ret (uint x)" "rd a (int i + int (length ds) + 1) = Ret (uint y)"
    using stored_rd [OF assms(1), of "length ds"] stored_rd [OF assms(1), of "Suc (length ds)"]
    by (simp_all add: nth_append add.commute add.left_commute)
  ultimately show ?thesis by (simp add: shift16_def push_bit_eq_mult)
qed

lemma first_signed: "to_u64 (if uint x < 128 then uint x else uint x - 256) = to_u64 (be_signed [x])"
  by (simp add: be_signed_def be_val_def)

lemma value_number_stored:
  assumes "stored a i bs" "length bs = ser_len t" "t \<in> {1, 2, 3, 4, 5, 6, 7}"
  shows "value_number (int t) a (int i) = Ret (to_u64 (be_signed bs))"
proof -
  obtain x ds where bs: "bs = x # ds" using assms(2,3) by (cases bs) (auto simp: ser_len_def)
  have x: "rd a (int i) = Ret (uint x)" using stored_rd_0 assms(1) by (simp add: bs)
  note s8 = shift8_signed [where i = i and a = a] and s16 = shift16_signed [where i = i and a = a]
  have pre: "stored a i us" if "bs = us @ vs" for us vs using assms(1) that by (simp add: stored_append)
  consider "t = 1" "ds = []" | y where "t = 2" "ds = [y]" | y z where "t = 3" "ds = [y, z]"
    | y z u where "t = 4" "ds = [y, z, u]" | y z u v w where "t = 5" "ds = [y, z, u, v, w]"
    | y z u v w p q where "t \<in> {6, 7}" "ds = [y, z, u, v, w, p, q]"
    using assms(2,3) by (auto simp: bs ser_len_def length_Suc_conv numeral_eq_Suc)
  then show ?thesis
  proof cases
    case 1
    then show ?thesis by (simp add: value_number_def x on_def first_signed bs)
  next
    case 2
    then show ?thesis using s8 [OF pre [of "[x] @ [y]" "[]"]] by (simp add: value_number_def x on_def first_signed bs)
  next
    case 3
    then show ?thesis using s8 [OF pre [of "[x] @ [y]" "[z]"]] s8 [OF pre [of "[x, y] @ [z]" "[]"]]
      by (simp add: value_number_def x on_def first_signed bs)
  next
    case 4
    then show ?thesis using s8 [OF pre [of "[x] @ [y]" "[z, u]"]] s8 [OF pre [of "[x, y] @ [z]" "[u]"]]
        s8 [OF pre [of "[x, y, z] @ [u]" "[]"]]
      by (simp add: value_number_def x on_def first_signed bs)
  next
    case 5
    then show ?thesis using s16 [OF pre [of "[x] @ [y, z]" "[u, v, w]"]] s8 [OF pre [of "[x, y, z] @ [u]" "[v, w]"]]
        s8 [OF pre [of "[x, y, z, u] @ [v]" "[w]"]] s8 [OF pre [of "[x, y, z, u, v] @ [w]" "[]"]]
      by (simp add: value_number_def x on_def first_signed bs)
  next
    case 6
    then show ?thesis using s16 [OF pre [of "[x] @ [y, z]" "[u, v, w, p, q]"]] s16 [OF pre [of "[x, y, z] @ [u, v]" "[w, p, q]"]]
        s8 [OF pre [of "[x, y, z, u, v] @ [w]" "[p, q]"]] s8 [OF pre [of "[x, y, z, u, v, w] @ [p]" "[q]"]]
        s8 [OF pre [of "[x, y, z, u, v, w, p] @ [q]" "[]"]]
      by (auto simp: value_number_def x on_def first_signed bs)
  qed
qed

lemma ser_len_ValueBytes: "dbdataValueBytes (int t) = int (ser_len t)"
proof (cases "t \<ge> 12")
  case True
  then have "(int t - 12) sdiv 2 = int ((t - 12) div 2)"
    by (simp add: signed_divide_int_def zdiv_int sgn_if)
  then show ?thesis using True by (simp add: dbdataValueBytes_def ser_len_def)
next
  case False
  then have "t \<in> set [0..<12]" by simp
  then show ?thesis by (auto simp: dbdataValueBytes_def ser_len_def upt_rec)
qed

lemma to_s64_to_u64_signed: "length bs \<le> 8 \<Longrightarrow> bs \<noteq> [] \<Longrightarrow> to_s64 (be_signed bs) = be_signed bs"
proof -
  assume len: "length bs \<le> 8" "bs \<noteq> []"
  then have "(256 :: int) ^ length bs \<le> 256 ^ 8" by (intro power_increasing) simp_all
  then show ?thesis using be_val_bounds [of bs] by (auto simp: be_signed_def s64_def intro!: to_s64_id)
qed

lemma word_of_be_signed: "length bs = 8 \<Longrightarrow> word_of_int (to_u64 (be_signed bs)) = (word_of_int (be_val bs) :: 64 word)"
  by (auto simp: be_signed_def to_u64_def word_of_int_eq_iff take_bit_eq_mod mod_simps)

lemma smod_2: "int t smod 2 = int (t mod 2)"
  by (simp add: signed_modulo_int_def signed_divide_int_def sgn_if zmod_int zdiv_int minus_mult_div_eq_mod [symmetric] mult.commute)

lemma dbdataValue_stored:
  assumes "stored a i bs" "length bs = ser_len t" "int (length bs) \<le> n"
  shows "dbdataValue (int t) a (int i) n = Ret (ser_value t bs)"
proof -
  have n: "dbdataValueBytes (int t) \<le> n" using assms by (simp add: ser_len_ValueBytes)
  have "t \<in> set [0..<12]" if "t < 12" using that by simp
  then consider "t \<in> {1, 2, 3, 4, 5, 6}" | "t = 7" | "t \<in> {0, 8, 9, 10, 11}" | "12 \<le> t"
    by (fastforce simp: upt_rec)
  then show ?thesis
  proof cases
    case 1
    then have "0 < length bs \<and> length bs \<le> 8" using assms(2) by (auto simp: ser_len_def)
    then have "to_s64 (be_signed bs) = be_signed bs" by (intro to_s64_to_u64_signed) auto
    moreover have "value_number (int t) a (int i) = Ret (to_u64 (be_signed bs))"
      using value_number_stored [OF assms(1,2)] 1 by blast
    ultimately show ?thesis using 1 n by (auto simp: dbdataValue_def ser_value_def to_s64_to_u64)
  next
    case 2
    then have "length bs = 8" using assms(2) by (simp add: ser_len_def)
    moreover have "value_number 7 a (int i) = Ret (to_u64 (be_signed bs))"
      using value_number_stored [OF assms(1,2)] 2 by simp
    ultimately show ?thesis using 2 n by (simp add: dbdataValue_def ser_value_def word_of_be_signed)
  next
    case 3
    then show ?thesis using n by (auto simp: dbdataValue_def ser_value_def)
  next
    case 4
    then have "(int t - 12) sdiv 2 = int (length bs)"
      using ser_len_ValueBytes [of t] assms(2) by (simp add: dbdataValueBytes_def)
    then show ?thesis using 4 n stored_rd_n [OF assms(1)]
      by (simp add: dbdataValue_def ser_value_def smod_2 even_iff_mod_2_eq_zero)
  qed
qed

section \<open>Records\<close>

text \<open>
  A record is a header, its size and the serial types of the fields as variable length integers, followed by the contents of the fields.  The
  encodings of the integers are part of the image, since they need not be the shortest ones.
\<close>

record record_image =
  r_size :: "byte list"
  r_types :: "byte list list"
  r_fields :: "(nat \<times> byte list) list"

definition header_size :: "record_image \<Rightarrow> nat" where
  "header_size r = length (r_size r) + length (concat (r_types r))"

definition rec_bytes :: "record_image \<Rightarrow> byte list" where
  "rec_bytes r = r_size r @ concat (r_types r) @ concat (map snd (r_fields r))"

definition field_ok :: "nat \<times> byte list \<Rightarrow> bool" where
  "field_ok f \<longleftrightarrow> length (snd f) = ser_len (fst f) \<and> fst f < 2 ^ 31"

definition record_ok :: "record_image \<Rightarrow> bool" where
  "record_ok r \<longleftrightarrow>
     is_varint (r_size r) (int (header_size r)) \<and>
     list_all2 is_varint (r_types r) (map (\<lambda>f. int (fst f)) (r_fields r)) \<and>
     list_all field_ok (r_fields r) \<and>
     length (rec_bytes r) \<le> 2147483291"

text \<open>The cursor at field \<open>j\<close> of a record, where \<open>-1\<close> is the integer key.\<close>

definition types_before :: "record_image \<Rightarrow> nat \<Rightarrow> nat" where
  "types_before r j = length (r_size r) + length (concat (take j (r_types r)))"

definition content_before :: "record_image \<Rightarrow> nat \<Rightarrow> nat" where
  "content_before r j = header_size r + length (concat (map snd (take j (r_fields r))))"

definition rec_cursor :: "record_image \<Rightarrow> int \<Rightarrow> DbdataCursor \<Rightarrow> DbdataCursor" where
  "rec_cursor r j c =
     c\<lparr>pRec := Some (rec_bytes r @ replicate 100 0), nRec := int (length (rec_bytes r)), nHdr := int (header_size r),
       iField := j, pHdrPtr := int (types_before r (nat j)), pPtr := int (content_before r (nat j))\<rparr>"

lemma rec_cursor_idem [simp]: "rec_cursor r j (rec_cursor r i c) = rec_cursor r j c"
  by (simp add: rec_cursor_def)

lemma rec_cursor_sel [simp]:
  "pRec (rec_cursor r j c) = Some (rec_bytes r @ replicate 100 0)"
  "nRec (rec_cursor r j c) = int (length (rec_bytes r))"
  "nHdr (rec_cursor r j c) = int (header_size r)"
  "iField (rec_cursor r j c) = j"
  "pHdrPtr (rec_cursor r j c) = int (types_before r (nat j))"
  "pPtr (rec_cursor r j c) = int (content_before r (nat j))"
  "aPage (rec_cursor r j c) = aPage c" "nPage (rec_cursor r j c) = nPage c" "iPgno (rec_cursor r j c) = iPgno c"
  "iCell (rec_cursor r j c) = iCell c" "nCell (rec_cursor r j c) = nCell c" "pStmt (rec_cursor r j c) = pStmt c"
  "bOnePage (rec_cursor r j c) = bOnePage c" "szDb (rec_cursor r j c) = szDb c" "iIntkey (rec_cursor r j c) = iIntkey c"
  by (simp_all add: rec_cursor_def)

lemma to_s32_small: "0 \<le> v \<Longrightarrow> v < 2 ^ 31 \<Longrightarrow> to_s32 v = v"
  by (simp add: to_s32_def)

lemma record_types: "record_ok r \<Longrightarrow> length (r_types r) = length (r_fields r)"
  using list_all2_lengthD by (fastforce simp: record_ok_def)

lemma record_nth:
  assumes "record_ok r" "j < length (r_fields r)"
  shows "is_varint (r_types r ! j) (int (fst (r_fields r ! j)))" "field_ok (r_fields r ! j)"
  using assms record_types [OF assms(1)]
  by (auto simp: record_ok_def list_all_length list_all2_conv_all_nth)

lemma concat_take_Suc: "j < length xs \<Longrightarrow> concat (take (Suc j) xs) = concat (take j xs) @ xs ! j"
  by (simp add: take_Suc_conv_app_nth)

lemma stored_concat: "j < length xs \<Longrightarrow> stored (p @ concat xs @ q) (length p + length (concat (take j xs))) (xs ! j)"
proof -
  assume "j < length xs"
  then have "concat xs = concat (take j xs) @ xs ! j @ concat (drop (Suc j) xs)"
    by (metis append.assoc append_take_drop_id concat_append concat_take_Suc)
  then show ?thesis by (simp add: stored_def)
qed

lemma types_Suc: "j < length (r_types r) \<Longrightarrow> types_before r (Suc j) = types_before r j + length (r_types r ! j)"
  by (simp add: types_before_def concat_take_Suc)

lemma content_Suc: "j < length (r_fields r) \<Longrightarrow> content_before r (Suc j) = content_before r j + length (snd (r_fields r ! j))"
  using concat_take_Suc [of j "map snd (r_fields r)"] by (simp add: content_before_def take_map)

lemma type_stored: "j < length (r_types r) \<Longrightarrow> stored (rec_bytes r) (types_before r j) (r_types r ! j)"
  using stored_concat [of j "r_types r" "r_size r"] by (simp add: rec_bytes_def types_before_def)

lemma content_stored: "j < length (r_fields r) \<Longrightarrow> stored (rec_bytes r) (content_before r j) (snd (r_fields r ! j))"
  using stored_concat [of j "map snd (r_fields r)" "r_size r @ concat (r_types r)" "[]"]
  by (simp add: rec_bytes_def content_before_def header_size_def take_map)

lemma types_end: "record_ok r \<Longrightarrow> types_before r (length (r_fields r)) = header_size r"
  by (simp add: types_before_def header_size_def flip: record_types)

lemma types_less: "record_ok r \<Longrightarrow> j < length (r_fields r) \<Longrightarrow> types_before r j < header_size r"
proof -
  assume r: "record_ok r" and j: "j < length (r_fields r)"
  have "0 < length (r_types r ! j)" using is_varint_length [OF record_nth(1) [OF r j]] by linarith
  moreover have "length (concat (take (Suc j) (r_types r))) \<le> length (concat (r_types r))"
    by (metis append_take_drop_id concat_append le_add1 length_append)
  moreover have "types_before r (Suc j) = types_before r j + length (r_types r ! j)"
    using types_Suc j record_types [OF r] by simp
  ultimately show ?thesis unfolding types_before_def header_size_def by linarith
qed

lemma header_le: "header_size r \<le> length (rec_bytes r)"
  by (simp add: header_size_def rec_bytes_def)

text \<open>The row of a field, and the move to the next one.\<close>

lemma field_value_stored:
  assumes "record_ok r" "j < length (r_fields r)"
  shows "field_value (rec_cursor r (int j) c) = Ret (ser_value (fst (r_fields r ! j)) (snd (r_fields r ! j)))"
proof -
  let ?f = "r_fields r ! j" and ?a = "rec_bytes r @ replicate 100 0"
  have j: "j < length (r_types r)" using assms record_types by simp
  have "dbdataGetVarint ?a (int (types_before r j)) = Ret (int (length (r_types r ! j)), int (fst ?f))"
    using varint_stored [OF stored_pad [OF type_stored [OF j]] record_nth(1) [OF assms]] .
  moreover have "to_s32 (int (fst ?f)) = int (fst ?f)" using record_nth(2) [OF assms] by (simp add: field_ok_def to_s32_small)
  moreover have le: "content_before r j + length (snd ?f) \<le> length (rec_bytes r)"
    using content_stored [OF assms(2)] by (simp add: stored_def)
  moreover have "to_s32 (int (length (rec_bytes r)) - int (content_before r j)) = int (length (rec_bytes r)) - int (content_before r j)"
    using le assms(1) by (intro to_s32_small) (simp_all add: record_ok_def)
  ultimately show ?thesis
    using dbdataValue_stored [OF stored_pad [OF content_stored [OF assms(2)]], of "fst ?f"] record_nth(2) [OF assms]
    by (simp add: field_value_def field_ok_def)
qed

lemma next_field_first: "next_field (rec_cursor r (- 1) c) = Ret (None, False, rec_cursor r 0 c)"
  by (simp add: next_field_def rec_cursor_def)

lemma next_field_stored:
  assumes "record_ok r" "j < length (r_fields r)"
  shows "next_field (rec_cursor r (int j) c) = Ret (None, False, rec_cursor r (int (Suc j)) c)"
proof -
  let ?f = "r_fields r ! j" and ?a = "rec_bytes r @ replicate 100 0"
  have j: "j < length (r_types r)" using assms record_types by simp
  have v: "dbdataGetVarint ?a (int (types_before r j)) = Ret (int (length (r_types r ! j)), int (fst ?f))"
    using varint_stored [OF stored_pad [OF type_stored [OF j]] record_nth(1) [OF assms]] .
  have t: "dbdataValueBytes (to_s32 (int (fst ?f))) = int (length (snd ?f))"
    using record_nth(2) [OF assms] by (simp add: field_ok_def to_s32_small ser_len_ValueBytes)
  have "int (types_before r j) \<le> int (length (rec_bytes r))"
    using types_less [OF assms] header_le [of r] by simp
  then show ?thesis using v t types_Suc [OF j] content_Suc [OF assms(2)]
    by (simp add: next_field_def rec_cursor_def nat_add_distrib add.commute)
qed

lemma start_record_stored:
  assumes "record_ok r" "pRec c = Some (rec_bytes r @ replicate 100 0)" "nRec c = int (length (rec_bytes r))"
  shows "start_record k c = Ret (rec_cursor r (if k then - 1 else 0) c)"
proof -
  have "stored (rec_bytes r @ replicate 100 0) 0 (r_size r)" by (simp add: stored_def rec_bytes_def)
  moreover have "is_varint (r_size r) (int (header_size r))" using assms(1) by (simp add: record_ok_def)
  ultimately have "dbdataGetVarint (rec_bytes r @ replicate 100 0) 0 = Ret (int (length (r_size r)), int (header_size r))"
    using varint_stored by fastforce
  moreover have "to_s32 (int (header_size r)) = int (header_size r)"
    using header_le [of r] assms(1) by (simp add: record_ok_def to_s32_small)
  ultimately show ?thesis
    using assms(2,3) by (simp add: start_record_def rec_cursor_def types_before_def content_before_def)
qed

section \<open>Cells\<close>

text \<open>
  The pages of a database, by number, and a text that goes on in a chain of overflow pages: each begins with the number of the next one.
\<close>

type_synonym pages = "int \<Rightarrow> byte list option"

function chain :: "pages \<Rightarrow> nat \<Rightarrow> int \<Rightarrow> byte list \<Rightarrow> bool" where
  "chain db U n bs =
     (if bs = [] then True
      else if U \<le> 4 then False
      else case db n of
        None \<Rightarrow> False
      | Some pg \<Rightarrow>
          length pg = U \<and> take (length (take (U - 4) bs)) (drop 4 pg) = take (U - 4) bs \<and>
          chain db U (be_val (take 4 pg)) (drop (U - 4) bs))"
  by pat_completeness auto
termination by (relation "measure (\<lambda>(db, U, n, bs). length bs)") (auto simp flip: length_greater_0_conv)

declare chain.simps [simp del]

text \<open>The number of bytes of a payload that are on the page itself.\<close>

definition local_spec :: "nat \<Rightarrow> bool \<Rightarrow> nat \<Rightarrow> nat" where
  "local_spec U tbl P =
     (let X = (if tbl then U - 35 else (U - 12) * 64 div 255 - 23);
          M = (U - 12) * 32 div 255 - 23;
          K = M + (P - M) mod (U - 4)
      in if P \<le> X then P else if K \<le> X then K else M)"

datatype page_kind = Table_Leaf | Index_Leaf | Index_Interior

fun page_code :: "page_kind \<Rightarrow> byte" where
  "page_code Table_Leaf = 0x0d"
| "page_code Index_Leaf = 0x0a"
| "page_code Index_Interior = 0x02"

definition page_ptr :: "page_kind \<Rightarrow> nat" where
  "page_ptr kind = (if kind = Index_Interior then 4 else 0)"

record cell =
  c_key :: "int option"
  c_rec :: record_image

text \<open>A cell begins with the size of its payload and, on a leaf of a table, with its key.\<close>

definition cell_stored :: "pages \<Rightarrow> nat \<Rightarrow> page_kind \<Rightarrow> byte list \<Rightarrow> nat \<Rightarrow> cell \<Rightarrow> bool" where
  "cell_stored db U kind pg p cell \<longleftrightarrow>
     record_ok (c_rec cell) \<and> (c_key cell \<noteq> None \<longleftrightarrow> kind = Table_Leaf) \<and>
     (let b = rec_bytes (c_rec cell); m = local_spec U (kind = Table_Leaf) (length b)
      in \<exists>n k ov.
        is_varint n (int (length b)) \<and>
        (case c_key cell of None \<Rightarrow> k = [] | Some key \<Rightarrow> is_varint k key) \<and>
        stored pg p (n @ k @ take m b @ ov) \<and>
        (if m < length b then length ov = 4 \<and> chain db U (be_val ov) (drop m b) else ov = []))"

definition cell_on :: "pages \<Rightarrow> nat \<Rightarrow> page_kind \<Rightarrow> byte list \<Rightarrow> nat \<Rightarrow> nat \<Rightarrow> cell \<Rightarrow> bool" where
  "cell_on db U kind pg off i cell \<longleftrightarrow>
     (\<exists>x y. stored pg (off + 8 + page_ptr kind + 2 * i) [x, y] \<and>
            cell_stored db U kind pg (nat (be_val [x, y]) + page_ptr kind) cell)"

text \<open>The pages are fetched by the statement of the cursor, and memory is granted up to the limit of SQLite.\<close>

definition serves :: "dbdata_env \<Rightarrow> page_stmt \<Rightarrow> nat \<Rightarrow> pages \<Rightarrow> bool" where
  "serves E z U db \<longleftrightarrow>
     512 \<le> U \<and> U \<le> 65536 \<and> (\<forall>n. 0 < n \<and> n \<le> 2147483391 \<longrightarrow> malloc64 (api E) n) \<and>
     (\<forall>n pg. db n = Some pg \<longrightarrow> length pg = U \<and> dbpage E z n = (Some pg, SQLITE_OK))"

lemma LoadPage_served:
  "serves E z U db \<Longrightarrow> db n = Some pg \<Longrightarrow> pStmt c = Some z \<Longrightarrow>
   dbdataLoadPage E c n = (SQLITE_OK, Some (pg @ replicate 100 0), int U)"
  by (fastforce simp: serves_def dbdataLoadPage_def)

lemma local_size_spec:
  assumes "512 \<le> U" "U \<le> 65536" "P < 2 ^ 31"
  shows "local_size (int U) tbl (int P) = Ret (int (local_spec U tbl P))" "local_spec U tbl P \<le> P"
proof -
  define X where "X = (if tbl then U - 35 else (U - 12) * 64 div 255 - 23)"
  define M where "M = (U - 12) * 32 div 255 - 23"
  define K where "K = M + (P - M) mod (U - 4)"
  have q: "23 \<le> (U - 12) * 32 div 255" "(U - 12) * 32 div 255 \<le> (U - 12) * 64 div 255" "(U - 12) * 64 div 255 \<le> U - 12"
    using assms by linarith+
  have "M \<le> U - 12 - 23" unfolding M_def using q(2,3) by (intro diff_le_mono) linarith
  moreover have "M \<le> (U - 12) * 64 div 255 - 23" unfolding M_def using q(2) by (rule diff_le_mono)
  ultimately have MX: "M \<le> X" "M < 65536" using assms(1,2) by (simp_all add: X_def)
  have "int ((U - 12) * n div 255) = (int U - 12) * int n sdiv 255" for n
    using assms(1) by (simp add: signed_divide_int_def sgn_if zdiv_int)
  from this [of 64] this [of 32]
  have iX: "int X = (if tbl then int U - 35 else ((int U - 12) * 64 sdiv 255) - 23)"
    and iM: "int M = ((int U - 12) * 32 sdiv 255) - 23"
    using q assms(1) by (auto simp: X_def M_def)
  have iK: "to_s32 (int M + to_s64 (int P - int M) smod (int U - 4)) = int K" if "X < P"
  proof -
    have s: "to_s64 (int P - int M) = int P - int M" using that MX assms(3) by (intro to_s64_id) (simp add: s64_def)
    have "(int P - int M) smod (int U - 4) = (int P - int M) mod (int U - 4)"
      using that MX assms(1) by (simp add: signed_modulo_int_def signed_divide_int_def sgn_if minus_div_mult_eq_mod)
    then have "int M + (int P - int M) smod (int U - 4) = int K"
      using that MX assms(1) by (simp add: K_def zmod_int)
    moreover have "(P - M) mod (U - 4) < U - 4" using assms(1) by simp
    then have "int K < 2 ^ 31" using MX assms(2) by (simp add: K_def)
    ultimately show ?thesis by (simp add: s to_s32_small)
  qed
  have spec: "local_spec U tbl P = (if P \<le> X then P else if K \<le> X then K else M)"
    by (simp add: local_spec_def X_def M_def K_def Let_def)
  show "local_size (int U) tbl (int P) = Ret (int (local_spec U tbl P))"
    unfolding local_size_def Let_def iX [symmetric] iM [symmetric]
    using iK assms(1,3) by (simp add: spec to_s32_small)
  show "local_spec U tbl P \<le> P" using MX by (auto simp: spec)
qed

lemma length_4: "length xs = 4 \<Longrightarrow> \<exists>x y u v. xs = [x, y, u, v]"
  by (auto simp: length_Suc_conv numeral_eq_Suc)

lemma copy_stored:
  assumes "stored b j bs" "length bs \<le> m"
  shows "copy (done @ replicate m 0) (int (length done)) b (int j) (int (length bs)) = Ret (done @ bs @ replicate (m - length bs) 0)"
proof -
  have "nat (int (length done) + int (length bs)) = length done + length bs" by simp
  then show ?thesis using assms(2) stored_rd_n [OF assms(1) refl] by (simp add: copy_def)
qed

lemma overflow_loop_chain:
  assumes "serves E z U db" "pStmt c = Some z" "nPage c = int U"
  shows "chain db U n bs \<Longrightarrow> length bs < k \<Longrightarrow> P = int (length done + length bs) \<Longrightarrow>
    overflow_loop k E c P (int (length bs)) n (done @ replicate (length bs + 100) 0) = Ret (None, done @ bs @ replicate 100 0)"
proof (induction k arbitrary: n bs "done")
  case (Suc k)
  show ?case
  proof (cases "bs = []")
    case False
    have U: "512 \<le> U" using assms(1) by (simp add: serves_def)
    obtain pg where pg: "db n = Some pg" "length pg = U" "take (length (take (U - 4) bs)) (drop 4 pg) = take (U - 4) bs"
      "chain db U (be_val (take 4 pg)) (drop (U - 4) bs)"
      using Suc.prems(1) False U by (subst (asm) chain.simps) (auto split: option.splits)
    let ?t = "take (U - 4) bs" and ?d = "drop (U - 4) bs" and ?a = "pg @ replicate 100 0"
    have "stored pg 4 ?t" using pg(2,3) U by (simp add: stored_def)
    from copy_stored [OF stored_pad [OF this], of "length bs + 100" "done"]
    have cp: "copy (done @ replicate (length bs + 100) 0) (int (length done)) ?a 4 (int (length ?t)) =
        Ret ((done @ ?t) @ replicate (length ?d + 100) 0)"
      by (simp add: diff_add_eq_diff_diff_swap)
    obtain x y u v where t4: "take 4 pg = [x, y, u, v]" using length_4 [of "take 4 pg"] pg(2) U by auto
    have "stored pg 0 (take 4 pg)" using pg(2) U by (simp add: stored_def)
    then have "stored ?a 0 [x, y, u, v]" using stored_pad t4 by metis
    then have nx: "get_uint32 ?a 0 = Ret (be_val (take 4 pg))" using get_uint32_at [of ?a 0] t4 by simp
    have nc: "(if int U - 4 > int (length bs) then int (length bs) else int U - 4) = int (length ?t)" using U by auto
    have pos: "(0 < int (length bs)) = True" and at: "P - int (length bs) = int (length done)" using False Suc.prems(3) by simp_all
    have rem: "int (length bs) - int (length ?t) = int (length ?d)" by (simp add: min_def)
    have ih: "overflow_loop k E c P (int (length ?d)) (be_val (take 4 pg)) ((done @ ?t) @ replicate (length ?d + 100) 0) =
        Ret (None, (done @ ?t) @ ?d @ replicate 100 0)"
      using Suc.prems(2,3) False U by (intro Suc.IH [OF pg(4)]) (auto simp flip: length_greater_0_conv)
    have "overflow_loop (Suc k) E c P (int (length bs)) n (done @ replicate (length bs + 100) 0) =
        overflow_loop k E c P (int (length ?d)) (be_val (take 4 pg)) ((done @ ?t) @ replicate (length ?d + 100) 0)"
      by (simp only: overflow_loop.simps pos if_True if_False LoadPage_served [OF assms(1) pg(1) assms(2)] assms(3)
          prod.case option.case Let_def nc at cp bind_run.simps nx rem simp_thms)
    also have "\<dots> = Ret (None, done @ bs @ replicate 100 0)" using ih by simp
    finally show ?thesis .
  qed simp
qed simp

lemma load_payload_stored:
  assumes E: "serves E z U db" "pStmt c = Some z" "nPage c = int U" "aPage c = Some (pg @ replicate 100 0)"
    and b: "length b \<le> 2147483291" "m \<le> length b" "stored pg q (take m b @ ov)"
    and ov: "if m < length b then length ov = 4 \<and> chain db U (be_val ov) (drop m b) else ov = []"
  shows "load_payload E (int q) (int (length b)) (int m) c =
    Ret (None, c\<lparr>nRec := int (length b), pRec := Some (b @ replicate 100 0)\<rparr>)"
proof -
  let ?a = "pg @ replicate 100 0" and ?t = "take m b" and ?d = "drop m b" and ?c = "c\<lparr>nRec := int (length b)\<rparr>"
  have st: "stored ?a q ?t" "stored ?a (q + m) ov"
    using stored_pad [OF b(3)] b(2) by (simp_all add: stored_append)
  have mal: "malloc64 (api E) (to_u64 (int (length b) + 100))"
    using E(1) b(1) by (simp add: serves_def to_u64_id)
  have cp: "copy (replicate (nat (int (length b) + 100)) 0) 0 ?a (int q) (int m) = Ret (?t @ replicate (length ?d + 100) 0)"
    using copy_stored [OF st(1), of "length b + 100" "[]"] b(2) by (simp add: nat_add_distrib)
  show ?thesis
  proof (cases "m < length b")
    case False
    then show ?thesis using mal cp b(1,2) E(4) by (simp add: load_payload_def to_s32_small)
  next
    case True
    then obtain x y u v where x: "ov = [x, y, u, v]" using ov length_4 [of ov] by auto
    have nx: "get_uint32 ?a (int q + int m) = Ret (be_val ov)" using get_uint32_at [OF st(2) [unfolded x]] by (simp add: x)
    have "chain db U (be_val ov) ?d" using ov True by simp
    then have "overflow_loop (Suc (length ?d)) E ?c (int (length b)) (int (length ?d)) (be_val ov) (?t @ replicate (length ?d + 100) 0) =
        Ret (None, ?t @ ?d @ replicate 100 0)"
      by (rule overflow_loop_chain [OF E(1), of ?c, rotated 2]) (use E(2,3) b(2) in simp_all)
    then have "overflow_loop (Suc (length ?d)) E ?c (int (length b)) (int (length ?d)) (be_val ov) (?t @ replicate (length ?d + 100) 0) =
        Ret (None, b @ replicate 100 0)"
      by (simp only: append.assoc [symmetric] append_take_drop_id)
    moreover have "int (length b) - int m = int (length ?d)" using True by simp
    ultimately show ?thesis using mal cp b(1) E(4) True nx
      by (simp del: length_drop overflow_loop.simps add: load_payload_def to_s32_small Let_def)
  qed
qed

lemma cell_start_stored:
  assumes "nPage c = int U" "aPage c = Some (pg @ replicate 100 0)" "length pg = U" "iCell c = int i"
    and "stored pg (off + 8 + ptr + 2 * i) [x, y]" "p = nat (be_val [x, y]) + ptr"
    and "stored pg p (n @ k @ bs)" "is_varint n P" "if key = None then k = [] else is_varint k (the key)"
  shows "cell_start (int off) (int ptr) (key \<noteq> None) c =
    Ret (False, int (p + length n + length k), P, case key of None \<Rightarrow> c | Some v \<Rightarrow> c\<lparr>iIntkey := v\<rparr>)"
proof -
  let ?a = "pg @ replicate 100 0"
  have "get_uint16 ?a (int (off + 8 + ptr + 2 * i)) = Ret (be_val [x, y])"
    using get_uint16_at stored_pad assms(5) by blast
  moreover have "off + 8 + ptr + 2 * i \<le> U" using assms(3,5) by (simp add: stored_def)
  moreover have "int off + (8 + int ptr + int i * 2) = int (off + 8 + ptr + 2 * i)" by simp
  moreover have "be_val [x, y] + int ptr = int p" using be_val_bounds [of "[x, y]"] assms(6) by simp
  ultimately have co: "cell_offset (int off) (int ptr) c = Ret (False, int p)"
    using assms(1,2,4) by (simp only: cell_offset_def Let_def of_nat_le_iff option.sel bind_run.simps not_le [symmetric]) simp
  have s: "stored ?a p n" "stored ?a (p + length n) k"
    using stored_pad [OF assms(7), of "replicate 100 0"] by (simp_all add: stored_append)
  have s3: "p + length n + length k \<le> U" using assms(3,7) by (simp add: stored_def)
  have v: "dbdataGetVarint ?a (int p) = Ret (int (length n), P)" using varint_stored [OF s(1) assms(8)] .
  show ?thesis
  proof (cases key)
    case None
    then show ?thesis using co v s3 assms(1,2,9) by (simp add: cell_start_def)
  next
    case (Some w)
    then have "dbdataGetVarint ?a (int (p + length n)) = Ret (int (length k), w)" "k \<noteq> []"
      using varint_stored [OF s(2)] assms(9) by (auto simp: is_varint_def)
    then show ?thesis using co v s3 assms(1,2) Some by (cases k) (simp_all add: cell_start_def)
  qed
qed

lemma page_code_uint:
  "uint (page_code kind) \<in> {0x02, 0x0a, 0x0d}"
  "uint (page_code kind) = 0x02 \<longleftrightarrow> kind = Index_Interior" "uint (page_code kind) = 0x0d \<longleftrightarrow> kind = Table_Leaf"
  by (cases kind; simp)+

text \<open>Loading the record of a cell that is stored on the page.\<close>

lemma load_record_stored:
  assumes E: "serves E z U db" "pStmt c = Some z" "nPage c = int U" "aPage c = Some (pg @ replicate 100 0)" "length pg = U"
    and k: "stored pg off [page_code kind]" "iCell c = int i" "int i < nCell c"
    and cell: "cell_on db U kind pg off i cell"
  shows "load_record E (int off) c =
    Ret (None, False, rec_cursor (c_rec cell) (if c_key cell \<noteq> None then - 1 else 0)
      (case c_key cell of None \<Rightarrow> c | Some v \<Rightarrow> c\<lparr>iIntkey := v\<rparr>))"
proof -
  let ?r = "c_rec cell" and ?b = "rec_bytes (c_rec cell)" and ?m = "local_spec U (kind = Table_Leaf) (length (rec_bytes (c_rec cell)))"
  let ?c = "case c_key cell of None \<Rightarrow> c | Some v \<Rightarrow> c\<lparr>iIntkey := v\<rparr>"
  have keep: "pStmt ?c = Some z" "nPage ?c = int U" "aPage ?c = Some (pg @ replicate 100 0)"
    using E by (auto split: option.split)
  obtain x y where xy: "stored pg (off + 8 + page_ptr kind + 2 * i) [x, y]"
    and cs: "cell_stored db U kind pg (nat (be_val [x, y]) + page_ptr kind) cell"
    using cell by (auto simp: cell_on_def)
  define p where "p = nat (be_val [x, y]) + page_ptr kind"
  obtain n k ov where r: "record_ok ?r" "c_key cell \<noteq> None \<longleftrightarrow> kind = Table_Leaf" "is_varint n (int (length ?b))"
    "case c_key cell of None \<Rightarrow> k = [] | Some key \<Rightarrow> is_varint k key" "stored pg p (n @ k @ take ?m ?b @ ov)"
    "if ?m < length ?b then length ov = 4 \<and> chain db U (be_val ov) (drop ?m ?b) else ov = []"
    using cs by (auto simp: cell_stored_def p_def Let_def)
  have U: "512 \<le> U" "U \<le> 65536" and b: "length ?b \<le> 2147483291" using E(1) r(1) by (simp_all add: serves_def record_ok_def)
  have t: "rd (pg @ replicate 100 0) (int off) = Ret (uint (page_code kind))" using stored_rd_0 [OF stored_pad [OF k(1)]] .
  have "if c_key cell = None then k = [] else is_varint k (the (c_key cell))" using r(4) by (auto split: option.splits)
  from cell_start_stored [OF E(3,4,5) k(2) xy p_def r(5,3) this]
  have start: "cell_start (int off) (if kind = Index_Interior then 4 else 0) (kind = Table_Leaf) c =
      Ret (False, int (p + length n + length k), int (length ?b), ?c)"
    by (auto simp: page_ptr_def r(2) [symmetric])
  have loc: "local_size (int U) (kind = Table_Leaf) (int (length ?b)) = Ret (int ?m)" "?m \<le> length ?b"
    using local_size_spec [OF U] b by simp_all
  have st: "stored pg (p + length n + length k) (take ?m ?b @ ov)" using r(5) by (simp add: stored_append add.assoc)
  then have fits: "\<not> int ?m + int (p + length n + length k) > int U" using E(5) loc(2) by (simp add: stored_def)
  note pay = load_payload_stored [OF E(1) keep b loc(2) st r(6)]
  have rec: "start_record (kind = Table_Leaf) (?c\<lparr>nRec := int (length ?b), pRec := Some (?b @ replicate 100 0)\<rparr>) =
      Ret (rec_cursor ?r (if c_key cell \<noteq> None then - 1 else 0) ?c)"
    by (subst start_record_stored [OF r(1)]) (use r(2) in \<open>auto simp: rec_cursor_def\<close>)
  show ?thesis
    using t k(2,3) start loc(1) fits pay rec E(4) keep(2) page_code_uint [of kind]
    by (simp add: load_record_def Let_def)
qed

end
