(* ===== verification/Dbdata_Scan.thy ===== *)
theory Dbdata_Scan
  imports Dbdata_Format
begin

text \<open>
  A scan of \<^verbatim>\<open>sqlite_dbdata\<close> or \<^verbatim>\<open>sqlite_dbptr\<close> on a database file of the format of \<open>Dbdata_Format\<close>: the rows are the keys and fields of the cells, or the
  pointers of the interior pages, page by page.
\<close>

section \<open>Reading a checked cursor\<close>

text \<open>
  The loop of the core over a virtual table whose methods may fault, run for too long or return an error.  \<open>nxt\<close> and \<open>row\<close> are what the methods
  give when they succeed.
\<close>

fun read_all :: "('c \<Rightarrow> bool) \<Rightarrow> ('c \<Rightarrow> (int \<times> 'c) run) \<Rightarrow> ('c \<Rightarrow> 'v run) \<Rightarrow> nat \<Rightarrow> 'c \<Rightarrow> (int \<times> 'v list) run" where
  "read_all eof step cols 0 c = Running"
| "read_all eof step cols (Suc n) c =
     (if eof c then Ret (SQLITE_OK, [])
      else bind_run (cols c) (\<lambda>v. bind_run (step c) (\<lambda>(rc, c).
        if rc \<noteq> SQLITE_OK then Ret (rc, [v])
        else bind_run (read_all eof step cols n c) (\<lambda>(rc, vs). Ret (rc, v # vs)))))"

locale checked_cursor = vtab_cursor eof nxt row inv remaining
  for eof :: "'c \<Rightarrow> bool" and nxt :: "'c \<Rightarrow> 'c" and row :: "'c \<Rightarrow> 'v" and inv :: "'c \<Rightarrow> bool" and remaining :: "'c \<Rightarrow> 'v list" +
  fixes step :: "'c \<Rightarrow> (int \<times> 'c) run" and cols :: "'c \<Rightarrow> 'v run"
  assumes step_ok: "inv c \<Longrightarrow> \<not> eof c \<Longrightarrow> step c = Ret (SQLITE_OK, nxt c)"
    and cols_ok: "inv c \<Longrightarrow> \<not> eof c \<Longrightarrow> cols c = Ret (row c)"
begin

lemma read_remaining: "inv c \<Longrightarrow> length (remaining c) < n \<Longrightarrow> read_all eof step cols n c = Ret (SQLITE_OK, remaining c)"
proof (induction n arbitrary: c)
  case (Suc n)
  show ?case
  proof (cases "eof c")
    case True
    then show ?thesis using eof_iff [OF Suc.prems(1)] by simp
  next
    case False
    note next_row [OF Suc.prems(1) False]
    moreover have "read_all eof step cols n (nxt c) = Ret (SQLITE_OK, remaining (nxt c))"
      using Suc.prems(2) calculation by (intro Suc.IH [OF next_inv [OF Suc.prems(1) False]]) simp
    ultimately show ?thesis using False step_ok [OF Suc.prems(1) False] cols_ok [OF Suc.prems(1) False] by simp
  qed
qed simp

end

section \<open>Files\<close>

text \<open>
  A database file: the size of its pages, their number, the pages, and for each page its kind, if there are records on it, with
  its cells.
\<close>

record file_image =
  page_size :: nat
  page_count :: int
  page_of :: pages
  content :: "int \<Rightarrow> page_kind option \<times> cell list"

definition off :: "int \<Rightarrow> nat" where
  "off n = (if n = 1 then 100 else 0)"

abbreviation cells :: "file_image \<Rightarrow> int \<Rightarrow> cell list" where
  "cells F n \<equiv> snd (content F n)"

definition page_ok :: "file_image \<Rightarrow> int \<Rightarrow> bool" where
  "page_ok F n \<longleftrightarrow>
     (case page_of F n of
        None \<Rightarrow> False
      | Some pg \<Rightarrow>
          length pg = page_size F \<and>
          (case fst (content F n) of
             None \<Rightarrow> cells F n = [] \<and> uint (pg ! off n) \<notin> {0x02, 0x0a, 0x0d}
           | Some kind \<Rightarrow>
               stored pg (off n) [page_code kind] \<and>
               (\<exists>x y. stored pg (off n + 3) [x, y] \<and> be_val [x, y] = int (length (cells F n))) \<and>
               (\<forall>i < length (cells F n). cell_on (page_of F) (page_size F) kind pg (off n) i (cells F n ! i))))"

definition file_ok :: "dbdata_env \<Rightarrow> page_stmt \<Rightarrow> file_image \<Rightarrow> bool" where
  "file_ok E z F \<longleftrightarrow> serves E z (page_size F) (page_of F) \<and> page_count F < 2 ^ 31 - 1 \<and> (\<forall>n \<in> {1..page_count F}. page_ok F n)"

text \<open>The rows of \<^verbatim>\<open>sqlite_dbdata\<close>.\<close>

definition cell_rows :: "int \<Rightarrow> nat \<Rightarrow> cell \<Rightarrow> sql_result list list" where
  "cell_rows n i cell =
     (case c_key cell of None \<Rightarrow> [] | Some key \<Rightarrow> [[ResInt n, ResInt (int i), ResInt (- 1), ResInt key]]) @
     map (\<lambda>j. [ResInt n, ResInt (int i), ResInt (int j),
               ser_value (fst (r_fields (c_rec cell) ! j)) (snd (r_fields (c_rec cell) ! j))]) [0..<length (r_fields (c_rec cell))]"

definition page_rows :: "file_image \<Rightarrow> int \<Rightarrow> nat \<Rightarrow> sql_result list list" where
  "page_rows F n i = concat (map (\<lambda>i. cell_rows n i (cells F n ! i)) [i..<length (cells F n)])"

definition data_rows :: "file_image \<Rightarrow> int \<Rightarrow> sql_result list list" where
  "data_rows F n = concat (map (\<lambda>m. page_rows F m 0) [n..page_count F])"

definition rows_from :: "file_image \<Rightarrow> bool \<Rightarrow> int \<Rightarrow> nat \<Rightarrow> sql_result list list" where
  "rows_from F one n i = page_rows F n i @ (if one then [] else data_rows F (n + 1))"

text \<open>The number of turns of the loop from there, at most.\<close>

definition turns_from :: "file_image \<Rightarrow> bool \<Rightarrow> int \<Rightarrow> nat \<Rightarrow> nat" where
  "turns_from F one n i =
     2 + (length (cells F n) - i) + (if one then 0 else \<Sum>m \<leftarrow> [n + 1..page_count F]. 1 + length (cells F m))"

definition max_turns :: "file_image \<Rightarrow> nat" where
  "max_turns F = 3 + (\<Sum>m \<leftarrow> [1..page_count F]. 1 + length (cells F m))"

section \<open>Positions of the cursor\<close>

definition set_up :: "page_stmt \<Rightarrow> file_image \<Rightarrow> bool \<Rightarrow> DbdataCursor \<Rightarrow> bool" where
  "set_up z F one c \<longleftrightarrow> pStmt c = Some z \<and> bOnePage c = one \<and> (one \<or> szDb c = page_count F)"

definition on_page :: "page_stmt \<Rightarrow> file_image \<Rightarrow> bool \<Rightarrow> int \<Rightarrow> DbdataCursor \<Rightarrow> bool" where
  "on_page z F one n c \<longleftrightarrow>
     set_up z F one c \<and> n \<in> {1..page_count F} \<and> iPgno c = n \<and> nPage c = int (page_size F) \<and>
     aPage c = Some (the (page_of F n) @ replicate 100 0) \<and>
     (fst (content F n) \<noteq> None \<longrightarrow> nCell c = int (length (cells F n)))"

text \<open>At a row, and before the record of cell \<open>i\<close> is loaded.\<close>

definition at_row :: "page_stmt \<Rightarrow> file_image \<Rightarrow> bool \<Rightarrow> int \<Rightarrow> nat \<Rightarrow> int \<Rightarrow> DbdataCursor \<Rightarrow> bool" where
  "at_row z F one n i j c \<longleftrightarrow>
     on_page z F one n c \<and> i < length (cells F n) \<and> iCell c = int i \<and>
     c = rec_cursor (c_rec (cells F n ! i)) j c \<and>
     j < int (length (r_fields (c_rec (cells F n ! i)))) \<and>
     (case c_key (cells F n ! i) of None \<Rightarrow> 0 \<le> j | Some key \<Rightarrow> - 1 \<le> j \<and> iIntkey c = key)"

definition before_cell :: "page_stmt \<Rightarrow> file_image \<Rightarrow> bool \<Rightarrow> int \<Rightarrow> nat \<Rightarrow> DbdataCursor \<Rightarrow> bool" where
  "before_cell z F one n i c \<longleftrightarrow> on_page z F one n c \<and> pRec c = None \<and> i \<le> length (cells F n) \<and> iCell c = int i"

definition rows_left :: "file_image \<Rightarrow> bool \<Rightarrow> DbdataCursor \<Rightarrow> sql_result list list" where
  "rows_left F one c =
     (if aPage c = None then []
      else let n = iPgno c; i = nat (iCell c); cell = cells F n ! i
           in drop (nat (iField c + (if c_key cell = None then 0 else 1))) (cell_rows n i cell) @ rows_from F one n (Suc i))"

definition scan_inv :: "page_stmt \<Rightarrow> file_image \<Rightarrow> bool \<Rightarrow> DbdataCursor \<Rightarrow> bool" where
  "scan_inv z F one c \<longleftrightarrow> set_up z F one c \<and> (aPage c = None \<or> (\<exists>n i j. at_row z F one n i j c))"

section \<open>One turn\<close>

lemma on_page_sel:
  assumes "on_page z F one n c"
  shows "pStmt c = Some z" "bOnePage c = one" "iPgno c = n" "nPage c = int (page_size F)"
    "aPage c = Some (the (page_of F n) @ replicate 100 0)" "n \<in> {1..page_count F}" "set_up z F one c"
  using assms by (simp_all add: on_page_def set_up_def)

lemma file_page:
  assumes "file_ok E z F" "n \<in> {1..page_count F}"
  obtains pg where "page_of F n = Some pg" "length pg = page_size F" "512 \<le> length pg" "serves E z (page_size F) (page_of F)"
    "page_ok F n"
proof -
  have "page_ok F n" using assms by (simp add: file_ok_def)
  then obtain pg where "page_of F n = Some pg" "length pg = page_size F" by (auto simp: page_ok_def split: option.splits)
  moreover have "serves E z (page_size F) (page_of F)" using assms(1) by (simp add: file_ok_def)
  ultimately show thesis using that \<open>page_ok F n\<close> by (simp add: serves_def)
qed

lemma page_off_off: "iPgno c = n \<Longrightarrow> page_off c = int (off n)"
  by (simp add: page_off_def off_def)

lemma next_turn_loaded:
  "aPage c \<noteq> None \<Longrightarrow> \<not> bPtr T \<Longrightarrow> next_turn k E T c = next_data E (page_off c) c"
  by (simp add: next_turn_def load_page_def)

lemma at_row_record: "file_ok E z F \<Longrightarrow> at_row z F one n i j c \<Longrightarrow> record_ok (c_rec (cells F n ! i))"
proof -
  assume F: "file_ok E z F" and r: "at_row z F one n i j c"
  have i: "i < length (cells F n)" and n: "n \<in> {1..page_count F}" using r by (simp_all add: at_row_def on_page_def)
  obtain pg where pg: "page_of F n = Some pg" "page_ok F n" using file_page [OF F n] by metis
  then obtain kind where "cell_on (page_of F) (page_size F) kind pg (off n) i (cells F n ! i)"
    using i by (auto simp: page_ok_def split: option.splits)
  then show ?thesis by (auto simp: cell_on_def cell_stored_def)
qed

lemma next_data_row:
  assumes "file_ok E z F" "at_row z F one n i j c" "\<not> bPtr T"
  defines "r \<equiv> c_rec (cells F n ! i)"
  shows "next_turn k E T c =
    Ret (if j + 1 < int (length (r_fields r)) then (Some SQLITE_OK, rec_cursor r (j + 1) c)
         else (None, (rec_cursor r (j + 1) c)\<lparr>pRec := None, iCell := int i + 1\<rparr>))"
proof -
  have r: "record_ok r" using at_row_record [OF assms(1,2)] by (simp add: r_def)
  have c: "c = rec_cursor r j c" and j: "- 1 \<le> j" "j < int (length (r_fields r))" and p: "aPage c \<noteq> None" and ic: "iCell c = int i"
    using assms(2) by (auto simp: at_row_def r_def on_page_def split: option.splits)
  have rec: "pRec c = Some (rec_bytes r @ replicate 100 0)" by (subst c) simp
  have nf: "next_field c = Ret (None, False, rec_cursor r (j + 1) c)"
  proof (cases "j = - 1")
    case True
    then show ?thesis using next_field_first [of r c] c by simp
  next
    case False
    then have "j = int (nat j)" "nat j < length (r_fields r)" using j by auto
    then show ?thesis using next_field_stored [OF r, of "nat j" c] c by (simp add: add.commute)
  qed
  have "nat (j + 1) \<le> length (r_fields r)" using j by linarith
  then have "types_before r (nat (j + 1)) < header_size r \<longleftrightarrow> j + 1 < int (length (r_fields r))"
    using types_less [OF r, of "nat (j + 1)"] types_end [OF r] j by (cases "nat (j + 1) = length (r_fields r)") auto
  then show ?thesis
    using nf rec j ic by (simp add: next_turn_loaded [OF p assms(3)] next_data_def)
qed

definition first_field :: "cell \<Rightarrow> int" where
  "first_field cell = (if c_key cell \<noteq> None then - 1 else 0)"

definition with_key :: "cell \<Rightarrow> DbdataCursor \<Rightarrow> DbdataCursor" where
  "with_key cell c = (case c_key cell of None \<Rightarrow> c | Some v \<Rightarrow> c\<lparr>iIntkey := v\<rparr>)"

lemma with_key_sel [simp]:
  "aPage (with_key cell c) = aPage c" "nPage (with_key cell c) = nPage c" "iPgno (with_key cell c) = iPgno c"
  "iCell (with_key cell c) = iCell c" "nCell (with_key cell c) = nCell c" "pStmt (with_key cell c) = pStmt c"
  "bOnePage (with_key cell c) = bOnePage c" "szDb (with_key cell c) = szDb c" "pRec (with_key cell c) = pRec c"
  by (simp_all add: with_key_def split: option.split)

lemma next_data_cell:
  assumes "file_ok E z F" "before_cell z F one n i c" "i < length (cells F n)" "\<not> bPtr T"
  defines "cell \<equiv> cells F n ! i"
  shows "next_turn k E T c =
    Ret (if first_field cell < int (length (r_fields (c_rec cell)))
         then (Some SQLITE_OK, rec_cursor (c_rec cell) (first_field cell) (with_key cell c))
         else (None, (rec_cursor (c_rec cell) (first_field cell) (with_key cell c))\<lparr>pRec := None, iCell := int i + 1\<rparr>))"
proof -
  have b: "on_page z F one n c" "pRec c = None" "iCell c = int i" using assms(2) by (simp_all add: before_cell_def)
  obtain pg where pg: "page_of F n = Some pg" "length pg = page_size F" "serves E z (page_size F) (page_of F)" "page_ok F n"
    using file_page [OF assms(1) on_page_sel(6) [OF b(1)]] by metis
  obtain kind where kind: "stored pg (off n) [page_code kind]" "cell_on (page_of F) (page_size F) kind pg (off n) i cell"
    "fst (content F n) = Some kind"
    using pg(1,4) assms(3) by (auto simp: page_ok_def cell_def split: option.splits)
  have p: "aPage c = Some (pg @ replicate 100 0)" "aPage c \<noteq> None" "int i < nCell c"
    using on_page_sel(5) [OF b(1)] pg(1) assms(3) b(1) kind(3) by (simp_all add: on_page_def)
  have lr: "load_record E (int (off n)) c = Ret (None, False, rec_cursor (c_rec cell) (first_field cell) (with_key cell c))"
    using load_record_stored [OF pg(3) on_page_sel(1,4) [OF b(1)] p(1) pg(2) kind(1) b(3) p(3) kind(2)]
    by (simp add: first_field_def with_key_def)
  have r: "record_ok (c_rec cell)" using kind(2) by (auto simp: cell_on_def cell_stored_def)
  have "types_before (c_rec cell) 0 < header_size (c_rec cell) \<longleftrightarrow> 0 < length (r_fields (c_rec cell))"
    using types_less [OF r, of 0] types_end [OF r] by (cases "r_fields (c_rec cell)") auto
  then show ?thesis using lr b(2,3) p(2)
    by (simp add: next_turn_loaded assms(4) page_off_off [OF on_page_sel(3) [OF b(1)]] next_data_def first_field_def)
qed

lemma next_data_page:
  assumes "file_ok E z F" "before_cell z F one n (length (cells F n)) c" "\<not> bPtr T"
  shows "\<exists>i. next_turn k E T c = Ret (next_page (c\<lparr>iCell := i, pRec := None\<rparr>))"
proof -
  have b: "on_page z F one n c" "pRec c = None" "iCell c = int (length (cells F n))" using assms(2) by (simp_all add: before_cell_def)
  obtain pg where pg: "page_of F n = Some pg" "length pg = page_size F" "512 \<le> length pg" "page_ok F n"
    using file_page [OF assms(1) on_page_sel(6) [OF b(1)]] by metis
  have p: "aPage c = Some (pg @ replicate 100 0)" "aPage c \<noteq> None" using on_page_sel(5) [OF b(1)] pg(1) by simp_all
  have lr: "\<exists>i. load_record E (int (off n)) c = Ret (None, True, c\<lparr>iCell := i\<rparr>)"
  proof (cases "fst (content F n)")
    case None
    then have "rd (pg @ replicate 100 0) (int (off n)) = Ret (uint (pg ! off n))" "uint (pg ! off n) \<notin> {0x02, 0x0a, 0x0d}"
      using pg by (auto simp: page_ok_def rd_def off_def nth_append)
    then show ?thesis using p(1) by (auto simp: load_record_def Let_def)
  next
    case (Some kind)
    then have "stored pg (off n) [page_code kind]" "nCell c = int (length (cells F n))"
      using pg(1,4) b(1) by (auto simp: page_ok_def on_page_def)
    then have "rd (pg @ replicate 100 0) (int (off n)) = Ret (uint (page_code kind))" "c = c\<lparr>iCell := nCell c\<rparr>"
      using stored_rd_0 [OF stored_pad] b(3) by simp_all
    then show ?thesis using p(1) b(3) page_code_uint(1) [of kind] \<open>nCell c = _\<close>
      by (intro exI [of _ "nCell c"]) (auto simp: load_record_def Let_def)
  qed
  then obtain i where "load_record E (int (off n)) c = Ret (None, True, c\<lparr>iCell := i\<rparr>)" by blast
  then show ?thesis using b(2) p(2)
    by (intro exI [of _ i]) (simp add: next_turn_loaded assms(3) page_off_off [OF on_page_sel(3) [OF b(1)]] next_data_def)
qed

text \<open>Fetching the next page, which happens at the beginning of a turn.\<close>

lemma load_page_file:
  assumes "file_ok E z F" "set_up z F one c" "aPage c = None" "iPgno c = n" "n \<in> {1..page_count F}"
  obtains m where
    "load_page (Suc k) E T (int (off n)) c =
       Ret (None, c\<lparr>aPage := Some (the (page_of F n) @ replicate 100 0), nPage := int (page_size F),
                    iCell := (if bPtr T then - 2 else 0), nCell := m\<rparr>)"
    "get_uint16 (the (page_of F n) @ replicate 100 0) (int (off n) + 3) = Ret m"
proof -
  obtain pg where pg: "page_of F n = Some pg" "length pg = page_size F" "512 \<le> length pg" "serves E z (page_size F) (page_of F)"
    using file_page [OF assms(1,5)] by metis
  have "n mod 2 ^ 32 = n" using assms(1,5) by (simp add: file_ok_def)
  then have ld: "dbdataLoadPage E c (iPgno c mod 2 ^ 32) = (SQLITE_OK, Some (pg @ replicate 100 0), int (page_size F))"
    using LoadPage_served [OF pg(4,1)] assms(2,4) by (simp add: set_up_def)
  have "\<not> (\<not> bOnePage c \<and> iPgno c > szDb c)" using assms(2,4,5) by (auto simp: set_up_def)
  then have ll: "load_loop (Suc k) E c = Ret (None, c\<lparr>aPage := Some (pg @ replicate 100 0), nPage := int (page_size F)\<rparr>)"
    using ld by (simp add: Let_def)
  obtain m where "get_uint16 (pg @ replicate 100 0) (int (off n) + 3) = Ret m"
    using pg(3) by (cases "n = 1") (simp_all add: get_uint16_def rd_def off_def)
  then show thesis using ll assms(3) pg(1) by (intro that [of m]) (simp_all add: load_page_def del: load_loop.simps)
qed

lemma fetch_before:
  assumes "file_ok E z F" "set_up z F one c" "aPage c = None" "iPgno c = n" "n \<in> {1..page_count F}" "pRec c = None" "\<not> bPtr T"
  obtains c' where "next_turn (Suc k) E T c = next_turn (Suc k) E T c'" "before_cell z F one n 0 c'"
proof -
  let ?a = "the (page_of F n) @ replicate 100 0"
  obtain m where m: "load_page (Suc k) E T (int (off n)) c =
       Ret (None, c\<lparr>aPage := Some ?a, nPage := int (page_size F), iCell := (if bPtr T then - 2 else 0), nCell := m\<rparr>)"
    "get_uint16 ?a (int (off n) + 3) = Ret m"
    by (rule load_page_file [OF assms(1-5)])
  define c' where "c' = c\<lparr>aPage := Some ?a, nPage := int (page_size F), iCell := 0, nCell := m\<rparr>"
  have "page_ok F n" using assms(1,5) by (simp add: file_ok_def)
  have "m = int (length (cells F n))" if k: "fst (content F n) \<noteq> None"
  proof -
    obtain x y where "stored (the (page_of F n)) (off n + 3) [x, y]" "be_val [x, y] = int (length (cells F n))"
      using \<open>page_ok F n\<close> k by (fastforce simp: page_ok_def split: option.splits)
    then show ?thesis using get_uint16_at [OF stored_pad, of "the (page_of F n)" "off n + 3" x y "replicate 100 0"] m(2) by (simp add: add.commute)
  qed
  then have "before_cell z F one n 0 c'"
    using assms(2,4,5,6) by (simp add: before_cell_def on_page_def c'_def set_up_def)
  moreover have "page_off c = int (off n)" "page_off c' = int (off n)" using assms(4) by (simp_all add: page_off_off c'_def)
  moreover have "load_page (Suc k) E T (int (off n)) c = Ret (None, c')" "load_page (Suc k) E T (int (off n)) c' = Ret (None, c')"
    using m(1) assms(7) by (simp_all add: c'_def load_page_def [of _ _ _ _ "c\<lparr>aPage := Some ?a, nPage := _, iCell := _, nCell := _\<rparr>"])
  ultimately have "before_cell z F one n 0 c'" "next_turn (Suc k) E T c = next_turn (Suc k) E T c'"
    by (simp_all only: next_turn_def)
  then show thesis using that by blast
qed

section \<open>Rows\<close>

lemma page_rows_end: "length (cells F n) \<le> i \<Longrightarrow> page_rows F n i = []"
  by (simp add: page_rows_def)

lemma page_rows_Cons: "i < length (cells F n) \<Longrightarrow> page_rows F n i = cell_rows n i (cells F n ! i) @ page_rows F n (Suc i)"
  by (simp add: page_rows_def upt_conv_Cons)

lemma data_rows_Cons: "n \<le> page_count F \<Longrightarrow> data_rows F n = rows_from F False n 0"
  by (simp add: data_rows_def rows_from_def upto_rec1)

lemma data_rows_end: "page_count F < n \<Longrightarrow> data_rows F n = []"
  by (simp add: data_rows_def)

lemma cell_rows_length:
  "length (cell_rows n i cell) = length (r_fields (c_rec cell)) + (if c_key cell = None then 0 else 1)"
  by (simp add: cell_rows_def split: option.split)

lemma rows_from_empty: "cell_rows n i (cells F n ! i) = [] \<Longrightarrow> i < length (cells F n) \<Longrightarrow> rows_from F one n i = rows_from F one n (Suc i)"
  by (simp add: rows_from_def page_rows_Cons)

lemma at_row_left:
  assumes "at_row z F one n i j c"
  shows "rows_left F one c =
    drop (nat (j + (if c_key (cells F n ! i) = None then 0 else 1))) (cell_rows n i (cells F n ! i)) @ rows_from F one n (Suc i)"
proof -
  have "iField c = j" using assms by (metis at_row_def rec_cursor_sel(4))
  then show ?thesis using assms by (simp add: rows_left_def at_row_def on_page_def Let_def)
qed

lemma first_row:
  assumes "before_cell z F one n i c" "i < length (cells F n)" "cell = cells F n ! i" "first_field cell < int (length (r_fields (c_rec cell)))"
  defines "c' \<equiv> rec_cursor (c_rec cell) (first_field cell) (with_key cell c)"
  shows "at_row z F one n i (first_field cell) c'" "rows_left F one c' = rows_from F one n i"
proof -
  show r: "at_row z F one n i (first_field cell) c'"
    using assms by (auto simp: at_row_def before_cell_def on_page_def set_up_def first_field_def with_key_def split: option.split)
  show "rows_left F one c' = rows_from F one n i"
    using assms(2,3) by (simp add: at_row_left [OF r] first_field_def rows_from_def page_rows_Cons)
qed

lemma turns_Suc: "i < length (cells F n) \<Longrightarrow> turns_from F one n i = Suc (turns_from F one n (Suc i))"
  by (simp add: turns_from_def)

lemma turns_page: "n < page_count F \<Longrightarrow> turns_from F False n (length (cells F n)) = Suc (turns_from F False (n + 1) 0)"
  by (simp add: turns_from_def upto_rec1)

text \<open>The loop goes on to the first row from a cell on, or to the end.\<close>

definition lands :: "page_stmt \<Rightarrow> file_image \<Rightarrow> bool \<Rightarrow> sql_result list list \<Rightarrow> (int \<times> DbdataCursor) run \<Rightarrow> bool" where
  "lands z F one rows m \<longleftrightarrow> (\<exists>c. m = Ret (SQLITE_OK, c) \<and> scan_inv z F one c \<and> rows_left F one c = rows)"

lemma next_loop_lands:
  assumes "file_ok E z F" "\<not> bPtr T"
  shows "before_cell z F one n i c \<Longrightarrow> turns_from F one n i \<le> k \<Longrightarrow> lands z F one (rows_from F one n i) (next_loop k E T c)"
proof (induction k arbitrary: n i c)
  case 0
  then show ?case by (simp add: turns_from_def)
next
  case (Suc k)
  show ?case
  proof (cases "i < length (cells F n)")
    case True
    define cell where "cell = cells F n ! i"
    note turn = next_data_cell [OF assms(1) Suc.prems(1) True assms(2), of "Suc k", folded cell_def]
    show ?thesis
    proof (cases "first_field cell < int (length (r_fields (c_rec cell)))")
      case f: True
      note first_row [OF Suc.prems(1) True cell_def f]
      then show ?thesis using turn f by (auto simp: lands_def scan_inv_def at_row_def on_page_def)
    next
      case False
      then have "cell_rows n i cell = []" by (auto simp: cell_rows_def first_field_def split: if_splits)
      then have "rows_from F one n i = rows_from F one n (Suc i)" using rows_from_empty True by (simp add: cell_def)
      moreover have "lands z F one (rows_from F one n (Suc i))
          (next_loop k E T ((rec_cursor (c_rec cell) (first_field cell) (with_key cell c))\<lparr>pRec := None, iCell := int i + 1\<rparr>))"
        using Suc.prems True turns_Suc [OF True, of one]
        by (intro Suc.IH) (auto simp: before_cell_def on_page_def set_up_def)
      ultimately show ?thesis using turn False by simp
    qed
  next
    case False
    then have i: "i = length (cells F n)" using Suc.prems(1) by (simp add: before_cell_def)
    have c: "set_up z F one c" "iPgno c = n" using Suc.prems(1) by (simp_all add: before_cell_def on_page_def)
    obtain i' where t: "next_turn (Suc k) E T c = Ret (next_page (c\<lparr>iCell := i', pRec := None\<rparr>))"
      using next_data_page [OF assms(1) Suc.prems(1) [unfolded i] assms(2)] by blast
    define c' where "c' = c\<lparr>iCell := i', pRec := None, aPage := None, iPgno := n + 1\<rparr>"
    have c': "set_up z F one c'" "aPage c' = None" "iPgno c' = n + 1" "pRec c' = None" using c by (simp_all add: c'_def set_up_def)
    have "n \<in> {1..page_count F}" "page_count F < 2 ^ 31 - 1" using Suc.prems(1) assms(1) by (simp_all add: before_cell_def on_page_def file_ok_def)
    then have s32: "to_s32 (n + 1) = n + 1" by (simp add: to_s32_small)
    show ?thesis
    proof (cases one)
      case True
      then show ?thesis using t c i
        by (auto simp: next_page_def lands_def scan_inv_def set_up_def rows_left_def rows_from_def page_rows_end)
    next
      case multi: False
      have t': "next_loop (Suc k) E T c = next_loop k E T c'"
        using t c multi s32 by (simp add: next_page_def c'_def set_up_def)
      show ?thesis
      proof (cases "n < page_count F")
        case True
        have k: "turns_from F one (n + 1) 0 \<le> k" using Suc.prems(2) turns_page [OF True] multi i by simp
        then obtain k' where k': "k = Suc k'" by (cases k) (auto simp: turns_from_def)
        have "n + 1 \<in> {1..page_count F}" using True Suc.prems(1) by (simp add: before_cell_def on_page_def)
        then obtain c2 where c2: "next_turn (Suc k') E T c' = next_turn (Suc k') E T c2" "before_cell z F one (n + 1) 0 c2"
          using fetch_before [OF assms(1) c'(1-3) _ c'(4) assms(2), of k'] by blast
        have "rows_from F one n i = rows_from F one (n + 1) 0"
          using multi i True by (simp add: rows_from_def [of _ _ n] page_rows_end data_rows_Cons)
        moreover have "next_loop k E T c' = next_loop k E T c2" using c2(1) by (simp add: k')
        ultimately show ?thesis using Suc.IH [OF c2(2) k] t' by simp
      next
        case last: False
        then have "iPgno c' > szDb c'" "\<not> bOnePage c'" using c' multi by (simp_all add: set_up_def)
        moreover obtain k' where k': "k = Suc k'" using Suc.prems(2) by (cases k) (auto simp: turns_from_def)
        ultimately have "next_loop k E T c' = Ret (SQLITE_OK, c')" using c'(2) by (simp add: next_turn_def load_page_def)
        moreover have "rows_from F one n i = []" using multi i last by (simp add: rows_from_def page_rows_end data_rows_end)
        ultimately show ?thesis using c'(1,2) t' by (auto simp: lands_def scan_inv_def rows_left_def)
      qed
    qed
  qed
qed

section \<open>The scan of sqlite\_dbdata\<close>

fun seq_run :: "'a run list \<Rightarrow> 'a list run" where
  "seq_run [] = Ret []"
| "seq_run (m # ms) = bind_run m (\<lambda>x. bind_run (seq_run ms) (\<lambda>xs. Ret (x # xs)))"

lemma bind_run_assoc [simp]: "bind_run (bind_run m f) g = bind_run m (\<lambda>x. bind_run (f x) g)"
  by (cases m) simp_all

fun ret :: "'a run \<Rightarrow> 'a" where
  "ret (Ret x) = x"

text \<open>The first \<open>n\<close> columns of the current row.\<close>

definition columns :: "DbdataTable \<Rightarrow> nat \<Rightarrow> DbdataCursor \<Rightarrow> sql_result list run" where
  "columns T n c = seq_run (map (\<lambda>i. dbdataColumn T c (int i)) [0..<n])"

definition row_index :: "cell \<Rightarrow> int \<Rightarrow> nat" where
  "row_index cell j = nat (j + (if c_key cell = None then 0 else 1))"

lemma at_row_columns:
  assumes "file_ok E z F" "at_row z F one n i j c" "\<not> bPtr T" "cell = cells F n ! i"
  shows "row_index cell j < length (cell_rows n i cell)" "columns T 4 c = Ret (cell_rows n i cell ! row_index cell j)"
proof -
  let ?r = "c_rec cell"
  have r: "record_ok ?r" using at_row_record [OF assms(1,2)] assms(4) by simp
  have c: "c = rec_cursor ?r j c" "iPgno c = n" "iCell c = int i" and jf: "iField c = j"
    using assms(2,4) by (simp_all add: at_row_def on_page_def) (metis rec_cursor_sel(4))
  have cols: "columns T 4 c = bind_run (field_value c) (\<lambda>v. Ret [ResInt n, ResInt (int i), ResInt j, v])"
    using assms(3) c(2,3) jf by (simp add: columns_def dbdataColumn_def upt_rec)
  show "row_index cell j < length (cell_rows n i cell)"
    using assms(2,4) by (auto simp: row_index_def cell_rows_length at_row_def split: option.splits)
  show "columns T 4 c = Ret (cell_rows n i cell ! row_index cell j)"
  proof (cases "j = - 1")
    case True
    then show ?thesis using assms(2,4) cols jf
      by (auto simp: at_row_def field_value_def cell_rows_def row_index_def split: option.splits)
  next
    case False
    then have j: "j = int (nat j)" "nat j < length (r_fields ?r)"
      using assms(2,4) by (auto simp: at_row_def split: option.splits)
    have j0: "0 \<le> j" by (subst j(1)) simp
    have "field_value c = Ret (ser_value (fst (r_fields ?r ! nat j)) (snd (r_fields ?r ! nat j)))"
      using field_value_stored [OF r j(2), of c] c(1) j(1) by metis
    moreover have "row_index cell j = nat j + (if c_key cell = None then 0 else 1)"
      using j0 by (simp add: row_index_def nat_add_distrib)
    ultimately show ?thesis using cols j by (simp add: cell_rows_def split: option.split)
  qed
qed

lemma turns_bound: "n \<in> {1..page_count F} \<Longrightarrow> turns_from F one n i < max_turns F"
proof -
  assume n: "n \<in> {1..page_count F}"
  then have "[1..page_count F] = [1..n - 1] @ n # [n + 1..page_count F]" using upto_split2 [of 1 n "page_count F"] upto_split1 [of 1 n "page_count F"] upto_rec1 [of n] by simp
  then show ?thesis using diff_le_self [of "length (cells F n)" i] by (auto simp: turns_from_def max_turns_def)
qed

lemma at_row_rowid: "at_row z F one n i j c \<Longrightarrow> at_row z F one n i j (c\<lparr>iRowid := k\<rparr>)"
proof -
  assume r: "at_row z F one n i j c"
  have "rec_cursor q j (c\<lparr>iRowid := k\<rparr>) = (rec_cursor q j c)\<lparr>iRowid := k\<rparr>" for q by (simp add: rec_cursor_def)
  moreover have "c = rec_cursor (c_rec (cells F n ! i)) j c" using r by (simp add: at_row_def)
  ultimately have "c\<lparr>iRowid := k\<rparr> = rec_cursor (c_rec (cells F n ! i)) j (c\<lparr>iRowid := k\<rparr>)" by metis
  then show ?thesis using r by (simp add: at_row_def on_page_def set_up_def split: option.splits)
qed


lemma at_row_move:
  assumes "at_row z F one n i j c" "j < j'" "j' < int (length (r_fields (c_rec (cells F n ! i))))"
  shows "at_row z F one n i j' (rec_cursor (c_rec (cells F n ! i)) j' c)"
proof -
  have "on_page z F one n c" "i < length (cells F n)" "iCell c = int i"
    "case c_key (cells F n ! i) of None \<Rightarrow> 0 \<le> j | Some key \<Rightarrow> - 1 \<le> j \<and> iIntkey c = key"
    using assms(1) by (simp_all only: at_row_def)
  then show ?thesis using assms(2,3) by (auto simp: at_row_def on_page_def set_up_def split: option.splits)
qed

lemma at_row_set_up: "at_row z F one n i j c \<Longrightarrow> set_up z F one c"
  by (simp only: at_row_def on_page_def)

lemma next_lands:
  assumes "file_ok E z F" "\<not> bPtr T" "at_row z F one n i j c" "max_turns F \<le> K"
  shows "lands z F one (tl (rows_left F one c)) (dbdataNext K E T c)"
proof -
  define cell where "cell = cells F n ! i"
  let ?r = "c_rec cell" and ?c = "c\<lparr>iRowid := iRowid c + 1\<rparr>"
  obtain k where k: "K = Suc k" using assms(4) by (cases K) (auto simp: max_turns_def)
  have r: "at_row z F one n i j ?c" by (rule at_row_rowid [OF assms(3)])
  have on: "on_page z F one n ?c" "i < length (cells F n)" "iCell ?c = int i" using r by (simp_all add: at_row_def)
  have j: "- 1 \<le> j" "c_key cell = None \<Longrightarrow> 0 \<le> j" using r by (auto simp: at_row_def cell_def split: option.splits)
  note turn = next_data_row [OF assms(1) r assms(2), of K, folded cell_def]
  have left: "rows_left F one c = drop (row_index cell j) (cell_rows n i cell) @ rows_from F one n (Suc i)"
    using at_row_left [OF assms(3)] by (simp add: row_index_def cell_def)
  have idx: "row_index cell j < length (cell_rows n i cell)" "row_index cell (j + 1) = Suc (row_index cell j)"
    using at_row_columns(1) [OF assms(1,3,2) cell_def] j by (auto simp: row_index_def)
  then have tl: "tl (rows_left F one c) = drop (Suc (row_index cell j)) (cell_rows n i cell) @ rows_from F one n (Suc i)"
    by (simp add: left tl_drop drop_Suc [symmetric] flip: drop_Suc)
  show ?thesis
  proof (cases "j + 1 < int (length (r_fields ?r))")
    case True
    have r': "at_row z F one n i (j + 1) (rec_cursor ?r (j + 1) ?c)"
      using at_row_move [OF r, of "j + 1"] True by (simp add: cell_def)
    have "rows_left F one (rec_cursor ?r (j + 1) ?c) = tl (rows_left F one c)"
      using at_row_left [OF r'] idx(2) by (simp add: tl row_index_def cell_def)
    moreover have "scan_inv z F one (rec_cursor ?r (j + 1) ?c)"
      using r' at_row_set_up unfolding scan_inv_def by blast
    ultimately show ?thesis using turn True k by (simp add: dbdataNext_def lands_def)
  next
    case False
    have "length (cell_rows n i cell) \<le> Suc (row_index cell j)"
      using False j by (auto simp: cell_rows_length row_index_def)
    then have rows: "tl (rows_left F one c) = rows_from F one n (Suc i)" by (simp add: tl)
    let ?d = "(rec_cursor ?r (j + 1) ?c)\<lparr>pRec := None, iCell := int i + 1\<rparr>"
    have "before_cell z F one n (Suc i) ?d" using on by (auto simp: before_cell_def on_page_def set_up_def)
    moreover have "turns_from F one n (Suc i) \<le> k" using turns_bound [of n F one "Suc i"] on(1) assms(4) k by (simp add: on_page_def)
    ultimately have "lands z F one (rows_from F one n (Suc i)) (next_loop k E T ?d)"
      using next_loop_lands [OF assms(1,2)] by blast
    moreover have "dbdataNext K E T c = next_loop k E T ?d" using turn False by (simp add: dbdataNext_def k)
    ultimately show ?thesis by (simp add: rows)
  qed
qed

lemma at_row_unique: "scan_inv z F one c \<Longrightarrow> \<not> dbdataEof c \<Longrightarrow> \<exists>n i j. at_row z F one n i j c"
  by (auto simp: scan_inv_def dbdataEof_def)

lemma at_row_hd:
  assumes "file_ok E z F" "\<not> bPtr T" "at_row z F one n i j c"
  shows "\<exists>v vs. rows_left F one c = v # vs \<and> columns T 4 c = Ret v"
proof -
  note at_row_columns [OF assms(1,3,2) refl]
  then show ?thesis using at_row_left [OF assms(3)]
    by (auto simp: row_index_def Cons_nth_drop_Suc [symmetric])
qed

interpretation dd: checked_cursor dbdataEof "\<lambda>c. snd (ret (dbdataNext K E T c))" "\<lambda>c. ret (columns T 4 c)"
  "\<lambda>c. file_ok E z F \<and> \<not> bPtr T \<and> max_turns F \<le> K \<and> scan_inv z F one c" "rows_left F one"
  "dbdataNext K E T" "columns T 4"
  for K E T z F one
proof unfold_locales
  fix c assume c: "file_ok E z F \<and> \<not> bPtr T \<and> max_turns F \<le> K \<and> scan_inv z F one c"
  show "dbdataEof c \<longleftrightarrow> rows_left F one c = []"
  proof (cases "dbdataEof c")
    case True
    then show ?thesis by (simp add: dbdataEof_def rows_left_def)
  next
    case False
    then obtain n i j where "at_row z F one n i j c" using c at_row_unique by blast
    then show ?thesis using at_row_hd [of E z F T] c False by force
  qed
  assume "\<not> dbdataEof c"
  then obtain n i j where r: "at_row z F one n i j c" using c at_row_unique by blast
  obtain v vs where v: "rows_left F one c = v # vs" "columns T 4 c = Ret v" using at_row_hd [OF _ _ r] c by blast
  have "lands z F one vs (dbdataNext K E T c)" using next_lands [OF _ _ r] c v(1) by fastforce
  then obtain c' where c': "dbdataNext K E T c = Ret (SQLITE_OK, c')" "scan_inv z F one c'" "rows_left F one c' = vs"
    by (auto simp: lands_def)
  show "rows_left F one c = ret (columns T 4 c) # rows_left F one (snd (ret (dbdataNext K E T c)))"
    "file_ok E z F \<and> \<not> bPtr T \<and> max_turns F \<le> K \<and> scan_inv z F one (snd (ret (dbdataNext K E T c)))"
    "dbdataNext K E T c = Ret (SQLITE_OK, snd (ret (dbdataNext K E T c)))" "columns T 4 c = Ret (ret (columns T 4 c))"
    using c v c' by simp_all
qed

section \<open>Queries\<close>

text \<open>What is asked of the core: the other statements of \<^verbatim>\<open>xFilter\<close> succeed, and the pages are counted.\<close>

definition core_ok :: "dbdata_env \<Rightarrow> page_stmt \<Rightarrow> int \<Rightarrow> bool" where
  "core_ok E z n \<longleftrightarrow>
     mprintf_ok E \<and> count_prepare E z = SQLITE_OK \<and> count_row E z = Some n \<and> count_finalize E z = SQLITE_OK \<and>
     page_prepare E = SQLITE_OK \<and> bind_schema E z = SQLITE_OK"

definition schema_of :: "dbdata_env \<Rightarrow> int \<Rightarrow> sqlite3_value list \<Rightarrow> string option" where
  "schema_of E idxNum argv = (if idxNum AND 0x01 \<noteq> 0 then value_text (api E) (argv ! 0) else Some ''main'')"

definition page_arg :: "dbdata_env \<Rightarrow> int \<Rightarrow> sqlite3_value list \<Rightarrow> int" where
  "page_arg E idxNum argv = value_int (api E) (argv ! nat (idxNum AND 0x01))"

text \<open>A query of a table with \<open>nCol\<close> columns: \<^verbatim>\<open>xFilter\<close>, then the loop over the rows.\<close>

definition query ::
  "nat \<Rightarrow> dbdata_env \<Rightarrow> nat \<Rightarrow> int \<Rightarrow> sqlite3_value list \<Rightarrow> DbdataTable \<Rightarrow> DbdataCursor \<Rightarrow> (int \<times> sql_result list list) run" where
  "query K E nCol idxNum argv T c =
     bind_run (dbdataFilter K E idxNum argv T c) (\<lambda>(rc, T, c).
       if rc \<noteq> SQLITE_OK then Ret (rc, [])
       else read_all dbdataEof (dbdataNext K E T) (columns T nCol) K c)"

lemma filter_start:
  assumes "core_ok E z n" "z = schema_of E idxNum argv"
  obtains T' c' where "dbdataFilter K E idxNum argv T c = bind_run (dbdataNext K E T' c') (\<lambda>(rc, c). Ret (rc, T', c))"
    "bPtr T' = bPtr T" "pStmt c' = Some z" "aPage c' = None" "pRec c' = None"
    "if idxNum AND 0x02 = 0 then \<not> bOnePage c' \<and> szDb c' = n \<and> iPgno c' = 1 else bOnePage c' \<and> iPgno c' = page_arg E idxNum argv"
proof -
  define T0 where "T0 = fst (dbdataResetCursor T c)"
  define c0 where "c0 = snd (dbdataResetCursor T c)"
  have r: "dbdataResetCursor T c = (T0, c0)" "bPtr T0 = bPtr T" "aPage c0 = None" "pRec c0 = None" "iPgno c0 = 1" "\<not> bOnePage c0"
    by (simp_all add: T0_def c0_def dbdataResetCursor_def)
  have sz: "dbdataDbsize E z d = (SQLITE_OK, d\<lparr>szDb := n\<rparr>)" for d
    using assms(1) by (simp add: dbdataDbsize_def core_ok_def)
  define c1 where "c1 = (if idxNum AND 0x02 = 0 then c0\<lparr>szDb := n, nPage := 0\<rparr>
    else c0\<lparr>iPgno := page_arg E idxNum argv, bOnePage := True\<rparr>)"
  have t: "filter_target E idxNum argv z c0 = (SQLITE_OK, c1)"
    by (simp add: filter_target_def c1_def sz page_arg_def)
  define T1 where "T1 = T0\<lparr>tab_stmt := None\<rparr>"
  have "filter_stmt E T0 c1 = (SQLITE_OK, T1, c1\<lparr>pStmt := (case tab_stmt T0 of None \<Rightarrow> Some None | Some s \<Rightarrow> Some s)\<rparr>)"
    using assms(1) by (simp add: filter_stmt_def core_ok_def T1_def split: option.split)
  then have "dbdataFilter K E idxNum argv T c = bind_run (dbdataNext K E T1 (c1\<lparr>pStmt := Some z\<rparr>)) (\<lambda>(rc, c). Ret (rc, T1, c))"
    using assms(1) t by (simp add: dbdataFilter_def r(1) assms(2) [unfolded schema_of_def, symmetric] core_ok_def)
  then show thesis using that [of T1 "c1\<lparr>pStmt := Some z\<rparr>"] r by (simp add: T1_def c1_def)
qed

lemma start_lands:
  assumes "file_ok E z F" "\<not> bPtr T" "set_up z F one c" "aPage c = None" "pRec c = None" "max_turns F \<le> K"
    and "if one then iPgno c \<in> {1..page_count F} else iPgno c = 1"
  shows "lands z F one (if one then page_rows F (iPgno c) 0 else data_rows F 1) (dbdataNext K E T c)"
proof -
  let ?c = "c\<lparr>iRowid := iRowid c + 1\<rparr>" and ?n = "iPgno c"
  obtain k where k: "K = Suc k" using assms(6) by (cases K) (auto simp: max_turns_def)
  have c: "set_up z F one ?c" "aPage ?c = None" "iPgno ?c = ?n" "pRec ?c = None" using assms(3-5) by (simp_all add: set_up_def)
  show ?thesis
  proof (cases "?n \<in> {1..page_count F}")
    case True
    obtain c' where c': "next_turn (Suc k) E T ?c = next_turn (Suc k) E T c'" "before_cell z F one ?n 0 c'"
      using fetch_before [OF assms(1) c(1-3) True c(4) assms(2), of k] by blast
    have "lands z F one (rows_from F one ?n 0) (next_loop K E T c')"
      using next_loop_lands [OF assms(1,2) c'(2)] turns_bound [OF True, of one 0] assms(6) by simp
    moreover have "dbdataNext K E T c = next_loop K E T c'" using c'(1) by (simp add: dbdataNext_def k)
    moreover have "rows_from F one ?n 0 = (if one then page_rows F ?n 0 else data_rows F 1)"
      using assms(7) True data_rows_Cons [of 1 F] by (auto simp: rows_from_def)
    ultimately show ?thesis by simp
  next
    case False
    then have one: "\<not> one" "page_count F < 1" "?n = 1" using assms(7) by (auto split: if_splits)
    then have "dbdataNext K E T c = Ret (SQLITE_OK, ?c)"
      using c by (simp add: dbdataNext_def k next_turn_def load_page_def set_up_def)
    then show ?thesis using one c by (auto simp: lands_def scan_inv_def rows_left_def data_rows_end)
  qed
qed

text \<open>
  C13: The rows of \<^verbatim>\<open>sqlite_dbdata\<close>.  On a file in the format of SQLite, a query without a page number gives, page by page and cell by cell, the integer key
  and every field of every record on the pages, wherever the cells are on the page and however long the chain of overflow pages of a record is; a query with
  a page number gives those of this page.  No read is outside of a buffer, and the loops come to an end within a number of turns that the file determines.
\<close>

theorem dbdata_scan:
  assumes "file_ok E z F" "core_ok E z (page_count F)" "\<not> bPtr T" "z = schema_of E idxNum argv"
    and "max_turns F \<le> K" "length (data_rows F 1) < K"
    and "idxNum AND 0x02 = 0 \<or> page_arg E idxNum argv \<in> {1..page_count F}"
  shows "query K E 4 idxNum argv T c =
    Ret (SQLITE_OK, if idxNum AND 0x02 = 0 then data_rows F 1 else page_rows F (page_arg E idxNum argv) 0)"
proof -
  define one where "one \<longleftrightarrow> idxNum AND 0x02 \<noteq> 0"
  define rows where "rows = (if one then page_rows F (page_arg E idxNum argv) 0 else data_rows F 1)"
  obtain T' c' where f: "dbdataFilter K E idxNum argv T c = bind_run (dbdataNext K E T' c') (\<lambda>(rc, c). Ret (rc, T', c))"
    "bPtr T' = bPtr T" "pStmt c' = Some z" "aPage c' = None" "pRec c' = None"
    "if idxNum AND 0x02 = 0 then \<not> bOnePage c' \<and> szDb c' = page_count F \<and> iPgno c' = 1
     else bOnePage c' \<and> iPgno c' = page_arg E idxNum argv"
    by (rule filter_start [OF assms(2,4)])
  have "set_up z F one c'" "if one then iPgno c' \<in> {1..page_count F} else iPgno c' = 1"
    using f(3,6) assms(7) by (auto simp: set_up_def one_def)
  from start_lands [OF assms(1) _ this(1) f(4,5) assms(5) this(2), of T'] f(2,6) assms(3)
  have "lands z F one rows (dbdataNext K E T' c')" by (auto simp: rows_def one_def split: if_splits)
  then obtain d where d: "dbdataNext K E T' c' = Ret (SQLITE_OK, d)" "scan_inv z F one d" "rows_left F one d = rows"
    by (auto simp: lands_def)
  have "length rows < K"
  proof (cases one)
    case True
    then have n: "page_arg E idxNum argv \<in> {1..page_count F}" using assms(7) by (simp add: one_def)
    then have "[1..page_count F] = [1..page_arg E idxNum argv - 1] @ page_arg E idxNum argv # [page_arg E idxNum argv + 1..page_count F]"
      using upto_split1 [of 1 "page_arg E idxNum argv" "page_count F"] upto_rec1 [of "page_arg E idxNum argv"] by simp
    then show ?thesis using assms(6) True by (simp add: rows_def data_rows_def)
  qed (use assms(6) in \<open>simp add: rows_def\<close>)
  then have "read_all dbdataEof (dbdataNext K E T') (columns T' 4) K d = Ret (SQLITE_OK, rows)"
    using dd.read_remaining [of E z F T' K one d K] assms(1,3,5) f(2) d(2,3) by simp
  then show ?thesis using f(1) d(1) by (simp add: query_def rows_def one_def)
qed

text \<open>A file with two pages of 512 bytes: a record with a key and a blob of 597 bytes, which goes on in an overflow page.\<close>

definition ex_record :: record_image where
  "ex_record = \<lparr>r_size = [3], r_types = [[0x89, 0x36]], r_fields = [(1206, replicate 597 0xab)]\<rparr>"

definition ex_leaf :: "byte list" where
  "ex_leaf = replicate 100 0 @ [0x0d] @ [0, 0] @ [0, 1] @ [0, 0, 0] @ [0, 110] @
     ([0x84, 0x58] @ [7] @ ([3, 0x89, 0x36] @ replicate 89 0xab) @ [0, 0, 0, 2]) @ replicate 303 0"

definition ex_overflow :: "byte list" where
  "ex_overflow = [0, 0, 0, 0] @ replicate 508 0xab"

definition ex_pages :: pages where
  "ex_pages n = (if n = 1 then Some ex_leaf else if n = 2 then Some ex_overflow else None)"

definition ex_file :: file_image where
  "ex_file = \<lparr>page_size = 512, page_count = 2, page_of = ex_pages,
     content = (\<lambda>n. if n = 1 then (Some Table_Leaf, [\<lparr>c_key = Some 7, c_rec = ex_record\<rparr>]) else (None, []))\<rparr>"

definition ex_env :: dbdata_env where
  "ex_env = \<lparr>api = ref_api\<lparr>malloc64 := (\<lambda>n. 0 < n \<and> n \<le> 2147483391)\<rparr>,
     dbpage = (\<lambda>z n. (ex_pages n, SQLITE_OK)), mprintf_ok = True, count_prepare = (\<lambda>z. SQLITE_OK), count_row = (\<lambda>z. Some 2),
     count_finalize = (\<lambda>z. SQLITE_OK), page_prepare = SQLITE_OK, bind_schema = (\<lambda>z. SQLITE_OK), errmsg = []\<rparr>"

definition ex_table :: DbdataTable where
  "ex_table = \<lparr>tab_stmt = None, bPtr = False, zErrMsg = None\<rparr>"

lemma stored_mid: "i = length xs \<Longrightarrow> stored (xs @ bs @ ys) i bs"
  by (simp add: stored_def)

lemma cell_storedI:
  assumes "record_ok (c_rec cell)" "c_key cell \<noteq> None \<longleftrightarrow> kind = Table_Leaf" "is_varint n (int (length (rec_bytes (c_rec cell))))"
    and "case c_key cell of None \<Rightarrow> k = [] | Some key \<Rightarrow> is_varint k key"
    and "m = local_spec U (kind = Table_Leaf) (length (rec_bytes (c_rec cell)))"
    and "stored pg p (n @ k @ take m (rec_bytes (c_rec cell)) @ ov)"
    and "if m < length (rec_bytes (c_rec cell)) then length ov = 4 \<and> chain db U (be_val ov) (drop m (rec_bytes (c_rec cell))) else ov = []"
  shows "cell_stored db U kind pg p cell"
  using assms unfolding cell_stored_def Let_def by blast

lemma ex_upto: "[1..2] = [1, 2 :: int]"
  by (simp add: upto.simps)

lemma ex_file_sel [simp]: "page_size ex_file = 512" "page_count ex_file = 2" "page_of ex_file = ex_pages"
  by (simp_all add: ex_file_def)

lemma ex_record_ok: "record_ok ex_record"
  by (simp add: record_ok_def ex_record_def is_varint_def header_size_def base128_def field_ok_def ser_len_def rec_bytes_def)

lemma ex_record_bytes: "rec_bytes ex_record = ([3, 0x89, 0x36] @ replicate 89 0xab) @ replicate 508 0xab"
proof -
  have "replicate 597 x = replicate 89 x @ replicate 508 x" for x :: byte by (simp flip: replicate_add)
  then show ?thesis by (simp add: ex_record_def rec_bytes_def)
qed

lemma ex_serves: "serves ex_env z 512 ex_pages"
  by (auto simp: serves_def ex_env_def ex_pages_def ex_leaf_def ex_overflow_def split: if_splits)

lemma ex_cell: "cell_on ex_pages 512 Table_Leaf ex_leaf 100 0 \<lparr>c_key = Some 7, c_rec = ex_record\<rparr>"
proof -
  have m: "local_spec 512 True 600 = 92" "length (rec_bytes ex_record) = 600"
    by (simp_all add: local_spec_def ex_record_bytes)
  have ch: "chain ex_pages 512 2 (replicate 508 0xab)"
    by (subst chain.simps) (simp add: ex_pages_def ex_overflow_def chain.simps [of _ _ _ "[]"])
  have v: "is_varint [0x84, 0x58] 600" "is_varint [7] 7" by (simp_all add: is_varint_def base128_def)
  have "stored ex_leaf 110 ([0x84, 0x58] @ [7] @ ([3, 0x89, 0x36] @ replicate 89 0xab) @ [0, 0, 0, 2])"
    using stored_mid [of 110 "replicate 100 0 @ [0x0d] @ [0, 0] @ [0, 1] @ [0, 0, 0] @ [0, 110]"
      "[0x84, 0x58] @ [7] @ ([3, 0x89, 0x36] @ replicate 89 0xab) @ [0, 0, 0, 2]" "replicate 303 0"] by (simp add: ex_leaf_def)
  then have "cell_stored ex_pages 512 Table_Leaf ex_leaf 110 \<lparr>c_key = Some 7, c_rec = ex_record\<rparr>"
    using ex_record_ok m ch v
    by (intro cell_storedI [where n = "[0x84, 0x58]" and k = "[7]" and m = 92 and ov = "[0, 0, 0, 2]"])
      (simp_all add: ex_record_bytes be_val_def)
  moreover have "stored ex_leaf 108 [0, 110]"
    using stored_mid [of 108 "replicate 100 0 @ [0x0d] @ [0, 0] @ [0, 1] @ [0, 0, 0]" "[0, 110]"] by (simp add: ex_leaf_def)
  ultimately show ?thesis unfolding cell_on_def
    by - (rule exI [of _ 0], rule exI [of _ 110], simp add: page_ptr_def be_val_def)
qed

lemma ex_file_ok: "file_ok ex_env z ex_file"
proof -
  have s: "stored ex_leaf 100 [page_code Table_Leaf]" "stored ex_leaf 103 [0, 1]"
    using stored_mid [of 100 "replicate 100 0" "[0x0d]"] stored_mid [of 103 "replicate 100 0 @ [0x0d] @ [0, 0]" "[0, 1]"]
    by (simp_all add: ex_leaf_def)
  have "\<exists>x y. stored ex_leaf 103 [x, y] \<and> be_val [x, y] = 1"
    using s(2) by (intro exI [of _ 0] exI [of _ 1]) (simp add: be_val_def)
  moreover have "length ex_leaf = 512" by (simp add: ex_leaf_def)
  ultimately have "page_ok ex_file 1"
    using s(1) ex_cell by (simp add: page_ok_def ex_file_def ex_pages_def off_def)
  moreover have "page_ok ex_file 2"
    by (simp add: page_ok_def ex_file_def ex_pages_def off_def ex_overflow_def)
  moreover have "n = 1 \<or> n = 2" if "n \<in> {1..2}" for n :: int using that by auto
  ultimately have "page_ok ex_file n" if "n \<in> {1..2}" for n using that by blast
  then show ?thesis using ex_serves by (simp add: file_ok_def)
qed

theorem dbdata_scan_witness:
  "query 20 ex_env 4 0 [] ex_table zeroed =
     Ret (SQLITE_OK, [[ResInt 1, ResInt 0, ResInt (- 1), ResInt 7], [ResInt 1, ResInt 0, ResInt 0, ResBlob (replicate 597 0xab)]])"
proof -
  have "page_rows ex_file 1 0 =
      [[ResInt 1, ResInt 0, ResInt (- 1), ResInt 7], [ResInt 1, ResInt 0, ResInt 0, ResBlob (replicate 597 0xab)]]"
    "page_rows ex_file 2 0 = []"
    by (simp_all add: page_rows_def ex_file_def cell_rows_def ex_record_def ser_value_def)
  then have rows: "data_rows ex_file 1 =
      [[ResInt 1, ResInt 0, ResInt (- 1), ResInt 7], [ResInt 1, ResInt 0, ResInt 0, ResBlob (replicate 597 0xab)]]"
    by (simp add: data_rows_def ex_upto)
  have "schema_of ex_env 0 [] = Some ''main''" "core_ok ex_env (Some ''main'') (page_count ex_file)" "\<not> bPtr ex_table" "max_turns ex_file \<le> 20"
    by (simp_all add: schema_of_def core_ok_def ex_env_def ex_file_def ex_table_def max_turns_def ex_upto)
  then have "query 20 ex_env 4 0 [] ex_table zeroed =
      Ret (SQLITE_OK, if (0 :: int) AND 0x02 = 0 then data_rows ex_file 1 else page_rows ex_file (page_arg ex_env 0 []) 0)"
    by (intro dbdata_scan [OF ex_file_ok, of "Some ''main''"]) (simp_all add: rows)
  then show ?thesis by (simp add: rows)
qed

end
