(* ===== verification/Dbdata_Safe.thy ===== *)
theory Dbdata_Safe
  imports Dbdata_Scan
begin

text \<open>
  What holds of the tables of \<open>Dbdata\<close> whatever is on the pages: which reads stay inside the buffers, that the loops end, and where the code fails.
\<close>

section \<open>Rules for runs\<close>

text \<open>\<open>safe b P m\<close>: the run \<open>m\<close> does not fault, its result has the property \<open>P\<close>, and it has one unless \<open>b\<close>.\<close>

fun safe :: "bool \<Rightarrow> ('a \<Rightarrow> bool) \<Rightarrow> 'a run \<Rightarrow> bool" where
  "safe b P (Ret x) = P x"
| "safe b P Fault = False"
| "safe b P Running = b"

lemma safe_bind: "safe b P m \<Longrightarrow> (\<And>x. P x \<Longrightarrow> safe b Q (f x)) \<Longrightarrow> safe b Q (bind_run m f)"
  by (cases m) simp_all

lemma safe_mono: "safe b P m \<Longrightarrow> (b \<Longrightarrow> b') \<Longrightarrow> (\<And>x. P x \<Longrightarrow> Q x) \<Longrightarrow> safe b' Q m"
  by (cases m) simp_all

lemma safe_weaken: "safe False P m \<Longrightarrow> safe b P m"
  by (cases m) simp_all

lemma safe_rd: "0 \<le> i \<Longrightarrow> i < int (length a) \<Longrightarrow> safe b (\<lambda>x. 0 \<le> x \<and> x < 256) (rd a i)"
  using byte_bounds by (simp add: rd_def)

lemma safe_rd_n: "0 \<le> i \<Longrightarrow> 0 \<le> n \<Longrightarrow> i + n \<le> int (length a) \<Longrightarrow> safe b (\<lambda>bs. length bs = nat n) (rd_n a i n)"
  by (auto simp: rd_n_def)

lemma safe_copy:
  "0 \<le> i \<Longrightarrow> i + n \<le> int (length a) \<Longrightarrow> 0 \<le> j \<Longrightarrow> 0 \<le> n \<Longrightarrow> j + n \<le> int (length c) \<Longrightarrow>
   safe b (\<lambda>a'. length a' = length a) (copy a i c j n)"
  by (auto simp: copy_def rd_n_def nat_add_distrib)

lemma safe_get_uint16: "0 \<le> i \<Longrightarrow> i + 2 \<le> int (length a) \<Longrightarrow> safe b (\<lambda>n. 0 \<le> n \<and> n \<le> 65535) (get_uint16 a i)"
proof -
  assume i: "0 \<le> i" "i + 2 \<le> int (length a)"
  have "push_bit 8 x OR y \<le> 65535 \<and> 0 \<le> push_bit 8 x OR y" if "0 \<le> x \<and> x < 256" "0 \<le> y \<and> y < 256" for x y :: int
    using that shift_or [of y 8 x] by simp
  then show ?thesis unfolding get_uint16_def using i
    by (intro safe_bind [OF safe_rd] safe_bind [OF safe_rd]) auto
qed

lemma safe_get_uint32: "0 \<le> i \<Longrightarrow> i + 4 \<le> int (length a) \<Longrightarrow> safe b (\<lambda>n. True) (get_uint32 a i)"
  by (simp add: get_uint32_def rd_def)

lemma safe_varint_loop:
  "0 \<le> p \<Longrightarrow> k + i = 8 \<Longrightarrow> p + 9 \<le> int (length a) \<Longrightarrow> safe b (\<lambda>(n, v). 1 \<le> n \<and> n \<le> 9 \<and> s64 v) (varint_loop k a p i v)"
proof (induction k arbitrary: i v)
  case 0
  then show ?case by (simp add: rd_def)
next
  case (Suc k)
  have "rd a (p + int i) \<noteq> Fault" "rd a (p + int i) \<noteq> Running" using Suc.prems by (auto simp: rd_def)
  then obtain z where z: "rd a (p + int i) = Ret z" by (cases "rd a (p + int i)") auto
  then show ?case using Suc.prems Suc.IH [of "Suc i"] by (simp add: Let_def)
qed

lemma safe_varint: "0 \<le> p \<Longrightarrow> p + 9 \<le> int (length a) \<Longrightarrow> safe b (\<lambda>(n, v). 1 \<le> n \<and> n \<le> 9 \<and> s64 v) (dbdataGetVarint a p)"
  using safe_varint_loop [of p 8 0 a b 0] by (simp add: dbdataGetVarint_def)

section \<open>Pages and cursors\<close>

text \<open>
  The pages all have the same size, memory is granted within the limits of SQLite only, and no cell of a page has a payload of
  a size between \<open>-99\<close> and \<open>-1\<close>, which is a number of nine bytes.
\<close>

definition cell_sizes :: "byte list \<Rightarrow> int \<Rightarrow> bool" where
  "cell_sizes a iOff \<longleftrightarrow>
     (\<forall>i \<ge> 0. \<forall>q n v. let ptr = (if rd a iOff = Ret 0x02 then 4 else 0)
        in get_uint16 a (iOff + (8 + ptr + i * 2)) = Ret q \<and> dbdataGetVarint a (q + ptr) = Ret (n, v) \<longrightarrow> v \<le> - 100 \<or> 0 \<le> v)"

definition pages_any :: "dbdata_env \<Rightarrow> nat \<Rightarrow> bool" where
  "pages_any E U \<longleftrightarrow>
     512 \<le> U \<and> U \<le> 65536 \<and> (\<forall>n. malloc64 (api E) n \<longrightarrow> 0 < n \<and> n \<le> 2147483391) \<and>
     (\<forall>z n pg. fst (dbpage E z n) = Some pg \<longrightarrow>
        length pg = U \<and> cell_sizes (pg @ replicate 100 0) 0 \<and> cell_sizes (pg @ replicate 100 0) 100)"

definition page_in :: "dbdata_env \<Rightarrow> nat \<Rightarrow> DbdataTable \<Rightarrow> DbdataCursor \<Rightarrow> bool" where
  "page_in E U T c \<longleftrightarrow>
     (\<exists>a. aPage c = Some a \<and> length a = U + 100 \<and> cell_sizes a 0 \<and> cell_sizes a 100) \<and> nPage c = int U \<and>
     0 \<le> nCell c \<and> nCell c \<le> 65535 \<and> (if bPtr T then - 2 else 0) \<le> iCell c"

definition rec_in :: "DbdataCursor \<Rightarrow> bool" where
  "rec_in c \<longleftrightarrow>
     (\<exists>r. pRec c = Some r \<and> 0 \<le> nRec c \<and> int (length r) = nRec c + 100 \<and> nRec c < 2 ^ 31 \<and>
          0 \<le> pHdrPtr c \<and> pHdrPtr c \<le> nRec c + 9 \<and> nHdr c \<le> pPtr c)"

text \<open>Without a page number in the query, the number of the page is one of the database or follows the last one.\<close>

definition pgno_in :: "DbdataCursor \<Rightarrow> bool" where
  "pgno_in c \<longleftrightarrow> bOnePage c \<or> 0 \<le> iPgno c \<and> szDb c < 2 ^ 31 - 1 \<and> (aPage c \<noteq> None \<longrightarrow> iPgno c \<le> szDb c)"

text \<open>Between two turns, and between two calls of \<^verbatim>\<open>xNext\<close>.\<close>

definition turn_in :: "dbdata_env \<Rightarrow> nat \<Rightarrow> DbdataTable \<Rightarrow> DbdataCursor \<Rightarrow> bool" where
  "turn_in E U T c \<longleftrightarrow> pgno_in c \<and> (aPage c = None \<or> page_in E U T c) \<and>
     (pRec c = None \<or> \<not> bPtr T \<and> aPage c \<noteq> None \<and> rec_in c \<and> iCell c < nCell c)"

definition row_in :: "dbdata_env \<Rightarrow> nat \<Rightarrow> DbdataTable \<Rightarrow> DbdataCursor \<Rightarrow> bool" where
  "row_in E U T c \<longleftrightarrow>
     turn_in E U T c \<and>
     (aPage c \<noteq> None \<longrightarrow> (if bPtr T then - 1 \<le> iCell c else pRec c \<noteq> None \<and> (iField c < 0 \<or> pHdrPtr c < nHdr c)))"

lemma LoadPage_any:
  assumes "pages_any E U" "dbdataLoadPage E c n = (rc, Some a, m)"
  shows "m = int U" "length a = U + 100" "cell_sizes a 0" "cell_sizes a 100"
proof -
  obtain z pg where "a = pg @ replicate 100 0" "m = int (length pg)" "dbpage E z n = (Some pg, rc)"
    using assms(2) by (auto simp: dbdataLoadPage_def Let_def split: option.splits if_splits prod.splits)
  moreover from this(3) have "length pg = U \<and> cell_sizes (pg @ replicate 100 0) 0 \<and> cell_sizes (pg @ replicate 100 0) 100"
    using assms(1) unfolding pages_any_def by (metis fst_conv)
  ultimately show "m = int U" "length a = U + 100" "cell_sizes a 0" "cell_sizes a 100" by simp_all
qed

section \<open>One turn\<close>

lemma page_off_cases: "page_off c = 0 \<or> page_off c = 100"
  by (simp add: page_off_def)

definition load_post :: "dbdata_env \<Rightarrow> nat \<Rightarrow> DbdataCursor \<Rightarrow> int option \<times> DbdataCursor \<Rightarrow> bool" where
  "load_post E U c rc \<longleftrightarrow>
     pRec (snd rc) = pRec c \<and> bOnePage (snd rc) = bOnePage c \<and> szDb (snd rc) = szDb c \<and> pgno_in (snd rc) \<and>
     (\<not> bOnePage c \<longrightarrow> iPgno c \<le> iPgno (snd rc)) \<and>
     (case fst rc of
        Some r \<Rightarrow> r = SQLITE_OK \<longrightarrow> aPage (snd rc) = None
      | None \<Rightarrow> (bOnePage c \<or> iPgno (snd rc) \<le> szDb c) \<and> nPage (snd rc) = int U \<and>
          (\<exists>a. aPage (snd rc) = Some a \<and> length a = U + 100 \<and> cell_sizes a 0 \<and> cell_sizes a 100))"

lemma safe_load_loop:
  assumes "pages_any E U"
  shows "aPage c = None \<Longrightarrow> pgno_in c \<Longrightarrow> (\<not> b \<Longrightarrow> \<not> bOnePage c \<and> nat (szDb c + 1 - iPgno c) < k) \<Longrightarrow> safe b (load_post E U c) (load_loop k E c)"
proof (induction k arbitrary: c)
  case 0
  then show ?case by auto
next
  case (Suc k)
  show ?case
  proof (cases "\<not> bOnePage c \<and> iPgno c > szDb c")
    case True
    then show ?thesis using Suc.prems(1,2) by (simp add: load_post_def)
  next
    case False
    obtain rc a n where ld: "dbdataLoadPage E c (iPgno c mod 2 ^ 32) = (rc, a, n)" by (metis prod_cases3)
    show ?thesis
    proof (cases "rc \<noteq> SQLITE_OK \<or> a \<noteq> None")
      case True
      then show ?thesis using False ld LoadPage_any [OF assms, of c "iPgno c mod 2 ^ 32" rc _ n] Suc.prems(2)
        by (cases a) (auto simp: load_post_def pgno_in_def Let_def)
    next
      case none: False
      let ?c = "c\<lparr>aPage := None, nPage := n, iPgno := to_s32 (iPgno c + 1)\<rparr>"
      have s32: "to_s32 (iPgno c + 1) = iPgno c + 1" if "\<not> bOnePage c"
        using that False Suc.prems(2) by (intro to_s32_small) (auto simp: pgno_in_def)
      have "pgno_in ?c" using Suc.prems(2) s32 by (auto simp: pgno_in_def)
      then have "safe b (load_post E U ?c) (load_loop k E ?c)" using Suc.prems False s32 by (intro Suc.IH) auto
      then have "safe b (load_post E U c) (load_loop k E ?c)"
        by (rule safe_mono) (use s32 in \<open>auto simp: load_post_def split: option.splits\<close>)
      then show ?thesis using False none ld by auto
    qed
  qed
qed

lemma page_in_a:
  assumes "page_in E U T c" "pages_any E U"
  obtains a where "aPage c = Some a" "length a = U + 100" "cell_sizes a 0" "cell_sizes a 100" "nPage c = int U" "512 \<le> U" "U \<le> 65536"
    "0 \<le> nCell c" "nCell c \<le> 65535"
  using assms by (auto simp: page_in_def pages_any_def)

text \<open>After the page has been fetched; the number of pages that are left.\<close>

definition pages_left :: "DbdataCursor \<Rightarrow> nat" where
  "pages_left c = nat (szDb c + 1 - iPgno c)"

definition page_post :: "dbdata_env \<Rightarrow> nat \<Rightarrow> DbdataTable \<Rightarrow> DbdataCursor \<Rightarrow> int option \<times> DbdataCursor \<Rightarrow> bool" where
  "page_post E U T c rc \<longleftrightarrow>
     bOnePage (snd rc) = bOnePage c \<and> szDb (snd rc) = szDb c \<and> pgno_in (snd rc) \<and>
     (\<not> bOnePage c \<longrightarrow> iPgno c \<le> iPgno (snd rc)) \<and>
     (case fst rc of
        Some r \<Rightarrow> r = SQLITE_OK \<longrightarrow> aPage (snd rc) = None \<and> pRec (snd rc) = None
      | None \<Rightarrow> page_in E U T (snd rc) \<and> turn_in E U T (snd rc) \<and>
          (if aPage c = None then (bOnePage c \<or> iPgno (snd rc) \<le> szDb c) \<and> pRec (snd rc) = None else snd rc = c))"

lemma safe_load_page:
  assumes "pages_any E U" "turn_in E U T c" "iOff = 0 \<or> iOff = 100" "\<not> b \<Longrightarrow> aPage c = None \<Longrightarrow> \<not> bOnePage c \<and> pages_left c < k"
  shows "safe b (page_post E U T c) (load_page k E T iOff c)"
proof (cases "aPage c = None")
  case False
  then show ?thesis using assms(2) by (auto simp: load_page_def turn_in_def page_post_def)
next
  case True
  have rec: "pRec c = None" using assms(2) True by (simp add: turn_in_def)
  have U: "512 \<le> U" using assms(1) by (simp add: pages_any_def)
  have load: "safe b (load_post E U c) (load_loop k E c)"
    using assms(2,4) True by (intro safe_load_loop [OF assms(1)]) (auto simp: pages_left_def turn_in_def)
  have "safe b (page_post E U T c) (case x of (r, c) \<Rightarrow>
      if r \<noteq> None then Ret (r, c)
      else bind_run (get_uint16 (the (aPage c)) (iOff + 3)) (\<lambda>n. Ret (None, c\<lparr>iCell := (if bPtr T then - 2 else 0), nCell := n\<rparr>)))"
    if p: "load_post E U c x" for x
  proof (cases "fst x")
    case (Some r)
    then show ?thesis using p rec by (cases x) (auto simp: load_post_def page_post_def)
  next
    case None
    obtain c' where x: "x = (None, c')" using None by (cases x) simp
    obtain a where a: "aPage c' = Some a" "length a = U + 100" "cell_sizes a 0" "cell_sizes a 100"
      using p by (auto simp: load_post_def x)
    have "safe b (\<lambda>n. 0 \<le> n \<and> n \<le> 65535) (get_uint16 a (iOff + 3))"
      using assms(3) a(2) U by (intro safe_get_uint16) auto
    then show ?thesis unfolding x using p a rec True
      by (auto simp: load_post_def page_post_def x turn_in_def page_in_def pgno_in_def elim!: safe_bind)
  qed
  then show ?thesis unfolding load_page_def using True by (simp only: if_False simp_thms) (rule safe_bind [OF load])
qed

section \<open>Loading a record\<close>

definition same_place :: "DbdataCursor \<Rightarrow> DbdataCursor \<Rightarrow> bool" where
  "same_place c c' \<longleftrightarrow>
     aPage c' = aPage c \<and> nPage c' = nPage c \<and> nCell c' = nCell c \<and> iCell c' = iCell c \<and>
     iPgno c' = iPgno c \<and> bOnePage c' = bOnePage c \<and> szDb c' = szDb c"

definition fresh_rec :: "DbdataCursor \<Rightarrow> bool" where
  "fresh_rec c \<longleftrightarrow> (\<exists>rec. pRec c = Some rec \<and> int (length rec) = nRec c + 100 \<and> 0 \<le> nRec c \<and> nRec c < 2 ^ 31)"

lemma page_in_same: "same_place c c' \<Longrightarrow> page_in E U T c' \<longleftrightarrow> page_in E U T c"
  by (simp add: same_place_def page_in_def)

lemma safe_overflow_loop:
  assumes "pages_any E U" "nPage c = int U" "int (length rec0) = P + 100"
  shows "length rec = length rec0 \<Longrightarrow> 0 \<le> r \<Longrightarrow> r \<le> P \<Longrightarrow> nat r < k \<Longrightarrow>
    safe b (\<lambda>(rc, rec). rc \<noteq> Some SQLITE_OK \<and> length rec = length rec0) (overflow_loop k E c P r pgno rec)"
proof (induction k arbitrary: r pgno rec)
  case (Suc k)
  show ?case
  proof (cases "r > 0")
    case True
    have U: "512 \<le> U" using assms(1) by (simp add: pages_any_def)
    obtain rc a n where ld: "dbdataLoadPage E c pgno = (rc, a, n)" by (metis prod_cases3)
    show ?thesis
    proof (cases "rc \<noteq> SQLITE_OK \<or> a = None")
      case rc: True
      then show ?thesis using True ld Suc.prems(1) by (auto split: option.splits)
    next
      case False
      then obtain a' where a: "a = Some a'" and rc: "rc = SQLITE_OK" by auto
      note LoadPage_any [OF assms(1) ld [unfolded a]]
      then have a': "n = int U" "length a' = U + 100" by simp_all
      define m where "m = (if nPage c - 4 > r then r else nPage c - 4)"
      have m: "0 < m" "m \<le> r" "m \<le> int U - 4" using True U by (auto simp: m_def assms(2))
      have cp: "safe b (\<lambda>rec'. length rec' = length rec) (copy rec (P - r) a' 4 m)"
        using m Suc.prems assms(3) a'(2) by (intro safe_copy) auto
      have nx: "safe b (\<lambda>n. True) (get_uint32 a' 0)" using a'(2) by (intro safe_get_uint32) auto
      have "safe b (\<lambda>(rc, rec). rc \<noteq> Some SQLITE_OK \<and> length rec = length rec0)
          (bind_run (copy rec (P - r) a' 4 m) (\<lambda>rec. bind_run (get_uint32 a' 0) (\<lambda>pgno. overflow_loop k E c P (r - m) pgno rec)))"
        using Suc.prems m by (intro safe_bind [OF cp] safe_bind [OF nx] Suc.IH) auto
      then show ?thesis using True ld a rc a'(1) assms(2) by (simp add: m_def Let_def)
    qed
  qed (use Suc.prems in simp)
qed simp

lemma local_size_any:
  assumes "512 \<le> U" "U \<le> 65536" "0 \<le> P" "s64 P"
  obtains m where "local_size (int U) tbl P = Ret m" "0 \<le> m" "m \<le> P"
proof -
  define X where "X = (if tbl then int U - 35 else ((int U - 12) * 64 sdiv 255) - 23)"
  define M where "M = ((int U - 12) * 32 sdiv 255) - 23"
  define K where "K = to_s32 (M + (to_s64 (P - M) smod (int U - 4)))"
  have q: "(int U - 12) * n sdiv 255 = (int U - 12) * n div 255" if "0 \<le> n" for n
    using assms(1) that by (simp add: signed_divide_int_def sgn_if)
  have q32: "(int U - 12) * 32 sdiv 255 = (int U - 12) * 32 div 255" and q64: "(int U - 12) * 64 sdiv 255 = (int U - 12) * 64 div 255"
    by (rule q, simp)+
  have M: "0 \<le> M" "M \<le> X" "X < 65536"
    unfolding M_def X_def q32 q64 using assms(1,2) by (cases tbl; simp; linarith)+
  have K: "0 \<le> K" if "X < P"
  proof -
    have "to_s64 (P - M) = P - M" using that M assms(3,4) by (intro to_s64_id) (simp add: s64_def)
    then have "to_s64 (P - M) smod (int U - 4) = (P - M) mod (int U - 4)"
      using that M assms(1) by (simp add: signed_modulo_int_def signed_divide_int_def sgn_if minus_div_mult_eq_mod)
    moreover have "0 \<le> (P - M) mod (int U - 4)" "(P - M) mod (int U - 4) < int U - 4" using assms(1) by simp_all
    ultimately show ?thesis using M assms(2) by (simp add: K_def to_s32_small)
  qed
  have "local_size (int U) tbl P = Ret (if P \<le> X then to_s32 P else if K \<le> X then K else M)"
    using assms(1) by (simp add: local_size_def Let_def X_def M_def K_def)
  moreover have "to_s32 P = P" if "P \<le> X" using that M assms(3) by (simp add: to_s32_small)
  ultimately show thesis using M K assms(3)
    by (intro that [of "if P \<le> X then P else if K \<le> X then K else M"]) auto
qed

lemma safe_load_payload:
  assumes "pages_any E U" "aPage c = Some a" "length a = U + 100" "nPage c = int U" "s64 P" "P \<le> - 100 \<or> 0 \<le> P"
    and "0 \<le> iOff" "0 \<le> P \<Longrightarrow> 0 \<le> m \<and> m \<le> P" "m + iOff \<le> int U"
  shows "safe b (\<lambda>(r, c'). case r of
      Some rc \<Rightarrow> rc \<noteq> SQLITE_OK
    | None \<Rightarrow> same_place c c' \<and> fresh_rec c')
    (load_payload E iOff P m c)"
proof (cases "malloc64 (api E) (to_u64 (P + 100))")
  case False
  then show ?thesis by (simp add: load_payload_def)
next
  case True
  then have lim: "0 < to_u64 (P + 100)" "to_u64 (P + 100) \<le> 2147483391" using assms(1) by (simp_all add: pages_any_def)
  have P: "0 \<le> P"
  proof (rule ccontr)
    assume "\<not> 0 \<le> P"
    then have neg: "P + 100 \<le> 0" "- (2 ^ 63) \<le> P" using assms(5,6) by (simp_all add: s64_def)
    show False
    proof (cases "P + 100 = 0")
      case False
      then have "to_u64 (P + 100) = P + 100 + 2 ^ 64"
        using neg mod_pos_pos_trivial [of "P + 100 + 2 ^ 64" "2 ^ 64"] mod_add_self2 [of "P + 100" "2 ^ 64"]
        unfolding to_u64_def by fastforce
      then show False using lim neg by simp
    qed (use lim in \<open>simp add: to_u64_def\<close>)
  qed
  then have "P + 100 \<le> 2147483391" using lim(2) assms(5) by (simp add: to_u64_def s64_def)
  then have P31: "P < 2 ^ 31" "to_s32 P = P" using P by (simp_all add: to_s32_small)
  let ?rec = "replicate (nat (P + 100)) 0 :: byte list" and ?c = "c\<lparr>nRec := P\<rparr>"
  have m: "0 \<le> m" "m \<le> P" using assms(8) P by simp_all
  have cp: "safe b (\<lambda>rec. length rec = length ?rec) (copy ?rec 0 a iOff m)"
    using m assms(3,7,9) P by (intro safe_copy) auto
  have nx: "safe b (\<lambda>n. True) (get_uint32 a (iOff + m))"
    using m assms(3,7,9) by (intro safe_get_uint32) auto
  have ov: "safe b (\<lambda>(rc, rec'). rc \<noteq> Some SQLITE_OK \<and> length rec' = length ?rec)
      (if P > m then bind_run (get_uint32 a (iOff + m)) (\<lambda>pgno. overflow_loop (Suc (nat (P - m))) E ?c P (P - m) pgno rec) else Ret (None, rec))"
    if rec: "length rec = length ?rec" for rec
  proof (cases "P > m")
    case True
    have "safe b (\<lambda>(rc, rec'). rc \<noteq> Some SQLITE_OK \<and> length rec' = length ?rec)
        (overflow_loop (Suc (nat (P - m))) E ?c P (P - m) pgno rec)" for pgno
      by (rule safe_overflow_loop [OF assms(1)]) (use rec m P assms(4) in simp_all)
    then show ?thesis using True by (simp only: if_True) (intro safe_bind [OF nx])
  qed (use rec in simp)
  have fin: "safe b (\<lambda>(r, c'). case r of
      Some rc \<Rightarrow> rc \<noteq> SQLITE_OK
    | None \<Rightarrow> same_place c c' \<and> fresh_rec c')
      (case x of (r, rec) \<Rightarrow> Ret (r, ?c\<lparr>pRec := Some rec\<rparr>))"
    if "case x of (rc, rec') \<Rightarrow> rc \<noteq> Some SQLITE_OK \<and> length rec' = length ?rec" for x
  proof -
    obtain r y where "x = (r, y)" by (cases x)
    then show ?thesis using that P P31(1) by (cases r) (auto simp: same_place_def fresh_rec_def)
  qed
  have eq: "load_payload E iOff P m c = bind_run (copy ?rec 0 a iOff m) (\<lambda>rec. bind_run
      (if P > m then bind_run (get_uint32 a (iOff + m)) (\<lambda>pgno. overflow_loop (Suc (nat (P - m))) E ?c P (P - m) pgno rec) else Ret (None, rec))
      (\<lambda>(r, rec). Ret (r, ?c\<lparr>pRec := Some rec\<rparr>)))"
    using True assms(2) P31(2) by (simp del: bind_run_assoc overflow_loop.simps add: load_payload_def Let_def cong: if_cong)
  show ?thesis unfolding eq by (rule safe_bind [OF cp], rule safe_bind [OF ov], assumption, rule fin)
qed

lemma safe_cell_start:
  assumes c: "aPage c = Some a" "length a = U + 100" "nPage c = int U" "0 \<le> iCell c"
    and t: "rd a iOff = Ret t" "cell_sizes a iOff" "0 \<le> iOff" "p = (if t = 0x02 then 4 else 0)"
  shows "safe b (\<lambda>(nx, off', P, c'). same_place c c' \<and> (if nx then P = 0 else 0 \<le> off' \<and> s64 P \<and> (P \<le> - 100 \<or> 0 \<le> P)))
    (cell_start iOff p h c)"
proof -
  define q where "q = iOff + (8 + p + iCell c * 2)"
  have p0: "p = 0 \<or> p = 4" and q0: "0 \<le> q" using t(3,4) c(4) by (auto simp: q_def)
  have id: "same_place c c" "\<And>k. same_place c (c\<lparr>iIntkey := k\<rparr>)" by (simp_all add: same_place_def)
  show ?thesis
  proof (cases "q > nPage c")
    case True
    then show ?thesis using id by (simp add: cell_start_def cell_offset_def q_def)
  next
    case False
    obtain o' where o': "get_uint16 a q = Ret o'" "0 \<le> o'"
      using safe_get_uint16 [of q a False] q0 False c(2,3) by (cases "get_uint16 a q") auto
    have co: "cell_offset iOff p c = Ret (False, o' + p)" using False o' c(1) by (simp add: cell_offset_def q_def)
    show ?thesis
    proof (cases "o' + p > nPage c")
      case True
      then show ?thesis using id co by (simp add: cell_start_def)
    next
      case le: False
      obtain n P where v: "dbdataGetVarint a (o' + p) = Ret (n, P)" "1 \<le> n" "n \<le> 9" "s64 P"
        using safe_varint [of "o' + p" a False] le c(2,3) o'(2) p0 by (cases "dbdataGetVarint a (o' + p)") auto
      have P: "P \<le> - 100 \<or> 0 \<le> P"
        using t(1,2,4) o'(1) v(1) c(4) unfolding cell_sizes_def q_def by (auto simp: Let_def split: if_splits)
      show ?thesis
      proof (cases "h \<and> o' + p + n < nPage c")
        case True
        have "safe b (\<lambda>(n, v). 1 \<le> n \<and> n \<le> 9 \<and> s64 v) (dbdataGetVarint a (o' + p + n))"
          using True c(2,3) o'(2) p0 v(2) by (intro safe_varint) auto
        then show ?thesis using True co le v P c(1) o'(2) p0 id
          by (cases "dbdataGetVarint a (o' + p + n)") (auto simp: cell_start_def)
      next
        case False
        then show ?thesis using co le v P c(1) o'(2) p0 id by (auto simp: cell_start_def)
      qed
    qed
  qed
qed

text \<open>A record that was loaded; otherwise the next page is next, or there is an error.\<close>

definition rec_post :: "dbdata_env \<Rightarrow> nat \<Rightarrow> DbdataTable \<Rightarrow> DbdataCursor \<Rightarrow> int option \<times> bool \<times> DbdataCursor \<Rightarrow> bool" where
  "rec_post E U T c x \<longleftrightarrow>
     (case x of (r, nx, c') \<Rightarrow>
        (case r of
           Some rc \<Rightarrow> rc \<noteq> SQLITE_OK
         | None \<Rightarrow> bOnePage c' = bOnePage c \<and> szDb c' = szDb c \<and> iPgno c' = iPgno c \<and>
             (\<not> nx \<longrightarrow> page_in E U T c' \<and> rec_in c' \<and> iCell c' = iCell c \<and> nCell c' = nCell c \<and> iCell c < nCell c)))"

lemma safe_start_record: "fresh_rec c \<Longrightarrow> safe b (\<lambda>c'. rec_in c' \<and> same_place c c') (start_record k c)"
proof -
  assume "fresh_rec c"
  then obtain rec where rec: "pRec c = Some rec" "int (length rec) = nRec c + 100" "0 \<le> nRec c" "nRec c < 2 ^ 31"
    by (auto simp: fresh_rec_def)
  then have "safe b (\<lambda>(n, v). 1 \<le> n \<and> n \<le> 9 \<and> s64 v) (dbdataGetVarint rec 0)" by (intro safe_varint) auto
  then show ?thesis using rec by (cases "dbdataGetVarint rec 0") (auto simp: start_record_def rec_in_def same_place_def)
qed

text \<open>The local part of the payload, when its size is no negative number close to zero.\<close>

lemma local_size_exists:
  assumes "512 \<le> U" "U \<le> 65536" "P \<le> - 100 \<or> 0 \<le> P" "s64 P"
  obtains m where "local_size (int U) h P = Ret m" "0 \<le> P \<Longrightarrow> 0 \<le> m \<and> m \<le> P"
proof (cases "0 \<le> P")
  case True
  then show thesis using local_size_any [OF assms(1,2) True assms(4), of h] that by metis
next
  case False
  then have "P \<le> (if h then int U - 35 else ((int U - 12) * 64 sdiv 255) - 23)"
    using assms by (auto simp: signed_divide_int_def sgn_if)
  then have "local_size (int U) h P = Ret (to_s32 P)" by (simp add: local_size_def)
  then show thesis using that False by auto
qed

lemma safe_record_rest:
  assumes "pages_any E U" "page_in E U T c" "iCell c < nCell c" "same_place c c'"
    and "if nx then P = 0 else 0 \<le> off' \<and> s64 P \<and> (P \<le> - 100 \<or> 0 \<le> P)"
  shows "safe b (rec_post E U T c)
    (bind_run (local_size (nPage c') h P) (\<lambda>m.
       if nx \<or> m + off' > nPage c' then Ret (None, True, c')
       else bind_run (load_payload E off' P m c') (\<lambda>(r, d).
         if r \<noteq> None then Ret (r, False, d) else bind_run (start_record h d) (\<lambda>e. Ret (None, False, e)))))"
proof -
  have pin: "page_in E U T c'" using page_in_same [OF assms(4)] assms(2) by simp
  obtain a where a: "aPage c' = Some a" "length a = U + 100" "nPage c' = int U" "512 \<le> U" "U \<le> 65536"
    using page_in_a [OF pin assms(1)] by metis
  have "P \<le> - 100 \<or> 0 \<le> P" and s: "s64 P" using assms(5) by (auto simp: s64_def split: if_splits)
  then obtain m where m: "local_size (int U) h P = Ret m" "0 \<le> P \<Longrightarrow> 0 \<le> m \<and> m \<le> P"
    using local_size_exists [OF a(4,5), of P h] s by metis
  show ?thesis
  proof (cases "nx \<or> m + off' > int U")
    case True
    then show ?thesis using m(1) a(3) assms(4) by (simp add: rec_post_def same_place_def)
  next
    case ok: False
    have pay: "safe b (\<lambda>(r, d). case r of Some rc \<Rightarrow> rc \<noteq> SQLITE_OK | None \<Rightarrow> same_place c' d \<and> fresh_rec d) (load_payload E off' P m c')"
      using ok assms(5) m(2) a by (intro safe_load_payload [OF assms(1), of _ a]) (auto split: if_splits)
    have fin: "safe b (rec_post E U T c) (case y of (r, d) \<Rightarrow>
        if r \<noteq> None then Ret (r, False, d) else bind_run (start_record h d) (\<lambda>e. Ret (None, False, e)))"
      if y: "case y of (r, d) \<Rightarrow> (case r of Some rc \<Rightarrow> rc \<noteq> SQLITE_OK | None \<Rightarrow> same_place c' d \<and> fresh_rec d)" for y
    proof (cases "fst y")
      case (Some rc)
      then show ?thesis using y by (cases y) (auto simp: rec_post_def)
    next
      case None
      then obtain d where d: "y = (None, d)" "same_place c' d" "fresh_rec d" using y by (cases y) auto
      have "rec_post E U T c (None, False, e)" if "rec_in e \<and> same_place d e" for e
        using that d(2) assms(2-4) page_in_same [of c e] by (simp add: rec_post_def same_place_def)
      then show ?thesis using safe_start_record [OF d(3), of b h] d(1) by (cases "start_record h d") auto
    qed
    have "safe b (rec_post E U T c) (bind_run (load_payload E off' P m c') (\<lambda>(r, d).
        if r \<noteq> None then Ret (r, False, d) else bind_run (start_record h d) (\<lambda>e. Ret (None, False, e))))"
      by (rule safe_bind [OF pay], rule fin)
    then show ?thesis using m(1) ok a(3) by simp
  qed
qed

lemma safe_load_record:
  assumes "pages_any E U" "page_in E U T c" "\<not> bPtr T" "iOff = 0 \<or> iOff = 100"
  shows "safe b (rec_post E U T c) (load_record E iOff c)"
proof -
  obtain a where a: "aPage c = Some a" "length a = U + 100" "cell_sizes a 0" "cell_sizes a 100" "nPage c = int U" "512 \<le> U"
    using page_in_a [OF assms(2,1)] by metis
  have ic: "0 \<le> iCell c" using assms(2,3) by (simp add: page_in_def)
  have "safe False (\<lambda>x. 0 \<le> x \<and> x < 256) (rd a iOff)" using assms(4) a(2,6) by (intro safe_rd) auto
  then obtain t where t: "rd a iOff = Ret t" by (cases "rd a iOff") auto
  define p where "p = (if t = 0x02 then 4 else 0 :: int)"
  define h where "h \<longleftrightarrow> t = 0x0d"
  show ?thesis
  proof (cases "t \<in> {0x02, 0x0a, 0x0d} \<and> iCell c < nCell c")
    case False
    then show ?thesis using t a(1) by (auto simp: load_record_def rec_post_def Let_def)
  next
    case True
    have cs: "safe b (\<lambda>(nx, off', P, c'). same_place c c' \<and> (if nx then P = 0 else 0 \<le> off' \<and> s64 P \<and> (P \<le> - 100 \<or> 0 \<le> P)))
        (cell_start iOff p h c)"
      using assms(4) a by (intro safe_cell_start [OF a(1,2,5) ic t]) (auto simp: p_def)
    have "load_record E iOff c = bind_run (cell_start iOff p h c) (\<lambda>(nx, off', P, c').
        bind_run (local_size (nPage c') h P) (\<lambda>m.
          if nx \<or> m + off' > nPage c' then Ret (None, True, c')
          else bind_run (load_payload E off' P m c') (\<lambda>(r, d).
            if r \<noteq> None then Ret (r, False, d) else bind_run (start_record h d) (\<lambda>e. Ret (None, False, e)))))"
      unfolding load_record_def a(1) option.sel t bind_run.simps Let_def p_def [symmetric] h_def [symmetric]
      using True by (simp del: bind_run_assoc)
    moreover have "safe b (rec_post E U T c) (case x of (nx, off', P, c') \<Rightarrow>
        bind_run (local_size (nPage c') h P) (\<lambda>m.
          if nx \<or> m + off' > nPage c' then Ret (None, True, c')
          else bind_run (load_payload E off' P m c') (\<lambda>(r, d).
            if r \<noteq> None then Ret (r, False, d) else bind_run (start_record h d) (\<lambda>e. Ret (None, False, e)))))"
      if "case x of (nx, off', P, c') \<Rightarrow> same_place c c' \<and> (if nx then P = 0 else 0 \<le> off' \<and> s64 P \<and> (P \<le> - 100 \<or> 0 \<le> P))" for x
      using that True safe_record_rest [OF assms(1,2)] by (cases x) (simp del: bind_run_assoc)
    ultimately show ?thesis by (simp only:) (rule safe_bind [OF cs])
  qed
qed

section \<open>The loop\<close>

lemma safe_next_field:
  assumes "page_in E U T c" "rec_in c" "iCell c < nCell c"
  shows "safe b (rec_post E U T c) (next_field c)"
proof -
  obtain r where r: "pRec c = Some r" "0 \<le> nRec c" "int (length r) = nRec c + 100" "nRec c < 2 ^ 31"
      "0 \<le> pHdrPtr c" "pHdrPtr c \<le> nRec c + 9" "nHdr c \<le> pPtr c"
    using assms(2) by (auto simp: rec_in_def)
  show ?thesis
  proof (cases "iField c + 1 > 0 \<and> pHdrPtr c \<le> nRec c")
    case False
    then show ?thesis using assms by (auto simp: next_field_def rec_post_def page_in_def rec_in_def Let_def)
  next
    case True
    have "safe b (\<lambda>(n, v). 1 \<le> n \<and> n \<le> 9 \<and> s64 v) (dbdataGetVarint r (pHdrPtr c))" using r True by (intro safe_varint) auto
    moreover have "0 \<le> dbdataValueBytes t" for t
      using ser_len_ValueBytes [of "nat t"] by (cases "0 \<le> t") (simp_all add: dbdataValueBytes_def)
    ultimately show ?thesis using r True assms(1,3)
      by (cases "dbdataGetVarint r (pHdrPtr c)") (auto simp: next_field_def rec_post_def page_in_def rec_in_def add_increasing2)
  qed
qed

text \<open>A bound for the number of turns that are left.\<close>

definition turns_left :: "DbdataCursor \<Rightarrow> nat" where
  "turns_left c =
     (if aPage c = None then pages_left c * 65540 + 1
      else nat (szDb c - iPgno c) * 65540 + nat (nCell c - iCell c) + 2)"

definition turn_post :: "dbdata_env \<Rightarrow> nat \<Rightarrow> DbdataTable \<Rightarrow> DbdataCursor \<Rightarrow> int option \<times> DbdataCursor \<Rightarrow> bool" where
  "turn_post E U T c x \<longleftrightarrow>
     (case fst x of
        Some rc \<Rightarrow> rc = SQLITE_OK \<longrightarrow> row_in E U T (snd x)
      | None \<Rightarrow> turn_in E U T (snd x) \<and> bOnePage (snd x) = bOnePage c \<and> szDb (snd x) = szDb c \<and>
          (bOnePage c \<longrightarrow> aPage (snd x) \<noteq> None) \<and> (\<not> bOnePage c \<or> aPage c \<noteq> None \<longrightarrow> turns_left (snd x) < turns_left c))"

lemma next_page_post:
  assumes "aPage c \<noteq> None" "pgno_in c" "pRec d = None" "bOnePage d = bOnePage c" "szDb d = szDb c" "iPgno d = iPgno c"
  shows "turn_post E U T c (next_page d)"
proof (cases "bOnePage c")
  case True
  then show ?thesis using assms by (auto simp: next_page_def turn_post_def row_in_def turn_in_def pgno_in_def)
next
  case False
  then have "to_s32 (iPgno c + 1) = iPgno c + 1" using assms(1,2) by (intro to_s32_small) (auto simp: pgno_in_def)
  then show ?thesis using False assms by (auto simp: next_page_def turn_post_def turn_in_def pgno_in_def turns_left_def pages_left_def)
qed

lemma safe_next_data:
  assumes "pages_any E U" "page_in E U T c" "turn_in E U T c" "\<not> bPtr T" "iOff = 0 \<or> iOff = 100"
  shows "safe b (turn_post E U T c) (next_data E iOff c)"
proof -
  have p: "aPage c \<noteq> None" "pgno_in c" using assms(2,3) by (auto simp: page_in_def turn_in_def)
  have "safe b (rec_post E U T c) (if pRec c = None then load_record E iOff c else next_field c)"
    using assms safe_load_record safe_next_field by (auto simp: turn_in_def)
  moreover have "turn_post E U T c (if r \<noteq> None then (r, d)
      else if nx then next_page (d\<lparr>pRec := None\<rparr>)
      else if iField d < 0 \<or> pHdrPtr d < nHdr d then (Some SQLITE_OK, d)
      else (None, d\<lparr>pRec := None, iCell := iCell d + 1\<rparr>))" if x: "rec_post E U T c (r, nx, d)" for r nx d
  proof -
    consider rc where "r = Some rc" | "r = None" nx | "r = None" "\<not> nx" by (cases r) auto
    then show ?thesis
    proof cases
      case 1
      then show ?thesis using x by (simp add: rec_post_def turn_post_def)
    next
      case 2
      then show ?thesis using x p by (auto simp: rec_post_def intro!: next_page_post)
    next
      case 3
      then have d: "page_in E U T d" "rec_in d" "iCell d = iCell c" "nCell d = nCell c" "iCell c < nCell c"
          "bOnePage d = bOnePage c" "szDb d = szDb c" "iPgno d = iPgno c"
        using x by (auto simp: rec_post_def)
      moreover have "pRec d \<noteq> None" "aPage d \<noteq> None" using d(1,2) by (auto simp: rec_in_def page_in_def)
      ultimately show ?thesis using 3 p assms(4)
        by (auto simp: turn_post_def row_in_def turn_in_def page_in_def pgno_in_def turns_left_def)
    qed
  qed
  ultimately show ?thesis unfolding next_data_def by (elim safe_bind) auto
qed

lemma safe_next_pointer:
  assumes "pages_any E U" "page_in E U T c" "turn_in E U T c" "bPtr T" "iOff = 0 \<or> iOff = 100"
  shows "safe b (turn_post E U T c) (next_pointer iOff c)"
proof -
  obtain a where a: "aPage c = Some a" "length a = U + 100" "512 \<le> U" using page_in_a [OF assms(2,1)] by metis
  have r: "pRec c = None" "pgno_in c" using assms(3,4) by (simp_all add: turn_in_def)
  have rd: "safe b (\<lambda>x. 0 \<le> x \<and> x < 256) (rd a iOff)" using a(2,3) assms(5) by (intro safe_rd) auto
  have post: "turn_post E U T c (if iCell d \<ge> nCell d then next_page d else (Some SQLITE_OK, d))"
    if "d = c\<lparr>iCell := nCell c + 1\<rparr> \<or> d = c\<lparr>iCell := iCell c + 1\<rparr>" for d
    using that a(1) r assms(2,4)
    by (auto intro!: next_page_post) (auto simp: turn_post_def row_in_def turn_in_def page_in_def pgno_in_def)
  show ?thesis unfolding next_pointer_def a(1) option.sel
    using post [of "c\<lparr>iCell := nCell c + 1\<rparr>"] post [of "c\<lparr>iCell := iCell c + 1\<rparr>"]
    by (intro safe_bind [OF rd]) (simp add: Let_def split: if_splits)
qed

lemma safe_next_turn:
  assumes "pages_any E U" "turn_in E U T c" "\<not> b \<Longrightarrow> aPage c = None \<Longrightarrow> \<not> bOnePage c \<and> pages_left c < k"
  shows "safe b (turn_post E U T c) (next_turn k E T c)"
proof -
  have "safe b (turn_post E U T c) (case x of (r, d) \<Rightarrow>
      if r \<noteq> None then Ret (r, d) else if bPtr T then next_pointer (page_off c) d else next_data E (page_off c) d)"
    if x: "page_post E U T c x" for x
  proof (cases "fst x")
    case (Some rc)
    then show ?thesis using x by (cases x) (auto simp: page_post_def turn_post_def row_in_def turn_in_def)
  next
    case None
    then obtain d where d: "x = (None, d)" by (cases x) simp
    have pin: "page_in E U T d" "turn_in E U T d" using x by (simp_all add: page_post_def d)
    have turn: "safe b (turn_post E U T d) (if bPtr T then next_pointer (page_off c) d else next_data E (page_off c) d)"
      using pin page_off_cases [of c] safe_next_pointer [OF assms(1) pin] safe_next_data [OF assms(1) pin] by auto
    have "turns_left d \<le> turns_left c" if "\<not> bOnePage c \<or> aPage c \<noteq> None"
    proof (cases "aPage c = None")
      case True
      have "nat (szDb d - iPgno d) + 1 \<le> pages_left c" using that True x by (auto simp: page_post_def d pages_left_def)
      moreover obtain a where "nat (nCell d - iCell d) \<le> 65537" "aPage d = Some a" using pin(1) by (auto simp: page_in_def split: if_splits)
      ultimately show ?thesis using True mult_le_mono1 [of "nat (szDb d - iPgno d) + 1" "pages_left c" 65540]
        by (simp add: turns_left_def)
    next
      case False
      then show ?thesis using x by (auto simp: page_post_def d)
    qed
    moreover have "bOnePage d = bOnePage c" "szDb d = szDb c" "aPage d \<noteq> None" using x by (auto simp: page_post_def d page_in_def)
    ultimately have "turn_post E U T c y" if "turn_post E U T d y" for y
      using that by (auto simp: turn_post_def split: option.splits)
    then have "safe b (turn_post E U T c) (if bPtr T then next_pointer (page_off c) d else next_data E (page_off c) d)"
      by (rule safe_mono [OF turn, rotated])
    then show ?thesis by (simp add: d)
  qed
  moreover have "safe b (page_post E U T c) (load_page k E T (page_off c) c)"
    by (rule safe_load_page [OF assms(1,2) page_off_cases]) (use assms(3) in auto)
  ultimately show ?thesis unfolding next_turn_def by (rule safe_bind [rotated])
qed

lemma safe_next_loop:
  assumes "pages_any E U"
  shows "turn_in E U T c \<Longrightarrow> (\<not> b \<Longrightarrow> (\<not> bOnePage c \<or> aPage c \<noteq> None) \<and> turns_left c \<le> k) \<Longrightarrow>
    safe b (\<lambda>(rc, c'). rc = SQLITE_OK \<longrightarrow> row_in E U T c') (next_loop k E T c)"
proof (induction k arbitrary: c)
  case 0
  have "0 < turns_left c" by (simp add: turns_left_def)
  then show ?case using 0 by (cases b) simp_all
next
  case (Suc k)
  have turn: "safe b (turn_post E U T c) (next_turn (Suc k) E T c)"
    using Suc.prems by (intro safe_next_turn [OF assms]) (auto simp: turns_left_def)
  have "safe b (\<lambda>(rc, c'). rc = SQLITE_OK \<longrightarrow> row_in E U T c')
      (case x of (r, c) \<Rightarrow> (case r of Some rc \<Rightarrow> Ret (rc, c) | None \<Rightarrow> next_loop k E T c))" if x: "turn_post E U T c x" for x
  proof (cases "fst x")
    case (Some rc)
    then show ?thesis using x by (cases x) (simp add: turn_post_def)
  next
    case None
    then obtain d where d: "x = (None, d)" by (cases x) simp
    have "safe b (\<lambda>(rc, c'). rc = SQLITE_OK \<longrightarrow> row_in E U T c') (next_loop k E T d)"
      using x Suc.prems(2) by (intro Suc.IH) (auto simp: turn_post_def d)
    then show ?thesis by (simp add: d)
  qed
  then show ?case by (simp only: next_loop.simps) (rule safe_bind [OF turn])
qed

section \<open>Any content\<close>

lemma filter_target_start:
  assumes "filter_target E idxNum argv z c = (rc, c')" "aPage c = None" "pRec c = None" "iPgno c = 1" "\<not> bOnePage c" "count_row E z = Some n"
  shows "aPage c' = None \<and> pRec c' = None \<and> (rc = SQLITE_OK \<longrightarrow> (if idxNum AND 0x02 = 0 then \<not> bOnePage c' \<and> iPgno c' = 1 \<and> szDb c' = n else bOnePage c'))"
  using assms by (auto simp: filter_target_def dbdataDbsize_def Let_def split: if_splits)

lemma filter_any:
  assumes "count_row E (schema_of E idxNum argv) = Some n"
  obtains (error) rc T' c' where "dbdataFilter k E idxNum argv T c = Ret (rc, T', c')" "rc \<noteq> SQLITE_OK"
  | (fetch) T' c' where "dbdataFilter k E idxNum argv T c = bind_run (dbdataNext k E T' c') (\<lambda>(rc, c). Ret (rc, T', c))"
    "bPtr T' = bPtr T" "aPage c' = None" "pRec c' = None" "if idxNum AND 0x02 = 0 then \<not> bOnePage c' \<and> iPgno c' = 1 \<and> szDb c' = n else bOnePage c'"
proof -
  define z where "z = schema_of E idxNum argv"
  obtain T0 c0 where r: "dbdataResetCursor T c = (T0, c0)" "bPtr T0 = bPtr T" "aPage c0 = None" "pRec c0 = None" "iPgno c0 = 1" "\<not> bOnePage c0"
    by (simp add: dbdataResetCursor_def split: if_splits)
  obtain rc1 c1 where t: "filter_target E idxNum argv z c0 = (rc1, c1)" by (metis surj_pair)
  note c1 = filter_target_start [OF t r(3-6) assms [folded z_def]]
  obtain rc2 T2 c2 where s: "filter_stmt E T0 c1 = (rc2, T2, c2)" "bPtr T2 = bPtr T0"
      "aPage c2 = aPage c1" "pRec c2 = pRec c1" "bOnePage c2 = bOnePage c1" "iPgno c2 = iPgno c1" "szDb c2 = szDb c1"
    by (cases "tab_stmt T0") (simp_all add: filter_stmt_def)
  have f: "dbdataFilter k E idxNum argv T c =
      (if rc1 \<noteq> SQLITE_OK then Ret (rc1, T0\<lparr>zErrMsg := Some (errmsg E)\<rparr>, c1)
       else if rc2 \<noteq> SQLITE_OK then Ret (rc2, T2\<lparr>zErrMsg := Some (errmsg E)\<rparr>, c2)
       else if bind_schema E z \<noteq> SQLITE_OK then Ret (bind_schema E z, T2, c2)
       else bind_run (dbdataNext k E T2 (c2\<lparr>pStmt := Some z\<rparr>)) (\<lambda>(rc, c). Ret (rc, T2, c)))"
    by (simp add: dbdataFilter_def r(1) schema_of_def [symmetric] z_def [symmetric] t s(1))
  show thesis
  proof (cases "rc1 = SQLITE_OK \<and> rc2 = SQLITE_OK \<and> bind_schema E z = SQLITE_OK")
    case False
    then show thesis using f error by (auto split: if_splits)
  next
    case True
    then have "dbdataFilter k E idxNum argv T c = bind_run (dbdataNext k E T2 (c2\<lparr>pStmt := Some z\<rparr>)) (\<lambda>(rc, c). Ret (rc, T2, c))"
      using f by simp
    then show thesis using c1 s r(2) True by (intro fetch [of T2 "c2\<lparr>pStmt := Some z\<rparr>"]) simp_all
  qed
qed

lemma dbdataValue_any:
  assumes "0 \<le> p" "p + n \<le> int (length a)"
  shows "\<exists>v. dbdataValue t a p n = Ret v"
proof (cases "0 \<le> t \<and> dbdataValueBytes t \<le> n")
  case False
  then show ?thesis by (auto simp: dbdataValue_def)
next
  case True
  then obtain m where t: "t = int m" by (metis nat_eq_iff2)
  let ?bs = "take (ser_len m) (drop (nat p) a)"
  have "int (ser_len m) \<le> n" using True by (simp add: t ser_len_ValueBytes)
  then have "nat p + ser_len m \<le> length a" "length ?bs = ser_len m" using assms by auto
  then have "stored a (nat p) ?bs" by (simp add: stored_def)
  then show ?thesis
    using dbdataValue_stored [of a "nat p" ?bs m n] \<open>length ?bs = ser_len m\<close> \<open>int (ser_len m) \<le> n\<close> assms(1) t by auto
qed

lemma safe_column:
  assumes "pages_any E U" "row_in E U T c" "aPage c \<noteq> None" "\<not> bPtr T \<Longrightarrow> pPtr c \<le> nRec c + 2 ^ 31"
  shows "\<exists>v. dbdataColumn T c i = Ret v"
proof -
  have pin: "page_in E U T c" using assms(2,3) by (auto simp: row_in_def turn_in_def)
  obtain a where a: "aPage c = Some a" "length a = U + 100" "nPage c = int U" "512 \<le> U" using page_in_a [OF pin assms(1)] by metis
  show ?thesis
  proof (cases "bPtr T")
    case True
    have off: "page_off c = 0 \<or> page_off c = 100" by (rule page_off_cases)
    have "\<exists>v. pointer_child c = Ret v"
    proof -
      have child: "\<exists>v. (if q \<le> nPage c then bind_run (get_uint32 (the (aPage c)) q) (\<lambda>n. Ret (ResInt n)) else Ret ResNull) = Ret v" if "0 \<le> q" for q
        using safe_get_uint32 [of q a False] that a by (cases "get_uint32 a q") auto
      show ?thesis
      proof (cases "iCell c < 0")
        case True
        then show ?thesis using child [of "page_off c + 8"] off by (auto simp: pointer_child_def)
      next
        case False
        let ?q = "page_off c + (12 + iCell c * 2)"
        show ?thesis
        proof (cases "?q > nPage c")
          case True
          then show ?thesis using False by (simp add: pointer_child_def)
        next
          case le: False
          then obtain o' where "get_uint16 a ?q = Ret o'" "0 \<le> o'"
            using safe_get_uint16 [of ?q a False] off False a by (cases "get_uint16 a ?q") auto
          then show ?thesis using False le child [of o'] a(1) by (simp add: pointer_child_def)
        qed
      qed
    qed
    then show ?thesis using True by (auto simp: dbdataColumn_def)
  next
    case False
    have rin: "rec_in c" "iField c < 0 \<or> pHdrPtr c < nHdr c" using assms(2,3) False by (auto simp: row_in_def turn_in_def)
    obtain r where r: "pRec c = Some r" "0 \<le> nRec c" "int (length r) = nRec c + 100" "nRec c < 2 ^ 31"
        "0 \<le> pHdrPtr c" "pHdrPtr c \<le> nRec c + 9" "nHdr c \<le> pPtr c"
      using rin(1) by (auto simp: rec_in_def)
    have "\<exists>v. field_value c = Ret v"
    proof (cases "iField c < 0")
      case True
      then show ?thesis by (simp add: field_value_def)
    next
      case iF: False
      then have p: "0 \<le> pPtr c" using rin(2) r(5,7) by simp
      obtain n t where "dbdataGetVarint r (pHdrPtr c) = Ret (n, t)"
        using safe_varint [of "pHdrPtr c" r False] r by (cases "dbdataGetVarint r (pHdrPtr c)") auto
      moreover have "to_s32 (nRec c - pPtr c) = nRec c - pPtr c"
        using assms(4) False p r(2,4) by (simp add: to_s32_def)
      moreover have "\<exists>v. dbdataValue (to_s32 t) r (pPtr c) (nRec c - pPtr c) = Ret v"
        using p r(3) by (intro dbdataValue_any) auto
      ultimately show ?thesis using iF r(1) by (simp add: field_value_def)
    qed
    then show ?thesis using False by (auto simp: dbdataColumn_def)
  qed
qed

lemma rowid_in [simp]:
  "turn_in E U T (c\<lparr>iRowid := k\<rparr>) = turn_in E U T c" "turns_left (c\<lparr>iRowid := k\<rparr>) = turns_left c"
  by (simp_all add: turn_in_def page_in_def rec_in_def pgno_in_def turns_left_def pages_left_def)

text \<open>
  C14: Whatever is on the pages.  Let the pages have one size and be fewer than \<open>2 ^ 31 - 1\<close>, and let no cell pointer lead to a payload of a size between \<open>-99\<close> and \<open>-1\<close>.  Then neither \<^verbatim>\<open>xFilter\<close> nor
  \<^verbatim>\<open>xNext\<close> reads or writes outside of a buffer, for both tables, and if they succeed the cursor is at a row or at the end; they return within a number of turns that is given by
  the number of pages, unless a page number was given with the query and the page has not been fetched yet.  The columns of a row are read inside of the buffers, unless the
  content of the field would begin more than \<open>2 ^ 31\<close> bytes after the end of the record.
\<close>

theorem dbdata_robust:
  assumes "pages_any E U" "count_row E (schema_of E idxNum argv) = Some n" "n < 2 ^ 31 - 1"
  shows "safe (idxNum AND 0x02 \<noteq> 0 \<or> k < nat n * 65540 + 1) (\<lambda>(rc, T', c'). rc = SQLITE_OK \<longrightarrow> row_in E U T' c')
      (dbdataFilter k E idxNum argv T c) \<and>
    (row_in E U T d \<and> aPage d \<noteq> None \<longrightarrow>
      safe (k < turns_left d) (\<lambda>(rc, d'). rc = SQLITE_OK \<longrightarrow> row_in E U T d') (dbdataNext k E T d) \<and>
      (bPtr T \<or> pPtr d \<le> nRec d + 2 ^ 31 \<longrightarrow> (\<exists>v. dbdataColumn T d i = Ret v)))"
proof (intro conjI impI)
  have nxt: "safe b (\<lambda>(rc, c'). rc = SQLITE_OK \<longrightarrow> row_in E U T c') (dbdataNext k E T c)"
    if "turn_in E U T c" "\<not> b \<Longrightarrow> (\<not> bOnePage c \<or> aPage c \<noteq> None) \<and> turns_left c \<le> k" for b T c
    unfolding dbdataNext_def using that
    by (intro safe_next_loop [OF assms(1)]) simp_all
  let ?b = "idxNum AND 0x02 \<noteq> 0 \<or> k < nat n * 65540 + 1"
  show "safe ?b (\<lambda>(rc, T', c'). rc = SQLITE_OK \<longrightarrow> row_in E U T' c') (dbdataFilter k E idxNum argv T c)"
  proof (rule filter_any [OF assms(2), of k T c])
    fix rc T' c' assume "dbdataFilter k E idxNum argv T c = Ret (rc, T', c')" "rc \<noteq> SQLITE_OK"
    then show ?thesis by simp
  next
    fix T' c' assume f: "dbdataFilter k E idxNum argv T c = bind_run (dbdataNext k E T' c') (\<lambda>(rc, c). Ret (rc, T', c))"
      and c': "aPage c' = None" "pRec c' = None" "if idxNum AND 0x02 = 0 then \<not> bOnePage c' \<and> iPgno c' = 1 \<and> szDb c' = n else bOnePage c'"
    have "safe ?b (\<lambda>(rc, d). rc = SQLITE_OK \<longrightarrow> row_in E U T' d) (dbdataNext k E T' c')"
      using c' assms(3) by (intro nxt) (auto simp: turn_in_def pgno_in_def turns_left_def pages_left_def split: if_splits)
    then show ?thesis unfolding f by (rule safe_bind) auto
  qed
  assume d: "row_in E U T d \<and> aPage d \<noteq> None"
  show "safe (k < turns_left d) (\<lambda>(rc, d'). rc = SQLITE_OK \<longrightarrow> row_in E U T d') (dbdataNext k E T d)"
    using d by (intro nxt) (auto simp: row_in_def)
  assume "bPtr T \<or> pPtr d \<le> nRec d + 2 ^ 31"
  then show "\<exists>v. dbdataColumn T d i = Ret v" using safe_column [OF assms(1)] d by blast
qed

text \<open>A file of one page with one small record, and the cursor at its field.\<close>

lemma small_bytes_sizes: "(\<forall>b \<in> set a. uint b < 128) \<Longrightarrow> cell_sizes a i"
proof -
  assume small: "\<forall>b \<in> set a. uint b < 128"
  have "0 \<le> v" if v: "dbdataGetVarint a p = Ret (n, v)" for p n v
  proof -
    have p: "0 \<le> p" "p < int (length a)"
      using v by (auto simp: dbdataGetVarint_def rd_def numeral_eq_Suc split: if_splits)
    define z where "z = a ! nat p"
    have "z \<in> set a" using p by (simp add: z_def nat_less_iff)
    then have z: "rd a p = Ret (uint z)" "uint z < 128" using p small by (simp_all add: rd_def z_def)
    have "(8 :: nat) = Suc 7" by simp
    then have "dbdataGetVarint a p = Ret (1, uint z)" unfolding dbdataGetVarint_def
      by (simp only: varint_loop.simps) (use z byte_bounds [of z] in \<open>simp add: byte_and to_s64_small\<close>)
    then show ?thesis using v byte_bounds(1) [of z] by simp
  qed
  then show ?thesis unfolding cell_sizes_def Let_def by blast
qed

definition small_page :: "byte list" where
  "small_page = replicate 100 0 @ [0x0d, 0, 0, 0, 1, 0, 0, 0, 0, 110, 3, 5, 2, 1, 42] @ replicate 397 0"

definition small_env :: dbdata_env where
  "small_env = ex_env\<lparr>dbpage := (\<lambda>z n. (if n = 1 then Some small_page else None, SQLITE_OK)), count_row := (\<lambda>z. Some 1)\<rparr>"

definition small_cursor :: DbdataCursor where
  "small_cursor = zeroed\<lparr>pStmt := Some (Some ''main''), iPgno := 1, aPage := Some (small_page @ replicate 100 0), nPage := 512, nCell := 1,
     szDb := 1, pRec := Some ([2, 1, 42] @ replicate 100 0), nRec := 3, nHdr := 2, pHdrPtr := 1, pPtr := 2\<rparr>"

lemma small_page_sizes: "cell_sizes (small_page @ replicate 100 0) i"
  by (rule small_bytes_sizes) (auto simp: small_page_def)

lemma small_pages: "pages_any small_env 512"
proof -
  have "length small_page = 512" by (simp add: small_page_def)
  then show ?thesis using small_page_sizes by (auto simp: pages_any_def small_env_def ex_env_def split: if_splits)
qed

lemma small_row: "row_in small_env 512 ex_table small_cursor"
proof -
  have "length (small_page @ replicate 100 0) = 612" by (simp add: small_page_def)
  then show ?thesis using small_page_sizes
    by (simp add: row_in_def turn_in_def page_in_def rec_in_def pgno_in_def small_cursor_def zeroed_def ex_table_def del: length_append)
qed

lemma safe_FalseD: "safe False P m \<Longrightarrow> \<exists>x. m = Ret x"
  by (cases m) simp_all

theorem dbdata_robust_witness:
  "pages_any small_env 512 \<and>
   (\<exists>rc T' c'. dbdataFilter 65541 small_env 0 [] ex_table zeroed = Ret (rc, T', c')) \<and>
   (\<exists>rc d'. dbdataNext 3 small_env ex_table small_cursor = Ret (rc, d')) \<and> (\<exists>v. dbdataColumn ex_table small_cursor 3 = Ret v)"
proof -
  have "count_row small_env (schema_of small_env 0 []) = Some 1" by (simp add: small_env_def)
  note r = dbdata_robust [OF small_pages this _, of 65541 ex_table zeroed] dbdata_robust [OF small_pages this _, of 3 ex_table zeroed small_cursor 3]
  have "safe False (\<lambda>(rc, T', c'). rc = SQLITE_OK \<longrightarrow> row_in small_env 512 T' c') (dbdataFilter 65541 small_env 0 [] ex_table zeroed)"
    using r(1) by simp
  moreover have "aPage small_cursor \<noteq> None" "turns_left small_cursor = 3" "pPtr small_cursor \<le> nRec small_cursor + 2 ^ 31"
    by (simp_all add: small_cursor_def zeroed_def turns_left_def)
  then have "safe False (\<lambda>(rc, d'). rc = SQLITE_OK \<longrightarrow> row_in small_env 512 ex_table d') (dbdataNext 3 small_env ex_table small_cursor)"
    "\<exists>v. dbdataColumn ex_table small_cursor 3 = Ret v"
    using r(2) small_row by auto
  ultimately show ?thesis using small_pages by (auto dest!: safe_FalseD)
qed

section \<open>Where the code fails\<close>

text \<open>The number of a missing page is given: pages are fetched from there on, one after the other.\<close>

lemma to_s32_mod: "to_s32 x mod 2 ^ 32 = x mod 2 ^ 32"
  by (simp add: to_s32_def mod_diff_left_eq)

lemma load_loop_missing:
  assumes "pStmt c = Some z" "bOnePage c" "iPgno c mod 2 ^ 32 = n mod 2 ^ 32" "\<forall>m \<in> {n..<n + int k}. dbpage E z (m mod 2 ^ 32) = (None, SQLITE_OK)"
  shows "load_loop k E c = Running"
  using assms
proof (induction k arbitrary: c n)
  case (Suc k)
  let ?c = "c\<lparr>aPage := None, nPage := 0, iPgno := to_s32 (iPgno c + 1)\<rparr>"
  have "dbpage E z (iPgno c mod 2 ^ 32) = (None, SQLITE_OK)" unfolding Suc.prems(3) using Suc.prems(4) by simp
  moreover have "iPgno ?c mod 2 ^ 32 = (n + 1) mod 2 ^ 32"
    using mod_add_cong [OF Suc.prems(3) refl, of 1] to_s32_mod [of "iPgno c + 1"] by simp
  then have "load_loop k E ?c = Running" using Suc.prems(1,2,4) by (intro Suc.IH [of _ "n + 1"]) auto
  ultimately show ?case using Suc.prems(1,2) by (simp add: dbdataLoadPage_def)
qed simp

text \<open>
  C35: A query for a page that the file does not have.  When \<^verbatim>\<open>pgno=?\<close> is given with a number \<open>n\<close> and no page from \<open>n\<close> on exists, a query of either table does not report the end: it
  goes on fetching pages, and has not returned after any number of turns up to \<open>2 ^ 32 - n\<close>, where the page number has wrapped around.
\<close>

theorem dbdata_missing_page:
  assumes "core_ok E z N" "z = schema_of E idxNum argv" "idxNum AND 0x02 \<noteq> 0" "page_arg E idxNum argv = n" "0 \<le> n"
    and "\<forall>m. n \<le> m \<and> m < 2 ^ 32 \<longrightarrow> dbpage E z m = (None, SQLITE_OK)" "int k \<le> 2 ^ 32 - n"
  shows "query k E nCol idxNum argv T c = Running"
proof -
  obtain T' c' where f: "dbdataFilter k E idxNum argv T c = bind_run (dbdataNext k E T' c') (\<lambda>(rc, c). Ret (rc, T', c))"
    "pStmt c' = Some z" "aPage c' = None"
    "if idxNum AND 0x02 = 0 then \<not> bOnePage c' \<and> szDb c' = N \<and> iPgno c' = 1 else bOnePage c' \<and> iPgno c' = page_arg E idxNum argv"
    by (rule filter_start [OF assms(1,2)])
  let ?c = "c'\<lparr>iRowid := iRowid c' + 1\<rparr>"
  have "dbpage E z (m mod 2 ^ 32) = (None, SQLITE_OK)" if "m \<in> {n..<n + int k}" for m
    using that assms(5-7) by auto
  then have "load_loop k E ?c = Running" using f(2-4) assms(3,4) by (intro load_loop_missing [of _ z n]) auto
  then have "next_loop k E T' ?c = Running"
    using f(3) by (cases k) (simp_all add: next_turn_def load_page_def del: load_loop.simps)
  then show ?thesis using f(1) by (simp add: query_def dbdataNext_def)
qed

lemma dbdata_missing_page_witness: "query 4000000000 ex_env 4 2 [SQLITE_INTEGER 3] ex_table zeroed = Running"
  by (rule dbdata_missing_page [of ex_env "Some ''main''" 2 _ _ 3])
    (simp_all add: core_ok_def ex_env_def schema_of_def page_arg_def value_int_def ref_api_def ex_pages_def)

definition one_page :: "byte list \<Rightarrow> dbdata_env" where
  "one_page pg = ex_env\<lparr>dbpage := (\<lambda>z n. (if n = 2 then Some pg else None, SQLITE_OK))\<rparr>"

text \<open>A cell with a payload of \<open>-1\<close> bytes; and a record with four fields of a gigabyte each, of which nothing is there, before a small one.\<close>

definition negative_page :: "byte list" where
  "negative_page = [0x0d, 0, 0, 0, 1, 0, 0, 0, 0, 10] @ replicate 9 0xff @ [5] @ replicate 492 0"

definition huge_page :: "byte list" where
  "huge_page = [0x0a, 0, 0, 0, 1, 0, 0, 0, 0, 10] @ [23, 22] @ concat (replicate 4 [0x87, 0xff, 0xff, 0xff, 0x7f]) @ [1, 42] @ replicate 478 0"

lemma negative_page_fault: "query 3 (one_page negative_page) 4 2 [SQLITE_INTEGER 2] ex_table zeroed = Fault"
  by code_simp

lemma huge_page_fault: "query 9 (one_page huge_page) 4 2 [SQLITE_INTEGER 2] ex_table zeroed = Fault"
  by code_simp

text \<open>
  Where the tables fail on a file that is not a database in good order.  A cell whose payload has the size \<open>-1\<close> makes \<^verbatim>\<open>xNext\<close> copy that many bytes, which as an unsigned number are
  all there are.  The distance from the content of a field to the end of the record is converted to 32 bits: after fields of more than four gigabytes in all, of which
  nothing is there, the content of a small field is looked for far behind the record.
\<close>

theorem dbdata_findings:
  "query 3 (one_page negative_page) 4 2 [SQLITE_INTEGER 2] ex_table zeroed = Fault \<and>
   query 9 (one_page huge_page) 4 2 [SQLITE_INTEGER 2] ex_table zeroed = Fault"
  using negative_page_fault huge_page_fault by blast

end
