(* ===== verification/Spec2Isabelle.thy ===== *)
theory Spec2Isabelle
  imports Pgtypes Decimal_Sum Inet_Ref Shim Uint_Collation Ieee754 Regexp_Search Sha3_Query Append_Open
    Shell_Csv Shell_Insert Shell_Words Shell_Input Dbdata_Safe
begin

text \<open>
  A verification library for the C code of mvSQLite.

  \<^bold>\<open>The program.\<close>  mvSQLite puts SQLite on a distributed, multi-version page store.  The store and the VFS that
  talks to it are written in Rust; the C code of the repository is what a user of SQLite links or loads:

  \<^item> \<^verbatim>\<open>mvsqlite-pgtypes-ext/\<close>, a loadable extension with the types of PostgreSQL: decimals, UUIDs, IP addresses and
    the table-valued function \<^verbatim>\<open>generate_series\<close>;
  \<^item> \<^verbatim>\<open>mvsqlite-preload/\<close> and \<^verbatim>\<open>mvsqlite-sqlite3/shim.c\<close>, two shims that initialise mvSQLite when a database is
    opened and repeat a statement that was refused because of a conflict;
  \<^item> \<^verbatim>\<open>mvsqlite-sqlite3/shell.c\<close>, the command-line shell of SQLite with its extensions.

  All of them reach the SQLite core only through its interface.  The core, the Rust entry points, the system library and the
  memory allocator are therefore arguments of the definitions: a record of routines with a predicate for what is
  documented of them, and one concrete record that satisfies the predicate and on which the witnesses are evaluated.

  \<^bold>\<open>Correspondence of theories and sources.\<close>

  \<^item> \<open>Prelude\<close>: bytes, C strings, \<^verbatim>\<open>memcmp\<close>, 64-bit wrap-around, and the locale \<open>codec\<close> of conversions that invert each other.
  \<^item> \<open>Sqlite_Api\<close>: \<^verbatim>\<open>sqlite3_value\<close>, results, the table \<^verbatim>\<open>sqlite3_api\<close> (\<open>api_spec\<close>, \<open>ref_api\<close>), registration of functions, and the
    locales \<open>collating_function\<close> (the rules SQLite has for collations) and \<open>vtab_cursor\<close> (a scan of a virtual table).
  \<^item> \<open>Digits\<close>, \<open>Decimal\<close>, \<open>Decimal_Cmp\<close>, \<open>Decimal_Text\<close>, \<open>Decimal_Print\<close>, \<open>Decimal_Double\<close>, \<open>Decimal_Functions\<close>, \<open>Decimal_Sum\<close>: \<^verbatim>\<open>decimal.c\<close>,
    from the loops over arrays of digits to the SQL functions.  \<open>dec_val\<close> is the rational number a decimal denotes.  Arithmetic,
    rounding, the window aggregate and the conversion of doubles are exact; texts are printed inside their buffers and read back as the same number;
    the collation is an order on plain numerals.  The locale \<open>bounded_op\<close> has what addition and multiplication share.
  \<^item> \<open>Ieee\<close>, \<open>Ieee754\<close>: binary64 numbers as words, and \<^verbatim>\<open>ext/misc/ieee754.c\<close> of the shell with its round trips.
  \<^item> \<open>Uuid\<close>: \<^verbatim>\<open>uuid.c\<close>; the parser accepts exactly a grammar stated on its own, an instance of \<open>codec\<close>.
  \<^item> \<open>Ipaddr\<close>, \<open>Inet_Ref\<close>: \<^verbatim>\<open>ipaddr/extension.c\<close> over \<^verbatim>\<open>inet_pton\<close> and \<^verbatim>\<open>inet_ntop\<close> (\<open>inet_spec\<close>, \<open>ref_inet\<close>).  IPv4 networks and containment are
    those of bit prefixes; for IPv6, whose mask is wrong in the code, the theorems say for which addresses the result is the network.
  \<^item> \<open>Generate_Series\<close>, \<open>Series_Scan\<close>, \<open>Series_Rows\<close>, \<open>Series_Query\<close>, \<open>Series_Plan\<close>: \<^verbatim>\<open>series.c\<close>; the cursor, the rows of a scan as the part of an
    arithmetic progression that the constraints admit, LIMIT and OFFSET, and the agreement between planner and filter.
  \<^item> \<open>Pgtypes\<close>: \<^verbatim>\<open>pgtypes_ext.c\<close>, which registers the components in turn.
  \<^item> \<open>Shim\<close>: both shims over one environment record; the locale \<open>retry_loop\<close> is interpreted on each of the two \<^verbatim>\<open>sqlite3_step\<close>.
  \<^item> \<open>Uint_Collation\<close>: \<^verbatim>\<open>ext/misc/uint.c\<close> of the shell, an instance of \<open>collating_function\<close>.
  \<^item> \<open>Keccak\<close>, \<open>Sha3\<close>, \<open>Sha3_Query\<close>: \<^verbatim>\<open>ext/misc/shathree.c\<close>; the unrolled permutation equals the one of FIPS 202, hashing in pieces equals
    hashing the whole for every byte order and alignment (locale \<open>absorbing\<close>), and the byte stream that is hashed for a query; the rows of a query may be endless, and then the function does not return.
  \<^item> \<open>Regexp\<close>: \<^verbatim>\<open>ext/misc/regexp.c\<close>, compiler, automaton and SQL function.  \<open>Regexp_Nfa\<close> shows that the loops over sets of states find a final state
    exactly when a path leads to one; \<open>Regexp_Lang\<close> that the paths through the code of an expression are what the expression
    matches; \<open>Regexp_Compile\<close> that compiling always returns; \<open>Regexp_Syntax\<close> that the compiler builds this code for every text of a grammar of
    patterns; \<open>Regexp_Search\<close> puts them together for the SQL function.  \<open>Utf8\<close> has the encoding of RFC 3629, which pattern and text are written in, and shows what the decoder of the code makes of it.
  \<^item> \<open>Appendvfs\<close>, \<open>Append_File\<close>, \<open>Append_Open\<close>: \<^verbatim>\<open>ext/misc/appendvfs.c\<close>, a database that is appended to another file.  The methods of the file and of the VFS below are
    arguments.  The locale \<open>sqlite_file\<close> has the rules of a file, \<open>working_file\<close> those of one whose calls succeed; they are interpreted on a file in memory and on the appended file over
    it, so that an appended file is again a file.  Reading and writing refine reading and writing a file of its own, the prefix is never changed, and the file is found again when it is opened.
  \<^item> \<open>Shell_Text\<close>, \<open>Shell_Quote\<close>, \<open>Shell_Words\<close>: the routines of \<^verbatim>\<open>shell.c\<close> that quote texts for SQL, C, JSON and HTML, split a dot command into its words and read numbers.  \<open>Shell_Quote\<close> has
    readers for SQL expressions, JSON strings and HTML and shows that each reads back what was quoted; \<open>Shell_Words\<close> that the words of a command survive quoting.
  \<^item> \<open>Shell_Rows\<close>, \<open>Shell_Insert\<close>: \<^verbatim>\<open>shell_callback\<close> with all its modes and the graph of EXPLAIN QUERY PLAN; the INSERT statement of a row has the values of the row.
  \<^item> \<open>Shell_Import\<close>, \<open>Shell_Csv\<close>: the readers, separators and loops of \<^verbatim>\<open>.import\<close>; an import ends, and it reads the rows that were written as CSV.
  \<^item> \<open>Shell_Input\<close>: \<^verbatim>\<open>process_input\<close>, which collects lines to statements with a resumable scanner, equals the loop that scans from the start each time.
  \<^item> \<open>Dbdata\<close>, \<open>Dbdata_Format\<close>, \<open>Dbdata_Scan\<close>, \<open>Dbdata_Safe\<close>: \<^verbatim>\<open>ext/misc/dbdata.c\<close>, which decodes the pages of a database file that may be corrupt.  Every access to a buffer is checked
    in the model: \<open>Fault\<close> is one outside of it, \<open>Running\<close> a loop that has not ended.  \<open>Dbdata_Format\<close> states the file format on its own; \<open>Dbdata_Scan\<close> shows that a scan gives the records of a file
    of this format, through the locale \<open>checked_cursor\<close>, an extension of \<open>vtab_cursor\<close>; \<open>Dbdata_Safe\<close> what holds for any content of the pages, and where the code fails.

  \<^bold>\<open>State and errors.\<close>  A structure is a record and a routine that changes it returns the new one.  A pointer that may be NULL is an option.
  Errors are the result codes of SQLite or constructors of \<open>sql_result\<close>.  \<open>None\<close> as the result of a whole call stands for a crash or a call that does not return; where
  it can occur the theorems say when it does not.  64-bit integers are written out with their wrap-around where
  the code can overflow; sizes are unbounded where the code bounds them before.

  \<^bold>\<open>Tries and bounds.\<close>  Loops that are not structural carry a number of tries, and it is shown to be enough: the automaton needs no more than the number of
  its states plus one for each character (\<open>re_states_correct\<close>); the compiler of expressions no more than
  three times the length of the text plus three (\<open>subcompile_total\<close>), and more do not change its result (\<open>subcompile_Suc\<close>); the loop over
  the statements of \<^verbatim>\<open>sha3_query\<close> no more than the length of its text plus one, while the loop over the rows of a statement is a partial function that returns exactly when the rows come to an end.  The search for
  a marker that does not occur in a text needs one try more than the text is long (\<open>unused_loop_total\<close>), and the loops of \<^verbatim>\<open>.import\<close> one turn more than the file has bytes (\<open>import_terminates\<close>).  A scan of \<^verbatim>\<open>sqlite_dbdata\<close> takes no more turns than \<open>max_turns\<close>
  on a file in good order, and \<open>turns_left\<close> on any of less than \<open>2 ^ 31 - 1\<close> pages; for a page number that the file does not have it takes as many turns as there are page numbers up to \<open>2 ^ 32\<close>.  The retry loops of the shims may not end; that they end as soon as
  the core gives another answer is proved as such.

  \<^bold>\<open>Not modelled.\<close>  The Rust crates, which are not C code; the SQLite headers, which have no code; and the rest of \<^verbatim>\<open>shell.c\<close>: the columnar
  output modes, the creation of a table by \<^verbatim>\<open>.import\<close>, the other dot commands and the options of the program, which are calls of the core and of the operating
  system, and the extensions that are such calls or calls of zlib (fileio, completion, zipfile, sqlar, expert, memtrace).  The copies of
  \<^verbatim>\<open>decimal.c\<close> and \<^verbatim>\<open>series.c\<close> in \<^verbatim>\<open>shell.c\<close> are older versions of the files modelled here.  Releasing memory has no effect on the models.
\<close>

end
